(* ===== verification/Rust_Prelude.thy ===== *)
theory Rust_Prelude
  imports Main "HOL-Library.Multiset"
begin

text \<open>
  The vocabulary every component of the development shares: the types of the Rust language
  and of its standard library that the crates use (\<open>Result\<close>, \<open>Ordering\<close>, \<open>Bound\<close>, panics,
  \<open>usize\<close> arithmetic, the \<open>Vec\<close> operations that panic out of range) and the generic facts on
  lists that are strictly sorted by a key.

  A Rust type with an \<open>Ord\<close> implementation is a type together with a function \<open>f\<close> into a
  linear order: two values compare as their images do.  Every total preorder is of this form,
  and values with the same image need not be the same value, which is what Rust allows.
\<close>

section \<open>Types of the language and the standard library\<close>

datatype ('t, 'e) result = Ok 't | Err 'e

datatype ordering = Less | Equal | Greater

datatype 'q bound = Included 'q | Excluded 'q | Unbounded

datatype panic = Panic string

type_synonym 'a res = "panic + 'a"

definition cmp :: "'q::linorder \<Rightarrow> 'q \<Rightarrow> ordering" where
  "cmp a b = (if a < b then Less else if a = b then Equal else Greater)"

primrec is_ok :: "('t, 'e) result \<Rightarrow> bool" where
  "is_ok (Ok x) = True"
| "is_ok (Err e) = False"

definition res_bind :: "'a res \<Rightarrow> ('a \<Rightarrow> 'b res) \<Rightarrow> 'b res" where
  "res_bind r f = (case r of Inl p \<Rightarrow> Inl p | Inr x \<Rightarrow> f x)"

lemma res_bind_Inr [simp]: "res_bind (Inr x) f = f x"
  by (simp add: res_bind_def)

lemma res_bind_Inl [simp]: "res_bind (Inl p) f = Inl p"
  by (simp add: res_bind_def)

lemma res_bind_eq_Inr: "res_bind r f = Inr y \<longleftrightarrow> (\<exists>x. r = Inr x \<and> f x = Inr y)"
  by (cases r) simp_all

lemma option_eqI: "(\<And>y. x = Some y \<longleftrightarrow> x' = Some y) \<Longrightarrow> x = x'"
  by (cases x; cases x') auto

section \<open>Machine words of the target\<close>

text \<open>\<open>usize\<close> is a 64-bit unsigned integer.\<close>

definition usize_limit :: nat where
  "usize_limit = 2 ^ 64"

definition usize_checked_add :: "nat \<Rightarrow> nat \<Rightarrow> nat option" where
  "usize_checked_add a b = (if a + b < usize_limit then Some (a + b) else None)"

definition usize_saturating_sub :: "nat \<Rightarrow> nat \<Rightarrow> nat" where
  "usize_saturating_sub a b = (if b \<le> a then a - b else 0)"

lemma usize_saturating_sub_eq [simp]: "usize_saturating_sub a b = a - b"
  by (simp add: usize_saturating_sub_def)

lemma usize_checked_add_Some: "usize_checked_add a b = Some c \<Longrightarrow> c = a + b"
  by (simp add: usize_checked_add_def split: if_splits)

section \<open>Vectors\<close>

definition vec_index :: "'a list \<Rightarrow> nat \<Rightarrow> 'a res" where
  "vec_index xs i = (if i < length xs then Inr (xs ! i) else Inl (Panic ''index out of bounds''))"

definition vec_write :: "'a list \<Rightarrow> nat \<Rightarrow> 'a \<Rightarrow> 'a list res" where
  "vec_write xs i x =
     (if i < length xs then Inr (xs[i := x]) else Inl (Panic ''index out of bounds''))"

definition vec_insert :: "'a list \<Rightarrow> nat \<Rightarrow> 'a \<Rightarrow> 'a list res" where
  "vec_insert xs i x =
     (if i \<le> length xs then Inr (take i xs @ x # drop i xs)
      else Inl (Panic ''insertion index should be <= len''))"

definition vec_remove :: "'a list \<Rightarrow> nat \<Rightarrow> ('a \<times> 'a list) res" where
  "vec_remove xs i =
     (if i < length xs then Inr (xs ! i, take i xs @ drop (Suc i) xs)
      else Inl (Panic ''removal index should be < len''))"

definition vec_split_off :: "'a list \<Rightarrow> nat \<Rightarrow> ('a list \<times> 'a list) res" where
  "vec_split_off xs at =
     (if at \<le> length xs then Inr (take at xs, drop at xs)
      else Inl (Panic ''split_off index should be <= len''))"

definition vec_slice :: "'a list \<Rightarrow> nat \<Rightarrow> nat \<Rightarrow> 'a list res" where
  "vec_slice xs s e =
     (if s \<le> e \<and> e \<le> length xs then Inr (take (e - s) (drop s xs))
      else Inl (Panic ''slice index out of range''))"

definition vec_first :: "'a list \<Rightarrow> 'a option" where
  "vec_first xs = (case xs of [] \<Rightarrow> None | x # _ \<Rightarrow> Some x)"

definition vec_last :: "'a list \<Rightarrow> 'a option" where
  "vec_last xs = (if xs = [] then None else Some (last xs))"

definition vec_pop :: "'a list \<Rightarrow> 'a option \<times> 'a list" where
  "vec_pop xs = (if xs = [] then (None, []) else (Some (last xs), butlast xs))"

text \<open>\<open>Vec::retain_mut\<close>: the closure may rewrite the element it is asked about.\<close>

fun vec_retain_mut :: "('a \<Rightarrow> bool \<times> 'a) \<Rightarrow> 'a list \<Rightarrow> 'a list" where
  "vec_retain_mut f [] = []"
| "vec_retain_mut f (x # xs) =
     (case f x of (keep, x') \<Rightarrow> (if keep then x' # vec_retain_mut f xs else vec_retain_mut f xs))"

lemmas vec_simps = vec_index_def vec_write_def vec_insert_def vec_remove_def
  vec_split_off_def vec_slice_def vec_first_def vec_last_def vec_pop_def

section \<open>Lists strictly sorted by a key\<close>

definition strict_by :: "('e \<Rightarrow> 'q::linorder) \<Rightarrow> 'e list \<Rightarrow> bool" where
  "strict_by f xs \<longleftrightarrow> sorted_wrt (\<lambda>x y. f x < f y) xs"

text \<open>What a list of elements holds under each key: the first element with that key.\<close>

definition lookup_by :: "('e \<Rightarrow> 'q) \<Rightarrow> 'e list \<Rightarrow> 'q \<Rightarrow> 'e option" where
  "lookup_by f xs = map_of (map (\<lambda>x. (f x, x)) xs)"

named_theorems strict_by_simps

lemma strict_by_Nil [simp]: "strict_by f []"
  by (simp add: strict_by_def)

lemma strict_by_Cons [strict_by_simps]:
  "strict_by f (x # xs) \<longleftrightarrow> (\<forall>y \<in> set xs. f x < f y) \<and> strict_by f xs"
  by (simp add: strict_by_def)

lemma strict_by_append [strict_by_simps]:
  "strict_by f (xs @ ys) \<longleftrightarrow>
     strict_by f xs \<and> strict_by f ys \<and> (\<forall>x \<in> set xs. \<forall>y \<in> set ys. f x < f y)"
  by (simp add: strict_by_def sorted_wrt_append)

lemma strict_by_map: "strict_by f xs \<longleftrightarrow> sorted_wrt (<) (map f xs)"
  by (simp add: strict_by_def sorted_wrt_map)

lemma strict_by_distinct: "strict_by f xs \<Longrightarrow> distinct (map f xs)"
  by (simp add: strict_by_map strict_sorted_iff)

lemma strict_by_sorted: "strict_by f xs \<Longrightarrow> sorted (map f xs)"
  by (simp add: strict_by_map strict_sorted_iff)

lemma strict_by_filter: "strict_by f xs \<Longrightarrow> strict_by f (filter P xs)"
  by (simp add: strict_by_def sorted_wrt_filter)

lemma strict_by_take: "strict_by f xs \<Longrightarrow> strict_by f (take n xs)"
  by (simp add: strict_by_def sorted_wrt_take)

lemma strict_by_drop: "strict_by f xs \<Longrightarrow> strict_by f (drop n xs)"
  by (simp add: strict_by_def sorted_wrt_drop)

lemma strict_by_nth_less: "strict_by f xs \<Longrightarrow> i < j \<Longrightarrow> j < length xs \<Longrightarrow> f (xs ! i) < f (xs ! j)"
  unfolding strict_by_def by (rule sorted_wrt_nth_less [where P = "\<lambda>x y. f x < f y"])

lemma strict_by_nth_mono: "strict_by f xs \<Longrightarrow> i \<le> j \<Longrightarrow> j < length xs \<Longrightarrow> f (xs ! i) \<le> f (xs ! j)"
  using strict_by_nth_less [of f xs i j] by (cases "i = j") auto

lemma strict_by_inj: "strict_by f xs \<Longrightarrow> x \<in> set xs \<Longrightarrow> y \<in> set xs \<Longrightarrow> f x = f y \<Longrightarrow> x = y"
  using strict_by_distinct [of f xs] by (auto simp: distinct_map inj_on_def)

text \<open>Strictly sorted lists with the same elements are equal.\<close>

lemma strict_by_unique:
  assumes "strict_by f xs" "strict_by f ys" "set xs = set ys"
  shows "xs = ys"
  using assms
proof (induction xs arbitrary: ys)
  case Nil
  then show ?case by simp
next
  case (Cons x xs)
  then obtain y ys' where ys: "ys = y # ys'" by (cases ys) auto
  have x: "\<forall>z \<in> set xs. f x < f z" and y: "\<forall>z \<in> set ys'. f y < f z"
    and s: "insert x (set xs) = insert y (set ys')"
    using Cons.prems ys by (simp_all add: strict_by_Cons)
  have xy: "x = y"
  proof (rule ccontr)
    assume "x \<noteq> y"
    with s have "x \<in> set ys'" and "y \<in> set xs" by auto
    with x y have "f x < f y" and "f y < f x" by simp_all
    then show False by simp
  qed
  have "x \<notin> set xs" and "x \<notin> set ys'" using x y xy by auto
  with s xy have "set xs = set ys'" by (simp add: insert_ident)
  with Cons.IH [of ys'] Cons.prems ys xy show ?case by (simp add: strict_by_Cons)
qed

lemma lookup_by_Nil [simp]: "lookup_by f [] = Map.empty"
  by (simp add: lookup_by_def)

lemma lookup_by_Cons: "lookup_by f (x # xs) = (lookup_by f xs)(f x \<mapsto> x)"
  by (simp add: lookup_by_def)

lemma lookup_by_append: "lookup_by f (xs @ ys) = lookup_by f ys ++ lookup_by f xs"
  by (simp add: lookup_by_def)

lemma lookup_by_Some: "lookup_by f xs q = Some x \<Longrightarrow> x \<in> set xs \<and> f x = q"
  unfolding lookup_by_def by (auto dest: map_of_SomeD)

lemma lookup_by_None: "lookup_by f xs q = None \<longleftrightarrow> q \<notin> f ` set xs"
  unfolding lookup_by_def by (simp add: map_of_eq_None_iff image_image)

lemma lookup_by_strict: "strict_by f xs \<Longrightarrow> lookup_by f xs q = Some x \<longleftrightarrow> x \<in> set xs \<and> f x = q"
proof
  assume s: "strict_by f xs" and x: "x \<in> set xs \<and> f x = q"
  then obtain y where y: "lookup_by f xs q = Some y"
    using lookup_by_None [of f xs q] by (cases "lookup_by f xs q") auto
  with s x have "y = x" by (auto dest: lookup_by_Some strict_by_inj)
  with y show "lookup_by f xs q = Some x" by simp
qed (rule lookup_by_Some)

lemma lookup_by_nth: "strict_by f xs \<Longrightarrow> i < length xs \<Longrightarrow> lookup_by f xs (f (xs ! i)) = Some (xs ! i)"
  by (simp add: lookup_by_strict)

text \<open>Two strictly sorted lists that hold the same elements under the same keys are equal.\<close>

lemma lookup_by_inject:
  assumes "strict_by f xs" "strict_by f ys" "lookup_by f xs = lookup_by f ys"
  shows "xs = ys"
proof -
  have "x \<in> set xs \<longleftrightarrow> x \<in> set ys" for x
    using assms lookup_by_strict [of f xs "f x" x] lookup_by_strict [of f ys "f x" x] by simp
  then show ?thesis using assms by (intro strict_by_unique [of f]) auto
qed

text \<open>The three ways a vector changes at an index.\<close>

lemma strict_by_insert_at:
  assumes "strict_by f xs" "\<forall>y \<in> set (take i xs). f y < f x" "\<forall>y \<in> set (drop i xs). f x < f y"
  shows "strict_by f (take i xs @ x # drop i xs)"
  using assms by (auto simp: strict_by_simps strict_by_take strict_by_drop intro: less_trans)

lemma lookup_by_insert_at:
  assumes "strict_by f xs" "\<forall>y \<in> set (take i xs). f y < f x" "\<forall>y \<in> set (drop i xs). f x < f y"
  shows "lookup_by f (take i xs @ x # drop i xs) = (lookup_by f xs)(f x \<mapsto> x)"
proof -
  have "lookup_by f (take i xs @ x # drop i xs)
          = ((lookup_by f (drop i xs))(f x \<mapsto> x)) ++ lookup_by f (take i xs)"
    by (simp add: lookup_by_append lookup_by_Cons)
  also have "\<dots> = (lookup_by f (drop i xs) ++ lookup_by f (take i xs))(f x \<mapsto> x)"
    using assms(2) by (intro map_add_upd_left) (auto simp: lookup_by_None dom_def dest: lookup_by_Some)
  also have "\<dots> = (lookup_by f xs)(f x \<mapsto> x)"
    by (metis append_take_drop_id lookup_by_append)
  finally show ?thesis .
qed

lemma strict_by_update_at:
  "strict_by f xs \<Longrightarrow> i < length xs \<Longrightarrow> f x = f (xs ! i) \<Longrightarrow> strict_by f (xs[i := x])"
  by (metis strict_by_map map_update nth_map list_update_id)

lemma lookup_by_update_at:
  assumes "strict_by f xs" "i < length xs" "f x = f (xs ! i)"
  shows "lookup_by f (xs[i := x]) = (lookup_by f xs)(f x \<mapsto> x)"
proof
  fix q
  have s: "strict_by f (xs[i := x])" using assms by (rule strict_by_update_at)
  have mem: "y \<in> set (xs[i := x]) \<longleftrightarrow> y = x \<or> y \<in> set xs \<and> f y \<noteq> f x" for y
  proof -
    have "y \<in> set (xs[i := x]) \<longleftrightarrow> y = x \<or> (\<exists>j < length xs. j \<noteq> i \<and> y = xs ! j)"
      using assms(2) by (auto simp: in_set_conv_nth nth_list_update)
    moreover have "(\<exists>j < length xs. j \<noteq> i \<and> y = xs ! j) \<longleftrightarrow> y \<in> set xs \<and> f y \<noteq> f x"
      using assms strict_by_distinct [OF assms(1)]
      by (auto simp: in_set_conv_nth distinct_conv_nth)
    ultimately show ?thesis by simp
  qed
  show "lookup_by f (xs[i := x]) q = ((lookup_by f xs)(f x \<mapsto> x)) q"
  proof (cases "q = f x")
    case True
    then show ?thesis using s mem by (auto simp: lookup_by_strict)
  next
    case False
    have "lookup_by f (xs[i := x]) q = Some y \<longleftrightarrow> lookup_by f xs q = Some y" for y
      using False s assms(1) mem by (auto simp: lookup_by_strict)
    then have "lookup_by f (xs[i := x]) q = lookup_by f xs q"
      by (rule option_eqI)
    with False show ?thesis by simp
  qed
qed

lemma set_remove_at:
  assumes "strict_by f xs" "i < length xs"
  shows "set (take i xs @ drop (Suc i) xs) = set xs - {xs ! i}"
proof -
  have "xs = take i xs @ xs ! i # drop (Suc i) xs" using assms(2) by (rule id_take_nth_drop)
  moreover have "distinct xs" using strict_by_distinct [OF assms(1)] by (simp add: distinct_map)
  ultimately show ?thesis
    by (metis (no_types, lifting) Diff_insert_absorb Un_insert_right distinct_append
        disjoint_insert(1) distinct.simps(2) list.set(2) set_append UnE)
qed

lemma strict_by_remove_at: "strict_by f xs \<Longrightarrow> strict_by f (take i xs @ drop (Suc i) xs)"
proof -
  assume s: "strict_by f xs"
  have "f x < f y" if "x \<in> set (take i xs)" "y \<in> set (drop (Suc i) xs)" for x y
  proof -
    from that obtain j k where "j < i" "j < length xs" "x = xs ! j"
      and "k < length xs - Suc i" "y = xs ! (Suc i + k)"
      by (auto simp: in_set_conv_nth)
    with s show ?thesis using strict_by_nth_less [OF s, of j "Suc i + k"] by simp
  qed
  with s show ?thesis by (simp add: strict_by_append strict_by_take strict_by_drop)
qed

lemma lookup_by_remove_at:
  assumes "strict_by f xs" "i < length xs"
  shows "lookup_by f (take i xs @ drop (Suc i) xs) = (lookup_by f xs)(f (xs ! i) := None)"
proof
  fix q
  let ?ys = "take i xs @ drop (Suc i) xs"
  have s: "strict_by f ?ys" using assms(1) by (rule strict_by_remove_at)
  have mem: "y \<in> set ?ys \<longleftrightarrow> y \<in> set xs \<and> f y \<noteq> f (xs ! i)" for y
    unfolding set_remove_at [OF assms]
    using assms strict_by_inj [OF assms(1), of y "xs ! i"] by auto
  show "lookup_by f ?ys q = ((lookup_by f xs)(f (xs ! i) := None)) q"
  proof (cases "q = f (xs ! i)")
    case True
    have "q \<notin> f ` set ?ys"
    proof
      assume "q \<in> f ` set ?ys"
      then obtain y where "y \<in> set ?ys" "q = f y" by blast
      with mem [of y] True show False by simp
    qed
    then have "lookup_by f ?ys q = None" by (simp only: lookup_by_None not_False_eq_True)
    with True show ?thesis by simp
  next
    case False
    have "lookup_by f ?ys q = Some y \<longleftrightarrow> lookup_by f xs q = Some y" for y
      using False s assms(1) mem by (auto simp: lookup_by_strict)
    then have "lookup_by f ?ys q = lookup_by f xs q"
      by (rule option_eqI)
    with False show ?thesis by simp
  qed
qed

end
