(* ===== verification/Slice_Search.thy ===== *)
theory Slice_Search
  imports Rust_Prelude
begin

text \<open>
  The standard library's binary search over a slice, as both sorted containers use it:
  \<open>binary_search_by\<close> with its size-halving loop, and the facts about its result on a vector
  that is strictly sorted by a key.  The index it returns is in range whatever the vector.
\<close>

section \<open>The loop\<close>

text \<open>
  The candidate range is \<open>base ..< base + sz\<close>; each round halves \<open>sz\<close>, keeping \<open>base\<close> at
  an element that does not compare \<open>Greater\<close> than the sought key.
\<close>

function bs_loop :: "(nat \<Rightarrow> ordering) \<Rightarrow> nat \<Rightarrow> nat \<Rightarrow> nat" where
  "bs_loop c sz base =
     (if sz > 1 then
        (let half = sz div 2; mid = base + half
         in bs_loop c (sz - half) (if c mid = Greater then base else mid))
      else base)"
  by pat_completeness auto
termination
proof (relation "measure (\<lambda>(c, sz, base). sz)")
  fix c :: "nat \<Rightarrow> ordering" and sz base half mid :: nat
  assume "1 < sz" and "half = sz div 2"
  then show "((c, sz - half, if c mid = Greater then base else mid), c, sz, base)
               \<in> measure (\<lambda>(c, sz, base). sz)"
    by simp
qed simp

declare bs_loop.simps [simp del]

definition binary_search_by :: "('e \<Rightarrow> ordering) \<Rightarrow> 'e list \<Rightarrow> (nat, nat) result" where
  "binary_search_by c xs =
     (if xs = [] then Err 0
      else (let base = bs_loop (\<lambda>i. c (xs ! i)) (length xs) 0
            in case c (xs ! base) of
                 Equal \<Rightarrow> Ok base
               | Less \<Rightarrow> Err (base + 1)
               | Greater \<Rightarrow> Err base))"

lemma bs_loop_range: "0 < sz \<Longrightarrow> base \<le> bs_loop c sz base \<and> bs_loop c sz base < base + sz"
proof (induction c sz base rule: bs_loop.induct)
  case (1 c sz base)
  show ?case
  proof (cases "sz > 1")
    case True
    let ?half = "sz div 2"
    let ?next = "if c (base + ?half) = Greater then base else base + ?half"
    have "?next \<le> bs_loop c (sz - ?half) ?next \<and>
          bs_loop c (sz - ?half) ?next < ?next + (sz - ?half)"
      using "1.IH" [OF True refl refl] True by simp
    moreover have "base \<le> ?next" and "?next + (sz - ?half) \<le> base + sz"
      by (auto simp: less_imp_le)
    moreover have "bs_loop c sz base = bs_loop c (sz - ?half) ?next"
      using True by (subst bs_loop.simps) (simp add: Let_def)
    ultimately show ?thesis by linarith
  next
    case False
    with "1.prems" show ?thesis by (subst (1 2) bs_loop.simps) simp
  qed
qed

text \<open>
  Whatever the comparison function, an element below the returned base that the loop looked
  at is not \<open>Greater\<close>; for a comparison that is monotone along the vector this pins the base
  to the last element that is not \<open>Greater\<close>, or to the first element when all are.
\<close>

lemma bs_loop_split:
  assumes "0 < sz" "base + sz \<le> n"
    and "\<And>i j. i \<le> j \<Longrightarrow> j < n \<Longrightarrow> c i = Greater \<Longrightarrow> c j = Greater"
    and "base = 0 \<or> c base \<noteq> Greater"
    and "\<And>j. base + sz \<le> j \<Longrightarrow> j < n \<Longrightarrow> c j = Greater"
  shows "(bs_loop c sz base = 0 \<or> c (bs_loop c sz base) \<noteq> Greater) \<and>
         (\<forall>j. bs_loop c sz base < j \<and> j < n \<longrightarrow> c j = Greater)"
  using assms
proof (induction c sz base rule: bs_loop.induct)
  case (1 c sz base)
  show ?case
  proof (cases "sz > 1")
    case True
    let ?half = "sz div 2"
    let ?next = "if c (base + ?half) = Greater then base else base + ?half"
    have half: "0 < ?half" "?half < sz" using True by auto
    have eq: "bs_loop c sz base = bs_loop c (sz - ?half) ?next"
      using True by (subst bs_loop.simps) (simp add: Let_def)
    have above: "c j = Greater" if "?next + (sz - ?half) \<le> j" "j < n" for j
    proof (cases "c (base + ?half) = Greater")
      case gt: True
      with that half have "base + ?half \<le> j" by simp
      with gt that "1.prems"(3) show ?thesis by blast
    next
      case False
      with that half have "base + sz \<le> j" by simp
      with that "1.prems"(5) show ?thesis by blast
    qed
    show ?thesis unfolding eq
    proof (rule "1.IH" [OF True refl refl])
      show "0 < sz - ?half" using half by simp
      show "?next + (sz - ?half) \<le> n" using half "1.prems"(2) by auto
      show "?next = 0 \<or> c ?next \<noteq> Greater" using "1.prems"(4) by simp
    qed (use "1.prems"(3) above in blast)+
  next
    case False
    with "1.prems"(1) have "sz = 1" by simp
    moreover from this have "bs_loop c sz base = base" by (subst bs_loop.simps) simp
    ultimately show ?thesis using "1.prems" by (metis Suc_eq_plus1 Suc_leI)
  qed
qed

lemma binary_search_range:
  "binary_search_by c xs = Ok i \<Longrightarrow> i < length xs"
  "binary_search_by c xs = Err i \<Longrightarrow> i \<le> length xs"
  using bs_loop_range [of "length xs" 0 "\<lambda>i. c (xs ! i)"]
  by (auto simp: binary_search_by_def Let_def split: if_splits ordering.splits)

section \<open>Searching a strictly sorted vector\<close>

definition find_by :: "('e \<Rightarrow> 'q::linorder) \<Rightarrow> 'q \<Rightarrow> 'e list \<Rightarrow> (nat, nat) result" where
  "find_by f q xs = binary_search_by (\<lambda>e. cmp (f e) q) xs"

lemma cmp_eq [simp]:
  "cmp a b = Less \<longleftrightarrow> a < b" "cmp a b = Equal \<longleftrightarrow> a = b" "cmp a b = Greater \<longleftrightarrow> b < a"
  by (auto simp: cmp_def)

lemma find_by_base:
  fixes q :: "'q::linorder"
  assumes "strict_by f xs" "xs \<noteq> []"
  defines "b \<equiv> bs_loop (\<lambda>i. cmp (f (xs ! i)) q) (length xs) 0"
  shows "b < length xs" "b = 0 \<or> f (xs ! b) \<le> q" "\<And>j. b < j \<Longrightarrow> j < length xs \<Longrightarrow> q < f (xs ! j)"
proof -
  have mono: "cmp (f (xs ! j)) q = Greater"
    if "i \<le> j" "j < length xs" "cmp (f (xs ! i)) q = Greater" for i j
    using that strict_by_nth_mono [OF assms(1) that(1,2)] by auto
  have "(b = 0 \<or> cmp (f (xs ! b)) q \<noteq> Greater) \<and>
        (\<forall>j. b < j \<and> j < length xs \<longrightarrow> cmp (f (xs ! j)) q = Greater)"
    unfolding b_def by (rule bs_loop_split) (use assms(2) mono in auto)
  then show "b = 0 \<or> f (xs ! b) \<le> q" "\<And>j. b < j \<Longrightarrow> j < length xs \<Longrightarrow> q < f (xs ! j)"
    by auto
  show "b < length xs"
    using bs_loop_range [of "length xs" 0] assms(2) unfolding b_def by simp
qed

lemma find_by_Ok:
  assumes "find_by f q xs = Ok i"
  shows "i < length xs" "f (xs ! i) = q"
proof -
  show "i < length xs" using assms unfolding find_by_def by (rule binary_search_range)
  show "f (xs ! i) = q" using assms
    by (auto simp: find_by_def binary_search_by_def Let_def split: if_splits ordering.splits)
qed

lemma find_by_Err_range: "find_by f q xs = Err i \<Longrightarrow> i \<le> length xs"
  unfolding find_by_def by (rule binary_search_range)

lemma find_by_Err_nth:
  assumes "strict_by f xs" "find_by f q xs = Err i"
  shows "\<And>j. j < i \<Longrightarrow> f (xs ! j) < q" "\<And>j. i \<le> j \<Longrightarrow> j < length xs \<Longrightarrow> q < f (xs ! j)"
proof -
  have "(\<forall>j < i. f (xs ! j) < q) \<and> (\<forall>j. i \<le> j \<and> j < length xs \<longrightarrow> q < f (xs ! j))"
  proof (cases "xs = []")
    case True
    with assms(2) show ?thesis by (simp add: find_by_def binary_search_by_def)
  next
    case False
    define b where "b = bs_loop (\<lambda>i. cmp (f (xs ! i)) q) (length xs) 0"
    note base = find_by_base [OF assms(1) False, of q, folded b_def]
    have "f (xs ! b) < q \<and> i = b + 1 \<or> q < f (xs ! b) \<and> i = b"
      using assms(2) False unfolding find_by_def binary_search_by_def b_def [symmetric] Let_def
      by (auto split: ordering.splits)
    then show ?thesis
    proof
      assume less: "f (xs ! b) < q \<and> i = b + 1"
      have "f (xs ! j) < q" if "j < i" for j
        using that less strict_by_nth_mono [OF assms(1), of j b] base(1) by auto
      with less base(3) show ?thesis by auto
    next
      assume gt: "q < f (xs ! b) \<and> i = b"
      with base(2) have "b = 0" by auto
      with gt base(1,3) show ?thesis by (metis le_neq_implies_less not_less_zero)
    qed
  qed
  then show "\<And>j. j < i \<Longrightarrow> f (xs ! j) < q" "\<And>j. i \<le> j \<Longrightarrow> j < length xs \<Longrightarrow> q < f (xs ! j)"
    by blast+
qed

lemma find_by_Err:
  assumes "strict_by f xs" "find_by f q xs = Err i"
  shows "\<forall>y \<in> set (take i xs). f y < q" "\<forall>y \<in> set (drop i xs). q < f y"
proof -
  note i = find_by_Err_range [OF assms(2)]
  show "\<forall>y \<in> set (take i xs). f y < q"
    using find_by_Err_nth(1) [OF assms] i by (auto simp: in_set_conv_nth)
  show "\<forall>y \<in> set (drop i xs). q < f y"
    using find_by_Err_nth(2) [OF assms] i by (fastforce simp: in_set_conv_nth)
qed

lemma find_by_Err_notin: "strict_by f xs \<Longrightarrow> find_by f q xs = Err i \<Longrightarrow> q \<notin> f ` set xs"
  using find_by_Err [of f xs q i] by (metis append_take_drop_id imageE less_irrefl set_append UnE)

text \<open>The search is complete: it finds an element exactly when the vector holds the key.\<close>

lemma find_by_lookup:
  assumes "strict_by f xs"
  shows "lookup_by f xs q =
    (case find_by f q xs of Ok i \<Rightarrow> Some (xs ! i) | Err _ \<Rightarrow> None)"
proof (cases "find_by f q xs")
  case (Ok i)
  with find_by_Ok [OF Ok] lookup_by_nth [OF assms, of i] show ?thesis by simp
next
  case (Err i)
  then show ?thesis using find_by_Err_notin [OF assms Err] by (simp add: lookup_by_None)
qed

lemma find_by_iff:
  assumes "strict_by f xs"
  shows "is_ok (find_by f q xs) \<longleftrightarrow> q \<in> f ` set xs"
  using find_by_Ok [of f q xs] find_by_Err_notin [OF assms, of q]
  by (cases "find_by f q xs") (auto intro: nth_mem)

text \<open>Where the vector splits around a key, whether it is present or not.\<close>

definition lower_index :: "(nat, nat) result \<Rightarrow> nat" where
  "lower_index r = (case r of Ok i \<Rightarrow> i | Err i \<Rightarrow> i)"

definition upper_index :: "(nat, nat) result \<Rightarrow> nat" where
  "upper_index r = (case r of Ok i \<Rightarrow> i + 1 | Err i \<Rightarrow> i)"

lemma lower_index_le: "lower_index (find_by f q xs) \<le> length xs"
  using find_by_Ok(1) [of f q xs] find_by_Err_range [of f q xs]
  by (auto simp: lower_index_def split: result.splits dest: less_imp_le)

lemma upper_index_le: "upper_index (find_by f q xs) \<le> length xs"
  using find_by_Ok(1) [of f q xs] find_by_Err_range [of f q xs]
  by (auto simp: upper_index_def Suc_le_eq split: result.splits)

lemma lower_index_nth:
  assumes "strict_by f xs" "j < length xs"
  shows "j < lower_index (find_by f q xs) \<longleftrightarrow> f (xs ! j) < q"
proof (cases "find_by f q xs")
  case (Ok i)
  note i = find_by_Ok [OF Ok]
  have "j < i \<Longrightarrow> f (xs ! j) < q" using strict_by_nth_less [OF assms(1), of j i] i by simp
  moreover have "i \<le> j \<Longrightarrow> q \<le> f (xs ! j)" using strict_by_nth_mono [OF assms(1), of i j] i assms(2) by simp
  ultimately show ?thesis using Ok by (auto simp: lower_index_def not_le[symmetric])
next
  case (Err i)
  with find_by_Err_nth [OF assms(1) Err] assms(2) show ?thesis
    by (auto simp: lower_index_def) (metis less_asym not_le)
qed

lemma upper_index_nth:
  assumes "strict_by f xs" "j < length xs"
  shows "j < upper_index (find_by f q xs) \<longleftrightarrow> f (xs ! j) \<le> q"
proof (cases "find_by f q xs")
  case (Ok i)
  note i = find_by_Ok [OF Ok]
  have "j \<le> i \<Longrightarrow> f (xs ! j) \<le> q" using strict_by_nth_mono [OF assms(1), of j i] i by simp
  moreover have "i < j \<Longrightarrow> q < f (xs ! j)" using strict_by_nth_less [OF assms(1), of i j] i assms(2) by simp
  ultimately show ?thesis using Ok by (auto simp: upper_index_def not_le[symmetric] less_Suc_eq_le)
next
  case (Err i)
  with find_by_Err_nth [OF assms(1) Err] assms(2) show ?thesis
    by (auto simp: upper_index_def less_imp_le) (meson not_le)
qed

lemma take_index_filter:
  assumes "\<And>j. j < length xs \<Longrightarrow> j < n \<longleftrightarrow> P (xs ! j)"
  shows "take n xs = filter P xs" "drop n xs = filter (\<lambda>x. \<not> P x) xs"
proof -
  have t: "\<forall>x \<in> set (take n xs). P x" using assms by (auto simp: in_set_conv_nth)
  have d: "\<forall>x \<in> set (drop n xs). \<not> P x"
    using assms by (auto simp: in_set_conv_nth) (metis add.commute less_diff_conv not_add_less1)
  have "filter P xs = filter P (take n xs) @ filter P (drop n xs)"
    by (metis append_take_drop_id filter_append)
  with t d show "take n xs = filter P xs" by (simp add: filter_id_conv)
  have "filter (\<lambda>x. \<not> P x) xs = filter (\<lambda>x. \<not> P x) (take n xs) @ filter (\<lambda>x. \<not> P x) (drop n xs)"
    by (metis append_take_drop_id filter_append)
  with t d show "drop n xs = filter (\<lambda>x. \<not> P x) xs" by (simp add: filter_id_conv)
qed

section \<open>Ranges of a strictly sorted vector\<close>

text \<open>Which keys a bound admits as a lower and as an upper end.\<close>

definition after_start :: "'q::linorder bound \<Rightarrow> 'q \<Rightarrow> bool" where
  "after_start b x = (case b of Unbounded \<Rightarrow> True | Included q \<Rightarrow> q \<le> x | Excluded q \<Rightarrow> q < x)"

definition before_end :: "'q::linorder bound \<Rightarrow> 'q \<Rightarrow> bool" where
  "before_end b x = (case b of Unbounded \<Rightarrow> True | Included q \<Rightarrow> x \<le> q | Excluded q \<Rightarrow> x < q)"

definition selected :: "('e \<Rightarrow> 'q::linorder) \<Rightarrow> 'q bound \<Rightarrow> 'q bound \<Rightarrow> 'e \<Rightarrow> bool" where
  "selected f lo hi e \<longleftrightarrow> after_start lo (f e) \<and> before_end hi (f e)"

definition start_index :: "('e \<Rightarrow> 'q::linorder) \<Rightarrow> 'q bound \<Rightarrow> 'e list \<Rightarrow> nat" where
  "start_index f b xs =
     (case b of
        Unbounded \<Rightarrow> 0
      | Included q \<Rightarrow> lower_index (find_by f q xs)
      | Excluded q \<Rightarrow> upper_index (find_by f q xs))"

definition end_index :: "('e \<Rightarrow> 'q::linorder) \<Rightarrow> 'q bound \<Rightarrow> 'e list \<Rightarrow> nat" where
  "end_index f b xs =
     (case b of
        Unbounded \<Rightarrow> length xs
      | Included q \<Rightarrow> upper_index (find_by f q xs)
      | Excluded q \<Rightarrow> lower_index (find_by f q xs))"

lemma start_index_nth:
  "strict_by f xs \<Longrightarrow> j < length xs \<Longrightarrow> j < start_index f b xs \<longleftrightarrow> \<not> after_start b (f (xs ! j))"
  by (auto simp: start_index_def after_start_def lower_index_nth upper_index_nth not_le not_less
      split: bound.splits)

lemma end_index_nth:
  "strict_by f xs \<Longrightarrow> j < length xs \<Longrightarrow> j < end_index f b xs \<longleftrightarrow> before_end b (f (xs ! j))"
  by (auto simp: end_index_def before_end_def lower_index_nth upper_index_nth split: bound.splits)

lemma start_index_le: "start_index f b xs \<le> length xs"
  by (auto simp: start_index_def lower_index_le upper_index_le split: bound.splits)

lemma end_index_le: "end_index f b xs \<le> length xs"
  by (auto simp: end_index_def lower_index_le upper_index_le split: bound.splits)

lemma range_slice:
  assumes "strict_by f xs" "start_index f lo xs \<le> end_index f hi xs"
  shows "vec_slice xs (start_index f lo xs) (end_index f hi xs) = Inr (filter (selected f lo hi) xs)"
proof -
  let ?s = "start_index f lo xs" and ?e = "end_index f hi xs"
  have e: "take ?e xs = filter (\<lambda>x. before_end hi (f x)) xs"
    by (rule take_index_filter) (simp add: end_index_nth assms(1))
  have "drop ?s (take ?e xs) = filter (\<lambda>x. \<not> \<not> after_start lo (f x)) (take ?e xs)"
    by (rule take_index_filter) (simp add: start_index_nth assms(1))
  also have "\<dots> = filter (selected f lo hi) xs"
    unfolding e by (auto simp: selected_def intro!: filter_cong)
  finally have "take (?e - ?s) (drop ?s xs) = filter (selected f lo hi) xs"
    by (simp add: drop_take)
  with assms(2) end_index_le [of f hi xs] show ?thesis by (simp add: vec_slice_def)
qed

text \<open>The end index falls before the start index exactly when an element is outside both.\<close>

lemma range_inverted_iff:
  assumes "strict_by f xs"
  shows "end_index f hi xs < start_index f lo xs \<longleftrightarrow>
    (\<exists>e \<in> set xs. \<not> after_start lo (f e) \<and> \<not> before_end hi (f e))"
    (is "?e < ?s \<longleftrightarrow> _")
proof
  assume less: "?e < ?s"
  then have e: "?e < length xs" using start_index_le [of f lo xs] by simp
  with less start_index_nth [OF assms e, of lo] end_index_nth [OF assms e, of hi]
  show "\<exists>e \<in> set xs. \<not> after_start lo (f e) \<and> \<not> before_end hi (f e)"
    by (metis less_irrefl nth_mem)
next
  assume "\<exists>e \<in> set xs. \<not> after_start lo (f e) \<and> \<not> before_end hi (f e)"
  then obtain j where "j < length xs" "\<not> after_start lo (f (xs ! j))" "\<not> before_end hi (f (xs ! j))"
    by (auto simp: in_set_conv_nth)
  with start_index_nth [OF assms, of j lo] end_index_nth [OF assms, of j hi]
  show "?e < ?s" by auto
qed

lemma split_at_lower:
  assumes "strict_by f xs"
  shows "vec_split_off xs (lower_index (find_by f q xs)) =
    Inr (filter (\<lambda>e. f e < q) xs, filter (\<lambda>e. \<not> f e < q) xs)"
  using take_index_filter [of xs "lower_index (find_by f q xs)" "\<lambda>e. f e < q"]
    lower_index_nth [OF assms, of _ q] lower_index_le [of f q xs]
  by (simp add: vec_split_off_def)

end
