(* ===== verification/Rust_Iter.thy ===== *)
theory Rust_Iter
  imports Rust_Prelude
begin

text \<open>
  Iterators.  An iterator is a state with a \<open>next\<close> function that returns the item, if any, and
  the state after it.  A slice or vector iterator, peekable or not, is the list of the items
  not yet returned: \<open>peek\<close> is its head, \<open>next\<close> removes the head and \<open>next_back\<close> the last item.
  \<open>collect\<close> runs \<open>next\<close> until it returns \<open>None\<close>.  The interface \<open>finite_iterator\<close> asks of a
  \<open>next\<close> function that a measure of its state drops with every item; its lemmas unfold
  \<open>collect\<close>, which is a total function through the same measure.
\<close>

section \<open>Slice iterators\<close>

definition slice_next :: "'a list \<Rightarrow> 'a option \<times> 'a list" where
  "slice_next xs = (case xs of [] \<Rightarrow> (None, []) | x # ys \<Rightarrow> (Some x, ys))"

definition slice_next_back :: "'a list \<Rightarrow> 'a option \<times> 'a list" where
  "slice_next_back xs = (if xs = [] then (None, []) else (Some (last xs), butlast xs))"

definition slice_size_hint :: "'a list \<Rightarrow> nat \<times> nat option" where
  "slice_size_hint xs = (length xs, Some (length xs))"

lemma slice_next_simps [simp]: "slice_next [] = (None, [])" "slice_next (x # xs) = (Some x, xs)"
  by (simp_all add: slice_next_def)

lemma slice_next_back_simps [simp]:
  "slice_next_back [] = (None, [])" "slice_next_back (xs @ [x]) = (Some x, xs)"
  by (simp_all add: slice_next_back_def)

text \<open>A size hint is right for \<open>n\<close> remaining items when its bounds enclose \<open>n\<close>.\<close>

definition hint_ok :: "nat \<times> nat option \<Rightarrow> nat \<Rightarrow> bool" where
  "hint_ok h n \<longleftrightarrow> fst h \<le> n \<and> (case snd h of None \<Rightarrow> True | Some u \<Rightarrow> n \<le> u)"

section \<open>Collecting an iterator\<close>

function iter_collect :: "('s \<Rightarrow> nat) \<Rightarrow> ('s \<Rightarrow> 'a option \<times> 's) \<Rightarrow> 's \<Rightarrow> 'a list" where
  "iter_collect left nxt s =
     (case nxt s of
        (None, _) \<Rightarrow> []
      | (Some x, s') \<Rightarrow> if left s' < left s then x # iter_collect left nxt s' else [])"
  by pat_completeness auto
termination
  by (relation "measure (\<lambda>(left, nxt, s). left s)") auto

declare iter_collect.simps [simp del]

locale finite_iterator =
  fixes nxt :: "'s \<Rightarrow> 'a option \<times> 's"
    and left :: "'s \<Rightarrow> nat"
  assumes progress: "nxt s = (Some x, s') \<Longrightarrow> left s' < left s"
begin

lemma collect_None: "nxt s = (None, s') \<Longrightarrow> iter_collect left nxt s = []"
  by (subst iter_collect.simps) simp

lemma collect_Some:
  "nxt s = (Some x, s') \<Longrightarrow> iter_collect left nxt s = x # iter_collect left nxt s'"
  using progress [of s x s'] by (subst iter_collect.simps) simp

lemma collect_induct [case_names step]:
  assumes "\<And>s. (\<And>x s'. nxt s = (Some x, s') \<Longrightarrow> P s') \<Longrightarrow> P s"
  shows "P s"
proof (induction s rule: measure_induct_rule [where f = left])
  case (less s)
  show ?case by (rule assms) (auto intro: less progress)
qed

lemma collect_bound: "length (iter_collect left nxt s) \<le> left s"
proof (induction s rule: collect_induct)
  case (step s)
  show ?case
  proof (cases "nxt s")
    case (Pair r s')
    show ?thesis
    proof (cases r)
      case None
      with Pair show ?thesis by (simp add: collect_None)
    next
      case (Some x)
      then have "nxt s = (Some x, s')" using Pair by simp
      with step [OF this] progress [OF this] show ?thesis by (simp add: collect_Some)
    qed
  qed
qed

lemma collect_Nil_iff: "iter_collect left nxt s = [] \<longleftrightarrow> fst (nxt s) = None"
proof (cases "nxt s")
  case (Pair r s')
  then show ?thesis by (cases r) (simp_all add: collect_None collect_Some)
qed

end

interpretation slice_iter: finite_iterator slice_next length
  by unfold_locales (auto simp: slice_next_def split: list.splits)

interpretation slice_iter_back: finite_iterator slice_next_back length
  by unfold_locales (auto simp: slice_next_back_def split: if_splits)

lemma slice_collect [simp]: "iter_collect length slice_next xs = xs"
  by (induction xs) (simp_all add: slice_iter.collect_None slice_iter.collect_Some)

lemma slice_collect_back [simp]: "iter_collect length slice_next_back xs = rev xs"
  by (induction xs rule: rev_induct)
    (simp_all add: slice_iter_back.collect_None slice_iter_back.collect_Some)

text \<open>A renamed iterator: \<open>next().map(f)\<close> on the items of another.\<close>

definition map_item :: "('a \<Rightarrow> 'b) \<Rightarrow> 'a option \<times> 's \<Rightarrow> 'b option \<times> 's" where
  "map_item f r = (map_option f (fst r), snd r)"

lemma map_item_simps [simp]: "map_item f (r, s) = (map_option f r, s)"
  by (simp add: map_item_def)

end
