(* ===== verification/Sorted_Iters.thy ===== *)
theory Sorted_Iters
  imports Rust_Iter
begin

text \<open>
  The two private iterators behind the bulk operations of \<open>SortedVectorMap\<close> (and, copied, of
  \<open>SortedVectorSet\<close>): \<open>DedupIter\<close>, which keeps the last of a run of items with equal keys, and
  \<open>MergeIter\<close>, which merges a left iterator with a deduplicated right one and lets the right
  item win.  The key of an item is given by a function \<open>f\<close>; the map uses the key of the pair.
\<close>

section \<open>DedupIter\<close>

text \<open>The state is the list of items the peekable inner iterator has not returned.\<close>

fun dedup_next :: "('e \<Rightarrow> 'q::linorder) \<Rightarrow> 'e list \<Rightarrow> 'e option \<times> 'e list" where
  "dedup_next f [] = (None, [])"
| "dedup_next f [next] = (Some next, [])"
| "dedup_next f (next # after # rest) =
     (if f after > f next then (Some next, after # rest)
      else dedup_next f (after # rest))"

definition dedup_peek :: "'e list \<Rightarrow> 'e option" where
  "dedup_peek xs = vec_first xs"

definition dedup_size_hint :: "'e list \<Rightarrow> nat \<times> nat option" where
  "dedup_size_hint xs = (case slice_size_hint xs of (low, high) \<Rightarrow> (min low 1, high))"

definition dedup_collect :: "('e \<Rightarrow> 'q::linorder) \<Rightarrow> 'e list \<Rightarrow> 'e list" where
  "dedup_collect f xs = iter_collect length (dedup_next f) xs"

section \<open>MergeIter\<close>

definition merge_order :: "('e \<Rightarrow> 'q::linorder) \<Rightarrow> 'e option \<Rightarrow> 'e option \<Rightarrow> ordering option" where
  "merge_order f l r =
     (case (l, r) of
        (Some x, Some y) \<Rightarrow> Some (cmp (f x) (f y))
      | (Some _, None) \<Rightarrow> Some Less
      | (None, Some _) \<Rightarrow> Some Greater
      | (None, None) \<Rightarrow> None)"

definition merge_next ::
  "('e \<Rightarrow> 'q::linorder) \<Rightarrow> 'e list \<times> 'e list \<Rightarrow> 'e option \<times> ('e list \<times> 'e list)" where
  "merge_next f s =
     (case s of (left, right) \<Rightarrow>
        (case merge_order f (vec_first left) (dedup_peek right) of
           None \<Rightarrow> (None, (left, right))
         | Some Less \<Rightarrow> (case slice_next left of (x, left') \<Rightarrow> (x, (left', right)))
         | Some Greater \<Rightarrow> (case dedup_next f right of (x, right') \<Rightarrow> (x, (left, right')))
         | Some Equal \<Rightarrow>
             (case slice_next left of (_, left') \<Rightarrow>
                (case dedup_next f right of (x, right') \<Rightarrow> (x, (left', right'))))))"

definition merge_size_hint :: "'e list \<times> 'e list \<Rightarrow> nat \<times> nat option" where
  "merge_size_hint s =
     (case s of (left, right) \<Rightarrow>
        (let left_hint = slice_size_hint left; right_hint = dedup_size_hint right;
             low = max (fst left_hint) (fst right_hint);
             high = (case (snd left_hint, snd right_hint) of
                       (Some left_high, Some right_high) \<Rightarrow> usize_checked_add left_high right_high
                     | _ \<Rightarrow> None)
         in (low, high)))"

definition merge_left :: "'e list \<times> 'e list \<Rightarrow> nat" where
  "merge_left s = length (fst s) + length (snd s)"

definition merge_collect :: "('e \<Rightarrow> 'q::linorder) \<Rightarrow> 'e list \<Rightarrow> 'e list \<Rightarrow> 'e list" where
  "merge_collect f l r = iter_collect merge_left (merge_next f) (l, r)"

section \<open>The scan for duplicates\<close>

text \<open>\<open>new.iter().tuple_windows().position(|(a, b)| a == b)\<close>.\<close>

fun first_dup :: "('e \<Rightarrow> 'q) \<Rightarrow> 'e list \<Rightarrow> nat option" where
  "first_dup f (a # b # rest) =
     (if f a = f b then Some 0 else map_option Suc (first_dup f (b # rest)))"
| "first_dup f _ = None"

section \<open>Both are finite iterators\<close>

lemma dedup_next_length: "dedup_next f xs = (Some x, ys) \<Longrightarrow> length ys < length xs"
  by (induction f xs rule: dedup_next.induct) (auto split: if_splits)

interpretation dedup: finite_iterator "dedup_next f" length for f
  by unfold_locales (rule dedup_next_length)

lemma dedup_next_None: "fst (dedup_next f xs) = None \<longleftrightarrow> xs = []"
  by (induction f xs rule: dedup_next.induct) auto

lemma merge_next_simps:
  "merge_next f ([], []) = (None, ([], []))"
  "merge_next f (x # l, []) = (Some x, (l, []))"
  "merge_next f ([], y # r) = (fst (dedup_next f (y # r)), ([], snd (dedup_next f (y # r))))"
  "merge_next f (x # l, y # r) =
     (if f x < f y then (Some x, (l, y # r))
      else if f x = f y then (fst (dedup_next f (y # r)), (l, snd (dedup_next f (y # r))))
      else (fst (dedup_next f (y # r)), (x # l, snd (dedup_next f (y # r)))))"
  by (auto simp: merge_next_def merge_order_def dedup_peek_def vec_first_def cmp_def
      split: prod.splits)

lemma merge_next_progress:
  assumes "merge_next f s = (Some x, s')"
  shows "merge_left s' < merge_left s"
proof -
  obtain l r where s: "s = (l, r)" by (cases s)
  have "length (snd (dedup_next f r)) < length r" if "r \<noteq> []"
    using that dedup_next_None [of f r] dedup_next_length [of f r]
    by (cases "dedup_next f r") auto
  with assms s show ?thesis
    by (cases l; cases r) (auto simp: merge_next_simps merge_left_def split: if_splits)
qed

interpretation merge: finite_iterator "merge_next f" merge_left for f
  by unfold_locales (rule merge_next_progress)

section \<open>What they return\<close>

lemma sorted_run:
  assumes "sorted (map f (x # xs))"
  shows "dedup_next f (x # xs) =
    (Some (last (x # takeWhile (\<lambda>y. f y = f x) xs)), dropWhile (\<lambda>y. f y = f x) xs)"
  using assms
proof (induction xs arbitrary: x)
  case Nil
  then show ?case by simp
next
  case (Cons y ys)
  show ?case
  proof (cases "f y > f x")
    case True
    then show ?thesis by auto
  next
    case False
    with Cons.prems have "f y = f x" by auto
    with Cons.IH [of y] Cons.prems show ?thesis by simp
  qed
qed

text \<open>One call of \<open>next\<close> on a sorted vector: the item has the first key and wins over the rest.\<close>

lemma dedup_step:
  assumes "sorted (map f (y # r))"
  obtains z r' where "dedup_next f (y # r) = (Some z, r')" "f z = f y"
    "sorted (map f r')" "\<forall>w \<in> set r'. f y < f w"
    "set r' \<subseteq> set (y # r)" "z \<in> set (y # r)"
    "lookup_by f (rev (y # r)) = (lookup_by f (rev r'))(f y \<mapsto> z)"
proof -
  let ?run = "takeWhile (\<lambda>w. f w = f y) r" and ?rest = "dropWhile (\<lambda>w. f w = f y) r"
  define z where "z = last (y # ?run)"
  have run: "\<forall>w \<in> set ?run. f w = f y" by (auto dest: set_takeWhileD)
  have zrun: "z \<in> set (y # ?run)" unfolding z_def by (rule last_in_set) simp
  have zf: "f z = f y"
  proof (cases "z = y")
    case False
    with zrun have "z \<in> set ?run" by simp
    with run show ?thesis by (rule bspec)
  qed simp
  have sr: "sorted (map f ?rest)"
    using assms by (metis list.simps(9) map_append sorted_append sorted_simps(2) takeWhile_dropWhile_id)
  have gt: "\<forall>w \<in> set ?rest. f y < f w"
  proof (cases ?rest)
    case Nil
    then show ?thesis by (metis empty_iff list.set(1))
  next
    case (Cons w ws)
    have "f w \<noteq> f y" using hd_dropWhile [of "\<lambda>w. f w = f y" r] Cons by simp
    moreover have "w \<in> set r" using Cons by (metis list.set_intros(1) set_dropWhileD)
    ultimately have "f y < f w" using assms by fastforce
    with Cons sr show ?thesis by auto
  qed
  have "lookup_by f (rev (y # ?run)) = [f y \<mapsto> z]"
  proof -
    have "y # ?run = butlast (y # ?run) @ [z]"
      unfolding z_def by (rule append_butlast_last_id [symmetric]) simp
    then have rv: "rev (y # ?run) = z # rev (butlast (y # ?run))"
      by (metis rev_eq_Cons_iff rev_rev_ident)
    have keys: "\<forall>w \<in> set (butlast (y # ?run)). f w = f y"
      using run by (metis in_set_butlastD set_ConsD)
    have "lookup_by f (rev (butlast (y # ?run))) q = None" if "q \<noteq> f y" for q
      unfolding lookup_by_None using that keys by (metis imageE set_rev)
    then show ?thesis unfolding rv lookup_by_Cons zf by (intro ext) (simp del: butlast.simps)
  qed
  moreover have "rev (y # r) = rev ?rest @ rev (y # ?run)"
    by (metis append_Cons rev_append takeWhile_dropWhile_id)
  ultimately have "lookup_by f (rev (y # r)) = [f y \<mapsto> z] ++ lookup_by f (rev ?rest)"
    by (simp only: lookup_by_append)
  also have "\<dots> = (lookup_by f (rev ?rest))(f y \<mapsto> z)"
  proof -
    have "lookup_by f (rev ?rest) (f y) = None" using gt by (auto simp: lookup_by_None)
    then show ?thesis by (auto simp: fun_eq_iff map_add_def split: option.splits)
  qed
  finally have look: "lookup_by f (rev (y # r)) = (lookup_by f (rev ?rest))(f y \<mapsto> z)" .
  show ?thesis
  proof (rule that [of z ?rest])
    show "dedup_next f (y # r) = (Some z, ?rest)"
      using sorted_run [OF assms] unfolding z_def .
    show "set ?rest \<subseteq> set (y # r)" by (auto dest: set_dropWhileD)
    show "z \<in> set (y # r)" using zrun by (auto dest: set_takeWhileD)
  qed (use zf sr gt look in auto)
qed

text \<open>The contract of the merge: strictly sorted, the right side wins, its last duplicate counts.\<close>

definition merged :: "('e \<Rightarrow> 'q::linorder) \<Rightarrow> 'e list \<Rightarrow> 'e list \<Rightarrow> 'e list \<Rightarrow> bool" where
  "merged f l r xs \<longleftrightarrow>
     strict_by f xs \<and> lookup_by f xs = lookup_by f l ++ lookup_by f (rev r)"

lemma merged_keys: "merged f l r xs \<Longrightarrow> f ` set xs = f ` set l \<union> f ` set r"
proof -
  have key: "f ` set ys = dom (lookup_by f ys)" for ys :: "'a list"
    using lookup_by_None [of f ys] by (auto simp: dom_def)
  assume "merged f l r xs"
  then have "dom (lookup_by f xs) = dom (lookup_by f l) \<union> dom (lookup_by f (rev r))"
    by (auto simp: merged_def)
  then show ?thesis using key [of xs] key [of l] key [of "rev r"] by simp
qed

lemma merged_Cons:
  assumes "merged f l' r' xs" "\<forall>w \<in> set l'. f x < f w" "\<forall>w \<in> set r'. f x < f w"
    and "lookup_by f l ++ lookup_by f (rev r) =
           (lookup_by f l' ++ lookup_by f (rev r'))(f x \<mapsto> x)"
  shows "merged f l r (x # xs)"
proof -
  have "f x < f w" if "w \<in> set xs" for w
  proof -
    from that have "f w \<in> f ` set l' \<union> f ` set r'" using merged_keys [OF assms(1)] by blast
    with assms(2,3) show ?thesis by auto
  qed
  with assms(1,4) show ?thesis by (simp add: merged_def strict_by_Cons lookup_by_Cons)
qed

lemma merged_step:
  assumes "merge_next f s = (Some x, (l', r'))"
    and "merged f l' r' (iter_collect merge_left (merge_next f) (l', r'))"
    and "\<forall>w \<in> set l'. f x < f w" "\<forall>w \<in> set r'. f x < f w"
    and "lookup_by f l ++ lookup_by f (rev r) = (lookup_by f l' ++ lookup_by f (rev r'))(f x \<mapsto> x)"
  shows "merged f l r (iter_collect merge_left (merge_next f) s)"
  unfolding merge.collect_Some [OF assms(1)] using assms(2-5) by (rule merged_Cons)

lemma merged_collect:
  "strict_by f (fst s) \<Longrightarrow> sorted (map f (snd s)) \<Longrightarrow>
     merged f (fst s) (snd s) (iter_collect merge_left (merge_next f) s)"
proof (induction s rule: merge.collect_induct [where f = f])
  case (step s)
  obtain l r where s: "s = (l, r)" by (cases s)
  have prems: "strict_by f l" "sorted (map f r)" using step.prems s by simp_all
  have IH: "merged f l' r' (iter_collect merge_left (merge_next f) (l', r'))"
    if "merge_next f s = (Some x, (l', r'))" "strict_by f l'" "sorted (map f r')" for x l' r'
    using step.IH [OF that(1)] that(2,3) by simp
  have "merged f l r (iter_collect merge_left (merge_next f) s)"
  proof (cases r)
    case r: Nil
    show ?thesis
    proof (cases l)
      case Nil
      with r s show ?thesis by (simp add: merge.collect_None merge_next_simps merged_def)
    next
      case (Cons x l')
      with r s have nx: "merge_next f s = (Some x, (l', []))" by (simp add: merge_next_simps)
      show ?thesis
        by (rule merged_step [OF nx IH [OF nx]])
          (use prems Cons r in \<open>simp_all add: strict_by_Cons lookup_by_Cons\<close>)
    qed
  next
    case r: (Cons y r0)
    with prems have sr: "sorted (map f (y # r0))" by simp
    then obtain z r' where d: "dedup_next f (y # r0) = (Some z, r')" "f z = f y"
      "sorted (map f r')" "\<forall>w \<in> set r'. f y < f w"
      "lookup_by f (rev (y # r0)) = (lookup_by f (rev r'))(f y \<mapsto> z)"
      by (rule dedup_step)
    have take_right: ?thesis if nx: "merge_next f s = (Some z, (l', r'))"
      and l': "strict_by f l'" "\<forall>w \<in> set l'. f y < f w"
      and look: "lookup_by f l ++ lookup_by f (rev r) =
                   (lookup_by f l' ++ lookup_by f (rev r'))(f y \<mapsto> z)" for l'
      by (rule merged_step [OF nx IH [OF nx l'(1) d(3)]]) (use d(2,4) l' look in simp_all)
    show ?thesis
    proof (cases l)
      case Nil
      with s r d show ?thesis by (intro take_right [of "[]"]) (simp_all add: merge_next_simps)
    next
      case (Cons x l')
      have l': "strict_by f l'" "\<forall>w \<in> set l'. f x < f w"
        using prems Cons by (auto simp: strict_by_Cons)
      have y: "\<forall>w \<in> set r. f y \<le> f w" using sr r by auto
      consider "f x < f y" | "f x = f y" | "f y < f x" by fastforce
      then show ?thesis
      proof cases
        case 1
        then have nx: "merge_next f s = (Some x, (l', r))" using s r Cons by (simp add: merge_next_simps)
        have gt: "\<forall>w \<in> set r. f x < f w" using 1 y by fastforce
        then have "lookup_by f (rev r) (f x) = None" by (auto simp: lookup_by_None)
        then have "lookup_by f l ++ lookup_by f (rev r) =
                     (lookup_by f l' ++ lookup_by f (rev r))(f x \<mapsto> x)"
          using Cons by (auto simp: lookup_by_Cons fun_eq_iff map_add_def split: option.splits)
        then show ?thesis using merged_step [OF nx IH [OF nx l'(1) prems(2)] l'(2) gt] by blast
      next
        case 2
        with s r Cons d l' show ?thesis
          by (intro take_right [of l']) (auto simp: merge_next_simps lookup_by_Cons fun_eq_iff map_add_def split: option.splits)
      next
        case 3
        have "\<forall>w \<in> set l. f y < f w" using 3 l' Cons by auto
        with 3 s r Cons d prems show ?thesis
          by (intro take_right [of l]) (auto simp: merge_next_simps)
      qed
    qed
  qed
  then show ?case using s by simp
qed

lemma merge_collect_merged:
  "strict_by f l \<Longrightarrow> sorted (map f r) \<Longrightarrow> merged f l r (merge_collect f l r)"
  using merged_collect [of f "(l, r)"] by (simp add: merge_collect_def)

text \<open>\<open>DedupIter\<close> on its own is the merge with an empty left side.\<close>

lemma dedup_collect_merge: "dedup_collect f xs = merge_collect f [] xs"
  unfolding dedup_collect_def merge_collect_def
proof (induction xs rule: dedup.collect_induct [where f = f])
  case (step xs)
  show ?case
  proof (cases xs)
    case Nil
    then show ?thesis by (simp add: dedup.collect_None merge.collect_None merge_next_simps)
  next
    case (Cons y ys)
    then obtain x xs' where d: "dedup_next f xs = (Some x, xs')"
      using dedup_next_None [of f xs] by (cases "dedup_next f xs") auto
    then have "merge_next f ([], xs) = (Some x, ([], xs'))" using Cons by (simp add: merge_next_simps)
    with d step [OF d] show ?thesis by (simp add: dedup.collect_Some merge.collect_Some)
  qed
qed

lemma dedup_collect_merged: "sorted (map f r) \<Longrightarrow> merged f [] r (dedup_collect f r)"
  by (simp add: dedup_collect_merge merge_collect_merged)

text \<open>Deduplicating only from the first adjacent duplicate on gives the same result.\<close>

lemma first_dup_None: "sorted (map f xs) \<Longrightarrow> first_dup f xs = None \<Longrightarrow> strict_by f xs"
  by (induction f xs rule: first_dup.induct)
    (auto simp: strict_by_Cons order.strict_iff_order split: if_splits)

lemma first_dup_Some:
  assumes "sorted (map f xs)" "first_dup f xs = Some i"
  shows "i < length xs" "strict_by f (take i xs)"
    "\<forall>x \<in> set (take i xs). \<forall>y \<in> set (drop i xs). f x < f y"
proof -
  have "i < length xs \<and> strict_by f (take i xs) \<and>
        (\<forall>x \<in> set (take i xs). \<forall>y \<in> set (drop i xs). f x < f y)"
    using assms
  proof (induction f xs arbitrary: i rule: first_dup.induct)
    case (1 f a b rest)
    show ?case
    proof (cases "f a = f b")
      case True
      with 1 show ?thesis by simp
    next
      case False
      with 1 obtain j where j: "i = Suc j" "first_dup f (b # rest) = Some j" by auto
      note IH = "1.IH" [OF False _ j(2)]
      have "f a < f b" "\<forall>y \<in> set (b # rest). f b \<le> f y" using False 1 by auto
      then have "\<forall>y \<in> set (b # rest). f a < f y" by fastforce
      moreover have "set (take j (b # rest)) \<subseteq> set (b # rest)" "set (drop j (b # rest)) \<subseteq> set (b # rest)"
        by (rule set_take_subset, rule set_drop_subset)
      ultimately show ?thesis using IH j 1 by (auto simp: strict_by_Cons)
    qed
  qed auto
  then show "i < length xs" "strict_by f (take i xs)"
    "\<forall>x \<in> set (take i xs). \<forall>y \<in> set (drop i xs). f x < f y" by blast+
qed

definition dedup_from :: "('e \<Rightarrow> 'q::linorder) \<Rightarrow> 'e list \<Rightarrow> 'e list" where
  "dedup_from f xs =
     (case first_dup f xs of
        Some i \<Rightarrow> take i xs @ dedup_collect f (drop i xs)
      | None \<Rightarrow> xs)"

lemma lookup_by_rev: "strict_by f xs \<Longrightarrow> lookup_by f (rev xs) = lookup_by f xs"
proof -
  assume "strict_by f xs"
  then have d: "distinct (map f xs)" by (rule strict_by_distinct)
  show ?thesis unfolding lookup_by_def
    by (subst map_of_inject_set) (use d in \<open>simp_all add: comp_def rev_map [symmetric]\<close>)
qed

lemma merged_append:
  assumes "merged f l r xs" "strict_by f m" "\<forall>x \<in> set m. \<forall>y \<in> set l \<union> set r. f x < f y"
  shows "merged f (m @ l) r (m @ xs)"
proof -
  have gt: "f x < f y" if "x \<in> set m" "y \<in> set xs" for x y
  proof -
    have "f y \<in> f ` (set l \<union> set r)" using that(2) merged_keys [OF assms(1)] by (auto simp: image_Un)
    with that(1) assms(3) show ?thesis by auto
  qed
  have "lookup_by f (rev r) q = None" if "q \<in> f ` set m" for q
    using that assms(3) by (fastforce simp: lookup_by_None)
  then have "lookup_by f (m @ xs) = lookup_by f (m @ l) ++ lookup_by f (rev r)"
    using assms(1) unfolding lookup_by_append merged_def
    by (auto simp: fun_eq_iff map_add_def split: option.splits)
      (metis lookup_by_None not_None_eq)+
  with gt assms(1,2) show ?thesis by (simp add: merged_def strict_by_append)
qed

lemma dedup_from_merged: "sorted (map f xs) \<Longrightarrow> merged f [] xs (dedup_from f xs)"
proof (cases "first_dup f xs")
  case None
  assume "sorted (map f xs)"
  with None show ?thesis
    by (simp add: dedup_from_def merged_def first_dup_None lookup_by_rev)
next
  case (Some i)
  assume s: "sorted (map f xs)"
  note d = first_dup_Some [OF s Some]
  have "sorted (map f (drop i xs))" using s by (simp add: drop_map [symmetric] sorted_wrt_drop)
  then have "merged f [] (drop i xs) (dedup_collect f (drop i xs))" by (rule dedup_collect_merged)
  then have "merged f (take i xs @ []) (drop i xs) (take i xs @ dedup_collect f (drop i xs))"
    by (rule merged_append) (use d in auto)
  moreover have "lookup_by f (rev xs) = lookup_by f (take i xs) ++ lookup_by f (rev (drop i xs))"
    using lookup_by_append [of f "rev (drop i xs)" "rev (take i xs)"] lookup_by_rev [OF d(2)]
    by (metis append_take_drop_id rev_append)
  ultimately show ?thesis using Some by (simp add: dedup_from_def merged_def)
qed

lemma dedup_from_append_merged:
  assumes "strict_by f m" "sorted (map f xs)" "\<forall>x \<in> set m. \<forall>y \<in> set xs. f x < f y"
  shows "merged f m xs (m @ dedup_from f xs)"
  using merged_append [OF dedup_from_merged [OF assms(2)] assms(1)] assms(3) by simp

lemma merge_collect_length: "length (merge_collect f l r) \<le> length l + length r"
  using merge.collect_bound [of f "(l, r)"] by (simp add: merge_collect_def merge_left_def)

lemma merge_hint_ok:
  assumes "strict_by f l" "sorted (map f r)"
  shows "hint_ok (merge_size_hint (l, r)) (length (merge_collect f l r))"
proof -
  let ?xs = "merge_collect f l r"
  have m: "merged f l r ?xs" using assms by (rule merge_collect_merged)
  have keys: "f ` set ?xs = f ` set l \<union> f ` set r" using m by (rule merged_keys)
  have "length l = card (f ` set l)"
    using strict_by_distinct [OF assms(1)] by (metis distinct_card length_map list.set_map)
  also have "\<dots> \<le> card (f ` set ?xs)" by (rule card_mono) (auto simp: keys)
  also have "\<dots> \<le> length ?xs" by (metis card_length length_map list.set_map)
  finally have low: "length l \<le> length ?xs" .
  have "1 \<le> length ?xs" if "r \<noteq> []"
    using that keys by (metis One_nat_def Suc_leI Un_empty image_is_empty length_greater_0_conv set_empty)
  then have "min (length r) 1 \<le> length ?xs" by (cases r) auto
  with low show ?thesis
    using merge_collect_length [of f l r]
    by (auto simp: hint_ok_def merge_size_hint_def dedup_size_hint_def slice_size_hint_def Let_def
        dest: usize_checked_add_Some split: option.splits)
qed

lemma dedup_hint_ok: "hint_ok (dedup_size_hint xs) (length (dedup_collect f xs))"
proof -
  have "length (dedup_collect f xs) \<le> length xs"
    unfolding dedup_collect_def by (rule dedup.collect_bound)
  moreover have "dedup_collect f xs = [] \<longleftrightarrow> xs = []"
    unfolding dedup_collect_def by (simp add: dedup.collect_Nil_iff dedup_next_None)
  ultimately show ?thesis
    by (cases xs) (auto simp: hint_ok_def dedup_size_hint_def slice_size_hint_def Suc_le_eq)
qed

text \<open>A stable sort keeps what counts: the last item with each key.\<close>

lemma lookup_by_filter:
  "lookup_by f xs q = (case filter (\<lambda>x. f x = q) xs of [] \<Rightarrow> None | x # _ \<Rightarrow> Some x)"
  by (induction xs) (auto simp: lookup_by_Cons)

lemma lookup_by_rev_sort: "lookup_by f (rev (sort_key f xs)) = lookup_by f (rev xs)"
  by (rule ext) (simp add: lookup_by_filter rev_filter [symmetric] sort_key_stable)

end
