(* ===== verification/Ordered_Map_Spec.thy ===== *)
theory Ordered_Map_Spec
  imports Rust_Prelude
begin

text \<open>
  What the sorted containers promise their clients, as interfaces.  An abstract container is a
  finite map from comparison keys to values; the concrete operations may panic, and the
  interface \<open>ordered_map\<close> says that on a well-formed container they do not and act as the
  operations on the abstract map.  Its lemmas lift this to whole sequences of operations.
  \<open>ordered_map_bulk\<close> adds the bulk insertion, whose optimised code has to agree with inserting
  the items one after another.
\<close>

section \<open>Sequences of operations\<close>

datatype ('i, 'q) map_op = Insert 'i | Remove 'q | Get 'q

fun run_ops ::
  "('i \<Rightarrow> 'm \<Rightarrow> ('v option \<times> 'm) res) \<Rightarrow> ('q \<Rightarrow> 'm \<Rightarrow> ('v option \<times> 'm) res) \<Rightarrow>
   ('q \<Rightarrow> 'm \<Rightarrow> 'v option res) \<Rightarrow> ('i, 'q) map_op list \<Rightarrow> 'm \<Rightarrow> ('v option list \<times> 'm) res" where
  "run_ops ins rem get [] m = Inr ([], m)"
| "run_ops ins rem get (Insert i # ops) m =
     res_bind (ins i m) (\<lambda>(out, m').
       res_bind (run_ops ins rem get ops m') (\<lambda>(outs, m''). Inr (out # outs, m'')))"
| "run_ops ins rem get (Remove q # ops) m =
     res_bind (rem q m) (\<lambda>(out, m').
       res_bind (run_ops ins rem get ops m') (\<lambda>(outs, m''). Inr (out # outs, m'')))"
| "run_ops ins rem get (Get q # ops) m =
     res_bind (get q m) (\<lambda>out.
       res_bind (run_ops ins rem get ops m) (\<lambda>(outs, m''). Inr (out # outs, m'')))"

text \<open>The same sequence on the abstract map.\<close>

fun spec_ops ::
  "('i \<Rightarrow> 'q) \<Rightarrow> ('i \<Rightarrow> 'v) \<Rightarrow> ('i, 'q) map_op list \<Rightarrow> ('q \<rightharpoonup> 'v) \<Rightarrow> 'v option list \<times> ('q \<rightharpoonup> 'v)"
where
  "spec_ops keyof valof [] a = ([], a)"
| "spec_ops keyof valof (Insert i # ops) a =
     (case spec_ops keyof valof ops (a(keyof i \<mapsto> valof i)) of (outs, b) \<Rightarrow> (a (keyof i) # outs, b))"
| "spec_ops keyof valof (Remove q # ops) a =
     (case spec_ops keyof valof ops (a(q := None)) of (outs, b) \<Rightarrow> (a q # outs, b))"
| "spec_ops keyof valof (Get q # ops) a =
     (case spec_ops keyof valof ops a of (outs, b) \<Rightarrow> (a q # outs, b))"

fun insert_each ::
  "('i \<Rightarrow> 'm \<Rightarrow> ('v option \<times> 'm) res) \<Rightarrow> 'i list \<Rightarrow> 'm \<Rightarrow> 'm res" where
  "insert_each ins [] m = Inr m"
| "insert_each ins (i # is) m = res_bind (ins i m) (\<lambda>(_, m'). insert_each ins is m')"

section \<open>The interfaces\<close>

locale ordered_map =
  fixes keyof :: "'i \<Rightarrow> 'q"
    and valof :: "'i \<Rightarrow> 'v"
    and wf :: "'m \<Rightarrow> bool"
    and view :: "'m \<Rightarrow> 'q \<Rightarrow> 'v option"
    and empty :: "'m"
    and ins :: "'i \<Rightarrow> 'm \<Rightarrow> ('v option \<times> 'm) res"
    and rem :: "'q \<Rightarrow> 'm \<Rightarrow> ('v option \<times> 'm) res"
    and get :: "'q \<Rightarrow> 'm \<Rightarrow> 'v option res"
  assumes wf_empty: "wf empty"
    and view_empty: "view empty = Map.empty"
    and ins_spec: "wf m \<Longrightarrow> \<exists>m'. ins i m = Inr (view m (keyof i), m') \<and> wf m' \<and>
                     view m' = (view m)(keyof i \<mapsto> valof i)"
    and rem_spec: "wf m \<Longrightarrow> \<exists>m'. rem q m = Inr (view m q, m') \<and> wf m' \<and>
                     view m' = (view m)(q := None)"
    and get_spec: "wf m \<Longrightarrow> get q m = Inr (view m q)"
begin

lemma run_ops_refine:
  "wf m \<Longrightarrow> \<exists>m'. run_ops ins rem get ops m = Inr (fst (spec_ops keyof valof ops (view m)), m') \<and>
     wf m' \<and> view m' = snd (spec_ops keyof valof ops (view m))"
proof (induction ops arbitrary: m)
  case Nil
  then show ?case by simp
next
  case (Cons op ops)
  show ?case
  proof (cases op)
    case (Insert i)
    obtain m1 where m1: "ins i m = Inr (view m (keyof i), m1)" "wf m1"
      "view m1 = (view m)(keyof i \<mapsto> valof i)"
      using ins_spec [OF Cons.prems] by blast
    with Cons.IH [OF m1(2)] Insert show ?thesis by (auto simp del: fun_upd_apply split: prod.splits)
  next
    case (Remove q)
    obtain m1 where m1: "rem q m = Inr (view m q, m1)" "wf m1" "view m1 = (view m)(q := None)"
      using rem_spec [OF Cons.prems] by blast
    with Cons.IH [OF m1(2)] Remove show ?thesis by (auto simp del: fun_upd_apply split: prod.splits)
  next
    case (Get q)
    with Cons.IH [OF Cons.prems] get_spec [OF Cons.prems] show ?thesis
      by (auto split: prod.splits)
  qed
qed

lemma insert_each_spec:
  "wf m \<Longrightarrow> \<exists>m'. insert_each ins is m = Inr m' \<and> wf m' \<and>
     view m' = view m ++ map_of (rev (map (\<lambda>i. (keyof i, valof i)) is))"
proof (induction "is" arbitrary: m)
  case Nil
  then show ?case by simp
next
  case (Cons i "is")
  obtain m1 where "ins i m = Inr (view m (keyof i), m1)" "wf m1"
    "view m1 = (view m)(keyof i \<mapsto> valof i)"
    using ins_spec [OF Cons.prems] by blast
  with Cons.IH [of m1] show ?case by (auto simp del: fun_upd_apply)
qed

end

locale ordered_map_bulk = ordered_map keyof valof wf view empty ins rem get
  for keyof :: "'i \<Rightarrow> 'q" and valof :: "'i \<Rightarrow> 'v" and wf :: "'m \<Rightarrow> bool"
    and view :: "'m \<Rightarrow> 'q \<Rightarrow> 'v option" and empty :: "'m"
    and ins :: "'i \<Rightarrow> 'm \<Rightarrow> ('v option \<times> 'm) res"
    and rem :: "'q \<Rightarrow> 'm \<Rightarrow> ('v option \<times> 'm) res"
    and get :: "'q \<Rightarrow> 'm \<Rightarrow> 'v option res" +
  fixes extend :: "'i list \<Rightarrow> 'm \<Rightarrow> 'm res"
  assumes extend_spec: "wf m \<Longrightarrow> \<exists>m'. extend is m = Inr m' \<and> wf m' \<and>
    view m' = view m ++ map_of (rev (map (\<lambda>i. (keyof i, valof i)) is))"
begin

text \<open>Bulk insertion is inserting one by one, as far as a client can look things up.\<close>

lemma extend_insert_each:
  assumes "wf m"
  shows "\<exists>m1 m2. extend is m = Inr m1 \<and> insert_each ins is m = Inr m2 \<and>
           wf m1 \<and> wf m2 \<and> view m1 = view m2"
  using extend_spec [OF assms, of "is"] insert_each_spec [OF assms, of "is"] by fastforce

text \<open>Two bulk insertions in a row are one.\<close>

lemma extend_append:
  assumes "wf m"
  shows "\<exists>m1 m2 m3. extend is m = Inr m1 \<and> extend js m1 = Inr m2 \<and>
           extend (is @ js) m = Inr m3 \<and> view m2 = view m3"
proof -
  obtain m1 where m1: "extend is m = Inr m1" "wf m1"
    "view m1 = view m ++ map_of (rev (map (\<lambda>i. (keyof i, valof i)) is))"
    using extend_spec [OF assms] by blast
  with extend_spec [OF m1(2), of js] extend_spec [OF assms, of "is @ js"] show ?thesis
    by fastforce
qed

end

end
