(* ===== verification/Sorted_Vector_Map.thy ===== *)
theory Sorted_Vector_Map
  imports Slice_Search Sorted_Iters Ordered_Map_Spec
begin

text \<open>
  \<open>SortedVectorMap\<close> (\<open>shed/sorted_vector_map/src/map.rs\<close>): a map kept as a vector of entries
  that is strictly sorted by key.  The model is the vector.  \<open>borrow\<close> is the function through
  which keys are compared, Rust's \<open>K: Borrow<Q>\<close> with \<open>Q: Ord\<close>: two keys with the same image
  compare equal and need not be the same key.  A lookup takes the image.

  A shared reference is the value it points to.  A mutable reference \<open>&mut V\<close> into a map is
  the index of the entry it points into; reading it is \<open>vec_index\<close>, writing it \<open>svm_store\<close>.
  Every operation that indexes the vector can panic in the model, and the lemmas show that it
  does not.
\<close>

section \<open>The map and its operations\<close>

type_synonym ('k, 'v) sorted_vector_map = "('k \<times> 'v) list"

definition svm_new :: "('k, 'v) sorted_vector_map" where
  "svm_new = []"

definition svm_with_capacity :: "nat \<Rightarrow> ('k, 'v) sorted_vector_map" where
  "svm_with_capacity capacity = []"

definition svm_into_inner :: "('k, 'v) sorted_vector_map \<Rightarrow> ('k \<times> 'v) list" where
  "svm_into_inner m = m"

definition svm_clear :: "('k, 'v) sorted_vector_map \<Rightarrow> ('k, 'v) sorted_vector_map" where
  "svm_clear m = []"

definition svm_find_index ::
  "('k \<Rightarrow> 'q::linorder) \<Rightarrow> 'q \<Rightarrow> ('k, 'v) sorted_vector_map \<Rightarrow> (nat, nat) result" where
  "svm_find_index borrow q m = binary_search_by (\<lambda>e. cmp (borrow (fst e)) q) m"

definition svm_get_key_value_at_index ::
  "nat \<Rightarrow> ('k, 'v) sorted_vector_map \<Rightarrow> ('k \<times> 'v) option" where
  "svm_get_key_value_at_index i m = (if i < length m then Some (m ! i) else None)"

definition svm_get ::
  "('k \<Rightarrow> 'q::linorder) \<Rightarrow> 'q \<Rightarrow> ('k, 'v) sorted_vector_map \<Rightarrow> 'v option res" where
  "svm_get borrow q m =
     (case svm_find_index borrow q m of
        Ok i \<Rightarrow> res_bind (vec_index m i) (\<lambda>e. Inr (Some (snd e)))
      | Err _ \<Rightarrow> Inr None)"

definition svm_get_key_value ::
  "('k \<Rightarrow> 'q::linorder) \<Rightarrow> 'q \<Rightarrow> ('k, 'v) sorted_vector_map \<Rightarrow> ('k \<times> 'v) option res" where
  "svm_get_key_value borrow q m =
     (case svm_find_index borrow q m of
        Ok i \<Rightarrow> res_bind (vec_index m i) (\<lambda>e. Inr (Some (fst e, snd e)))
      | Err _ \<Rightarrow> Inr None)"

definition svm_contains_key ::
  "('k \<Rightarrow> 'q::linorder) \<Rightarrow> 'q \<Rightarrow> ('k, 'v) sorted_vector_map \<Rightarrow> bool" where
  "svm_contains_key borrow q m = is_ok (svm_find_index borrow q m)"

text \<open>Writing \<open>v\<close> through a reference to the value of entry \<open>i\<close>.\<close>

definition svm_store ::
  "('k, 'v) sorted_vector_map \<Rightarrow> nat \<Rightarrow> 'v \<Rightarrow> ('k, 'v) sorted_vector_map res" where
  "svm_store m i v = res_bind (vec_index m i) (\<lambda>e. vec_write m i (fst e, v))"

definition svm_get_mut ::
  "('k \<Rightarrow> 'q::linorder) \<Rightarrow> 'q \<Rightarrow> ('k, 'v) sorted_vector_map \<Rightarrow> nat option res" where
  "svm_get_mut borrow q m =
     (case svm_find_index borrow q m of
        Ok i \<Rightarrow> res_bind (vec_index m i) (\<lambda>_. Inr (Some i))
      | Err _ \<Rightarrow> Inr None)"

definition svm_insert ::
  "('k \<Rightarrow> 'q::linorder) \<Rightarrow> 'k \<Rightarrow> 'v \<Rightarrow> ('k, 'v) sorted_vector_map \<Rightarrow>
     ('v option \<times> ('k, 'v) sorted_vector_map) res" where
  "svm_insert borrow k v m =
     (let len = length m in
      if len = 0 \<or> borrow (fst (m ! (len - 1))) < borrow k then Inr (None, m @ [(k, v)])
      else
        (case svm_find_index borrow (borrow k) m of
           Ok i \<Rightarrow>
             res_bind (vec_index m i) (\<lambda>e.
               res_bind (svm_store m i v) (\<lambda>m'. Inr (Some (snd e), m')))
         | Err i \<Rightarrow> res_bind (vec_insert m i (k, v)) (\<lambda>m'. Inr (None, m'))))"

definition svm_remove_entry ::
  "('k \<Rightarrow> 'q::linorder) \<Rightarrow> 'q \<Rightarrow> ('k, 'v) sorted_vector_map \<Rightarrow>
     (('k \<times> 'v) option \<times> ('k, 'v) sorted_vector_map) res" where
  "svm_remove_entry borrow q m =
     (case svm_find_index borrow q m of
        Ok i \<Rightarrow> res_bind (vec_remove m i) (\<lambda>((k, v), m'). Inr (Some (k, v), m'))
      | Err _ \<Rightarrow> Inr (None, m))"

definition svm_remove ::
  "('k \<Rightarrow> 'q::linorder) \<Rightarrow> 'q \<Rightarrow> ('k, 'v) sorted_vector_map \<Rightarrow>
     ('v option \<times> ('k, 'v) sorted_vector_map) res" where
  "svm_remove borrow q m =
     (case svm_find_index borrow q m of
        Ok i \<Rightarrow> res_bind (vec_remove m i) (\<lambda>((k, v), m'). Inr (Some v, m'))
      | Err _ \<Rightarrow> Inr (None, m))"

text \<open>The predicate of \<open>retain\<close> sees the key and may rewrite the value it is shown.\<close>

definition svm_retain ::
  "('k \<Rightarrow> 'v \<Rightarrow> bool \<times> 'v) \<Rightarrow> ('k, 'v) sorted_vector_map \<Rightarrow> ('k, 'v) sorted_vector_map" where
  "svm_retain f m =
     vec_retain_mut (\<lambda>(k, v). case f k v of (keep, v') \<Rightarrow> (keep, (k, v'))) m"

definition svm_len :: "('k, 'v) sorted_vector_map \<Rightarrow> nat" where
  "svm_len m = length m"

definition svm_is_empty :: "('k, 'v) sorted_vector_map \<Rightarrow> bool" where
  "svm_is_empty m \<longleftrightarrow> m = []"

text \<open>\<open>append\<close> changes both maps: the result is \<open>(self, other)\<close> after the call.\<close>

definition svm_append ::
  "('k \<Rightarrow> 'q::linorder) \<Rightarrow> ('k, 'v) sorted_vector_map \<Rightarrow> ('k, 'v) sorted_vector_map \<Rightarrow>
     ('k, 'v) sorted_vector_map \<times> ('k, 'v) sorted_vector_map" where
  "svm_append borrow m other =
     (if svm_is_empty other then (m, other)
      else if svm_is_empty m then (other, m)
      else (merge_collect (borrow \<circ> fst) m other, []))"

subsection \<open>Ranges\<close>

definition svm_range_index_start ::
  "('k \<Rightarrow> 'q::linorder) \<Rightarrow> 'q bound \<Rightarrow> ('k, 'v) sorted_vector_map \<Rightarrow> nat" where
  "svm_range_index_start borrow b m =
     (case b of
        Unbounded \<Rightarrow> 0
      | Included q \<Rightarrow> (case svm_find_index borrow q m of Ok i \<Rightarrow> i | Err i \<Rightarrow> i)
      | Excluded q \<Rightarrow> (case svm_find_index borrow q m of Ok i \<Rightarrow> i + 1 | Err i \<Rightarrow> i))"

definition svm_range_index_end ::
  "('k \<Rightarrow> 'q::linorder) \<Rightarrow> 'q bound \<Rightarrow> ('k, 'v) sorted_vector_map \<Rightarrow> nat" where
  "svm_range_index_end borrow b m =
     (case b of
        Unbounded \<Rightarrow> length m
      | Included q \<Rightarrow> (case svm_find_index borrow q m of Ok i \<Rightarrow> i + 1 | Err i \<Rightarrow> i)
      | Excluded q \<Rightarrow> (case svm_find_index borrow q m of Ok i \<Rightarrow> i | Err i \<Rightarrow> i))"

definition svm_range ::
  "('k \<Rightarrow> 'q::linorder) \<Rightarrow> 'q bound \<Rightarrow> 'q bound \<Rightarrow> ('k, 'v) sorted_vector_map \<Rightarrow>
     ('k \<times> 'v) list res" where
  "svm_range borrow lo hi m =
     (let start = svm_range_index_start borrow lo m;
          stop = svm_range_index_end borrow hi m
      in if start > stop
         then Inl (Panic ''range start is greater than range end in SortedVectorMap'')
         else vec_slice m start stop)"

text \<open>A mutating iterator is the list of the entries it has left, each with its index.\<close>

definition svm_range_mut ::
  "('k \<Rightarrow> 'q::linorder) \<Rightarrow> 'q bound \<Rightarrow> 'q bound \<Rightarrow> ('k, 'v) sorted_vector_map \<Rightarrow>
     (nat \<times> 'k \<times> 'v) list res" where
  "svm_range_mut borrow lo hi m =
     (let start = svm_range_index_start borrow lo m;
          stop = svm_range_index_end borrow hi m
      in if start > stop
         then Inl (Panic ''range start is greater than range end in SortedVectorMap'')
         else vec_slice (enumerate 0 m) start stop)"

subsection \<open>Entries\<close>

record ('k, 'v) vacant_entry =
  ve_key :: 'k
  ve_map :: "('k, 'v) sorted_vector_map"
  ve_index :: nat

record ('k, 'v) occupied_entry =
  oe_map :: "('k, 'v) sorted_vector_map"
  oe_index :: nat

datatype ('k, 'v) entry =
  Vacant "('k, 'v) vacant_entry"
| Occupied "('k, 'v) occupied_entry"

definition svm_entry ::
  "('k \<Rightarrow> 'q::linorder) \<Rightarrow> 'k \<Rightarrow> ('k, 'v) sorted_vector_map \<Rightarrow> ('k, 'v) entry" where
  "svm_entry borrow key m =
     (case svm_find_index borrow (borrow key) m of
        Ok i \<Rightarrow> Occupied \<lparr>oe_map = m, oe_index = i\<rparr>
      | Err i \<Rightarrow> Vacant \<lparr>ve_key = key, ve_map = m, ve_index = i\<rparr>)"

definition svm_first_entry ::
  "('k, 'v) sorted_vector_map \<Rightarrow> ('k, 'v) occupied_entry option" where
  "svm_first_entry m = (if m = [] then None else Some \<lparr>oe_map = m, oe_index = 0\<rparr>)"

definition svm_last_entry ::
  "('k, 'v) sorted_vector_map \<Rightarrow> ('k, 'v) occupied_entry option" where
  "svm_last_entry m =
     (if m = [] then None
      else (let index = length m - 1 in Some \<lparr>oe_map = m, oe_index = index\<rparr>))"

subsection \<open>Splitting, iterating, the ends\<close>

definition svm_split_off ::
  "('k \<Rightarrow> 'q::linorder) \<Rightarrow> 'q \<Rightarrow> ('k, 'v) sorted_vector_map \<Rightarrow>
     (('k, 'v) sorted_vector_map \<times> ('k, 'v) sorted_vector_map) res" where
  "svm_split_off borrow q m =
     (let index = (case svm_find_index borrow q m of Ok i \<Rightarrow> i | Err i \<Rightarrow> i)
      in vec_split_off m index)"

definition svm_iter :: "('k, 'v) sorted_vector_map \<Rightarrow> ('k \<times> 'v) list" where
  "svm_iter m = m"

definition svm_iter_mut :: "('k, 'v) sorted_vector_map \<Rightarrow> (nat \<times> 'k \<times> 'v) list" where
  "svm_iter_mut m = enumerate 0 m"

definition svm_keys :: "('k, 'v) sorted_vector_map \<Rightarrow> ('k \<times> 'v) list" where
  "svm_keys m = m"

definition svm_values :: "('k, 'v) sorted_vector_map \<Rightarrow> ('k \<times> 'v) list" where
  "svm_values m = m"

definition svm_values_mut :: "('k, 'v) sorted_vector_map \<Rightarrow> (nat \<times> 'k \<times> 'v) list" where
  "svm_values_mut m = enumerate 0 m"

definition svm_first_key_value :: "('k, 'v) sorted_vector_map \<Rightarrow> ('k \<times> 'v) option" where
  "svm_first_key_value m = vec_first m"

definition svm_last_key_value :: "('k, 'v) sorted_vector_map \<Rightarrow> ('k \<times> 'v) option" where
  "svm_last_key_value m = vec_last m"

definition svm_pop_last ::
  "('k, 'v) sorted_vector_map \<Rightarrow> ('k \<times> 'v) option \<times> ('k, 'v) sorted_vector_map" where
  "svm_pop_last m = vec_pop m"

definition svm_into_keys :: "('k, 'v) sorted_vector_map \<Rightarrow> 'k list" where
  "svm_into_keys m = map (\<lambda>(k, _). k) m"

definition svm_into_values :: "('k, 'v) sorted_vector_map \<Rightarrow> 'v list" where
  "svm_into_values m = map (\<lambda>(_, v). v) m"

subsection \<open>Bulk insertion\<close>

definition svm_extend_with_vec ::
  "('k \<Rightarrow> 'q::linorder) \<Rightarrow> ('k \<times> 'v) list \<Rightarrow> ('k, 'v) sorted_vector_map \<Rightarrow>
     ('k, 'v) sorted_vector_map res" where
  "svm_extend_with_vec borrow new m =
     (if new = [] then Inr m
      else if length new = 1 then
        (case slice_next new of
           (Some (k, v), _) \<Rightarrow> res_bind (svm_insert borrow k v m) (\<lambda>(_, m'). Inr m')
         | (None, _) \<Rightarrow> Inl (Panic ''iterator must have one item''))
      else
        (let new = sort_key (borrow \<circ> fst) new in
         if m = [] then
           (case first_dup (borrow \<circ> fst) new of
              Some first_dup_index \<Rightarrow>
                res_bind (vec_split_off new first_dup_index) (\<lambda>(new, dups).
                  Inr (new @ dedup_collect (borrow \<circ> fst) dups))
            | None \<Rightarrow> Inr new)
         else
           (case (vec_last m, vec_first new) of
              (Some (self_last, _), Some (new_first, _)) \<Rightarrow>
                if borrow self_last < borrow new_first then
                  (case first_dup (borrow \<circ> fst) new of
                     Some first_dup_index \<Rightarrow>
                       res_bind (vec_split_off new first_dup_index) (\<lambda>(new, dups).
                         Inr ((m @ new) @ dedup_collect (borrow \<circ> fst) dups))
                   | None \<Rightarrow> Inr (m @ new))
                else Inr (merge_collect (borrow \<circ> fst) m new)
            | _ \<Rightarrow> Inr (merge_collect (borrow \<circ> fst) m new))))"

definition svm_default :: "('k, 'v) sorted_vector_map" where
  "svm_default = svm_new"

definition svm_into_iter :: "('k, 'v) sorted_vector_map \<Rightarrow> ('k \<times> 'v) list" where
  "svm_into_iter m = m"

definition svm_into_iter_ref :: "('k, 'v) sorted_vector_map \<Rightarrow> ('k \<times> 'v) list" where
  "svm_into_iter_ref m = svm_iter m"

definition svm_into_iter_mut :: "('k, 'v) sorted_vector_map \<Rightarrow> (nat \<times> 'k \<times> 'v) list" where
  "svm_into_iter_mut m = svm_iter_mut m"

subsection \<open>The iterator types\<close>

definition Iter_next :: "('k \<times> 'v) list \<Rightarrow> ('k \<times> 'v) option \<times> ('k \<times> 'v) list" where
  "Iter_next it = map_item (\<lambda>(k, v). (k, v)) (slice_next it)"

definition Iter_size_hint :: "('k \<times> 'v) list \<Rightarrow> nat \<times> nat option" where
  "Iter_size_hint it = slice_size_hint it"

definition Iter_len :: "('k \<times> 'v) list \<Rightarrow> nat" where
  "Iter_len it = length it"

definition Iter_next_back :: "('k \<times> 'v) list \<Rightarrow> ('k \<times> 'v) option \<times> ('k \<times> 'v) list" where
  "Iter_next_back it = map_item (\<lambda>(k, v). (k, v)) (slice_next_back it)"

text \<open>The item is the key and the reference to the value.\<close>

definition IterMut_next ::
  "(nat \<times> 'k \<times> 'v) list \<Rightarrow> ('k \<times> nat) option \<times> (nat \<times> 'k \<times> 'v) list" where
  "IterMut_next it = map_item (\<lambda>(i, k, v). (k, i)) (slice_next it)"

definition IterMut_next_back ::
  "(nat \<times> 'k \<times> 'v) list \<Rightarrow> ('k \<times> nat) option \<times> (nat \<times> 'k \<times> 'v) list" where
  "IterMut_next_back it = map_item (\<lambda>(i, k, v). (k, i)) (slice_next_back it)"

definition Keys_next :: "('k \<times> 'v) list \<Rightarrow> 'k option \<times> ('k \<times> 'v) list" where
  "Keys_next it = map_item (\<lambda>(k, _). k) (slice_next it)"

definition Keys_next_back :: "('k \<times> 'v) list \<Rightarrow> 'k option \<times> ('k \<times> 'v) list" where
  "Keys_next_back it = map_item (\<lambda>(k, _). k) (slice_next_back it)"

definition Values_next :: "('k \<times> 'v) list \<Rightarrow> 'v option \<times> ('k \<times> 'v) list" where
  "Values_next it = map_item (\<lambda>(_, v). v) (slice_next it)"

definition Values_next_back :: "('k \<times> 'v) list \<Rightarrow> 'v option \<times> ('k \<times> 'v) list" where
  "Values_next_back it = map_item (\<lambda>(_, v). v) (slice_next_back it)"

definition ValuesMut_next ::
  "(nat \<times> 'k \<times> 'v) list \<Rightarrow> nat option \<times> (nat \<times> 'k \<times> 'v) list" where
  "ValuesMut_next it = map_item (\<lambda>(i, _, _). i) (slice_next it)"

definition ValuesMut_next_back ::
  "(nat \<times> 'k \<times> 'v) list \<Rightarrow> nat option \<times> (nat \<times> 'k \<times> 'v) list" where
  "ValuesMut_next_back it = map_item (\<lambda>(i, _, _). i) (slice_next_back it)"

subsection \<open>Traits\<close>

definition svm_extend ::
  "('k \<Rightarrow> 'q::linorder) \<Rightarrow> ('k \<times> 'v) list \<Rightarrow> ('k, 'v) sorted_vector_map \<Rightarrow>
     ('k, 'v) sorted_vector_map res" where
  "svm_extend borrow iter m = svm_extend_with_vec borrow iter m"

definition svm_extend_ref ::
  "('k \<Rightarrow> 'q::linorder) \<Rightarrow> ('k \<times> 'v) list \<Rightarrow> ('k, 'v) sorted_vector_map \<Rightarrow>
     ('k, 'v) sorted_vector_map res" where
  "svm_extend_ref borrow iter m =
     (let new = map (\<lambda>(k, v). (k, v)) iter in svm_extend_with_vec borrow new m)"

definition svm_from_iter ::
  "('k \<Rightarrow> 'q::linorder) \<Rightarrow> ('k \<times> 'v) list \<Rightarrow> ('k, 'v) sorted_vector_map res" where
  "svm_from_iter borrow iter = svm_extend borrow iter svm_new"

definition svm_index ::
  "('k \<Rightarrow> 'q::linorder) \<Rightarrow> 'q \<Rightarrow> ('k, 'v) sorted_vector_map \<Rightarrow> 'v res" where
  "svm_index borrow q m =
     (case svm_find_index borrow q m of
        Ok i \<Rightarrow> res_bind (vec_index m i) (\<lambda>e. Inr (snd e))
      | Err _ \<Rightarrow> Inl (Panic ''no entry found for key''))"

definition svm_index_mut ::
  "('k \<Rightarrow> 'q::linorder) \<Rightarrow> 'q \<Rightarrow> ('k, 'v) sorted_vector_map \<Rightarrow> nat res" where
  "svm_index_mut borrow q m =
     (case svm_find_index borrow q m of
        Ok i \<Rightarrow> res_bind (vec_index m i) (\<lambda>_. Inr i)
      | Err _ \<Rightarrow> Inl (Panic ''no entry found for key''))"

subsection \<open>Operations of entries\<close>

definition VacantEntry_key :: "('k, 'v) vacant_entry \<Rightarrow> 'k" where
  "VacantEntry_key e = ve_key e"

definition VacantEntry_into_key :: "('k, 'v) vacant_entry \<Rightarrow> 'k" where
  "VacantEntry_into_key e = ve_key e"

text \<open>The reference to the new value, and the map the entry borrowed.\<close>

definition VacantEntry_insert ::
  "'v \<Rightarrow> ('k, 'v) vacant_entry \<Rightarrow> (nat \<times> ('k, 'v) sorted_vector_map) res" where
  "VacantEntry_insert value e =
     res_bind (vec_insert (ve_map e) (ve_index e) (ve_key e, value)) (\<lambda>m'.
       res_bind (vec_index m' (ve_index e)) (\<lambda>_. Inr (ve_index e, m')))"

definition OccupiedEntry_key :: "('k, 'v) occupied_entry \<Rightarrow> 'k res" where
  "OccupiedEntry_key e = res_bind (vec_index (oe_map e) (oe_index e)) (\<lambda>x. Inr (fst x))"

definition OccupiedEntry_remove_entry ::
  "('k, 'v) occupied_entry \<Rightarrow> (('k \<times> 'v) \<times> ('k, 'v) sorted_vector_map) res" where
  "OccupiedEntry_remove_entry e = vec_remove (oe_map e) (oe_index e)"

definition OccupiedEntry_get :: "('k, 'v) occupied_entry \<Rightarrow> 'v res" where
  "OccupiedEntry_get e = res_bind (vec_index (oe_map e) (oe_index e)) (\<lambda>x. Inr (snd x))"

definition OccupiedEntry_get_mut :: "('k, 'v) occupied_entry \<Rightarrow> nat res" where
  "OccupiedEntry_get_mut e = res_bind (vec_index (oe_map e) (oe_index e)) (\<lambda>_. Inr (oe_index e))"

definition OccupiedEntry_into_mut ::
  "('k, 'v) occupied_entry \<Rightarrow> (nat \<times> ('k, 'v) sorted_vector_map) res" where
  "OccupiedEntry_into_mut e =
     res_bind (vec_index (oe_map e) (oe_index e)) (\<lambda>_. Inr (oe_index e, oe_map e))"

definition OccupiedEntry_insert ::
  "'v \<Rightarrow> ('k, 'v) occupied_entry \<Rightarrow> ('v \<times> ('k, 'v) occupied_entry) res" where
  "OccupiedEntry_insert value e =
     res_bind (vec_index (oe_map e) (oe_index e)) (\<lambda>x.
       res_bind (svm_store (oe_map e) (oe_index e) value) (\<lambda>m'.
         Inr (snd x, e\<lparr>oe_map := m'\<rparr>)))"

definition OccupiedEntry_remove ::
  "('k, 'v) occupied_entry \<Rightarrow> ('v \<times> ('k, 'v) sorted_vector_map) res" where
  "OccupiedEntry_remove e =
     res_bind (vec_remove (oe_map e) (oe_index e)) (\<lambda>(x, m'). Inr (snd x, m'))"

definition Entry_or_insert ::
  "'v \<Rightarrow> ('k, 'v) entry \<Rightarrow> (nat \<times> ('k, 'v) sorted_vector_map) res" where
  "Entry_or_insert dflt e =
     (case e of
        Occupied entry \<Rightarrow> OccupiedEntry_into_mut entry
      | Vacant entry \<Rightarrow> VacantEntry_insert dflt entry)"

definition Entry_or_insert_with ::
  "(unit \<Rightarrow> 'v) \<Rightarrow> ('k, 'v) entry \<Rightarrow> (nat \<times> ('k, 'v) sorted_vector_map) res" where
  "Entry_or_insert_with dflt e =
     (case e of
        Occupied entry \<Rightarrow> OccupiedEntry_into_mut entry
      | Vacant entry \<Rightarrow> VacantEntry_insert (dflt ()) entry)"

definition Entry_key :: "('k, 'v) entry \<Rightarrow> 'k res" where
  "Entry_key e =
     (case e of
        Occupied entry \<Rightarrow> OccupiedEntry_key entry
      | Vacant entry \<Rightarrow> Inr (VacantEntry_key entry))"

definition Entry_and_modify :: "('v \<Rightarrow> 'v) \<Rightarrow> ('k, 'v) entry \<Rightarrow> ('k, 'v) entry res" where
  "Entry_and_modify f e =
     (case e of
        Occupied entry \<Rightarrow>
          res_bind (OccupiedEntry_get_mut entry) (\<lambda>i.
            res_bind (vec_index (oe_map entry) i) (\<lambda>x.
              res_bind (svm_store (oe_map entry) i (f (snd x))) (\<lambda>m'.
                Inr (Occupied (entry\<lparr>oe_map := m'\<rparr>)))))
      | Vacant entry \<Rightarrow> Inr (Vacant entry))"

definition Entry_or_default ::
  "'v \<Rightarrow> ('k, 'v) entry \<Rightarrow> (nat \<times> ('k, 'v) sorted_vector_map) res" where
  "Entry_or_default v_default e =
     (case e of
        Occupied entry \<Rightarrow> OccupiedEntry_into_mut entry
      | Vacant entry \<Rightarrow> VacantEntry_insert v_default entry)"

text \<open>A \<open>BTreeMap\<close> iterates in key order; \<open>bmap\<close> is that sequence of entries.\<close>

definition svm_from_btreemap :: "('k \<times> 'v) list \<Rightarrow> ('k, 'v) sorted_vector_map" where
  "svm_from_btreemap bmap = bmap"

text \<open>The macro \<open>sorted_vector_map!\<close>.\<close>

definition sorted_vector_map_macro ::
  "('k \<Rightarrow> 'q::linorder) \<Rightarrow> ('k \<times> 'v) list \<Rightarrow> ('k, 'v) sorted_vector_map res" where
  "sorted_vector_map_macro borrow kvs =
     insert_each (\<lambda>(k, v). svm_insert borrow k v) kvs (svm_with_capacity (length kvs))"

section \<open>Invariant and abstraction\<close>

definition svm_wf :: "('k \<Rightarrow> 'q::linorder) \<Rightarrow> ('k, 'v) sorted_vector_map \<Rightarrow> bool" where
  "svm_wf borrow m \<longleftrightarrow> strict_by (borrow \<circ> fst) m"

text \<open>The entry stored under each comparison key, and the finite map it amounts to.\<close>

definition svm_entries ::
  "('k \<Rightarrow> 'q::linorder) \<Rightarrow> ('k, 'v) sorted_vector_map \<Rightarrow> 'q \<Rightarrow> ('k \<times> 'v) option" where
  "svm_entries borrow m = lookup_by (borrow \<circ> fst) m"

definition svm_view ::
  "('k \<Rightarrow> 'q::linorder) \<Rightarrow> ('k, 'v) sorted_vector_map \<Rightarrow> 'q \<Rightarrow> 'v option" where
  "svm_view borrow m q = map_option snd (svm_entries borrow m q)"

definition item_view :: "('k \<Rightarrow> 'q) \<Rightarrow> 'k \<times> 'v \<Rightarrow> 'q \<times> 'v" where
  "item_view borrow e = (borrow (fst e), snd e)"

lemma svm_view_map_of: "svm_view borrow m = map_of (map (item_view borrow) m)"
proof
  show "svm_view borrow m q = map_of (map (item_view borrow) m) q" for q
    by (induction m) (auto simp: svm_view_def svm_entries_def lookup_by_Cons item_view_def)
qed

lemma svm_find_index_eq: "svm_find_index borrow q m = find_by (borrow \<circ> fst) q m"
  by (simp add: svm_find_index_def find_by_def)

lemma svm_wf_Nil [simp]: "svm_wf borrow []"
  by (simp add: svm_wf_def)

lemma svm_entries_Nil [simp]: "svm_entries borrow [] = Map.empty"
  by (simp add: svm_entries_def)

lemma svm_view_Nil [simp]: "svm_view borrow [] = Map.empty"
  by (simp add: svm_view_def fun_eq_iff)

lemma svm_view_upd:
  "svm_entries borrow m' = (svm_entries borrow m)(q \<mapsto> (k, v)) \<Longrightarrow>
     svm_view borrow m' = (svm_view borrow m)(q \<mapsto> v)"
  by (simp add: svm_view_def fun_eq_iff)

lemma svm_view_del:
  "svm_entries borrow m' = (svm_entries borrow m)(q := None) \<Longrightarrow>
     svm_view borrow m' = (svm_view borrow m)(q := None)"
  by (simp add: svm_view_def fun_eq_iff)

text \<open>Every use of the binary search, as a case distinction on what the map holds.\<close>

lemma svm_find_cases:
  assumes "svm_wf borrow m"
  obtains (found) i k v where "svm_find_index borrow q m = Ok i" "i < length m" "m ! i = (k, v)"
    "borrow k = q" "svm_entries borrow m q = Some (k, v)" "svm_view borrow m q = Some v"
  | (missing) i where "svm_find_index borrow q m = Err i" "i \<le> length m"
    "\<forall>e \<in> set (take i m). borrow (fst e) < q" "\<forall>e \<in> set (drop i m). q < borrow (fst e)"
    "svm_entries borrow m q = None" "svm_view borrow m q = None"
proof (cases "svm_find_index borrow q m")
  case (Ok i)
  note f = Ok [unfolded svm_find_index_eq]
  have "svm_entries borrow m q = Some (m ! i)"
    using find_by_lookup [of "borrow \<circ> fst" m q] assms f by (simp add: svm_wf_def svm_entries_def)
  with found [of i "fst (m ! i)" "snd (m ! i)"] Ok find_by_Ok [OF f] show ?thesis
    by (simp add: svm_view_def)
next
  case (Err i)
  note f = Err [unfolded svm_find_index_eq]
  have wf: "strict_by (borrow \<circ> fst) m" using assms by (simp add: svm_wf_def)
  have "svm_entries borrow m q = None"
    using find_by_lookup [OF wf, of q] f by (simp add: svm_entries_def)
  with missing [of i] Err find_by_Err_range [OF f] find_by_Err [OF wf f] show ?thesis
    by (simp add: svm_view_def)
qed

section \<open>Single-entry operations\<close>

lemma svm_get_spec: "svm_wf borrow m \<Longrightarrow> svm_get borrow q m = Inr (svm_view borrow m q)"
  by (erule svm_find_cases [where q = q]) (simp_all add: svm_get_def vec_index_def)

lemma svm_get_key_value_spec:
  "svm_wf borrow m \<Longrightarrow> svm_get_key_value borrow q m = Inr (svm_entries borrow m q)"
  by (erule svm_find_cases [where q = q]) (simp_all add: svm_get_key_value_def vec_index_def)

lemma svm_contains_key_spec:
  "svm_wf borrow m \<Longrightarrow> svm_contains_key borrow q m \<longleftrightarrow> q \<in> borrow ` fst ` set m"
  unfolding svm_contains_key_def svm_find_index_eq svm_wf_def
  by (simp add: find_by_iff image_image)

lemma svm_store_spec:
  assumes "svm_wf borrow m" "i < length m"
  shows "\<exists>m'. svm_store m i v = Inr m' \<and> svm_wf borrow m' \<and> length m' = length m \<and>
    svm_entries borrow m' = (svm_entries borrow m)(borrow (fst (m ! i)) \<mapsto> (fst (m ! i), v))"
proof -
  let ?e = "(fst (m ! i), v)"
  have "svm_store m i v = Inr (m[i := ?e])"
    using assms(2) by (simp add: svm_store_def vec_index_def vec_write_def)
  then show ?thesis
    using strict_by_update_at [of "borrow \<circ> fst" m i ?e] lookup_by_update_at [of "borrow \<circ> fst" m i ?e] assms
    by (simp add: svm_wf_def svm_entries_def)
qed

lemma svm_append_end:
  assumes "svm_wf borrow m" "\<forall>e \<in> set m. borrow (fst e) < borrow k"
  shows "svm_wf borrow (m @ [(k, v)])"
    "svm_entries borrow (m @ [(k, v)]) = (svm_entries borrow m)(borrow k \<mapsto> (k, v))"
  using strict_by_insert_at [of "borrow \<circ> fst" m "length m" "(k, v)"]
    lookup_by_insert_at [of "borrow \<circ> fst" m "length m" "(k, v)"] assms
  by (simp_all add: svm_wf_def svm_entries_def)

lemma svm_wf_last:
  assumes "svm_wf borrow m" "m \<noteq> []" "e \<in> set m"
  shows "borrow (fst e) \<le> borrow (fst (m ! (length m - 1)))"
proof -
  from assms(3) obtain j where "j < length m" "e = m ! j" by (auto simp: in_set_conv_nth)
  with strict_by_nth_mono [of "borrow \<circ> fst" m j "length m - 1"] assms show ?thesis
    by (simp add: svm_wf_def)
qed

text \<open>An insertion keeps the key that is already there and replaces its value.\<close>

lemma svm_insert_entries:
  assumes "svm_wf borrow m"
  shows "\<exists>m'. svm_insert borrow k v m = Inr (svm_view borrow m (borrow k), m') \<and> svm_wf borrow m' \<and>
    svm_entries borrow m' = (svm_entries borrow m)
      (borrow k \<mapsto> (case svm_entries borrow m (borrow k) of None \<Rightarrow> k | Some (k0, _) \<Rightarrow> k0, v))"
proof (cases "length m = 0 \<or> borrow (fst (m ! (length m - 1))) < borrow k")
  case True
  then have below: "\<forall>e \<in> set m. borrow (fst e) < borrow k"
    using svm_wf_last [OF assms] by (cases "m = []") (auto intro: le_less_trans)
  then have "svm_entries borrow m (borrow k) = None"
    by (auto simp: svm_entries_def lookup_by_None)
  with True svm_append_end [OF assms below] show ?thesis
    by (simp add: svm_insert_def Let_def svm_view_def)
next
  case False
  then have unfold: "svm_insert borrow k v m = (case svm_find_index borrow (borrow k) m of
      Ok i \<Rightarrow> res_bind (vec_index m i) (\<lambda>e. res_bind (svm_store m i v) (\<lambda>m'. Inr (Some (snd e), m')))
    | Err i \<Rightarrow> res_bind (vec_insert m i (k, v)) (\<lambda>m'. Inr (None, m')))"
    by (simp add: svm_insert_def Let_def)
  show ?thesis
  proof (rule svm_find_cases [OF assms, of "borrow k"])
    fix i k0 v0
    assume f: "svm_find_index borrow (borrow k) m = Ok i" "i < length m" "m ! i = (k0, v0)"
      "borrow k0 = borrow k" "svm_entries borrow m (borrow k) = Some (k0, v0)"
      "svm_view borrow m (borrow k) = Some v0"
    with svm_store_spec [OF assms f(2), of v] show ?thesis
      unfolding unfold by (auto simp: vec_index_def)
  next
    fix i
    assume f: "svm_find_index borrow (borrow k) m = Err i" "i \<le> length m"
      "\<forall>e \<in> set (take i m). borrow (fst e) < borrow k" "\<forall>e \<in> set (drop i m). borrow k < borrow (fst e)"
      "svm_entries borrow m (borrow k) = None" "svm_view borrow m (borrow k) = None"
    with strict_by_insert_at [of "borrow \<circ> fst" m i "(k, v)"]
      lookup_by_insert_at [of "borrow \<circ> fst" m i "(k, v)"] assms show ?thesis
      unfolding unfold by (simp add: vec_insert_def svm_wf_def svm_entries_def)
  qed
qed

lemma svm_insert_spec:
  assumes "svm_wf borrow m"
  shows "\<exists>m'. svm_insert borrow k v m = Inr (svm_view borrow m (borrow k), m') \<and> svm_wf borrow m' \<and>
    svm_view borrow m' = (svm_view borrow m)(borrow k \<mapsto> v)"
  using svm_insert_entries [OF assms, of k v] by (auto dest: svm_view_upd simp del: fun_upd_apply)

lemma svm_remove_entry_spec:
  assumes "svm_wf borrow m"
  shows "\<exists>m'. svm_remove_entry borrow q m = Inr (svm_entries borrow m q, m') \<and> svm_wf borrow m' \<and>
    svm_entries borrow m' = (svm_entries borrow m)(q := None)"
  using assms
proof (cases rule: svm_find_cases [where q = q])
  case (found i k v)
  with strict_by_remove_at [of "borrow \<circ> fst" m i] lookup_by_remove_at [of "borrow \<circ> fst" m i] assms
  show ?thesis
    by (simp add: svm_remove_entry_def vec_remove_def svm_wf_def svm_entries_def)
next
  case (missing i)
  with assms show ?thesis by (simp add: svm_remove_entry_def fun_upd_idem)
qed

lemma svm_remove_remove_entry:
  "svm_remove borrow q m =
     res_bind (svm_remove_entry borrow q m) (\<lambda>(e, m'). Inr (map_option snd e, m'))"
  by (auto simp: svm_remove_def svm_remove_entry_def vec_remove_def split: result.splits prod.splits)

lemma svm_remove_spec:
  assumes "svm_wf borrow m"
  shows "\<exists>m'. svm_remove borrow q m = Inr (svm_view borrow m q, m') \<and> svm_wf borrow m' \<and>
    svm_view borrow m' = (svm_view borrow m)(q := None)"
proof -
  obtain m' where m': "svm_remove_entry borrow q m = Inr (svm_entries borrow m q, m')" "svm_wf borrow m'"
    "svm_entries borrow m' = (svm_entries borrow m)(q := None)"
    using svm_remove_entry_spec [OF assms] by blast
  then have "svm_remove borrow q m = Inr (svm_view borrow m q, m')"
    by (simp add: svm_remove_remove_entry svm_view_def)
  with m' svm_view_del show ?thesis by blast
qed

section \<open>Bulk operations\<close>

lemma map_option_map_add: "map_option h ((a ++ b) q) = ((\<lambda>q. map_option h (a q)) ++ (\<lambda>q. map_option h (b q))) q"
  by (simp add: map_add_def split: option.splits)

lemma merged_svm:
  assumes "merged (borrow \<circ> fst) m r m'"
  shows "svm_wf borrow m'" "svm_entries borrow m' = svm_entries borrow m ++ svm_entries borrow (rev r)"
    "svm_view borrow m' = svm_view borrow m ++ map_of (rev (map (item_view borrow) r))"
proof -
  show "svm_wf borrow m'"
    and e: "svm_entries borrow m' = svm_entries borrow m ++ svm_entries borrow (rev r)"
    using assms by (simp_all add: merged_def svm_wf_def svm_entries_def)
  have "svm_view borrow m' = svm_view borrow m ++ svm_view borrow (rev r)"
    unfolding svm_view_def e by (rule ext) (simp add: map_option_map_add)
  then show "svm_view borrow m' = svm_view borrow m ++ map_of (rev (map (item_view borrow) r))"
    by (simp add: svm_view_map_of rev_map)
qed

lemma svm_extend_many:
  assumes "svm_wf borrow m" "length new > 1"
  shows "\<exists>m'. svm_extend_with_vec borrow new m = Inr m' \<and>
    merged (borrow \<circ> fst) m (sort_key (borrow \<circ> fst) new) m'"
proof -
  let ?f = "borrow \<circ> fst"
  let ?new = "sort_key ?f new"
  have sorted: "sorted (map ?f ?new)" by (rule sorted_sort_key)
  have "length ?new = length new" by simp
  then have ne: "new \<noteq> []" "length new \<noteq> 1" "?new \<noteq> []" using assms(2) by fastforce+
  have wf: "strict_by ?f m" using assms(1) by (simp add: svm_wf_def)
  have split: "vec_split_off ?new i = Inr (take i ?new, drop i ?new)" if "first_dup ?f ?new = Some i" for i
    using first_dup_Some(1) [OF sorted that] by (simp add: vec_split_off_def)
  show ?thesis
  proof (cases "m = []")
    case True
    then have "svm_extend_with_vec borrow new m = Inr (dedup_from ?f ?new)"
      using ne split by (simp add: svm_extend_with_vec_def Let_def dedup_from_def split: option.splits)
    with True dedup_from_merged [OF sorted] show ?thesis by simp
  next
    case False
    obtain nf nv rest where new: "?new = (nf, nv) # rest" using ne(3) by (cases "?new") auto
    show ?thesis
    proof (cases "borrow (fst (last m)) < borrow nf")
      case True
      have "svm_extend_with_vec borrow new m = Inr (m @ dedup_from ?f ?new)"
        using ne False split True new
        by (auto simp: svm_extend_with_vec_def Let_def dedup_from_def vec_last_def vec_first_def
            split: option.splits prod.splits)
      moreover have "merged ?f m ?new (m @ dedup_from ?f ?new)"
      proof (rule dedup_from_append_merged [OF wf sorted])
        have "borrow (fst e) \<le> borrow (fst (last m))" if "e \<in> set m" for e
          using svm_wf_last [OF assms(1) False that] False by (simp add: last_conv_nth)
        moreover have "borrow nf \<le> borrow (fst e)" if "e \<in> set ?new" for e
          using sorted that unfolding new by auto
        ultimately show "\<forall>x \<in> set m. \<forall>y \<in> set ?new. ?f x < ?f y"
          using True by fastforce
      qed
      ultimately show ?thesis by blast
    next
      case notless: False
      have "svm_extend_with_vec borrow new m = Inr (merge_collect ?f m ?new)"
        using ne False notless new
        by (auto simp: svm_extend_with_vec_def Let_def vec_last_def vec_first_def split: prod.splits)
      then show ?thesis using merge_collect_merged [OF wf sorted] by blast
    qed
  qed
qed

lemma svm_extend_with_vec_spec:
  assumes "svm_wf borrow m"
  shows "\<exists>m'. svm_extend_with_vec borrow new m = Inr m' \<and> svm_wf borrow m' \<and>
    svm_view borrow m' = svm_view borrow m ++ map_of (rev (map (item_view borrow) new))"
proof -
  consider "new = []" | k v where "new = [(k, v)]" | "length new > 1"
    by (cases new; cases "tl new") auto
  then show ?thesis
  proof cases
    case 1
    with assms show ?thesis by (simp add: svm_extend_with_vec_def)
  next
    case 2
    with svm_insert_spec [OF assms, of k v] show ?thesis
      by (auto simp: svm_extend_with_vec_def item_view_def simp del: fun_upd_apply)
  next
    case 3
    let ?new = "sort_key (borrow \<circ> fst) new"
    obtain m' where m': "svm_extend_with_vec borrow new m = Inr m'" "merged (borrow \<circ> fst) m ?new m'"
      using svm_extend_many [OF assms 3] by blast
    have "svm_view borrow (rev ?new) = svm_view borrow (rev new)"
      unfolding svm_view_def svm_entries_def lookup_by_rev_sort ..
    then have "map_of (rev (map (item_view borrow) ?new)) = map_of (rev (map (item_view borrow) new))"
      by (simp add: svm_view_map_of rev_map)
    with m' merged_svm [OF m'(2)] show ?thesis by simp
  qed
qed

lemma svm_append_spec:
  assumes "svm_wf borrow m" "svm_wf borrow other"
  shows "svm_wf borrow (fst (svm_append borrow m other))"
    "svm_view borrow (fst (svm_append borrow m other)) = svm_view borrow m ++ svm_view borrow other"
    "snd (svm_append borrow m other) = []"
proof -
  have "merged (borrow \<circ> fst) m other (merge_collect (borrow \<circ> fst) m other)"
    by (rule merge_collect_merged)
      (use assms in \<open>simp_all only: svm_wf_def strict_by_sorted\<close>)
  note m = merged_svm [OF this]
  have "svm_entries borrow (rev other) = svm_entries borrow other"
    using assms(2) by (simp add: svm_entries_def svm_wf_def lookup_by_rev)
  then have "svm_view borrow (merge_collect (borrow \<circ> fst) m other) = svm_view borrow m ++ svm_view borrow other"
    unfolding svm_view_def m(2) by (intro ext) (simp add: map_option_map_add)
  with m(1) assms show "svm_wf borrow (fst (svm_append borrow m other))"
    "svm_view borrow (fst (svm_append borrow m other)) = svm_view borrow m ++ svm_view borrow other"
    "snd (svm_append borrow m other) = []"
    by (auto simp: svm_append_def svm_is_empty_def)
qed

lemma svm_retain_spec:
  assumes "svm_wf borrow m"
  shows "svm_wf borrow (svm_retain f m)"
    "svm_view borrow (svm_retain f m) q =
       (case svm_entries borrow m q of
          None \<Rightarrow> None
        | Some (k, v) \<Rightarrow> (if fst (f k v) then Some (snd (f k v)) else None))"
proof -
  let ?g = "\<lambda>(k, v). case f k v of (keep, v') \<Rightarrow> (keep, (k, v'))"
  have keys: "fst ` set (vec_retain_mut ?g m) \<subseteq> fst ` set m" for m :: "('a \<times> 'c) list"
    by (induction m) (auto split: prod.splits if_splits)
  have "svm_wf borrow (svm_retain f m) \<and> svm_view borrow (svm_retain f m) q =
       (case svm_entries borrow m q of
          None \<Rightarrow> None
        | Some (k, v) \<Rightarrow> (if fst (f k v) then Some (snd (f k v)) else None))"
    using assms
  proof (induction m)
    case Nil
    then show ?case by (simp add: svm_retain_def)
  next
    case (Cons e m)
    obtain k v where e: "e = (k, v)" by (cases e)
    obtain keep v' where fkv: "f k v = (keep, v')" by (cases "f k v")
    have wf: "svm_wf borrow m" and gt: "\<forall>x \<in> set m. borrow k < borrow (fst x)"
      using Cons.prems e by (auto simp: svm_wf_def strict_by_Cons)
    have "\<forall>x \<in> set (svm_retain f m). borrow k < borrow (fst x)"
      using keys [of m] gt unfolding svm_retain_def by fastforce
    moreover have "svm_entries borrow m (borrow k) = None"
      using gt by (auto simp: svm_entries_def lookup_by_None)
    ultimately show ?case using Cons.IH [OF wf] e fkv
      by (auto simp: svm_retain_def svm_wf_def svm_view_def svm_entries_def strict_by_Cons
          lookup_by_Cons split: option.splits)
  qed
  then show "svm_wf borrow (svm_retain f m)"
    "svm_view borrow (svm_retain f m) q =
       (case svm_entries borrow m q of
          None \<Rightarrow> None
        | Some (k, v) \<Rightarrow> (if fst (f k v) then Some (snd (f k v)) else None))"
    by simp_all
qed

section \<open>Ranges and splits\<close>

lemma svm_range_index_eq:
  "svm_range_index_start borrow b m = start_index (borrow \<circ> fst) b m"
  "svm_range_index_end borrow b m = end_index (borrow \<circ> fst) b m"
  by (simp_all add: svm_range_index_start_def svm_range_index_end_def start_index_def end_index_def
      svm_find_index_eq lower_index_def upper_index_def split: bound.splits)

lemma svm_split_off_spec:
  "svm_wf borrow m \<Longrightarrow> svm_split_off borrow q m =
    Inr (filter (\<lambda>e. borrow (fst e) < q) m, filter (\<lambda>e. \<not> borrow (fst e) < q) m)"
  using split_at_lower [of "borrow \<circ> fst" m q]
  by (simp add: svm_split_off_def svm_find_index_eq lower_index_def svm_wf_def)

section \<open>Entries\<close>

lemma svm_view_nth: "svm_wf borrow m \<Longrightarrow> i < length m \<Longrightarrow>
    svm_view borrow m (borrow (fst (m ! i))) = Some (snd (m ! i))"
  using lookup_by_nth [of "borrow \<circ> fst" m i] by (simp add: svm_wf_def svm_view_def svm_entries_def)

text \<open>A value reference into a well-formed map: an index whose entry has the given key.\<close>

definition svm_ref :: "('k \<Rightarrow> 'q) \<Rightarrow> 'q \<Rightarrow> nat \<Rightarrow> ('k, 'v) sorted_vector_map \<Rightarrow> bool" where
  "svm_ref borrow q i m \<longleftrightarrow> i < length m \<and> borrow (fst (m ! i)) = q"

lemma svm_entry_or_insert:
  assumes "svm_wf borrow m"
  shows "\<exists>i m'. Entry_or_insert d (svm_entry borrow k m) = Inr (i, m') \<and> svm_wf borrow m' \<and>
    svm_ref borrow (borrow k) i m' \<and>
    svm_view borrow m' = (svm_view borrow m)
      (borrow k \<mapsto> (case svm_view borrow m (borrow k) of Some v \<Rightarrow> v | None \<Rightarrow> d))"
  using assms
proof (cases rule: svm_find_cases [where q = "borrow k"])
  case (found i k0 v)
  with assms show ?thesis
    by (simp add: Entry_or_insert_def svm_entry_def OccupiedEntry_into_mut_def vec_index_def svm_ref_def
        fun_upd_idem)
next
  case (missing i)
  let ?m' = "take i m @ (k, d) # drop i m"
  have "svm_wf borrow ?m'" "svm_entries borrow ?m' = (svm_entries borrow m)(borrow k \<mapsto> (k, d))"
    using strict_by_insert_at [of "borrow \<circ> fst" m i "(k, d)"]
      lookup_by_insert_at [of "borrow \<circ> fst" m i "(k, d)"] assms missing
    by (simp_all add: svm_wf_def svm_entries_def)
  moreover have "?m' ! i = (k, d)" "i < length ?m'" using missing(2) by (simp_all add: nth_append)
  moreover have "Entry_or_insert d (svm_entry borrow k m) = Inr (i, ?m')"
    using missing by (simp add: Entry_or_insert_def svm_entry_def VacantEntry_insert_def vec_insert_def
        vec_index_def)
  ultimately show ?thesis using missing by (auto simp: svm_ref_def dest: svm_view_upd)
qed

lemma svm_entry_and_modify:
  assumes "svm_wf borrow m"
  shows "\<exists>m'. Entry_and_modify f (svm_entry borrow k m) = Inr (svm_entry borrow k m') \<and> svm_wf borrow m' \<and>
    svm_view borrow m' = (svm_view borrow m)(borrow k := map_option f (svm_view borrow m (borrow k)))"
  using assms
proof (cases rule: svm_find_cases [where q = "borrow k"])
  case (found i k0 v)
  let ?m' = "m[i := (k0, f v)]"
  have st: "svm_store m i (f v) = Inr ?m'"
    using found by (simp add: svm_store_def vec_index_def vec_write_def)
  from svm_store_spec [OF assms found(2), of "f v"] st found
  have m': "svm_wf borrow ?m'" "svm_entries borrow ?m' = (svm_entries borrow m)(borrow k \<mapsto> (k0, f v))"
    by auto
  have "svm_find_index borrow (borrow k) ?m' = Ok i"
    using m'(1)
  proof (cases rule: svm_find_cases [where q = "borrow k"])
    case found': (found j k1 v1)
    have "distinct (map (borrow \<circ> fst) ?m')" using m'(1) by (simp add: svm_wf_def strict_by_distinct)
    moreover have "map (borrow \<circ> fst) ?m' ! j = map (borrow \<circ> fst) ?m' ! i"
      using found found' by simp
    ultimately have "j = i" using found(2) found'(2) by (metis length_list_update length_map nth_eq_iff_index_eq)
    with found' show ?thesis by simp
  next
    case (missing j)
    with m'(2) show ?thesis by simp
  qed
  then have "Entry_and_modify f (svm_entry borrow k m) = Inr (svm_entry borrow k ?m')"
    using found st
    by (simp add: Entry_and_modify_def svm_entry_def OccupiedEntry_get_mut_def vec_index_def)
  with m' found show ?thesis by (auto dest: svm_view_upd)
next
  case (missing i)
  with assms show ?thesis by (intro exI [of _ m]) (simp add: Entry_and_modify_def svm_entry_def fun_upd_idem)
qed

section \<open>The interfaces\<close>

interpretation svm: ordered_map_bulk "borrow \<circ> fst" snd "svm_wf borrow" "svm_view borrow" svm_new
  "\<lambda>(k, v). svm_insert borrow k v" "svm_remove borrow" "svm_get borrow" "svm_extend_with_vec borrow"
  for borrow :: "'k \<Rightarrow> 'q::linorder"
proof unfold_locales
  fix m :: "('k \<times> 'v) list" and i :: "'k \<times> 'v" and q and "is" :: "('k \<times> 'v) list"
  show "svm_wf borrow svm_new" "svm_view borrow svm_new = Map.empty"
    by (simp_all add: svm_new_def)
  assume wf: "svm_wf borrow m"
  show "\<exists>m'. (case i of (k, v) \<Rightarrow> svm_insert borrow k v) m = Inr (svm_view borrow m ((borrow \<circ> fst) i), m') \<and>
      svm_wf borrow m' \<and> svm_view borrow m' = (svm_view borrow m)((borrow \<circ> fst) i \<mapsto> snd i)"
    using svm_insert_spec [OF wf] by (simp split: prod.splits)
  show "\<exists>m'. svm_remove borrow q m = Inr (svm_view borrow m q, m') \<and> svm_wf borrow m' \<and>
      svm_view borrow m' = (svm_view borrow m)(q := None)"
    using wf by (rule svm_remove_spec)
  show "svm_get borrow q m = Inr (svm_view borrow m q)"
    using wf by (rule svm_get_spec)
  show "\<exists>m'. svm_extend_with_vec borrow is m = Inr m' \<and> svm_wf borrow m' \<and>
      svm_view borrow m' = svm_view borrow m ++ map_of (rev (map (\<lambda>i. ((borrow \<circ> fst) i, snd i)) is))"
    using svm_extend_with_vec_spec [OF wf, of "is"] by (simp add: item_view_def [abs_def])
qed

section \<open>Properties\<close>

text \<open>
  C1.  Any sequence of insertions, removals and lookups on a new map runs without a panic and
  returns what the same sequence returns on a finite map from comparison keys to values; the
  vector stays strictly sorted and holds that finite map at the end.
\<close>

theorem svm_run_refines:
  "\<exists>m'. run_ops (\<lambda>(k, v). svm_insert borrow k v) (svm_remove borrow) (svm_get borrow) ops svm_new =
          Inr (fst (spec_ops (borrow \<circ> fst) snd ops Map.empty), m') \<and>
        svm_wf borrow m' \<and> svm_view borrow m' = snd (spec_ops (borrow \<circ> fst) snd ops Map.empty)"
  using svm.run_ops_refine [OF svm.wf_empty, of borrow ops] by (simp only: svm.view_empty)

text \<open>
   The binary search of the map: on a strictly sorted vector \<open>Ok(i)\<close> is the index of the
  entry with the key, and \<open>Err(i)\<close> the one index where inserting it keeps the order.
\<close>

theorem svm_find_index_correct:
  assumes "svm_wf borrow m"
  shows "case svm_find_index borrow q m of
           Ok i \<Rightarrow> i < length m \<and> borrow (fst (m ! i)) = q
         | Err i \<Rightarrow> i \<le> length m \<and> (\<forall>e \<in> set (take i m). borrow (fst e) < q) \<and>
                    (\<forall>e \<in> set (drop i m). q < borrow (fst e))"
  by (rule svm_find_cases [OF assms, of q]) simp_all

theorem svm_find_index_correct_witness:
  "svm_wf id [(2::nat, CHR ''a''), (5, CHR ''b'')] \<and>
   svm_find_index id 3 [(2::nat, CHR ''a''), (5, CHR ''b'')] = Err 1 \<and>
   (3::nat) < fst ([(2::nat, CHR ''a''), (5, CHR ''b'')] ! 1)"
proof -
  have wf: "svm_wf id [(2::nat, CHR ''a''), (5, CHR ''b'')]" by (simp add: svm_wf_def strict_by_def)
  have r: "svm_find_index id 3 [(2::nat, CHR ''a''), (5, CHR ''b'')] = Err 1"
    by (simp add: svm_find_index_def binary_search_by_def bs_loop.simps cmp_def)
  show ?thesis using wf r svm_find_index_correct [OF wf, of 3] by simp
qed

text \<open>
  C2.  \<open>extend_with_vec\<close>, with its special cases for one item, for an empty map and for items
  that all come after the end, its stable sort, its deduplication from the first duplicate
  and its merge, gives the map that inserting the items one after another gives.
\<close>

theorem svm_extend_is_insert_each:
  assumes "svm_wf borrow m"
  shows "\<exists>m1 m2. svm_extend_with_vec borrow new m = Inr m1 \<and>
           insert_each (\<lambda>(k, v). svm_insert borrow k v) new m = Inr m2 \<and>
           svm_wf borrow m1 \<and> svm_wf borrow m2 \<and> svm_view borrow m1 = svm_view borrow m2"
  using assms by (rule svm.extend_insert_each)

theorem svm_extend_is_insert_each_witness:
  "\<exists>m1 m2. svm_extend_with_vec id [(7::nat, ''x''), (3, ''y''), (7, ''z'')] [(3, ''a''), (5, ''b'')] = Inr m1 \<and>
     insert_each (\<lambda>(k, v). svm_insert id k v) [(7, ''x''), (3, ''y''), (7, ''z'')] [(3, ''a''), (5, ''b'')] = Inr m2 \<and>
     svm_wf id m1 \<and> svm_wf id m2 \<and> svm_view id m1 = svm_view id m2"
  by (rule svm_extend_is_insert_each) (simp add: svm_wf_def strict_by_def)

text \<open>
  C3.  \<open>range\<close> returns, in order, exactly the entries between its two bounds, and panics
  exactly when some entry lies before the start and after the end at once: bounds in the
  wrong order with no entry between them give an empty range, not a panic.
\<close>

theorem svm_range_correct:
  assumes "svm_wf borrow m"
  shows "svm_range borrow lo hi m =
    (if \<exists>e \<in> set m. \<not> after_start lo (borrow (fst e)) \<and> \<not> before_end hi (borrow (fst e))
     then Inl (Panic ''range start is greater than range end in SortedVectorMap'')
     else Inr (filter (\<lambda>e. after_start lo (borrow (fst e)) \<and> before_end hi (borrow (fst e))) m))"
proof -
  have wf: "strict_by (borrow \<circ> fst) m" using assms by (simp add: svm_wf_def)
  note inv = range_inverted_iff [OF wf, of hi lo, unfolded comp_def]
  note slice = range_slice [OF wf, of lo hi, unfolded selected_def [abs_def] comp_def]
  show ?thesis
    unfolding svm_range_def svm_range_index_eq Let_def comp_def inv [symmetric]
    using slice by (simp add: not_less)
qed

theorem svm_range_correct_witness:
  "svm_range id (Included 9) (Excluded 4) [(2::nat, ''a''), (12, ''b'')] = Inr [] \<and>
   svm_range id (Included 2) (Excluded 12) [(2::nat, ''a''), (12, ''b'')] = Inr [(2, ''a'')]"
proof -
  have wf: "svm_wf id [(2::nat, ''a''), (12, ''b'')]" by (simp add: svm_wf_def strict_by_def)
  show ?thesis
    using svm_range_correct [OF wf, of "Included 9" "Excluded 4"]
      svm_range_correct [OF wf, of "Included 2" "Excluded 12"]
    by (simp add: after_start_def before_end_def)
qed

text \<open>
   Splitting a map at a key and appending the second part again gives the map back, and
  leaves the appended part empty; the two parts hold the smaller keys and the others.
\<close>

theorem svm_split_append_roundtrip:
  assumes "svm_wf borrow m"
  shows "\<exists>lo hi. svm_split_off borrow q m = Inr (lo, hi) \<and> svm_wf borrow lo \<and> svm_wf borrow hi \<and>
           (\<forall>e \<in> set lo. borrow (fst e) < q) \<and> (\<forall>e \<in> set hi. q \<le> borrow (fst e)) \<and>
           svm_append borrow lo hi = (m, [])"
proof -
  let ?f = "borrow \<circ> fst" and ?P = "\<lambda>e. borrow (fst e) < q"
  let ?lo = "filter ?P m" and ?hi = "filter (\<lambda>e. \<not> ?P e) m"
  have wf: "svm_wf borrow ?lo" "svm_wf borrow ?hi"
    using assms by (simp_all add: svm_wf_def strict_by_filter)
  note a = svm_append_spec [OF wf]
  have m: "strict_by ?f m" using assms by (simp add: svm_wf_def)
  have "svm_append borrow ?lo ?hi = (m, [])"
  proof (cases "?lo = [] \<or> ?hi = []")
    case True
    then have "?lo @ ?hi = m"
      by (metis append_Nil append_Nil2 filter_False filter_True filter_empty_conv)
    with True show ?thesis by (auto simp: svm_append_def svm_is_empty_def)
  next
    case False
    have "merged ?f ?lo ?hi (merge_collect ?f ?lo ?hi)"
      by (rule merge_collect_merged) (use wf in \<open>simp_all only: svm_wf_def strict_by_sorted\<close>)
    then have c: "strict_by ?f (merge_collect ?f ?lo ?hi)"
      "lookup_by ?f (merge_collect ?f ?lo ?hi) = lookup_by ?f ?lo ++ lookup_by ?f ?hi"
      using wf(2) by (simp_all add: merged_def lookup_by_rev svm_wf_def)
    have "lookup_by ?f m x = (lookup_by ?f ?lo ++ lookup_by ?f ?hi) x" for x
    proof -
      have "filter (\<lambda>e. ?f e = x) ?lo = (if x < q then filter (\<lambda>e. ?f e = x) m else [])"
        "filter (\<lambda>e. ?f e = x) ?hi = (if x < q then [] else filter (\<lambda>e. ?f e = x) m)"
        by (induction m) auto
      then show ?thesis unfolding map_add_def lookup_by_filter by (simp split: list.splits)
    qed
    with c m have "merge_collect ?f ?lo ?hi = m" by (intro lookup_by_inject [of ?f]) auto
    with False show ?thesis by (simp add: svm_append_def svm_is_empty_def)
  qed
  with wf show ?thesis by (simp add: svm_split_off_spec [OF assms] not_less)
qed

theorem svm_split_append_roundtrip_witness:
  "\<exists>lo hi. svm_split_off id 4 [(2::nat, ''a''), (4, ''b''), (9, ''c'')] = Inr (lo, hi) \<and>
     svm_wf id lo \<and> svm_wf id hi \<and>
     svm_append id lo hi = ([(2, ''a''), (4, ''b''), (9, ''c'')], [])"
proof -
  have "svm_wf id [(2::nat, ''a''), (4, ''b''), (9, ''c'')]" by (simp add: svm_wf_def strict_by_def)
  from svm_split_append_roundtrip [OF this, of 4] show ?thesis by blast
qed

text \<open>
   The entry interface: \<open>entry(k).and_modify(f).or_insert(d)\<close> applies \<open>f\<close> to the value of a
  key that is present, stores \<open>d\<close> under a key that is not, changes nothing else, and returns
  a reference to that value.
\<close>

theorem svm_entry_update:
  assumes "svm_wf borrow m"
  shows "\<exists>e i m'. Entry_and_modify f (svm_entry borrow k m) = Inr e \<and>
           Entry_or_insert d e = Inr (i, m') \<and> svm_wf borrow m' \<and> svm_ref borrow (borrow k) i m' \<and>
           svm_view borrow m' = (svm_view borrow m)
             (borrow k \<mapsto> (case svm_view borrow m (borrow k) of Some v \<Rightarrow> f v | None \<Rightarrow> d))"
proof -
  obtain m1 where m1: "Entry_and_modify f (svm_entry borrow k m) = Inr (svm_entry borrow k m1)"
    "svm_wf borrow m1"
    "svm_view borrow m1 = (svm_view borrow m)(borrow k := map_option f (svm_view borrow m (borrow k)))"
    using svm_entry_and_modify [OF assms] by blast
  with svm_entry_or_insert [OF m1(2), of d k] show ?thesis
    by (cases "svm_view borrow m (borrow k)") auto
qed

theorem svm_entry_update_witness:
  "\<exists>e i m'. Entry_and_modify Suc (svm_entry id (4::nat) [(2, 10), (4, 20)]) = Inr e \<and>
     Entry_or_insert 0 e = Inr (i, m') \<and> svm_wf id m' \<and> svm_ref id (id 4) i m' \<and>
     svm_view id m' = (svm_view id [(2, 10), (4, 20)])
       (id 4 \<mapsto> (case svm_view id [(2, 10), (4::nat, 20)] (id 4) of Some v \<Rightarrow> Suc v | None \<Rightarrow> 0))"
  by (rule svm_entry_update) (simp add: svm_wf_def strict_by_def)

text \<open>
   An insertion that finds an equal key keeps the key that is stored and replaces the
  value only, while a bulk insertion of several items replaces the whole entry, key included.
\<close>

theorem svm_insert_key_kept:
  assumes "svm_wf borrow m" "length new > 1"
  shows "(\<exists>m1. svm_insert borrow k v m = Inr (svm_view borrow m (borrow k), m1) \<and>
            svm_entries borrow m1 (borrow k) =
              Some (case svm_entries borrow m (borrow k) of None \<Rightarrow> k | Some (k0, _) \<Rightarrow> k0, v)) \<and>
         (\<exists>m2. svm_extend_with_vec borrow new m = Inr m2 \<and>
            svm_entries borrow m2 = svm_entries borrow m ++ svm_entries borrow (rev new))"
proof (rule conjI)
  show "\<exists>m1. svm_insert borrow k v m = Inr (svm_view borrow m (borrow k), m1) \<and>
          svm_entries borrow m1 (borrow k) =
            Some (case svm_entries borrow m (borrow k) of None \<Rightarrow> k | Some (k0, _) \<Rightarrow> k0, v)"
    using svm_insert_entries [OF assms(1), of k v] by auto
  obtain m2 where "svm_extend_with_vec borrow new m = Inr m2"
    and m2: "merged (borrow \<circ> fst) m (sort_key (borrow \<circ> fst) new) m2"
    using svm_extend_many [OF assms] by blast
  moreover have "svm_entries borrow m2 = svm_entries borrow m ++ svm_entries borrow (rev new)"
    using merged_svm(2) [OF m2] by (simp add: svm_entries_def lookup_by_rev_sort)
  ultimately show "\<exists>m2. svm_extend_with_vec borrow new m = Inr m2 \<and>
      svm_entries borrow m2 = svm_entries borrow m ++ svm_entries borrow (rev new)" by blast
qed

theorem svm_insert_key_kept_witness:
  "(\<exists>m1. svm_insert fst (1::nat, ''new'') ''w'' [((1, ''old''), ''v'')] = Inr (Some ''v'', m1) \<and>
      svm_entries fst m1 1 = Some ((1, ''old''), ''w'')) \<and>
   (\<exists>m2. svm_extend_with_vec fst [((1, ''new''), ''w''), ((2, ''two''), ''x'')] [((1::nat, ''old''), ''v'')] = Inr m2 \<and>
      svm_entries fst m2 1 = Some ((1, ''new''), ''w''))"
proof -
  have wf: "svm_wf fst [((1::nat, ''old''), ''v'')]" by (simp add: svm_wf_def strict_by_def)
  show ?thesis
    using svm_insert_key_kept [OF wf, of "[((1, ''new''), ''w''), ((2, ''two''), ''x'')]" "(1, ''new'')" "''w''"]
    by (auto simp: svm_view_def svm_entries_def lookup_by_def)
qed

text \<open>
   \<open>append\<close> moves everything: afterwards the map holds the entries of both, those of the
  other map winning where a key is in both, and the other map is empty.
\<close>

theorem svm_append_correct:
  assumes "svm_wf borrow m" "svm_wf borrow other"
  shows "svm_wf borrow (fst (svm_append borrow m other)) \<and>
    svm_view borrow (fst (svm_append borrow m other)) = svm_view borrow m ++ svm_view borrow other \<and>
    snd (svm_append borrow m other) = []"
  using svm_append_spec [OF assms] by blast

theorem svm_append_correct_witness:
  "svm_view id (fst (svm_append id [(1::nat, ''a''), (2, ''b'')] [(2, ''c''), (3, ''d'')])) 2 = Some ''c''"
proof -
  have wf: "svm_wf id [(1::nat, ''a''), (2, ''b'')]" "svm_wf id [(2::nat, ''c''), (3, ''d'')]"
    by (simp_all add: svm_wf_def strict_by_def)
  show ?thesis using svm_append_correct [OF wf] by (simp add: svm_view_map_of item_view_def)
qed

end
