(* ===== verification/Sorted_Vector_Set.thy ===== *)
theory Sorted_Vector_Set
  imports Slice_Search Sorted_Iters Ordered_Map_Spec
begin

text \<open>
  \<open>SortedVectorSet\<close> (\<open>shed/sorted_vector_map/src/set.rs\<close>): a set kept as a strictly sorted
  vector of its values.  As for the map, values compare through \<open>borrow\<close>, and values that
  compare equal need not be the same value; the operations say which of the two is kept.
  The four lazy set operations run one merge of both vectors, \<open>OperationInner\<close>, and pick from
  its items.
\<close>

section \<open>The set and its operations\<close>

type_synonym 't sorted_vector_set = "'t list"

definition svs_new :: "'t sorted_vector_set" where
  "svs_new = []"

definition svs_with_capacity :: "nat \<Rightarrow> 't sorted_vector_set" where
  "svs_with_capacity capacity = []"

definition svs_into_inner :: "'t sorted_vector_set \<Rightarrow> 't list" where
  "svs_into_inner s = s"

definition svs_clear :: "'t sorted_vector_set \<Rightarrow> 't sorted_vector_set" where
  "svs_clear s = []"

definition svs_is_empty :: "'t sorted_vector_set \<Rightarrow> bool" where
  "svs_is_empty s \<longleftrightarrow> s = []"

definition svs_find_index ::
  "('t \<Rightarrow> 'q::linorder) \<Rightarrow> 'q \<Rightarrow> 't sorted_vector_set \<Rightarrow> (nat, nat) result" where
  "svs_find_index borrow q s = binary_search_by (\<lambda>e. cmp (borrow e) q) s"

definition svs_contains :: "('t \<Rightarrow> 'q::linorder) \<Rightarrow> 'q \<Rightarrow> 't sorted_vector_set \<Rightarrow> bool" where
  "svs_contains borrow q s = is_ok (svs_find_index borrow q s)"

definition svs_get :: "('t \<Rightarrow> 'q::linorder) \<Rightarrow> 'q \<Rightarrow> 't sorted_vector_set \<Rightarrow> 't option res" where
  "svs_get borrow q s =
     (case svs_find_index borrow q s of
        Ok i \<Rightarrow> res_bind (vec_index s i) (\<lambda>x. Inr (Some x))
      | Err _ \<Rightarrow> Inr None)"

definition svs_range_index_start ::
  "('t \<Rightarrow> 'q::linorder) \<Rightarrow> 'q bound \<Rightarrow> 't sorted_vector_set \<Rightarrow> nat" where
  "svs_range_index_start borrow b s =
     (case b of
        Unbounded \<Rightarrow> 0
      | Included q \<Rightarrow> (case svs_find_index borrow q s of Ok i \<Rightarrow> i | Err i \<Rightarrow> i)
      | Excluded q \<Rightarrow> (case svs_find_index borrow q s of Ok i \<Rightarrow> i + 1 | Err i \<Rightarrow> i))"

definition svs_range_index_end ::
  "('t \<Rightarrow> 'q::linorder) \<Rightarrow> 'q bound \<Rightarrow> 't sorted_vector_set \<Rightarrow> nat" where
  "svs_range_index_end borrow b s =
     (case b of
        Unbounded \<Rightarrow> length s
      | Included q \<Rightarrow> (case svs_find_index borrow q s of Ok i \<Rightarrow> i + 1 | Err i \<Rightarrow> i)
      | Excluded q \<Rightarrow> (case svs_find_index borrow q s of Ok i \<Rightarrow> i | Err i \<Rightarrow> i))"

definition svs_range ::
  "('t \<Rightarrow> 'q::linorder) \<Rightarrow> 'q bound \<Rightarrow> 'q bound \<Rightarrow> 't sorted_vector_set \<Rightarrow> 't list res" where
  "svs_range borrow lo hi s =
     (let start = svs_range_index_start borrow lo s;
          stop = svs_range_index_end borrow hi s
      in if start > stop
         then Inl (Panic ''range start is greater than range end in SortedVectorSet'')
         else vec_slice s start stop)"

subsection \<open>The merge behind the set operations\<close>

text \<open>The state of \<open>OperationInner\<close> is what its two peekable iterators have left.\<close>

definition op_next ::
  "('t \<Rightarrow> 'q::linorder) \<Rightarrow> 't list \<times> 't list \<Rightarrow>
     ('t option \<times> 't option) option \<times> ('t list \<times> 't list)" where
  "op_next borrow s =
     (case s of (left, right) \<Rightarrow>
        (case merge_order borrow (vec_first left) (vec_first right) of
           None \<Rightarrow> (None, (left, right))
         | Some Less \<Rightarrow> (case slice_next left of (x, left') \<Rightarrow> (Some (x, None), (left', right)))
         | Some Greater \<Rightarrow> (case slice_next right of (y, right') \<Rightarrow> (Some (None, y), (left, right')))
         | Some Equal \<Rightarrow>
             (case slice_next left of (x, left') \<Rightarrow>
                (case slice_next right of (y, right') \<Rightarrow> (Some (x, y), (left', right'))))))"

lemma op_next_simps:
  "op_next b ([], []) = (None, ([], []))"
  "op_next b (x # l, []) = (Some (Some x, None), (l, []))"
  "op_next b ([], y # r) = (Some (None, Some y), ([], r))"
  "op_next b (x # l, y # r) =
     (if b x < b y then (Some (Some x, None), (l, y # r))
      else if b x = b y then (Some (Some x, Some y), (l, r))
      else (Some (None, Some y), (x # l, r)))"
  by (auto simp: op_next_def merge_order_def vec_first_def cmp_def)

lemma op_next_progress: "op_next b s = (Some it, s') \<Longrightarrow> merge_left s' < merge_left s"
  by (cases s; cases "fst s"; cases "snd s")
    (auto simp: op_next_simps merge_left_def split: if_splits)

text \<open>
  The loop \<open>for next in inner { match next { .. => return Some(x), _ => continue } } None\<close>,
  with the arms of the match as the function \<open>sel\<close>.
\<close>

function op_find ::
  "('t \<Rightarrow> 'q::linorder) \<Rightarrow> ('t option \<times> 't option \<Rightarrow> 't option) \<Rightarrow> 't list \<times> 't list \<Rightarrow>
     't option \<times> ('t list \<times> 't list)" where
  "op_find borrow sel s =
     (case op_next borrow s of
        (None, s') \<Rightarrow> (None, s')
      | (Some it, s') \<Rightarrow> (case sel it of Some x \<Rightarrow> (Some x, s') | None \<Rightarrow> op_find borrow sel s'))"
  by pat_completeness auto
termination
  by (relation "measure (\<lambda>(borrow, sel, s). merge_left s)") (auto dest: op_next_progress [OF sym])

declare op_find.simps [simp del]

definition difference_arm :: "'t option \<times> 't option \<Rightarrow> 't option" where
  "difference_arm it = (case it of (Some left, None) \<Rightarrow> Some left | _ \<Rightarrow> None)"

definition symmetric_difference_arm :: "'t option \<times> 't option \<Rightarrow> 't option" where
  "symmetric_difference_arm it =
     (case it of
        (Some left, None) \<Rightarrow> Some left
      | (None, Some right) \<Rightarrow> Some right
      | _ \<Rightarrow> None)"

definition intersection_arm :: "'t option \<times> 't option \<Rightarrow> 't option" where
  "intersection_arm it = (case it of (Some left, Some _) \<Rightarrow> Some left | _ \<Rightarrow> None)"

definition union_arm :: "'t option \<times> 't option \<Rightarrow> 't option" where
  "union_arm it =
     (case it of
        (_, Some right) \<Rightarrow> Some right
      | (Some left, None) \<Rightarrow> Some left
      | _ \<Rightarrow> None)"

definition Difference_next ::
  "('t \<Rightarrow> 'q::linorder) \<Rightarrow> 't list \<times> 't list \<Rightarrow> 't option \<times> ('t list \<times> 't list)" where
  "Difference_next borrow s = op_find borrow difference_arm s"

definition Difference_size_hint :: "'t list \<times> 't list \<Rightarrow> nat \<times> nat option" where
  "Difference_size_hint s =
     (let left_hint = slice_size_hint (fst s); right_hint = slice_size_hint (snd s);
          low = (case snd right_hint of
                   Some right_high \<Rightarrow> usize_saturating_sub (fst left_hint) right_high
                 | None \<Rightarrow> 0);
          high = snd left_hint
      in (low, high))"

definition SymmetricDifference_next ::
  "('t \<Rightarrow> 'q::linorder) \<Rightarrow> 't list \<times> 't list \<Rightarrow> 't option \<times> ('t list \<times> 't list)" where
  "SymmetricDifference_next borrow s = op_find borrow symmetric_difference_arm s"

definition SymmetricDifference_size_hint :: "'t list \<times> 't list \<Rightarrow> nat \<times> nat option" where
  "SymmetricDifference_size_hint s =
     (let left_hint = slice_size_hint (fst s); right_hint = slice_size_hint (snd s);
          low = 0;
          high = (case (snd left_hint, snd right_hint) of
                    (Some left_high, Some right_high) \<Rightarrow> usize_checked_add left_high right_high
                  | _ \<Rightarrow> None)
      in (low, high))"

definition Intersection_next ::
  "('t \<Rightarrow> 'q::linorder) \<Rightarrow> 't list \<times> 't list \<Rightarrow> 't option \<times> ('t list \<times> 't list)" where
  "Intersection_next borrow s = op_find borrow intersection_arm s"

definition Intersection_size_hint :: "'t list \<times> 't list \<Rightarrow> nat \<times> nat option" where
  "Intersection_size_hint s =
     (let left_hint = slice_size_hint (fst s); right_hint = slice_size_hint (snd s);
          low = 0;
          high = (case (snd left_hint, snd right_hint) of
                    (Some left_high, Some right_high) \<Rightarrow> Some (min left_high right_high)
                  | _ \<Rightarrow> None)
      in (low, high))"

definition Union_next ::
  "('t \<Rightarrow> 'q::linorder) \<Rightarrow> 't list \<times> 't list \<Rightarrow> 't option \<times> ('t list \<times> 't list)" where
  "Union_next borrow s = op_find borrow union_arm s"

definition Union_size_hint :: "'t list \<times> 't list \<Rightarrow> nat \<times> nat option" where
  "Union_size_hint s =
     (let left_hint = slice_size_hint (fst s); right_hint = slice_size_hint (snd s);
          low = max (fst left_hint) (fst right_hint);
          high = (case (snd left_hint, snd right_hint) of
                    (Some left_high, Some right_high) \<Rightarrow> usize_checked_add left_high right_high
                  | _ \<Rightarrow> None)
      in (low, high))"

text \<open>The lazy operations only pair up the two vectors.\<close>

definition svs_difference :: "'t sorted_vector_set \<Rightarrow> 't sorted_vector_set \<Rightarrow> 't list \<times> 't list" where
  "svs_difference s other = (s, other)"

definition svs_symmetric_difference ::
  "'t sorted_vector_set \<Rightarrow> 't sorted_vector_set \<Rightarrow> 't list \<times> 't list" where
  "svs_symmetric_difference s other = (s, other)"

definition svs_intersection :: "'t sorted_vector_set \<Rightarrow> 't sorted_vector_set \<Rightarrow> 't list \<times> 't list" where
  "svs_intersection s other = (s, other)"

definition svs_union :: "'t sorted_vector_set \<Rightarrow> 't sorted_vector_set \<Rightarrow> 't list \<times> 't list" where
  "svs_union s other = (s, other)"

definition svs_is_disjoint ::
  "('t \<Rightarrow> 'q::linorder) \<Rightarrow> 't sorted_vector_set \<Rightarrow> 't sorted_vector_set \<Rightarrow> bool" where
  "svs_is_disjoint borrow s other \<longleftrightarrow>
     fst (Intersection_next borrow (svs_intersection s other)) = None"

definition svs_is_subset ::
  "('t \<Rightarrow> 'q::linorder) \<Rightarrow> 't sorted_vector_set \<Rightarrow> 't sorted_vector_set \<Rightarrow> bool" where
  "svs_is_subset borrow s other \<longleftrightarrow>
     fst (Difference_next borrow (svs_difference other s)) = None"

definition svs_is_superset ::
  "('t \<Rightarrow> 'q::linorder) \<Rightarrow> 't sorted_vector_set \<Rightarrow> 't sorted_vector_set \<Rightarrow> bool" where
  "svs_is_superset borrow s other \<longleftrightarrow> svs_is_subset borrow other s"

subsection \<open>Changing the set\<close>

definition svs_replace ::
  "('t \<Rightarrow> 'q::linorder) \<Rightarrow> 't \<Rightarrow> 't sorted_vector_set \<Rightarrow> ('t option \<times> 't sorted_vector_set) res" where
  "svs_replace borrow value s =
     (let len = length s in
      if len = 0 \<or> borrow (s ! (len - 1)) < borrow value then Inr (None, s @ [value])
      else
        (case svs_find_index borrow (borrow value) s of
           Ok i \<Rightarrow>
             res_bind (vec_index s i) (\<lambda>old.
               res_bind (vec_write s i value) (\<lambda>s'. Inr (Some old, s')))
         | Err i \<Rightarrow> res_bind (vec_insert s i value) (\<lambda>s'. Inr (None, s'))))"

definition svs_insert ::
  "('t \<Rightarrow> 'q::linorder) \<Rightarrow> 't \<Rightarrow> 't sorted_vector_set \<Rightarrow> (bool \<times> 't sorted_vector_set) res" where
  "svs_insert borrow value s =
     res_bind (svs_replace borrow value s) (\<lambda>(old, s'). Inr (old = None, s'))"

definition svs_take ::
  "('t \<Rightarrow> 'q::linorder) \<Rightarrow> 'q \<Rightarrow> 't sorted_vector_set \<Rightarrow> ('t option \<times> 't sorted_vector_set) res" where
  "svs_take borrow q s =
     (case svs_find_index borrow q s of
        Ok i \<Rightarrow> res_bind (vec_remove s i) (\<lambda>(x, s'). Inr (Some x, s'))
      | Err _ \<Rightarrow> Inr (None, s))"

definition svs_remove ::
  "('t \<Rightarrow> 'q::linorder) \<Rightarrow> 'q \<Rightarrow> 't sorted_vector_set \<Rightarrow> (bool \<times> 't sorted_vector_set) res" where
  "svs_remove borrow q s =
     res_bind (svs_take borrow q s) (\<lambda>(x, s'). Inr (x \<noteq> None, s'))"

definition svs_retain :: "('t \<Rightarrow> bool) \<Rightarrow> 't sorted_vector_set \<Rightarrow> 't sorted_vector_set" where
  "svs_retain f s = filter f s"

subsection \<open>The set's own copies of the private iterators\<close>

fun svs_dedup_next :: "('t \<Rightarrow> 'q::linorder) \<Rightarrow> 't list \<Rightarrow> 't option \<times> 't list" where
  "svs_dedup_next borrow [] = (None, [])"
| "svs_dedup_next borrow [next] = (Some next, [])"
| "svs_dedup_next borrow (next # after # rest) =
     (if borrow after > borrow next then (Some next, after # rest)
      else svs_dedup_next borrow (after # rest))"

definition svs_dedup_size_hint :: "'t list \<Rightarrow> nat \<times> nat option" where
  "svs_dedup_size_hint it = (case slice_size_hint it of (low, high) \<Rightarrow> (min low 1, high))"

definition svs_merge_next ::
  "('t \<Rightarrow> 'q::linorder) \<Rightarrow> 't list \<times> 't list \<Rightarrow> 't option \<times> ('t list \<times> 't list)" where
  "svs_merge_next borrow s =
     (case s of (left, right) \<Rightarrow>
        (case merge_order borrow (vec_first left) (vec_first right) of
           None \<Rightarrow> (None, (left, right))
         | Some Less \<Rightarrow> (case slice_next left of (x, left') \<Rightarrow> (x, (left', right)))
         | Some Greater \<Rightarrow> (case svs_dedup_next borrow right of (x, right') \<Rightarrow> (x, (left, right')))
         | Some Equal \<Rightarrow>
             (case slice_next left of (_, left') \<Rightarrow>
                (case svs_dedup_next borrow right of (x, right') \<Rightarrow> (x, (left', right'))))))"

definition svs_merge_size_hint :: "'t list \<times> 't list \<Rightarrow> nat \<times> nat option" where
  "svs_merge_size_hint s =
     (let left_hint = slice_size_hint (fst s); right_hint = svs_dedup_size_hint (snd s);
          low = max (fst left_hint) (fst right_hint);
          high = (case (snd left_hint, snd right_hint) of
                    (Some left_high, Some right_high) \<Rightarrow> usize_checked_add left_high right_high
                  | _ \<Rightarrow> None)
      in (low, high))"

definition svs_append ::
  "('t \<Rightarrow> 'q::linorder) \<Rightarrow> 't sorted_vector_set \<Rightarrow> 't sorted_vector_set \<Rightarrow>
     't sorted_vector_set \<times> 't sorted_vector_set" where
  "svs_append borrow s other =
     (if svs_is_empty other then (s, other)
      else if svs_is_empty s then (other, s)
      else (iter_collect merge_left (svs_merge_next borrow) (s, other), []))"

definition svs_split_off ::
  "('t \<Rightarrow> 'q::linorder) \<Rightarrow> 'q \<Rightarrow> 't sorted_vector_set \<Rightarrow>
     ('t sorted_vector_set \<times> 't sorted_vector_set) res" where
  "svs_split_off borrow q s =
     (let index = (case svs_find_index borrow q s of Ok i \<Rightarrow> i | Err i \<Rightarrow> i)
      in vec_split_off s index)"

definition svs_iter :: "'t sorted_vector_set \<Rightarrow> 't list" where
  "svs_iter s = s"

definition svs_len :: "'t sorted_vector_set \<Rightarrow> nat" where
  "svs_len s = length s"

definition svs_first :: "'t sorted_vector_set \<Rightarrow> 't option" where
  "svs_first s = vec_first s"

definition svs_last :: "'t sorted_vector_set \<Rightarrow> 't option" where
  "svs_last s = vec_last s"

definition svs_pop_last :: "'t sorted_vector_set \<Rightarrow> 't option \<times> 't sorted_vector_set" where
  "svs_pop_last s = vec_pop s"

definition svs_extend_with_vec ::
  "('t \<Rightarrow> 'q::linorder) \<Rightarrow> 't list \<Rightarrow> 't sorted_vector_set \<Rightarrow> 't sorted_vector_set res" where
  "svs_extend_with_vec borrow new s =
     (if new = [] then Inr s
      else if length new = 1 then
        (case slice_next new of
           (Some item, _) \<Rightarrow> res_bind (svs_insert borrow item s) (\<lambda>(_, s'). Inr s')
         | (None, _) \<Rightarrow> Inl (Panic ''iterator must have one item''))
      else
        (let new = sort_key borrow new in
         if s = [] then
           (case first_dup borrow new of
              Some first_dup_index \<Rightarrow>
                res_bind (vec_split_off new first_dup_index) (\<lambda>(new, dups).
                  Inr (new @ iter_collect length (svs_dedup_next borrow) dups))
            | None \<Rightarrow> Inr new)
         else
           (case (vec_last s, vec_first new) of
              (Some self_last, Some new_first) \<Rightarrow>
                if borrow self_last < borrow new_first then
                  (case first_dup borrow new of
                     Some first_dup_index \<Rightarrow>
                       res_bind (vec_split_off new first_dup_index) (\<lambda>(new, dups).
                         Inr ((s @ new) @ iter_collect length (svs_dedup_next borrow) dups))
                   | None \<Rightarrow> Inr (s @ new))
                else Inr (iter_collect merge_left (svs_merge_next borrow) (s, new))
            | _ \<Rightarrow> Inr (iter_collect merge_left (svs_merge_next borrow) (s, new)))))"

subsection \<open>Traits\<close>

definition svs_default :: "'t sorted_vector_set" where
  "svs_default = svs_new"

definition svs_into_iter :: "'t sorted_vector_set \<Rightarrow> 't list" where
  "svs_into_iter s = s"

definition svs_into_iter_ref :: "'t sorted_vector_set \<Rightarrow> 't list" where
  "svs_into_iter_ref s = s"

definition svs_extend ::
  "('t \<Rightarrow> 'q::linorder) \<Rightarrow> 't list \<Rightarrow> 't sorted_vector_set \<Rightarrow> 't sorted_vector_set res" where
  "svs_extend borrow iter s = svs_extend_with_vec borrow iter s"

definition svs_extend_ref ::
  "('t \<Rightarrow> 'q::linorder) \<Rightarrow> 't list \<Rightarrow> 't sorted_vector_set \<Rightarrow> 't sorted_vector_set res" where
  "svs_extend_ref borrow iter s = svs_extend_with_vec borrow iter s"

definition svs_from_iter :: "('t \<Rightarrow> 'q::linorder) \<Rightarrow> 't list \<Rightarrow> 't sorted_vector_set res" where
  "svs_from_iter borrow iter = svs_extend borrow iter svs_new"

definition svs_bitand ::
  "('t \<Rightarrow> 'q::linorder) \<Rightarrow> 't sorted_vector_set \<Rightarrow> 't sorted_vector_set \<Rightarrow> 't sorted_vector_set res" where
  "svs_bitand borrow s rhs =
     svs_from_iter borrow (iter_collect merge_left (Intersection_next borrow) (svs_intersection s rhs))"

definition svs_sub ::
  "('t \<Rightarrow> 'q::linorder) \<Rightarrow> 't sorted_vector_set \<Rightarrow> 't sorted_vector_set \<Rightarrow> 't sorted_vector_set res" where
  "svs_sub borrow s rhs =
     svs_from_iter borrow (iter_collect merge_left (Difference_next borrow) (svs_difference s rhs))"

definition svs_bitxor ::
  "('t \<Rightarrow> 'q::linorder) \<Rightarrow> 't sorted_vector_set \<Rightarrow> 't sorted_vector_set \<Rightarrow> 't sorted_vector_set res" where
  "svs_bitxor borrow s rhs =
     svs_from_iter borrow
       (iter_collect merge_left (SymmetricDifference_next borrow) (svs_symmetric_difference s rhs))"

definition svs_bitor ::
  "('t \<Rightarrow> 'q::linorder) \<Rightarrow> 't sorted_vector_set \<Rightarrow> 't sorted_vector_set \<Rightarrow> 't sorted_vector_set res" where
  "svs_bitor borrow s rhs =
     svs_from_iter borrow (iter_collect merge_left (Union_next borrow) (svs_union s rhs))"

text \<open>A \<open>BTreeSet\<close> iterates in order; \<open>bset\<close> is that sequence of values.\<close>

definition svs_from_btreeset :: "'t list \<Rightarrow> 't sorted_vector_set" where
  "svs_from_btreeset bset = bset"

text \<open>The macro \<open>sorted_vector_set!\<close>.\<close>

fun svs_insert_all ::
  "('t \<Rightarrow> 'q::linorder) \<Rightarrow> 't list \<Rightarrow> 't sorted_vector_set \<Rightarrow> 't sorted_vector_set res" where
  "svs_insert_all borrow [] s = Inr s"
| "svs_insert_all borrow (v # vs) s =
     res_bind (svs_insert borrow v s) (\<lambda>(_, s'). svs_insert_all borrow vs s')"

definition sorted_vector_set_macro ::
  "('t \<Rightarrow> 'q::linorder) \<Rightarrow> 't list \<Rightarrow> 't sorted_vector_set res" where
  "sorted_vector_set_macro borrow vs = svs_insert_all borrow vs (svs_with_capacity (length vs))"

section \<open>Invariant, abstraction, single-value operations\<close>

definition svs_wf :: "('t \<Rightarrow> 'q::linorder) \<Rightarrow> 't sorted_vector_set \<Rightarrow> bool" where
  "svs_wf borrow s \<longleftrightarrow> strict_by borrow s"

text \<open>The value stored for each comparison key.\<close>

definition svs_view :: "('t \<Rightarrow> 'q::linorder) \<Rightarrow> 't sorted_vector_set \<Rightarrow> 'q \<Rightarrow> 't option" where
  "svs_view borrow s = lookup_by borrow s"

lemma svs_find_index_eq: "svs_find_index borrow q s = find_by borrow q s"
  by (simp add: svs_find_index_def find_by_def)

lemma svs_find_cases:
  assumes "svs_wf borrow s"
  obtains (found) i where "svs_find_index borrow q s = Ok i" "i < length s"
    "borrow (s ! i) = q" "svs_view borrow s q = Some (s ! i)"
  | (missing) i where "svs_find_index borrow q s = Err i" "i \<le> length s"
    "\<forall>e \<in> set (take i s). borrow e < q" "\<forall>e \<in> set (drop i s). q < borrow e"
    "svs_view borrow s q = None"
proof (cases "svs_find_index borrow q s")
  case (Ok i)
  note f = Ok [unfolded svs_find_index_eq]
  with found [of i] Ok find_by_Ok [OF f] find_by_lookup [of borrow s q] assms show ?thesis
    by (simp add: svs_wf_def svs_view_def)
next
  case (Err i)
  note f = Err [unfolded svs_find_index_eq]
  have wf: "strict_by borrow s" using assms by (simp add: svs_wf_def)
  with missing [of i] Err find_by_Err_range [OF f] find_by_Err [OF wf f] find_by_lookup [OF wf, of q] f
  show ?thesis by (simp add: svs_view_def)
qed

lemma svs_get_spec: "svs_wf borrow s \<Longrightarrow> svs_get borrow q s = Inr (svs_view borrow s q)"
  by (erule svs_find_cases [where q = q]) (simp_all add: svs_get_def vec_index_def)

lemma svs_contains_spec: "svs_wf borrow s \<Longrightarrow> svs_contains borrow q s \<longleftrightarrow> q \<in> borrow ` set s"
  by (simp add: svs_contains_def svs_find_index_eq svs_wf_def find_by_iff)

lemma svs_wf_last:
  assumes "svs_wf borrow s" "s \<noteq> []" "x \<in> set s"
  shows "borrow x \<le> borrow (s ! (length s - 1))"
proof -
  from assms(3) obtain j where "j < length s" "x = s ! j" by (auto simp: in_set_conv_nth)
  with strict_by_nth_mono [of borrow s j "length s - 1"] assms show ?thesis
    by (simp add: svs_wf_def)
qed

text \<open>A replacement stores the new value, also over an equal one.\<close>

lemma svs_replace_spec:
  assumes "svs_wf borrow s"
  shows "\<exists>s'. svs_replace borrow x s = Inr (svs_view borrow s (borrow x), s') \<and> svs_wf borrow s' \<and>
    svs_view borrow s' = (svs_view borrow s)(borrow x \<mapsto> x)"
proof (cases "length s = 0 \<or> borrow (s ! (length s - 1)) < borrow x")
  case True
  then have below: "\<forall>e \<in> set s. borrow e < borrow x"
    using svs_wf_last [OF assms] by (cases "s = []") (auto intro: le_less_trans)
  then have "svs_view borrow s (borrow x) = None" by (auto simp: svs_view_def lookup_by_None)
  with True strict_by_insert_at [of borrow s "length s" x] lookup_by_insert_at [of borrow s "length s" x]
    assms below show ?thesis
    by (simp add: svs_replace_def Let_def svs_wf_def svs_view_def)
next
  case False
  then have unfold: "svs_replace borrow x s = (case svs_find_index borrow (borrow x) s of
      Ok i \<Rightarrow> res_bind (vec_index s i) (\<lambda>old. res_bind (vec_write s i x) (\<lambda>s'. Inr (Some old, s')))
    | Err i \<Rightarrow> res_bind (vec_insert s i x) (\<lambda>s'. Inr (None, s')))"
    by (simp add: svs_replace_def Let_def)
  show ?thesis using assms
  proof (cases rule: svs_find_cases [where q = "borrow x"])
    case (found i)
    with strict_by_update_at [of borrow s i x] lookup_by_update_at [of borrow s i x] assms show ?thesis
      unfolding unfold by (simp add: vec_index_def vec_write_def svs_wf_def svs_view_def)
  next
    case (missing i)
    with strict_by_insert_at [of borrow s i x] lookup_by_insert_at [of borrow s i x] assms show ?thesis
      unfolding unfold by (simp add: vec_insert_def svs_wf_def svs_view_def)
  qed
qed

lemma svs_take_spec:
  assumes "svs_wf borrow s"
  shows "\<exists>s'. svs_take borrow q s = Inr (svs_view borrow s q, s') \<and> svs_wf borrow s' \<and>
    svs_view borrow s' = (svs_view borrow s)(q := None)"
  using assms
proof (cases rule: svs_find_cases [where q = q])
  case (found i)
  with strict_by_remove_at [of borrow s i] lookup_by_remove_at [of borrow s i] assms show ?thesis
    by (simp add: svs_take_def vec_remove_def svs_wf_def svs_view_def)
next
  case (missing i)
  with assms show ?thesis by (simp add: svs_take_def fun_upd_idem)
qed

section \<open>Bulk operations\<close>

lemma svs_dedup_next_eq: "svs_dedup_next borrow xs = dedup_next borrow xs"
  by (induction borrow xs rule: svs_dedup_next.induct) simp_all

lemma svs_merge_next_eq: "svs_merge_next borrow = merge_next borrow"
  unfolding svs_merge_next_def merge_next_def svs_dedup_next_eq dedup_peek_def ..

lemma svs_collect_eq:
  "iter_collect length (svs_dedup_next borrow) xs = dedup_collect borrow xs"
  "iter_collect merge_left (svs_merge_next borrow) (l, r) = merge_collect borrow l r"
  by (simp_all add: dedup_collect_def merge_collect_def svs_merge_next_eq svs_dedup_next_eq [abs_def])

lemma svs_extend_many:
  assumes "svs_wf borrow s" "length new > 1"
  shows "\<exists>s'. svs_extend_with_vec borrow new s = Inr s' \<and> merged borrow s (sort_key borrow new) s'"
proof -
  let ?new = "sort_key borrow new"
  have sorted: "sorted (map borrow ?new)" by (rule sorted_sort_key)
  have "length ?new = length new" by simp
  then have ne: "new \<noteq> []" "length new \<noteq> 1" "?new \<noteq> []" using assms(2) by fastforce+
  have wf: "strict_by borrow s" using assms(1) by (simp add: svs_wf_def)
  have split: "vec_split_off ?new i = Inr (take i ?new, drop i ?new)" if "first_dup borrow ?new = Some i" for i
    using first_dup_Some(1) [OF sorted that] by (simp add: vec_split_off_def)
  show ?thesis
  proof (cases "s = []")
    case True
    then have "svs_extend_with_vec borrow new s = Inr (dedup_from borrow ?new)"
      using ne split by (simp add: svs_extend_with_vec_def Let_def dedup_from_def svs_collect_eq split: option.splits)
    with True dedup_from_merged [OF sorted] show ?thesis by simp
  next
    case False
    obtain nf rest where new: "?new = nf # rest" using ne(3) by (cases "?new") auto
    show ?thesis
    proof (cases "borrow (last s) < borrow nf")
      case True
      have "svs_extend_with_vec borrow new s = Inr (s @ dedup_from borrow ?new)"
        using ne False split True new
        by (auto simp: svs_extend_with_vec_def Let_def dedup_from_def vec_last_def vec_first_def svs_collect_eq
            split: option.splits)
      moreover have "merged borrow s ?new (s @ dedup_from borrow ?new)"
      proof (rule dedup_from_append_merged [OF wf sorted])
        have "borrow e \<le> borrow (last s)" if "e \<in> set s" for e
          using svs_wf_last [OF assms(1) False that] False by (simp add: last_conv_nth)
        moreover have "borrow nf \<le> borrow e" if "e \<in> set ?new" for e
          using sorted that unfolding new by auto
        ultimately show "\<forall>x \<in> set s. \<forall>y \<in> set ?new. borrow x < borrow y"
          using True by fastforce
      qed
      ultimately show ?thesis by blast
    next
      case notless: False
      have "svs_extend_with_vec borrow new s = Inr (merge_collect borrow s ?new)"
        using ne False notless new
        by (auto simp: svs_extend_with_vec_def Let_def vec_last_def vec_first_def svs_collect_eq)
      then show ?thesis using merge_collect_merged [OF wf sorted] by blast
    qed
  qed
qed

lemma svs_extend_with_vec_spec:
  assumes "svs_wf borrow s"
  shows "\<exists>s'. svs_extend_with_vec borrow new s = Inr s' \<and> svs_wf borrow s' \<and>
    svs_view borrow s' = svs_view borrow s ++ svs_view borrow (rev new)"
proof -
  consider "new = []" | x where "new = [x]" | "length new > 1"
    by (cases new; cases "tl new") auto
  then show ?thesis
  proof cases
    case 1
    with assms show ?thesis by (simp add: svs_extend_with_vec_def svs_view_def)
  next
    case 2
    with svs_replace_spec [OF assms, of x] show ?thesis
      by (auto simp: svs_extend_with_vec_def svs_insert_def svs_view_def lookup_by_Cons simp del: fun_upd_apply)
  next
    case 3
    with svs_extend_many [OF assms 3] show ?thesis
      by (auto simp: merged_def svs_wf_def svs_view_def lookup_by_rev_sort)
  qed
qed

text \<open>Collecting values that are already in order rebuilds the same vector.\<close>

lemma svs_from_iter_strict:
  assumes "strict_by borrow xs"
  shows "svs_from_iter borrow xs = Inr xs"
proof -
  obtain s' where "svs_from_iter borrow xs = Inr s'" "strict_by borrow s'"
    "lookup_by borrow s' = lookup_by borrow (rev xs)"
    using svs_extend_with_vec_spec [of borrow "[]" xs]
    by (auto simp: svs_from_iter_def svs_extend_def svs_new_def svs_wf_def svs_view_def)
  moreover have "lookup_by borrow (rev xs) = lookup_by borrow xs" using assms by (rule lookup_by_rev)
  ultimately show ?thesis using lookup_by_inject [of borrow s' xs] assms by simp
qed

section \<open>The set operations\<close>

interpretation op_inner: finite_iterator "op_next borrow" merge_left for borrow
  by unfold_locales (rule op_next_progress)

lemma op_find_progress: "op_find b sel s = (Some x, s') \<Longrightarrow> merge_left s' < merge_left s"
proof (induction b sel s arbitrary: x s' rule: op_find.induct)
  case (1 b sel s)
  obtain it s1 where n: "op_next b s = (it, s1)" by (cases "op_next b s")
  with "1.prems" obtain i where it: "it = Some i"
    using op_find.simps [of b sel s] by (cases it) auto
  with n have n': "op_next b s = (Some i, s1)" by simp
  have less: "merge_left s1 < merge_left s" using n' by (rule op_next_progress)
  show ?case
  proof (cases "sel i")
    case None
    then have "op_find b sel s1 = (Some x, s')"
      using "1.prems" n' op_find.simps [of b sel s] by simp
    then have "merge_left s' < merge_left s1" using "1.IH" [of it s1 i] n it None by simp
    with less show ?thesis by simp
  next
    case (Some y)
    then show ?thesis using "1.prems" n' op_find.simps [of b sel s] less by simp
  qed
qed

interpretation op_select: finite_iterator "op_find borrow sel" merge_left for borrow sel
  by unfold_locales (rule op_find_progress)

text \<open>The items of the merge of two vectors.\<close>

fun op_items :: "('t \<Rightarrow> 'q::linorder) \<Rightarrow> 't list \<Rightarrow> 't list \<Rightarrow> ('t option \<times> 't option) list" where
  "op_items b [] r = map (\<lambda>y. (None, Some y)) r"
| "op_items b l [] = map (\<lambda>x. (Some x, None)) l"
| "op_items b (x # l) (y # r) =
     (if b x < b y then (Some x, None) # op_items b l (y # r)
      else if b x = b y then (Some x, Some y) # op_items b l r
      else (None, Some y) # op_items b (x # l) r)"

lemma op_collect: "iter_collect merge_left (op_next b) (l, r) = op_items b l r"
proof (induction b l r rule: op_items.induct)
  case (1 b r)
  show ?case
    by (induction r) (simp_all add: op_inner.collect_None op_inner.collect_Some op_next_simps)
next
  case (2 b x l)
  have "iter_collect merge_left (op_next b) (l, []) = map (\<lambda>x. (Some x, None)) l" for l
    by (induction l) (simp_all add: op_inner.collect_None op_inner.collect_Some op_next_simps)
  then show ?case by simp
next
  case (3 b x l y r)
  consider "b x < b y" | "b x = b y" | "b y < b x" by fastforce
  then show ?case
  proof cases
    case 1
    then have "op_next b (x # l, y # r) = (Some (Some x, None), (l, y # r))" by (simp add: op_next_simps)
    from op_inner.collect_Some [OF this] 1 "3.IH" show ?thesis by simp
  next
    case 2
    then have "op_next b (x # l, y # r) = (Some (Some x, Some y), (l, r))" by (simp add: op_next_simps)
    from op_inner.collect_Some [OF this] 2 "3.IH" show ?thesis by simp
  next
    case 3
    then have "op_next b (x # l, y # r) = (Some (None, Some y), (x # l, r))" by (auto simp: op_next_simps)
    from op_inner.collect_Some [OF this] 3 "3.IH" show ?thesis by auto
  qed
qed

lemma op_select_collect:
  "iter_collect merge_left (op_find b sel) s = List.map_filter sel (iter_collect merge_left (op_next b) s)"
proof (induction s rule: op_inner.collect_induct [where borrow = b])
  case (step s)
  obtain it s1 where n: "op_next b s = (it, s1)" by (cases "op_next b s")
  show ?case
  proof (cases it)
    case None
    then have "op_find b sel s = (None, s1)" using n by (subst op_find.simps) simp
    with None n show ?thesis
      by (simp add: op_select.collect_None op_inner.collect_None map_filter_simps)
  next
    case (Some i)
    then have n': "op_next b s = (Some i, s1)" using n by simp
    note IH = step [OF n']
    show ?thesis
    proof (cases "sel i")
      case None
      then have f: "op_find b sel s = op_find b sel s1" using n' by (subst op_find.simps) simp
      have "iter_collect merge_left (op_find b sel) s = iter_collect merge_left (op_find b sel) s1"
      proof (cases "fst (op_find b sel s1)")
        case None
        then obtain s2 where "op_find b sel s1 = (None, s2)" by (cases "op_find b sel s1") auto
        with f show ?thesis by (simp add: op_select.collect_None)
      next
        case (Some x)
        then obtain s2 where s2: "op_find b sel s1 = (Some x, s2)" by (cases "op_find b sel s1") auto
        with f have "op_find b sel s = (Some x, s2)" by simp
        from op_select.collect_Some [OF this] op_select.collect_Some [OF s2] show ?thesis by simp
      qed
      with None IH n' show ?thesis by (simp add: op_inner.collect_Some map_filter_simps)
    next
      case (Some x)
      then have "op_find b sel s = (Some x, s1)" using n' by (subst op_find.simps) simp
      with Some IH n' show ?thesis
        by (simp add: op_select.collect_Some op_inner.collect_Some map_filter_simps)
    qed
  qed
qed

lemmas op_arms = difference_arm_def symmetric_difference_arm_def intersection_arm_def union_arm_def

lemmas op_nexts = Difference_next_def SymmetricDifference_next_def Intersection_next_def Union_next_def

lemmas op_lazy = svs_difference_def svs_symmetric_difference_def svs_intersection_def svs_union_def

text \<open>The comparison key of an item of the merge.\<close>

definition op_key :: "('t \<Rightarrow> 'q) \<Rightarrow> 't option \<times> 't option \<Rightarrow> 'q" where
  "op_key b it = b (case fst it of Some x \<Rightarrow> x | None \<Rightarrow> the (snd it))"

lemma op_key_simps [simp]: "op_key b (Some x, y) = b x" "op_key b (None, Some z) = b z"
  by (simp_all add: op_key_def)

text \<open>Each key of either side gives one item, with the values both sides have for it.\<close>

lemma op_items_mem:
  "strict_by b l \<Longrightarrow> strict_by b r \<Longrightarrow> it \<in> set (op_items b l r) \<longleftrightarrow>
     (\<exists>x \<in> set l. b x \<notin> b ` set r \<and> it = (Some x, None)) \<or>
     (\<exists>y \<in> set r. b y \<notin> b ` set l \<and> it = (None, Some y)) \<or>
     (\<exists>x \<in> set l. \<exists>y \<in> set r. b x = b y \<and> it = (Some x, Some y))"
proof (induction b l r rule: op_items.induct)
  case (3 b x l y r)
  have gt: "\<And>z. z \<in> set r \<Longrightarrow> b y < b z" "\<And>z. z \<in> set l \<Longrightarrow> b x < b z"
    and st: "strict_by b l" "strict_by b r"
    using "3.prems" by (auto simp: strict_by_Cons)
  consider "b x < b y" | "b x = b y" | "b y < b x" by fastforce
  then show ?case
  proof cases
    case 1
    then have ne: "b x \<noteq> b z" if "z \<in> set (y # r)" for z using that gt(1) by fastforce
    then have "b x \<notin> b ` set (y # r)" by blast
    then have "(\<exists>z \<in> set (x # l). b z \<notin> b ` set (y # r) \<and> it = (Some z, None)) \<longleftrightarrow>
        it = (Some x, None) \<or> (\<exists>z \<in> set l. b z \<notin> b ` set (y # r) \<and> it = (Some z, None))"
      by (simp only: list.set bex_simps) blast
    moreover have "(\<exists>z \<in> set (y # r). b z \<notin> b ` set (x # l) \<and> it = (None, Some z)) \<longleftrightarrow>
        (\<exists>z \<in> set (y # r). b z \<notin> b ` set l \<and> it = (None, Some z))"
      by (rule bex_cong [OF refl]) (metis image_insert insert_iff list.set(2) ne)
    moreover have "(\<exists>w \<in> set (x # l). \<exists>z \<in> set (y # r). b w = b z \<and> it = (Some w, Some z)) \<longleftrightarrow>
        (\<exists>w \<in> set l. \<exists>z \<in> set (y # r). b w = b z \<and> it = (Some w, Some z))"
      unfolding list.set(2) [of x l] bex_simps using ne by blast
    moreover have "op_items b (x # l) (y # r) = (Some x, None) # op_items b l (y # r)" using 1 by simp
    ultimately show ?thesis using "3.IH"(1) [OF 1 st(1) "3.prems"(2)]
      by (simp only: list.set(2) Set.insert_iff) blast
  next
    case 2
    have "b z \<in> b ` set (y # r) \<longleftrightarrow> b z \<in> b ` set r" "b z \<noteq> b y" if "z \<in> set l" for z
      using gt(2) [OF that] 2 by auto
    moreover have "b z \<in> b ` set (x # l) \<longleftrightarrow> b z \<in> b ` set l" "b x \<noteq> b z" if "z \<in> set r" for z
      using gt(1) [OF that] 2 by auto
    ultimately show ?thesis using 2 "3.IH"(2) [OF _ 2 st]
      by (simp add: cong: bex_cong) blast
  next
    case 3
    then have ne: "b z \<noteq> b y" if "z \<in> set (x # l)" for z using that gt(2) by fastforce
    then have "b y \<notin> b ` set (x # l)" by (metis imageE)
    moreover have "b z \<in> b ` set (y # r) \<longleftrightarrow> b z \<in> b ` set r" if "z \<in> set (x # l)" for z
      using ne [OF that] by auto
    ultimately show ?thesis using 3 ne "3.IH"(3) [OF _ _ "3.prems"(1) st(2)]
      by (auto cong: bex_cong)
  qed
qed auto

lemma op_items_Bex:
  assumes "strict_by b l" "strict_by b r"
  shows "(\<exists>it \<in> set (op_items b l r). P it) \<longleftrightarrow>
     (\<exists>x \<in> set l. b x \<notin> b ` set r \<and> P (Some x, None)) \<or>
     (\<exists>y \<in> set r. b y \<notin> b ` set l \<and> P (None, Some y)) \<or>
     (\<exists>x \<in> set l. \<exists>y \<in> set r. b x = b y \<and> P (Some x, Some y))"
  unfolding Bex_def op_items_mem [OF assms] by blast

lemma set_map_filter_eq: "set (List.map_filter sel xs) = {z. \<exists>it \<in> set xs. sel it = Some z}"
  by (force simp: List.map_filter_def)

lemma op_items_strict:
  "strict_by b l \<Longrightarrow> strict_by b r \<Longrightarrow> strict_by (op_key b) (op_items b l r)"
proof (induction b l r rule: op_items.induct)
  case (3 b x l y r)
  have gt: "\<And>z. z \<in> set r \<Longrightarrow> b y < b z" "\<And>z. z \<in> set l \<Longrightarrow> b x < b z"
    and st: "strict_by b l" "strict_by b r"
    using "3.prems" by (auto simp: strict_by_Cons)
  consider "b x < b y" | "b x = b y" | "b y < b x" by fastforce
  then show ?case
  proof cases
    case 1
    with "3.IH"(1) [OF 1 st(1) "3.prems"(2)] gt show ?thesis
      by (fastforce simp: strict_by_Cons op_items_mem [OF st(1) "3.prems"(2)])
  next
    case 2
    with "3.IH"(2) [OF _ 2 st] gt show ?thesis
      by (fastforce simp: strict_by_Cons op_items_mem [OF st])
  next
    case 3
    with "3.IH"(3) [OF _ _ "3.prems"(1) st(2)] gt show ?thesis
      by (fastforce simp: strict_by_Cons op_items_mem [OF "3.prems"(1) st(2)])
  qed
qed (simp_all add: strict_by_def sorted_wrt_map)

lemma strict_by_map_filter:
  "strict_by g its \<Longrightarrow> (\<And>it x. it \<in> set its \<Longrightarrow> sel it = Some x \<Longrightarrow> b x = g it) \<Longrightarrow>
     strict_by b (List.map_filter sel its)"
  by (induction its) (auto simp: strict_by_Cons map_filter_simps set_map_filter_eq split: option.splits, metis)

text \<open>
  What an operation collects, from the arms of its match: strictly sorted, with these values.
\<close>

lemma op_collected:
  assumes "strict_by b l" "strict_by b r"
    and "sel \<in> {difference_arm, symmetric_difference_arm, intersection_arm, union_arm}"
  shows "strict_by b (iter_collect merge_left (op_find b sel) (l, r))"
    "set (iter_collect merge_left (op_find b sel) (l, r)) =
       {z. (\<exists>x \<in> set l. b x \<notin> b ` set r \<and> sel (Some x, None) = Some z) \<or>
           (\<exists>y \<in> set r. b y \<notin> b ` set l \<and> sel (None, Some y) = Some z) \<or>
           (\<exists>x \<in> set l. \<exists>y \<in> set r. b x = b y \<and> sel (Some x, Some y) = Some z)}"
proof -
  have eq: "iter_collect merge_left (op_find b sel) (l, r) = List.map_filter sel (op_items b l r)"
    by (simp only: op_select_collect op_collect)
  have "b x = op_key b it" if "it \<in> set (op_items b l r)" "sel it = Some x" for it x
    using that assms(3) by (auto simp: op_items_mem [OF assms(1,2)] op_arms)
  then show "strict_by b (iter_collect merge_left (op_find b sel) (l, r))"
    unfolding eq by (rule strict_by_map_filter [OF op_items_strict [OF assms(1,2)]])
  show "set (iter_collect merge_left (op_find b sel) (l, r)) =
       {z. (\<exists>x \<in> set l. b x \<notin> b ` set r \<and> sel (Some x, None) = Some z) \<or>
           (\<exists>y \<in> set r. b y \<notin> b ` set l \<and> sel (None, Some y) = Some z) \<or>
           (\<exists>x \<in> set l. \<exists>y \<in> set r. b x = b y \<and> sel (Some x, Some y) = Some z)}"
    unfolding eq set_map_filter_eq op_items_Bex [OF assms(1,2)] ..
qed

lemma difference_collected:
  assumes "strict_by b l" "strict_by b r"
  shows "iter_collect merge_left (Difference_next b) (l, r) = filter (\<lambda>x. b x \<notin> b ` set r) l"
  unfolding op_nexts [abs_def]
  by (rule strict_by_unique [OF op_collected(1) [OF assms] strict_by_filter [OF assms(1)]],
      simp, subst op_collected(2) [OF assms], simp)
    (auto simp: op_arms)

lemma intersection_collected:
  assumes "strict_by b l" "strict_by b r"
  shows "iter_collect merge_left (Intersection_next b) (l, r) = filter (\<lambda>x. b x \<in> b ` set r) l"
  unfolding op_nexts [abs_def]
  by (rule strict_by_unique [OF op_collected(1) [OF assms] strict_by_filter [OF assms(1)]],
      simp, subst op_collected(2) [OF assms], simp)
    (auto simp: op_arms)

lemma symmetric_difference_collected:
  assumes "strict_by b l" "strict_by b r"
  shows "strict_by b (iter_collect merge_left (SymmetricDifference_next b) (l, r))"
    "set (iter_collect merge_left (SymmetricDifference_next b) (l, r)) =
       {x \<in> set l. b x \<notin> b ` set r} \<union> {y \<in> set r. b y \<notin> b ` set l}"
  unfolding op_nexts [abs_def]
  by (rule op_collected(1) [OF assms], simp, subst op_collected(2) [OF assms], simp)
    (auto simp: op_arms)

lemma union_collected:
  assumes "strict_by b l" "strict_by b r"
  shows "strict_by b (iter_collect merge_left (Union_next b) (l, r))"
    "set (iter_collect merge_left (Union_next b) (l, r)) = set r \<union> {x \<in> set l. b x \<notin> b ` set r}"
  unfolding op_nexts [abs_def]
  by (rule op_collected(1) [OF assms], simp, subst op_collected(2) [OF assms], simp)
    (auto simp: op_arms)

text \<open>The operators collect their iterator into a new set, which is already in order.\<close>

lemma svs_operators:
  assumes "svs_wf b s" "svs_wf b t"
  shows "svs_bitand b s t = Inr (filter (\<lambda>x. b x \<in> b ` set t) s)"
    "svs_sub b s t = Inr (filter (\<lambda>x. b x \<notin> b ` set t) s)"
    "svs_bitxor b s t = Inr (iter_collect merge_left (SymmetricDifference_next b) (s, t))"
    "svs_bitor b s t = Inr (iter_collect merge_left (Union_next b) (s, t))"
  using assms unfolding svs_bitand_def svs_sub_def svs_bitxor_def svs_bitor_def op_lazy svs_wf_def
  by (simp_all add: intersection_collected difference_collected svs_from_iter_strict strict_by_filter
      symmetric_difference_collected(1) union_collected(1))

lemma Intersection_empty:
  assumes "svs_wf b s" "svs_wf b t"
  shows "fst (Intersection_next b (s, t)) = None \<longleftrightarrow> b ` set s \<inter> b ` set t = {}"
  using op_select.collect_Nil_iff [of b intersection_arm "(s, t)"] assms
    intersection_collected [of b s t, unfolded op_nexts [abs_def]]
  by (auto simp: svs_wf_def Intersection_next_def filter_empty_conv)

lemma Difference_empty:
  assumes "svs_wf b s" "svs_wf b t"
  shows "fst (Difference_next b (s, t)) = None \<longleftrightarrow> b ` set s \<subseteq> b ` set t"
  using op_select.collect_Nil_iff [of b difference_arm "(s, t)"] assms
    difference_collected [of b s t, unfolded op_nexts [abs_def]]
  by (auto simp: svs_wf_def Difference_next_def filter_empty_conv)

subsection \<open>Size hints\<close>

lemma strict_by_length: "strict_by b xs \<Longrightarrow> length xs = card (b ` set xs)"
  using strict_by_distinct [of b xs] by (metis distinct_card length_map list.set_map)

lemma difference_length:
  assumes "strict_by b l" "strict_by b r"
  shows "length l - length r \<le> length (filter (\<lambda>x. b x \<notin> b ` set r) l)"
proof -
  have "b ` set (filter (\<lambda>x. b x \<notin> b ` set r) l) = b ` set l - b ` set r" by auto
  then have "length (filter (\<lambda>x. b x \<notin> b ` set r) l) = card (b ` set l - b ` set r)"
    using strict_by_length [OF strict_by_filter [OF assms(1), of "\<lambda>x. b x \<notin> b ` set r"]] by simp
  with diff_card_le_card_Diff [of "b ` set r" "b ` set l"] assms show ?thesis
    by (simp add: strict_by_length)
qed

lemma intersection_length:
  assumes "strict_by b l" "strict_by b r"
  shows "length (filter (\<lambda>x. b x \<in> b ` set r) l) \<le> length r"
proof -
  have "b ` set (filter (\<lambda>x. b x \<in> b ` set r) l) \<subseteq> b ` set r" by auto
  with card_mono [OF finite_imageI [OF finite_set] this]
    strict_by_length [OF strict_by_filter [OF assms(1), of "\<lambda>x. b x \<in> b ` set r"]]
    strict_by_length [OF assms(2)]
  show ?thesis by simp
qed

lemma union_length:
  assumes "strict_by b l" "strict_by b r"
  shows "max (length l) (length r) \<le> length (iter_collect merge_left (Union_next b) (l, r))"
proof -
  let ?u = "iter_collect merge_left (Union_next b) (l, r)"
  have "b ` set ?u = b ` set l \<union> b ` set r" using union_collected(2) [OF assms] by auto
  then have "length ?u = card (b ` set l \<union> b ` set r)"
    using strict_by_length [OF union_collected(1) [OF assms]] by simp
  then show ?thesis using assms by (simp add: strict_by_length card_mono)
qed

lemma op_collect_length: "length (iter_collect merge_left (op_find b sel) (l, r)) \<le> length l + length r"
  using op_select.collect_bound [of b sel "(l, r)"] by (simp add: merge_left_def)

lemmas op_hints = Difference_size_hint_def SymmetricDifference_size_hint_def
  Intersection_size_hint_def Union_size_hint_def slice_size_hint_def

section \<open>The container interface\<close>

interpretation svs: ordered_map_bulk borrow id "svs_wf borrow" "svs_view borrow" svs_new
  "svs_replace borrow" "svs_take borrow" "svs_get borrow" "svs_extend_with_vec borrow"
  for borrow :: "'t \<Rightarrow> 'q::linorder"
proof unfold_locales
  fix s :: "'t list" and x :: 't and q and xs :: "'t list"
  show "svs_wf borrow svs_new" "svs_view borrow svs_new = Map.empty"
    by (simp_all add: svs_new_def svs_wf_def svs_view_def)
  assume wf: "svs_wf borrow s"
  show "\<exists>s'. svs_replace borrow x s = Inr (svs_view borrow s (borrow x), s') \<and>
      svs_wf borrow s' \<and> svs_view borrow s' = (svs_view borrow s)(borrow x \<mapsto> id x)"
    using svs_replace_spec [OF wf, of x] by simp
  show "\<exists>s'. svs_take borrow q s = Inr (svs_view borrow s q, s') \<and> svs_wf borrow s' \<and>
      svs_view borrow s' = (svs_view borrow s)(q := None)"
    using wf by (rule svs_take_spec)
  show "svs_get borrow q s = Inr (svs_view borrow s q)"
    using wf by (rule svs_get_spec)
  show "\<exists>s'. svs_extend_with_vec borrow xs s = Inr s' \<and> svs_wf borrow s' \<and>
      svs_view borrow s' = svs_view borrow s ++ map_of (rev (map (\<lambda>i. (borrow i, id i)) xs))"
    using svs_extend_with_vec_spec [OF wf, of xs] by (simp add: svs_view_def lookup_by_def rev_map)
qed

section \<open>Properties\<close>

text \<open>
  C4.  Any sequence of replacements, removals and lookups on a new set runs without a panic and
  returns what the same sequence returns on a finite map from comparison keys to the value
  stored for them; the vector stays strictly sorted and holds that finite map at the end.
\<close>

theorem svs_run_refines:
  "\<exists>s'. run_ops (svs_replace borrow) (svs_take borrow) (svs_get borrow) ops svs_new =
          Inr (fst (spec_ops borrow id ops Map.empty), s') \<and>
        svs_wf borrow s' \<and> svs_view borrow s' = snd (spec_ops borrow id ops Map.empty)"
  using svs.run_ops_refine [OF svs.wf_empty, of borrow ops] by (simp only: svs.view_empty)

text \<open>
  C5.  The operators \<open>&\<close>, \<open>-\<close>, \<open>^\<close> and \<open>|\<close> return a well-formed set with exactly the
  values of the intersection, difference, symmetric difference and union, where membership is
  by comparison key.  An intersection keeps the values of the left set, a union those of the
  right set.
\<close>

theorem svs_operators_correct:
  assumes "svs_wf borrow s" "svs_wf borrow t"
  shows "\<exists>i d x u. svs_bitand borrow s t = Inr i \<and> svs_sub borrow s t = Inr d \<and>
      svs_bitxor borrow s t = Inr x \<and> svs_bitor borrow s t = Inr u \<and>
      svs_wf borrow i \<and> svs_wf borrow d \<and> svs_wf borrow x \<and> svs_wf borrow u \<and>
      set i = {a \<in> set s. borrow a \<in> borrow ` set t} \<and>
      set d = {a \<in> set s. borrow a \<notin> borrow ` set t} \<and>
      set x = {a \<in> set s. borrow a \<notin> borrow ` set t} \<union> {a \<in> set t. borrow a \<notin> borrow ` set s} \<and>
      set u = set t \<union> {a \<in> set s. borrow a \<notin> borrow ` set t}"
  using assms
  by (simp add: svs_operators svs_wf_def strict_by_filter symmetric_difference_collected union_collected)

theorem svs_operators_correct_witness:
  "\<exists>i d x u. svs_bitand fst [(1::nat, ''a''), (2, ''b'')] [(2, ''c''), (3, ''d'')] = Inr i \<and>
      svs_sub fst [(1::nat, ''a''), (2, ''b'')] [(2, ''c''), (3, ''d'')] = Inr d \<and>
      svs_bitxor fst [(1::nat, ''a''), (2, ''b'')] [(2, ''c''), (3, ''d'')] = Inr x \<and>
      svs_bitor fst [(1::nat, ''a''), (2, ''b'')] [(2, ''c''), (3, ''d'')] = Inr u \<and>
      set i = {(2::nat, ''b'')} \<and> set d = {(1, ''a'')} \<and> set x = {(1, ''a''), (3, ''d'')} \<and>
      set u = {(1, ''a''), (2, ''c''), (3, ''d'')}"
proof -
  have wf: "svs_wf fst [(1::nat, ''a''), (2, ''b'')]" "svs_wf fst [(2::nat, ''c''), (3, ''d'')]"
    by (simp_all add: svs_wf_def strict_by_def)
  have f: "{a \<in> set [(1::nat, ''a''), (2, ''b'')]. fst a \<in> fst ` set [(2::nat, ''c''), (3, ''d'')]} = {(2, ''b'')}"
    "{a \<in> set [(1::nat, ''a''), (2, ''b'')]. fst a \<notin> fst ` set [(2::nat, ''c''), (3, ''d'')]} = {(1, ''a'')}"
    "{a \<in> set [(2::nat, ''c''), (3, ''d'')]. fst a \<notin> fst ` set [(1::nat, ''a''), (2, ''b'')]} = {(3, ''d'')}"
    by auto
  obtain i d x u where "svs_bitand fst [(1::nat, ''a''), (2, ''b'')] [(2, ''c''), (3, ''d'')] = Inr i"
    "svs_sub fst [(1::nat, ''a''), (2, ''b'')] [(2, ''c''), (3, ''d'')] = Inr d"
    "svs_bitxor fst [(1::nat, ''a''), (2, ''b'')] [(2, ''c''), (3, ''d'')] = Inr x"
    "svs_bitor fst [(1::nat, ''a''), (2, ''b'')] [(2, ''c''), (3, ''d'')] = Inr u"
    and sets: "set i = {(2, ''b'')}" "set d = {(1, ''a'')}" "set x = {(1, ''a'')} \<union> {(3, ''d'')}"
      "set u = set [(2, ''c''), (3, ''d'')] \<union> {(1, ''a'')}"
    using svs_operators_correct [OF wf] unfolding f by (elim exE conjE) (rule that; assumption)
  moreover have "set x = {(1, ''a''), (3, ''d'')}" "set u = {(1, ''a''), (2, ''c''), (3, ''d'')}"
    unfolding sets by auto
  ultimately show ?thesis using sets(1,2) by (intro exI conjI)
qed

text \<open>
   \<open>is_disjoint\<close> decides disjointness, and \<open>is_subset\<close> and \<open>is_superset\<close> decide the
  inclusions the other way round: \<open>s.is_subset(t)\<close> holds exactly when every value of \<open>t\<close> is
  in \<open>s\<close>.
\<close>

theorem svs_inclusion_tests:
  assumes "svs_wf borrow s" "svs_wf borrow t"
  shows "(svs_is_disjoint borrow s t \<longleftrightarrow> borrow ` set s \<inter> borrow ` set t = {}) \<and>
    (svs_is_subset borrow s t \<longleftrightarrow> borrow ` set t \<subseteq> borrow ` set s) \<and>
    (svs_is_superset borrow s t \<longleftrightarrow> borrow ` set s \<subseteq> borrow ` set t)"
  using Intersection_empty [OF assms] Difference_empty [OF assms] Difference_empty [OF assms(2,1)]
  by (simp add: svs_is_disjoint_def svs_is_subset_def svs_is_superset_def op_lazy)

theorem svs_inclusion_tests_witness:
  "\<not> svs_is_subset id [1::nat] [1, 2] \<and> svs_is_subset id [1::nat, 2] [1] \<and> svs_is_disjoint id [1::nat] [2]"
proof -
  have wf: "svs_wf id [1::nat]" "svs_wf id [1::nat, 2]" "svs_wf id [2::nat]"
    by (simp_all add: svs_wf_def strict_by_def)
  show ?thesis
    using svs_inclusion_tests [OF wf(1,2)] svs_inclusion_tests [OF wf(2,1)] svs_inclusion_tests [OF wf(1,3)]
    by simp
qed

text \<open>
   The size hints of the four lazy set operations, in any state their iteration can be
  in (what is left of both vectors is strictly sorted), enclose the number of items that are
  still to come.
\<close>

theorem svs_size_hints_enclose:
  assumes "strict_by borrow l" "strict_by borrow r"
  shows "hint_ok (Difference_size_hint (l, r)) (length (iter_collect merge_left (Difference_next borrow) (l, r))) \<and>
    hint_ok (SymmetricDifference_size_hint (l, r))
      (length (iter_collect merge_left (SymmetricDifference_next borrow) (l, r))) \<and>
    hint_ok (Intersection_size_hint (l, r)) (length (iter_collect merge_left (Intersection_next borrow) (l, r))) \<and>
    hint_ok (Union_size_hint (l, r)) (length (iter_collect merge_left (Union_next borrow) (l, r)))"
  using assms difference_length [OF assms] intersection_length [OF assms] union_length [OF assms]
    op_collect_length [of borrow symmetric_difference_arm l r] op_collect_length [of borrow union_arm l r]
  by (auto simp: hint_ok_def op_hints Let_def difference_collected intersection_collected
      SymmetricDifference_next_def [abs_def] Union_next_def [abs_def]
      dest: usize_checked_add_Some split: option.splits)

theorem svs_size_hints_enclose_witness:
  "Difference_size_hint ([1::nat, 4, 6], [4]) = (2, Some 3) \<and>
   length (iter_collect merge_left (Difference_next id) ([1::nat, 4, 6], [4])) \<in> {2, 3}"
proof -
  have "strict_by id [1::nat, 4, 6]" "strict_by id [4::nat]" by (simp_all add: strict_by_def)
  note svs_size_hints_enclose [OF this]
  moreover have "Difference_size_hint ([1::nat, 4, 6], [4]) = (2, Some 3)"
    by (simp add: Difference_size_hint_def slice_size_hint_def)
  ultimately show ?thesis by (auto simp: hint_ok_def)
qed

text \<open>
   Bulk insertion into a set, on each of its paths, gives the set that replacing value
  by value gives: the same vector, in which the last of several equal values is kept.
\<close>

theorem svs_extend_is_replace_each:
  assumes "svs_wf borrow s"
  shows "\<exists>s'. svs_extend_with_vec borrow new s = Inr s' \<and>
           insert_each (svs_replace borrow) new s = Inr s' \<and> svs_wf borrow s' \<and>
           svs_view borrow s' = svs_view borrow s ++ svs_view borrow (rev new)"
proof -
  obtain s1 s2 where s: "svs_extend_with_vec borrow new s = Inr s1"
    "insert_each (svs_replace borrow) new s = Inr s2" "svs_wf borrow s1" "svs_wf borrow s2"
    "svs_view borrow s1 = svs_view borrow s2"
    using svs.extend_insert_each [OF assms] by blast
  then have "s1 = s2" using lookup_by_inject [of borrow s1 s2] by (simp add: svs_wf_def svs_view_def)
  with s svs_extend_with_vec_spec [OF assms, of new] show ?thesis by auto
qed

theorem svs_extend_is_replace_each_witness:
  "\<exists>s'. svs_extend_with_vec fst [(7::nat, ''x''), (3, ''y''), (7, ''z'')] [(3, ''a''), (5, ''b'')] = Inr s' \<and>
     svs_view fst s' 7 = Some (7, ''z'') \<and> svs_view fst s' 3 = Some (3, ''y'')"
proof -
  have "svs_wf fst [(3::nat, ''a''), (5, ''b'')]" by (simp add: svs_wf_def strict_by_def)
  from svs_extend_is_replace_each [OF this, of "[(7, ''x''), (3, ''y''), (7, ''z'')]"] show ?thesis
    by (auto simp: svs_view_def lookup_by_def)
qed

text \<open>
   \<open>range\<close> of a set returns, in order, exactly the values between its two bounds, and
  panics exactly when some value lies before the start and after the end at once.
\<close>

theorem svs_range_correct:
  assumes "svs_wf borrow s"
  shows "svs_range borrow lo hi s =
    (if \<exists>e \<in> set s. \<not> after_start lo (borrow e) \<and> \<not> before_end hi (borrow e)
     then Inl (Panic ''range start is greater than range end in SortedVectorSet'')
     else Inr (filter (\<lambda>e. after_start lo (borrow e) \<and> before_end hi (borrow e)) s))"
proof -
  have wf: "strict_by borrow s" using assms by (simp add: svs_wf_def)
  have "svs_range_index_start borrow lo s = start_index borrow lo s"
    "svs_range_index_end borrow hi s = end_index borrow hi s"
    by (simp_all add: svs_range_index_start_def svs_range_index_end_def start_index_def end_index_def
        svs_find_index_eq lower_index_def upper_index_def split: bound.splits)
  with range_slice [OF wf, of lo hi] show ?thesis
    unfolding range_inverted_iff [OF wf, of hi lo, symmetric]
    by (simp add: svs_range_def Let_def not_less selected_def [abs_def])
qed

theorem svs_range_correct_witness:
  "svs_range id (Excluded 2) (Included 9) [2::nat, 5, 9, 12] = Inr [5, 9] \<and>
   svs_range id (Included 9) (Included 2) [2::nat, 5, 9, 12] =
     Inl (Panic ''range start is greater than range end in SortedVectorSet'')"
proof -
  have wf: "svs_wf id [2::nat, 5, 9, 12]" by (simp add: svs_wf_def strict_by_def)
  show ?thesis
    using svs_range_correct [OF wf, of "Excluded 2" "Included 9"]
      svs_range_correct [OF wf, of "Included 9" "Included 2"]
    by (simp add: after_start_def before_end_def)
qed

end
