(* ===== verification/Framed_Codec.thy ===== *)
theory Framed_Codec
  imports Rust_Prelude "HOL-Library.Word"
begin

text \<open>
  What a codec of the crates promises to the reader of a byte stream.  A reader appends the bytes
  that arrive to its buffer and calls \<open>decode\<close> as long as that returns an item.  The locale
  \<open>frame_codec\<close> is the contract between an encoder and a decoder of frames: a whole frame at the
  front of the buffer is taken off and returned, a part of one asks for more bytes and changes
  nothing.  The netstring codec and the framed transport of Thrift are its two providers.

  The buffer \<open>BytesMut\<close> is the list of its bytes; \<open>split_to\<close> cuts off its front and panics
  when there are too few bytes.
\<close>

section \<open>Bytes\<close>

type_synonym byte = "8 word"

definition bytes_split_to :: "byte list \<Rightarrow> nat \<Rightarrow> (byte list \<times> byte list) res" where
  "bytes_split_to buf at =
     (if at \<le> length buf then Inr (take at buf, drop at buf)
      else Inl (Panic ''split_to out of bounds''))"

section \<open>The reader\<close>

type_synonym ('s, 'b, 'i, 'e) decoder = "'s \<Rightarrow> 'b list \<Rightarrow> ('i option, 'e) result res \<times> 's \<times> 'b list"

function reader_drain :: "('s, 'b, 'i, 'e) decoder \<Rightarrow> 's \<Rightarrow> 'b list \<Rightarrow> 'i list \<times> 's \<times> 'b list" where
  "reader_drain dec d buf =
     (case dec d buf of
        (Inr (Ok (Some m)), d', buf') \<Rightarrow>
          if length buf' < length buf
          then (case reader_drain dec d' buf' of (ms, d'', buf'') \<Rightarrow> (m # ms, d'', buf''))
          else ([m], d', buf')
      | (_, d', buf') \<Rightarrow> ([], d', buf'))"
  by pat_completeness auto
termination
  by (relation "measure (\<lambda>(dec, d, buf). length buf)") auto

declare reader_drain.simps [simp del]

fun reader_feed :: "('s, 'b, 'i, 'e) decoder \<Rightarrow> 's \<Rightarrow> 'b list \<Rightarrow> 'b list list \<Rightarrow> 'i list \<times> 's \<times> 'b list" where
  "reader_feed dec d buf [] = ([], d, buf)"
| "reader_feed dec d buf (chunk # chunks) =
     (case reader_drain dec d (buf @ chunk) of (ms, d', buf') \<Rightarrow>
        (case reader_feed dec d' buf' chunks of (ms', d'', buf'') \<Rightarrow> (ms @ ms', d'', buf'')))"

section \<open>The contract\<close>

locale frame_codec =
  fixes dec :: "('s, 'b, 'i, 'e) decoder"
    and idle :: 's
    and frame :: "'m \<Rightarrow> 'b list"
    and item :: "'m \<Rightarrow> 'i"
    and fits :: "'m \<Rightarrow> bool"
  assumes frame_nonempty: "frame m \<noteq> []"
    and decode_whole: "fits m \<Longrightarrow> dec idle (frame m @ rest) = (Inr (Ok (Some (item m))), idle, rest)"
    and decode_part: "fits m \<Longrightarrow> p @ q = frame m @ rest \<Longrightarrow> length p < length (frame m) \<Longrightarrow>
      dec idle p = (Inr (Ok None), idle, p)"
    and decode_nothing: "dec idle [] = (Inr (Ok None), idle, [])"
begin

text \<open>What is left in the buffer between reads: nothing, or the beginning of the next frame.\<close>

definition waiting :: "'m list \<Rightarrow> 'b list \<Rightarrow> bool" where
  "waiting msgs buf \<longleftrightarrow> (case msgs of [] \<Rightarrow> buf = [] | m # _ \<Rightarrow> length buf < length (frame m))"

lemma waiting_start: "waiting msgs []"
  by (simp add: waiting_def frame_nonempty split: list.splits)

lemma drain_prefix:
  assumes "\<forall>m \<in> set msgs. fits m" "p @ q = concat (map frame msgs)"
  shows "\<exists>ms1 ms2 p'. msgs = ms1 @ ms2 \<and> reader_drain dec idle p = (map item ms1, idle, p') \<and>
           p = concat (map frame ms1) @ p' \<and> p' @ q = concat (map frame ms2) \<and> waiting ms2 p'"
  using assms
proof (induction msgs arbitrary: p)
  case Nil
  then have "reader_drain dec idle p = ([], idle, p)"
    by (subst reader_drain.simps) (simp add: decode_nothing)
  with Nil show ?case by (simp add: waiting_def)
next
  case (Cons m ms)
  have m: "fits m" using Cons.prems(1) by simp
  have pq: "p @ q = frame m @ concat (map frame ms)" using Cons.prems(2) by simp
  show ?case
  proof (cases "length p < length (frame m)")
    case True
    then have "reader_drain dec idle p = ([], idle, p)"
      using decode_part [OF m pq] by (subst reader_drain.simps) simp
    with True Cons.prems(2) show ?thesis
      by (intro exI [of _ "[]"] exI [of _ "m # ms"] exI [of _ p]) (simp add: waiting_def)
  next
    case False
    with pq have "take (length (frame m)) p = frame m \<and> drop (length (frame m)) p @ q = concat (map frame ms)"
      by (cases "length p = length (frame m)") (simp_all add: append_eq_append_conv_if)
    then obtain p2 where p: "p = frame m @ p2" "p2 @ q = concat (map frame ms)"
      by (metis append_take_drop_id)
    then obtain ms1 ms2 p' where r: "ms = ms1 @ ms2" "reader_drain dec idle p2 = (map item ms1, idle, p')"
      "p2 = concat (map frame ms1) @ p'" "p' @ q = concat (map frame ms2)" "waiting ms2 p'"
      using Cons.IH [of p2] Cons.prems(1) by auto
    have "reader_drain dec idle p = (item m # map item ms1, idle, p')"
      using decode_whole [OF m, of p2] r(2) p(1) frame_nonempty [of m]
      by (subst reader_drain.simps) simp
    with r p show ?thesis by (intro exI [of _ "m # ms1"] exI [of _ ms2] exI [of _ p']) simp
  qed
qed

text \<open>
  Whatever part of a stream has arrived, in whatever chunks: the reader has the items of the whole
  frames in it and keeps the bytes of the frame that is not complete.
\<close>

lemma feed_prefix:
  assumes "\<forall>m \<in> set msgs. fits m" "buf @ concat chunks @ q = concat (map frame msgs)" "waiting msgs buf"
  shows "\<exists>ms1 ms2 buf'. msgs = ms1 @ ms2 \<and> reader_feed dec idle buf chunks = (map item ms1, idle, buf') \<and>
           buf @ concat chunks = concat (map frame ms1) @ buf' \<and> waiting ms2 buf'"
  using assms
proof (induction chunks arbitrary: buf msgs)
  case Nil
  then show ?case by (intro exI [of _ "[]"] exI [of _ msgs] exI [of _ buf]) simp
next
  case (Cons chunk chunks)
  have "(buf @ chunk) @ (concat chunks @ q) = concat (map frame msgs)" using Cons.prems(2) by simp
  from drain_prefix [OF Cons.prems(1) this] obtain ms1 ms2 p' where
    r: "msgs = ms1 @ ms2" "reader_drain dec idle (buf @ chunk) = (map item ms1, idle, p')"
      "buf @ chunk = concat (map frame ms1) @ p'" "p' @ concat chunks @ q = concat (map frame ms2)" "waiting ms2 p'"
    by blast
  from Cons.IH [of ms2 p'] Cons.prems(1) r obtain ms3 ms4 buf' where
    r': "ms2 = ms3 @ ms4" "reader_feed dec idle p' chunks = (map item ms3, idle, buf')"
      "p' @ concat chunks = concat (map frame ms3) @ buf'" "waiting ms4 buf'" by auto
  have "buf @ concat (chunk # chunks) = concat (map frame (ms1 @ ms3)) @ buf'"
    using arg_cong [OF r(3), of "\<lambda>x. x @ concat chunks"] r'(3) by simp
  with r r' show ?case by (intro exI [of _ "ms1 @ ms3"] exI [of _ ms4] exI [of _ buf']) simp
qed

lemma feed_stream:
  assumes "\<forall>m \<in> set msgs. fits m" "concat chunks = concat (map frame msgs)"
  shows "reader_feed dec idle [] chunks = (map item msgs, idle, [])"
proof -
  from feed_prefix [of msgs "[]" chunks "[]"] assms waiting_start obtain ms1 ms2 buf' where
    r: "msgs = ms1 @ ms2" "reader_feed dec idle [] chunks = (map item ms1, idle, buf')"
      "concat (map frame msgs) = concat (map frame ms1) @ buf'" "waiting ms2 buf'" by auto
  from r(1,3) have "buf' = concat (map frame ms2)" by simp
  with r(4) have "ms2 = []" by (cases ms2) (simp_all add: waiting_def)
  with r show ?thesis by simp
qed

end

end
