(* ===== verification/Netstring.thy ===== *)
theory Netstring
  imports Framed_Codec
begin

text \<open>
  The netstring codec (\<open>shed/netstring/src\<close>): messages framed as \<open>7:message,\<close>.  The decoder
  is a two-state machine that reads the decimal length and then the body; its state is taken
  out before each step and only put back when the step succeeds, so that an error leaves the
  decoder without a state.  Bytes are \<open>8 word\<close> values and \<open>usize\<close> values are naturals below
  \<open>2 ^ 64\<close>.  The flag \<open>dbg\<close> tells the two build profiles apart: with it an overflow panics
  and the debug assertions are checked, without it arithmetic wraps around.
\<close>

section \<open>Bytes\<close>

abbreviation byte_zero :: byte where "byte_zero \<equiv> 48"
abbreviation byte_nine :: byte where "byte_nine \<equiv> 57"
abbreviation byte_colon :: byte where "byte_colon \<equiv> 58"
abbreviation byte_comma :: byte where "byte_comma \<equiv> 44"

section \<open>The decoder\<close>

datatype ErrorKind = NetstringDecode string

definition missing_comma :: string where
  "missing_comma = ''missing '' @ [CHR 0x27, CHR '','', CHR 0x27]"

datatype dec_state = Num nat | Body nat

record netstring_decoder =
  ns_state :: "dec_state option"

record ns_slice =
  slice_base :: nat
  slice_size :: nat

definition slice_make :: "nat \<Rightarrow> nat \<Rightarrow> ns_slice" where
  "slice_make base len = \<lparr>slice_base = base, slice_size = len\<rparr>"

definition slice_len :: "ns_slice \<Rightarrow> nat" where
  "slice_len s = slice_size s"

definition slice_start :: "ns_slice \<Rightarrow> nat" where
  "slice_start s = slice_base s"

definition slice_end :: "ns_slice \<Rightarrow> nat" where
  "slice_end s = slice_base s + slice_size s"

definition ns_default :: netstring_decoder where
  "ns_default = \<lparr>ns_state = Some (Num 0)\<rparr>"

text \<open>\<open>cur * 10 + digit\<close> on \<open>usize\<close>.\<close>

definition push_digit :: "bool \<Rightarrow> nat \<Rightarrow> byte \<Rightarrow> nat res" where
  "push_digit dbg cur digit =
     (let d = unat (digit - byte_zero) in
      if dbg \<and> usize_limit \<le> cur * 10 then Inl (Panic ''attempt to multiply with overflow'')
      else if dbg \<and> usize_limit \<le> cur * 10 + d then Inl (Panic ''attempt to add with overflow'')
      else Inr ((cur * 10 + d) mod usize_limit))"

text \<open>How the loop over the bytes of the length ends.\<close>

datatype num_scan = Complete nat nat | Partial nat | BadChar | Overflow panic

fun scan_num :: "bool \<Rightarrow> nat \<Rightarrow> nat \<Rightarrow> byte list \<Rightarrow> num_scan" where
  "scan_num dbg idx cur [] = Partial cur"
| "scan_num dbg idx cur (inp # buf) =
     (if byte_zero \<le> inp \<and> inp \<le> byte_nine then
        (case push_digit dbg cur inp of
           Inl p \<Rightarrow> Overflow p
         | Inr cur' \<Rightarrow> scan_num dbg (idx + 1) cur' buf)
      else if inp = byte_colon then Complete (idx + 1) cur
      else BadChar)"

type_synonym ns_result = "(nat \<times> (bool \<times> ns_slice) option, ErrorKind) result res"

definition state_rank :: "netstring_decoder \<Rightarrow> nat" where
  "state_rank d = (case ns_state d of Some (Num _) \<Rightarrow> 1 | _ \<Rightarrow> 0)"

text \<open>The \<open>loop\<close> of \<open>decode_buf\<close> from a value of \<open>consumed\<close> on.\<close>

function decode_loop :: "bool \<Rightarrow> netstring_decoder \<Rightarrow> byte list \<Rightarrow> nat \<Rightarrow> ns_result \<times> netstring_decoder" where
  "decode_loop dbg d whole consumed =
     (let taken = d\<lparr>ns_state := None\<rparr> in
      case ns_state d of
        None \<Rightarrow> (Inr (Err (NetstringDecode ''bad state'')), taken)
      | Some state \<Rightarrow>
          (case vec_slice whole consumed (length whole) of
             Inl p \<Rightarrow> (Inl p, taken)
           | Inr buf \<Rightarrow>
               (case state of
                  Num cur \<Rightarrow>
                    (case scan_num dbg 0 cur buf of
                       Overflow p \<Rightarrow> (Inl p, taken)
                     | BadChar \<Rightarrow>
                         (Inr (Err (NetstringDecode ''Bad character in payload size'')), taken)
                     | Complete eaten len \<Rightarrow>
                         decode_loop dbg (d\<lparr>ns_state := Some (Body len)\<rparr>) whole (consumed + eaten)
                     | Partial cur' \<Rightarrow>
                         (Inr (Ok (consumed + length buf, None)), d\<lparr>ns_state := Some (Num cur')\<rparr>))
                | Body len \<Rightarrow>
                    if length buf > len then
                      (let v = slice_make consumed len in
                       if buf ! len = byte_comma then
                         (Inr (Ok (consumed + (len + 1), Some (True, v))),
                          d\<lparr>ns_state := Some (Num 0)\<rparr>)
                       else (Inr (Err (NetstringDecode missing_comma)), taken))
                    else
                      (let v = slice_make consumed (length buf) in
                       (Inr (Ok (consumed + slice_len v, Some (False, v))),
                        d\<lparr>ns_state := Some (Body (len - slice_len v))\<rparr>)))))"
  by pat_completeness auto
termination
  by (relation "measure (\<lambda>(dbg, d, whole, consumed). state_rank d)") (auto simp: state_rank_def)

declare decode_loop.simps [simp del]

definition decode_buf :: "bool \<Rightarrow> netstring_decoder \<Rightarrow> byte list \<Rightarrow> ns_result \<times> netstring_decoder" where
  "decode_buf dbg d buf = decode_loop dbg d buf 0"

type_synonym ns_decoded = "(byte list option, ErrorKind) result res \<times> netstring_decoder \<times> byte list"

definition ns_decode :: "bool \<Rightarrow> netstring_decoder \<Rightarrow> byte list \<Rightarrow> ns_decoded" where
  "ns_decode dbg d buf =
     (let saved = d in
      case decode_buf dbg d buf of
        (Inl p, d') \<Rightarrow> (Inl p, d', buf)
      | (Inr (Err e), d') \<Rightarrow> (Inr (Err e), d', buf)
      | (Inr (Ok (consumed, ret)), d') \<Rightarrow>
          (case ret of
             Some (True, sl) \<Rightarrow>
               if dbg \<and> \<not> slice_end sl \<le> length buf
               then (Inl (Panic ''slice end after buf''), d', buf)
               else if dbg \<and> \<not> slice_end sl \<le> consumed
               then (Inl (Panic ''slice end after consumed''), d', buf)
               else
                 (case bytes_split_to buf (slice_end sl) of
                    Inl p \<Rightarrow> (Inl p, d', buf)
                  | Inr (ret, buf1) \<Rightarrow>
                      (case (if consumed > slice_end sl
                             then bytes_split_to buf1 (consumed - slice_end sl)
                             else Inr ([], buf1)) of
                         Inl p \<Rightarrow> (Inl p, d', buf1)
                       | Inr (_, buf2) \<Rightarrow>
                           (case bytes_split_to ret (slice_start sl) of
                              Inl p \<Rightarrow> (Inl p, d', buf2)
                            | Inr (_, ret') \<Rightarrow> (Inr (Ok (Some ret')), d', buf2))))
           | _ \<Rightarrow> (Inr (Ok None), saved, buf)))"

section \<open>The encoder\<close>

text \<open>The decimal digits that \<open>write!(buf, "{}", n)\<close> prints.\<close>

fun decimal :: "nat \<Rightarrow> byte list" where
  "decimal n = (if n < 10 then [byte_zero + of_nat n]
                else decimal (n div 10) @ [byte_zero + of_nat (n mod 10)])"

declare decimal.simps [simp del]

definition ns_encode :: "byte list \<Rightarrow> byte list \<Rightarrow> byte list" where
  "ns_encode msg buf = ((buf @ decimal (length msg) @ [byte_colon]) @ msg) @ [byte_comma]"

section \<open>What a buffer of bytes holds\<close>

definition is_digit :: "byte \<Rightarrow> bool" where
  "is_digit b \<longleftrightarrow> byte_zero \<le> b \<and> b \<le> byte_nine"

fun num_value :: "nat \<Rightarrow> byte list \<Rightarrow> nat" where
  "num_value cur [] = cur"
| "num_value cur (d # ds) = num_value (cur * 10 + unat (d - byte_zero)) ds"

datatype frame = Message "byte list" "byte list" | Incomplete | Malformed string

text \<open>The frame at the front of a buffer, by its grammar: digits, a colon, the body, a comma.\<close>

definition parse_frame :: "byte list \<Rightarrow> frame" where
  "parse_frame buf =
     (case dropWhile is_digit buf of
        [] \<Rightarrow> Incomplete
      | c # body \<Rightarrow>
          (let n = num_value 0 (takeWhile is_digit buf) mod usize_limit in
           if c \<noteq> byte_colon then Malformed ''Bad character in payload size''
           else if length body \<le> n then Incomplete
           else if body ! n = byte_comma then Message (take n body) (drop (Suc n) body)
           else Malformed missing_comma))"

text \<open>The length does not overflow, or the build lets it wrap.\<close>

definition length_fits :: "bool \<Rightarrow> byte list \<Rightarrow> bool" where
  "length_fits dbg buf \<longleftrightarrow> \<not> dbg \<or> num_value 0 (takeWhile is_digit buf) < usize_limit"

lemma num_value_linear: "num_value c ds = c * 10 ^ length ds + num_value 0 ds"
proof (induction ds arbitrary: c)
  case (Cons d ds)
  show ?case
    using Cons [of "c * 10 + unat (d - byte_zero)"] Cons [of "unat (d - byte_zero)"]
    by (simp add: algebra_simps)
qed simp

lemma num_value_mod: "num_value (c mod L) ds mod L = num_value c ds mod L"
  by (subst (1 2) num_value_linear) (metis mod_add_left_eq mod_mult_left_eq)

lemma num_value_ge: "c \<le> num_value c ds"
  by (subst num_value_linear) (metis mult.right_neutral one_le_numeral one_le_power mult_le_mono2 trans_le_add1)

lemma push_digit_ok:
  "\<not> dbg \<or> num_value (cur * 10 + unat (d - byte_zero)) ds < usize_limit \<Longrightarrow>
     push_digit dbg cur d = Inr ((cur * 10 + unat (d - byte_zero)) mod usize_limit)"
  using num_value_ge [of "cur * 10 + unat (d - byte_zero)" ds]
  by (auto simp: push_digit_def Let_def)

lemma scan_num_eq:
  "\<not> dbg \<or> num_value cur (takeWhile is_digit buf) < usize_limit \<Longrightarrow> cur < usize_limit \<Longrightarrow>
   scan_num dbg idx cur buf =
     (case dropWhile is_digit buf of
        [] \<Rightarrow> Partial (num_value cur (takeWhile is_digit buf) mod usize_limit)
      | c # _ \<Rightarrow>
          if c = byte_colon
          then Complete (idx + length (takeWhile is_digit buf) + 1)
                 (num_value cur (takeWhile is_digit buf) mod usize_limit)
          else BadChar)"
proof (induction buf arbitrary: idx cur)
  case (Cons b buf)
  show ?case
  proof (cases "is_digit b")
    case True
    let ?c = "(cur * 10 + unat (b - byte_zero)) mod usize_limit"
    have pd: "push_digit dbg cur b = Inr ?c"
      using Cons.prems(1) True by (intro push_digit_ok [where ds = "takeWhile is_digit buf"]) simp
    have lt: "?c < usize_limit" by (simp add: usize_limit_def)
    have "\<not> dbg \<or> num_value ?c (takeWhile is_digit buf) < usize_limit"
      using Cons.prems(1) True num_value_ge [of "cur * 10 + unat (b - byte_zero)" "takeWhile is_digit buf"] by auto
    note IH = Cons.IH [OF this lt, of "idx + 1"]
    have "scan_num dbg idx cur (b # buf) = scan_num dbg (idx + 1) ?c buf"
      using pd True by (simp add: is_digit_def)
    with IH True show ?thesis
      by (cases "dropWhile is_digit buf") (simp_all add: num_value_mod del: dropWhile_eq_Nil_conv)
  next
    case False
    then have "scan_num dbg idx cur (b # buf) = (if b = byte_colon then Complete (idx + 1) cur else BadChar)"
      by (auto simp: is_digit_def)
    with False Cons.prems(2) show ?thesis by (cases "b = byte_colon") simp_all
  qed
qed simp

section \<open>The decoder implements the grammar\<close>

lemma decode_body:
  assumes "consumed \<le> length whole"
  shows "decode_loop dbg \<lparr>ns_state = Some (Body n)\<rparr> whole consumed =
    (let body = drop consumed whole in
     if n < length body then
       if body ! n = byte_comma then
         (Inr (Ok (consumed + (n + 1), Some (True, slice_make consumed n))), ns_default)
       else (Inr (Err (NetstringDecode missing_comma)), \<lparr>ns_state = None\<rparr>)
     else (Inr (Ok (length whole, Some (False, slice_make consumed (length body)))),
           \<lparr>ns_state = Some (Body (n - length body))\<rparr>))"
  using assms
  by (subst decode_loop.simps)
    (simp add: vec_slice_def Let_def ns_default_def slice_len_def slice_make_def)

lemma decode_buf_start:
  assumes "length_fits dbg buf"
  shows "decode_buf dbg ns_default buf =
    (case dropWhile is_digit buf of
       [] \<Rightarrow> (Inr (Ok (length buf, None)),
             \<lparr>ns_state = Some (Num (num_value 0 (takeWhile is_digit buf) mod usize_limit))\<rparr>)
     | c # body \<Rightarrow>
         if c = byte_colon then
           decode_loop dbg \<lparr>ns_state = Some (Body (num_value 0 (takeWhile is_digit buf) mod usize_limit))\<rparr>
             buf (length (takeWhile is_digit buf) + 1)
         else (Inr (Err (NetstringDecode ''Bad character in payload size'')), \<lparr>ns_state = None\<rparr>))"
proof -
  have "0 < usize_limit" by (simp add: usize_limit_def)
  note scan = scan_num_eq [OF assms [unfolded length_fits_def] this, of 0]
  show ?thesis
    unfolding decode_buf_def
    by (subst decode_loop.simps)
      (cases "dropWhile is_digit buf";
        simp add: scan ns_default_def vec_slice_def del: dropWhile_eq_Nil_conv)
qed

lemma buf_split:
  assumes "dropWhile is_digit buf = c # body"
  shows "length (takeWhile is_digit buf) + 1 \<le> length buf"
    "drop (length (takeWhile is_digit buf) + 1) buf = body"
    "length buf = length (takeWhile is_digit buf) + 1 + length body"
proof -
  have split: "k + 1 \<le> length xs" "drop (k + 1) xs = body" "length xs = k + 1 + length body"
    if "xs = ds @ c # body" "k = length ds" for xs ds k
    using that by simp_all
  have "buf = takeWhile is_digit buf @ c # body" using assms by (metis takeWhile_dropWhile_id)
  note split [OF this refl]
  then show "length (takeWhile is_digit buf) + 1 \<le> length buf"
    "drop (length (takeWhile is_digit buf) + 1) buf = body"
    "length buf = length (takeWhile is_digit buf) + 1 + length body" .
qed

lemma decode_parse:
  assumes "length_fits dbg buf"
  shows "ns_decode dbg ns_default buf =
    (case parse_frame buf of
       Message m rest \<Rightarrow> (Inr (Ok (Some m)), ns_default, rest)
     | Incomplete \<Rightarrow> (Inr (Ok None), ns_default, buf)
     | Malformed e \<Rightarrow> (Inr (Err (NetstringDecode e)), \<lparr>ns_state = None\<rparr>, buf))"
proof (cases "dropWhile is_digit buf")
  case Nil
  then show ?thesis
    using decode_buf_start [OF assms] by (simp add: ns_decode_def parse_frame_def del: dropWhile_eq_Nil_conv)
next
  case (Cons c body)
  let ?k = "length (takeWhile is_digit buf) + 1"
  let ?n = "num_value 0 (takeWhile is_digit buf) mod usize_limit"
  note sp = buf_split [OF Cons]
  have d: "decode_buf dbg ns_default buf =
      (if c = byte_colon then decode_loop dbg \<lparr>ns_state = Some (Body ?n)\<rparr> buf ?k
       else (Inr (Err (NetstringDecode ''Bad character in payload size'')), \<lparr>ns_state = None\<rparr>))"
    using decode_buf_start [OF assms] Cons by simp
  have "take (?k + ?n) buf = take ?k buf @ take ?n body"
    unfolding sp(2) [symmetric] by (rule take_add)
  then have tk: "drop ?k (take (?k + ?n) buf) = take ?n body" using sp(1) by simp
  have dr: "drop (Suc (?k + ?n)) buf = drop (Suc ?n) body"
    unfolding sp(2) [symmetric] by (simp add: add.commute)
  show ?thesis
  proof (cases "c = byte_colon \<and> ?n < length body \<and> body ! ?n = byte_comma")
    case True
    then have "parse_frame buf = Message (take ?n body) (drop (Suc ?n) body)"
      using Cons by (simp add: parse_frame_def Let_def)
    moreover have "decode_buf dbg ns_default buf =
        (Inr (Ok (?k + (?n + 1), Some (True, slice_make ?k ?n))), ns_default)"
      unfolding d using True decode_body [OF sp(1), of dbg ?n, unfolded sp(2)] by (simp add: Let_def)
    ultimately show ?thesis
      using True sp(1,3) tk dr
      by (simp add: ns_decode_def bytes_split_to_def slice_end_def slice_start_def slice_make_def Suc_le_eq)
  next
    case False
    then consider "c \<noteq> byte_colon" | "c = byte_colon" "length body \<le> ?n"
      | "c = byte_colon" "?n < length body" "body ! ?n \<noteq> byte_comma" by linarith
    then show ?thesis
      unfolding ns_decode_def d using decode_body [OF sp(1), of dbg ?n, unfolded sp(2)] Cons
      by cases (simp_all add: parse_frame_def)
  qed
qed

section \<open>Encoded messages\<close>

lemma digit_byte:
  assumes "k < 10"
  shows "is_digit (byte_zero + of_nat k)" "unat (byte_zero + of_nat k - byte_zero) = k"
proof -
  have k: "k \<in> {0, 1, 2, 3, 4, 5, 6, 7, 8, 9}" using assms by auto
  then show "is_digit (byte_zero + of_nat k)" by (auto simp: is_digit_def)
  show "unat (byte_zero + of_nat k - byte_zero) = k" using k by auto
qed

lemma num_value_append: "num_value c (xs @ ys) = num_value (num_value c xs) ys"
  by (induction xs arbitrary: c) simp_all

lemma decimal_digits: "\<forall>b \<in> set (decimal n). is_digit b"
proof (induction n rule: decimal.induct)
  case (1 n)
  then show ?case using digit_byte(1) [of n] digit_byte(1) [of "n mod 10"]
    by (subst decimal.simps) auto
qed

lemma decimal_value: "num_value 0 (decimal n) = n"
proof (induction n rule: decimal.induct)
  case (1 n)
  then show ?case using digit_byte(2) [of n] digit_byte(2) [of "n mod 10"]
    by (subst decimal.simps) (simp add: num_value_append)
qed

lemma not_digit_colon: "\<not> is_digit byte_colon"
  by (simp add: is_digit_def)

text \<open>Any digits in front of a colon give the length of the body.\<close>

lemma span_digits:
  assumes "\<forall>b \<in> set ds. is_digit b"
  shows "takeWhile is_digit (ds @ byte_colon # body) = ds"
    "dropWhile is_digit (ds @ byte_colon # body) = byte_colon # body"
  using assms by (simp_all add: takeWhile_append2 dropWhile_append2 not_digit_colon)

lemma parse_message:
  assumes "\<forall>b \<in> set ds. is_digit b" "length m = num_value 0 ds mod usize_limit"
  shows "parse_frame (ds @ byte_colon # m @ byte_comma # rest) = Message m rest"
  using assms(2) by (simp add: parse_frame_def span_digits [OF assms(1)] flip: assms(2))

lemma parse_MessageD:
  assumes "parse_frame buf = Message m rest"
  shows "\<exists>ds. (\<forall>b \<in> set ds. is_digit b) \<and> length m = num_value 0 ds mod usize_limit \<and>
           buf = ds @ byte_colon # m @ byte_comma # rest"
proof -
  let ?ds = "takeWhile is_digit buf"
  let ?n = "num_value 0 ?ds mod usize_limit"
  obtain body where b: "dropWhile is_digit buf = byte_colon # body" and n: "?n < length body"
    and m: "body ! ?n = byte_comma" "m = take ?n body" "rest = drop (Suc ?n) body"
    using assms by (auto simp: parse_frame_def Let_def split: list.splits if_splits)
  have "buf = ?ds @ byte_colon # body" using b by (metis takeWhile_dropWhile_id)
  moreover have "body = m @ byte_comma # rest" using id_take_nth_drop [OF n] m by simp
  moreover have "length m = ?n" using m n by simp
  ultimately show ?thesis by (metis set_takeWhileD)
qed

definition ns_frame :: "byte list \<Rightarrow> byte list" where
  "ns_frame m = ns_encode m []"

lemma ns_frame_eq: "ns_frame m = decimal (length m) @ byte_colon # m @ [byte_comma]"
  by (simp add: ns_frame_def ns_encode_def)

lemma parse_frame_encoded: "length m < usize_limit \<Longrightarrow> parse_frame (ns_frame m @ rest) = Message m rest"
  using parse_message [OF decimal_digits [of "length m"], of m rest] by (simp add: ns_frame_eq decimal_value)

lemma split_at:
  assumes "p @ q = ds @ c # x"
  obtains (inside) zs where "ds = p @ zs" | (past) b where "p = ds @ c # b"
  using assms by (auto simp: append_eq_append_conv2 append_eq_Cons_conv Cons_eq_append_conv)

lemma length_fits_encoded:
  assumes "length m < usize_limit" "p @ q = ns_frame m @ rest"
  shows "length_fits dbg p"
proof -
  have "\<exists>zs. decimal (length m) = takeWhile is_digit p @ zs"
  proof (rule split_at [of p q "decimal (length m)" byte_colon "m @ byte_comma # rest"])
    show "p @ q = decimal (length m) @ byte_colon # m @ byte_comma # rest"
      using assms(2) by (simp add: ns_frame_eq)
    fix zs assume "decimal (length m) = p @ zs"
    then show ?thesis by (metis append.assoc takeWhile_dropWhile_id)
  next
    fix b assume "p = decimal (length m) @ byte_colon # b"
    then show ?thesis using span_digits(1) [OF decimal_digits] by simp
  qed
  then obtain zs where "length m = num_value (num_value 0 (takeWhile is_digit p)) zs"
    using decimal_value [of "length m"] by (metis num_value_append)
  then have "num_value 0 (takeWhile is_digit p) \<le> length m" using num_value_ge by metis
  with assms(1) show ?thesis by (simp add: length_fits_def)
qed

text \<open>A proper prefix of a frame asks for more input.\<close>

lemma parse_prefix:
  assumes "length m < usize_limit" "p @ q = ns_frame m @ rest" "length p < length (ns_frame m)"
  shows "parse_frame p = Incomplete"
proof (rule split_at [of p q "decimal (length m)" byte_colon "m @ byte_comma # rest"])
  show "p @ q = decimal (length m) @ byte_colon # m @ byte_comma # rest"
    using assms(2) by (simp add: ns_frame_eq)
next
  fix zs assume "decimal (length m) = p @ zs"
  then have "\<forall>b \<in> set p. is_digit b" using decimal_digits [of "length m"] by simp
  then have "dropWhile is_digit p = []" by simp
  then show ?thesis by (simp add: parse_frame_def del: dropWhile_eq_Nil_conv)
next
  fix b assume p: "p = decimal (length m) @ byte_colon # b"
  with assms(3) have "length b \<le> length m" by (simp add: ns_frame_eq)
  with assms(1) show ?thesis
    by (simp add: parse_frame_def p span_digits [OF decimal_digits] decimal_value)
qed

text \<open>An error leaves the decoder without a state.\<close>

lemma decode_loop_error:
  "decode_loop dbg d w c = (Inr (Err e), d') \<Longrightarrow> ns_state d' = None"
proof (induction dbg d w c arbitrary: d' rule: decode_loop.induct)
  case (1 dbg d w c)
  show ?case
  proof (cases "ns_state d")
    case None
    with "1.prems" show ?thesis by (subst (asm) decode_loop.simps) auto
  next
    case st: (Some st)
    show ?thesis
    proof (cases "vec_slice w c (length w)")
      case (Inl p)
      with st "1.prems" show ?thesis by (subst (asm) decode_loop.simps) simp
    next
      case buf: (Inr buf)
      show ?thesis
      proof (cases st)
        case (Num cur)
        with st buf "1.prems" "1.IH" [OF refl st buf Num] show ?thesis
          by (subst (asm) decode_loop.simps) (cases "scan_num dbg 0 cur buf"; auto)
      next
        case (Body len)
        with st buf "1.prems" show ?thesis
          by (subst (asm) decode_loop.simps) (auto simp: Let_def split: if_splits)
      qed
    qed
  qed
qed

section \<open>Streams of messages\<close>

text \<open>
  The reader of a stream of netstrings.
\<close>

definition ns_feed :: "bool \<Rightarrow> netstring_decoder \<Rightarrow> byte list \<Rightarrow> byte list list \<Rightarrow> byte list list \<times> netstring_decoder \<times> byte list" where
  "ns_feed dbg = reader_feed (ns_decode dbg)"

definition ns_stream :: "byte list list \<Rightarrow> byte list" where
  "ns_stream msgs = fold ns_encode msgs []"

lemma ns_stream_concat: "ns_stream msgs = concat (map ns_frame msgs)"
proof -
  have "fold ns_encode msgs buf = buf @ concat (map ns_frame msgs)" for buf
    by (induction msgs arbitrary: buf) (simp_all add: ns_encode_def ns_frame_eq)
  then show ?thesis by (simp add: ns_stream_def)
qed

lemma decode_frame:
  "length m < usize_limit \<Longrightarrow> ns_decode dbg ns_default (ns_frame m @ rest) = (Inr (Ok (Some m)), ns_default, rest)"
  using decode_parse [OF length_fits_encoded [of m _ "[]" rest]] parse_frame_encoded [of m rest] by simp

lemma decode_prefix:
  "length m < usize_limit \<Longrightarrow> p @ q = ns_frame m @ rest \<Longrightarrow> length p < length (ns_frame m) \<Longrightarrow>
     ns_decode dbg ns_default p = (Inr (Ok None), ns_default, p)"
  using decode_parse [OF length_fits_encoded [of m p q rest]] parse_prefix [of m p q rest] by simp

lemma decode_empty: "ns_decode dbg ns_default [] = (Inr (Ok None), ns_default, [])"
  using decode_parse [of dbg "[]"] by (simp add: length_fits_def usize_limit_def parse_frame_def)

interpretation netstrings: frame_codec "ns_decode dbg" ns_default ns_frame "\<lambda>m. m" "\<lambda>m. length m < usize_limit" for dbg
  by unfold_locales (rule decode_frame decode_prefix decode_empty | assumption | simp add: ns_frame_eq)+

section \<open>Properties\<close>

text \<open>
  C6.  However an encoded stream of messages is cut into chunks on its way, the reader gets
  exactly the messages, in order; no error and no panic occurs, and the decoder ends in its
  initial state with an empty buffer.
\<close>

theorem netstring_stream_roundtrip:
  assumes "\<forall>m \<in> set msgs. length m < usize_limit" "concat chunks = ns_stream msgs"
  shows "ns_feed dbg ns_default [] chunks = (msgs, ns_default, [])"
  using netstrings.feed_stream [OF assms(1), of chunks dbg] assms(2) by (simp add: ns_feed_def ns_stream_concat)

theorem netstring_stream_roundtrip_witness:
  "ns_feed True ns_default [] [[51, 58], [97, 98], [], [99, 44, 48, 58, 44]] = ([[97, 98, 99], []], ns_default, [])"
  by (rule netstring_stream_roundtrip)
    (simp_all add: usize_limit_def ns_stream_def ns_encode_def decimal.simps)



text \<open>
   In a build without overflow checks \<open>decode\<close> returns a message exactly for a buffer that
  starts with digits, a colon, a body whose length is the number modulo \<open>2 ^ 64\<close>, and a comma:
  leading zeros and an empty number are accepted, and a number that does not fit wraps around.
\<close>

theorem netstring_accepts_iff:
  "ns_decode False ns_default buf = (Inr (Ok (Some m)), d, rest) \<longleftrightarrow>
     d = ns_default \<and>
     (\<exists>ds. (\<forall>b \<in> set ds. is_digit b) \<and> length m = num_value 0 ds mod 2 ^ 64 \<and>
        buf = ds @ byte_colon # m @ byte_comma # rest)"
proof -
  have "ns_decode False ns_default buf = (Inr (Ok (Some m)), d, rest) \<longleftrightarrow>
      d = ns_default \<and> parse_frame buf = Message m rest"
    using decode_parse [of False buf] by (auto simp: length_fits_def split: frame.splits)
  then show ?thesis
    using parse_MessageD [of buf m rest] parse_message [of _ m rest] by (auto simp: usize_limit_def)
qed

theorem netstring_accepts_iff_witness:
  "ns_decode False ns_default
     [49, 56, 52, 52, 54, 55, 52, 52, 48, 55, 51, 55, 48, 57, 53, 53, 49, 54, 50, 49,
      58, 104, 101, 108, 108, 111, 44] = (Inr (Ok (Some [104, 101, 108, 108, 111])), ns_default, [])"
  unfolding netstring_accepts_iff
  by (intro conjI exI [of _ "[49, 56, 52, 52, 54, 55, 52, 52, 48, 55, 51, 55, 48, 57, 53, 53, 49, 54, 50, 49]"])
    (simp_all add: is_digit_def)

text \<open>
   After an error the decoder stays broken: every later call fails with \<open>bad state\<close> and
  leaves the buffer alone, whatever it holds.
\<close>

theorem netstring_error_sticks:
  assumes "ns_decode dbg d buf = (Inr (Err e), d', buf')"
  shows "ns_state d' = None \<and> buf' = buf \<and>
    ns_decode dbg' d' next_buf = (Inr (Err (NetstringDecode ''bad state'')), d', next_buf)"
proof -
  have b: "buf' = buf \<and> ns_state d' = None"
    using assms decode_loop_error [of dbg d buf 0 e d']
    by (auto simp: ns_decode_def decode_buf_def Let_def
        split: prod.splits sum.splits result.splits option.splits bool.splits if_splits)
  then have "decode_loop dbg' d' next_buf 0 = (Inr (Err (NetstringDecode ''bad state'')), d')"
    by (subst decode_loop.simps) simp
  with b show ?thesis by (simp add: ns_decode_def decode_buf_def)
qed

theorem netstring_error_sticks_witness:
  "ns_decode False \<lparr>ns_state = None\<rparr> [49, 58, 97, 44] =
     (Inr (Err (NetstringDecode ''bad state'')), \<lparr>ns_state = None\<rparr>, [49, 58, 97, 44])"
proof -
  have "ns_decode False ns_default [120] =
      (Inr (Err (NetstringDecode ''Bad character in payload size'')), \<lparr>ns_state = None\<rparr>, [120])"
    by (simp add: ns_decode_def decode_buf_def decode_loop.simps ns_default_def vec_slice_def)
  from netstring_error_sticks [OF this] show ?thesis by simp
qed

end
