(* ===== verification/Poll_Streams.thy ===== *)
theory Poll_Streams
  imports Rust_Prelude
begin

text \<open>
  Polling.  A stream or a future is a state with a poll function; what its surroundings decide
  (whether a running future has completed, how far the clock has moved) is an argument of each
  poll.  An inner stream that an adaptor wraps is given by its answers to the polls it will
  receive: each entry of its script answers one poll, with an item or with \<open>Pending\<close>, and the
  stream ends after the script.  \<open>Fuse\<close> of the \<open>futures\<close> crate is such a stream that, once it
  has ended, is not polled again.
\<close>

section \<open>Polls and runs\<close>

datatype 'a poll = Poll_Pending | Poll_Ready 'a

datatype 's run_end = Run_Open 's | Run_Done 's | Run_Panicked panic

text \<open>Polling a stream once for each entry of a list, until it ends.\<close>

fun poll_run ::
  "('c \<Rightarrow> 's \<Rightarrow> ('a option poll \<times> 's) res) \<Rightarrow> 'c list \<Rightarrow> 's \<Rightarrow> 'a list \<times> 's run_end" where
  "poll_run poll_next [] s = ([], Run_Open s)"
| "poll_run poll_next (c # cs) s =
     (case poll_next c s of
        Inl p \<Rightarrow> ([], Run_Panicked p)
      | Inr (Poll_Pending, s') \<Rightarrow> poll_run poll_next cs s'
      | Inr (Poll_Ready None, s') \<Rightarrow> ([], Run_Done s')
      | Inr (Poll_Ready (Some v), s') \<Rightarrow>
          (case poll_run poll_next cs s' of (vs, e) \<Rightarrow> (v # vs, e)))"

text \<open>
  A stream that owes the outputs \<open>outs\<close>, in this order, and has \<open>n\<close> units of work left: a poll
  yields the first of them, or ends the stream when none is owed, or is pending; a poll in which
  the surroundings let the stream go on lowers the work.  \<open>sane\<close> are the surroundings in which
  this is promised.
\<close>

locale ordered_progress =
  fixes poll_next :: "'c \<Rightarrow> 's \<Rightarrow> ('a option poll \<times> 's) res"
    and inv :: "'s \<Rightarrow> 'a list \<Rightarrow> nat \<Rightarrow> bool"
    and sane :: "'c \<Rightarrow> bool"
    and goes_on :: "'c \<Rightarrow> bool"
  assumes poll_cases: "inv s outs n \<Longrightarrow> sane c \<Longrightarrow>
    (\<exists>s' n'. poll_next c s = Inr (Poll_Pending, s') \<and> inv s' outs n' \<and> n' + (if goes_on c then 1 else 0) \<le> n) \<or>
    (\<exists>v s' outs' n'. poll_next c s = Inr (Poll_Ready (Some v), s') \<and> outs = v # outs' \<and> inv s' outs' n' \<and> n' < n) \<or>
    (\<exists>s'. poll_next c s = Inr (Poll_Ready None, s') \<and> outs = [])"
begin

lemma run_owes:
  "inv s outs n \<Longrightarrow> list_all sane cs \<Longrightarrow> \<exists>vs. (\<exists>s' rest n'. poll_run poll_next cs s = (vs, Run_Open s') \<and> outs = vs @ rest \<and>
        inv s' rest n' \<and> n' + length (filter goes_on cs) \<le> n) \<or>
     (\<exists>s'. poll_run poll_next cs s = (vs, Run_Done s') \<and> vs = outs)"
proof (induction cs arbitrary: s outs n)
  case Nil
  then show ?case by auto
next
  case (Cons c cs)
  from Cons.prems(2) have sane: "sane c" "list_all sane cs" by simp_all
  from poll_cases [OF Cons.prems(1) sane(1)] show ?case
  proof (elim disjE exE conjE)
    fix s' n' assume p: "poll_next c s = Inr (Poll_Pending, s')" "inv s' outs n'"
      "n' + (if goes_on c then 1 else 0) \<le> n"
    with Cons.IH [OF p(2) sane(2)] show ?case by (fastforce split: if_splits)
  next
    fix v s' outs' n' assume y: "poll_next c s = Inr (Poll_Ready (Some v), s')" "outs = v # outs'"
      "inv s' outs' n'" "n' < n"
    obtain vs where "(\<exists>s'' rest n''. poll_run poll_next cs s' = (vs, Run_Open s'') \<and> outs' = vs @ rest \<and>
        inv s'' rest n'' \<and> n'' + length (filter goes_on cs) \<le> n') \<or>
      (\<exists>s''. poll_run poll_next cs s' = (vs, Run_Done s'') \<and> vs = outs')"
      using Cons.IH [OF y(3) sane(2)] by blast
    with y show ?case by (intro exI [of _ "v # vs"]) fastforce
  next
    fix s' assume "poll_next c s = Inr (Poll_Ready None, s')" "outs = []"
    then show ?case by simp
  qed
qed

lemma run_ends:
  assumes "inv s outs n" "list_all sane cs" "n < length (filter goes_on cs)"
  shows "\<exists>s'. poll_run poll_next cs s = (outs, Run_Done s')"
  using run_owes [OF assms(1,2)] assms(3) by auto

lemma run_prefix:
  assumes "inv s outs n" "list_all sane cs" "poll_run poll_next cs s = (vs, e)"
  shows "(\<exists>s'. e = Run_Done s' \<and> vs = outs) \<or> (\<exists>s' rest n'. e = Run_Open s' \<and> outs = vs @ rest \<and> inv s' rest n')"
  using run_owes [OF assms(1,2)] assms(3) by auto

end

section \<open>Loops of a future\<close>

datatype ('s, 'r) poll_step = Continue 's | Ready 'r | Panicked panic

definition continue_with :: "'s res \<Rightarrow> ('s, 'r) poll_step" where
  "continue_with r = (case r of Inl p \<Rightarrow> Panicked p | Inr s \<Rightarrow> Continue s)"

text \<open>The turns of a poll loop, with what the surroundings decide for each turn.\<close>

fun poll_loop :: "('c \<Rightarrow> 's \<Rightarrow> ('s, 'r) poll_step) \<Rightarrow> 'c list \<Rightarrow> 's \<Rightarrow> ('s, 'r) poll_step" where
  "poll_loop step [] s = Continue s"
| "poll_loop step (k # ks) s =
     (case step k s of
        Continue s' \<Rightarrow> poll_loop step ks s'
      | Ready r \<Rightarrow> Ready r
      | Panicked p \<Rightarrow> Panicked p)"

text \<open>
  A future whose turns keep an invariant and end with an acceptable result only.  The turns in
  which the surroundings let it go on lower the amount of work the invariant speaks of, so that
  after enough of them the future has returned.
\<close>

locale future_progress =
  fixes step :: "'c \<Rightarrow> 's \<Rightarrow> ('s, 'r) poll_step"
    and inv :: "'s \<Rightarrow> nat \<Rightarrow> bool"
    and good :: "'r \<Rightarrow> bool"
    and goes_on :: "'c \<Rightarrow> bool"
  assumes turn_cases: "inv s n \<Longrightarrow>
      (\<exists>s' n'. step k s = Continue s' \<and> inv s' n' \<and> n' + (if goes_on k then 1 else 0) \<le> n) \<or>
      (\<exists>r. step k s = Ready r \<and> good r)"
begin

lemma run_safe:
  "inv s n \<Longrightarrow>
     (\<exists>s' n'. poll_loop step ks s = Continue s' \<and> inv s' n' \<and> n' + length (filter goes_on ks) \<le> n) \<or>
     (\<exists>r. poll_loop step ks s = Ready r \<and> good r)"
proof (induction ks arbitrary: s n)
  case Nil
  then show ?case by auto
next
  case (Cons k ks)
  from turn_cases [OF Cons.prems, of k] show ?case
  proof (elim disjE exE conjE)
    fix s' n' assume s': "step k s = Continue s'" "inv s' n'" "n' + (if goes_on k then 1 else 0) \<le> n"
    with Cons.IH [OF s'(2)] show ?case by (fastforce split: if_splits)
  next
    fix r assume "step k s = Ready r" "good r"
    then show ?case by simp
  qed
qed

lemma run_returns:
  assumes "inv s n" "n < length (filter goes_on ks)"
  shows "\<exists>r. poll_loop step ks s = Ready r \<and> good r"
  using run_safe [OF assms(1), of ks] assms(2) by auto

lemma run_result:
  assumes "inv s n" "poll_loop step ks s = Ready r"
  shows "good r"
  using run_safe [OF assms(1), of ks] assms(2) by auto

end

text \<open>A future that goes on in every turn, with work left as long as it has not returned.\<close>

locale poll_progress =
  fixes step :: "'c \<Rightarrow> 's \<Rightarrow> ('s, 'r) poll_step"
    and inv :: "'s \<Rightarrow> nat \<Rightarrow> bool"
    and good :: "'r \<Rightarrow> bool"
  assumes work_pos: "inv s n \<Longrightarrow> 0 < n"
    and step_cases: "inv s n \<Longrightarrow>
      (\<exists>s' n'. step k s = Continue s' \<and> inv s' n' \<and> n' < n) \<or>
      (\<exists>r. step k s = Ready r \<and> good r)"

sublocale poll_progress < always: future_progress step inv good "\<lambda>_. True"
  by unfold_locales (use step_cases in \<open>fastforce simp: Suc_le_eq\<close>)

context poll_progress
begin

lemma loop_ready:
  assumes "inv s n" "n \<le> length ks"
  shows "\<exists>r. poll_loop step ks s = Ready r \<and> good r"
  using always.run_safe [OF assms(1), of ks] assms(2) by (auto dest: work_pos)

lemma loop_keeps:
  assumes "inv s n" "poll_loop step ks s = Continue s'"
  shows "\<exists>n'. inv s' n' \<and> n' + length ks \<le> n"
  using always.run_safe [OF assms(1), of ks] assms(2) by auto

end

section \<open>Fused inner streams\<close>

record 'a fuse =
  fuse_script :: "'a option list"
  fuse_done :: bool

definition fuse_of :: "'a option list \<Rightarrow> 'a fuse" where
  "fuse_of script = \<lparr>fuse_script = script, fuse_done = False\<rparr>"

definition fuse_poll_next :: "'a fuse \<Rightarrow> 'a option poll \<times> 'a fuse" where
  "fuse_poll_next f =
     (if fuse_done f then (Poll_Ready None, f)
      else
        (case fuse_script f of
           [] \<Rightarrow> (Poll_Ready None, f\<lparr>fuse_done := True\<rparr>)
         | None # script \<Rightarrow> (Poll_Pending, f\<lparr>fuse_script := script\<rparr>)
         | Some x # script \<Rightarrow> (Poll_Ready (Some x), f\<lparr>fuse_script := script\<rparr>)))"

text \<open>The items a script still has.\<close>

definition script_items :: "'a option list \<Rightarrow> 'a list" where
  "script_items script = List.map_filter id script"

lemma script_items_simps [simp]:
  "script_items [] = []"
  "script_items (None # script) = script_items script"
  "script_items (Some x # script) = x # script_items script"
  by (simp_all add: script_items_def map_filter_simps)

text \<open>What a fused stream still has, and when it is consistent.\<close>

definition fuse_ok :: "'a fuse \<Rightarrow> bool" where
  "fuse_ok f \<longleftrightarrow> (fuse_done f \<longrightarrow> fuse_script f = [])"

lemma fuse_of_ok [simp]: "fuse_ok (fuse_of script)" "fuse_script (fuse_of script) = script"
  by (simp_all add: fuse_ok_def fuse_of_def)

lemma fuse_poll_cases:
  assumes "fuse_ok f"
  obtains (item) x script where "fuse_poll_next f = (Poll_Ready (Some x), f\<lparr>fuse_script := script\<rparr>)"
      "fuse_script f = Some x # script" "\<not> fuse_done f" "fuse_ok (f\<lparr>fuse_script := script\<rparr>)"
  | (pending) script where "fuse_poll_next f = (Poll_Pending, f\<lparr>fuse_script := script\<rparr>)"
      "fuse_script f = None # script" "\<not> fuse_done f" "fuse_ok (f\<lparr>fuse_script := script\<rparr>)"
  | (ended) "fuse_poll_next f = (Poll_Ready None, f\<lparr>fuse_done := True\<rparr>)" "fuse_script f = []"
      "fuse_ok (f\<lparr>fuse_done := True\<rparr>)"
proof (cases "fuse_done f")
  case True
  then have "f\<lparr>fuse_done := True\<rparr> = f" by simp
  with True assms ended show ?thesis by (simp add: fuse_poll_next_def fuse_ok_def)
next
  case False
  show ?thesis
  proof (cases "fuse_script f")
    case Nil
    with False ended show ?thesis by (simp add: fuse_poll_next_def fuse_ok_def)
  next
    case (Cons a script)
    then show ?thesis
      using False item pending by (cases a) (simp_all add: fuse_poll_next_def fuse_ok_def)
  qed
qed

lemma fuse_poll_shrinks:
  "fuse_poll_next f = (Poll_Ready (Some x), f') \<Longrightarrow>
     length (fuse_script f) = Suc (length (fuse_script f')) \<and> fuse_done f' = fuse_done f"
  by (auto simp: fuse_poll_next_def split: if_splits list.splits option.splits)

end
