(* ===== verification/Bounded_Common.thy ===== *)
theory Bounded_Common
  imports Poll_Streams "HOL-Library.AList"
begin

text \<open>
  What the traversals of \<open>shed/bounded_traversal/src\<close> share: locations and jobs
  (\<open>common.rs\<close>), the way a poll loop ends, and the reference semantics of a traversal, which
  is the recursive evaluation of the implicit tree.

  A callback is a function from its arguments to the output of the future it returns; a job is
  a future that has been created, that is, the callback with its arguments.  Which of the
  running jobs completes next is not up to the code: the definitions take it as an argument,
  and the theorems hold for every choice.  Assertions and arithmetic are those of a build with
  debug assertions; as they are shown not to fail, the other builds behave the same.
\<close>

section \<open>Locations, jobs, results of a poll\<close>

record 'i node_location =
  node_index :: 'i
  child_index :: nat

definition node_location_new :: "'i \<Rightarrow> nat \<Rightarrow> 'i node_location" where
  "node_location_new i c = \<lparr>node_index = i, child_index = c\<rparr>"

lemma node_location_simps [simp]:
  "node_index (node_location_new i c) = i" "child_index (node_location_new i c) = c"
  "node_location_new i c = node_location_new i' c' \<longleftrightarrow> i = i' \<and> c = c'"
  by (simp_all add: node_location_new_def)

lemma node_location_collapse [simp]:
  "node_location_new (node_index l) (child_index l) = (l :: 'i node_location)"
  by (simp add: node_location_new_def)

datatype ('o, 'i) ordered_traversal = Output 'o | Recurse nat 'i

text \<open>\<open>Either2\<close> on the two kinds of futures, and what polling it to completion gives.\<close>

datatype ('i, 'c, 'o) job_work = Unfold 'i | Fold 'c "'o list"

fun job_output ::
  "('i \<Rightarrow> 'u) \<Rightarrow> ('c \<Rightarrow> 'o list \<Rightarrow> 'f) \<Rightarrow> ('i, 'c, 'o) job_work \<Rightarrow> 'u + 'f" where
  "job_output unfold_f fold_f (Unfold value) = Inl (unfold_f value)"
| "job_output unfold_f fold_f (Fold context children) = Inr (fold_f context children)"

section \<open>Association lists\<close>

lemma alist_split:
  assumes "distinct (map fst E)" "map_of E k = Some v"
  obtains xs ys where "E = xs @ (k, v) # ys" "k \<notin> fst ` set xs" "k \<notin> fst ` set ys"
    "\<And>v'. AList.update k v' E = xs @ (k, v') # ys" "AList.delete k E = xs @ ys"
proof -
  from map_of_SomeD [OF assms(2)] obtain xs ys where E: "E = xs @ (k, v) # ys"
    by (auto simp: in_set_conv_decomp)
  with assms(1) have k: "k \<notin> fst ` set xs" "k \<notin> fst ` set ys" by auto
  have "AList.update k v' (xs @ (k, v) # ys) = xs @ (k, v') # ys" for v'
    using k(1) by (induction xs) auto
  moreover have "AList.delete k (xs @ (k, v) # ys) = xs @ ys"
  proof -
    have "filter (\<lambda>(k', _). k \<noteq> k') zs = zs" if "k \<notin> fst ` set zs" for zs :: "('a \<times> 'b) list"
      using that by (induction zs) auto
    with k show ?thesis by (simp add: AList.delete_eq)
  qed
  ultimately show thesis using E k that by simp
qed

lemma alist_append: "k \<notin> fst ` set E \<Longrightarrow> AList.update k v E = E @ [(k, v)]"
  by (induction E) auto

lemma alist_sum_update:
  fixes f :: "'k \<times> 'v \<Rightarrow> 'a multiset"
  assumes "distinct (map fst E)"
  shows "map_of E k = Some v \<Longrightarrow>
      sum_mset (image_mset f (mset (AList.update k v' E))) + f (k, v) = sum_mset (image_mset f (mset E)) + f (k, v')"
    "map_of E k = None \<Longrightarrow>
      sum_mset (image_mset f (mset (AList.update k v' E))) = sum_mset (image_mset f (mset E)) + f (k, v')"
    "map_of E k = Some v \<Longrightarrow>
      sum_mset (image_mset f (mset (AList.delete k E))) + f (k, v) = sum_mset (image_mset f (mset E))"
proof -
  show "map_of E k = Some v \<Longrightarrow>
      sum_mset (image_mset f (mset (AList.update k v' E))) + f (k, v) = sum_mset (image_mset f (mset E)) + f (k, v')"
    using alist_split [OF assms, of k v] by (elim alist_split [OF assms]) (simp add: ac_simps)
  show "map_of E k = None \<Longrightarrow>
      sum_mset (image_mset f (mset (AList.update k v' E))) = sum_mset (image_mset f (mset E)) + f (k, v')"
    by (simp add: map_of_eq_None_iff alist_append ac_simps)
  show "map_of E k = Some v \<Longrightarrow>
      sum_mset (image_mset f (mset (AList.delete k E))) + f (k, v) = sum_mset (image_mset f (mset E))"
    by (elim alist_split [OF assms]) (simp add: ac_simps)
qed

section \<open>The reference: recursive evaluation\<close>

text \<open>The implicit tree of an input, as far as it could be unfolded.\<close>

datatype ('c, 'e) xtree = XFail 'e | XNode 'c "('c, 'e) xtree list"

inductive unfolds_to ::
  "('i \<Rightarrow> ('c \<times> 'i list, 'e) result) \<Rightarrow> 'i \<Rightarrow> ('c, 'e) xtree \<Rightarrow> bool"
  for unfold_f :: "'i \<Rightarrow> ('c \<times> 'i list, 'e) result" where
  unfolds_fail: "unfold_f i = Err e \<Longrightarrow> unfolds_to unfold_f i (XFail e)"
| unfolds_node: "unfold_f i = Ok (c, is) \<Longrightarrow> list_all2 (unfolds_to unfold_f) is ts \<Longrightarrow>
    unfolds_to unfold_f i (XNode c ts)"

inductive_simps unfolds_to_simps:
  "unfolds_to unfold_f i (XFail e)"
  "unfolds_to unfold_f i (XNode c ts)"

inductive_cases unfolds_toE: "unfolds_to unfold_f i t"

fun all_some :: "'a option list \<Rightarrow> 'a list option" where
  "all_some [] = Some []"
| "all_some (x # xs) =
     (case x of None \<Rightarrow> None | Some y \<Rightarrow> map_option ((#) y) (all_some xs))"

fun tree_value :: "('c \<Rightarrow> 'o list \<Rightarrow> ('o, 'e) result) \<Rightarrow> ('c, 'e) xtree \<Rightarrow> 'o option" where
  "tree_value fold_f (XFail e) = None"
| "tree_value fold_f (XNode c ts) =
     (case all_some (map (tree_value fold_f) ts) of
        None \<Rightarrow> None
      | Some vs \<Rightarrow> (case fold_f c vs of Ok v \<Rightarrow> Some v | Err e \<Rightarrow> None))"

text \<open>The errors that some order of evaluation can meet first.\<close>

fun tree_errors :: "('c \<Rightarrow> 'o list \<Rightarrow> ('o, 'e) result) \<Rightarrow> ('c, 'e) xtree \<Rightarrow> 'e set" where
  "tree_errors fold_f (XFail e) = {e}"
| "tree_errors fold_f (XNode c ts) =
     (\<Union>t \<in> set ts. tree_errors fold_f t) \<union>
     (case all_some (map (tree_value fold_f) ts) of
        None \<Rightarrow> {}
      | Some vs \<Rightarrow> (case fold_f c vs of Ok v \<Rightarrow> {} | Err e \<Rightarrow> {e}))"

fun tree_size :: "('c, 'e) xtree \<Rightarrow> nat" where
  "tree_size (XFail e) = 1"
| "tree_size (XNode c ts) = Suc (sum_list (map tree_size ts))"

lemma all_some_Some: "all_some xs = Some ys \<longleftrightarrow> xs = map Some ys"
  by (induction xs arbitrary: ys) (auto split: option.splits)

lemma all_some_None: "all_some xs = None \<longleftrightarrow> None \<in> set xs"
  by (induction xs) (auto split: option.splits)

lemma map_filter_id: "None \<notin> set xs \<Longrightarrow> map Some (List.map_filter id xs) = xs"
proof (induction xs)
  case (Cons x xs)
  then show ?case by (cases x) (simp_all add: map_filter_simps)
qed (simp add: map_filter_simps)

lemma tree_errors_child: "t \<in> set ts \<Longrightarrow> tree_errors fold_f t \<subseteq> tree_errors fold_f (XNode c ts)"
  by auto

lemma tree_size_pos: "0 < tree_size t"
  by (cases t) simp_all

text \<open>A tree has a value exactly when no order of evaluation meets an error.\<close>

lemma tree_value_errors: "tree_value fold_f t = None \<longleftrightarrow> tree_errors fold_f t \<noteq> {}"
proof (induction t)
  case (XFail e)
  then show ?case by simp
next
  case (XNode c ts)
  show ?case
  proof (cases "all_some (map (tree_value fold_f) ts)")
    case None
    then obtain t where "t \<in> set ts" "tree_value fold_f t = None" by (auto simp: all_some_None)
    with None XNode show ?thesis by auto
  next
    case (Some vs)
    then have "\<forall>t \<in> set ts. tree_value fold_f t \<noteq> None"
      by (metis all_some_None image_eqI list.set_map option.distinct(1))
    with XNode have "(\<Union>t \<in> set ts. tree_errors fold_f t) = {}" by auto
    with Some show ?thesis by (auto split: result.splits)
  qed
qed

text \<open>The result of a traversal is right for a tree.\<close>

definition traversal_result ::
  "('c \<Rightarrow> 'o list \<Rightarrow> ('o, 'e) result) \<Rightarrow> ('c, 'e) xtree \<Rightarrow> ('o, 'e) result \<Rightarrow> bool" where
  "traversal_result fold_f t r \<longleftrightarrow>
     (case tree_value fold_f t of
        Some v \<Rightarrow> r = Ok v
      | None \<Rightarrow> (\<exists>e \<in> tree_errors fold_f t. r = Err e))"

lemma traversal_result_Err: "e \<in> tree_errors fold_f t \<Longrightarrow> traversal_result fold_f t (Err e)"
  using tree_value_errors [of fold_f t] by (auto simp: traversal_result_def split: option.splits)

lemma traversal_result_Ok: "tree_value fold_f t = Some v \<Longrightarrow> traversal_result fold_f t (Ok v)"
  by (simp add: traversal_result_def)

end
