(* ===== verification/Bounded_Tree.thy ===== *)
theory Bounded_Tree
  imports Bounded_Common
begin

text \<open>
  \<open>bounded_traversal\<close> (\<open>shed/bounded_traversal/src/tree.rs\<close>): the traversal of an implicit
  tree with a backward pass, at most \<open>scheduled_max\<close> jobs at a time.  A node whose children
  are not all folded sits in the execution tree, under its index, with the results it already
  has; location \<open>(0, 0)\<close> stands for the root.  The \<open>HashMap\<close> of nodes is an association list
  with distinct keys, whose order nothing observes.
\<close>

section \<open>State and operations\<close>

type_synonym location = "nat node_location"

record ('c, 'o) tree_node =
  parent :: location
  context_of :: 'c
  children :: "'o option list"
  children_left :: nat

type_synonym ('i, 'c, 'o) tree_job = "location \<times> ('i, 'c, 'o) job_work"

record ('i, 'c, 'o) traversal =
  scheduled_max :: nat
  scheduled :: "('i, 'c, 'o) tree_job list"
  unscheduled :: "('i, 'c, 'o) tree_job list"
  execution_tree :: "(nat \<times> ('c, 'o) tree_node) list"
  execution_tree_index :: nat

definition bt_enqueue_unfold :: "location \<Rightarrow> 'i \<Rightarrow> ('i, 'c, 'o) traversal \<Rightarrow> ('i, 'c, 'o) traversal" where
  "bt_enqueue_unfold loc v this = this\<lparr>unscheduled := (loc, Unfold v) # unscheduled this\<rparr>"

definition bt_enqueue_fold ::
  "location \<Rightarrow> 'c \<Rightarrow> 'o list \<Rightarrow> ('i, 'c, 'o) traversal \<Rightarrow> ('i, 'c, 'o) traversal" where
  "bt_enqueue_fold loc ctx vs this = this\<lparr>unscheduled := (loc, Fold ctx vs) # unscheduled this\<rparr>"

definition bt_new :: "nat \<Rightarrow> 'i \<Rightarrow> ('i, 'c, 'o) traversal" where
  "bt_new max_scheduled init =
     bt_enqueue_unfold (node_location_new 0 0) init
       \<lparr>scheduled_max = max_scheduled, scheduled = [], unscheduled = [],
        execution_tree = [], execution_tree_index = 0\<rparr>"

text \<open>\<open>children.into_iter().fold(0, ..)\<close>: enqueue each child, count them.\<close>

fun bt_enqueue_children ::
  "nat \<Rightarrow> nat \<Rightarrow> 'i list \<Rightarrow> ('i, 'c, 'o) traversal \<Rightarrow> nat \<times> ('i, 'c, 'o) traversal" where
  "bt_enqueue_children idx child_idx [] this = (child_idx, this)"
| "bt_enqueue_children idx child_idx (child # rest) this =
     bt_enqueue_children idx (child_idx + 1) rest
       (bt_enqueue_unfold (node_location_new idx child_idx) child this)"

definition bt_process_unfold ::
  "location \<Rightarrow> 'c \<times> 'i list \<Rightarrow> ('i, 'c, 'o) traversal \<Rightarrow> ('i, 'c, 'o) traversal" where
  "bt_process_unfold loc unfolded this =
     (let (ctx, childs) = unfolded;
          this = this\<lparr>execution_tree_index := execution_tree_index this + 1\<rparr>;
          idx = execution_tree_index this;
          (count, this) = bt_enqueue_children idx 0 childs this
      in if count \<noteq> 0 then
           this\<lparr>execution_tree :=
             AList.update idx \<lparr>parent = loc, context_of = ctx, children = replicate count None,
                               children_left = count\<rparr> (execution_tree this)\<rparr>
         else bt_enqueue_fold loc ctx [] this)"

definition bt_process_fold ::
  "location \<Rightarrow> 'o \<Rightarrow> ('i, 'c, 'o) traversal \<Rightarrow> ('i, 'c, 'o) traversal res" where
  "bt_process_fold loc v this =
     (case map_of (execution_tree this) (node_index loc) of
        None \<Rightarrow> Inl (Panic ''fold referenced invalid node'')
      | Some node \<Rightarrow>
          res_bind (vec_index (children node) (child_index loc)) (\<lambda>old.
          if old \<noteq> None then Inl (Panic ''assertion failed: children[child_index].is_none()'')
          else res_bind (vec_write (children node) (child_index loc) (Some v)) (\<lambda>childs.
          if children_left node = 0 then Inl (Panic ''attempt to subtract with overflow'')
          else
            (let node = node\<lparr>children := childs, children_left := children_left node - 1\<rparr>;
                 this = this\<lparr>execution_tree :=
                   AList.update (node_index loc) node (execution_tree this)\<rparr>
             in if children_left node = 0 then
                  (case map_of (execution_tree this) (node_index loc) of
                     None \<Rightarrow> Inl (Panic ''fold referenced invalid node'')
                   | Some node \<Rightarrow>
                       Inr (bt_enqueue_fold (parent node) (context_of node)
                              (List.map_filter id (children node))
                              (this\<lparr>execution_tree :=
                                 AList.delete (node_index loc) (execution_tree this)\<rparr>)))
                else Inr this))))"

text \<open>Scheduling: as many jobs as fit, from the front of the queue.\<close>

definition bt_schedule :: "('i, 'c, 'o) traversal \<Rightarrow> ('i, 'c, 'o) traversal res" where
  "bt_schedule this =
     (if scheduled_max this < length (scheduled this)
      then Inl (Panic ''attempt to subtract with overflow'')
      else
        (let n = min (length (unscheduled this)) (scheduled_max this - length (scheduled this))
         in Inr (this\<lparr>scheduled := scheduled this @ take n (unscheduled this),
                      unscheduled := drop n (unscheduled this)\<rparr>)))"

text \<open>
  One turn of the loop of \<open>poll\<close> in which the \<open>k\<close>-th of the running jobs completes; the count
  wraps around, so that every \<open>k\<close> is a choice.  With no running job \<open>poll_next\<close> returns
  \<open>None\<close> and the loop goes on.
\<close>

definition bt_turn ::
  "('i \<Rightarrow> ('c \<times> 'i list, 'e) result) \<Rightarrow> ('c \<Rightarrow> 'o list \<Rightarrow> ('o, 'e) result) \<Rightarrow> nat \<Rightarrow>
     ('i, 'c, 'o) traversal \<Rightarrow> (('i, 'c, 'o) traversal, ('o, 'e) result) poll_step" where
  "bt_turn unfold_f fold_f k this =
     (case bt_schedule this of
        Inl p \<Rightarrow> Panicked p
      | Inr this \<Rightarrow>
          if scheduled this = [] then Continue this
          else
            (let i = k mod length (scheduled this);
                 job = scheduled this ! i;
                 this = this\<lparr>scheduled := take i (scheduled this) @ drop (Suc i) (scheduled this)\<rparr>
             in case job_output unfold_f fold_f (snd job) of
                  Inl (Err e) \<Rightarrow> Ready (Err e)
                | Inl (Ok unfolded) \<Rightarrow> Continue (bt_process_unfold (fst job) unfolded this)
                | Inr r \<Rightarrow>
                    if node_index (fst job) = 0 then
                      if execution_tree this \<noteq> []
                      then Panicked (Panic ''assertion failed: execution_tree.is_empty()'')
                      else if unscheduled this \<noteq> []
                      then Panicked (Panic ''assertion failed: unscheduled.is_empty()'')
                      else if scheduled this \<noteq> []
                      then Panicked (Panic ''assertion failed: scheduled.is_empty()'')
                      else Ready r
                    else
                      (case r of
                         Err e \<Rightarrow> Ready (Err e)
                       | Ok v \<Rightarrow> continue_with (bt_process_fold (fst job) v this))))"

definition bounded_traversal ::
  "nat \<Rightarrow> 'i \<Rightarrow> ('i \<Rightarrow> ('c \<times> 'i list, 'e) result) \<Rightarrow> ('c \<Rightarrow> 'o list \<Rightarrow> ('o, 'e) result) \<Rightarrow>
     nat list \<Rightarrow> (('i, 'c, 'o) traversal, ('o, 'e) result) poll_step" where
  "bounded_traversal max_scheduled init unfold_f fold_f choices =
     poll_loop (bt_turn unfold_f fold_f) choices (bt_new max_scheduled init)"

section \<open>Holes and occupants\<close>

text \<open>
  A hole is a location that still waits for a result: the root, or a child of a node of the
  execution tree that has none yet.  Jobs and nodes occupy holes, and each hole is occupied
  exactly once.
\<close>

abbreviation loc :: "nat \<Rightarrow> nat \<Rightarrow> location" where
  "loc \<equiv> node_location_new"

definition node_holes :: "nat \<Rightarrow> ('c, 'o) tree_node \<Rightarrow> location list" where
  "node_holes n nd = map (loc n) (filter (\<lambda>c. children nd ! c = None) [0..<length (children nd)])"

definition tree_holes :: "(nat \<times> ('c, 'o) tree_node) list \<Rightarrow> location multiset" where
  "tree_holes E = add_mset (loc 0 0) (\<Sum>(n, nd) \<in># mset E. mset (node_holes n nd))"

definition occupants ::
  "('i, 'c, 'o) tree_job multiset \<Rightarrow> (nat \<times> ('c, 'o) tree_node) list \<Rightarrow> location multiset" where
  "occupants J E = image_mset fst J + image_mset (\<lambda>(n, nd). parent nd) (mset E)"

lemma set_node_holes:
  "l \<in> set (node_holes n nd) \<longleftrightarrow>
     node_index l = n \<and> child_index l < length (children nd) \<and> children nd ! child_index l = None"
  unfolding node_holes_def by (cases l) (auto simp: image_iff node_location_new_def)

lemma distinct_node_holes: "distinct (node_holes n nd)"
  by (auto simp: node_holes_def distinct_map inj_on_def)

lemma in_tree_holes:
  "l \<in># tree_holes E \<longleftrightarrow> l = loc 0 0 \<or>
     (\<exists>nd. (node_index l, nd) \<in> set E \<and> child_index l < length (children nd) \<and>
        children nd ! child_index l = None)"
  by (fastforce simp: tree_holes_def set_node_holes)

section \<open>The invariant\<close>

definition job_ok ::
  "('i \<Rightarrow> ('c \<times> 'i list, 'e) result) \<Rightarrow> ('c \<Rightarrow> 'o list \<Rightarrow> ('o, 'e) result) \<Rightarrow>
     ('c, 'e) xtree \<Rightarrow> ('i, 'c, 'o) job_work \<Rightarrow> bool" where
  "job_ok U F t w =
     (case w of
        Unfold i \<Rightarrow> unfolds_to U i t
      | Fold c vs \<Rightarrow> (\<exists>ts. t = XNode c ts \<and> map (tree_value F) ts = map Some vs))"

definition node_ok ::
  "('c \<Rightarrow> 'o list \<Rightarrow> ('o, 'e) result) \<Rightarrow> (location \<Rightarrow> ('c, 'e) xtree) \<Rightarrow>
     nat \<Rightarrow> ('c, 'o) tree_node \<Rightarrow> bool" where
  "node_ok F G n nd \<longleftrightarrow>
     node_index (parent nd) < n \<and> children_left nd = length (node_holes n nd) \<and> children_left nd \<noteq> 0 \<and>
     (\<exists>ts. G (parent nd) = XNode (context_of nd) ts \<and> length (children nd) = length ts \<and>
        (\<forall>c < length ts. (case children nd ! c of
           Some v \<Rightarrow> tree_value F (ts ! c) = Some v
         | None \<Rightarrow> G (loc n c) = ts ! c)))"

text \<open>\<open>G\<close> gives the tree each hole stands for, \<open>R\<close> is the whole tree.\<close>

definition tinv ::
  "('i \<Rightarrow> ('c \<times> 'i list, 'e) result) \<Rightarrow> ('c \<Rightarrow> 'o list \<Rightarrow> ('o, 'e) result) \<Rightarrow> ('c, 'e) xtree \<Rightarrow>
     (location \<Rightarrow> ('c, 'e) xtree) \<Rightarrow> ('i, 'c, 'o) tree_job multiset \<Rightarrow>
     (nat \<times> ('c, 'o) tree_node) list \<Rightarrow> nat \<Rightarrow> bool" where
  "tinv U F R G J E idx \<longleftrightarrow>
     distinct (map fst E) \<and> (\<forall>(n, nd) \<in> set E. 0 < n \<and> n \<le> idx \<and> node_ok F G n nd) \<and>
     tree_holes E = occupants J E \<and> (\<forall>(l, w) \<in># J. job_ok U F (G l) w) \<and>
     G (loc 0 0) = R \<and> (\<forall>l \<in># tree_holes E. tree_errors F (G l) \<subseteq> tree_errors F R)"

definition job_weight :: "('c, 'e) xtree \<Rightarrow> ('i, 'c, 'o) job_work \<Rightarrow> nat" where
  "job_weight t w = (case w of Unfold i \<Rightarrow> 2 * tree_size t | Fold c vs \<Rightarrow> 1)"

definition tree_work ::
  "(location \<Rightarrow> ('c, 'e) xtree) \<Rightarrow> ('i, 'c, 'o) tree_job multiset \<Rightarrow>
     (nat \<times> ('c, 'o) tree_node) list \<Rightarrow> nat" where
  "tree_work G J E = (\<Sum>(l, w) \<in># J. job_weight (G l) w) + length E"

lemma job_weight_simps [simp]:
  "job_weight t (Unfold i) = 2 * tree_size t" "job_weight t (Fold c vs) = 1"
  by (simp_all add: job_weight_def)

lemmas tree_defs = tinv_def occupants_def tree_work_def

lemma hole_bounded:
  assumes "tinv U F R G J E idx"
  shows "l \<in># tree_holes E \<Longrightarrow> node_index l \<le> idx"
    "(l, w) \<in># J \<Longrightarrow> l \<in># tree_holes E"
    "(n, nd) \<in> set E \<Longrightarrow> parent nd \<in># tree_holes E"
proof -
  have E: "\<And>n nd. (n, nd) \<in> set E \<Longrightarrow> n \<le> idx" and eq: "tree_holes E = occupants J E"
    using assms by (auto simp: tinv_def)
  show "l \<in># tree_holes E \<Longrightarrow> node_index l \<le> idx" using E by (auto simp: in_tree_holes)
  show "(l, w) \<in># J \<Longrightarrow> l \<in># tree_holes E" unfolding eq by (force simp: occupants_def)
  show "(n, nd) \<in> set E \<Longrightarrow> parent nd \<in># tree_holes E" unfolding eq by (force simp: occupants_def)
qed

lemma node_hole: "(n, nd) \<in> set E \<Longrightarrow> l \<in> set (node_holes n nd) \<Longrightarrow> l \<in># tree_holes E"
  by (auto simp: in_tree_holes set_node_holes)

lemma root_hole_only:
  "tinv U F R G J E idx \<Longrightarrow> l \<in># tree_holes E \<Longrightarrow> node_index l = 0 \<Longrightarrow> l = loc 0 0"
proof -
  assume "tinv U F R G J E idx"
  then have "\<And>nd. (0, nd) \<notin> set E" by (auto simp: tinv_def)
  then show "l \<in># tree_holes E \<Longrightarrow> node_index l = 0 \<Longrightarrow> l = loc 0 0" by (auto simp: in_tree_holes)
qed

lemma count_root:
  assumes "tinv U F R G J E idx"
  shows "count (tree_holes E) (loc 0 0) = 1"
proof -
  have "loc 0 0 \<notin># (\<Sum>(n, nd) \<in># mset E. mset (node_holes n nd))"
    using assms by (force simp: tinv_def set_node_holes)
  then have "count (\<Sum>(n, nd) \<in># mset E. mset (node_holes n nd)) (loc 0 0) = 0"
    unfolding not_in_iff .
  then show ?thesis by (simp add: tree_holes_def)
qed

text \<open>Parents have smaller indices, so the nodes hang from the root.\<close>

lemma root_job_alone:
  assumes inv: "tinv U F R G (add_mset (loc 0 0, w) J) E idx"
  shows "E = [] \<and> J = {#}"
proof -
  have "E = []"
  proof (rule ccontr)
    assume "E \<noteq> []"
    let ?n = "Min (fst ` set E)"
    have "?n \<in> fst ` set E" using \<open>E \<noteq> []\<close> by (intro Min_in) auto
    then obtain nd where nd: "(?n, nd) \<in> set E" by force
    have less: "node_index (parent nd) < ?n" using inv nd by (auto simp: tinv_def node_ok_def)
    have "node_index (parent nd) \<notin> fst ` set E"
      using less by (metis List.finite_set Min_le finite_imageI not_le)
    moreover have hole: "parent nd \<in># tree_holes E" using hole_bounded(3) [OF inv nd] .
    ultimately have root: "parent nd = loc 0 0" by (force simp: in_tree_holes)
    have "loc 0 0 \<in># image_mset (\<lambda>(n, nd). parent nd) (mset E)" using nd root by force
    then have "0 < count (image_mset (\<lambda>(n, nd). parent nd) (mset E)) (loc 0 0)"
      by (simp only: count_greater_zero_iff)
    then obtain c where "count (image_mset (\<lambda>(n, nd). parent nd) (mset E)) (loc 0 0) = Suc c"
      using gr0_implies_Suc by blast
    then have "count (occupants (add_mset (loc 0 0, w) J) E) (loc 0 0) \<ge> 2"
      by (simp add: occupants_def)
    moreover have "tree_holes E = occupants (add_mset (loc 0 0, w) J) E" using inv by (simp add: tinv_def)
    ultimately show False using count_root [OF inv] by simp
  qed
  moreover from this have "J = {#}" using inv by (simp add: tree_defs tree_holes_def)
  ultimately show ?thesis by simp
qed

lemma jobs_remain:
  assumes inv: "tinv U F R G J E idx"
  shows "J \<noteq> {#}"
proof
  assume J: "J = {#}"
  have eq: "tree_holes E = image_mset (\<lambda>(n, nd). parent nd) (mset E)"
    using inv J by (simp add: tree_defs)
  then have ne: "E \<noteq> []" by (auto simp: tree_holes_def)
  let ?n = "Max (fst ` set E)"
  have "?n \<in> fst ` set E" using ne by (intro Max_in) auto
  then obtain nd where nd: "(?n, nd) \<in> set E" by force
  then have "length (node_holes ?n nd) \<noteq> 0" using inv by (auto simp: tinv_def node_ok_def)
  then obtain l where "l \<in> set (node_holes ?n nd)" by (cases "node_holes ?n nd") auto
  then have l: "l \<in># tree_holes E" "node_index l = ?n"
    using node_hole [OF nd] by (simp_all add: set_node_holes)
  then obtain m md where m: "(m, md) \<in> set E" "l = parent md" using eq by auto
  then have "?n < m" using inv l(2) by (auto simp: tinv_def node_ok_def)
  moreover have "m \<le> ?n" using m(1) by (intro Max_ge) force+
  ultimately show False by simp
qed

section \<open>The invariant is kept\<close>

text \<open>What a turn leaves as it was: jobs and nodes elsewhere, under a ghost that agrees there.\<close>

lemma node_ok_cong:
  assumes "node_ok F G n nd" "G' (parent nd) = G (parent nd)" "\<And>c. G' (loc n c) = G (loc n c)"
  shows "node_ok F G' n nd"
  using assms(1) unfolding node_ok_def assms(2,3) .

definition child_jobs :: "nat \<Rightarrow> 'i list \<Rightarrow> ('i, 'c, 'o) tree_job list" where
  "child_jobs n is = map (\<lambda>c. (loc n c, Unfold (is ! c))) [0..<length is]"

lemma sum_child_weights:
  "length ts = length is \<Longrightarrow>
     (\<Sum>(l, w) \<in># mset (child_jobs n is). job_weight (ts ! child_index l) w) = 2 * sum_list (map tree_size ts)"
proof -
  assume len: "length ts = length is"
  have "(\<Sum>(l, w) \<in># mset (child_jobs n is). job_weight (ts ! child_index l) w) =
      sum_list (map (\<lambda>c. 2 * tree_size (ts ! c)) [0..<length ts])"
    unfolding mset_map [symmetric] sum_mset_sum_list child_jobs_def map_map len
    by (rule arg_cong [of _ _ sum_list]) (simp add: job_weight_def)
  also have "\<dots> = 2 * sum_list (map tree_size ts)"
    using sum_list_const_mult [of 2 "\<lambda>c. tree_size (ts ! c)" "[0..<length ts]"]
    by (metis (no_types, lifting) map_nth map_map comp_def map_cong)
  finally show ?thesis .
qed

lemma unfold_node_kept:
  fixes J :: "('i, 'c, 'o) tree_job multiset"
  assumes inv: "tinv U F R G (add_mset (l, Unfold i) J) E idx" and u: "U i = Ok (c, is)" "is \<noteq> []"
  defines "nd \<equiv> \<lparr>parent = l, context_of = c, children = replicate (length is) None,
                  children_left = length is\<rparr>"
  shows "\<exists>G'. tinv U F R G' (J + mset (child_jobs (Suc idx) is)) (E @ [(Suc idx, nd)]) (Suc idx) \<and>
    tree_work G' (J + mset (child_jobs (Suc idx) is)) (E @ [(Suc idx, nd)]) <
      tree_work G (add_mset (l, Unfold i) J) E"
proof -
  have "unfolds_to U i (G l)" using inv by (auto simp: tinv_def job_ok_def)
  with u obtain ts where ts: "G l = XNode c ts" "list_all2 (unfolds_to U) is ts"
    by (auto elim: unfolds_toE)
  then have len: "length ts = length is" by (simp add: list_all2_lengthD)
  define G' where "G' = (\<lambda>k. if node_index k = Suc idx then ts ! child_index k else G k)"
  have old: "G' k = G k" if "k \<in># tree_holes E" for k
    using hole_bounded(1) [OF inv that] by (simp add: G'_def)
  have keys: "\<And>n md. (n, md) \<in> set E \<Longrightarrow> 0 < n \<and> n \<le> idx \<and> node_ok F G n md"
    using inv by (auto simp: tinv_def)
  have l: "l \<in># tree_holes E" using hole_bounded(2) [OF inv, of l "Unfold i"] by simp
  have nh: "node_holes (Suc idx) nd = map (loc (Suc idx)) [0..<length is]"
    by (simp add: node_holes_def nd_def)
  have nodes: "node_ok F G' n md" if "(n, md) \<in> set E" for n md
    using keys [OF that] old [OF hole_bounded(3) [OF inv that]]
    by (intro node_ok_cong [of F G n md G']) (auto simp: G'_def)
  have new: "node_ok F G' (Suc idx) nd"
    unfolding node_ok_def nh using u(2) ts(1) len old [OF l] hole_bounded(1) [OF inv l]
    by (auto simp: nd_def G'_def)
  have holes: "tree_holes (E @ [(Suc idx, nd)]) = tree_holes E + mset (map (loc (Suc idx)) [0..<length is])"
    by (simp add: tree_holes_def nh)
  have childs: "job_ok U F (G' k) w" if "(k, w) \<in> set (child_jobs (Suc idx) is)" for k w
    using that ts(2) by (auto simp: child_jobs_def G'_def job_ok_def list_all2_conv_all_nth)
  have same: "G' k = G k" if "(k, w) \<in># J" for k w
    using that old [OF hole_bounded(2) [OF inv, of k w]] by simp
  have jobs: "job_ok U F (G' k) w" if "(k, w) \<in># J" for k w
    using that inv same [OF that] by (auto simp: tinv_def)
  have errs: "tree_errors F (G' k) \<subseteq> tree_errors F R" if k: "k \<in># tree_holes (E @ [(Suc idx, nd)])" for k
  proof -
    consider "k \<in># tree_holes E" | m where "k = loc (Suc idx) m" "m < length is"
      using k unfolding holes by auto
    then show ?thesis
    proof cases
      case 1
      with old inv show ?thesis by (auto simp: tinv_def)
    next
      case 2
      have "tree_errors F (ts ! m) \<subseteq> tree_errors F (G l)"
        using tree_errors_child [OF nth_mem, of m ts F c] 2 len ts(1) by simp
      also have "\<dots> \<subseteq> tree_errors F R" using inv l by (simp add: tinv_def)
      finally show ?thesis using 2 by (simp add: G'_def)
    qed
  qed
  have eq: "tree_holes E = occupants (add_mset (l, Unfold i) J) E" using inv by (simp add: tinv_def)
  have "tinv U F R G' (J + mset (child_jobs (Suc idx) is)) (E @ [(Suc idx, nd)]) (Suc idx)"
    unfolding tinv_def
  proof (intro conjI)
    show "distinct (map fst (E @ [(Suc idx, nd)]))" using inv keys by (force simp: tinv_def)
    show "\<forall>(n, md) \<in> set (E @ [(Suc idx, nd)]). 0 < n \<and> n \<le> Suc idx \<and> node_ok F G' n md"
      using keys nodes new by force
    show "tree_holes (E @ [(Suc idx, nd)]) = occupants (J + mset (child_jobs (Suc idx) is)) (E @ [(Suc idx, nd)])"
      unfolding holes eq by (simp add: occupants_def nd_def child_jobs_def comp_def image_mset.compositionality)
    show "\<forall>(l, w) \<in># J + mset (child_jobs (Suc idx) is). job_ok U F (G' l) w" using jobs childs by auto
    show "G' (loc 0 0) = R" using inv by (simp add: tinv_def G'_def)
    show "\<forall>k \<in># tree_holes (E @ [(Suc idx, nd)]). tree_errors F (G' k) \<subseteq> tree_errors F R" using errs by blast
  qed
  moreover have "tree_work G' (J + mset (child_jobs (Suc idx) is)) (E @ [(Suc idx, nd)]) <
      tree_work G (add_mset (l, Unfold i) J) E"
  proof -
    have "(\<Sum>(k, w) \<in># J. job_weight (G' k) w) = (\<Sum>(k, w) \<in># J. job_weight (G k) w)"
      by (intro arg_cong [of _ _ sum_mset] image_mset_cong)
        (use same in \<open>auto split: prod.splits\<close>)
    moreover have "(\<Sum>(k, w) \<in># mset (child_jobs (Suc idx) is :: ('i, 'c, 'o) tree_job list). job_weight (G' k) w) =
        (\<Sum>(k, w) \<in># mset (child_jobs (Suc idx) is :: ('i, 'c, 'o) tree_job list). job_weight (ts ! child_index k) w)"
      by (intro arg_cong [of _ _ sum_mset] image_mset_cong) (auto simp: child_jobs_def G'_def)
    moreover have "(\<Sum>(k, w) \<in># mset (child_jobs (Suc idx) is :: ('i, 'c, 'o) tree_job list). job_weight (ts ! child_index k) w) =
        2 * sum_list (map tree_size ts)"
      using len by (rule sum_child_weights)
    ultimately show ?thesis using ts(1) by (simp add: tree_work_def)
  qed
  ultimately show ?thesis by blast
qed

lemma unfold_leaf_kept:
  assumes inv: "tinv U F R G (add_mset (l, Unfold i) J) E idx" and u: "U i = Ok (c, [])"
  shows "tinv U F R G (add_mset (l, Fold c []) J) E (Suc idx) \<and>
    tree_work G (add_mset (l, Fold c []) J) E < tree_work G (add_mset (l, Unfold i) J) E"
proof -
  have "unfolds_to U i (G l)" using inv by (auto simp: tinv_def job_ok_def)
  with u have "G l = XNode c []" by (auto elim: unfolds_toE)
  with inv show ?thesis
    by (fastforce simp: tinv_def job_ok_def occupants_def tree_work_def job_weight_def)
qed

text \<open>A fold below the root fills its hole.\<close>

lemma fold_target:
  assumes inv: "tinv U F R G (add_mset (l, Fold c vs) J) E idx" and n0: "node_index l \<noteq> 0"
  obtains nd where "map_of E (node_index l) = Some nd" "(node_index l, nd) \<in> set E"
    "child_index l < length (children nd)" "children nd ! child_index l = None"
    "l \<in> set (node_holes (node_index l) nd)" "node_ok F G (node_index l) nd"
proof -
  have "l \<in># tree_holes E" using hole_bounded(2) [OF inv, of l "Fold c vs"] by simp
  with n0 obtain nd where nd: "(node_index l, nd) \<in> set E" "child_index l < length (children nd)"
    "children nd ! child_index l = None" by (auto simp: in_tree_holes)
  moreover have "map_of E (node_index l) = Some nd" "node_ok F G (node_index l) nd"
    using inv nd(1) by (auto simp: tinv_def)
  ultimately show thesis using that by (simp add: set_node_holes)
qed

lemma fold_value:
  assumes "tinv U F R G (add_mset (l, Fold c vs) J) E idx" "F c vs = r"
  shows "case r of Ok v \<Rightarrow> tree_value F (G l) = Some v | Err e \<Rightarrow> e \<in> tree_errors F (G l)"
proof -
  obtain ts where "G l = XNode c ts" "map (tree_value F) ts = map Some vs"
    using assms(1) by (auto simp: tinv_def job_ok_def)
  then have "all_some (map (tree_value F) ts) = Some vs" "G l = XNode c ts"
    by (simp_all add: all_some_Some)
  with assms(2) show ?thesis by (simp split: result.splits)
qed

text \<open>The node with one more result.\<close>

definition fill :: "nat \<Rightarrow> 'o \<Rightarrow> ('c, 'o) tree_node \<Rightarrow> ('c, 'o) tree_node" where
  "fill ci v nd = nd\<lparr>children := (children nd)[ci := Some v], children_left := children_left nd - 1\<rparr>"

lemma fill_simps [simp]:
  "parent (fill ci v nd) = parent nd" "context_of (fill ci v nd) = context_of nd"
  "children (fill ci v nd) = (children nd)[ci := Some v]"
  "children_left (fill ci v nd) = children_left nd - 1"
  by (simp_all add: fill_def)

lemma fill_holes:
  assumes "l \<in> set (node_holes n nd)"
  shows "mset (node_holes n nd) = add_mset l (mset (node_holes n (fill (child_index l) v nd)))"
proof -
  have "set (node_holes n (fill (child_index l) v nd)) = set (node_holes n nd) - {l}"
    using assms by (auto simp: set_node_holes nth_list_update intro: node_location.equality split: if_splits)
  then have "mset (node_holes n (fill (child_index l) v nd)) = mset_set (set (node_holes n nd) - {l})"
    by (metis distinct_node_holes mset_set_set)
  moreover have "mset (node_holes n nd) = mset_set (set (node_holes n nd))"
    by (simp add: distinct_node_holes mset_set_set)
  ultimately show ?thesis using assms by (simp add: mset_set.remove)
qed

lemma fill_ok:
  assumes ok: "node_ok F G n nd" and l: "l \<in> set (node_holes n nd)"
    and v: "tree_value F (G l) = Some v" and more: "children_left nd \<noteq> 1"
  shows "node_ok F G n (fill (child_index l) v nd)"
proof -
  have "length (node_holes n nd) = Suc (length (node_holes n (fill (child_index l) v nd)))"
    using fill_holes [OF l, of v] by (metis size_add_mset size_mset)
  moreover obtain ts where ts: "G (parent nd) = XNode (context_of nd) ts" "length (children nd) = length ts"
    "\<forall>c < length ts. (case children nd ! c of Some v \<Rightarrow> tree_value F (ts ! c) = Some v
       | None \<Rightarrow> G (loc n c) = ts ! c)"
    using ok by (auto simp: node_ok_def)
  moreover have lh: "node_index l = n" "child_index l < length ts" "children nd ! child_index l = None"
    using l ts(2) by (auto simp: set_node_holes)
  moreover have "loc n (child_index l) = l" using lh(1) by auto
  then have "G l = ts ! child_index l" using ts(3) [rule_format, OF lh(2)] lh(3) by simp
  ultimately show ?thesis using ok more v
    by (auto simp: node_ok_def nth_list_update)
qed

lemma fold_more_kept:
  assumes inv: "tinv U F R G (add_mset (l, Fold c vs) J) (xs @ (node_index l, nd) # ys) idx"
    and v: "tree_value F (G l) = Some v" and l: "l \<in> set (node_holes (node_index l) nd)"
    and more: "children_left nd \<noteq> 1"
  shows "tinv U F R G J (xs @ (node_index l, fill (child_index l) v nd) # ys) idx \<and>
    tree_work G J (xs @ (node_index l, fill (child_index l) v nd) # ys) <
      tree_work G (add_mset (l, Fold c vs) J) (xs @ (node_index l, nd) # ys)"
proof -
  let ?nd = "fill (child_index l) v nd"
  have h: "tree_holes (xs @ (node_index l, nd) # ys) = add_mset l (tree_holes (xs @ (node_index l, ?nd) # ys))"
    using fill_holes [OF l, of v] by (simp add: tree_holes_def)
  have "node_ok F G (node_index l) nd" using inv by (auto simp: tinv_def)
  then have "node_ok F G (node_index l) ?nd" using l v more by (rule fill_ok)
  moreover have "tree_holes (xs @ (node_index l, ?nd) # ys) = occupants J (xs @ (node_index l, ?nd) # ys)"
    using inv h by (simp add: tinv_def occupants_def)
  moreover have "k \<in># tree_holes (xs @ (node_index l, ?nd) # ys) \<Longrightarrow>
      k \<in># tree_holes (xs @ (node_index l, nd) # ys)" for k
    unfolding h by simp
  ultimately have "tinv U F R G J (xs @ (node_index l, ?nd) # ys) idx"
    using inv unfolding tinv_def by auto
  then show ?thesis by (simp add: tree_work_def job_weight_def)
qed

lemma fill_last:
  assumes ok: "node_ok F G n nd" and l: "l \<in> set (node_holes n nd)"
    and v: "tree_value F (G l) = Some v" and last: "children_left nd = 1"
  shows "mset (node_holes n nd) = {#l#}"
    "job_ok U F (G (parent nd))
       (Fold (context_of nd) (List.map_filter id ((children nd)[child_index l := Some v])))"
proof -
  have "length (node_holes n nd) = 1" using ok last by (simp add: node_ok_def)
  with l show single: "mset (node_holes n nd) = {#l#}" by (cases "node_holes n nd") auto
  let ?cs = "(children nd)[child_index l := Some v]"
  obtain ts where ts: "G (parent nd) = XNode (context_of nd) ts" "length (children nd) = length ts"
    "\<forall>c < length ts. (case children nd ! c of Some v \<Rightarrow> tree_value F (ts ! c) = Some v
       | None \<Rightarrow> G (loc n c) = ts ! c)"
    using ok by (auto simp: node_ok_def)
  have lh: "node_index l = n" "child_index l < length ts" "children nd ! child_index l = None"
    using l ts(2) by (auto simp: set_node_holes)
  have val: "?cs ! c = tree_value F (ts ! c) \<and> tree_value F (ts ! c) \<noteq> None" if c: "c < length ts" for c
  proof (cases "children nd ! c")
    case None
    then have "loc n c \<in> set (node_holes n nd)" using c ts(2) by (simp add: set_node_holes)
    then have "loc n c = l" using single by (metis set_mset_mset set_mset_single singletonD)
    with None ts c v show ?thesis by (auto simp: nth_list_update)
  next
    case (Some w)
    with ts c lh show ?thesis by (auto simp: nth_list_update dest: spec [of _ c])
  qed
  then have "?cs = map (tree_value F) ts" using ts(2) by (intro nth_equalityI) auto
  moreover have "None \<notin> set ?cs" using val ts(2) by (metis in_set_conv_nth length_list_update)
  then have "map Some (List.map_filter id ?cs) = ?cs" by (rule map_filter_id)
  ultimately show "job_ok U F (G (parent nd)) (Fold (context_of nd) (List.map_filter id ?cs))"
    using ts(1) by (auto simp: job_ok_def)
qed

lemma fold_last_kept:
  assumes inv: "tinv U F R G (add_mset (l, Fold c vs) J) (xs @ (node_index l, nd) # ys) idx"
    and v: "tree_value F (G l) = Some v" and l: "l \<in> set (node_holes (node_index l) nd)"
    and last: "children_left nd = 1"
  defines "w \<equiv> Fold (context_of nd) (List.map_filter id ((children nd)[child_index l := Some v]))"
  shows "tinv U F R G (add_mset (parent nd, w) J) (xs @ ys) idx \<and>
    tree_work G (add_mset (parent nd, w) J) (xs @ ys) <
      tree_work G (add_mset (l, Fold c vs) J) (xs @ (node_index l, nd) # ys)"
proof -
  have ok: "node_ok F G (node_index l) nd" using inv by (auto simp: tinv_def)
  have h: "tree_holes (xs @ (node_index l, nd) # ys) = add_mset l (tree_holes (xs @ ys))"
    using fill_last(1) [OF ok l v last] by (simp add: tree_holes_def)
  moreover have "job_ok U F (G (parent nd)) w" using fill_last(2) [OF ok l v last] by (simp add: w_def)
  moreover have "tree_holes (xs @ ys) = occupants (add_mset (parent nd, w) J) (xs @ ys)"
    using inv h by (simp add: tinv_def occupants_def)
  ultimately have "tinv U F R G (add_mset (parent nd, w) J) (xs @ ys) idx"
    using inv unfolding tinv_def by auto
  then show ?thesis by (simp add: tree_work_def job_weight_def w_def)
qed

section \<open>The turns of the loop\<close>

definition bt_jobs :: "('i, 'c, 'o) traversal \<Rightarrow> ('i, 'c, 'o) tree_job multiset" where
  "bt_jobs st = mset (scheduled st) + mset (unscheduled st)"

text \<open>The invariant of the traversal; \<open>n\<close> is the number of jobs that are still to complete.\<close>

definition bt_inv ::
  "('i \<Rightarrow> ('c \<times> 'i list, 'e) result) \<Rightarrow> ('c \<Rightarrow> 'o list \<Rightarrow> ('o, 'e) result) \<Rightarrow> ('c, 'e) xtree \<Rightarrow>
     nat \<Rightarrow> ('i, 'c, 'o) traversal \<Rightarrow> nat \<Rightarrow> bool" where
  "bt_inv U F R m st n \<longleftrightarrow>
     m \<noteq> 0 \<and> scheduled_max st = m \<and> length (scheduled st) \<le> m \<and>
     (\<exists>G. tinv U F R G (bt_jobs st) (execution_tree st) (execution_tree_index st) \<and>
        tree_work G (bt_jobs st) (execution_tree st) = n)"

lemma bt_schedule_ok:
  assumes "length (scheduled st) \<le> scheduled_max st"
  obtains st' where "bt_schedule st = Inr st'" "bt_jobs st' = bt_jobs st"
    "execution_tree st' = execution_tree st" "execution_tree_index st' = execution_tree_index st"
    "scheduled_max st' = scheduled_max st" "length (scheduled st') \<le> scheduled_max st"
    "scheduled_max st \<noteq> 0 \<Longrightarrow> bt_jobs st \<noteq> {#} \<Longrightarrow> scheduled st' \<noteq> []"
proof -
  define n where "n = min (length (unscheduled st)) (scheduled_max st - length (scheduled st))"
  let ?st = "st\<lparr>scheduled := scheduled st @ take n (unscheduled st), unscheduled := drop n (unscheduled st)\<rparr>"
  have "bt_schedule st = Inr ?st" using assms by (simp add: bt_schedule_def n_def Let_def)
  moreover have "bt_jobs ?st = bt_jobs st"
    by (simp add: bt_jobs_def add.assoc flip: mset_append)
  moreover have "scheduled_max st \<noteq> 0 \<Longrightarrow> bt_jobs st \<noteq> {#} \<Longrightarrow> scheduled ?st \<noteq> []"
    by (auto simp: bt_jobs_def n_def)
  ultimately show thesis using assms that [of ?st] by (simp add: n_def)
qed

lemma bt_enqueue_children_eq:
  "bt_enqueue_children n ci is st =
     (ci + length is, st\<lparr>unscheduled :=
        rev (map (\<lambda>c. (loc n (ci + c), Unfold (is ! c))) [0..<length is]) @ unscheduled st\<rparr>)"
proof (induction "is" arbitrary: ci st)
  case (Cons i "is")
  then show ?case by (simp add: bt_enqueue_unfold_def map_upt_Suc del: upt_Suc)
qed simp

lemma bt_process_unfold_kept:
  assumes "tinv U F R G (add_mset (l, Unfold i) (bt_jobs st)) (execution_tree st) (execution_tree_index st)"
    and "U i = Ok u"
  shows "let st' = bt_process_unfold l u st in
    scheduled st' = scheduled st \<and> scheduled_max st' = scheduled_max st \<and>
    (\<exists>G'. tinv U F R G' (bt_jobs st') (execution_tree st') (execution_tree_index st') \<and>
       tree_work G' (bt_jobs st') (execution_tree st') <
         tree_work G (add_mset (l, Unfold i) (bt_jobs st)) (execution_tree st))"
proof -
  obtain c "is" where u: "u = (c, is)" by (cases u)
  show ?thesis
  proof (cases "is = []")
    case True
    with unfold_leaf_kept [OF assms(1)] assms(2) u show ?thesis
      by (auto simp: bt_process_unfold_def bt_enqueue_fold_def bt_jobs_def Let_def)
  next
    case False
    have "Suc (execution_tree_index st) \<notin> fst ` set (execution_tree st)"
      using assms(1) by (fastforce simp: tinv_def)
    note upd = alist_append [OF this]
    from unfold_node_kept [OF assms(1), of c "is"] assms(2) u False upd show ?thesis
      by (auto simp: bt_process_unfold_def bt_enqueue_children_eq child_jobs_def bt_jobs_def Let_def ac_simps)
  qed
qed

lemma bt_process_fold_kept:
  assumes inv: "tinv U F R G (add_mset (l, Fold c vs) (bt_jobs st)) (execution_tree st) (execution_tree_index st)"
    and n0: "node_index l \<noteq> 0" and v: "F c vs = Ok v"
  shows "\<exists>st'. bt_process_fold l v st = Inr st' \<and>
    scheduled st' = scheduled st \<and> scheduled_max st' = scheduled_max st \<and>
    tinv U F R G (bt_jobs st') (execution_tree st') (execution_tree_index st') \<and>
    tree_work G (bt_jobs st') (execution_tree st') <
      tree_work G (add_mset (l, Fold c vs) (bt_jobs st)) (execution_tree st)"
proof -
  obtain nd where nd: "map_of (execution_tree st) (node_index l) = Some nd"
    "child_index l < length (children nd)" "children nd ! child_index l = None"
    "l \<in> set (node_holes (node_index l) nd)" "node_ok F G (node_index l) nd"
    using fold_target [OF inv n0] by metis
  have dist: "distinct (map fst (execution_tree st))" using inv by (simp add: tinv_def)
  obtain xs ys where E: "execution_tree st = xs @ (node_index l, nd) # ys"
    "\<And>v'. AList.update (node_index l) v' (execution_tree st) = xs @ (node_index l, v') # ys"
    "AList.delete (node_index l) (execution_tree st) = xs @ ys"
    using alist_split [OF dist nd(1)] by metis
  have val: "tree_value F (G l) = Some v" using fold_value [OF inv v] by simp
  have left: "children_left nd \<noteq> 0" using nd(5) unfolding node_ok_def by blast
  let ?nd = "fill (child_index l) v nd"
  have del: "AList.delete (node_index l) (xs @ (node_index l, ?nd) # ys) = xs @ ys"
    using E(2) [of ?nd] E(3) by (metis delete_update_same)
  have look: "map_of (xs @ (node_index l, ?nd) # ys) (node_index l) = Some ?nd"
    using E(2) [of ?nd] by (metis fun_upd_same update_conv')
  show ?thesis
  proof (cases "children_left nd = 1")
    case True
    with nd(1-3) left E(2) del look
    have "bt_process_fold l v st = Inr (bt_enqueue_fold (parent nd) (context_of nd)
        (List.map_filter id ((children nd)[child_index l := Some v])) (st\<lparr>execution_tree := xs @ ys\<rparr>))"
      by (simp add: bt_process_fold_def vec_index_def vec_write_def Let_def fill_def)
    with fold_last_kept [OF inv [unfolded E(1)] val nd(4) True] show ?thesis
      by (simp add: bt_enqueue_fold_def bt_jobs_def E(1))
  next
    case False
    with nd(1-3) left E(2) have "bt_process_fold l v st =
        Inr (st\<lparr>execution_tree := xs @ (node_index l, ?nd) # ys\<rparr>)"
      by (simp add: bt_process_fold_def vec_index_def vec_write_def Let_def fill_def)
    with fold_more_kept [OF inv [unfolded E(1)] val nd(4) False] show ?thesis
      by (simp add: bt_jobs_def E(1))
  qed
qed

lemma take_job:
  assumes "i < length (scheduled st)"
    and "st' = st\<lparr>scheduled := take i (scheduled st) @ drop (Suc i) (scheduled st)\<rparr>"
  shows "bt_jobs st = add_mset (scheduled st ! i) (bt_jobs st')"
    "length (scheduled st') < length (scheduled st)"
  using arg_cong [OF id_take_nth_drop [OF assms(1)], of mset] assms by (simp_all add: bt_jobs_def)

lemma bt_turn_cases:
  assumes "bt_inv U F R m st n"
  shows "(\<exists>st' n'. bt_turn U F k st = Continue st' \<and> bt_inv U F R m st' n' \<and> n' < n) \<or>
    (\<exists>r. bt_turn U F k st = Ready r \<and> traversal_result F R r)"
proof -
  obtain G where max: "m \<noteq> 0" "scheduled_max st = m" "length (scheduled st) \<le> m"
    and G: "tinv U F R G (bt_jobs st) (execution_tree st) (execution_tree_index st)"
      "tree_work G (bt_jobs st) (execution_tree st) = n"
    using assms by (auto simp: bt_inv_def)
  obtain st1 where s1: "bt_schedule st = Inr st1" "bt_jobs st1 = bt_jobs st"
    "execution_tree st1 = execution_tree st" "execution_tree_index st1 = execution_tree_index st"
    "scheduled_max st1 = m" "length (scheduled st1) \<le> m" "scheduled st1 \<noteq> []"
    using bt_schedule_ok [of st] max jobs_remain [OF G(1)] by metis
  define i where "i = k mod length (scheduled st1)"
  define st2 where "st2 = st1\<lparr>scheduled := take i (scheduled st1) @ drop (Suc i) (scheduled st1)\<rparr>"
  obtain l w where job: "scheduled st1 ! i = (l, w)" by (cases "scheduled st1 ! i")
  have J: "bt_jobs st = add_mset (l, w) (bt_jobs st2)" "length (scheduled st2) < m"
    using take_job [OF _ st2_def] s1(2,6,7) job by (simp_all add: i_def)
  have E: "execution_tree st2 = execution_tree st" "execution_tree_index st2 = execution_tree_index st"
    "scheduled_max st2 = m"
    using s1 by (simp_all add: st2_def)
  note inv = G(1) [unfolded J(1), folded E] and work = G(2) [unfolded J(1), folded E]
  have turn: "bt_turn U F k st = (case job_output U F w of
        Inl (Err e) \<Rightarrow> Ready (Err e)
      | Inl (Ok u) \<Rightarrow> Continue (bt_process_unfold l u st2)
      | Inr r \<Rightarrow>
          if node_index l = 0 then
            if execution_tree st2 \<noteq> [] then Panicked (Panic ''assertion failed: execution_tree.is_empty()'')
            else if unscheduled st2 \<noteq> [] then Panicked (Panic ''assertion failed: unscheduled.is_empty()'')
            else if scheduled st2 \<noteq> [] then Panicked (Panic ''assertion failed: scheduled.is_empty()'')
            else Ready r
          else (case r of Err e \<Rightarrow> Ready (Err e) | Ok v \<Rightarrow> continue_with (bt_process_fold l v st2)))"
    using s1(7) unfolding bt_turn_def s1(1) sum.case Let_def i_def [symmetric] st2_def [symmetric] job fst_conv snd_conv
    by (simp only: if_False)
  have hole: "l \<in># tree_holes (execution_tree st2)" using hole_bounded(2) [OF inv, of l w] by simp
  have errs: "e \<in> tree_errors F (G l) \<Longrightarrow> traversal_result F R (Err e)" for e
    using inv hole by (intro traversal_result_Err) (auto simp: tinv_def)
  show ?thesis
  proof (cases w)
    case (Unfold j)
    show ?thesis
    proof (cases "U j")
      case (Ok u)
      have "scheduled (bt_process_unfold l u st2) = scheduled st2"
        "scheduled_max (bt_process_unfold l u st2) = m"
        and "\<exists>G'. tinv U F R G' (bt_jobs (bt_process_unfold l u st2)) (execution_tree (bt_process_unfold l u st2))
              (execution_tree_index (bt_process_unfold l u st2)) \<and>
            tree_work G' (bt_jobs (bt_process_unfold l u st2)) (execution_tree (bt_process_unfold l u st2)) < n"
        using bt_process_unfold_kept [OF inv [unfolded Unfold] Ok] work E(3) Unfold by (simp_all add: Let_def)
      with turn Ok Unfold J(2) max show ?thesis by (auto simp: bt_inv_def)
    next
      case (Err e)
      have "unfolds_to U j (G l)" using inv Unfold by (auto simp: tinv_def job_ok_def)
      with Err have "G l = XFail e" by (auto elim: unfolds_toE)
      with turn Err Unfold errs [of e] show ?thesis by simp
    qed
  next
    case (Fold c vs)
    note inv' = inv [unfolded Fold]
    show ?thesis
    proof (cases "node_index l = 0")
      case True
      then have "l = loc 0 0" using root_hole_only [OF inv hole] by simp
      moreover from this have "execution_tree st2 = []" "bt_jobs st2 = {#}"
        using root_job_alone [of U F R G w "bt_jobs st2"] inv by auto
      moreover have "G (loc 0 0) = R" using inv by (simp add: tinv_def)
      ultimately show ?thesis
        using turn Fold True fold_value [OF inv' refl] errs
        by (auto simp: bt_jobs_def intro: traversal_result_Ok split: result.splits)
    next
      case False
      show ?thesis
      proof (cases "F c vs")
        case (Ok v)
        with bt_process_fold_kept [OF inv' False Ok] turn Fold False work J(2) E(3) max show ?thesis
          by (auto simp: bt_inv_def continue_with_def) blast
      next
        case (Err e)
        with turn Fold False fold_value [OF inv' Err] errs [of e] show ?thesis by simp
      qed
    qed
  qed
qed

interpretation bt: poll_progress "bt_turn U F" "bt_inv U F R m" "traversal_result F R" for U F R m
proof unfold_locales
  fix st n
  assume inv: "bt_inv U F R m st n"
  then obtain G where G: "tinv U F R G (bt_jobs st) (execution_tree st) (execution_tree_index st)"
    "tree_work G (bt_jobs st) (execution_tree st) = n" by (auto simp: bt_inv_def)
  from jobs_remain [OF G(1)] obtain l w J where "bt_jobs st = add_mset (l, w) J"
    by (metis multiset_cases surj_pair)
  moreover have "0 < job_weight (G l) w"
    using tree_size_pos [of "G l"] by (cases w) auto
  ultimately show "0 < n" using G(2) by (auto simp: tree_work_def)
qed (rule bt_turn_cases)

lemma bt_new_inv:
  assumes "unfolds_to U init R" "m \<noteq> 0"
  shows "bt_inv U F R m (bt_new m init) (2 * tree_size R)"
  using assms unfolding bt_inv_def bt_new_def bt_enqueue_unfold_def bt_jobs_def
  by (intro conjI exI [of _ "\<lambda>_. R"])
    (simp_all add: tinv_def tree_holes_def occupants_def job_ok_def tree_work_def)

text \<open>The bound on the running jobs does not depend on the tree.\<close>

definition bt_bounded :: "nat \<Rightarrow> ('i, 'c, 'o) traversal \<Rightarrow> bool" where
  "bt_bounded m st \<longleftrightarrow> scheduled_max st = m \<and> length (scheduled st) \<le> m"

lemma bt_process_frame:
  "scheduled (bt_process_unfold l u st) = scheduled st"
  "scheduled_max (bt_process_unfold l u st) = scheduled_max st"
  "bt_process_fold l v st = Inr st' \<Longrightarrow> scheduled st' = scheduled st \<and> scheduled_max st' = scheduled_max st"
  by (auto simp: bt_process_unfold_def bt_process_fold_def bt_enqueue_fold_def bt_enqueue_children_eq
      res_bind_eq_Inr Let_def split: prod.splits option.splits if_splits)

lemma bt_turn_bounded:
  assumes b: "bt_bounded m st" and t: "bt_turn U F k st = Continue st'"
  shows "bt_bounded m st'"
proof -
  obtain st1 where s1: "bt_schedule st = Inr st1" "scheduled_max st1 = m" "length (scheduled st1) \<le> m"
    using bt_schedule_ok [of st] b by (metis bt_bounded_def)
  show ?thesis
  proof (cases "scheduled st1 = []")
    case True
    with t s1 show ?thesis by (simp add: bt_turn_def bt_bounded_def)
  next
    case False
    define i where "i = k mod length (scheduled st1)"
    define st2 where "st2 = st1\<lparr>scheduled := take i (scheduled st1) @ drop (Suc i) (scheduled st1)\<rparr>"
    have "length (scheduled st2) \<le> m" "scheduled_max st2 = m" using s1 by (simp_all add: st2_def)
    then show ?thesis using t False
      unfolding bt_turn_def s1(1) sum.case Let_def i_def [symmetric] st2_def [symmetric]
      by (auto simp: bt_bounded_def bt_process_frame continue_with_def
          dest: bt_process_frame(3) split: sum.splits result.splits if_splits)
  qed
qed

lemma bt_loop_bounded:
  "bt_bounded m st \<Longrightarrow> poll_loop (bt_turn U F) ks st = Continue st' \<Longrightarrow> bt_bounded m st'"
  by (induction ks arbitrary: st) (auto dest: bt_turn_bounded split: poll_step.splits)

section \<open>Properties\<close>

text \<open>
  C8.  For every finite implicit tree, every bound of at least one job and every order in
  which running jobs complete, \<open>bounded_traversal\<close> returns after at most two completed jobs per
  node, without a panic: with the value of the recursive fold of the tree when no callback
  fails, and otherwise with an error that one of the callbacks of the tree returned.
\<close>

theorem bounded_traversal_correct:
  assumes "unfolds_to unfold_f init t" "m \<noteq> 0" "2 * tree_size t \<le> length choices"
  shows "\<exists>r. bounded_traversal m init unfold_f fold_f choices = Ready r \<and> traversal_result fold_f t r"
  unfolding bounded_traversal_def
  by (rule bt.loop_ready [OF bt_new_inv [OF assms(1,2)] assms(3)])

text \<open>Sums over a small tree: the input is the height, a node has two children.\<close>

definition sample_unfold :: "nat \<Rightarrow> (nat \<times> nat list, string) result" where
  "sample_unfold n = Ok (n, if n = 0 then [] else [n - 1, n - 1])"

definition sample_fold :: "nat \<Rightarrow> nat list \<Rightarrow> (nat, string) result" where
  "sample_fold c vs = Ok (c + sum_list vs)"

lemma sample_unfolds:
  "unfolds_to sample_unfold 1 (XNode 1 [XNode 0 [], XNode 0 []])"
  by (simp add: unfolds_to_simps sample_unfold_def)

theorem bounded_traversal_correct_witness:
  "bounded_traversal 2 1 sample_unfold sample_fold [3, 1, 0, 2, 7, 1] = Ready (Ok 1)"
proof -
  have v: "tree_value sample_fold (XNode 1 [XNode 0 [], XNode 0 []]) = Some 1"
    by (simp add: sample_fold_def)
  show ?thesis
    using bounded_traversal_correct [OF sample_unfolds, of 2 "[3, 1, 0, 2, 7, 1]" sample_fold]
    by (auto simp: traversal_result_def sample_fold_def v)
qed

text \<open>
   Whatever the tree and the callbacks are, in every state the traversal goes through,
  before and after it starts new jobs, at most \<open>scheduled_max\<close> jobs are running, so that the
  subtraction that computes how many more fit does not underflow.
\<close>

theorem bounded_traversal_concurrency:
  assumes "bounded_traversal m init unfold_f fold_f choices = Continue st"
  shows "length (scheduled st) \<le> m \<and>
    (\<exists>st1. bt_schedule st = Inr st1 \<and> length (scheduled st1) \<le> m)"
proof -
  have "bt_bounded m (bt_new m init)" by (simp add: bt_bounded_def bt_new_def bt_enqueue_unfold_def)
  then have "bt_bounded m st" by (rule bt_loop_bounded) (use assms in \<open>simp add: bounded_traversal_def\<close>)
  then show ?thesis using bt_schedule_ok [of st] by (metis bt_bounded_def)
qed

theorem bounded_traversal_concurrency_witness:
  "\<exists>st. bounded_traversal 1 1 sample_unfold sample_fold [0, 0] = Continue st \<and> length (scheduled st) \<le> 1"
proof -
  obtain st where st: "bounded_traversal 1 1 sample_unfold sample_fold [0, 0] = Continue st"
    by (simp add: bounded_traversal_def bt_new_def bt_turn_def bt_schedule_def bt_enqueue_unfold_def
        bt_process_unfold_def bt_enqueue_fold_def sample_unfold_def Let_def)
  from st bounded_traversal_concurrency [OF st] show ?thesis by blast
qed

text \<open>
   With \<open>scheduled_max = 0\<close> the loop of \<open>poll\<close> never ends: no job is ever started, and
  every turn finds the traversal as it was.
\<close>

theorem bounded_traversal_zero_stuck:
  "bounded_traversal 0 init unfold_f fold_f choices = Continue (bt_new 0 init)"
proof -
  have "bt_turn unfold_f fold_f k (bt_new 0 init) = Continue (bt_new 0 init)" for k
    by (simp add: bt_turn_def bt_schedule_def bt_new_def bt_enqueue_unfold_def)
  then show ?thesis unfolding bounded_traversal_def by (induction choices) simp_all
qed

end
