(* ===== verification/Bounded_Stream.thy ===== *)
theory Bounded_Stream
  imports Bounded_Common
begin

text \<open>
  The unordered streams of \<open>shed/bounded_traversal/src/stream.rs\<close>.  A stream is a state with a
  poll function; one turn of its loop goes on, yields an item or ends the stream.  A running
  future \<open>unfold(item)\<close> is the item it was created from.  As for the traversals, the running
  job that completes in a turn is an argument of the turn.
\<close>

section \<open>Streams\<close>

datatype ('s, 'a) stream_turn = Again 's | Yield 'a 's | Finished 's | Stream_Panicked panic

datatype 's stream_end = Running 's | Ended 's | Crashed panic

text \<open>Polling a stream with one choice for each turn, and the items it yields.\<close>

fun stream_loop :: "(nat \<Rightarrow> 's \<Rightarrow> ('s, 'a) stream_turn) \<Rightarrow> nat list \<Rightarrow> 's \<Rightarrow> 'a list \<times> 's stream_end" where
  "stream_loop turn [] s = ([], Running s)"
| "stream_loop turn (k # ks) s =
     (case turn k s of
        Again s' \<Rightarrow> stream_loop turn ks s'
      | Yield a s' \<Rightarrow> (case stream_loop turn ks s' of (as, e) \<Rightarrow> (a # as, e))
      | Finished s' \<Rightarrow> ([], Ended s')
      | Stream_Panicked p \<Rightarrow> ([], Crashed p))"

text \<open>
  A stream that owes the items \<open>M\<close> and has \<open>n\<close> turns to go: each turn pays off an item or only
  works, and the stream ends when nothing is owed.
\<close>

locale stream_progress =
  fixes turn :: "nat \<Rightarrow> 's \<Rightarrow> ('s, 'a) stream_turn"
    and inv :: "'s \<Rightarrow> nat \<Rightarrow> 'a multiset \<Rightarrow> bool"
  assumes turn_cases: "inv s n M \<Longrightarrow>
    (\<exists>s' n'. turn k s = Again s' \<and> inv s' n' M \<and> n' < n) \<or>
    (\<exists>a s' n' M'. turn k s = Yield a s' \<and> inv s' n' M' \<and> M = add_mset a M' \<and> n' < n) \<or>
    (turn k s = Finished s \<and> M = {#})"
begin

lemma loop_owes:
  "inv s n M \<Longrightarrow> \<exists>as. (\<exists>s' n' M'. stream_loop turn ks s = (as, Running s') \<and> inv s' n' M' \<and>
        M = mset as + M' \<and> n' + length ks \<le> n) \<or>
     (\<exists>s'. stream_loop turn ks s = (as, Ended s') \<and> mset as = M)"
proof (induction ks arbitrary: s n M)
  case Nil
  then show ?case by auto
next
  case (Cons k ks)
  from turn_cases [OF Cons.prems, of k] show ?case
  proof (elim disjE exE conjE)
    fix s' n' assume "turn k s = Again s'" "inv s' n' M" "n' < n"
    with Cons.IH [of s' n' M] show ?case by fastforce
  next
    fix a s' n' M' assume y: "turn k s = Yield a s'" "inv s' n' M'" "M = add_mset a M'" "n' < n"
    obtain as where "(\<exists>s'' n'' M''. stream_loop turn ks s' = (as, Running s'') \<and> inv s'' n'' M'' \<and>
        M' = mset as + M'' \<and> n'' + length ks \<le> n') \<or>
      (\<exists>s''. stream_loop turn ks s' = (as, Ended s'') \<and> mset as = M')"
      using Cons.IH [OF y(2)] by blast
    with y show ?case by (intro exI [of _ "a # as"]) fastforce
  next
    assume "turn k s = Finished s" "M = {#}"
    then show ?case by simp
  qed
qed

lemma loop_ends:
  assumes "inv s n M" "n < length ks"
  shows "\<exists>as s'. stream_loop turn ks s = (as, Ended s') \<and> mset as = M"
  using loop_owes [OF assms(1), of ks] assms(2) by auto

end

section \<open>\<open>bounded_traversal_stream\<close>\<close>

record 'i stream_state =
  st_unscheduled :: "'i list"
  st_scheduled :: "'i list"

definition bts_new :: "'i list \<Rightarrow> 'i stream_state" where
  "bts_new init = \<lparr>st_unscheduled = init, st_scheduled = []\<rparr>"

definition bts_turn ::
  "nat \<Rightarrow> ('i \<Rightarrow> ('o \<times> 'i list, 'e) result) \<Rightarrow> nat \<Rightarrow> 'i stream_state \<Rightarrow>
     ('i stream_state, ('o, 'e) result) stream_turn" where
  "bts_turn max_scheduled unfold_f k st =
     (if st_scheduled st = [] \<and> st_unscheduled st = [] then Finished st
      else if max_scheduled < length (st_scheduled st)
      then Stream_Panicked (Panic ''attempt to subtract with overflow'')
      else
        (let n = min (length (st_unscheduled st)) (max_scheduled - length (st_scheduled st));
             running = st_scheduled st @ take n (st_unscheduled st);
             waiting = drop n (st_unscheduled st)
         in if running = [] then Again \<lparr>st_unscheduled = waiting, st_scheduled = []\<rparr>
            else
              (let i = k mod length running;
                   rest = take i running @ drop (Suc i) running
               in case unfold_f (running ! i) of
                    Err e \<Rightarrow> Yield (Err e) \<lparr>st_unscheduled = waiting, st_scheduled = rest\<rparr>
                  | Ok (out, childs) \<Rightarrow>
                      Yield (Ok out) \<lparr>st_unscheduled = rev childs @ waiting, st_scheduled = rest\<rparr>)))"

definition bounded_traversal_stream ::
  "nat \<Rightarrow> 'i list \<Rightarrow> ('i \<Rightarrow> ('o \<times> 'i list, 'e) result) \<Rightarrow> nat list \<Rightarrow>
     ('o, 'e) result list \<times> 'i stream_state stream_end" where
  "bounded_traversal_stream max_scheduled init unfold_f choices =
     stream_loop (bts_turn max_scheduled unfold_f) choices (bts_new init)"

text \<open>The results of all nodes of a tree.\<close>

fun tree_items :: "('c, 'e) xtree \<Rightarrow> ('c, 'e) result multiset" where
  "tree_items (XFail e) = {#Err e#}"
| "tree_items (XNode c ts) = add_mset (Ok c) (\<Sum>t \<leftarrow> ts. tree_items t)"

text \<open>A list of inputs with their trees.\<close>

definition pending ::
  "('i \<Rightarrow> ('c \<times> 'i list, 'e) result) \<Rightarrow> 'i multiset \<Rightarrow> nat \<Rightarrow> ('c, 'e) result multiset \<Rightarrow> bool" where
  "pending U J n M \<longleftrightarrow> (\<exists>P. image_mset fst P = J \<and> (\<forall>(i, t) \<in># P. unfolds_to U i t) \<and>
     n = (\<Sum>(i, t) \<in># P. tree_size t) \<and> M = (\<Sum>(i, t) \<in># P. tree_items t))"

lemma pending_add:
  assumes "pending U J n M" "unfolds_to U i t"
  shows "pending U (add_mset i J) (tree_size t + n) (tree_items t + M)"
  using assms unfolding pending_def by (elim exE conjE) (rule exI [of _ "add_mset (i, t) P" for P], auto)

lemma pending_list:
  "list_all2 (unfolds_to U) is ts \<Longrightarrow> pending U J n M \<Longrightarrow>
     pending U (mset is + J) (sum_list (map tree_size ts) + n) (sum_list (map tree_items ts) + M)"
  by (induction rule: list_all2_induct) (auto simp: add.assoc dest: pending_add)

lemma pending_take:
  assumes "pending U (add_mset i J) n M"
  obtains t n' M' where "unfolds_to U i t" "pending U J n' M'" "n = tree_size t + n'" "M = tree_items t + M'"
proof -
  from assms obtain P where P: "image_mset fst P = add_mset i J" "\<forall>(i, t) \<in># P. unfolds_to U i t"
    "n = (\<Sum>(i, t) \<in># P. tree_size t)" "M = (\<Sum>(i, t) \<in># P. tree_items t)"
    by (auto simp: pending_def)
  from P(1) obtain p Q where Q: "P = add_mset p Q" "fst p = i" "image_mset fst Q = J"
    by (auto dest: msed_map_invR)
  then obtain t where "p = (i, t)" by (cases p) auto
  with P Q show thesis by (intro that [of t]) (auto simp: pending_def)
qed

lemma pending_empty: "pending U {#} n M \<longleftrightarrow> n = 0 \<and> M = {#}"
  by (auto simp: pending_def)

lemma pending_complete:
  assumes "pending U (add_mset i J) n M"
  shows "case U i of
      Err e \<Rightarrow> (\<exists>n' M'. pending U J n' M' \<and> n' < n \<and> M = add_mset (Err e) M')
    | Ok (c, is) \<Rightarrow> (\<exists>n' M'. pending U (mset is + J) n' M' \<and> n' < n \<and> M = add_mset (Ok c) M')"
proof -
  from assms obtain t n' M' where t: "unfolds_to U i t" "pending U J n' M'"
    "n = tree_size t + n'" "M = tree_items t + M'" by (rule pending_take)
  from t(1) show ?thesis
  proof cases
    case (unfolds_fail e)
    with t show ?thesis by (auto intro!: exI [of _ n'])
  next
    case (unfolds_node c "is" ts)
    with pending_list [OF unfolds_node(3) t(2)] t(3,4) show ?thesis by fastforce
  qed
qed

definition bts_inv ::
  "nat \<Rightarrow> ('i \<Rightarrow> ('o \<times> 'i list, 'e) result) \<Rightarrow> 'i stream_state \<Rightarrow> nat \<Rightarrow> ('o, 'e) result multiset \<Rightarrow> bool" where
  "bts_inv m U st n M \<longleftrightarrow> m \<noteq> 0 \<and> length (st_scheduled st) \<le> m \<and>
     pending U (mset (st_scheduled st) + mset (st_unscheduled st)) n M"

lemma mset_remove_nth:
  "i < length xs \<Longrightarrow> mset xs = add_mset (xs ! i) (mset (take i xs @ drop (Suc i) xs))"
  using arg_cong [OF id_take_nth_drop [of i xs], of mset] by simp

lemma bts_turn_cases:
  assumes "bts_inv m U st n M"
  shows "(\<exists>s' n'. bts_turn m U k st = Again s' \<and> bts_inv m U s' n' M \<and> n' < n) \<or>
    (\<exists>a s' n' M'. bts_turn m U k st = Yield a s' \<and> bts_inv m U s' n' M' \<and> M = add_mset a M' \<and> n' < n) \<or>
    (bts_turn m U k st = Finished st \<and> M = {#})"
proof (cases "st_scheduled st = [] \<and> st_unscheduled st = []")
  case True
  with assms show ?thesis by (simp add: bts_turn_def bts_inv_def pending_empty)
next
  case False
  define j where "j = min (length (st_unscheduled st)) (m - length (st_scheduled st))"
  define running where "running = st_scheduled st @ take j (st_unscheduled st)"
  define waiting where "waiting = drop j (st_unscheduled st)"
  define i where "i = k mod length running"
  define rest where "rest = take i running @ drop (Suc i) running"
  have m: "m \<noteq> 0" "length (st_scheduled st) \<le> m"
    and p: "pending U (mset (st_scheduled st) + mset (st_unscheduled st)) n M"
    using assms by (auto simp: bts_inv_def)
  have "running \<noteq> []" using False m by (auto simp: running_def j_def)
  then have i: "i < length running" by (simp add: i_def)
  have len: "length running \<le> m" using m by (simp add: running_def j_def)
  have "mset (st_scheduled st) + mset (st_unscheduled st) = mset running + mset waiting"
    by (simp add: running_def waiting_def add.assoc flip: mset_append)
  also have "\<dots> = add_mset (running ! i) (mset rest + mset waiting)"
    using mset_remove_nth [OF i] by (simp add: rest_def)
  finally have p': "pending U (add_mset (running ! i) (mset rest + mset waiting)) n M" using p by simp
  have turn: "bts_turn m U k st =
      (case U (running ! i) of
         Err e \<Rightarrow> Yield (Err e) \<lparr>st_unscheduled = waiting, st_scheduled = rest\<rparr>
       | Ok (out, childs) \<Rightarrow> Yield (Ok out) \<lparr>st_unscheduled = rev childs @ waiting, st_scheduled = rest\<rparr>)"
    using False m(2) \<open>running \<noteq> []\<close>
    unfolding bts_turn_def Let_def j_def [symmetric] running_def [symmetric] waiting_def [symmetric]
      i_def [symmetric] rest_def [symmetric] by auto
  have "length rest \<le> m" using len i by (simp add: rest_def)
  show ?thesis
  proof (cases "U (running ! i)")
    case (Ok r)
    obtain c "is" where r: "r = (c, is)" by (cases r)
    with Ok pending_complete [OF p'] obtain n' M' where
      c: "pending U (mset is + (mset rest + mset waiting)) n' M'" "n' < n" "M = add_mset (Ok c) M'" by auto
    moreover have "pending U (mset rest + (mset is + mset waiting)) n' M'"
      using c(1) by (metis add.left_commute)
    ultimately show ?thesis using turn Ok r m(1) \<open>length rest \<le> m\<close> by (auto simp: bts_inv_def)
  next
    case (Err e)
    with pending_complete [OF p'] turn m(1) \<open>length rest \<le> m\<close> show ?thesis by (auto simp: bts_inv_def)
  qed
qed

interpretation bts: stream_progress "bts_turn m U" "bts_inv m U" for m U
  by unfold_locales (rule bts_turn_cases)

section \<open>\<open>limited_by_key_shardable\<close>\<close>

text \<open>
  The two \<open>HashMap\<close>s are association lists: the items that wait for a key, and for each shard
  the number of its jobs in flight and the items that wait for it.  \<open>or_default\<close> gives a shard
  that is not there yet no jobs and an empty queue.
\<close>

record ('i, 'k, 's) keyed_state =
  ks_unscheduled :: "'i list"
  ks_scheduled :: "'i list"
  waiting_for_key :: "('k \<times> 'i list) list"
  waiting_for_shard :: "('s \<times> nat \<times> 'i list) list"

definition lks_new :: "'i list \<Rightarrow> ('i, 'k, 's) keyed_state" where
  "lks_new init = \<lparr>ks_unscheduled = init, ks_scheduled = [], waiting_for_key = [], waiting_for_shard = []\<rparr>"

definition shard_entry :: "'s \<Rightarrow> ('s \<times> nat \<times> 'i list) list \<Rightarrow> nat \<times> 'i list" where
  "shard_entry s m = (case map_of m s of Some e \<Rightarrow> e | None \<Rightarrow> (0, []))"

text \<open>The body of the scheduling loop for one drained item.\<close>

definition lks_admit ::
  "('i \<Rightarrow> 'k \<times> ('s \<times> nat) option) \<Rightarrow> 'i \<Rightarrow> ('i, 'k, 's) keyed_state \<Rightarrow> ('i, 'k, 's) keyed_state" where
  "lks_admit key_fn item st =
     (case key_fn item of (key, shard_info) \<Rightarrow>
        (case map_of (waiting_for_key st) key of
           Some queue \<Rightarrow>
             st\<lparr>waiting_for_key := AList.update key (queue @ [item]) (waiting_for_key st)\<rparr>
         | None \<Rightarrow>
             (let start = (\<lambda>st. st\<lparr>waiting_for_key := AList.update key [] (waiting_for_key st),
                                   ks_scheduled := ks_scheduled st @ [item]\<rparr>)
              in case shard_info of
                   None \<Rightarrow> start st
                 | Some (shard_key, max_per_shard) \<Rightarrow>
                     (case shard_entry shard_key (waiting_for_shard st) of (inflight, queued) \<Rightarrow>
                        if inflight > max_per_shard then
                          st\<lparr>waiting_for_shard :=
                            AList.update shard_key (inflight, queued @ [item]) (waiting_for_shard st)\<rparr>
                        else
                          start (st\<lparr>waiting_for_shard :=
                            AList.update shard_key (inflight + 1, queued) (waiting_for_shard st)\<rparr>)))))"

lemma lks_admit_unscheduled [simp]: "ks_unscheduled (lks_admit key_fn item st) = ks_unscheduled st"
  by (auto simp: lks_admit_def Let_def split: prod.splits option.splits)

text \<open>The \<open>while\<close> loop: drain as many items as there are free places, until no place or no item is left.\<close>

function lks_schedule ::
  "nat \<Rightarrow> ('i \<Rightarrow> 'k \<times> ('s \<times> nat) option) \<Rightarrow> ('i, 'k, 's) keyed_state \<Rightarrow> ('i, 'k, 's) keyed_state" where
  "lks_schedule max_scheduled key_fn st =
     (if length (ks_scheduled st) < max_scheduled \<and> ks_unscheduled st \<noteq> [] then
        (let n = min (length (ks_unscheduled st)) (max_scheduled - length (ks_scheduled st))
         in lks_schedule max_scheduled key_fn
              (fold (lks_admit key_fn) (take n (ks_unscheduled st))
                 (st\<lparr>ks_unscheduled := drop n (ks_unscheduled st)\<rparr>)))
      else st)"
  by pat_completeness auto

lemma lks_admit_all_unscheduled [simp]:
  "ks_unscheduled (fold (lks_admit key_fn) items st) = ks_unscheduled st"
  by (induction items arbitrary: st) simp_all

termination lks_schedule
  by (relation "measure (\<lambda>(m, kf, st). length (ks_unscheduled st))") auto

declare lks_schedule.simps [simp del]

text \<open>What a completed job does to the queues of its key and of its shard.\<close>

definition lks_release_key :: "'k \<Rightarrow> ('i, 'k, 's) keyed_state \<Rightarrow> ('i, 'k, 's) keyed_state" where
  "lks_release_key key st =
     (case map_of (waiting_for_key st) key of
        None \<Rightarrow> st
      | Some queue \<Rightarrow>
          (let st = st\<lparr>waiting_for_key := AList.delete key (waiting_for_key st)\<rparr>
           in case queue of
                [] \<Rightarrow> st
              | item # queue \<Rightarrow>
                  (let st = st\<lparr>ks_scheduled := ks_scheduled st @ [item]\<rparr>
                   in if queue \<noteq> []
                      then st\<lparr>waiting_for_key := AList.update key queue (waiting_for_key st)\<rparr>
                      else st)))"

definition lks_release_shard :: "'s option \<Rightarrow> ('i, 'k, 's) keyed_state \<Rightarrow> ('i, 'k, 's) keyed_state" where
  "lks_release_shard shard_key st =
     (case shard_key of
        None \<Rightarrow> st
      | Some s \<Rightarrow>
          (case map_of (waiting_for_shard st) s of
             None \<Rightarrow> st
           | Some (inflight, queue) \<Rightarrow>
               (let inflight = usize_saturating_sub inflight 1
                in case queue of
                     [] \<Rightarrow> st\<lparr>waiting_for_shard := AList.update s (inflight, []) (waiting_for_shard st)\<rparr>
                   | item # queue \<Rightarrow>
                       st\<lparr>waiting_for_shard := AList.update s (inflight, queue) (waiting_for_shard st),
                          ks_unscheduled := item # ks_unscheduled st\<rparr>)))"

definition lks_turn ::
  "nat \<Rightarrow> ('i \<Rightarrow> 'k \<times> 's option \<times> (('o \<times> 'i list) option, 'e) result) \<Rightarrow>
     ('i \<Rightarrow> 'k \<times> ('s \<times> nat) option) \<Rightarrow> nat \<Rightarrow> ('i, 'k, 's) keyed_state \<Rightarrow>
     (('i, 'k, 's) keyed_state, ('o, 'e) result) stream_turn" where
  "lks_turn max_scheduled unfold_f key_fn k st =
     (if ks_scheduled st = [] \<and> ks_unscheduled st = [] then Finished st
      else
        (let st = lks_schedule max_scheduled key_fn st in
         if ks_scheduled st = [] then Again st
         else
           (let i = k mod length (ks_scheduled st);
                item = ks_scheduled st ! i;
                st = st\<lparr>ks_scheduled := take i (ks_scheduled st) @ drop (Suc i) (ks_scheduled st)\<rparr>
            in case unfold_f item of (key, shard_key, unfolded) \<Rightarrow>
                 (let st = lks_release_shard shard_key (lks_release_key key st)
                  in case unfolded of
                       Err e \<Rightarrow> Yield (Err e) st
                     | Ok None \<Rightarrow> Again st
                     | Ok (Some (out, childs)) \<Rightarrow>
                         Yield (Ok out) (st\<lparr>ks_unscheduled := rev childs @ ks_unscheduled st\<rparr>)))))"

definition limited_by_key_shardable ::
  "nat \<Rightarrow> 'i list \<Rightarrow> ('i \<Rightarrow> 'k \<times> 's option \<times> (('o \<times> 'i list) option, 'e) result) \<Rightarrow>
     ('i \<Rightarrow> 'k \<times> ('s \<times> nat) option) \<Rightarrow> nat list \<Rightarrow>
     ('o, 'e) result list \<times> ('i, 'k, 's) keyed_state stream_end" where
  "limited_by_key_shardable max_scheduled init unfold_f key_fn choices =
     stream_loop (lks_turn max_scheduled unfold_f key_fn) choices (lks_new init)"

section \<open>Nothing is lost\<close>

text \<open>All items a stream holds, wherever they wait.\<close>

definition ks_items :: "('i, 'k, 's) keyed_state \<Rightarrow> 'i multiset" where
  "ks_items st = mset (ks_scheduled st) + mset (ks_unscheduled st) +
     (\<Sum>(k, q) \<in># mset (waiting_for_key st). mset q) +
     (\<Sum>(s, n, q) \<in># mset (waiting_for_shard st). mset q)"

lemma map_of_update [simp]: "map_of (AList.update k v m) = (map_of m)(k \<mapsto> v)"
  by (rule update_conv')

lemma map_of_delete [simp]: "map_of (AList.delete k m) = (map_of m)(k := None)"
  by (rule delete_conv')

lemma distinct_alist [simp]:
  "distinct (map fst m) \<Longrightarrow> distinct (map fst (AList.update k v m))"
  "distinct (map fst m) \<Longrightarrow> distinct (map fst (AList.delete k m))"
  by (rule distinct_update, assumption) (rule distinct_delete)

definition item_key :: "('i \<Rightarrow> 'k \<times> ('s \<times> nat) option) \<Rightarrow> 'i \<Rightarrow> 'k" where
  "item_key key_fn i = fst (key_fn i)"

definition item_shard :: "('i \<Rightarrow> 'k \<times> ('s \<times> nat) option) \<Rightarrow> 'i \<Rightarrow> 's option" where
  "item_shard key_fn i = map_option fst (snd (key_fn i))"

text \<open>Items with the same key are in the same shard.\<close>

definition key_in_shard :: "('i \<Rightarrow> 'k \<times> ('s \<times> nat) option) \<Rightarrow> bool" where
  "key_in_shard key_fn \<longleftrightarrow>
     (\<forall>i j. item_key key_fn i = item_key key_fn j \<longrightarrow> item_shard key_fn i = item_shard key_fn j)"

text \<open>
  A key with an entry is running.  A shard counts at most the jobs that run for it, and while
  items wait for it, one of its items is running or about to be admitted.  The shard \<open>ex\<close> may
  count the job that has just completed.
\<close>

definition in_shard :: "('i \<Rightarrow> 'k \<times> ('s \<times> nat) option) \<Rightarrow> 's \<Rightarrow> 'i list \<Rightarrow> nat" where
  "in_shard kf s xs = length (filter (\<lambda>i. item_shard kf i = Some s) xs)"

lemma in_shard_simps [simp]:
  "in_shard kf s [] = 0"
  "in_shard kf s (xs @ ys) = in_shard kf s xs + in_shard kf s ys"
  "in_shard kf s (i # xs) = (if item_shard kf i = Some s then 1 else 0) + in_shard kf s xs"
  by (simp_all add: in_shard_def)

lemma in_shard_pos: "0 < in_shard kf s xs \<longleftrightarrow> (\<exists>i \<in> set xs. item_shard kf i = Some s)"
  by (induction xs) auto

definition keys_ok :: "('i \<Rightarrow> 'k \<times> ('s \<times> nat) option) \<Rightarrow> 'i list \<Rightarrow> ('k \<times> 'i list) list \<Rightarrow> bool" where
  "keys_ok kf sch wk \<longleftrightarrow> distinct (map fst wk) \<and>
     (\<forall>k q. map_of wk k = Some q \<longrightarrow>
        (\<forall>i \<in> set q. item_key kf i = k) \<and> k \<in> item_key kf ` set sch)"

definition shards_ok ::
  "('i \<Rightarrow> 'k \<times> ('s \<times> nat) option) \<Rightarrow> 's option \<Rightarrow> 'i list \<Rightarrow> 'i list \<Rightarrow> ('s \<times> nat \<times> 'i list) list \<Rightarrow> bool" where
  "shards_ok kf ex sch us ws \<longleftrightarrow> distinct (map fst ws) \<and>
     (\<forall>s n q. map_of ws s = Some (n, q) \<longrightarrow>
        (\<forall>i \<in> set q. item_shard kf i = Some s) \<and>
        (if ex = Some s then n \<le> Suc (in_shard kf s sch)
         else n \<le> in_shard kf s sch \<and> (q \<noteq> [] \<longrightarrow> 0 < in_shard kf s (sch @ us))))"

definition kinv :: "('i \<Rightarrow> 'k \<times> ('s \<times> nat) option) \<Rightarrow> 's option \<Rightarrow> ('i, 'k, 's) keyed_state \<Rightarrow> bool" where
  "kinv kf ex st \<longleftrightarrow> keys_ok kf (ks_scheduled st) (waiting_for_key st) \<and>
     shards_ok kf ex (ks_scheduled st) (ks_unscheduled st) (waiting_for_shard st)"

lemma keys_okD:
  "keys_ok kf sch wk \<Longrightarrow> map_of wk k = Some q \<Longrightarrow>
     (\<forall>i \<in> set q. item_key kf i = k) \<and> k \<in> item_key kf ` set sch"
  unfolding keys_ok_def by blast

lemma shards_okD:
  "shards_ok kf ex sch us ws \<Longrightarrow> map_of ws s = Some (n, q) \<Longrightarrow>
     (\<forall>i \<in> set q. item_shard kf i = Some s) \<and>
     (if ex = Some s then n \<le> Suc (in_shard kf s sch)
      else n \<le> in_shard kf s sch \<and> (q \<noteq> [] \<longrightarrow> 0 < in_shard kf s (sch @ us)))"
  unfolding shards_ok_def by blast

lemma keys_ok_start:
  assumes "keys_ok kf sch wk"
  shows "keys_ok kf (sch @ [i]) (AList.update (item_key kf i) [] wk)"
  using assms by (auto simp: keys_ok_def)

lemma keys_ok_wait:
  assumes "keys_ok kf sch wk" "map_of wk (item_key kf i) = Some q"
  shows "keys_ok kf sch (AList.update (item_key kf i) (q @ [i]) wk)"
  using assms unfolding keys_ok_def by simp

lemma shards_ok_cong:
  assumes "shards_ok kf ex sch us ws"
    and "\<And>s. in_shard kf s sch \<le> in_shard kf s sch'"
    and "\<And>s. 0 < in_shard kf s (sch @ us) \<Longrightarrow> 0 < in_shard kf s (sch' @ us')"
  shows "shards_ok kf ex sch' us' ws"
  unfolding shards_ok_def
proof (intro conjI allI impI)
  show "distinct (map fst ws)" using assms(1) by (simp add: shards_ok_def)
  fix s n q assume m: "map_of ws s = Some (n, q)"
  with assms(1) have o: "\<forall>i \<in> set q. item_shard kf i = Some s"
    "if ex = Some s then n \<le> Suc (in_shard kf s sch)
     else n \<le> in_shard kf s sch \<and> (q \<noteq> [] \<longrightarrow> 0 < in_shard kf s (sch @ us))"
    by (auto simp only: shards_ok_def)
  show "\<forall>i \<in> set q. item_shard kf i = Some s" by (rule o(1))
  show "if ex = Some s then n \<le> Suc (in_shard kf s sch')
    else n \<le> in_shard kf s sch' \<and> (q \<noteq> [] \<longrightarrow> 0 < in_shard kf s (sch' @ us'))"
    using o(2) assms(2) [of s] assms(3) [of s] by (auto split: if_splits)
qed

lemma shards_ok_update:
  assumes "shards_ok kf ex' sch us ws" "\<forall>i \<in> set q. item_shard kf i = Some s"
    and "n \<le> in_shard kf s sch" "q \<noteq> [] \<Longrightarrow> 0 < in_shard kf s (sch @ us)" "ex' = None \<or> ex' = Some s"
  shows "shards_ok kf None sch us (AList.update s (n, q) ws)"
  using assms unfolding shards_ok_def by (auto split: if_splits) (metis less_irrefl)+

text \<open>Admitting the next item keeps the invariant and all items, and takes at most one place.\<close>

definition admitted :: "('i \<Rightarrow> 'k \<times> ('s \<times> nat) option) \<Rightarrow> ('i, 'k, 's) keyed_state \<Rightarrow> ('i, 'k, 's) keyed_state \<Rightarrow> bool" where
  "admitted kf st st' \<longleftrightarrow> kinv kf None st' \<and> ks_items st' = ks_items st \<and>
     length (ks_scheduled st) \<le> length (ks_scheduled st') \<and>
     length (ks_scheduled st') \<le> Suc (length (ks_scheduled st)) \<and>
     (ks_scheduled st = [] \<longrightarrow> ks_scheduled st' \<noteq> [])"

lemma key_sum_update:
  assumes "distinct (map fst wk)"
  shows "map_of wk k = Some q \<Longrightarrow>
      (\<Sum>(k, q) \<in># mset (AList.update k (q @ [i]) wk). mset q) = add_mset i (\<Sum>(k, q) \<in># mset wk. mset q)"
    "map_of wk k = None \<Longrightarrow>
      (\<Sum>(k, q) \<in># mset (AList.update k [] wk). mset q) = (\<Sum>(k, q) \<in># mset wk. mset q)"
  using alist_sum_update(1) [OF assms, of k q "\<lambda>(k, q). mset q" "q @ [i]"]
    alist_sum_update(2) [OF assms, of k "\<lambda>(k, q). mset q" "[]"] by auto

lemma shard_sum_update:
  assumes "distinct (map fst ws)" "shard_entry s ws = (n, q)"
  shows "(\<Sum>(s, n, q) \<in># mset (AList.update s (m, q @ qs) ws). mset q) =
    mset qs + (\<Sum>(s, n, q) \<in># mset ws. mset q)"
proof (cases "map_of ws s")
  case None
  with assms alist_sum_update(2) [OF assms(1) None, of "\<lambda>(s, n, q). mset q" "(m, q @ qs)"] show ?thesis
    by (simp add: shard_entry_def)
next
  case (Some e)
  with assms alist_sum_update(1) [OF assms(1) Some, of "\<lambda>(s, n, q). mset q" "(m, q @ qs)"] show ?thesis
    by (simp add: shard_entry_def)
qed

lemma admit_kept:
  assumes inv: "kinv kf None st" and us: "ks_unscheduled st = item # us" and kis: "key_in_shard kf"
  shows "admitted kf st (lks_admit kf item (st\<lparr>ks_unscheduled := us\<rparr>))"
proof -
  let ?sch = "ks_scheduled st" and ?wk = "waiting_for_key st" and ?ws = "waiting_for_shard st"
  let ?k = "item_key kf item"
  have k: "keys_ok kf ?sch ?wk" and s: "shards_ok kf None ?sch (item # us) ?ws"
    using inv us by (auto simp: kinv_def)
  have dk: "distinct (map fst ?wk)" and ds: "distinct (map fst ?ws)"
    using k s by (auto simp: keys_ok_def shards_ok_def)
  have started: "shards_ok kf None (?sch @ [item]) us ?ws"
    using s by (rule shards_ok_cong) auto
  obtain info where kf: "kf item = (?k, info)" by (cases "kf item") (simp add: item_key_def)
  show ?thesis
  proof (cases "map_of ?wk ?k")
    case (Some q)
    have "?k \<in> item_key kf ` set ?sch" using keys_okD [OF k Some] by simp
    then obtain j where j: "j \<in> set ?sch" "item_key kf j = ?k" by (metis imageE)
    with kis have "item_shard kf j = item_shard kf item" unfolding key_in_shard_def by blast
    with j(1) have "0 < in_shard kf sh ?sch" if "item_shard kf item = Some sh" for sh
      using that by (auto simp: in_shard_pos)
    then have "shards_ok kf None ?sch us ?ws" by (intro shards_ok_cong [OF s]) (auto split: if_splits)
    with Some kf keys_ok_wait [OF k Some] key_sum_update(1) [OF dk Some, of item] j(1) show ?thesis
      by (auto simp: admitted_def lks_admit_def kinv_def ks_items_def us)
  next
    case None
    note start = keys_ok_start [OF k, of item] and sums = key_sum_update(2) [OF dk None]
    show ?thesis
    proof (cases info)
      case nos: None
      with None kf start started sums show ?thesis
        by (simp add: admitted_def lks_admit_def kinv_def ks_items_def us)
    next
      case (Some si)
      obtain sh mx where si: "si = (sh, mx)" by (cases si)
      have sh: "item_shard kf item = Some sh" using kf Some si by (simp add: item_shard_def)
      obtain n q where e: "shard_entry sh ?ws = (n, q)" by (cases "shard_entry sh ?ws")
      have nq: "n \<le> in_shard kf sh ?sch" "\<forall>i \<in> set q. item_shard kf i = Some sh"
        using e s by (auto simp: shard_entry_def shards_ok_def split: option.splits)
      show ?thesis
      proof (cases "mx < n")
        case True
        then have "shards_ok kf None ?sch us (AList.update sh (n, q @ [item]) ?ws)"
        proof (intro shards_ok_update [where ex' = None])
          show "shards_ok kf None ?sch us ?ws"
            using True nq(1) sh by (intro shards_ok_cong [OF s]) (auto split: if_splits)
        qed (use True nq sh in auto)
        with True None Some si kf k e shard_sum_update [OF ds e, of n "[item]"] nq(1) show ?thesis
          by (auto simp: admitted_def lks_admit_def kinv_def ks_items_def us)
      next
        case False
        have "shards_ok kf None (?sch @ [item]) us (AList.update sh (n + 1, q) ?ws)"
          by (rule shards_ok_update [OF started]) (use nq sh in auto)
        with False None Some si kf e start sums shard_sum_update [OF ds e, of "n + 1" "[]"] show ?thesis
          by (simp add: admitted_def lks_admit_def kinv_def ks_items_def us)
      qed
    qed
  qed
qed

lemma admit_all_kept:
  assumes "key_in_shard kf"
  shows "kinv kf None st \<Longrightarrow> ks_unscheduled st = xs @ us \<Longrightarrow>
    (let st' = fold (lks_admit kf) xs (st\<lparr>ks_unscheduled := us\<rparr>) in
     kinv kf None st' \<and> ks_items st' = ks_items st \<and>
     length (ks_scheduled st) \<le> length (ks_scheduled st') \<and>
     length (ks_scheduled st') \<le> length (ks_scheduled st) + length xs \<and>
     (xs \<noteq> [] \<longrightarrow> ks_scheduled st' \<noteq> []))"
proof (induction xs arbitrary: st)
  case Nil
  then have e: "st\<lparr>ks_unscheduled := us\<rparr> = st" by simp
  show ?case unfolding fold_simps(1) e using Nil by simp
next
  case (Cons x xs)
  let ?st = "lks_admit kf x (st\<lparr>ks_unscheduled := xs @ us\<rparr>)"
  have a: "admitted kf st ?st"
    by (rule admit_kept [OF Cons.prems(1) _ assms]) (simp add: Cons.prems(2))
  have "?st\<lparr>ks_unscheduled := us\<rparr> = lks_admit kf x (st\<lparr>ks_unscheduled := us\<rparr>)"
    by (auto simp: lks_admit_def Let_def split: prod.splits option.splits)
  with Cons.IH [of ?st] a show ?case by (fastforce simp: admitted_def Let_def)
qed

lemma schedule_kept:
  "key_in_shard kf \<Longrightarrow> m \<noteq> 0 \<Longrightarrow> kinv kf None st \<Longrightarrow> length (ks_scheduled st) \<le> m \<Longrightarrow>
    (let st' = lks_schedule m kf st in
     kinv kf None st' \<and> ks_items st' = ks_items st \<and> length (ks_scheduled st') \<le> m \<and>
     (ks_scheduled st \<noteq> [] \<or> ks_unscheduled st \<noteq> [] \<longrightarrow> ks_scheduled st' \<noteq> []))"
proof (induction m kf st rule: lks_schedule.induct)
  case (1 m kf st)
  show ?case
  proof (cases "length (ks_scheduled st) < m \<and> ks_unscheduled st \<noteq> []")
    case True
    define n where "n = min (length (ks_unscheduled st)) (m - length (ks_scheduled st))"
    define st1 where "st1 = fold (lks_admit kf) (take n (ks_unscheduled st)) (st\<lparr>ks_unscheduled := drop n (ks_unscheduled st)\<rparr>)"
    have n: "take n (ks_unscheduled st) \<noteq> []" "length (ks_scheduled st) + n \<le> m"
      using True by (auto simp: n_def)
    have a: "kinv kf None st1" "ks_items st1 = ks_items st" "ks_scheduled st1 \<noteq> []"
      "length (ks_scheduled st1) \<le> length (ks_scheduled st) + min (length (ks_unscheduled st)) n"
      using admit_all_kept [OF "1.prems"(1,3), of "take n (ks_unscheduled st)" "drop n (ks_unscheduled st)"]
        n unfolding st1_def by (simp_all add: Let_def)
    have "lks_schedule m kf st = lks_schedule m kf st1"
      using True by (subst lks_schedule.simps) (simp add: n_def st1_def Let_def)
    moreover have "length (ks_scheduled st1) \<le> m" using a(4) n(2) by simp
    ultimately show ?thesis
      using "1.IH" [OF True n_def, folded st1_def, OF "1.prems"(1,2)] a(1-3) by (simp add: Let_def)
  next
    case False
    then have "lks_schedule m kf st = st" by (subst lks_schedule.simps) auto
    with False "1.prems" show ?thesis by auto
  qed
qed

text \<open>A job leaves, and the queues of its key and its shard move up.\<close>

lemma in_shard_mset: "mset xs = mset ys \<Longrightarrow> in_shard kf s xs = in_shard kf s ys"
  by (metis in_shard_def mset_filter size_mset)

lemma remove_shards:
  assumes "shards_ok kf None sch us ws" "mset sch = add_mset j (mset rest)"
  shows "shards_ok kf (item_shard kf j) rest us ws"
proof -
  have sch: "in_shard kf s sch = (if item_shard kf j = Some s then 1 else 0) + in_shard kf s rest" for s
    using in_shard_mset [of sch "j # rest" kf s] assms(2) by simp
  show ?thesis
    unfolding shards_ok_def
  proof (intro conjI allI impI)
    show "distinct (map fst ws)" using assms(1) by (simp add: shards_ok_def)
    fix s n q assume m: "map_of ws s = Some (n, q)"
    note d = shards_okD [OF assms(1) m]
    show "\<forall>i \<in> set q. item_shard kf i = Some s" using d by blast
    show "if item_shard kf j = Some s then n \<le> Suc (in_shard kf s rest)
      else n \<le> in_shard kf s rest \<and> (q \<noteq> [] \<longrightarrow> 0 < in_shard kf s (rest @ us))"
      using d sch [of s] by auto
  qed
qed

lemma release_key_kept:
  assumes k: "keys_ok kf sch (waiting_for_key st)" and sch: "mset sch = add_mset j (mset (ks_scheduled st))"
    and s: "shards_ok kf ex (ks_scheduled st) (ks_unscheduled st) (waiting_for_shard st)"
    and key: "item_key kf j = key"
  defines "st' \<equiv> lks_release_key key st"
  shows "kinv kf ex st' \<and> ks_items st' = ks_items st \<and>
    length (ks_scheduled st') \<le> Suc (length (ks_scheduled st))"
proof -
  let ?wk = "waiting_for_key st" and ?sch = "ks_scheduled st"
  have set: "set sch = insert j (set ?sch)" using arg_cong [OF sch, of set_mset] by simp
  have dk: "distinct (map fst ?wk)" using k by (simp add: keys_ok_def)
  have other: "k \<in> item_key kf ` set ?sch" if "map_of ?wk k = Some q" "k \<noteq> key" for k q
    using keys_okD [OF k that(1)] that(2) set key by auto
  show ?thesis
  proof (cases "map_of ?wk key")
    case None
    then have "st' = st" by (simp add: st'_def lks_release_key_def)
    moreover have "keys_ok kf ?sch ?wk"
      unfolding keys_ok_def using dk keys_okD [OF k] other None by (metis option.distinct(1))
    ultimately show ?thesis using s by (simp add: kinv_def)
  next
    case (Some q)
    note del = alist_sum_update(3) [OF dk Some, of "\<lambda>(k, q). mset q"]
    have deleted: "keys_ok kf ?sch (AList.delete key ?wk)"
      unfolding keys_ok_def using dk keys_okD [OF k] other by auto
    show ?thesis
    proof (cases q)
      case Nil
      with Some have "st' = st\<lparr>waiting_for_key := AList.delete key ?wk\<rparr>"
        by (simp add: st'_def lks_release_key_def)
      with deleted s del Nil show ?thesis by (simp add: kinv_def ks_items_def)
    next
      case (Cons i q')
      have ik: "item_key kf i = key" "\<forall>x \<in> set q'. item_key kf x = key"
        using keys_okD [OF k Some] Cons by auto
      have sh: "shards_ok kf ex (?sch @ [i]) (ks_unscheduled st) (waiting_for_shard st)"
        using s by (rule shards_ok_cong) auto
      have ins: "keys_ok kf (?sch @ [i]) (AList.delete key ?wk)"
        "keys_ok kf (?sch @ [i]) (AList.update key q' (AList.delete key ?wk))"
        using deleted ik by (auto simp: keys_ok_def)
      have "map_of (AList.delete key ?wk) key = None" by simp
      note upd = alist_sum_update(2) [OF distinct_alist(2) [OF dk] this, of "\<lambda>(k, q). mset q" q']
      have "st' = st\<lparr>waiting_for_key := (if q' \<noteq> [] then AList.update key q' (AList.delete key ?wk)
            else AList.delete key ?wk), ks_scheduled := ?sch @ [i]\<rparr>"
        using Some Cons by (simp add: st'_def lks_release_key_def Let_def)
      with sh ins del upd Cons show ?thesis by (cases "q' = []") (auto simp: kinv_def ks_items_def ac_simps)
    qed
  qed
qed

lemma release_shard_kept:
  assumes inv: "kinv kf sh st"
  defines "st' \<equiv> lks_release_shard sh st"
  shows "kinv kf None st' \<and> ks_items st' = ks_items st \<and> ks_scheduled st' = ks_scheduled st"
proof -
  let ?ws = "waiting_for_shard st"
  have k: "keys_ok kf (ks_scheduled st) (waiting_for_key st)"
    and s: "shards_ok kf sh (ks_scheduled st) (ks_unscheduled st) ?ws" using inv by (auto simp: kinv_def)
  show ?thesis
  proof (cases sh)
    case None
    then have "st' = st" by (simp add: st'_def lks_release_shard_def)
    with None inv show ?thesis by simp
  next
    case sh: (Some sh')
    show ?thesis
    proof (cases "map_of ?ws sh'")
      case None
      then have "st' = st" by (simp add: st'_def sh lks_release_shard_def)
      moreover have "shards_ok kf None (ks_scheduled st) (ks_unscheduled st) ?ws"
        using s None unfolding shards_ok_def sh by (metis option.distinct(1) option.inject)
      ultimately show ?thesis using k by (simp add: kinv_def)
    next
      case (Some e)
      obtain n q where e: "e = (n, q)" by (cases e)
      note d = shards_okD [OF s Some [unfolded e]]
      have ds: "distinct (map fst ?ws)" using s by (simp add: shards_ok_def)
      note sum = alist_sum_update(1) [OF ds Some [unfolded e], of "\<lambda>(s, n, q). mset q"]
      show ?thesis
      proof (cases q)
        case Nil
        then have st': "st' = st\<lparr>waiting_for_shard := AList.update sh' (n - 1, []) ?ws\<rparr>"
          using Some e by (simp add: st'_def sh lks_release_shard_def)
        have "shards_ok kf None (ks_scheduled st) (ks_unscheduled st) (AList.update sh' (n - 1, []) ?ws)"
          by (rule shards_ok_update [OF s]) (use d sh in auto)
        with st' k sum [of "(n - 1, [])"] Nil show ?thesis by (simp add: kinv_def ks_items_def)
      next
        case (Cons i q')
        then have st': "st' = st\<lparr>waiting_for_shard := AList.update sh' (n - 1, q') ?ws,
            ks_unscheduled := i # ks_unscheduled st\<rparr>"
          using Some e by (simp add: st'_def sh lks_release_shard_def)
        have "shards_ok kf sh (ks_scheduled st) (i # ks_unscheduled st) ?ws"
          using s by (rule shards_ok_cong) auto
        then have "shards_ok kf None (ks_scheduled st) (i # ks_unscheduled st) (AList.update sh' (n - 1, q') ?ws)"
          by (rule shards_ok_update) (use d sh Cons in auto)
        with st' k sum [of "(n - 1, q')"] Cons show ?thesis by (simp add: kinv_def ks_items_def)
      qed
    qed
  qed
qed

section \<open>The turns of the keyed stream\<close>

text \<open>The callback as a function to output and children, where a node may have no output.\<close>

definition node_of ::
  "('i \<Rightarrow> 'k \<times> 's option \<times> (('o \<times> 'i list) option, 'e) result) \<Rightarrow> 'i \<Rightarrow> ('o option \<times> 'i list, 'e) result" where
  "node_of U i =
     (case snd (snd (U i)) of
        Err e \<Rightarrow> Err e
      | Ok None \<Rightarrow> Ok (None, [])
      | Ok (Some (out, childs)) \<Rightarrow> Ok (Some out, childs))"

text \<open>The callback reports the key and the shard of the item it was called for.\<close>

definition reports_keys ::
  "('i \<Rightarrow> 'k \<times> 's option \<times> (('o \<times> 'i list) option, 'e) result) \<Rightarrow> ('i \<Rightarrow> 'k \<times> ('s \<times> nat) option) \<Rightarrow> bool" where
  "reports_keys U kf \<longleftrightarrow> (\<forall>i. fst (U i) = item_key kf i \<and> fst (snd (U i)) = item_shard kf i)"

fun output_of :: "('o option, 'e) result \<Rightarrow> ('o, 'e) result option" where
  "output_of (Ok None) = None"
| "output_of (Ok (Some out)) = Some (Ok out)"
| "output_of (Err e) = Some (Err e)"

definition outputs :: "('o option, 'e) result multiset \<Rightarrow> ('o, 'e) result multiset" where
  "outputs M = image_mset (\<lambda>r. the (output_of r)) (filter_mset (\<lambda>r. output_of r \<noteq> None) M)"

lemma outputs_simps [simp]:
  "outputs {#} = {#}" "outputs (add_mset (Ok None) M) = outputs M"
  "outputs (add_mset (Ok (Some out)) M) = add_mset (Ok out) (outputs M)"
  "outputs (add_mset (Err e) M) = add_mset (Err e) (outputs M)"
  by (simp_all add: outputs_def)

definition lks_inv ::
  "nat \<Rightarrow> ('i \<Rightarrow> 'k \<times> 's option \<times> (('o \<times> 'i list) option, 'e) result) \<Rightarrow> ('i \<Rightarrow> 'k \<times> ('s \<times> nat) option) \<Rightarrow>
     ('i, 'k, 's) keyed_state \<Rightarrow> nat \<Rightarrow> ('o, 'e) result multiset \<Rightarrow> bool" where
  "lks_inv m U kf st n M \<longleftrightarrow> m \<noteq> 0 \<and> reports_keys U kf \<and> key_in_shard kf \<and>
     length (ks_scheduled st) \<le> m \<and> kinv kf None st \<and>
     (\<exists>M'. pending (node_of U) (ks_items st) n M' \<and> M = outputs M')"

lemma kinv_idle:
  assumes "kinv kf None st" "ks_scheduled st = []" "ks_unscheduled st = []"
  shows "ks_items st = {#}"
proof -
  have k: "keys_ok kf [] (waiting_for_key st)" and s: "shards_ok kf None [] [] (waiting_for_shard st)"
    using assms by (simp_all add: kinv_def)
  have "map_of (waiting_for_key st) k = None" for k
    using keys_okD [OF k, of k] by (cases "map_of (waiting_for_key st) k") auto
  then have "waiting_for_key st = []" by (metis map_of_eq_empty_iff ext)
  moreover have "snd (snd e) = []" if "e \<in> set (waiting_for_shard st)" for e
  proof -
    obtain sh n q where e: "e = (sh, n, q)" by (cases e)
    with that s have "map_of (waiting_for_shard st) sh = Some (n, q)" by (simp add: shards_ok_def)
    from shards_okD [OF s this] e show ?thesis by simp
  qed
  then have "(\<Sum>(s, n, q) \<in># mset (waiting_for_shard st). mset q) = {#}"
    by (intro sum_mset.neutral) force
  ultimately show ?thesis using assms(2,3) by (simp add: ks_items_def)
qed

lemma complete_kept:
  assumes inv: "kinv kf None st" and i: "i < length (ks_scheduled st)" and r: "reports_keys U kf"
    and item: "item = ks_scheduled st ! i"
  defines "st' \<equiv> lks_release_shard (fst (snd (U item))) (lks_release_key (fst (U item))
      (st\<lparr>ks_scheduled := take i (ks_scheduled st) @ drop (Suc i) (ks_scheduled st)\<rparr>))"
  shows "kinv kf None st' \<and> ks_items st = add_mset item (ks_items st') \<and>
    length (ks_scheduled st') \<le> length (ks_scheduled st)"
proof -
  let ?rest = "take i (ks_scheduled st) @ drop (Suc i) (ks_scheduled st)"
  let ?st = "st\<lparr>ks_scheduled := ?rest\<rparr>"
  have ms: "mset (ks_scheduled st) = add_mset item (mset ?rest)"
    using mset_remove_nth [OF i] item by simp
  have u: "fst (U item) = item_key kf item" "fst (snd (U item)) = item_shard kf item"
    using r by (simp_all add: reports_keys_def)
  have "shards_ok kf (item_shard kf item) ?rest (ks_unscheduled st) (waiting_for_shard st)"
    by (rule remove_shards [OF _ ms]) (use inv in \<open>simp add: kinv_def\<close>)
  then have k: "kinv kf (item_shard kf item) (lks_release_key (fst (U item)) ?st) \<and>
      ks_items (lks_release_key (fst (U item)) ?st) = ks_items ?st \<and>
      length (ks_scheduled (lks_release_key (fst (U item)) ?st)) \<le> Suc (length ?rest)"
    using release_key_kept [of kf "ks_scheduled st" ?st item "item_shard kf item" "fst (U item)"] inv ms u
    by (simp add: kinv_def)
  note s = release_shard_kept [OF conjunct1 [OF k], folded u(2)]
  have "ks_items st = add_mset item (ks_items ?st)" using ms by (simp add: ks_items_def)
  moreover have e: "Suc (length ?rest) = length (ks_scheduled st)" using i by simp
  have "length (ks_scheduled (lks_release_key (fst (U item)) ?st)) \<le> length (ks_scheduled st)"
    using conjunct2 [OF conjunct2 [OF k]] unfolding e .
  ultimately show ?thesis using k s by (simp add: st'_def)
qed

lemma lks_turn_cases:
  assumes inv: "lks_inv m U kf st n M"
  shows "(\<exists>s' n'. lks_turn m U kf k st = Again s' \<and> lks_inv m U kf s' n' M \<and> n' < n) \<or>
    (\<exists>a s' n' M'. lks_turn m U kf k st = Yield a s' \<and> lks_inv m U kf s' n' M' \<and> M = add_mset a M' \<and> n' < n) \<or>
    (lks_turn m U kf k st = Finished st \<and> M = {#})"
proof (cases "ks_scheduled st = [] \<and> ks_unscheduled st = []")
  case True
  with inv kinv_idle [of kf st] show ?thesis by (auto simp: lks_turn_def lks_inv_def pending_empty)
next
  case False
  define st1 where "st1 = lks_schedule m kf st"
  define i where "i = k mod length (ks_scheduled st1)"
  define item where "item = ks_scheduled st1 ! i"
  define st2 where "st2 = st1\<lparr>ks_scheduled := take i (ks_scheduled st1) @ drop (Suc i) (ks_scheduled st1)\<rparr>"
  define st3 where "st3 = lks_release_shard (fst (snd (U item))) (lks_release_key (fst (U item)) st2)"
  obtain M0 where p: "pending (node_of U) (ks_items st) n M0" "M = outputs M0"
    and h: "m \<noteq> 0" "reports_keys U kf" "key_in_shard kf" "length (ks_scheduled st) \<le> m" "kinv kf None st"
    using inv by (auto simp: lks_inv_def)
  have s1: "kinv kf None st1" "ks_items st1 = ks_items st" "length (ks_scheduled st1) \<le> m" "ks_scheduled st1 \<noteq> []"
    using schedule_kept [OF h(3,1,5,4)] False by (auto simp: st1_def Let_def)
  then have "i < length (ks_scheduled st1)" by (simp add: i_def)
  from complete_kept [OF s1(1) this h(2) item_def]
  have s3: "kinv kf None st3" "ks_items st = add_mset item (ks_items st3)" "length (ks_scheduled st3) \<le> m"
    using s1 by (auto simp: st3_def st2_def)
  obtain key sk unf where u: "U item = (key, sk, unf)" by (cases "U item")
  then have st3: "st3 = lks_release_shard sk (lks_release_key key st2)" by (simp add: st3_def)
  have turn: "lks_turn m U kf k st = (case unf of
        Err e \<Rightarrow> Yield (Err e) st3
      | Ok None \<Rightarrow> Again st3
      | Ok (Some (out, childs)) \<Rightarrow> Yield (Ok out) (st3\<lparr>ks_unscheduled := rev childs @ ks_unscheduled st3\<rparr>))"
    using False s1(4) unfolding lks_turn_def Let_def st1_def [symmetric] i_def [symmetric] item_def [symmetric]
      st2_def [symmetric] u prod.case st3 [symmetric] by auto
  note pc = pending_complete [OF p(1) [unfolded s3(2)]]
  show ?thesis
  proof (cases unf)
    case (Err e)
    with pc turn u s3 h p(2) show ?thesis by (fastforce simp: node_of_def lks_inv_def)
  next
    case (Ok r)
    show ?thesis
    proof (cases r)
      case None
      with Ok pc turn u s3 h p(2) show ?thesis by (fastforce simp: node_of_def lks_inv_def)
    next
      case (Some oc)
      obtain out childs where oc: "oc = (out, childs)" by (cases oc)
      let ?st = "st3\<lparr>ks_unscheduled := rev childs @ ks_unscheduled st3\<rparr>"
      have "ks_items ?st = mset childs + ks_items st3" by (simp add: ks_items_def)
      moreover have "kinv kf None ?st"
        using s3(1) unfolding kinv_def by (auto elim!: shards_ok_cong)
      ultimately show ?thesis using Ok Some oc pc turn u s3(3) h p(2)
        by (fastforce simp: node_of_def lks_inv_def)
    qed
  qed
qed

interpretation lks: stream_progress "lks_turn m U kf" "lks_inv m U kf" for m U kf
  by unfold_locales (rule lks_turn_cases)

section \<open>Properties\<close>

text \<open>
  C10.  For every finite forest of inputs, positive bound and completion order the stream ends
  after at most one turn more than there are nodes, without a panic, and has then yielded the
  result of each node exactly once; an error of one node does not keep the others out.
\<close>

theorem bounded_traversal_stream_complete:
  assumes "list_all2 (unfolds_to unfold_f) init ts" "m \<noteq> 0"
    and "sum_list (map tree_size ts) < length choices"
  shows "\<exists>items st. bounded_traversal_stream m init unfold_f choices = (items, Ended st) \<and>
    mset items = sum_list (map tree_items ts)"
proof -
  have "pending unfold_f (mset init + {#}) (sum_list (map tree_size ts) + 0) (sum_list (map tree_items ts) + {#})"
    by (rule pending_list [OF assms(1)]) (simp add: pending_empty)
  then have "bts_inv m unfold_f (bts_new init) (sum_list (map tree_size ts)) (sum_list (map tree_items ts))"
    using assms(2) by (simp add: bts_inv_def bts_new_def)
  from bts.loop_ends [OF this assms(3)] show ?thesis by (auto simp: bounded_traversal_stream_def)
qed

definition halves :: "nat \<Rightarrow> (nat \<times> nat list, string) result" where
  "halves n = (if n = 3 then Err ''three'' else Ok (n, if n = 0 then [] else [n div 2]))"

theorem bounded_traversal_stream_complete_witness:
  "\<exists>items st. bounded_traversal_stream 1 [2, 3] halves [0, 5, 1, 0, 0] = (items, Ended st) \<and>
    mset items = {#Ok 2, Ok 1, Ok 0, Err ''three''#}"
proof -
  have "list_all2 (unfolds_to halves) [2, 3] [XNode 2 [XNode 1 [XNode 0 []]], XFail ''three'']"
    by (simp add: unfolds_to_simps halves_def)
  from bounded_traversal_stream_complete [OF this, of 1 "[0, 5, 1, 0, 0]"] show ?thesis
    by (simp add: add_mset_commute)
qed


text \<open>Items with a key and a number of children still to make, all of the same key.\<close>

definition chain_unfold :: "string \<times> nat \<Rightarrow> string \<times> nat option \<times> ((nat \<times> (string \<times> nat) list) option, string) result" where
  "chain_unfold i = (fst i, Some 7, Ok (Some (snd i, if snd i = 0 then [] else [(fst i, snd i - 1)])))"

definition chain_key :: "string \<times> nat \<Rightarrow> string \<times> (nat \<times> nat) option" where
  "chain_key i = (fst i, Some (7, 3))"


text \<open>
   The keyed stream does not keep items with the same key apart: when the last item that
  waits for a key is started, the key is forgotten, and an item of the same key that arrives
  while it runs is started beside it.
\<close>

theorem limited_by_key_runs_duplicates:
  "\<exists>st. snd (limited_by_key_shardable 2 [(''a'', 1), (''a'', 0)] chain_unfold chain_key [0]) = Running st \<and>
    ks_scheduled (lks_schedule 2 chain_key st) = [(''a'', 0), (''a'', 0)]"
  by (simp add: limited_by_key_shardable_def lks_turn_def lks_new_def lks_schedule.simps lks_admit_def
      lks_release_key_def lks_release_shard_def shard_entry_def chain_key_def chain_unfold_def Let_def)

end
