(* ===== verification/Bounded_Dag.thy ===== *)
theory Bounded_Dag
  imports Bounded_Common
begin

text \<open>
  \<open>bounded_traversal_dag\<close> (\<open>shed/bounded_traversal/src/dag.rs\<close>): the traversal of an implicit
  directed acyclic graph, which unfolds and folds every node once.  A node that is being
  computed knows the locations that wait for it; a node that is done keeps its result.  When
  no job is left and the result of the initial node is not there, the graph has a cycle.
  Nodes are identified by their inputs.
\<close>

section \<open>State and operations\<close>

record ('c, 'o) dag_children =
  dc_context :: 'c
  dc_children :: "'o option list"
  dc_left :: nat

datatype ('i, 'c, 'o) dag_node =
  Pending (dn_parents: "'i node_location list") (dn_children: "('c, 'o) dag_children option")
| Done 'o

type_synonym ('i, 'c, 'o) dag_job = "'i \<times> ('i, 'c, 'o) job_work"

record ('i, 'c, 'o) dag_traversal =
  dag_init :: 'i
  dag_max :: nat
  dag_scheduled :: "('i, 'c, 'o) dag_job list"
  dag_unscheduled :: "('i, 'c, 'o) dag_job list"
  dag_tree :: "('i \<times> ('i, 'c, 'o) dag_node) list"
  unfold_limit :: "nat option"

definition dag_enqueue_unfold ::
  "'i node_location \<Rightarrow> 'i \<Rightarrow> ('i, 'c, 'o) dag_traversal \<Rightarrow> 'o option \<times> ('i, 'c, 'o) dag_traversal" where
  "dag_enqueue_unfold par value this =
     (case map_of (dag_tree this) value of
        None \<Rightarrow>
          (None, this\<lparr>dag_tree := AList.update value (Pending [par] None) (dag_tree this),
                      dag_unscheduled := (value, Unfold value) # dag_unscheduled this\<rparr>)
      | Some (Pending parents childs) \<Rightarrow>
          (None, this\<lparr>dag_tree := AList.update value (Pending (parents @ [par]) childs) (dag_tree this)\<rparr>)
      | Some (Done result) \<Rightarrow> (Some result, this))"

definition dag_enqueue_fold ::
  "'i \<Rightarrow> 'c \<Rightarrow> 'o list \<Rightarrow> ('i, 'c, 'o) dag_traversal \<Rightarrow> ('i, 'c, 'o) dag_traversal" where
  "dag_enqueue_fold value ctx vs this =
     this\<lparr>dag_unscheduled := (value, Fold ctx vs) # dag_unscheduled this\<rparr>"

definition dag_new :: "nat \<Rightarrow> 'i \<Rightarrow> nat option \<Rightarrow> ('i, 'c, 'o) dag_traversal res" where
  "dag_new max_scheduled init lim =
     (case dag_enqueue_unfold (node_location_new init 0) init
        \<lparr>dag_init = init, dag_max = max_scheduled, dag_scheduled = [], dag_unscheduled = [],
         dag_tree = [], unfold_limit = lim\<rparr> of
        (out, this) \<Rightarrow>
          if out \<noteq> None then Inl (Panic ''assertion failed: init_out.is_none()'') else Inr this)"

fun dag_enqueue_children ::
  "'i \<Rightarrow> nat \<Rightarrow> 'i list \<Rightarrow> ('i, 'c, 'o) dag_traversal \<Rightarrow> 'o option list \<times> ('i, 'c, 'o) dag_traversal" where
  "dag_enqueue_children value ci [] this = ([], this)"
| "dag_enqueue_children value ci (child # rest) this =
     (case dag_enqueue_unfold (node_location_new value ci) child this of
        (out, this) \<Rightarrow>
          (case dag_enqueue_children value (ci + 1) rest this of (outs, this) \<Rightarrow> (out # outs, this)))"

text \<open>An iterator cannot yield more items than a vector holds, so \<open>take(usize::MAX)\<close> takes all.\<close>

definition dag_limit_children :: "('i, 'c, 'o) dag_traversal \<Rightarrow> 'i list \<Rightarrow> 'i list" where
  "dag_limit_children this childs =
     (case unfold_limit this of
        Some lim \<Rightarrow>
          take (usize_saturating_sub (if lim < usize_limit then lim else usize_limit - 1)
                  (length (dag_tree this))) childs
      | None \<Rightarrow> childs)"

definition dag_process_unfold ::
  "'i \<Rightarrow> 'c \<times> 'i list \<Rightarrow> ('i, 'c, 'o) dag_traversal \<Rightarrow> ('i, 'c, 'o) dag_traversal res" where
  "dag_process_unfold value unfolded this =
     (case unfolded of (ctx, childs) \<Rightarrow>
        (case dag_enqueue_children value 0 (dag_limit_children this childs) this of (outs, this) \<Rightarrow>
           (let left = length (filter (\<lambda>out. out = None) outs) in
            if left \<noteq> 0 then
              (case map_of (dag_tree this) value of
                 None \<Rightarrow> Inl (Panic ''unfold referenced invalid node'')
               | Some (Pending parents _) \<Rightarrow>
                   Inr (this\<lparr>dag_tree := AList.update value
                     (Pending parents (Some \<lparr>dc_context = ctx, dc_children = outs, dc_left = left\<rparr>))
                     (dag_tree this)\<rparr>)
               | Some (Done _) \<Rightarrow> Inl (Panic ''running unfold for Node::Done''))
            else Inr (dag_enqueue_fold value ctx (List.map_filter id outs) this))))"

definition dag_update_location ::
  "'i node_location \<Rightarrow> 'o \<Rightarrow> ('i, 'c, 'o) dag_traversal \<Rightarrow> ('i, 'c, 'o) dag_traversal res" where
  "dag_update_location l v this =
     (case map_of (dag_tree this) (node_index l) of
        None \<Rightarrow> Inl (Panic ''`update_location` referenced invalid node'')
      | Some (Done _) \<Rightarrow> Inl (Panic ''updating already resolved parent node'')
      | Some (Pending parents None) \<Rightarrow> Inl (Panic ''`update_location` referenced not blocked node'')
      | Some (Pending parents (Some wait)) \<Rightarrow>
          res_bind (vec_index (dc_children wait) (child_index l)) (\<lambda>old.
          if old \<noteq> None then Inl (Panic ''assertion failed: children[child_index].is_none()'')
          else res_bind (vec_write (dc_children wait) (child_index l) (Some v)) (\<lambda>childs.
          if dc_left wait = 0 then Inl (Panic ''attempt to subtract with overflow'')
          else
            (let wait = wait\<lparr>dc_children := childs, dc_left := dc_left wait - 1\<rparr> in
             if dc_left wait = 0 then
               Inr (dag_enqueue_fold (node_index l) (dc_context wait) (List.map_filter id (dc_children wait))
                 (this\<lparr>dag_tree := AList.update (node_index l) (Pending parents None) (dag_tree this)\<rparr>))
             else
               Inr (this\<lparr>dag_tree := AList.update (node_index l) (Pending parents (Some wait)) (dag_tree this)\<rparr>)))))"

fun dag_update_all ::
  "'i node_location list \<Rightarrow> 'o \<Rightarrow> ('i, 'c, 'o) dag_traversal \<Rightarrow> ('i, 'c, 'o) dag_traversal res" where
  "dag_update_all [] v this = Inr this"
| "dag_update_all (l # ls) v this =
     res_bind (dag_update_location l v this) (dag_update_all ls v)"

definition dag_process_fold ::
  "'i \<Rightarrow> 'o \<Rightarrow> ('i, 'c, 'o) dag_traversal \<Rightarrow> ('i, 'c, 'o) dag_traversal res" where
  "dag_process_fold value result this =
     (case map_of (dag_tree this) value of
        None \<Rightarrow> Inl (Panic ''fold referenced invalid node'')
      | Some (Done _) \<Rightarrow> Inl (Panic ''running fold for Node::Done'')
      | Some (Pending parents _) \<Rightarrow>
          dag_update_all parents result
            (this\<lparr>dag_tree := AList.update value (Done result) (dag_tree this)\<rparr>))"

definition dag_schedule :: "('i, 'c, 'o) dag_traversal \<Rightarrow> ('i, 'c, 'o) dag_traversal res" where
  "dag_schedule this =
     (if dag_max this < length (dag_scheduled this)
      then Inl (Panic ''attempt to subtract with overflow'')
      else
        (let n = min (length (dag_unscheduled this)) (dag_max this - length (dag_scheduled this))
         in Inr (this\<lparr>dag_scheduled := dag_scheduled this @ take n (dag_unscheduled this),
                      dag_unscheduled := drop n (dag_unscheduled this)\<rparr>)))"

definition dag_turn ::
  "('i \<Rightarrow> ('c \<times> 'i list, 'e) result) \<Rightarrow> ('c \<Rightarrow> 'o list \<Rightarrow> ('o, 'e) result) \<Rightarrow> nat \<Rightarrow>
     ('i, 'c, 'o) dag_traversal \<Rightarrow> (('i, 'c, 'o) dag_traversal, ('o option, 'e) result) poll_step" where
  "dag_turn unfold_f fold_f k this =
     (if dag_unscheduled this = [] \<and> dag_scheduled this = [] then Ready (Ok None)
      else
        (case dag_schedule this of
           Inl p \<Rightarrow> Panicked p
         | Inr this \<Rightarrow>
             if dag_scheduled this = [] then Continue this
             else
               (let i = k mod length (dag_scheduled this);
                    job = dag_scheduled this ! i;
                    this = this\<lparr>dag_scheduled := take i (dag_scheduled this) @ drop (Suc i) (dag_scheduled this)\<rparr>
                in case job_output unfold_f fold_f (snd job) of
                     Inl (Err e) \<Rightarrow> Ready (Err e)
                   | Inl (Ok unfolded) \<Rightarrow> continue_with (dag_process_unfold (fst job) unfolded this)
                   | Inr r \<Rightarrow>
                       if fst job = dag_init this then
                         if dag_unscheduled this \<noteq> []
                         then Panicked (Panic ''assertion failed: unscheduled.is_empty()'')
                         else if dag_scheduled this \<noteq> []
                         then Panicked (Panic ''assertion failed: scheduled.is_empty()'')
                         else Ready (case r of Ok v \<Rightarrow> Ok (Some v) | Err e \<Rightarrow> Err e)
                       else
                         (case r of
                            Err e \<Rightarrow> Ready (Err e)
                          | Ok v \<Rightarrow> continue_with (dag_process_fold (fst job) v this)))))"

definition bounded_traversal_dag_limited ::
  "nat \<Rightarrow> 'i \<Rightarrow> ('i \<Rightarrow> ('c \<times> 'i list, 'e) result) \<Rightarrow> ('c \<Rightarrow> 'o list \<Rightarrow> ('o, 'e) result) \<Rightarrow> nat option \<Rightarrow>
     nat list \<Rightarrow> (('i, 'c, 'o) dag_traversal, ('o option, 'e) result) poll_step" where
  "bounded_traversal_dag_limited max_scheduled init unfold_f fold_f lim choices =
     (case dag_new max_scheduled init lim of
        Inl p \<Rightarrow> Panicked p
      | Inr this \<Rightarrow> poll_loop (dag_turn unfold_f fold_f) choices this)"

definition bounded_traversal_dag ::
  "nat \<Rightarrow> 'i \<Rightarrow> ('i \<Rightarrow> ('c \<times> 'i list, 'e) result) \<Rightarrow> ('c \<Rightarrow> 'o list \<Rightarrow> ('o, 'e) result) \<Rightarrow>
     nat list \<Rightarrow> (('i, 'c, 'o) dag_traversal, ('o option, 'e) result) poll_step" where
  "bounded_traversal_dag max_scheduled init unfold_f fold_f choices =
     bounded_traversal_dag_limited max_scheduled init unfold_f fold_f None choices"

section \<open>The reference: values of nodes\<close>

text \<open>The value of a node, from the values of its children; a node on a cycle has none.\<close>

inductive dag_val ::
  "('i \<Rightarrow> ('c \<times> 'i list, 'e) result) \<Rightarrow> ('c \<Rightarrow> 'o list \<Rightarrow> ('o, 'e) result) \<Rightarrow> 'i \<Rightarrow> 'o \<Rightarrow> bool"
  for U :: "'i \<Rightarrow> ('c \<times> 'i list, 'e) result" and F :: "'c \<Rightarrow> 'o list \<Rightarrow> ('o, 'e) result" where
  dag_val_node: "U x = Ok (c, is) \<Longrightarrow> list_all2 (dag_val U F) is vs \<Longrightarrow> F c vs = Ok v \<Longrightarrow> dag_val U F x v"

definition dag_edges :: "('i \<Rightarrow> ('c \<times> 'i list, 'e) result) \<Rightarrow> ('i \<times> 'i) set" where
  "dag_edges U = {(x, y). \<exists>c is. U x = Ok (c, is) \<and> y \<in> set is}"

text \<open>A finite set of inputs that holds the children of its inputs.\<close>

definition dag_closed :: "('i \<Rightarrow> ('c \<times> 'i list, 'e) result) \<Rightarrow> 'i set \<Rightarrow> bool" where
  "dag_closed U V \<longleftrightarrow> finite V \<and> (\<forall>x \<in> V. \<forall>c is. U x = Ok (c, is) \<longrightarrow> set is \<subseteq> V)"

definition dag_result ::
  "('i \<Rightarrow> ('c \<times> 'i list, 'e) result) \<Rightarrow> ('c \<Rightarrow> 'o list \<Rightarrow> ('o, 'e) result) \<Rightarrow> 'i set \<Rightarrow> 'i \<Rightarrow>
     ('o option, 'e) result \<Rightarrow> bool" where
  "dag_result U F V init r \<longleftrightarrow>
     (case r of
        Ok (Some v) \<Rightarrow> dag_val U F init v
      | Ok None \<Rightarrow> (\<nexists>v. dag_val U F init v) \<and> (\<exists>x \<in> V. (x, x) \<in> (dag_edges U)\<^sup>+)
      | Err e \<Rightarrow> (\<exists>x \<in> V. U x = Err e \<or>
          (\<exists>c is vs. U x = Ok (c, is) \<and> list_all2 (dag_val U F) is vs \<and> F c vs = Err e)))"

lemma finite_successors_cycle:
  assumes "finite S" "S \<noteq> {}" "\<And>x. x \<in> S \<Longrightarrow> \<exists>y \<in> S. (x, y) \<in> r"
  shows "\<exists>x \<in> S. (x, x) \<in> r\<^sup>+"
proof (rule ccontr)
  assume none: "\<not> ?thesis"
  let ?r = "r \<inter> S \<times> S"
  have "acyclic ?r"
  proof (rule acyclicI, intro allI notI)
    fix x assume "(x, x) \<in> ?r\<^sup>+"
    then have "(x, x) \<in> r\<^sup>+" "x \<in> S" by (auto intro: trancl_mono elim: tranclE)
    with none show False by blast
  qed
  moreover have "finite ?r" using assms(1) by simp
  ultimately have "wf (?r\<inverse>)" by (simp add: finite_acyclic_wf_converse)
  then obtain z where "z \<in> S" "\<And>y. (y, z) \<in> ?r\<inverse> \<Longrightarrow> y \<notin> S"
    using assms(2) by (metis ex_in_conv wfE_min)
  with assms(3) [of z] show False by blast
qed

text \<open>Nodes that each have a child among them have no value.\<close>

lemma no_value:
  assumes "\<And>x. x \<in> S \<Longrightarrow> \<exists>y \<in> S. (x, y) \<in> dag_edges U" "dag_val U F x v"
  shows "x \<notin> S"
  using assms(2)
proof induction
  case (dag_val_node x c "is" vs v)
  then have "\<forall>y \<in> set is. y \<notin> S" by (auto simp: list_all2_conv_all_nth in_set_conv_nth)
  with dag_val_node(1) assms(1) [of x] show ?case by (auto simp: dag_edges_def)
qed

section \<open>The invariant on finished, waiting and running nodes\<close>

text \<open>
  \<open>K\<close> are the nodes seen, \<open>D\<close> the finished ones, \<open>W\<close> the ones that wait, with their context and
  the results of their children, \<open>P\<close> the locations a node is awaited at, \<open>J\<close> the jobs.  Each
  node seen is finished, waits or has one job; \<open>rank\<close> grows along the order of discovery.
\<close>

type_synonym ('i, 'c, 'o) waiting = "'i \<Rightarrow> ('c \<times> 'o option list) option"

definition jobs_ok ::
  "('i \<Rightarrow> ('c \<times> 'i list, 'e) result) \<Rightarrow> ('c \<Rightarrow> 'o list \<Rightarrow> ('o, 'e) result) \<Rightarrow>
     ('i, 'c, 'o) dag_job multiset \<Rightarrow> bool" where
  "jobs_ok U F J \<longleftrightarrow> (\<forall>(x, w) \<in># J. w = Unfold x \<or>
     (\<exists>c vs is. w = Fold c vs \<and> U x = Ok (c, is) \<and> list_all2 (dag_val U F) is vs))"

definition waits_ok ::
  "('i \<Rightarrow> ('c \<times> 'i list, 'e) result) \<Rightarrow> ('c \<Rightarrow> 'o list \<Rightarrow> ('o, 'e) result) \<Rightarrow>
     ('i, 'c, 'o) waiting \<Rightarrow> ('i \<Rightarrow> 'i node_location list) \<Rightarrow> bool" where
  "waits_ok U F W P \<longleftrightarrow> (\<forall>x ctx cs. W x = Some (ctx, cs) \<longrightarrow>
     (\<exists>is. U x = Ok (ctx, is) \<and> length cs \<le> length is \<and>
        (\<forall>c < length cs. (case cs ! c of
            Some v \<Rightarrow> dag_val U F (is ! c) v
          | None \<Rightarrow> node_location_new x c \<in> set (P (is ! c))))))"

definition awaited ::
  "('i \<Rightarrow> ('c \<times> 'i list, 'e) result) \<Rightarrow> ('i, 'c, 'o) waiting \<Rightarrow> 'i \<Rightarrow> 'i node_location \<Rightarrow> bool" where
  "awaited U W z l \<longleftrightarrow> (\<exists>ctx cs is. W (node_index l) = Some (ctx, cs) \<and> child_index l < length cs \<and>
     cs ! child_index l = None \<and> U (node_index l) = Ok (ctx, is) \<and> is ! child_index l = z)"

definition parents_ok ::
  "('i \<Rightarrow> ('c \<times> 'i list, 'e) result) \<Rightarrow> 'i \<Rightarrow> ('i, 'c, 'o) waiting \<Rightarrow> ('i \<Rightarrow> 'i node_location list) \<Rightarrow> bool" where
  "parents_ok U init W P \<longleftrightarrow>
     (\<forall>z. z \<noteq> init \<longrightarrow> distinct (P z) \<and> (\<forall>l \<in> set (P z). awaited U W z l))"

definition ainv ::
  "('i \<Rightarrow> ('c \<times> 'i list, 'e) result) \<Rightarrow> ('c \<Rightarrow> 'o list \<Rightarrow> ('o, 'e) result) \<Rightarrow> 'i set \<Rightarrow> 'i \<Rightarrow>
     'i set \<Rightarrow> ('i \<Rightarrow> 'o option) \<Rightarrow> ('i, 'c, 'o) waiting \<Rightarrow> ('i \<Rightarrow> 'i node_location list) \<Rightarrow>
     ('i, 'c, 'o) dag_job multiset \<Rightarrow> ('i \<Rightarrow> nat) \<Rightarrow> bool" where
  "ainv U F V init K D W P J rank \<longleftrightarrow>
     K \<subseteq> V \<and> init \<in> K \<and> D init = None \<and> dom D \<subseteq> K \<and> dom W \<subseteq> K \<and> dom D \<inter> dom W = {} \<and>
     (\<forall>x. count (image_mset fst J) x = (if x \<in> K \<and> D x = None \<and> W x = None then 1 else 0)) \<and>
     jobs_ok U F J \<and> (\<forall>x v. D x = Some v \<longrightarrow> dag_val U F x v) \<and>
     waits_ok U F W P \<and> parents_ok U init W P \<and>
     (\<forall>z \<in> K. z \<noteq> init \<and> D z = None \<longrightarrow> P z \<noteq> [] \<and> rank (node_index (hd (P z))) < rank z)"

definition dag_weight :: "('i, 'c, 'o) job_work \<Rightarrow> nat" where
  "dag_weight w = (case w of Unfold _ \<Rightarrow> 2 | Fold _ _ \<Rightarrow> 1)"

definition dag_work ::
  "'i set \<Rightarrow> 'i set \<Rightarrow> ('i, 'c, 'o) waiting \<Rightarrow> ('i, 'c, 'o) dag_job multiset \<Rightarrow> nat" where
  "dag_work V K W J = 2 * card (V - K) + (\<Sum>(x, w) \<in># J. dag_weight w) + card (dom W)"

lemma ainv_count:
  "ainv U F V init K D W P J rank \<Longrightarrow>
     count (image_mset fst J) x = (if x \<in> K \<and> D x = None \<and> W x = None then 1 else 0)"
  by (simp add: ainv_def)

lemma awaited_cong:
  "awaited U W z l \<Longrightarrow> W' (node_index l) = W (node_index l) \<Longrightarrow> awaited U W' z l"
  by (simp add: awaited_def)

text \<open>While the initial node has a job, no other node has.\<close>

lemma init_job_alone:
  assumes inv: "ainv U F V init K D W P (add_mset (init, w) J) rank" and fin: "finite K"
  shows "J = {#}"
proof (rule ccontr)
  assume "J \<noteq> {#}"
  then obtain y w' where y: "(y, w') \<in># J" by (metis multiset_nonemptyE surj_pair)
  have cnt: "count (image_mset fst (add_mset (init, w) J)) x = (if x \<in> K \<and> D x = None \<and> W x = None then 1 else 0)" for x
    using inv by (simp add: ainv_def)
  from y have "y \<in># image_mset fst J" by force
  then obtain n where mem: "count (image_mset fst J) y = Suc n"
    by (metis count_greater_zero_iff gr0_implies_Suc)
  have Wi: "W init = None" using cnt [of init] by (simp split: if_splits)
  have "y \<noteq> init" using cnt [of init] mem by (auto split: if_splits)
  then have "y \<in> K" "D y = None" using cnt [of y] mem by (auto split: if_splits)
  let ?S = "{z \<in> K. z \<noteq> init \<and> D z = None}"
  have "y \<in> ?S" using \<open>y \<noteq> init\<close> \<open>y \<in> K\<close> \<open>D y = None\<close> by simp
  then obtain z where z: "z \<in> ?S" "\<And>x. x \<in> ?S \<Longrightarrow> rank z \<le> rank x"
    using ex_has_least_nat [of "\<lambda>x. x \<in> ?S" y rank] by blast
  then have h: "P z \<noteq> []" "rank (node_index (hd (P z))) < rank z" using inv by (auto simp: ainv_def)
  have "awaited U W z (hd (P z))" using inv z(1) h(1) by (auto simp: ainv_def parents_ok_def)
  then have "node_index (hd (P z)) \<in> dom W" by (auto simp: awaited_def)
  moreover have "dom W \<subseteq> K" "dom D \<inter> dom W = {}" using inv by (simp_all add: ainv_def)
  ultimately have "node_index (hd (P z)) \<in> ?S" using Wi by auto
  with z(2) h(2) show False by fastforce
qed

text \<open>An unfold begins: the node waits, with no child looked at.\<close>

lemma unfold_begins:
  assumes inv: "ainv U F V init K D W P (add_mset (x, Unfold x) J) rank" and u: "U x = Ok (ctx, is)"
  shows "ainv U F V init K D (W(x \<mapsto> (ctx, []))) P J rank"
proof -
  have cnt: "count (image_mset fst (add_mset (x, Unfold x) J)) y =
      (if y \<in> K \<and> D y = None \<and> W y = None then 1 else 0)" for y
    using inv by (simp add: ainv_def)
  have x: "x \<in> K" "D x = None" "W x = None" using cnt [of x] by (auto split: if_splits)
  have "parents_ok U init (W(x \<mapsto> (ctx, []))) P"
    unfolding parents_ok_def
  proof (intro allI impI conjI ballI)
    fix z assume z: "z \<noteq> init"
    show "distinct (P z)" using inv z by (simp add: ainv_def parents_ok_def)
    fix l assume "l \<in> set (P z)"
    then have a: "awaited U W z l" using inv z by (simp add: ainv_def parents_ok_def)
    then have "node_index l \<noteq> x" using x(3) by (auto simp: awaited_def)
    with a show "awaited U (W(x \<mapsto> (ctx, []))) z l" by (simp add: awaited_def)
  qed
  moreover have "waits_ok U F (W(x \<mapsto> (ctx, []))) P"
    using inv u by (auto simp: ainv_def waits_ok_def)
  moreover have "count (image_mset fst J) y =
      (if y \<in> K \<and> D y = None \<and> (W(x \<mapsto> (ctx, []))) y = None then 1 else 0)" for y
    using cnt [of y] x by (auto split: if_splits)
  ultimately show ?thesis using inv x
    by (simp add: ainv_def jobs_ok_def) blast
qed

text \<open>The next child is finished.\<close>

lemma child_done:
  assumes inv: "ainv U F V init K D W P J rank" and w: "W x = Some (ctx, cs)"
    and u: "U x = Ok (ctx, is)" "length cs < length is" and d: "D (is ! length cs) = Some v"
  shows "ainv U F V init K D (W(x \<mapsto> (ctx, cs @ [Some v]))) P J rank"
proof -
  let ?W = "W(x \<mapsto> (ctx, cs @ [Some v]))"
  have aw: "awaited U ?W z l" if "awaited U W z l" for z l
    using that w u by (auto simp: awaited_def nth_append)
  have "waits_ok U F ?W P"
    unfolding waits_ok_def
  proof (intro allI impI)
    fix y c0 cs0 assume y: "?W y = Some (c0, cs0)"
    show "\<exists>is. U y = Ok (c0, is) \<and> length cs0 \<le> length is \<and>
        (\<forall>c < length cs0. case cs0 ! c of Some v \<Rightarrow> dag_val U F (is ! c) v
           | None \<Rightarrow> node_location_new y c \<in> set (P (is ! c)))"
    proof (cases "y = x")
      case False
      with y inv show ?thesis by (auto simp: ainv_def waits_ok_def)
    next
      case True
      obtain is' where is': "U x = Ok (ctx, is')" "\<forall>c < length cs. case cs ! c of Some v \<Rightarrow> dag_val U F (is' ! c) v
           | None \<Rightarrow> node_location_new x c \<in> set (P (is' ! c))"
        using inv w unfolding ainv_def waits_ok_def by blast
      moreover have "dag_val U F (is ! length cs) v" using inv d by (simp add: ainv_def)
      ultimately show ?thesis using True y u by (auto simp: nth_append less_Suc_eq)
    qed
  qed
  moreover have "parents_ok U init ?W P" using inv aw by (simp add: ainv_def parents_ok_def)
  moreover have "(if y \<in> K \<and> D y = None \<and> ?W y = None then 1 else 0) =
      (if y \<in> K \<and> D y = None \<and> W y = None then 1 else (0::nat))" for y
    using w by auto
  moreover have "dom ?W = dom W" using w by auto
  ultimately show ?thesis using inv by (simp add: ainv_def)
qed

text \<open>The rules of \<open>waits_ok\<close> and \<open>parents_ok\<close> in the form the steps use.\<close>

lemma waits_okD:
  "waits_ok U F W P \<Longrightarrow> W x = Some (ctx, cs) \<Longrightarrow> U x = Ok (ctx, is) \<Longrightarrow>
     length cs \<le> length is \<and> (\<forall>c < length cs. case cs ! c of
         Some v \<Rightarrow> dag_val U F (is ! c) v
       | None \<Rightarrow> node_location_new x c \<in> set (P (is ! c)))"
  by (fastforce simp: waits_ok_def)

lemma waits_ok_unfolded: "waits_ok U F W P \<Longrightarrow> W x = Some (ctx, cs) \<Longrightarrow> \<exists>is. U x = Ok (ctx, is)"
  unfolding waits_ok_def by blast

lemma waits_okI:
  assumes "\<And>x ctx cs. W x = Some (ctx, cs) \<Longrightarrow> \<exists>is. U x = Ok (ctx, is) \<and> length cs \<le> length is \<and>
    (\<forall>c < length cs. case cs ! c of Some v \<Rightarrow> dag_val U F (is ! c) v
       | None \<Rightarrow> node_location_new x c \<in> set (P (is ! c)))"
  shows "waits_ok U F W P"
  using assms unfolding waits_ok_def by blast

lemma waits_ok_step:
  assumes ok: "waits_ok U F W P" and u: "U x = Ok (ctx, is)" "length cs \<le> length is"
    and mono: "\<And>y c i. y \<noteq> x \<Longrightarrow> node_location_new y c \<in> set (P i) \<Longrightarrow> node_location_new y c \<in> set (P' i)"
    and new: "\<And>c. c < length cs \<Longrightarrow> (case cs ! c of Some v \<Rightarrow> dag_val U F (is ! c) v
       | None \<Rightarrow> node_location_new x c \<in> set (P' (is ! c)))"
  shows "waits_ok U F (W(x \<mapsto> (ctx, cs))) P'"
proof (rule waits_okI)
  fix y c0 cs0 assume y: "(W(x \<mapsto> (ctx, cs))) y = Some (c0, cs0)"
  show "\<exists>is. U y = Ok (c0, is) \<and> length cs0 \<le> length is \<and>
      (\<forall>c < length cs0. case cs0 ! c of Some v \<Rightarrow> dag_val U F (is ! c) v
         | None \<Rightarrow> node_location_new y c \<in> set (P' (is ! c)))"
  proof (cases "y = x")
    case True
    with y u new show ?thesis by auto
  next
    case False
    with y have Wy: "W y = Some (c0, cs0)" by simp
    then obtain is' where is': "U y = Ok (c0, is')" using waits_ok_unfolded [OF ok] by blast
    from waits_okD [OF ok Wy is'] mono [OF False] is' show ?thesis
      by (auto split: option.splits)
  qed
qed

text \<open>The next child is being computed: the node registers with it.\<close>

lemma child_pending:
  assumes inv: "ainv U F V init K D W P J rank" and w: "W x = Some (ctx, cs)"
    and u: "U x = Ok (ctx, is)" "length cs < length is" and y: "y = is ! length cs" "y \<in> K" "D y = None"
  shows "ainv U F V init K D (W(x \<mapsto> (ctx, cs @ [None]))) (P(y := P y @ [node_location_new x (length cs)])) J rank"
proof -
  let ?W = "W(x \<mapsto> (ctx, cs @ [None]))" and ?l = "node_location_new x (length cs)"
  let ?P = "P(y := P y @ [?l])"
  have ok: "waits_ok U F W P" and par: "parents_ok U init W P" using inv by (auto simp: ainv_def)
  have aw: "awaited U ?W z l" if "awaited U W z l" for z l
    using that w u by (auto simp: awaited_def nth_append)
  have new: "awaited U ?W y ?l" using u y by (simp add: awaited_def)
  have fresh: "\<not> awaited U W y ?l" using w by (simp add: awaited_def)
  have "waits_ok U F ?W ?P"
  proof (rule waits_ok_step [OF ok u(1)])
    fix c assume "c < length (cs @ [None])"
    then show "case (cs @ [None]) ! c of Some v \<Rightarrow> dag_val U F (is ! c) v
        | None \<Rightarrow> node_location_new x c \<in> set (?P (is ! c))"
      using waits_okD [OF ok w u(1)] y(1) by (auto simp: nth_append less_Suc_eq split: option.splits)
  qed (use u in auto)
  moreover have "parents_ok U init ?W ?P"
    using par aw new fresh by (auto simp: parents_ok_def)
  moreover have "(if z \<in> K \<and> D z = None \<and> ?W z = None then 1 else 0) =
      (if z \<in> K \<and> D z = None \<and> W z = None then 1 else (0::nat))" for z
    using w by auto
  moreover have "dom ?W = dom W" using w by auto
  ultimately show ?thesis using inv by (simp add: ainv_def)
qed

text \<open>The next child is new: it gets a job and the node registers with it.\<close>

lemma child_new:
  assumes inv: "ainv U F V init K D W P J rank" and w: "W x = Some (ctx, cs)"
    and u: "U x = Ok (ctx, is)" "length cs < length is" and y: "y = is ! length cs" "y \<notin> K" "y \<in> V" "P y = []"
  shows "ainv U F V init (insert y K) D (W(x \<mapsto> (ctx, cs @ [None])))
    (P(y := [node_location_new x (length cs)])) (add_mset (y, Unfold y) J) (rank(y := Suc (rank x)))"
proof -
  let ?W = "W(x \<mapsto> (ctx, cs @ [None]))" and ?l = "node_location_new x (length cs)"
  let ?P = "P(y := [?l])" and ?rank = "rank(y := Suc (rank x))"
  have ok: "waits_ok U F W P" and par: "parents_ok U init W P" using inv by (auto simp: ainv_def)
  have xK: "x \<in> K" "x \<noteq> y" using inv w y(2) by (auto simp: ainv_def)
  have aw: "awaited U ?W z l" if "awaited U W z l" for z l
    using that w u by (auto simp: awaited_def nth_append)
  have new: "awaited U ?W y ?l" using u y by (simp add: awaited_def)
  have "waits_ok U F ?W ?P"
  proof (rule waits_ok_step [OF ok u(1)])
    fix c assume "c < length (cs @ [None])"
    then show "case (cs @ [None]) ! c of Some v \<Rightarrow> dag_val U F (is ! c) v
        | None \<Rightarrow> node_location_new x c \<in> set (?P (is ! c))"
      using waits_okD [OF ok w u(1)] y by (auto simp: nth_append less_Suc_eq split: option.splits)
  qed (use u y in auto)
  moreover have "parents_ok U init ?W ?P"
    using par aw new by (auto simp: parents_ok_def)
  moreover have "count (image_mset fst (add_mset (y, Unfold y) J)) z =
      (if z \<in> insert y K \<and> D z = None \<and> ?W z = None then 1 else 0)" for z
  proof -
    have "count (image_mset fst J) z = (if z \<in> K \<and> D z = None \<and> W z = None then 1 else 0)"
      using inv by (simp add: ainv_def)
    moreover have "D y = None" "W y = None" using inv y(2) by (auto simp: ainv_def)
    ultimately show ?thesis using w y(2) xK by auto
  qed
  moreover have "?P z \<noteq> [] \<and> ?rank (node_index (hd (?P z))) < ?rank z"
    if "z \<in> insert y K" "z \<noteq> init" "D z = None" for z
  proof (cases "z = y")
    case True
    with xK show ?thesis by simp
  next
    case False
    then have h: "P z \<noteq> []" "rank (node_index (hd (P z))) < rank z" using inv that by (auto simp: ainv_def)
    then have "awaited U W z (hd (P z))" using par that(2) by (simp add: parents_ok_def)
    then have "node_index (hd (P z)) \<in> K" using inv by (auto simp: ainv_def awaited_def)
    with h False y(2) show ?thesis by auto
  qed
  moreover have "jobs_ok U F (add_mset (y, Unfold y) J)" using inv by (auto simp: ainv_def jobs_ok_def)
  moreover have "dom ?W = dom W" using w by auto
  ultimately show ?thesis using inv y(3) by (auto simp: ainv_def)
qed

text \<open>All children are there: the node is ready to be folded.\<close>

lemma wait_over:
  assumes inv: "ainv U F V init K D W P J rank" and w: "W x = Some (ctx, cs)"
    and u: "U x = Ok (ctx, is)" "length cs = length is" and full: "None \<notin> set cs"
  shows "ainv U F V init K D (W(x := None)) P (add_mset (x, Fold ctx (List.map_filter id cs)) J) rank"
proof -
  let ?W = "W(x := None)"
  have ok: "waits_ok U F W P" and par: "parents_ok U init W P" using inv by (auto simp: ainv_def)
  have not_x: "node_index l \<noteq> x" if "awaited U W z l" for z l
    using that w full by (auto simp: awaited_def in_set_conv_nth)
  have "list_all2 (dag_val U F) is (List.map_filter id cs)"
  proof -
    have cs: "cs = map Some (List.map_filter id cs)" using map_filter_id [OF full] by simp
    then have len: "length (List.map_filter id cs) = length is" using u(2) by (metis length_map)
    have "dag_val U F (is ! c) (List.map_filter id cs ! c)" if "c < length is" for c
      using waits_okD [OF ok w u(1)] that u(2) len cs by (metis nth_map option.simps(5))
    then show ?thesis using len by (simp add: list_all2_conv_all_nth)
  qed
  then have "jobs_ok U F (add_mset (x, Fold ctx (List.map_filter id cs)) J)"
    using inv u(1) by (auto simp: ainv_def jobs_ok_def)
  moreover have "parents_ok U init ?W P"
  proof -
    have "awaited U ?W z l" if "awaited U W z l" for z l
      using that not_x [OF that] by (simp add: awaited_def)
    with par show ?thesis by (simp add: parents_ok_def)
  qed
  moreover have "waits_ok U F ?W P" using ok by (auto simp: waits_ok_def)
  moreover have "count (image_mset fst (add_mset (x, Fold ctx (List.map_filter id cs)) J)) z =
      (if z \<in> K \<and> D z = None \<and> ?W z = None then 1 else 0)" for z
  proof -
    have "count (image_mset fst J) z = (if z \<in> K \<and> D z = None \<and> W z = None then 1 else 0)"
      using inv by (simp add: ainv_def)
    moreover have "x \<in> K" "D x = None" using inv w by (auto simp: ainv_def)
    ultimately show ?thesis using w by auto
  qed
  ultimately show ?thesis using inv by (auto simp: ainv_def)
qed

text \<open>A fold below the initial node finishes its node; then the locations that wait are served.\<close>

lemma fold_finishes:
  assumes inv: "ainv U F V init K D W P (add_mset (x, Fold c vs) J) rank" and x: "x \<noteq> init" and v: "F c vs = Ok v"
  shows "ainv U F V init K (D(x \<mapsto> v)) W P J rank"
proof -
  have cnt: "count (image_mset fst (add_mset (x, Fold c vs) J)) y =
      (if y \<in> K \<and> D y = None \<and> W y = None then 1 else 0)" for y
    using inv by (simp add: ainv_def)
  have x': "x \<in> K" "D x = None" "W x = None" using cnt [of x] by (auto split: if_splits)
  have "dag_val U F x v"
    using inv v by (auto simp: ainv_def jobs_ok_def intro: dag_val_node)
  moreover have "count (image_mset fst J) y =
      (if y \<in> K \<and> (D(x \<mapsto> v)) y = None \<and> W y = None then 1 else 0)" for y
    using cnt [of y] x' by (auto split: if_splits)
  ultimately show ?thesis using inv x x' by (auto simp: ainv_def jobs_ok_def)
qed

lemma location_served:
  assumes inv: "ainv U F V init K D W P J rank" and y: "y \<noteq> init" "D y = Some v" "P y = l # ls"
    and w: "W (node_index l) = Some (ctx, cs)"
  shows "child_index l < length cs" "cs ! child_index l = None"
    "ainv U F V init K D (W(node_index l \<mapsto> (ctx, cs[child_index l := Some v]))) (P(y := ls)) J rank"
proof -
  let ?x = "node_index l" and ?c = "child_index l"
  let ?W = "W(?x \<mapsto> (ctx, cs[?c := Some v]))" and ?P = "P(y := ls)"
  have ok: "waits_ok U F W P" and par: "parents_ok U init W P" using inv by (auto simp: ainv_def)
  have "awaited U W y l" using par y(1,3) by (simp add: parents_ok_def)
  then obtain "is" where a: "?c < length cs" "cs ! ?c = None" "U ?x = Ok (ctx, is)" "is ! ?c = y"
    using w by (auto simp: awaited_def)
  then show "child_index l < length cs" "cs ! child_index l = None" by simp_all
  have dist: "distinct (l # ls)" using par y by (metis parents_ok_def)
  have keep: "k \<in> set (?P i)" if "k \<in> set (P i)" "k \<noteq> l" for k i using that y(3) by auto
  have "waits_ok U F ?W ?P"
  proof (rule waits_ok_step [OF ok a(3)])
    show "length (cs[?c := Some v]) \<le> length is" using waits_okD [OF ok w a(3)] by simp
    fix z c i assume "z \<noteq> ?x" "node_location_new z c \<in> set (P i)"
    then show "node_location_new z c \<in> set (?P i)" by (intro keep) auto
  next
    fix c assume c: "c < length (cs[?c := Some v])"
    have "dag_val U F y v" using inv y(2) by (simp add: ainv_def)
    moreover have "node_location_new ?x c \<in> set (?P (is ! c))" if "c \<noteq> ?c" "cs ! c = None"
    proof (rule keep)
      show "node_location_new ?x c \<in> set (P (is ! c))"
        using waits_okD [OF ok w a(3)] c that(2) by (metis length_list_update option.simps(4))
      show "node_location_new ?x c \<noteq> l" using that(1) by (metis node_location_simps(2))
    qed
    ultimately show "case cs[?c := Some v] ! c of Some v \<Rightarrow> dag_val U F (is ! c) v
        | None \<Rightarrow> node_location_new ?x c \<in> set (?P (is ! c))"
      using waits_okD [OF ok w a(3)] c a(4)
      by (cases "c = ?c"; cases "cs ! c") (auto dest: spec [of _ c])
  qed
  moreover have "parents_ok U init ?W ?P"
    unfolding parents_ok_def
  proof (intro allI impI conjI ballI)
    fix z assume z: "z \<noteq> init"
    show "distinct (?P z)" using par z dist by (auto simp: parents_ok_def)
    fix k assume k: "k \<in> set (?P z)"
    then have "k \<in> set (P z)" using y(3) by (auto split: if_splits)
    then have aw: "awaited U W z k" using par z by (simp add: parents_ok_def)
    have "k \<noteq> l"
    proof
      assume "k = l"
      with aw a w have "z = y" by (auto simp: awaited_def)
      with k \<open>k = l\<close> dist show False by simp
    qed
    then have "node_index k = ?x \<Longrightarrow> child_index k \<noteq> ?c"
      by (metis node_location_collapse)
    with aw w show "awaited U ?W z k" by (auto simp: awaited_def)
  qed
  moreover have "(if z \<in> K \<and> D z = None \<and> ?W z = None then 1 else 0) =
      (if z \<in> K \<and> D z = None \<and> W z = None then 1 else (0::nat))" for z
    using w by auto
  moreover have "dom ?W = dom W" using w by auto
  moreover have "?P z = P z" if "D z = None" for z using that y(2) by auto
  ultimately show "ainv U F V init K D ?W ?P J rank" using inv by (simp add: ainv_def)
qed

section \<open>The code keeps the invariant\<close>

text \<open>
  How the execution tree holds the finished and waiting nodes.  \<open>xo\<close> is the node that is being
  processed: the entry of a node whose children are being enqueued is not written yet, and a
  node that is done still has locations to serve.
\<close>

fun dag_entry ::
  "('c \<times> 'i list, 'e) result \<Rightarrow> bool \<Rightarrow> ('i, 'c, 'o) dag_node option \<Rightarrow> 'o option \<Rightarrow>
     ('c \<times> 'o option list) option \<Rightarrow> 'i node_location list \<Rightarrow> bool" where
  "dag_entry u busy None d w p \<longleftrightarrow> d = None \<and> w = None \<and> p = []"
| "dag_entry u busy (Some (Done v)) d w p \<longleftrightarrow> d = Some v \<and> w = None \<and> (busy \<or> p = [])"
| "dag_entry u busy (Some (Pending ps None)) d w p \<longleftrightarrow> d = None \<and> p = ps \<and> (busy \<or> w = None)"
| "dag_entry u busy (Some (Pending ps (Some ch))) d w p \<longleftrightarrow>
     d = None \<and> p = ps \<and> \<not> busy \<and> w = Some (dc_context ch, dc_children ch) \<and>
     dc_left ch = length (filter (\<lambda>out. out = None) (dc_children ch)) \<and> dc_left ch \<noteq> 0 \<and>
     (\<exists>is. u = Ok (dc_context ch, is) \<and> length (dc_children ch) = length is)"

definition dag_link ::
  "('i \<Rightarrow> ('c \<times> 'i list, 'e) result) \<Rightarrow> 'i option \<Rightarrow> ('i \<times> ('i, 'c, 'o) dag_node) list \<Rightarrow>
     ('i \<Rightarrow> 'o option) \<Rightarrow> ('i, 'c, 'o) waiting \<Rightarrow> ('i \<Rightarrow> 'i node_location list) \<Rightarrow> bool" where
  "dag_link U xo E D W P \<longleftrightarrow> (\<forall>x. dag_entry (U x) (xo = Some x) (map_of E x) (D x) (W x) (P x))"

lemma dag_linkD: "dag_link U xo E D W P \<Longrightarrow> dag_entry (U x) (xo = Some x) (map_of E x) (D x) (W x) (P x)"
  by (simp add: dag_link_def)

lemma dag_link_update:
  assumes "dag_link U xo E D W P" "dag_entry (U k) (xo' = Some k) (Some nd) (D' k) (W' k) (P' k)"
    "\<And>z. z \<noteq> k \<Longrightarrow> D' z = D z \<and> W' z = W z \<and> P' z = P z \<and> (xo' = Some z) = (xo = Some z)"
    "E' = AList.update k nd E"
  shows "dag_link U xo' E' D' W' P'"
  using assms by (auto simp: dag_link_def update_conv')

lemma dag_entry_parents:
  "dag_entry u busy (Some (Pending ps ch)) d w p \<Longrightarrow> dag_entry u busy (Some (Pending ps' ch)) d w ps'"
  by (cases ch) auto

lemma dag_link_busy:
  assumes "dag_link U (Some x) E D W P" "map_of E x = Some (Pending ps None)"
  shows "dag_link U (Some x) E D (W(x := w)) P"
  unfolding dag_link_def
proof
  fix z
  show "dag_entry (U z) (Some x = Some z) (map_of E z) (D z) ((W(x := w)) z) (P z)"
    using dag_linkD [OF assms(1), of z] dag_linkD [OF assms(1), of x] assms(2) by (cases "z = x") auto
qed

definition dag_jobs :: "('i, 'c, 'o) dag_traversal \<Rightarrow> ('i, 'c, 'o) dag_job multiset" where
  "dag_jobs s = mset (dag_scheduled s) + mset (dag_unscheduled s)"

definition dag_ok ::
  "('i \<Rightarrow> ('c \<times> 'i list, 'e) result) \<Rightarrow> ('c \<Rightarrow> 'o list \<Rightarrow> ('o, 'e) result) \<Rightarrow> 'i set \<Rightarrow> 'i option \<Rightarrow>
     ('i \<Rightarrow> 'o option) \<Rightarrow> ('i, 'c, 'o) waiting \<Rightarrow> ('i \<Rightarrow> 'i node_location list) \<Rightarrow>
     ('i, 'c, 'o) dag_job multiset \<Rightarrow> ('i, 'c, 'o) dag_traversal \<Rightarrow> nat \<Rightarrow> bool" where
  "dag_ok U F V xo D W P J s n \<longleftrightarrow>
     unfold_limit s = None \<and> dag_link U xo (dag_tree s) D W P \<and>
     (\<exists>rank. ainv U F V (dag_init s) (dom (map_of (dag_tree s))) D W P (dag_jobs s + J) rank) \<and>
     n = dag_work V (dom (map_of (dag_tree s))) W (dag_jobs s + J)"

definition dag_frame :: "('i, 'c, 'o) dag_traversal \<Rightarrow> ('i, 'c, 'o) dag_traversal \<Rightarrow> bool" where
  "dag_frame s s' \<longleftrightarrow> dag_init s' = dag_init s \<and> dag_max s' = dag_max s \<and>
     dag_scheduled s' = dag_scheduled s"

lemma dag_frame_trans: "dag_frame s s' \<Longrightarrow> dag_frame s' s'' \<Longrightarrow> dag_frame s s''"
  by (simp add: dag_frame_def)

lemma dag_work_wait: "W x \<noteq> None \<Longrightarrow> dag_work V K (W(x \<mapsto> w)) J = dag_work V K W J"
  by (simp add: dag_work_def insert_absorb domIff)

lemma dag_work_new:
  assumes "finite V" "y \<in> V" "y \<notin> K"
  shows "dag_work V (insert y K) W (add_mset (y, Unfold y) J) = dag_work V K W J"
proof -
  have "card (V - K) = Suc (card (V - insert y K))"
    using assms by (metis Diff_iff Diff_insert card_Suc_Diff1 finite_Diff)
  then show ?thesis by (simp add: dag_work_def dag_weight_def)
qed

text \<open>The next child of the node being unfolded is enqueued.\<close>

lemma dag_enqueue_unfold_ok:
  assumes ok: "dag_ok U F V (Some x) D W P {#} s n" and closed: "dag_closed U V"
    and w: "W x = Some (ctx, cs)" and u: "U x = Ok (ctx, is)" "length cs < length is"
  shows "\<exists>out s' P'. dag_enqueue_unfold (node_location_new x (length cs)) (is ! length cs) s = (out, s') \<and>
    dag_ok U F V (Some x) D (W(x \<mapsto> (ctx, cs @ [out]))) P' {#} s' n \<and> dag_frame s s'"
proof -
  let ?y = "is ! length cs" and ?l = "node_location_new x (length cs)" and ?E = "dag_tree s"
  let ?W = "\<lambda>out. W(x \<mapsto> (ctx, cs @ [out]))"
  from ok obtain rank where link: "dag_link U (Some x) ?E D W P"
    and inv: "ainv U F V (dag_init s) (dom (map_of ?E)) D W P (dag_jobs s) rank"
    and n: "n = dag_work V (dom (map_of ?E)) W (dag_jobs s)" and lim: "unfold_limit s = None"
    by (auto simp: dag_ok_def)
  obtain px where xp: "map_of ?E x = Some (Pending px None)"
    using dag_linkD [OF link, of x] w by (elim dag_entry.elims) auto
  have linkW: "dag_link U (Some x) ?E D (?W out) P" for out by (rule dag_link_busy [OF link xp])
  have work: "dag_work V K (?W out) J = dag_work V K W J" for K J out using w by (simp add: dag_work_wait)
  have "x \<in> V" using inv xp by (auto simp: ainv_def)
  with closed u(1) have "set is \<subseteq> V" unfolding dag_closed_def by blast
  with u(2) have yV: "?y \<in> V" using nth_mem by blast
  show ?thesis
  proof (cases "map_of ?E ?y")
    case None
    let ?s = "s\<lparr>dag_tree := AList.update ?y (Pending [?l] None) ?E,
      dag_unscheduled := (?y, Unfold ?y) # dag_unscheduled s\<rparr>"
    have y: "?y \<notin> dom (map_of ?E)" "P ?y = []" "D ?y = None" "?y \<noteq> x" "W ?y = None"
      using dag_linkD [OF link, of ?y] None xp by auto
    have "dag_link U (Some x) (dag_tree ?s) D (?W None) (P(?y := [?l]))"
      by (rule dag_link_update [OF linkW, where k = ?y]) (use y in auto)
    moreover have dom: "dom (map_of (dag_tree ?s)) = insert ?y (dom (map_of ?E))" by (simp add: update_conv')
    moreover have jobs: "dag_jobs ?s = add_mset (?y, Unfold ?y) (dag_jobs s)" by (simp add: dag_jobs_def)
    moreover note child_new [OF inv w u refl y(1) yV y(2)]
    ultimately have "dag_ok U F V (Some x) D (?W None) (P(?y := [?l])) {#} ?s n"
      using closed yV y(1) lim n
      by (auto simp: dag_ok_def dag_work_new work dag_closed_def simp del: update_conv')
    then show ?thesis using None by (auto simp: dag_enqueue_unfold_def dag_frame_def)
  next
    case (Some node)
    show ?thesis
    proof (cases node)
      case (Done v)
      with Some have "D ?y = Some v" using dag_linkD [OF link, of ?y] by simp
      from child_done [OF inv w u this] have "dag_ok U F V (Some x) D (?W (Some v)) P {#} s n"
        using lim linkW n work by (auto simp: dag_ok_def)
      then show ?thesis using Some Done by (auto simp: dag_enqueue_unfold_def dag_frame_def)
    next
      case (Pending ps ch)
      let ?s = "s\<lparr>dag_tree := AList.update ?y (Pending (ps @ [?l]) ch) ?E\<rparr>"
      let ?P = "P(?y := P ?y @ [?l])"
      have e: "dag_entry (U ?y) (Some x = Some ?y) (Some (Pending ps ch)) (D ?y) (?W None ?y) (P ?y)"
        using dag_linkD [OF linkW, of ?y] Some Pending by simp
      then have y: "D ?y = None" "P ?y = ps" by (cases ch; simp)+
      have ey: "dag_entry (U ?y) (Some x = Some ?y) (Some (Pending (ps @ [?l]) ch)) (D ?y) (?W None ?y) (?P ?y)"
        using dag_entry_parents [OF e, of "ps @ [?l]"] y(2) by (simp only: fun_upd_same)
      have "dag_link U (Some x) (dag_tree ?s) D (?W None) ?P"
        by (rule dag_link_update [OF linkW, where k = ?y]) (rule ey, simp_all)
      moreover have "dom (map_of (dag_tree ?s)) = dom (map_of ?E)"
        using Some by (auto simp: update_conv')
      moreover have "?y \<in> dom (map_of ?E)" using Some by auto
      moreover note child_pending [OF inv w u refl this y(1)]
      moreover have "dag_jobs ?s = dag_jobs s" by (simp add: dag_jobs_def)
      ultimately have "dag_ok U F V (Some x) D (?W None) ?P {#} ?s n"
        using lim n work by (auto simp: dag_ok_def simp del: update_conv')
      then show ?thesis using Some Pending by (auto simp: dag_enqueue_unfold_def dag_frame_def)
    qed
  qed
qed

lemma dag_enqueue_children_ok:
  assumes "dag_ok U F V (Some x) D W P {#} s n" "dag_closed U V" "W x = Some (ctx, cs)"
    "U x = Ok (ctx, is)" "drop (length cs) is = rest"
  shows "\<exists>outs s' P'. dag_enqueue_children x (length cs) rest s = (outs, s') \<and> length outs = length rest \<and>
    dag_ok U F V (Some x) D (W(x \<mapsto> (ctx, cs @ outs))) P' {#} s' n \<and> dag_frame s s'"
  using assms
proof (induction rest arbitrary: cs W P s)
  case Nil
  then have "W(x \<mapsto> (ctx, cs @ [])) = W" by auto
  with Nil(1) have "dag_ok U F V (Some x) D (W(x \<mapsto> (ctx, cs @ []))) P {#} s n" by simp
  then show ?case by (intro exI [of _ "[]"] exI [of _ s] exI [of _ P]) (simp add: dag_frame_def del: fun_upd_apply)
next
  case (Cons y rest)
  then have y: "length cs < length is" "is ! length cs = y" "drop (Suc (length cs)) is = rest"
    by (metis drop_all linorder_not_less list.distinct(1),
        metis drop_all hd_drop_conv_nth linorder_not_less list.distinct(1) list.sel(1),
        metis drop_Suc list.sel(3) tl_drop)
  from dag_enqueue_unfold_ok [OF Cons.prems(1-4) y(1)] obtain out s' P' where
    1: "dag_enqueue_unfold (node_location_new x (length cs)) y s = (out, s')"
    and ok: "dag_ok U F V (Some x) D (W(x \<mapsto> (ctx, cs @ [out]))) P' {#} s' n" and fr: "dag_frame s s'"
    unfolding y by blast
  from Cons.IH [OF ok Cons.prems(2) _ Cons.prems(4), of "cs @ [out]"] y(3) obtain outs s'' P'' where
    "dag_enqueue_children x (Suc (length cs)) rest s' = (outs, s'')" "length outs = length rest"
    "dag_ok U F V (Some x) D (W(x \<mapsto> (ctx, cs @ out # outs))) P'' {#} s'' n" "dag_frame s' s''"
    by (auto simp del: fun_upd_apply simp: fun_upd_same)
  with 1 dag_frame_trans [OF fr] show ?case
    by (intro exI [of _ "out # outs"] exI [of _ s''] exI [of _ P'']) (simp del: fun_upd_apply)
qed

text \<open>An unfold is processed.\<close>

lemma dag_work_begin:
  "finite (dom W) \<Longrightarrow> W x = None \<Longrightarrow>
     dag_work V K W (add_mset (x, Unfold x) J) = Suc (dag_work V K (W(x \<mapsto> w)) J)"
  by (simp add: dag_work_def dag_weight_def domIff)

lemma dag_work_over:
  assumes "finite (dom W)" "W x \<noteq> None"
  shows "dag_work V K (W(x := None)) (add_mset (x, Fold c vs) J) = dag_work V K W J"
proof -
  have "card (dom W) = Suc (card (dom W - {x}))" using assms by (metis card_Suc_Diff1 domIff)
  then show ?thesis by (simp add: dag_work_def dag_weight_def)
qed

lemma ainv_dom_finite: "ainv U F V init K D W P J rank \<Longrightarrow> finite V \<Longrightarrow> finite (dom W)"
  unfolding ainv_def by (meson finite_subset)

lemma dag_process_unfold_ok:
  assumes ok: "dag_ok U F V None D W P {#(x, Unfold x)#} s n" and closed: "dag_closed U V"
    and u: "U x = Ok (ctx, is)"
  shows "\<exists>s' W' P' n'. dag_process_unfold x (ctx, is) s = Inr s' \<and> dag_ok U F V None D W' P' {#} s' n' \<and>
    n' < n \<and> dag_frame s s'"
proof -
  let ?W = "\<lambda>outs. W(x \<mapsto> (ctx, outs))" and ?E = "dag_tree s"
  have V: "finite V" using closed by (simp add: dag_closed_def)
  from ok obtain rank where link: "dag_link U None ?E D W P"
    and inv: "ainv U F V (dag_init s) (dom (map_of ?E)) D W P (add_mset (x, Unfold x) (dag_jobs s)) rank"
    and n: "n = dag_work V (dom (map_of ?E)) W (add_mset (x, Unfold x) (dag_jobs s))" and lim: "unfold_limit s = None"
    by (auto simp: dag_ok_def)
  have "count (image_mset fst (add_mset (x, Unfold x) (dag_jobs s))) x =
      (if x \<in> dom (map_of ?E) \<and> D x = None \<and> W x = None then 1 else 0)"
    using inv by (simp only: ainv_def)
  then have x: "x \<in> dom (map_of ?E)" "D x = None" "W x = None" by (auto split: if_splits)
  obtain m where m: "n = Suc m" "m = dag_work V (dom (map_of ?E)) (?W []) (dag_jobs s)"
    using n dag_work_begin [OF ainv_dom_finite [OF inv V] x(3)] by blast
  have "dag_link U (Some x) ?E D (?W []) P"
    unfolding dag_link_def
  proof
    fix z
    have "dag_entry (U z) (Some x = Some z) (map_of ?E z) (D z) (?W [] z) (P z)" if "z \<noteq> x"
      using dag_linkD [OF link, of z] that by simp
    moreover have "dag_entry (U x) True (map_of ?E x) (D x) (?W [] x) (P x)"
      using dag_linkD [OF link, of x] x by (elim dag_entry.elims) auto
    ultimately show "dag_entry (U z) (Some x = Some z) (map_of ?E z) (D z) (?W [] z) (P z)"
      by (cases "z = x") simp_all
  qed
  with unfold_begins [OF inv u] lim m(2) have "dag_ok U F V (Some x) D (?W []) P {#} s m"
    by (auto simp: dag_ok_def)
  from dag_enqueue_children_ok [OF this closed _ u, of "[]"] obtain outs s' P' where
    enq: "dag_enqueue_children x 0 is s = (outs, s')" "length outs = length is" "dag_frame s s'"
    and ok': "dag_ok U F V (Some x) D (?W outs) P' {#} s' m" by auto
  from ok' obtain rank' where link': "dag_link U (Some x) (dag_tree s') D (?W outs) P'"
    and inv': "ainv U F V (dag_init s') (dom (map_of (dag_tree s'))) D (?W outs) P' (dag_jobs s') rank'"
    and m': "m = dag_work V (dom (map_of (dag_tree s'))) (?W outs) (dag_jobs s')" and lim': "unfold_limit s' = None"
    by (auto simp: dag_ok_def)
  obtain ps where ps: "map_of (dag_tree s') x = Some (Pending ps None)"
    using dag_linkD [OF link', of x] by (elim dag_entry.elims) auto
  have limit: "dag_limit_children s is = is" using lim by (simp add: dag_limit_children_def)
  let ?left = "length (filter (\<lambda>out. out = None) outs)"
  show ?thesis
  proof (cases "?left = 0")
    case True
    then have full: "None \<notin> set outs" by (auto simp: filter_empty_conv)
    let ?s = "dag_enqueue_fold x ctx (List.map_filter id outs) s'"
    have "dag_link U None (dag_tree s') D ((?W outs)(x := None)) P'"
      unfolding dag_link_def
    proof
      fix z
      show "dag_entry (U z) (None = Some z) (map_of (dag_tree s') z) (D z) (((?W outs)(x := None)) z) (P' z)"
        using dag_linkD [OF link', of z] ps by (cases "z = x") auto
    qed
    moreover from wait_over [OF inv' _ u enq(2) full]
    have "ainv U F V (dag_init s') (dom (map_of (dag_tree s'))) D ((?W outs)(x := None)) P'
        (add_mset (x, Fold ctx (List.map_filter id outs)) (dag_jobs s')) rank'" by simp
    moreover from dag_work_over [OF ainv_dom_finite [OF inv' V], of x]
    have "dag_work V K ((?W outs)(x := None)) (add_mset (x, Fold ctx (List.map_filter id outs)) J) =
        dag_work V K (?W outs) J" for K J by simp
    ultimately have "dag_ok U F V None D ((?W outs)(x := None)) P' {#} ?s m"
      using lim' m' by (auto simp: dag_ok_def dag_enqueue_fold_def dag_jobs_def simp del: fun_upd_upd)
    moreover have "dag_process_unfold x (ctx, is) s = Inr ?s"
      using enq(1) True by (simp add: dag_process_unfold_def limit)
    moreover have "dag_frame s ?s" using enq(3) by (simp add: dag_frame_def dag_enqueue_fold_def)
    ultimately show ?thesis using m(1) by blast
  next
    case False
    let ?s = "s'\<lparr>dag_tree := AList.update x (Pending ps
      (Some \<lparr>dc_context = ctx, dc_children = outs, dc_left = ?left\<rparr>)) (dag_tree s')\<rparr>"
    have "D x = None" "P' x = ps" using dag_linkD [OF link', of x] ps by auto
    then have "dag_link U None (dag_tree ?s) D (?W outs) P'"
      by (intro dag_link_update [OF link', where k = x]) (use False u enq(2) in auto)
    moreover have "dom (map_of (dag_tree ?s)) = dom (map_of (dag_tree s'))"
      using ps by (auto simp: update_conv')
    moreover have "dag_jobs ?s = dag_jobs s'" by (simp add: dag_jobs_def)
    ultimately have "dag_ok U F V None D (?W outs) P' {#} ?s m"
      using lim' m' inv' by (auto simp: dag_ok_def simp del: update_conv')
    moreover have "dag_process_unfold x (ctx, is) s = Inr ?s"
      using enq(1) False ps by (simp add: dag_process_unfold_def limit)
    moreover have "dag_frame s ?s" using enq(3) by (simp add: dag_frame_def)
    ultimately show ?thesis using m(1) by blast
  qed
qed

text \<open>A finished node hands its value to a location that waits for it.\<close>

lemma filter_None_update:
  "c < length cs \<Longrightarrow> cs ! c = None \<Longrightarrow>
     length (filter (\<lambda>out. out = None) (cs[c := Some v])) = length (filter (\<lambda>out. out = None) cs) - 1"
proof (induction cs arbitrary: c)
  case (Cons a cs)
  show ?case
  proof (cases c)
    case (Suc c')
    with Cons.prems have "None \<in> set cs" by (metis Suc_less_eq length_Cons nth_Cons_Suc nth_mem)
    then have "0 < length (filter (\<lambda>out. out = None) cs)" by (auto simp: filter_empty_conv)
    with Suc Cons show ?thesis by auto
  qed (use Cons in auto)
qed simp

lemma dag_update_location_ok:
  assumes ok: "dag_ok U F V (Some y) D W P {#} s n" and V: "finite V"
    and y: "y \<noteq> dag_init s" "D y = Some v" "P y = l # ls"
  shows "\<exists>s' W'. dag_update_location l v s = Inr s' \<and> dag_ok U F V (Some y) D W' (P(y := ls)) {#} s' n \<and> dag_frame s s'"
proof -
  let ?E = "dag_tree s" and ?x = "node_index l" and ?c = "child_index l" and ?P = "P(y := ls)"
  from ok obtain rank where link: "dag_link U (Some y) ?E D W P"
    and inv: "ainv U F V (dag_init s) (dom (map_of ?E)) D W P (dag_jobs s) rank"
    and n: "n = dag_work V (dom (map_of ?E)) W (dag_jobs s)" and lim: "unfold_limit s = None"
    by (auto simp: dag_ok_def)
  have "awaited U W y l" using inv y by (simp add: ainv_def parents_ok_def)
  then obtain ctx cs where w: "W ?x = Some (ctx, cs)" by (auto simp: awaited_def)
  with dag_linkD [OF link, of ?x] obtain ps "is" where
    x: "map_of ?E ?x = Some (Pending ps (Some \<lparr>dc_context = ctx, dc_children = cs,
          dc_left = length (filter (\<lambda>out. out = None) cs)\<rparr>))"
      "D ?x = None" "P ?x = ps" "U ?x = Ok (ctx, is)" "length cs = length is"
      "length (filter (\<lambda>out. out = None) cs) \<noteq> 0"
    using y(2) by (elim dag_entry.elims) auto
  note served = location_served [OF inv y w]
  let ?cs = "cs[?c := Some v]" and ?left = "length (filter (\<lambda>out. out = None) cs) - 1"
  let ?W = "W(?x \<mapsto> (ctx, ?cs))"
  have left: "length (filter (\<lambda>out. out = None) ?cs) = ?left" by (rule filter_None_update [OF served(1,2)])
  have work: "dag_work V K ?W J = dag_work V K W J" for K J using w by (simp add: dag_work_wait)
  have dom: "dom (map_of (AList.update ?x nd ?E)) = dom (map_of ?E)" for nd
    using x(1) by (auto simp: update_conv')
  have xy: "?x \<noteq> y" using x(2) y(2) by auto
  have linkP: "dag_link U (Some y) ?E D W ?P"
    unfolding dag_link_def
  proof
    fix z
    show "dag_entry (U z) (Some y = Some z) (map_of ?E z) (D z) (W z) (?P z)"
      using dag_linkD [OF link, of z] y(2) by (cases "z = y") (auto elim!: dag_entry.elims)
  qed
  have step: "dag_update_location l v s =
      (if ?left = 0 then
         Inr (dag_enqueue_fold ?x ctx (List.map_filter id ?cs) (s\<lparr>dag_tree := AList.update ?x (Pending ps None) ?E\<rparr>))
       else Inr (s\<lparr>dag_tree := AList.update ?x
         (Pending ps (Some \<lparr>dc_context = ctx, dc_children = ?cs, dc_left = ?left\<rparr>)) ?E\<rparr>))"
    using x(1,6) served(1,2) by (simp add: dag_update_location_def vec_index_def vec_write_def Let_def)
  show ?thesis
  proof (cases "?left = 0")
    case True
    let ?s = "dag_enqueue_fold ?x ctx (List.map_filter id ?cs) (s\<lparr>dag_tree := AList.update ?x (Pending ps None) ?E\<rparr>)"
    have full: "None \<notin> set ?cs" using left True by (metis (mono_tags) filter_empty_conv length_0_conv)
    have "dag_link U (Some y) (dag_tree ?s) D (?W(?x := None)) ?P"
      by (rule dag_link_update [OF linkP, where k = ?x]) (use x xy in \<open>auto simp: dag_enqueue_fold_def\<close>)
    moreover from wait_over [OF served(3) _ x(4) _ full] x(5)
    have "ainv U F V (dag_init s) (dom (map_of ?E)) D (?W(?x := None)) ?P
        (add_mset (?x, Fold ctx (List.map_filter id ?cs)) (dag_jobs s)) rank" by simp
    moreover from dag_work_over [OF ainv_dom_finite [OF served(3) V], of ?x]
    have "dag_work V K (?W(?x := None)) (add_mset (?x, Fold ctx (List.map_filter id ?cs)) J) = dag_work V K W J" for K J
      by (simp add: work del: fun_upd_upd)
    moreover have "dag_jobs ?s = add_mset (?x, Fold ctx (List.map_filter id ?cs)) (dag_jobs s)"
      "dag_init ?s = dag_init s" "unfold_limit ?s = None" "dom (map_of (dag_tree ?s)) = dom (map_of ?E)"
      using lim dom by (simp_all add: dag_jobs_def dag_enqueue_fold_def)
    ultimately have "dag_ok U F V (Some y) D (?W(?x := None)) ?P {#} ?s n"
      using n unfolding dag_ok_def by (auto simp del: fun_upd_upd fun_upd_apply)
    moreover have "dag_frame s ?s" by (simp add: dag_frame_def dag_enqueue_fold_def)
    ultimately show ?thesis using True step by auto
  next
    case False
    let ?s = "s\<lparr>dag_tree := AList.update ?x
      (Pending ps (Some \<lparr>dc_context = ctx, dc_children = ?cs, dc_left = ?left\<rparr>)) ?E\<rparr>"
    have "dag_link U (Some y) (dag_tree ?s) D ?W ?P"
      by (rule dag_link_update [OF linkP, where k = ?x]) (use x xy left False in auto)
    with served(3) lim n work dom have "dag_ok U F V (Some y) D ?W ?P {#} ?s n"
      by (auto simp: dag_ok_def dag_jobs_def simp del: update_conv' fun_upd_apply)
    moreover have "dag_frame s ?s" by (simp add: dag_frame_def)
    ultimately show ?thesis using False step by auto
  qed
qed

lemma dag_update_all_ok:
  assumes "dag_ok U F V (Some y) D W P {#} s n" "finite V" "y \<noteq> dag_init s" "D y = Some v" "P y = ls"
  shows "\<exists>s' W' P'. dag_update_all ls v s = Inr s' \<and> dag_ok U F V None D W' P' {#} s' n \<and> dag_frame s s'"
  using assms
proof (induction ls arbitrary: W P s)
  case Nil
  have "dag_link U None (dag_tree s) D W P"
    unfolding dag_link_def
  proof
    fix z
    have "dag_link U (Some y) (dag_tree s) D W P" using Nil by (simp add: dag_ok_def)
    from dag_linkD [OF this, of z] Nil(4,5)
    show "dag_entry (U z) (None = Some z) (map_of (dag_tree s) z) (D z) (W z) (P z)"
      by (cases "z = y") (auto elim!: dag_entry.elims)
  qed
  with Nil(1) have "dag_ok U F V None D W P {#} s n" by (simp add: dag_ok_def)
  then show ?case by (auto simp: dag_frame_def)
next
  case (Cons l ls)
  from dag_update_location_ok [OF Cons.prems] obtain s' W' where
    1: "dag_update_location l v s = Inr s'" "dag_ok U F V (Some y) D W' (P(y := ls)) {#} s' n" "dag_frame s s'"
    by blast
  from Cons.IH [OF 1(2) Cons.prems(2)] 1(3) Cons.prems(3,4) obtain s'' W'' P'' where
    "dag_update_all ls v s' = Inr s''" "dag_ok U F V None D W'' P'' {#} s'' n" "dag_frame s' s''"
    by (auto simp: dag_frame_def)
  with 1 show ?case by (auto intro: dag_frame_trans)
qed

text \<open>A fold is processed.\<close>

lemma dag_process_fold_ok:
  assumes ok: "dag_ok U F V None D W P {#(x, Fold c vs)#} s n" and V: "finite V"
    and x: "x \<noteq> dag_init s" and v: "F c vs = Ok v"
  shows "\<exists>s' D' W' P' n'. dag_process_fold x v s = Inr s' \<and> dag_ok U F V None D' W' P' {#} s' n' \<and>
    n' < n \<and> dag_frame s s'"
proof -
  let ?E = "dag_tree s"
  from ok obtain rank where link: "dag_link U None ?E D W P"
    and inv: "ainv U F V (dag_init s) (dom (map_of ?E)) D W P (add_mset (x, Fold c vs) (dag_jobs s)) rank"
    and n: "n = dag_work V (dom (map_of ?E)) W (add_mset (x, Fold c vs) (dag_jobs s))" and lim: "unfold_limit s = None"
    by (auto simp: dag_ok_def)
  have "count (image_mset fst (add_mset (x, Fold c vs) (dag_jobs s))) x =
      (if x \<in> dom (map_of ?E) \<and> D x = None \<and> W x = None then 1 else 0)"
    using inv by (simp only: ainv_def)
  then have x': "x \<in> dom (map_of ?E)" "D x = None" "W x = None" by (auto split: if_splits)
  with dag_linkD [OF link, of x] have e: "map_of ?E x = Some (Pending (P x) None)"
    by (elim dag_entry.elims) auto
  let ?s = "s\<lparr>dag_tree := AList.update x (Done v) ?E\<rparr>"
  have "dag_link U (Some x) (dag_tree ?s) (D(x \<mapsto> v)) W P"
    by (rule dag_link_update [OF link, where k = x]) (use x' in auto)
  moreover have "dom (map_of (dag_tree ?s)) = dom (map_of ?E)" using e by (auto simp: update_conv')
  moreover have "dag_jobs ?s = dag_jobs s" by (simp add: dag_jobs_def)
  moreover obtain m where m: "m = dag_work V (dom (map_of ?E)) W (dag_jobs s)" "n = Suc m"
    using n by (simp add: dag_work_def dag_weight_def)
  ultimately have "dag_ok U F V (Some x) (D(x \<mapsto> v)) W P {#} ?s m"
    using fold_finishes [OF inv x v] lim by (auto simp: dag_ok_def simp del: fun_upd_apply update_conv')
  from dag_update_all_ok [OF this V, of v "P x"] x m(2) show ?thesis
    using e by (fastforce simp: dag_process_fold_def dag_frame_def)
qed

section \<open>The poll loop\<close>

definition dag_inv ::
  "('i \<Rightarrow> ('c \<times> 'i list, 'e) result) \<Rightarrow> ('c \<Rightarrow> 'o list \<Rightarrow> ('o, 'e) result) \<Rightarrow> 'i set \<Rightarrow> 'i \<Rightarrow>
     ('i, 'c, 'o) dag_traversal \<Rightarrow> nat \<Rightarrow> bool" where
  "dag_inv U F V init s n \<longleftrightarrow>
     dag_closed U V \<and> dag_init s = init \<and> 0 < dag_max s \<and> length (dag_scheduled s) \<le> dag_max s \<and>
     (\<exists>D W P m. dag_ok U F V None D W P {#} s m \<and> n = Suc m)"

text \<open>When no job is left, every node that is not finished waits for another such node.\<close>

lemma dag_stuck_cycle:
  assumes ok: "dag_ok U F V None D W P {#} s m" and V: "finite V" and none: "dag_jobs s = {#}"
  shows "(\<nexists>v. dag_val U F (dag_init s) v) \<and> (\<exists>x \<in> V. (x, x) \<in> (dag_edges U)\<^sup>+)"
proof -
  let ?K = "dom (map_of (dag_tree s))"
  let ?S = "{x \<in> ?K. D x = None}"
  from ok none obtain rank where link: "dag_link U None (dag_tree s) D W P"
    and inv: "ainv U F V (dag_init s) ?K D W P {#} rank"
    by (auto simp: dag_ok_def)
  have S: "?S \<subseteq> V" "dag_init s \<in> ?S" using inv by (auto simp: ainv_def)
  have succ: "\<exists>y \<in> ?S. (x, y) \<in> dag_edges U" if x: "x \<in> ?S" for x
  proof -
    have "W x \<noteq> None" using ainv_count [OF inv, of x] x by (auto split: if_splits)
    with dag_linkD [OF link, of x] obtain ctx cs "is" where w: "W x = Some (ctx, cs)"
      and u: "U x = Ok (ctx, is)" "length cs = length is" and "filter (\<lambda>out. out = None) cs \<noteq> []"
      by (elim dag_entry.elims) auto
    then obtain c where c: "c < length cs" "cs ! c = None"
      by (metis (mono_tags, lifting) filter_False in_set_conv_nth)
    have "waits_ok U F W P" using inv by (simp add: ainv_def)
    from waits_okD [OF this w u(1)] c have "P (is ! c) \<noteq> []" by fastforce
    with dag_linkD [OF link, of "is ! c"] have "is ! c \<in> ?S"
      by (elim dag_entry.elims) (auto simp: domI)
    moreover have "(x, is ! c) \<in> dag_edges U" using u c by (auto simp: dag_edges_def)
    ultimately show ?thesis by blast
  qed
  have "\<exists>x \<in> ?S. (x, x) \<in> (dag_edges U)\<^sup>+"
    using S(2) by (intro finite_successors_cycle succ finite_subset [OF S(1) V]) auto
  moreover have "dag_init s \<notin> ?S" if "dag_val U F (dag_init s) v" for v
    using no_value [of ?S U F "dag_init s" v] succ that by blast
  ultimately show ?thesis using S by blast
qed

lemma dag_schedule_ok:
  assumes "length (dag_scheduled s) \<le> dag_max s"
  shows "\<exists>s'. dag_schedule s = Inr s' \<and> dag_jobs s' = dag_jobs s \<and> dag_tree s' = dag_tree s \<and>
    dag_init s' = dag_init s \<and> dag_max s' = dag_max s \<and> unfold_limit s' = unfold_limit s \<and>
    length (dag_scheduled s') \<le> dag_max s \<and> (0 < dag_max s \<and> dag_jobs s \<noteq> {#} \<longrightarrow> dag_scheduled s' \<noteq> [])"
proof -
  let ?n = "min (length (dag_unscheduled s)) (dag_max s - length (dag_scheduled s))"
  have "mset (take ?n (dag_unscheduled s)) + mset (drop ?n (dag_unscheduled s)) = mset (dag_unscheduled s)"
    by (metis append_take_drop_id mset_append)
  with assms show ?thesis
    by (auto simp: dag_schedule_def dag_jobs_def Let_def)
qed

lemma dag_take_job:
  assumes "i < length (dag_scheduled s)" "s' = s\<lparr>dag_scheduled := take i (dag_scheduled s) @ drop (Suc i) (dag_scheduled s)\<rparr>"
  shows "dag_jobs s = add_mset (dag_scheduled s ! i) (dag_jobs s')" "length (dag_scheduled s') < length (dag_scheduled s)"
  using arg_cong [OF id_take_nth_drop [OF assms(1)], of mset] assms by (simp_all add: dag_jobs_def)

lemma dag_turn_cases:
  assumes inv: "dag_inv U F V init s n"
  shows "(\<exists>s' n'. dag_turn U F k s = Continue s' \<and> dag_inv U F V init s' n' \<and> n' < n) \<or>
    (\<exists>r. dag_turn U F k s = Ready r \<and> dag_result U F V init r)"
proof -
  from inv obtain D W P m where closed: "dag_closed U V" and init: "dag_init s = init" and
    max: "0 < dag_max s" "length (dag_scheduled s) \<le> dag_max s" and
    ok: "dag_ok U F V None D W P {#} s m" and n: "n = Suc m"
    by (auto simp: dag_inv_def)
  have V: "finite V" using closed by (simp add: dag_closed_def)
  show ?thesis
  proof (cases "dag_jobs s = {#}")
    case True
    with dag_stuck_cycle [OF ok V] show ?thesis by (auto simp: dag_turn_def dag_result_def dag_jobs_def init)
  next
    case False
    then obtain s1 where s1: "dag_schedule s = Inr s1" "dag_jobs s1 = dag_jobs s" "dag_tree s1 = dag_tree s"
      "dag_init s1 = init" "dag_max s1 = dag_max s" "unfold_limit s1 = unfold_limit s"
      "length (dag_scheduled s1) \<le> dag_max s" "dag_scheduled s1 \<noteq> []"
      using dag_schedule_ok [OF max(2)] max(1) init by auto
    define i where "i = k mod length (dag_scheduled s1)"
    define s2 where "s2 = s1\<lparr>dag_scheduled := take i (dag_scheduled s1) @ drop (Suc i) (dag_scheduled s1)\<rparr>"
    obtain x w where job: "dag_scheduled s1 ! i = (x, w)" by fastforce
    have i: "i < length (dag_scheduled s1)" using s1(8) by (simp add: i_def)
    have J: "dag_jobs s = add_mset (x, w) (dag_jobs s2)" "length (dag_scheduled s2) < dag_max s"
      using dag_take_job [OF i s2_def] s1(2,7) job by simp_all
    have E: "dag_tree s2 = dag_tree s" "dag_init s2 = init" "dag_max s2 = dag_max s" "unfold_limit s2 = unfold_limit s"
      using s1 by (simp_all add: s2_def)
    have ok2: "dag_ok U F V None D W P {#(x, w)#} s2 m"
      using ok E J(1) init by (simp add: dag_ok_def)
    then obtain rank where inv2: "ainv U F V init (dom (map_of (dag_tree s))) D W P (add_mset (x, w) (dag_jobs s2)) rank"
      using E by (auto simp: dag_ok_def)
    have turn: "dag_turn U F k s = (case job_output U F w of
          Inl (Err e) \<Rightarrow> Ready (Err e)
        | Inl (Ok unfolded) \<Rightarrow> continue_with (dag_process_unfold x unfolded s2)
        | Inr r \<Rightarrow>
            if x = dag_init s2 then
              if dag_unscheduled s2 \<noteq> [] then Panicked (Panic ''assertion failed: unscheduled.is_empty()'')
              else if dag_scheduled s2 \<noteq> [] then Panicked (Panic ''assertion failed: scheduled.is_empty()'')
              else Ready (case r of Ok v \<Rightarrow> Ok (Some v) | Err e \<Rightarrow> Err e)
            else (case r of Err e \<Rightarrow> Ready (Err e) | Ok v \<Rightarrow> continue_with (dag_process_fold x v s2)))"
    proof -
      have ne: "\<not> (dag_unscheduled s = [] \<and> dag_scheduled s = [])" using False by (auto simp: dag_jobs_def)
      show ?thesis
        unfolding dag_turn_def if_not_P [OF ne] s1(1) sum.case Let_def i_def [symmetric] s2_def [symmetric]
          job fst_conv snd_conv if_not_P [OF s1(8)] ..
    qed
    have job_ok: "w = Unfold x \<or> (\<exists>c vs is. w = Fold c vs \<and> U x = Ok (c, is) \<and> list_all2 (dag_val U F) is vs)"
      using inv2 by (auto simp: ainv_def jobs_ok_def)
    have xV: "x \<in> V" using ainv_count [OF inv2, of x] inv2 by (auto simp: ainv_def split: if_splits)
    have step: "(\<exists>s' n'. continue_with r = Continue s' \<and> dag_inv U F V init s' n' \<and> n' < n)"
      if "r = Inr s'" "dag_ok U F V None D' W' P' {#} s' m'" "m' < m" "dag_frame s2 s'" for r s' D' W' P' m'
    proof -
      have "dag_inv U F V init s' (Suc m')"
        unfolding dag_inv_def using that closed E J(2) max by (auto simp: dag_frame_def)
      with that n show ?thesis by (auto simp: continue_with_def)
    qed
    from job_ok show ?thesis
    proof (elim disjE exE conjE)
      assume w: "w = Unfold x"
      show ?thesis
      proof (cases "U x")
        case (Ok u)
        obtain ctx "is" where u: "u = (ctx, is)" by fastforce
        from dag_process_unfold_ok [OF ok2 [unfolded w] closed Ok [unfolded u]] step turn w Ok u
        show ?thesis by fastforce
      next
        case (Err e)
        with turn w xV show ?thesis by (auto simp: dag_result_def)
      qed
    next
      fix c vs "is" assume w: "w = Fold c vs" and u: "U x = Ok (c, is)" "list_all2 (dag_val U F) is vs"
      show ?thesis
      proof (cases "x = init")
        case True
        then have "dag_jobs s2 = {#}" using init_job_alone [of U F V init "dom (map_of (dag_tree s))" D W P w] inv2
          by (simp add: finite_dom_map_of)
        then have "dag_turn U F k s = Ready (case F c vs of Ok v \<Rightarrow> Ok (Some v) | Err e \<Rightarrow> Err e)"
          using turn w True E(2) by (simp add: dag_jobs_def)
        moreover have "dag_result U F V init (case F c vs of Ok v \<Rightarrow> Ok (Some v) | Err e \<Rightarrow> Err e)"
          using u True xV by (cases "F c vs") (auto simp: dag_result_def intro: dag_val_node)
        ultimately show ?thesis by blast
      next
        case False
        show ?thesis
        proof (cases "F c vs")
          case (Ok v)
          from dag_process_fold_ok [OF ok2 [unfolded w] V _ Ok] step turn w Ok False E(2)
          show ?thesis by fastforce
        next
          case (Err e)
          with turn w xV u False E(2) show ?thesis by (auto simp: dag_result_def)
        qed
      qed
    qed
  qed
qed

interpretation dag: poll_progress "dag_turn U F" "dag_inv U F V init" "dag_result U F V init" for U F V init
proof unfold_locales
  show "0 < n" if "dag_inv U F V init s n" for s n using that by (auto simp: dag_inv_def)
qed (rule dag_turn_cases)

lemma dag_new_inv:
  assumes "dag_closed U V" "init \<in> V" "m \<noteq> 0"
  shows "\<exists>s. dag_new m init None = Inr s \<and> dag_inv U F V init s (2 * card V + 1)"
proof -
  let ?s = "\<lparr>dag_init = init, dag_max = m, dag_scheduled = [], dag_unscheduled = [(init, Unfold init)],
    dag_tree = [(init, Pending [node_location_new init 0] None)], unfold_limit = None\<rparr>"
  let ?P = "(\<lambda>_. [])(init := [node_location_new init 0])"
  have new: "dag_new m init None = Inr ?s" by (simp add: dag_new_def dag_enqueue_unfold_def)
  have "finite V" using assms by (simp add: dag_closed_def)
  then have card: "2 * card V = 2 * card (V - {init}) + 2" using assms(2) by (metis card_Suc_Diff1 mult_Suc_right add.commute)
  have "ainv U F V init {init} Map.empty Map.empty ?P {#(init, Unfold init)#} (\<lambda>_. 0)"
    using assms(2) by (auto simp: ainv_def jobs_ok_def waits_ok_def parents_ok_def)
  moreover have "dag_link U None (dag_tree ?s) Map.empty Map.empty ?P"
    by (simp add: dag_link_def)
  ultimately have "dag_ok U F V None Map.empty Map.empty ?P {#} ?s (2 * card V)"
    unfolding dag_ok_def dag_jobs_def card by (auto simp: dag_work_def dag_weight_def)
  then have "dag_inv U F V init ?s (2 * card V + 1)" using assms by (auto simp: dag_inv_def)
  with new show ?thesis by blast
qed

section \<open>Bounds on jobs and nodes\<close>

text \<open>What the operations keep whatever the callbacks return, with a limit on the nodes too.\<close>

definition dag_bounded :: "nat \<Rightarrow> nat option \<Rightarrow> ('i, 'c, 'o) dag_traversal \<Rightarrow> bool" where
  "dag_bounded m lim s \<longleftrightarrow> dag_max s = m \<and> unfold_limit s = lim \<and> length (dag_scheduled s) \<le> m \<and>
     distinct (map fst (dag_tree s)) \<and>
     (case lim of None \<Rightarrow> True | Some l \<Rightarrow> length (dag_tree s) \<le> max 1 l)"

lemma length_update: "length (AList.update k v E) = (if k \<in> fst ` set E then length E else Suc (length E))"
  by (induction E) auto

lemma dag_enqueue_unfold_grows:
  assumes "dag_enqueue_unfold l y s = (out, s')" "distinct (map fst (dag_tree s))"
  shows "dag_max s' = dag_max s \<and> unfold_limit s' = unfold_limit s \<and> dag_scheduled s' = dag_scheduled s \<and>
    distinct (map fst (dag_tree s')) \<and> length (dag_tree s') \<le> Suc (length (dag_tree s))"
  using assms
  by (auto simp: dag_enqueue_unfold_def length_update distinct_update
      split: option.splits dag_node.splits)

lemma dag_enqueue_children_grows:
  "dag_enqueue_children x ci ys s = (outs, s') \<Longrightarrow> distinct (map fst (dag_tree s)) \<Longrightarrow>
     dag_max s' = dag_max s \<and> unfold_limit s' = unfold_limit s \<and> dag_scheduled s' = dag_scheduled s \<and>
     distinct (map fst (dag_tree s')) \<and> length (dag_tree s') \<le> length ys + length (dag_tree s)"
proof (induction ys arbitrary: ci s outs)
  case (Cons y ys)
  obtain out s1 where 1: "dag_enqueue_unfold (node_location_new x ci) y s = (out, s1)" by fastforce
  obtain outs' s2 where 2: "dag_enqueue_children x (ci + 1) ys s1 = (outs', s2)" by fastforce
  from Cons.prems(1) 1 2 have "s2 = s'" by simp
  with dag_enqueue_unfold_grows [OF 1 Cons.prems(2)] Cons.IH [of "ci + 1" s1] 2 show ?case by auto
qed simp

lemma dag_update_bounded:
  "dag_bounded m lim s \<Longrightarrow> map_of (dag_tree s) k \<noteq> None \<Longrightarrow>
     dag_bounded m lim (s\<lparr>dag_tree := AList.update k v (dag_tree s)\<rparr>)"
  by (auto simp: dag_bounded_def length_update distinct_update map_of_eq_None_iff split: option.splits)

lemma dag_enqueue_fold_bounded: "dag_bounded m lim s \<Longrightarrow> dag_bounded m lim (dag_enqueue_fold x c vs s)"
  by (simp add: dag_bounded_def dag_enqueue_fold_def split: option.splits)

lemma dag_process_unfold_bounded:
  assumes b: "dag_bounded m lim s" and p: "dag_process_unfold x (ctx, ys) s = Inr s'"
  shows "dag_bounded m lim s'"
proof -
  let ?ys = "dag_limit_children s ys"
  obtain outs s1 where e: "dag_enqueue_children x 0 ?ys s = (outs, s1)" by fastforce
  have "distinct (map fst (dag_tree s))" using b by (simp add: dag_bounded_def)
  from dag_enqueue_children_grows [OF e this] b have "dag_bounded m lim s1"
    by (auto simp: dag_bounded_def dag_limit_children_def usize_saturating_sub_def split: option.splits if_splits)
  with p e show ?thesis
    by (auto simp: dag_process_unfold_def Let_def split: if_splits option.splits dag_node.splits
        intro!: dag_update_bounded dag_enqueue_fold_bounded)
qed

lemma dag_update_location_bounded:
  "dag_bounded m lim s \<Longrightarrow> dag_update_location l v s = Inr s' \<Longrightarrow> dag_bounded m lim s'"
  by (auto simp: dag_update_location_def Let_def res_bind_eq_Inr split: if_splits option.splits dag_node.splits
      intro!: dag_update_bounded dag_enqueue_fold_bounded)

lemma dag_update_all_bounded:
  "dag_bounded m lim s \<Longrightarrow> dag_update_all ls v s = Inr s' \<Longrightarrow> dag_bounded m lim s'"
  by (induction ls arbitrary: s) (auto simp: res_bind_eq_Inr dest: dag_update_location_bounded)

lemma dag_process_fold_bounded:
  "dag_bounded m lim s \<Longrightarrow> dag_process_fold x v s = Inr s' \<Longrightarrow> dag_bounded m lim s'"
  by (auto simp: dag_process_fold_def split: option.splits dag_node.splits
      intro: dag_update_all_bounded [OF dag_update_bounded])

lemma dag_turn_bounded:
  assumes b: "dag_bounded m lim s" and t: "dag_turn U F k s = Continue s'"
  shows "dag_bounded m lim s'"
proof -
  obtain s1 where s1: "dag_schedule s = Inr s1" "dag_tree s1 = dag_tree s" "dag_max s1 = dag_max s"
    "unfold_limit s1 = unfold_limit s" "length (dag_scheduled s1) \<le> dag_max s"
    using dag_schedule_ok [of s] b by (auto simp: dag_bounded_def)
  then have b1: "dag_bounded m lim s1" using b by (simp add: dag_bounded_def split: option.splits)
  define i where "i = k mod length (dag_scheduled s1)"
  define s2 where "s2 = s1\<lparr>dag_scheduled := take i (dag_scheduled s1) @ drop (Suc i) (dag_scheduled s1)\<rparr>"
  have b2: "dag_bounded m lim s2" using b1 by (auto simp: dag_bounded_def s2_def split: option.splits)
  show ?thesis
  proof (cases "dag_scheduled s1 = []")
    case True
    with t s1 b1 show ?thesis by (auto simp: dag_turn_def split: if_splits)
  next
    case False
    have 1: "dag_process_unfold x u s2 = Inr s'" if "continue_with (dag_process_unfold x u s2) = Continue s'" for x u
      using that by (simp add: continue_with_def split: sum.splits)
    have 2: "dag_process_fold x v s2 = Inr s'" if "continue_with (dag_process_fold x v s2) = Continue s'" for x v
      using that by (simp add: continue_with_def split: sum.splits)
    from t False s1(1) show ?thesis
      unfolding dag_turn_def Let_def
      by (auto simp: i_def [symmetric] s2_def [symmetric] split: if_splits sum.splits result.splits
          dest!: 1 2 dag_process_unfold_bounded [OF b2] dag_process_fold_bounded [OF b2])
  qed
qed

lemma dag_loop_bounded:
  "dag_bounded m lim s \<Longrightarrow> poll_loop (dag_turn U F) ks s = Continue s' \<Longrightarrow> dag_bounded m lim s'"
  by (induction ks arbitrary: s) (auto dest: dag_turn_bounded split: poll_step.splits)

section \<open>Properties\<close>

text \<open>
  C9. \<open>bounded_traversal_dag\<close> on a finite implicit graph, with a non-zero concurrency and
  whatever the order in which jobs complete: it returns after at most \<open>2n + 1\<close> turns for \<open>n\<close>
  nodes, without a panic (in particular the assertions on the queues when the result of the
  initial node arrives hold).  The value it returns is the recursive value of the initial node;
  \<open>None\<close> is returned only if the graph has a cycle and the initial node no value; an error is that of the unfold of some
  node, or of the fold of some node on the values of its children.
\<close>

theorem bounded_traversal_dag_correct:
  assumes "dag_closed U V" "init \<in> V" "m \<noteq> 0" "2 * card V + 1 \<le> length choices"
  shows "\<exists>r. bounded_traversal_dag m init U F choices = Ready r \<and> dag_result U F V init r"
proof -
  obtain s where s: "dag_new m init None = Inr s" "dag_inv U F V init s (2 * card V + 1)"
    using dag_new_inv [OF assms(1-3)] by blast
  with dag.loop_ready [OF s(2) assms(4)] show ?thesis
    by (simp add: bounded_traversal_dag_def bounded_traversal_dag_limited_def)
qed

text \<open>A diamond: 3 has the children 1 and 2, both have the child 0.\<close>

definition diamond :: "nat \<Rightarrow> (nat \<times> nat list, string) result" where
  "diamond n = (if n = 3 then Ok (3, [1, 2]) else if n = 0 then Ok (10, []) else Ok (n, [0]))"

definition sum_fold :: "nat \<Rightarrow> nat list \<Rightarrow> (nat, string) result" where
  "sum_fold c vs = Ok (c + sum_list vs)"

lemma diamond_closed: "dag_closed diamond {0, 1, 2, 3}"
  by (auto simp: dag_closed_def diamond_def split: if_splits)

theorem bounded_traversal_dag_correct_witness:
  "\<exists>r. bounded_traversal_dag 2 3 diamond sum_fold [0, 0, 1, 0, 1, 0, 0, 0, 0] = Ready r \<and>
     dag_result diamond sum_fold {0, 1, 2, 3} 3 r"
  by (rule bounded_traversal_dag_correct [OF diamond_closed]) simp_all

text \<open>
  Whatever the callbacks return and however jobs complete, \<open>bounded_traversal_dag_limited\<close>
  never runs more than \<open>scheduled_max\<close> jobs at once, has one entry for each node, and, when it
  has a limit, visits no more nodes than the limit (at least the initial node).
\<close>

theorem bounded_traversal_dag_bounds:
  assumes "bounded_traversal_dag_limited m init U F lim choices = Continue s"
  shows "length (dag_scheduled s) \<le> m \<and> distinct (map fst (dag_tree s)) \<and>
    (case lim of None \<Rightarrow> True | Some l \<Rightarrow> length (dag_tree s) \<le> max 1 l)"
proof -
  obtain s0 where s0: "dag_new m init lim = Inr s0" "poll_loop (dag_turn U F) choices s0 = Continue s"
    using assms by (auto simp: bounded_traversal_dag_limited_def split: sum.splits)
  then have "dag_bounded m lim s0"
    by (auto simp: dag_new_def dag_enqueue_unfold_def dag_bounded_def split: option.splits)
  with s0 have "dag_bounded m lim s" by (metis dag_loop_bounded)
  then show ?thesis by (simp add: dag_bounded_def)
qed

definition diamond_limited :: "(nat, nat, nat) dag_traversal" where
  "diamond_limited = \<lparr>dag_init = 3, dag_max = 2, dag_scheduled = [], dag_unscheduled = [(1, Unfold 1)],
     dag_tree = [(3, Pending [node_location_new 3 0] (Some \<lparr>dc_context = 3, dc_children = [None], dc_left = 1\<rparr>)),
       (1, Pending [node_location_new 3 0] None)], unfold_limit = Some 2\<rparr>"

lemma diamond_limited_run:
  "bounded_traversal_dag_limited 2 3 diamond sum_fold (Some 2) [0] = Continue diamond_limited"
  by (simp add: bounded_traversal_dag_limited_def dag_new_def dag_enqueue_unfold_def dag_turn_def
      dag_schedule_def dag_process_unfold_def dag_limit_children_def continue_with_def diamond_def
      diamond_limited_def usize_limit_def)

theorem bounded_traversal_dag_bounds_witness:
  "bounded_traversal_dag_limited 2 3 diamond sum_fold (Some 2) [0] = Continue diamond_limited \<and>
     length (dag_tree diamond_limited) \<le> max 1 2"
  using bounded_traversal_dag_bounds [OF diamond_limited_run] diamond_limited_run by simp

end
