(* ===== verification/Ordered_Stream.thy ===== *)
theory Ordered_Stream
  imports Bounded_Common
begin

text \<open>
  \<open>bounded_traversal_ordered_stream\<close> (\<open>shed/bounded_traversal/src/ordered_stream.rs\<close>): the
  traversal of an implicit tree as a stream that keeps the order of the tree.  Each unfolded
  item is a node of the execution tree; nodes are given budget, which limits how much may be
  queued behind items that are not yielded yet.  Every subtraction on \<open>usize\<close> is checked, an
  index out of range panics, and \<open>programming_error!\<close> is an error of its own.
\<close>

section \<open>Nodes\<close>

type_synonym os_location = "nat node_location"

datatype os_stop = Os_Panic panic | Os_Error string | Os_Fuel

type_synonym 'a os_res = "os_stop + 'a"

definition os_bind :: "'a os_res \<Rightarrow> ('a \<Rightarrow> 'b os_res) \<Rightarrow> 'b os_res" where
  "os_bind r f = (case r of Inl e \<Rightarrow> Inl e | Inr x \<Rightarrow> f x)"

definition os_lift :: "'a res \<Rightarrow> 'a os_res" where
  "os_lift r = (case r of Inl p \<Rightarrow> Inl (Os_Panic p) | Inr x \<Rightarrow> Inr x)"

definition usize_sub :: "nat \<Rightarrow> nat \<Rightarrow> nat res" where
  "usize_sub a b = (if b \<le> a then Inr (a - b) else Inl (Panic ''attempt to subtract with overflow''))"

lemma os_bind_simps [simp]: "os_bind (Inr x) f = f x" "os_bind (Inl e) f = Inl e"
  by (simp_all add: os_bind_def)

lemma os_lift_simps [simp]: "os_lift (Inr x) = Inr x" "os_lift (Inl p) = Inl (Os_Panic p)"
  by (simp_all add: os_lift_def)

datatype ('o, 'i) child =
  Ch_Unscheduled nat 'i
| Ch_Pending nat
| Ch_Output 'o
| Ch_Node nat nat
| Ch_Yielded

fun child_weight :: "('o, 'i) child \<Rightarrow> nat" where
  "child_weight (Ch_Unscheduled weight _) = weight"
| "child_weight (Ch_Pending weight) = weight"
| "child_weight (Ch_Node weight _) = weight"
| "child_weight (Ch_Output _) = 1"
| "child_weight Ch_Yielded = 0"

record ('o, 'i) os_node =
  os_parent :: "os_location option"
  os_children :: "('o, 'i) child list"
  remaining_weight :: nat
  budget :: nat
  expired :: nat
  schedule_next_index :: nat

record node_schedule =
  next_child_index :: nat
  sched_budget :: nat
  pending_count :: nat

datatype 'i node_action =
  Act_Schedule nat 'i
| Act_Recurse nat nat nat
| Act_Pending
| Act_Complete

datatype 'o node_yield =
  Y_Output nat 'o
| Y_FromChild nat
| Y_Pending nat
| Y_Complete

datatype 'o yield = Yield_Output "'o option" | Yield_Pending

definition os_node_new :: "os_location option \<Rightarrow> ('o, 'i) child list \<Rightarrow> nat \<Rightarrow> ('o, 'i) os_node" where
  "os_node_new par childs weight =
     \<lparr>os_parent = par, os_children = childs, remaining_weight = weight, budget = 0, expired = 0,
      schedule_next_index = 0\<rparr>"

definition add_budget :: "nat \<Rightarrow> ('o, 'i) os_node \<Rightarrow> nat \<times> ('o, 'i) os_node" where
  "add_budget b node =
     (let total = budget node + b;
          kept = min total (remaining_weight node)
      in (total - kept, node\<lparr>budget := kept\<rparr>))"

definition expire_budget :: "nat \<Rightarrow> ('o, 'i) os_node \<Rightarrow> ('o, 'i) os_node" where
  "expire_budget b node = node\<lparr>expired := expired node + b\<rparr>"

definition take_expired :: "('o, 'i) os_node \<Rightarrow> nat \<times> ('o, 'i) os_node" where
  "take_expired node =
     (let surplus = usize_saturating_sub (budget node) (remaining_weight node);
          e = min (expired node) surplus
      in (e, node\<lparr>budget := budget node - e, expired := expired node - e\<rparr>))"

definition take_surplus :: "('o, 'i) os_node \<Rightarrow> nat \<times> ('o, 'i) os_node" where
  "take_surplus node =
     (let surplus = usize_saturating_sub (budget node) (remaining_weight node)
      in (surplus, node\<lparr>budget := budget node - surplus\<rparr>))"

definition budget_needed :: "('o, 'i) os_node \<Rightarrow> nat" where
  "budget_needed node = usize_saturating_sub (remaining_weight node) (budget node)"

definition node_schedule_of :: "('o, 'i) os_node \<Rightarrow> node_schedule" where
  "node_schedule_of node =
     \<lparr>next_child_index = schedule_next_index node, sched_budget = budget node, pending_count = 0\<rparr>"

function node_yield_next :: "nat \<Rightarrow> ('o, 'i) os_node \<Rightarrow> ('o node_yield \<times> ('o, 'i) os_node) res" where
  "node_yield_next ci node =
     (if ci < length (os_children node) then
        (case os_children node ! ci of
           Ch_Unscheduled _ _ \<Rightarrow> Inr (Y_Pending ci, node)
         | Ch_Pending _ \<Rightarrow> Inr (Y_Pending ci, node)
         | Ch_Output output \<Rightarrow>
             if budget node = 0 then Inr (Y_Pending ci, node)
             else
               res_bind (usize_sub (remaining_weight node) 1) (\<lambda>w.
                 Inr (Y_Output ci output,
                      node\<lparr>os_children := (os_children node)[ci := Ch_Yielded], remaining_weight := w\<rparr>))
         | Ch_Node _ idx \<Rightarrow> Inr (Y_FromChild idx, node)
         | Ch_Yielded \<Rightarrow> node_yield_next (ci + 1) node)
      else Inr (Y_Complete, node))"
  by pat_completeness auto
termination
  by (relation "measure (\<lambda>(ci, node). length (os_children node) - ci)") auto

declare node_yield_next.simps [simp del]

definition child_yielded :: "nat \<Rightarrow> nat \<Rightarrow> ('o, 'i) os_node \<Rightarrow> ('o, 'i) os_node res" where
  "child_yielded ci needed node =
     res_bind (vec_index (os_children node) ci) (\<lambda>child.
       case child of
         Ch_Node weight idx \<Rightarrow>
           if weight > needed then
             (let cancelled = weight - needed in
              res_bind (usize_sub (remaining_weight node) cancelled) (\<lambda>w.
                Inr (node\<lparr>os_children := (os_children node)[ci := Ch_Node (weight - cancelled) idx],
                          remaining_weight := w\<rparr>)))
           else Inr node
       | _ \<Rightarrow> Inr node)"

definition child_complete :: "nat \<Rightarrow> nat \<Rightarrow> ('o, 'i) os_node \<Rightarrow> ('o, 'i) os_node res" where
  "child_complete ci surplus node =
     res_bind (vec_index (os_children node) ci) (\<lambda>child.
       res_bind (usize_sub (remaining_weight node) (child_weight child)) (\<lambda>w.
         Inr (node\<lparr>os_children := (os_children node)[ci := Ch_Yielded],
                   budget := budget node + surplus, remaining_weight := w\<rparr>)))"

section \<open>Scheduling the children of a node\<close>

definition consume_budget :: "nat \<Rightarrow> node_schedule \<Rightarrow> nat \<times> node_schedule" where
  "consume_budget b sched =
     (let b = min b (sched_budget sched) in (b, sched\<lparr>sched_budget := sched_budget sched - b\<rparr>))"

function next_action ::
  "node_schedule \<Rightarrow> ('o, 'i) os_node \<Rightarrow> ('i node_action \<times> node_schedule \<times> ('o, 'i) os_node) res" where
  "next_action sched node =
     (if next_child_index sched < length (os_children node) then
        (let ci = next_child_index sched;
             sched = sched\<lparr>next_child_index := ci + 1\<rparr>;
             (b, sched) = consume_budget (child_weight (os_children node ! ci)) sched
         in case os_children node ! ci of
              Ch_Unscheduled weight input \<Rightarrow>
                (let sched = sched\<lparr>pending_count := pending_count sched + 1\<rparr> in
                 if b > 0 then
                   Inr (Act_Schedule ci input, sched,
                        node\<lparr>os_children := (os_children node)[ci := Ch_Pending weight]\<rparr>)
                 else next_action sched node)
            | Ch_Node weight idx \<Rightarrow>
                (let sched = sched\<lparr>pending_count := pending_count sched + 1\<rparr> in
                 if b > 0 then
                   res_bind (usize_sub weight b) (\<lambda>weight.
                   res_bind (usize_sub (remaining_weight node) b) (\<lambda>w.
                   res_bind (usize_sub (budget node) b) (\<lambda>nb.
                     Inr (Act_Recurse ci idx b, sched,
                          node\<lparr>os_children := (os_children node)[ci := Ch_Node weight idx],
                               remaining_weight := w, budget := nb\<rparr>))))
                 else Inr (Act_Recurse ci idx b, sched, node))
            | Ch_Pending _ \<Rightarrow> next_action (sched\<lparr>pending_count := pending_count sched + 1\<rparr>) node
            | Ch_Yielded \<Rightarrow>
                next_action sched
                  (if ci = schedule_next_index node
                   then node\<lparr>schedule_next_index := schedule_next_index node + 1\<rparr> else node)
            | Ch_Output _ \<Rightarrow> next_action sched node)
      else if pending_count sched > 0 then Inr (Act_Pending, sched, node)
      else Inr (Act_Complete, sched, node))"
  by pat_completeness auto
termination
  by (relation "measure (\<lambda>(sched, node). length (os_children node) - next_child_index sched)")
    (auto simp: consume_budget_def Let_def)

declare next_action.simps [simp del]

definition child_scheduled :: "node_schedule \<Rightarrow> node_schedule res" where
  "child_scheduled sched =
     res_bind (usize_sub (pending_count sched) 1) (\<lambda>n. Inr (sched\<lparr>pending_count := n\<rparr>))"

text \<open>A property of \<open>next_action\<close> that each of its turns keeps.\<close>

lemma next_action_advances:
  "next_action sched node = Inr (act, sched', node') \<Longrightarrow>
     next_child_index sched \<le> next_child_index sched' \<and> length (os_children node') = length (os_children node) \<and>
     (act = Act_Schedule ci input \<longrightarrow> next_child_index sched < next_child_index sched' \<and>
        next_child_index sched < length (os_children node))"
proof (induction sched node rule: next_action.induct)
  case (1 sched node)
  show ?case
  proof (cases "next_child_index sched < length (os_children node)")
    case False
    with "1.prems" show ?thesis by (subst (asm) next_action.simps) (auto split: if_splits)
  next
    case True
    define ci where "ci = next_child_index sched"
    define b where "b = min (child_weight (os_children node ! ci)) (sched_budget sched)"
    define s1 where "s1 = sched\<lparr>next_child_index := ci + 1, sched_budget := sched_budget sched - b\<rparr>"
    have c: "consume_budget (child_weight (os_children node ! ci)) (sched\<lparr>next_child_index := ci + 1\<rparr>) = (b, s1)"
      by (simp add: consume_budget_def b_def s1_def Let_def)
    note step = "1.prems" [unfolded next_action.simps [of sched node] Let_def ci_def [symmetric] c prod.case]
    note IH = "1.IH" [OF True ci_def refl c [symmetric] refl]
    show ?thesis
    proof (cases "os_children node ! ci")
      case (Ch_Unscheduled w i)
      with step IH(1) [OF Ch_Unscheduled refl] True show ?thesis
        by (auto simp: s1_def ci_def split: if_splits)
    next
      case (Ch_Pending w)
      with step IH(2) [OF Ch_Pending] True show ?thesis by (auto simp: s1_def ci_def)
    next
      case (Ch_Output out)
      with step IH(3) [OF Ch_Output] True show ?thesis by (auto simp: s1_def ci_def)
    next
      case (Ch_Node w i)
      with step True show ?thesis
        by (auto simp: s1_def ci_def res_bind_eq_Inr split: if_splits)
    next
      case Ch_Yielded
      with step IH(4) [OF Ch_Yielded] True show ?thesis by (auto simp: s1_def ci_def split: if_splits)
    qed
  qed
qed

section \<open>The stream\<close>

record ('o, 'i) ordered_stream =
  os_scheduled_max :: nat
  total_budget :: nat
  os_limit :: "nat option"
  schedule_queue :: "(os_location \<times> 'i) list"
  os_scheduled :: "(os_location \<times> 'i) list"
  os_tree :: "(nat \<times> ('o, 'i) os_node) list"
  os_index :: nat
  yield_next_location :: "os_location option"

definition os_init_children :: "(nat \<times> 'i) list \<Rightarrow> ('o, 'i) child list" where
  "os_init_children init = map (\<lambda>(weight, input). Ch_Unscheduled (max weight 1) input) init"

definition os_new ::
  "nat \<Rightarrow> nat \<Rightarrow> nat option \<Rightarrow> (nat \<times> 'i) list \<Rightarrow> ('o, 'i) ordered_stream res" where
  "os_new max_scheduled queued_max lim init =
     (let childs = os_init_children init;
          (surplus, root) = add_budget queued_max (os_node_new None childs (sum_list (map child_weight childs)))
      in res_bind (usize_sub queued_max surplus) (\<lambda>total.
           Inr \<lparr>os_scheduled_max = max_scheduled, total_budget = total, os_limit = lim,
                schedule_queue = [], os_scheduled = [], os_tree = [(0, root)], os_index = 0,
                yield_next_location = (if lim = Some 0 then None else Some (node_location_new 0 0))\<rparr>))"

definition os_clear :: "('o, 'i) ordered_stream \<Rightarrow> ('o, 'i) ordered_stream" where
  "os_clear this = this\<lparr>yield_next_location := None, total_budget := 0, os_tree := [],
     schedule_queue := [], os_scheduled := []\<rparr>"

text \<open>Starting the unfold of a child, or queueing it when enough are running.\<close>

definition os_start :: "os_location \<Rightarrow> 'i \<Rightarrow> ('o, 'i) ordered_stream \<Rightarrow> ('o, 'i) ordered_stream" where
  "os_start loc input this =
     (if length (os_scheduled this) \<ge> os_scheduled_max this
      then this\<lparr>schedule_queue := schedule_queue this @ [(loc, input)]\<rparr>
      else this\<lparr>os_scheduled := os_scheduled this @ [(loc, input)]\<rparr>)"

text \<open>
  The inner \<open>loop\<close> of \<open>schedule_next\<close> on one node: start children until the node recurses into
  a child or is done.
\<close>

function os_node_loop ::
  "nat \<Rightarrow> node_schedule \<Rightarrow> ('o, 'i) os_node \<Rightarrow> ('o, 'i) ordered_stream \<Rightarrow>
     ('i node_action \<times> node_schedule \<times> ('o, 'i) os_node \<times> ('o, 'i) ordered_stream) res" where
  "os_node_loop idx sched node this =
     (case next_action sched node of
        Inl p \<Rightarrow> Inl p
      | Inr (Act_Schedule ci input, sched', node') \<Rightarrow>
          os_node_loop idx sched' node' (os_start (node_location_new idx ci) input this)
      | Inr (act, sched', node') \<Rightarrow> Inr (act, sched', node', this))"
  by pat_completeness auto
termination
  by (relation "measure (\<lambda>(idx, sched, node, this). length (os_children node) - next_child_index sched)")
    (auto dest!: next_action_advances)

declare os_node_loop.simps [simp del]

record frame =
  fr_node :: nat
  fr_child :: "nat option"
  fr_schedule :: "node_schedule option"
  fr_surplus :: nat

text \<open>
  The \<open>while\<close> loop of \<open>schedule_next\<close> over its stack of frames, top first.  The fuel bounds the
  number of times a frame is looked at.
\<close>

fun os_schedule_loop ::
  "nat \<Rightarrow> frame list \<Rightarrow> nat option \<Rightarrow> nat \<Rightarrow> ('o, 'i) ordered_stream \<Rightarrow> (nat \<times> ('o, 'i) ordered_stream) os_res" where
  "os_schedule_loop fuel [] completed additional this = Inr (additional, this)"
| "os_schedule_loop 0 (fr # stack) completed additional this = Inl Os_Fuel"
| "os_schedule_loop (Suc fuel) (fr # stack) completed additional this =
     (case map_of (os_tree this) (fr_node fr) of
        None \<Rightarrow> Inl (Os_Error ''node must exist'')
      | Some node \<Rightarrow>
          os_bind (os_lift
            (case completed of
               None \<Rightarrow> Inr (case fr_schedule fr of Some s \<Rightarrow> s | None \<Rightarrow> node_schedule_of node)
             | Some _ \<Rightarrow> child_scheduled (case fr_schedule fr of Some s \<Rightarrow> s | None \<Rightarrow> node_schedule_of node)))
          (\<lambda>sched.
          case add_budget additional node of (extra, node) \<Rightarrow>
          (let surplus = fr_surplus fr + extra in
           os_bind (os_lift (os_node_loop (fr_node fr) sched node this)) (\<lambda>(act, sched, node, this).
           let this = this\<lparr>os_tree := AList.update (fr_node fr) node (os_tree this)\<rparr> in
           case act of
             Act_Recurse ci idx b \<Rightarrow>
               os_schedule_loop fuel
                 (\<lparr>fr_node = idx, fr_child = Some ci, fr_schedule = None, fr_surplus = 0\<rparr> #
                  fr\<lparr>fr_schedule := Some sched, fr_surplus := surplus\<rparr> # stack) None b this
           | Act_Complete \<Rightarrow> os_schedule_loop fuel stack (fr_child fr) surplus this
           | _ \<Rightarrow> os_schedule_loop fuel stack None surplus this))))"

definition os_schedule_next :: "nat \<Rightarrow> ('o, 'i) ordered_stream \<Rightarrow> ('o, 'i) ordered_stream os_res" where
  "os_schedule_next fuel this =
     os_bind (os_schedule_loop fuel [\<lparr>fr_node = 0, fr_child = None, fr_schedule = None, fr_surplus = 0\<rparr>] None 0 this)
       (\<lambda>(additional, this).
          os_bind (os_lift (usize_sub (total_budget this) additional)) (\<lambda>total.
            Inr (this\<lparr>total_budget := total\<rparr>)))"

section \<open>Yielding\<close>

text \<open>Walking up from a node that yielded, with its surplus and what it still needs.\<close>

fun os_walk_up ::
  "nat \<Rightarrow> os_location option \<Rightarrow> nat \<Rightarrow> nat \<Rightarrow> (nat \<times> ('o, 'i) os_node) list \<Rightarrow>
     (nat \<times> (nat \<times> ('o, 'i) os_node) list) os_res" where
  "os_walk_up fuel None surplus needed tree = Inr (surplus, tree)"
| "os_walk_up 0 (Some pl) surplus needed tree = Inl Os_Fuel"
| "os_walk_up (Suc fuel) (Some pl) surplus needed tree =
     (case map_of tree (node_index pl) of
        None \<Rightarrow> Inl (Os_Error ''parent must exist'')
      | Some node \<Rightarrow>
          os_bind (os_lift (child_yielded (child_index pl) needed node)) (\<lambda>node.
            case add_budget surplus node of (surplus, node) \<Rightarrow>
              os_walk_up fuel (os_parent node) surplus (budget_needed node)
                (AList.update (node_index pl) node tree)))"

definition os_output ::
  "nat \<Rightarrow> nat \<Rightarrow> nat \<Rightarrow> ('o, 'i) os_node \<Rightarrow> ('o, 'i) ordered_stream \<Rightarrow> ('o, 'i) ordered_stream os_res" where
  "os_output fuel idx ci node this =
     os_bind (os_lift
       (case os_limit this of
          None \<Rightarrow> Inr (node, this)
        | Some lim \<Rightarrow>
            res_bind (usize_sub lim 1) (\<lambda>lim.
              Inr (if lim < total_budget this then expire_budget 1 node else node,
                   this\<lparr>os_limit := Some lim\<rparr>))))
     (\<lambda>(node, this).
       if os_limit this = Some 0
       then Inr ((os_clear this)\<lparr>yield_next_location := None\<rparr>)
       else
         (case take_expired node of (e, node) \<Rightarrow>
            os_bind (os_lift (usize_sub (total_budget this) e)) (\<lambda>total.
              (case take_surplus node of (surplus, node) \<Rightarrow>
                 os_bind (os_walk_up fuel (os_parent node) surplus (budget_needed node)
                            (AList.update idx node (os_tree this)))
                   (\<lambda>(surplus, tree).
                     os_bind (os_lift (usize_sub total surplus)) (\<lambda>total.
                       Inr (this\<lparr>yield_next_location := Some (node_location_new idx (ci + 1)),
                                 os_tree := tree, total_budget := total\<rparr>)))))))"

fun os_yield_loop ::
  "nat \<Rightarrow> os_location option \<Rightarrow> ('o, 'i) ordered_stream \<Rightarrow> ('o yield \<times> ('o, 'i) ordered_stream) os_res" where
  "os_yield_loop fuel None this = Inr (Yield_Output None, this)"
| "os_yield_loop 0 (Some l) this = Inl Os_Fuel"
| "os_yield_loop (Suc fuel) (Some l) this =
     (case map_of (os_tree this) (node_index l) of
        None \<Rightarrow> Inr (Yield_Output None, this)
      | Some node \<Rightarrow>
          os_bind (os_lift (node_yield_next (child_index l) node)) (\<lambda>(y, node).
            let this = this\<lparr>os_tree := AList.update (node_index l) node (os_tree this)\<rparr> in
            case y of
              Y_FromChild idx \<Rightarrow> os_yield_loop fuel (Some (node_location_new idx 0)) this
            | Y_Complete \<Rightarrow>
                if remaining_weight node \<noteq> 0
                then Inl (Os_Panic (Panic ''assertion failed: node.remaining_weight == 0''))
                else
                  (let this = this\<lparr>os_tree := AList.delete (node_index l) (os_tree this)\<rparr> in
                   os_bind
                     (case os_parent node of
                        None \<Rightarrow> Inr this
                      | Some pl \<Rightarrow>
                          (case map_of (os_tree this) (node_index pl) of
                             None \<Rightarrow> Inr this
                           | Some pn \<Rightarrow>
                               os_bind (os_lift (child_complete (child_index pl) (budget node) pn)) (\<lambda>pn.
                                 Inr (this\<lparr>os_tree := AList.update (node_index pl) pn (os_tree this)\<rparr>))))
                     (os_yield_loop fuel (os_parent node)))
            | Y_Pending ci \<Rightarrow>
                Inr (Yield_Pending, this\<lparr>yield_next_location := Some (node_location_new (node_index l) ci)\<rparr>)
            | Y_Output ci out \<Rightarrow>
                os_bind (os_output fuel (node_index l) ci node this) (\<lambda>this. Inr (Yield_Output (Some out), this))))"

definition os_yield_next :: "nat \<Rightarrow> ('o, 'i) ordered_stream \<Rightarrow> ('o yield \<times> ('o, 'i) ordered_stream) os_res" where
  "os_yield_next fuel this = os_yield_loop fuel (yield_next_location this) (this\<lparr>yield_next_location := None\<rparr>)"

section \<open>Unfolded items\<close>

definition os_unfolded_children :: "('o, 'i) ordered_traversal list \<Rightarrow> ('o, 'i) child list" where
  "os_unfolded_children unfolded =
     map (\<lambda>item. case item of
            Output out \<Rightarrow> Ch_Output out
          | Recurse weight input \<Rightarrow> Ch_Unscheduled (max weight 1) input) unfolded"

definition os_process_unfold ::
  "os_location \<Rightarrow> ('o, 'i) ordered_traversal list \<Rightarrow> ('o, 'i) ordered_stream \<Rightarrow> ('o, 'i) ordered_stream os_res" where
  "os_process_unfold l unfolded this =
     (let this = this\<lparr>os_index := os_index this + 1\<rparr>;
          idx = os_index this;
          childs = os_unfolded_children unfolded;
          total_weight = sum_list (map child_weight childs)
      in case map_of (os_tree this) (node_index l) of
           None \<Rightarrow> Inl (Os_Error ''after unfold, parent must exist'')
         | Some pn \<Rightarrow>
             os_bind (os_lift (vec_index (os_children pn) (child_index l))) (\<lambda>child.
               let original_weight = child_weight child in
               if childs = [] then
                 os_bind (os_lift (usize_sub (remaining_weight pn) original_weight)) (\<lambda>w.
                   Inr (this\<lparr>os_tree := AList.update (node_index l)
                     (pn\<lparr>os_children := (os_children pn)[child_index l := Ch_Yielded], remaining_weight := w\<rparr>)
                     (os_tree this)\<rparr>))
               else
                 (let new_weight = min total_weight original_weight in
                  os_bind (os_lift (usize_sub original_weight new_weight)) (\<lambda>released.
                  os_bind (os_lift (usize_sub (remaining_weight pn) released)) (\<lambda>w.
                    Inr (this\<lparr>os_tree := AList.update idx (os_node_new (Some l) childs total_weight)
                      (AList.update (node_index l)
                        (pn\<lparr>os_children := (os_children pn)[child_index l := Ch_Node new_weight idx],
                            remaining_weight := w\<rparr>) (os_tree this))\<rparr>))))))"

section \<open>Polling\<close>

datatype ('s, 'o, 'e) os_turn =
  Os_Again 's
| Os_Item 'o 's
| Os_End 's
| Os_Failed 'e
| Os_Stopped os_stop

text \<open>
  The loops over the execution tree look at a node at most once on the way down and once on the
  way up; three times the number of nodes is enough for a loop and the walk to the root that ends it.
\<close>

definition os_fuel :: "('o, 'i) ordered_stream \<Rightarrow> nat" where
  "os_fuel this = 3 * length (os_tree this) + 3"

definition os_yield :: "('o, 'i) ordered_stream \<Rightarrow> ('o yield \<times> ('o, 'i) ordered_stream) os_res" where
  "os_yield this = os_yield_next (os_fuel this) this"

definition os_schedule :: "('o, 'i) ordered_stream \<Rightarrow> ('o, 'i) ordered_stream os_res" where
  "os_schedule this = os_schedule_next (os_fuel this) this"

text \<open>
  Waiting for a running unfold: the \<open>k\<close>-th completes, and a queued one starts in its place.  With
  nothing running the loop of \<open>poll_next\<close> just goes on.
\<close>

definition os_wait ::
  "('i \<Rightarrow> (('o, 'i) ordered_traversal list, 'e) result) \<Rightarrow> nat \<Rightarrow> ('o, 'i) ordered_stream \<Rightarrow>
     (('o, 'i) ordered_stream, 'o, 'e) os_turn" where
  "os_wait unfold_f k this =
     (if os_scheduled this = [] then Os_Again this
      else
        (let i = k mod length (os_scheduled this);
             (l, input) = os_scheduled this ! i;
             running = take i (os_scheduled this) @ drop (Suc i) (os_scheduled this);
             this = (case schedule_queue this of
                       [] \<Rightarrow> this\<lparr>os_scheduled := running\<rparr>
                     | job # queue \<Rightarrow>
                         this\<lparr>os_scheduled := running @ [job], schedule_queue := queue\<rparr>)
         in case unfold_f input of
              Err e \<Rightarrow> Os_Failed e
            | Ok unfolded \<Rightarrow>
                (case os_process_unfold l unfolded this of
                   Inl e \<Rightarrow> Os_Stopped e
                 | Inr this \<Rightarrow> Os_Again this)))"

text \<open>
  One turn of the loop of \<open>poll_next\<close> in which the \<open>k\<close>-th running unfold completes if the turn
  comes to waiting for one.
\<close>

definition os_turn ::
  "('i \<Rightarrow> (('o, 'i) ordered_traversal list, 'e) result) \<Rightarrow> nat \<Rightarrow> ('o, 'i) ordered_stream \<Rightarrow>
     (('o, 'i) ordered_stream, 'o, 'e) os_turn" where
  "os_turn unfold_f k this =
     (case os_yield this of
        Inl e \<Rightarrow> Os_Stopped e
      | Inr (Yield_Output None, this) \<Rightarrow> Os_End this
      | Inr (Yield_Output (Some out), this) \<Rightarrow> Os_Item out this
      | Inr (Yield_Pending, this) \<Rightarrow>
          (case os_bind (os_schedule this) os_yield of
             Inl e \<Rightarrow> Os_Stopped e
           | Inr (Yield_Output None, this) \<Rightarrow> Os_End this
           | Inr (Yield_Output (Some out), this) \<Rightarrow> Os_Item out this
           | Inr (Yield_Pending, this) \<Rightarrow> os_wait unfold_f k this))"

definition bounded_traversal_ordered_stream ::
  "nat \<Rightarrow> nat \<Rightarrow> (nat \<times> 'i) list \<Rightarrow> ('o, 'i) ordered_stream res" where
  "bounded_traversal_ordered_stream max_scheduled queued_max init = os_new max_scheduled queued_max None init"

definition bounded_traversal_limited_ordered_stream ::
  "nat \<Rightarrow> nat \<Rightarrow> nat \<Rightarrow> (nat \<times> 'i) list \<Rightarrow> ('o, 'i) ordered_stream res" where
  "bounded_traversal_limited_ordered_stream max_scheduled queued_max lim init =
     os_new max_scheduled queued_max (Some lim) init"

section \<open>Weights and budgets of a node\<close>

text \<open>The remaining weight of a node is the weight of its children.\<close>

definition weights_ok :: "('o, 'i) os_node \<Rightarrow> bool" where
  "weights_ok node \<longleftrightarrow> remaining_weight node = sum_list (map child_weight (os_children node))"

lemma sum_list_weight_update:
  "ci < length cs \<Longrightarrow>
     sum_list (map child_weight (cs[ci := ch])) + child_weight (cs ! ci) =
       sum_list (map child_weight cs) + child_weight ch"
proof (induction cs arbitrary: ci)
  case (Cons c cs)
  then show ?case by (cases ci) auto
qed simp

lemma weight_le_sum: "ci < length cs \<Longrightarrow> child_weight (cs ! ci) \<le> sum_list (map child_weight cs)"
  by (metis elem_le_sum_list length_map nth_map)

lemma weights_ok_update:
  assumes "weights_ok node" "ci < length (os_children node)" "child_weight ch \<le> child_weight (os_children node ! ci)"
  shows "child_weight (os_children node ! ci) - child_weight ch \<le> remaining_weight node"
    "sum_list (map child_weight ((os_children node)[ci := ch])) =
       remaining_weight node - (child_weight (os_children node ! ci) - child_weight ch)"
  using sum_list_weight_update [OF assms(2), of ch] weight_le_sum [OF assms(2)] assms(1,3)
  by (auto simp: weights_ok_def)

text \<open>
  The budget of a schedule is covered when the node can pay for what the schedule may still hand
  out, which the weights of the children that are left bound.
\<close>

definition weight_from :: "('o, 'i) os_node \<Rightarrow> nat \<Rightarrow> nat" where
  "weight_from node k = sum_list (map child_weight (drop k (os_children node)))"

definition covers :: "node_schedule \<Rightarrow> ('o, 'i) os_node \<Rightarrow> bool" where
  "covers sched node \<longleftrightarrow> min (sched_budget sched) (weight_from node (next_child_index sched)) \<le> budget node"

lemma weight_from_step:
  "k < length (os_children node) \<Longrightarrow> weight_from node k = child_weight (os_children node ! k) + weight_from node (Suc k)"
  by (simp add: weight_from_def Cons_nth_drop_Suc [symmetric])

lemma weight_from_le: "weights_ok node \<Longrightarrow> weight_from node k \<le> remaining_weight node"
proof -
  assume ok: "weights_ok node"
  have "sum_list (map child_weight (os_children node)) =
      sum_list (map child_weight (take k (os_children node))) + weight_from node k"
    unfolding weight_from_def by (metis append_take_drop_id map_append sum_list_append)
  with ok show ?thesis by (simp add: weights_ok_def)
qed

lemma covers_new: "covers (node_schedule_of node) node"
  by (simp add: covers_def node_schedule_of_def)

lemma covers_add_budget:
  assumes "weights_ok node" "covers sched node" "add_budget b node = (extra, node')"
  shows "covers sched node'"
proof -
  have "budget node' = min (budget node + b) (remaining_weight node)" "weight_from node' k = weight_from node k" for k
    using assms(3) by (auto simp: add_budget_def weight_from_def Let_def)
  then show ?thesis using assms(2) weight_from_le [OF assms(1), of "next_child_index sched"]
    by (auto simp: covers_def)
qed

text \<open>
  What an action may do: it hands out at most the budget of the schedule, takes what it hands
  out from the node, and touches the child it names only.
\<close>

definition action_ok :: "node_schedule \<Rightarrow> ('o, 'i) os_node \<Rightarrow> 'i node_action \<Rightarrow> node_schedule \<Rightarrow> ('o, 'i) os_node \<Rightarrow> bool" where
  "action_ok sched node act sched' node' \<longleftrightarrow>
     (case act of
        Act_Schedule ci input \<Rightarrow> budget node' = budget node \<and>
          (\<exists>w. ci < length (os_children node) \<and> os_children node ! ci = Ch_Unscheduled w input \<and>
             os_children node' = (os_children node)[ci := Ch_Pending w]) \<and>
          next_child_index sched \<le> ci \<and> next_child_index sched' = Suc ci
      | Act_Recurse ci idx b \<Rightarrow> budget node = budget node' + b \<and>
          (\<exists>w. ci < length (os_children node) \<and> os_children node ! ci = Ch_Node w idx \<and> b \<le> w \<and>
             os_children node' = (os_children node)[ci := Ch_Node (w - b) idx]) \<and>
          next_child_index sched \<le> ci \<and> next_child_index sched' = Suc ci \<and> 0 < pending_count sched'
      | _ \<Rightarrow> budget node' = budget node \<and> os_children node' = os_children node)"

lemma action_ok_mono:
  assumes "action_ok sched1 node1 act sched' node'" "next_child_index sched \<le> next_child_index sched1"
    and "os_children node1 = os_children node" "budget node1 = budget node"
  shows "action_ok sched node act sched' node'"
  using assms by (auto simp: action_ok_def split: node_action.splits)

lemma next_action_ok:
  "weights_ok node \<Longrightarrow> covers sched node \<Longrightarrow>
     \<exists>act sched' node'. next_action sched node = Inr (act, sched', node') \<and> weights_ok node' \<and>
       covers sched' node' \<and> action_ok sched node act sched' node' \<and>
       os_parent node' = os_parent node \<and> expired node' = expired node"
proof (induction sched node rule: next_action.induct)
  case (1 sched node)
  show ?case
  proof (cases "next_child_index sched < length (os_children node)")
    case False
    with "1.prems" show ?thesis by (subst next_action.simps) (auto simp: action_ok_def)
  next
    case True
    define ci where "ci = next_child_index sched"
    define b where "b = min (child_weight (os_children node ! ci)) (sched_budget sched)"
    define s1 where "s1 = sched\<lparr>next_child_index := ci + 1, sched_budget := sched_budget sched - b\<rparr>"
    define s2 where "s2 = s1\<lparr>pending_count := pending_count s1 + 1\<rparr>"
    have c: "consume_budget (child_weight (os_children node ! ci)) (sched\<lparr>next_child_index := ci + 1\<rparr>) = (b, s1)"
      by (simp add: consume_budget_def b_def s1_def Let_def)
    note unf = next_action.simps [of sched node, unfolded Let_def ci_def [symmetric] c prod.case, folded s2_def]
    note IH = "1.IH" [OF True ci_def refl c [symmetric] refl, folded s2_def]
    have ci: "ci < length (os_children node)" using True by (simp add: ci_def)
    have nexts: "next_child_index sched \<le> next_child_index s1" "next_child_index sched \<le> next_child_index s2"
      by (simp_all add: s1_def s2_def ci_def)
    have cov: "covers s1 node" "covers s2 node" "b \<le> budget node"
      "min (sched_budget s2) (weight_from node (Suc ci)) + b \<le> budget node"
      using "1.prems"(2) weight_from_step [OF ci] by (auto simp: covers_def s1_def s2_def b_def ci_def [symmetric])
    have later: "\<exists>act sched' node'. next_action sx nx = Inr (act, sched', node') \<and> weights_ok node' \<and>
        covers sched' node' \<and> action_ok sched node act sched' node' \<and>
        os_parent node' = os_parent node \<and> expired node' = expired node"
      if "\<exists>act sched' node'. next_action sx nx = Inr (act, sched', node') \<and> weights_ok node' \<and>
        covers sched' node' \<and> action_ok sx nx act sched' node' \<and>
        os_parent node' = os_parent nx \<and> expired node' = expired nx"
        "next_child_index sched \<le> next_child_index sx" "os_children nx = os_children node" "budget nx = budget node"
        "os_parent nx = os_parent node" "expired nx = expired node" for sx nx
      using that action_ok_mono by metis
    show ?thesis
    proof (cases "os_children node ! ci")
      case (Ch_Unscheduled w i)
      show ?thesis
      proof (cases "0 < b")
        case True
        let ?n = "node\<lparr>os_children := (os_children node)[ci := Ch_Pending w]\<rparr>"
        have "weights_ok ?n"
          using weights_ok_update(2) [OF "1.prems"(1) ci, of "Ch_Pending w"] Ch_Unscheduled by (simp add: weights_ok_def)
        moreover have "covers s2 ?n" using cov(2) by (simp add: covers_def weight_from_def s2_def s1_def)
        ultimately show ?thesis
          using True Ch_Unscheduled ci unfolding unf by (simp add: action_ok_def s2_def s1_def ci_def)
      next
        case False
        with Ch_Unscheduled ci later [OF IH(1) [OF Ch_Unscheduled refl False "1.prems"(1) cov(2)] nexts(2)] show ?thesis
          unfolding unf by simp
      qed
    next
      case (Ch_Pending w)
      with ci later [OF IH(2) [OF Ch_Pending "1.prems"(1) cov(2)] nexts(2)] show ?thesis unfolding unf by simp
    next
      case (Ch_Output out)
      with ci later [OF IH(3) [OF Ch_Output "1.prems"(1) cov(1)] nexts(1)] show ?thesis unfolding unf by simp
    next
      case (Ch_Node w i)
      have bw: "b \<le> w" using Ch_Node by (simp add: b_def)
      let ?cs = "(os_children node)[ci := Ch_Node (w - b) i]"
      have bounds: "b \<le> remaining_weight node" "sum_list (map child_weight ?cs) = remaining_weight node - b"
        using weights_ok_update [OF "1.prems"(1) ci, of "Ch_Node (w - b) i"] Ch_Node bw by simp_all
      show ?thesis
      proof (cases "0 < b")
        case True
        let ?n = "node\<lparr>os_children := ?cs, remaining_weight := remaining_weight node - b, budget := budget node - b\<rparr>"
        have "weights_ok ?n" using bounds(2) by (simp add: weights_ok_def)
        moreover have "covers s2 ?n" using cov(3,4) by (auto simp: covers_def weight_from_def s2_def s1_def)
        ultimately show ?thesis
          using True Ch_Node ci bw bounds(1) cov(3) unfolding unf
          by (simp add: usize_sub_def action_ok_def s2_def s1_def ci_def)
      next
        case False
        then have "?cs = os_children node" using Ch_Node by (metis diff_zero list_update_id not_gr_zero)
        with False Ch_Node ci "1.prems"(1) cov(2) show ?thesis
          unfolding unf by (simp add: action_ok_def s2_def s1_def ci_def)
      qed
    next
      case Ch_Yielded
      let ?node = "if ci = schedule_next_index node
        then node\<lparr>schedule_next_index := schedule_next_index node + 1\<rparr> else node"
      have same: "weights_ok ?node" "covers s1 ?node" "budget ?node = budget node"
        "os_children ?node = os_children node" "os_parent ?node = os_parent node" "expired ?node = expired node"
        using "1.prems"(1) cov(1) by (simp_all add: weights_ok_def covers_def weight_from_def)
      from ci later [OF IH(4) [OF Ch_Yielded same(1,2)] nexts(1) same(4,3,5,6)] Ch_Yielded show ?thesis
        unfolding unf by simp
    qed
  qed
qed

text \<open>
  What scheduling does to the children of a node: unscheduled ones become pending, with a job for
  each, and a child node may be given weight away.
\<close>

definition slot_rel :: "(os_location \<times> 'i) list \<Rightarrow> nat \<Rightarrow> nat \<Rightarrow> ('o, 'i) child \<Rightarrow> ('o, 'i) child \<Rightarrow> bool" where
  "slot_rel js idx k c c' \<longleftrightarrow> c' = c \<or> (\<exists>w w' j. c = Ch_Node w j \<and> c' = Ch_Node w' j) \<or>
     (\<exists>w i. c = Ch_Unscheduled w i \<and> c' = Ch_Pending w \<and> (node_location_new idx k, i) \<in> set js)"

definition node_rel :: "(os_location \<times> 'i) list \<Rightarrow> nat \<Rightarrow> ('o, 'i) os_node \<Rightarrow> ('o, 'i) os_node \<Rightarrow> bool" where
  "node_rel js idx node node' \<longleftrightarrow>
     os_parent node' = os_parent node \<and> length (os_children node') = length (os_children node) \<and>
     (\<forall>k < length (os_children node). slot_rel js idx k (os_children node ! k) (os_children node' ! k)) \<and>
     distinct (map fst js) \<and>
     (\<forall>(l, i) \<in> set js. \<exists>k w. l = node_location_new idx k \<and> k < length (os_children node) \<and>
        os_children node ! k = Ch_Unscheduled w i \<and> os_children node' ! k = Ch_Pending w)"

lemma node_rel_refl: "os_parent node' = os_parent node \<Longrightarrow> os_children node' = os_children node \<Longrightarrow> node_rel [] idx node node'"
  by (simp add: node_rel_def slot_rel_def)

lemma node_location_eq [simp]: "node_location_new a b = node_location_new c d \<longleftrightarrow> a = c \<and> b = d"
  by (auto simp: node_location_new_def)

lemma node_rel_schedule:
  assumes "os_children node ! k = Ch_Unscheduled w i" "k < length (os_children node)"
    and "os_children node1 = (os_children node)[k := Ch_Pending w]" "os_parent node1 = os_parent node"
    and "node_rel js idx node1 node'"
  shows "node_rel ((node_location_new idx k, i) # js) idx node node'"
proof -
  have len: "length (os_children node1) = length (os_children node)" using assms(3) by simp
  have pend: "os_children node1 ! k = Ch_Pending w" using assms(2,3) by simp
  have k': "os_children node' ! k = Ch_Pending w"
    using assms(2,5) pend len by (auto simp: node_rel_def slot_rel_def)
  have new: "node_location_new idx k \<notin> fst ` set js"
    using assms(5) pend by (auto simp: node_rel_def)
  have "slot_rel ((node_location_new idx k, i) # js) idx m (os_children node ! m) (os_children node' ! m)"
    if m: "m < length (os_children node)" for m
  proof (cases "m = k")
    case True
    with assms(1) k' show ?thesis by (simp add: slot_rel_def)
  next
    case False
    then have "os_children node1 ! m = os_children node ! m" using assms(3) by simp
    moreover have "slot_rel js idx m (os_children node1 ! m) (os_children node' ! m)"
      using assms(5) m len by (simp add: node_rel_def)
    ultimately show ?thesis by (auto simp: slot_rel_def)
  qed
  moreover have "\<exists>m u. l = node_location_new idx m \<and> m < length (os_children node) \<and>
      os_children node ! m = Ch_Unscheduled u x \<and> os_children node' ! m = Ch_Pending u" if lx: "(l, x) \<in> set js" for l x
  proof -
    from assms(5) lx obtain m u where m: "l = node_location_new idx m" "m < length (os_children node1)"
      "os_children node1 ! m = Ch_Unscheduled u x" "os_children node' ! m = Ch_Pending u"
      by (auto simp: node_rel_def)
    then have "m \<noteq> k" using pend by auto
    with m len assms(3) show ?thesis by auto
  qed
  ultimately show ?thesis
    using assms(1,2,4,5) len k' new by (auto simp: node_rel_def)
qed

text \<open>The jobs of the stream, running and queued.\<close>

definition os_jobs :: "('o, 'i) ordered_stream \<Rightarrow> (os_location \<times> 'i) list" where
  "os_jobs this = os_scheduled this @ schedule_queue this"

lemma os_start_jobs: "mset (os_jobs (os_start l i this)) = mset (os_jobs this) + {#(l, i)#}"
  by (simp add: os_start_def os_jobs_def)

text \<open>The inner loop on one node hands out at most the budget of the node and never panics.\<close>

fun handed_out :: "'i node_action \<Rightarrow> nat" where
  "handed_out (Act_Recurse _ _ b) = b"
| "handed_out _ = 0"

text \<open>What the inner loop does to the rest of the stream.\<close>

definition stream_rel :: "(os_location \<times> 'i) list \<Rightarrow> ('o, 'i) ordered_stream \<Rightarrow> ('o, 'i) ordered_stream \<Rightarrow> bool" where
  "stream_rel js this this' \<longleftrightarrow>
     os_tree this' = os_tree this \<and> total_budget this' = total_budget this \<and> os_limit this' = os_limit this \<and>
     os_index this' = os_index this \<and> yield_next_location this' = yield_next_location this \<and>
     os_scheduled_max this' = os_scheduled_max this \<and>
     mset (os_jobs this') = mset (os_jobs this) + mset js \<and>
     length (os_scheduled this') \<le> max (length (os_scheduled this)) (os_scheduled_max this)"

lemma stream_rel_refl: "stream_rel [] this this"
  by (simp add: stream_rel_def)

lemma stream_rel_start: "stream_rel js (os_start l i this) this' \<Longrightarrow> stream_rel ((l, i) # js) this this'"
  using os_start_jobs [of l i this] by (auto simp: stream_rel_def os_start_def split: if_splits)

definition recurse_ok :: "node_schedule \<Rightarrow> 'i node_action \<Rightarrow> node_schedule \<Rightarrow> ('o, 'i) os_node \<Rightarrow> bool" where
  "recurse_ok sched act sched' node' \<longleftrightarrow>
     (case act of
        Act_Recurse ci j b \<Rightarrow> (\<exists>w. ci < length (os_children node') \<and> os_children node' ! ci = Ch_Node w j) \<and>
          next_child_index sched \<le> ci \<and> next_child_index sched' = Suc ci \<and> 0 < pending_count sched'
      | Act_Schedule _ _ \<Rightarrow> False
      | _ \<Rightarrow> True)"

lemma node_rel_action:
  assumes "action_ok sched node act sched' node'" "\<And>ci i. act \<noteq> Act_Schedule ci i" "os_parent node' = os_parent node"
  shows "node_rel [] idx node node'" "budget node = budget node' + handed_out act" "recurse_ok sched act sched' node'"
  using assms by (cases act; auto simp: action_ok_def node_rel_def slot_rel_def recurse_ok_def nth_list_update)+

lemma os_node_loop_ok:
  "weights_ok node \<Longrightarrow> covers sched node \<Longrightarrow>
     \<exists>act sched' node' this' js. os_node_loop idx sched node this = Inr (act, sched', node', this') \<and>
       weights_ok node' \<and> covers sched' node' \<and> budget node = budget node' + handed_out act \<and>
       expired node' = expired node \<and> node_rel js idx node node' \<and> stream_rel js this this' \<and>
       recurse_ok sched act sched' node'"
proof (induction idx sched node this rule: os_node_loop.induct)
  case (1 idx sched node this)
  obtain act sched1 node1 where a: "next_action sched node = Inr (act, sched1, node1)"
    and ok: "weights_ok node1" "covers sched1 node1" "action_ok sched node act sched1 node1"
      "os_parent node1 = os_parent node" "expired node1 = expired node"
    using next_action_ok [OF "1.prems"] by blast
  show ?case
  proof (cases "\<exists>ci input. act = Act_Schedule ci input")
    case True
    then obtain ci input where act: "act = Act_Schedule ci input" by blast
    let ?st = "os_start (node_location_new idx ci) input this"
    have "os_node_loop idx sched node this = os_node_loop idx sched1 node1 ?st"
      using a act by (subst os_node_loop.simps) simp
    moreover obtain act' sched' node' this' js where r: "os_node_loop idx sched1 node1 ?st = Inr (act', sched', node', this')"
      "weights_ok node'" "covers sched' node'" "budget node1 = budget node' + handed_out act'"
      "expired node' = expired node1" "node_rel js idx node1 node'" "stream_rel js ?st this'"
      "recurse_ok sched1 act' sched' node'"
      using "1.IH" [OF a refl _ refl ok(1,2), unfolded act, OF refl] by blast
    moreover have "node_rel ((node_location_new idx ci, input) # js) idx node node'"
      using ok(3,4) act r(6) by (auto simp: action_ok_def intro: node_rel_schedule)
    moreover have "recurse_ok sched act' sched' node'"
      using r(8) ok(3) act by (auto simp: recurse_ok_def action_ok_def split: node_action.splits)
    moreover have "budget node1 = budget node" using ok(3) act by (simp add: action_ok_def)
    ultimately show ?thesis using ok(5) stream_rel_start [OF r(7)] by metis
  next
    case False
    then have "os_node_loop idx sched node this = Inr (act, sched1, node1, this)"
      using a by (subst os_node_loop.simps) (auto split: node_action.splits)
    with ok node_rel_action [OF ok(3) _ ok(4)] False stream_rel_refl show ?thesis by blast
  qed
qed

text \<open>A node yields the first of its children that is not yielded, if that is an output it can pay for.\<close>

lemma node_yield_next_spec:
  assumes "weights_ok node"
  shows "ci \<le> length (os_children node) \<Longrightarrow> \<exists>y node'. node_yield_next ci node = Inr (y, node') \<and>
    weights_ok node' \<and> budget node' = budget node \<and>
    (\<exists>j \<ge> ci. (\<forall>i. ci \<le> i \<and> i < j \<longrightarrow> os_children node ! i = Ch_Yielded) \<and>
      (case y of
         Y_Output c out \<Rightarrow> c = j \<and> j < length (os_children node) \<and> os_children node ! j = Ch_Output out \<and>
           os_children node' = (os_children node)[j := Ch_Yielded] \<and> budget node \<noteq> 0
       | Y_FromChild idx \<Rightarrow> j < length (os_children node) \<and> (\<exists>w. os_children node ! j = Ch_Node w idx) \<and> node' = node
       | Y_Pending c \<Rightarrow> c = j \<and> j < length (os_children node) \<and> os_children node ! j \<noteq> Ch_Yielded \<and> node' = node
       | Y_Complete \<Rightarrow> j = length (os_children node) \<and> node' = node))"
  using assms
proof (induction ci node rule: node_yield_next.induct)
  case (1 ci node)
  show ?case
  proof (cases "ci < length (os_children node)")
    case False
    with "1.prems" show ?thesis by (subst node_yield_next.simps) auto
  next
    case ci: True
    show ?thesis
    proof (cases "os_children node ! ci")
      case (Ch_Output out)
      have w: "1 \<le> remaining_weight node"
        "sum_list (map child_weight ((os_children node)[ci := Ch_Yielded])) = remaining_weight node - 1"
        using weights_ok_update [OF "1.prems"(2) ci, of Ch_Yielded] Ch_Output by simp_all
      show ?thesis
        using ci Ch_Output w "1.prems"
        by (subst node_yield_next.simps) (auto simp: usize_sub_def weights_ok_def intro!: exI [of _ ci])
    next
      case (Ch_Node w i)
      with ci have "node_yield_next ci node = Inr (Y_FromChild i, node)"
        by (subst node_yield_next.simps) simp
      with Ch_Node ci "1.prems"(2) show ?thesis
        by (intro exI [of _ "Y_FromChild i"] exI [of _ node] conjI exI [of _ ci]) auto
    next
      case Ch_Yielded
      from "1.IH" [OF ci Ch_Yielded] ci "1.prems"(2) obtain y node' j where
        r: "node_yield_next (ci + 1) node = Inr (y, node')" "weights_ok node'" "budget node' = budget node"
          "ci + 1 \<le> j" "\<forall>i. ci + 1 \<le> i \<and> i < j \<longrightarrow> os_children node ! i = Ch_Yielded"
        and y: "case y of
         Y_Output c out \<Rightarrow> c = j \<and> j < length (os_children node) \<and> os_children node ! j = Ch_Output out \<and>
           os_children node' = (os_children node)[j := Ch_Yielded] \<and> budget node \<noteq> 0
       | Y_FromChild idx \<Rightarrow> j < length (os_children node) \<and> (\<exists>w. os_children node ! j = Ch_Node w idx) \<and> node' = node
       | Y_Pending c \<Rightarrow> c = j \<and> j < length (os_children node) \<and> os_children node ! j \<noteq> Ch_Yielded \<and> node' = node
       | Y_Complete \<Rightarrow> j = length (os_children node) \<and> node' = node"
        by auto
      have "\<forall>i. ci \<le> i \<and> i < j \<longrightarrow> os_children node ! i = Ch_Yielded"
        using r(5) Ch_Yielded by (metis Suc_eq_plus1 Suc_leI le_neq_implies_less)
      moreover have "node_yield_next ci node = Inr (y, node')"
        using r(1) ci Ch_Yielded by (subst node_yield_next.simps) simp
      ultimately show ?thesis using r(2-4) y
        by (intro exI [of _ y] exI [of _ node'] conjI exI [of _ j]) simp_all
    qed (use ci "1.prems" in \<open>subst node_yield_next.simps; auto intro!: exI [of _ ci]\<close>)+
  qed
qed

section \<open>Properties\<close>

text \<open>
  Scheduling the children of a node neither underflows nor loses budget.  On a node whose
  remaining weight is the weight of its children, with a schedule just made from it, the inner
  loop of \<open>schedule_next\<close> ends with the node waiting, complete or recursing into a child node:
  what the node gave away is what the recursion hands to the child, the remaining weight is
  still the weight of the children, and no more than \<open>scheduled_max\<close> unfolds run.
\<close>

theorem ordered_node_schedule_safe:
  assumes "weights_ok node" "length (os_scheduled this) \<le> os_scheduled_max this"
  shows "\<exists>act sched' node' this'.
    os_node_loop idx (node_schedule_of node) node this = Inr (act, sched', node', this') \<and>
    weights_ok node' \<and> budget node = budget node' + handed_out act \<and>
    length (os_scheduled this') \<le> os_scheduled_max this"
  using os_node_loop_ok [OF assms(1) covers_new, of idx this] assms(2)
  by (auto simp: stream_rel_def max_def)

definition sample_os_node :: "(nat, string) os_node" where
  "sample_os_node = \<lparr>os_parent = None, os_children = [Ch_Yielded, Ch_Unscheduled 2 ''a'', Ch_Node 3 4, Ch_Output 7],
     remaining_weight = 6, budget = 4, expired = 0, schedule_next_index = 0\<rparr>"

definition sample_os_stream :: "(nat, string) ordered_stream" where
  "sample_os_stream = \<lparr>os_scheduled_max = 1, total_budget = 4, os_limit = None, schedule_queue = [], os_scheduled = [],
     os_tree = [(0, sample_os_node)], os_index = 4, yield_next_location = Some (node_location_new 0 1)\<rparr>"

theorem ordered_node_schedule_safe_witness:
  "\<exists>act sched' node' this'.
    os_node_loop 0 (node_schedule_of sample_os_node) sample_os_node sample_os_stream = Inr (act, sched', node', this') \<and>
    weights_ok node' \<and> 4 = budget node' + handed_out act \<and> length (os_scheduled this') \<le> 1"
  using ordered_node_schedule_safe [of sample_os_node sample_os_stream 0]
  by (simp add: sample_os_node_def sample_os_stream_def weights_ok_def)

end
