(* ===== verification/Weighted_Buffer.thy ===== *)
theory Weighted_Buffer
  imports Poll_Streams
begin

text \<open>
  The adaptors that run the futures of a stream concurrently, limited by weight, and return
  their outputs in the order of the stream: \<open>WeightLimitedBufferedStream\<close> and
  \<open>WeightLimitedBufferedTryStream\<close> (\<open>shed/futures_ext/src/stream/weight_limited_buffered_stream.rs\<close>)
  and \<open>BufferedWeighted\<close> (\<open>shed/buffered_weighted/src\<close>).

  A future is the output it will produce.  The queue of running futures returns outputs in the
  order of insertion (\<open>FuturesOrdered\<close>); whether its first future has completed when it is
  polled is an argument of the poll.
\<close>

section \<open>Machine integers\<close>

text \<open>Arithmetic on \<open>u64\<close> in a build with overflow checks; where the properties show that nothing panics,
  a build without the checks computes the same values.\<close>

definition u64_add :: "nat \<Rightarrow> nat \<Rightarrow> nat res" where
  "u64_add a b = (if a + b < 2 ^ 64 then Inr (a + b) else Inl (Panic ''attempt to add with overflow''))"

definition u64_sub :: "nat \<Rightarrow> nat \<Rightarrow> nat res" where
  "u64_sub a b = (if b \<le> a then Inr (a - b) else Inl (Panic ''attempt to subtract with overflow''))"

definition u64_mul :: "nat \<Rightarrow> nat \<Rightarrow> nat res" where
  "u64_mul a b = (if a * b < 2 ^ 64 then Inr (a * b) else Inl (Panic ''attempt to multiply with overflow''))"

definition u64_saturating_add :: "nat \<Rightarrow> nat \<Rightarrow> nat" where
  "u64_saturating_add a b = min (a + b) (2 ^ 64 - 1)"

section \<open>\<open>WeightLimitedBufferedStream\<close>\<close>

record buffered_params =
  bp_weight_limit :: nat
  bp_buffer_size :: nat

record 'v weight_limited =
  wl_queue :: "('v \<times> nat) list"
  wl_current_weight :: nat
  wl_weight_limit :: nat
  wl_max_buffer_size :: nat
  wl_stream :: "('v \<times> nat) fuse"

definition wl_new :: "buffered_params \<Rightarrow> ('v \<times> nat) option list \<Rightarrow> 'v weight_limited" where
  "wl_new params script =
     \<lparr>wl_queue = [], wl_current_weight = 0, wl_weight_limit = bp_weight_limit params,
      wl_max_buffer_size = bp_buffer_size params, wl_stream = fuse_of script\<rparr>"

function wl_fill :: "'v weight_limited \<Rightarrow> 'v weight_limited res" where
  "wl_fill st =
     (if length (wl_queue st) < wl_max_buffer_size st \<and> wl_current_weight st < wl_weight_limit st then
        (case fuse_poll_next (wl_stream st) of
           (Poll_Ready (Some (f, weight)), stream) \<Rightarrow>
             res_bind (u64_add (wl_current_weight st) weight) (\<lambda>current.
               wl_fill (st\<lparr>wl_stream := stream, wl_current_weight := current,
                           wl_queue := wl_queue st @ [(f, weight)]\<rparr>))
         | (_, stream) \<Rightarrow> Inr (st\<lparr>wl_stream := stream\<rparr>))
      else Inr st)"
  by pat_completeness auto
termination
  by (relation "measure (\<lambda>st. length (fuse_script (wl_stream st)))") (auto dest: sym [THEN fuse_poll_shrinks])

declare wl_fill.simps [simp del]

definition wl_poll_next :: "bool \<Rightarrow> 'v weight_limited \<Rightarrow> ('v option poll \<times> 'v weight_limited) res" where
  "wl_poll_next front_ready st =
     res_bind (wl_fill st) (\<lambda>st.
       case wl_queue st of
         (val, weight) # queue \<Rightarrow>
           if front_ready then
             res_bind (u64_sub (wl_current_weight st) weight) (\<lambda>current.
               Inr (Poll_Ready (Some val), st\<lparr>wl_queue := queue, wl_current_weight := current\<rparr>))
           else Inr (Poll_Pending, st)
       | [] \<Rightarrow> Inr (if fuse_done (wl_stream st) then Poll_Ready None else Poll_Pending, st))"

section \<open>\<open>WeightLimitedBufferedTryStream\<close>\<close>

record ('i, 'e) weight_limited_try =
  wlt_queue :: "(('i, 'e) result \<times> nat) list"
  wlt_current_weight :: nat
  wlt_weight_limit :: nat
  wlt_max_buffer_size :: nat
  wlt_stream :: "(('i, 'e) result \<times> nat, 'e) result fuse"

definition wlt_new ::
  "buffered_params \<Rightarrow> (('i, 'e) result \<times> nat, 'e) result option list \<Rightarrow> ('i, 'e) weight_limited_try" where
  "wlt_new params script =
     \<lparr>wlt_queue = [], wlt_current_weight = 0, wlt_weight_limit = bp_weight_limit params,
      wlt_max_buffer_size = bp_buffer_size params, wlt_stream = fuse_of script\<rparr>"

function wlt_fill :: "('i, 'e) weight_limited_try \<Rightarrow> ('i, 'e) weight_limited_try res" where
  "wlt_fill st =
     (if length (wlt_queue st) < wlt_max_buffer_size st \<and> wlt_current_weight st < wlt_weight_limit st then
        (case fuse_poll_next (wlt_stream st) of
           (Poll_Ready (Some (Ok (f, weight))), stream) \<Rightarrow>
             res_bind (u64_add (wlt_current_weight st) weight) (\<lambda>current.
               wlt_fill (st\<lparr>wlt_stream := stream, wlt_current_weight := current,
                            wlt_queue := wlt_queue st @ [(f, weight)]\<rparr>))
         | (Poll_Ready (Some (Err e)), stream) \<Rightarrow>
             wlt_fill (st\<lparr>wlt_stream := stream, wlt_queue := wlt_queue st @ [(Err e, 0)]\<rparr>)
         | (_, stream) \<Rightarrow> Inr (st\<lparr>wlt_stream := stream\<rparr>))
      else Inr st)"
  by pat_completeness auto
termination
  by (relation "measure (\<lambda>st. length (fuse_script (wlt_stream st)))") (auto dest: sym [THEN fuse_poll_shrinks])

declare wlt_fill.simps [simp del]

definition wlt_poll_next ::
  "bool \<Rightarrow> ('i, 'e) weight_limited_try \<Rightarrow> (('i, 'e) result option poll \<times> ('i, 'e) weight_limited_try) res" where
  "wlt_poll_next front_ready st =
     res_bind (wlt_fill st) (\<lambda>st.
       case wlt_queue st of
         (val, weight) # queue \<Rightarrow>
           if front_ready then
             res_bind (u64_sub (wlt_current_weight st) weight) (\<lambda>current.
               Inr (Poll_Ready (Some val), st\<lparr>wlt_queue := queue, wlt_current_weight := current\<rparr>))
           else Inr (Poll_Pending, st)
       | [] \<Rightarrow> Inr (if fuse_done (wlt_stream st) then Poll_Ready None else Poll_Pending, st))"

section \<open>\<open>GlobalWeight\<close> and \<open>MemoryBound\<close>\<close>

record global_weight =
  gw_max :: nat
  gw_current :: nat

definition gw_new :: "nat \<Rightarrow> global_weight" where
  "gw_new m = \<lparr>gw_max = m, gw_current = 0\<rparr>"

definition gw_has_space_for :: "global_weight \<Rightarrow> nat \<Rightarrow> bool" where
  "gw_has_space_for gw weight \<longleftrightarrow> (let weight = min weight (gw_max gw) in gw_current gw \<le> gw_max gw - weight)"

definition gw_add_weight :: "nat \<Rightarrow> global_weight \<Rightarrow> global_weight res" where
  "gw_add_weight weight gw =
     (let weight = min weight (gw_max gw) in
      case usize_checked_add (gw_current gw) weight of
        Some current \<Rightarrow> Inr (gw\<lparr>gw_current := current\<rparr>)
      | None \<Rightarrow> Inl (Panic ''future_queue_grouped: added weight to current, overflowed''))"

definition gw_sub_weight :: "nat \<Rightarrow> global_weight \<Rightarrow> global_weight res" where
  "gw_sub_weight weight gw =
     (let weight = min weight (gw_max gw) in
      if weight \<le> gw_current gw then Inr (gw\<lparr>gw_current := gw_current gw - weight\<rparr>)
      else Inl (Panic ''future_queue_grouped: subtracted weight from current, overflowed''))"

text \<open>
  What \<open>procfs\<close> reports, if it does: the resident pages of the process and the size of a page.
\<close>

type_synonym proc_stat = "(nat \<times> nat) option"

definition mb_within_bound :: "nat option \<Rightarrow> proc_stat \<Rightarrow> nat \<Rightarrow> bool res" where
  "mb_within_bound bound stats weight =
     (case bound of
        None \<Rightarrow> Inr True
      | Some b \<Rightarrow>
          (case stats of
             None \<Rightarrow> Inr True
           | Some (rss, page_size) \<Rightarrow>
               res_bind (u64_mul rss page_size) (\<lambda>rss_bytes.
                 Inr (u64_saturating_add rss_bytes weight < b))))"

section \<open>\<open>PeekableFused\<close>\<close>

record 'a peekable =
  pk_stream :: "'a fuse"
  pk_peeked :: "'a option"

definition pk_new :: "'a fuse \<Rightarrow> 'a peekable" where
  "pk_new stream = \<lparr>pk_stream = stream, pk_peeked = None\<rparr>"

definition pk_is_done :: "'a peekable \<Rightarrow> bool" where
  "pk_is_done pk = fuse_done (pk_stream pk)"

definition pk_is_terminated :: "'a peekable \<Rightarrow> bool" where
  "pk_is_terminated pk \<longleftrightarrow> pk_peeked pk = None \<and> fuse_done (pk_stream pk)"

text \<open>The \<open>loop\<close> of \<open>poll_peek\<close> turns at most twice: a stored item ends it.\<close>

definition pk_poll_peek :: "'a peekable \<Rightarrow> 'a option poll \<times> 'a peekable" where
  "pk_poll_peek pk =
     (case pk_peeked pk of
        Some item \<Rightarrow> (Poll_Ready (Some item), pk)
      | None \<Rightarrow>
          (case fuse_poll_next (pk_stream pk) of
             (Poll_Pending, stream) \<Rightarrow> (Poll_Pending, pk\<lparr>pk_stream := stream\<rparr>)
           | (Poll_Ready None, stream) \<Rightarrow> (Poll_Ready None, pk\<lparr>pk_stream := stream\<rparr>)
           | (Poll_Ready (Some item), stream) \<Rightarrow>
               (Poll_Ready (Some item), pk\<lparr>pk_stream := stream, pk_peeked := Some item\<rparr>)))"

definition pk_poll_next :: "'a peekable \<Rightarrow> 'a option poll \<times> 'a peekable" where
  "pk_poll_next pk =
     (case pk_peeked pk of
        Some item \<Rightarrow> (Poll_Ready (Some item), pk\<lparr>pk_peeked := None\<rparr>)
      | None \<Rightarrow>
          (case fuse_poll_next (pk_stream pk) of (p, stream) \<Rightarrow> (p, pk\<lparr>pk_stream := stream\<rparr>)))"

definition hint_add :: "nat \<Rightarrow> nat \<times> nat option \<Rightarrow> nat \<times> nat option" where
  "hint_add n hint =
     (min (fst hint + n) (usize_limit - 1),
      case snd hint of Some x \<Rightarrow> usize_checked_add x n | None \<Rightarrow> None)"

definition pk_size_hint :: "nat \<times> nat option \<Rightarrow> 'a peekable \<Rightarrow> nat \<times> nat option" where
  "pk_size_hint stream_hint pk = hint_add (if pk_peeked pk = None then 0 else 1) stream_hint"

section \<open>\<open>BufferedWeighted\<close>\<close>

record 'v buffered_weighted =
  bw_stream :: "(nat \<times> 'v) peekable"
  bw_queue :: "(nat \<times> 'v) list"
  bw_global_weight :: global_weight
  bw_bound :: "nat option"

definition bw_new :: "(nat \<times> 'v) option list \<Rightarrow> nat \<Rightarrow> nat option \<Rightarrow> 'v buffered_weighted" where
  "bw_new script max_weight bound =
     \<lparr>bw_stream = pk_new (fuse_of script), bw_queue = [], bw_global_weight = gw_new max_weight, bw_bound = bound\<rparr>"

definition bw_max_weight :: "'v buffered_weighted \<Rightarrow> nat" where
  "bw_max_weight st = gw_max (bw_global_weight st)"

definition bw_current_weight :: "'v buffered_weighted \<Rightarrow> nat" where
  "bw_current_weight st = gw_current (bw_global_weight st)"

text \<open>
  The condition under which the next future has to wait.  \<open>stats\<close> is what the system reports at
  this moment; it is only looked at when there is space.
\<close>

definition bw_must_wait :: "proc_stat \<Rightarrow> nat \<Rightarrow> 'v buffered_weighted \<Rightarrow> bool res" where
  "bw_must_wait stats weight st =
     (if \<not> gw_has_space_for (bw_global_weight st) weight then Inr True
      else res_bind (mb_within_bound (bw_bound st) stats weight) (\<lambda>within. Inr (\<not> within \<and> bw_queue st \<noteq> [])))"

function bw_fill :: "('v buffered_weighted \<Rightarrow> proc_stat) \<Rightarrow> 'v buffered_weighted \<Rightarrow> 'v buffered_weighted res" where
  "bw_fill proc st =
     (case pk_poll_peek (bw_stream st) of
        (Poll_Ready (Some item), stream) \<Rightarrow>
          res_bind (bw_must_wait (proc st) (fst item) (st\<lparr>bw_stream := stream\<rparr>)) (\<lambda>wait.
            if wait then Inr (st\<lparr>bw_stream := stream\<rparr>)
            else
              (case pk_poll_next stream of
                 (Poll_Ready (Some (weight, fut)), stream') \<Rightarrow>
                   res_bind (gw_add_weight weight (bw_global_weight st)) (\<lambda>gw.
                     bw_fill proc (st\<lparr>bw_stream := stream', bw_global_weight := gw,
                                      bw_queue := bw_queue st @ [(weight, fut)]\<rparr>))
               | _ \<Rightarrow> Inl (Panic ''we just peeked at this item'')))
      | (_, stream) \<Rightarrow> Inr (st\<lparr>bw_stream := stream\<rparr>))"
  by pat_completeness auto
termination
  by (relation "measure (\<lambda>(proc, st). length (fuse_script (pk_stream (bw_stream st))) +
      (if pk_peeked (bw_stream st) = None then 0 else 1))")
    (auto simp: pk_poll_peek_def pk_poll_next_def split: option.splits poll.splits prod.splits
      dest: fuse_poll_shrinks)

declare bw_fill.simps [simp del]

type_synonym 'v bw_surroundings = "bool \<times> ('v buffered_weighted \<Rightarrow> proc_stat)"

definition bw_poll_next ::
  "'v bw_surroundings \<Rightarrow> 'v buffered_weighted \<Rightarrow> ('v option poll \<times> 'v buffered_weighted) res" where
  "bw_poll_next env st =
     (case env of (front_ready, proc) \<Rightarrow>
        res_bind (bw_fill proc st) (\<lambda>st.
          case bw_queue st of
            (weight, output) # queue \<Rightarrow>
              if front_ready then
                res_bind (gw_sub_weight weight (bw_global_weight st)) (\<lambda>gw.
                  Inr (Poll_Ready (Some output), st\<lparr>bw_queue := queue, bw_global_weight := gw\<rparr>))
              else Inr (Poll_Pending, st)
          | [] \<Rightarrow> Inr (if pk_is_done (bw_stream st) then Poll_Ready None else Poll_Pending, st)))"

definition bw_size_hint :: "nat \<times> nat option \<Rightarrow> 'v buffered_weighted \<Rightarrow> nat \<times> nat option" where
  "bw_size_hint stream_hint st = hint_add (length (bw_queue st)) (pk_size_hint stream_hint (bw_stream st))"

section \<open>The weight-limited buffer keeps order and bounds\<close>

definition wl_owed :: "'v weight_limited \<Rightarrow> 'v list" where
  "wl_owed st = map fst (wl_queue st) @ map fst (script_items (fuse_script (wl_stream st)))"

definition wl_work :: "'v weight_limited \<Rightarrow> nat" where
  "wl_work st = 2 * length (fuse_script (wl_stream st)) + length (wl_queue st)"

text \<open>No single weight may take the sum over the range of \<open>u64\<close> when the limit is not reached yet.\<close>

definition weights_fit :: "nat \<Rightarrow> ('v \<times> nat) list \<Rightarrow> bool" where
  "weights_fit limit items \<longleftrightarrow> list_all (\<lambda>(v, w). limit + w \<le> 2 ^ 64) items"

definition wl_bounded :: "'v weight_limited \<Rightarrow> bool" where
  "wl_bounded st \<longleftrightarrow>
     wl_current_weight st = sum_list (map snd (wl_queue st)) \<and>
     length (wl_queue st) \<le> wl_max_buffer_size st \<and>
     (wl_queue st \<noteq> [] \<longrightarrow> sum_list (map snd (butlast (wl_queue st))) < wl_weight_limit st)"

definition wl_inv :: "buffered_params \<Rightarrow> 'v weight_limited \<Rightarrow> bool" where
  "wl_inv params st \<longleftrightarrow>
     fuse_ok (wl_stream st) \<and> wl_bounded st \<and>
     wl_weight_limit st = bp_weight_limit params \<and> wl_max_buffer_size st = bp_buffer_size params \<and>
     weights_fit (bp_weight_limit params) (script_items (fuse_script (wl_stream st)))"

lemma wl_fill_ok:
  "wl_inv params st \<Longrightarrow> 0 < bp_weight_limit params \<Longrightarrow> 0 < bp_buffer_size params \<Longrightarrow>
     \<exists>st'. wl_fill st = Inr st' \<and> wl_inv params st' \<and> wl_owed st' = wl_owed st \<and> wl_work st' \<le> wl_work st \<and>
       (wl_queue st' = [] \<longrightarrow> fuse_done (wl_stream st') \<or> wl_work st' < wl_work st) \<and>
       (fuse_done (wl_stream st') \<longrightarrow> fuse_script (wl_stream st') = [])"
proof (induction st rule: wl_fill.induct)
  case (1 st)
  show ?case
  proof (cases "length (wl_queue st) < wl_max_buffer_size st \<and> wl_current_weight st < wl_weight_limit st")
    case False
    then have "wl_queue st \<noteq> []" using "1.prems" by (auto simp: wl_inv_def wl_bounded_def)
    with False "1.prems" show ?thesis
      by (subst wl_fill.simps) (auto simp: wl_inv_def fuse_ok_def)
  next
    case True
    have "fuse_ok (wl_stream st)" using "1.prems" by (simp add: wl_inv_def)
    then show ?thesis
    proof (cases rule: fuse_poll_cases)
      case (item x script)
      obtain f w where x: "x = (f, w)" by fastforce
      let ?st = "st\<lparr>wl_stream := (wl_stream st)\<lparr>fuse_script := script\<rparr>,
        wl_current_weight := wl_current_weight st + w, wl_queue := wl_queue st @ [(f, w)]\<rparr>"
      have "wl_weight_limit st + w \<le> 2 ^ 64" using "1.prems"(1) item(2) x by (auto simp: wl_inv_def weights_fit_def)
      then have add: "u64_add (wl_current_weight st) w = Inr (wl_current_weight st + w)"
        using True by (simp add: u64_add_def)
      have "wl_inv params ?st"
        using "1.prems"(1) item x True by (auto simp: wl_inv_def wl_bounded_def weights_fit_def butlast_append)
      moreover have "wl_fill st = wl_fill ?st" using True item(1) x add by (subst wl_fill.simps) simp
      moreover have "wl_owed ?st = wl_owed st" "wl_work ?st < wl_work st"
        using item(2) x by (simp_all add: wl_owed_def wl_work_def)
      moreover note "1.IH" [OF True item(1) [symmetric] refl refl x [symmetric]]
      ultimately show ?thesis using "1.prems"(2,3) by (fastforce dest: le_less_trans)
    next
      case (pending script)
      with True "1.prems" show ?thesis
        by (subst wl_fill.simps) (auto simp: wl_inv_def wl_bounded_def wl_owed_def wl_work_def)
    next
      case ended
      with True "1.prems" show ?thesis
        by (subst wl_fill.simps) (auto simp: wl_inv_def wl_bounded_def wl_owed_def wl_work_def)
    qed
  qed
qed

lemma wl_poll_cases:
  assumes inv: "wl_inv params st" and pos: "0 < bp_weight_limit params" "0 < bp_buffer_size params"
  shows "(\<exists>st'. wl_poll_next r st = Inr (Poll_Pending, st') \<and> wl_inv params st' \<and> wl_owed st' = wl_owed st \<and>
      wl_work st' + (if r then 1 else 0) \<le> wl_work st) \<or>
    (\<exists>v st'. wl_poll_next r st = Inr (Poll_Ready (Some v), st') \<and> wl_owed st = v # wl_owed st' \<and>
      wl_inv params st' \<and> wl_work st' < wl_work st) \<or>
    (\<exists>st'. wl_poll_next r st = Inr (Poll_Ready None, st') \<and> wl_owed st = [])"
proof -
  obtain st1 where 1: "wl_fill st = Inr st1" "wl_inv params st1" "wl_owed st1 = wl_owed st" "wl_work st1 \<le> wl_work st"
    "wl_queue st1 = [] \<longrightarrow> fuse_done (wl_stream st1) \<or> wl_work st1 < wl_work st"
    "fuse_done (wl_stream st1) \<longrightarrow> fuse_script (wl_stream st1) = []"
    using wl_fill_ok [OF assms] by blast
  show ?thesis
  proof (cases "wl_queue st1")
    case Nil
    with 1 show ?thesis by (auto simp: wl_poll_next_def wl_owed_def)
  next
    case (Cons j queue)
    obtain v w where j: "j = (v, w)" by fastforce
    let ?st = "st1\<lparr>wl_queue := queue, wl_current_weight := wl_current_weight st1 - w\<rparr>"
    have "w \<le> wl_current_weight st1" using 1(2) Cons j by (simp add: wl_inv_def wl_bounded_def)
    moreover have "wl_inv params ?st"
      using 1(2) Cons j by (auto simp: wl_inv_def wl_bounded_def split: if_splits)
    moreover have "wl_owed st1 = v # wl_owed ?st" "wl_work ?st < wl_work st1"
      using Cons j by (simp_all add: wl_owed_def wl_work_def)
    ultimately show ?thesis using 1 Cons j by (auto simp: wl_poll_next_def u64_sub_def)
  qed
qed

text \<open>The invariant in the form of an ordered stream, for parameters that are not zero.\<close>

definition wl_state :: "buffered_params \<Rightarrow> 'v weight_limited \<Rightarrow> 'v list \<Rightarrow> nat \<Rightarrow> bool" where
  "wl_state params st outs n \<longleftrightarrow> 0 < bp_weight_limit params \<and> 0 < bp_buffer_size params \<and>
     wl_inv params st \<and> outs = wl_owed st \<and> n = wl_work st"

interpretation wl: ordered_progress wl_poll_next "wl_state params" "\<lambda>_. True" "\<lambda>r. r" for params
proof unfold_locales
  fix st :: "'v weight_limited" and outs n r
  assume "wl_state params st outs n"
  then have "wl_inv params st" "0 < bp_weight_limit params" "0 < bp_buffer_size params" "outs = wl_owed st" "n = wl_work st"
    by (simp_all add: wl_state_def)
  with wl_poll_cases [of params st r]
  show "(\<exists>s' n'. wl_poll_next r st = Inr (Poll_Pending, s') \<and> wl_state params s' outs n' \<and> n' + (if r then 1 else 0) \<le> n) \<or>
    (\<exists>v s' outs' n'. wl_poll_next r st = Inr (Poll_Ready (Some v), s') \<and> outs = v # outs' \<and> wl_state params s' outs' n' \<and> n' < n) \<or>
    (\<exists>s'. wl_poll_next r st = Inr (Poll_Ready None, s') \<and> outs = [])"
    unfolding wl_state_def by fastforce
qed

lemma wl_new_state:
  assumes "0 < bp_weight_limit params" "0 < bp_buffer_size params"
    "weights_fit (bp_weight_limit params) (script_items script)"
  shows "wl_state params (wl_new params script) (map fst (script_items script)) (2 * length script)"
  using assms by (simp add: wl_state_def wl_inv_def wl_bounded_def wl_new_def wl_owed_def wl_work_def)

section \<open>The fallible buffer is the plain one on results\<close>

text \<open>An item whose weight could not be found is a future that is ready with the error, of weight zero.\<close>

definition try_item :: "(('i, 'e) result \<times> nat, 'e) result \<Rightarrow> ('i, 'e) result \<times> nat" where
  "try_item r = (case r of Ok (f, w) \<Rightarrow> (f, w) | Err e \<Rightarrow> (Err e, 0))"

definition wlt_plain :: "('i, 'e) weight_limited_try \<Rightarrow> ('i, 'e) result weight_limited" where
  "wlt_plain st =
     \<lparr>wl_queue = wlt_queue st, wl_current_weight = wlt_current_weight st, wl_weight_limit = wlt_weight_limit st,
      wl_max_buffer_size = wlt_max_buffer_size st,
      wl_stream = \<lparr>fuse_script = map (map_option try_item) (fuse_script (wlt_stream st)), fuse_done = fuse_done (wlt_stream st)\<rparr>\<rparr>"

lemma fuse_poll_map:
  "fuse_poll_next \<lparr>fuse_script = map (map_option g) (fuse_script f), fuse_done = fuse_done f\<rparr> =
     map_prod (map_poll (map_option g)) (\<lambda>f'. \<lparr>fuse_script = map (map_option g) (fuse_script f'), fuse_done = fuse_done f'\<rparr>)
       (fuse_poll_next f)"
  by (auto simp: fuse_poll_next_def split: list.splits option.splits)

lemma wlt_fill_plain:
  "wlt_weight_limit st \<le> 2 ^ 64 \<Longrightarrow>
     wl_fill (wlt_plain st) = map_sum id wlt_plain (wlt_fill st) \<and>
     (\<forall>st'. wlt_fill st = Inr st' \<longrightarrow> wlt_weight_limit st' = wlt_weight_limit st)"
proof (induction st rule: wlt_fill.induct)
  case (1 st)
  show ?case
  proof (cases "length (wlt_queue st) < wlt_max_buffer_size st \<and> wlt_current_weight st < wlt_weight_limit st")
    case False
    then have "\<not> (length (wl_queue (wlt_plain st)) < wl_max_buffer_size (wlt_plain st) \<and>
        wl_current_weight (wlt_plain st) < wl_weight_limit (wlt_plain st))" by (simp add: wlt_plain_def)
    with False show ?thesis unfolding wlt_fill.simps [of st] wl_fill.simps [of "wlt_plain st"] by (simp only: if_False) simp
  next
    case True
    obtain p f where p: "fuse_poll_next (wlt_stream st) = (p, f)" by fastforce
    have q: "fuse_poll_next (wl_stream (wlt_plain st)) = (map_poll (map_option try_item) p,
        \<lparr>fuse_script = map (map_option try_item) (fuse_script f), fuse_done = fuse_done f\<rparr>)"
      by (simp add: wlt_plain_def fuse_poll_map p)
    have t: "length (wl_queue (wlt_plain st)) < wl_max_buffer_size (wlt_plain st) \<and>
        wl_current_weight (wlt_plain st) < wl_weight_limit (wlt_plain st)" using True by (simp add: wlt_plain_def)
    consider (none) "p = Poll_Pending \<or> p = Poll_Ready None" | (ok) v w where "p = Poll_Ready (Some (Ok (v, w)))"
      | (err) e where "p = Poll_Ready (Some (Err e))"
    proof (cases p)
      case (Poll_Ready out)
      then show ?thesis
      proof (cases out)
        case (Some r)
        with Poll_Ready show ?thesis by (cases r) (auto intro: ok err)
      qed (use none in simp)
    qed (use none in simp)
    then show ?thesis
    proof cases
      case none
      with t q True p show ?thesis
        by (auto simp: wlt_fill.simps [of st] wl_fill.simps [of "wlt_plain st"]) (simp_all add: wlt_plain_def)
    next
      case (ok v w)
      show ?thesis
      proof (cases "u64_add (wlt_current_weight st) w")
        case (Inl e)
        have "wlt_fill st = Inl e" using True p ok Inl by (subst wlt_fill.simps) simp
        moreover have "wl_fill (wlt_plain st) = Inl e"
          using t q ok Inl by (subst wl_fill.simps) (simp add: wlt_plain_def try_item_def)
        ultimately show ?thesis by simp
      next
        case (Inr c)
        let ?st = "st\<lparr>wlt_stream := f, wlt_current_weight := c, wlt_queue := wlt_queue st @ [(v, w)]\<rparr>"
        have e: "wlt_fill st = wlt_fill ?st" using True p ok Inr by (subst wlt_fill.simps) simp
        have e': "wl_fill (wlt_plain st) = wl_fill (wlt_plain ?st)"
          using t q ok Inr by (subst wl_fill.simps) (simp add: wlt_plain_def try_item_def)
        have lim: "wlt_weight_limit ?st = wlt_weight_limit st" by simp
        show ?thesis
          unfolding e e' using "1.IH"(1) [OF True p [symmetric] ok refl refl refl, of c, unfolded lim, OF "1.prems"] .
      qed
    next
      case (err e)
      let ?st = "st\<lparr>wlt_stream := f, wlt_queue := wlt_queue st @ [(Err e, 0)]\<rparr>"
      have e: "wlt_fill st = wlt_fill ?st" using True p err by (subst wlt_fill.simps) simp
      have e': "wl_fill (wlt_plain st) = wl_fill (wlt_plain ?st)"
        using t q err True "1.prems" by (subst wl_fill.simps) (simp add: wlt_plain_def try_item_def u64_add_def)
      have lim: "wlt_weight_limit ?st = wlt_weight_limit st" by simp
      show ?thesis
        unfolding e e' using "1.IH"(2) [OF True p [symmetric] err refl refl, unfolded lim, OF "1.prems"] .
    qed
  qed
qed

lemma wlt_poll_plain:
  assumes "wlt_weight_limit st \<le> 2 ^ 64"
  shows "wl_poll_next r (wlt_plain st) = map_sum id (map_prod id wlt_plain) (wlt_poll_next r st)"
    "wlt_poll_next r st = Inr (p, st') \<Longrightarrow> wlt_weight_limit st' = wlt_weight_limit st"
proof -
  note f = wlt_fill_plain [OF assms]
  show "wl_poll_next r (wlt_plain st) = map_sum id (map_prod id wlt_plain) (wlt_poll_next r st)"
  proof (cases "wlt_fill st")
    case (Inr st1)
    with f show ?thesis
      by (auto simp: wl_poll_next_def wlt_poll_next_def wlt_plain_def u64_sub_def split: list.splits)
  qed (use f in \<open>simp add: wl_poll_next_def wlt_poll_next_def\<close>)
  show "wlt_poll_next r st = Inr (p, st') \<Longrightarrow> wlt_weight_limit st' = wlt_weight_limit st"
  proof -
    assume r: "wlt_poll_next r st = Inr (p, st')"
    then obtain st1 where 1: "wlt_fill st = Inr st1" by (auto simp: wlt_poll_next_def res_bind_eq_Inr)
    then have "wlt_weight_limit st' = wlt_weight_limit st1"
      using r by (cases "wlt_queue st1") (auto simp: wlt_poll_next_def res_bind_eq_Inr split: if_splits)
    with f 1 show ?thesis by simp
  qed
qed

lemma wlt_run_plain:
  "wlt_weight_limit st \<le> 2 ^ 64 \<Longrightarrow>
     poll_run wl_poll_next rs (wlt_plain st) = map_prod id (map_run_end wlt_plain) (poll_run wlt_poll_next rs st)"
proof (induction rs arbitrary: st)
  case (Cons r rs)
  note step = wlt_poll_plain(1) [OF Cons.prems, of r]
  show ?case
  proof (cases "wlt_poll_next r st")
    case (Inr ps)
    obtain p st' where ps: "ps = (p, st')" by fastforce
    have "wlt_weight_limit st' \<le> 2 ^ 64" using wlt_poll_plain(2) [OF Cons.prems] Inr ps Cons.prems by metis
    from Cons.IH [OF this] step Inr ps show ?thesis
      by (auto split: poll.splits option.splits prod.splits)
  qed (use step in simp)
qed simp

section \<open>The weighted buffer keeps order and bounds\<close>

definition pk_items :: "'a peekable \<Rightarrow> 'a list" where
  "pk_items pk = (case pk_peeked pk of None \<Rightarrow> [] | Some x \<Rightarrow> [x]) @ script_items (fuse_script (pk_stream pk))"

definition pk_work :: "'a peekable \<Rightarrow> nat" where
  "pk_work pk = length (fuse_script (pk_stream pk)) + (case pk_peeked pk of None \<Rightarrow> 0 | Some _ \<Rightarrow> 1)"

definition pk_ok :: "'a peekable \<Rightarrow> bool" where
  "pk_ok pk \<longleftrightarrow> fuse_ok (pk_stream pk) \<and> (pk_peeked pk \<noteq> None \<longrightarrow> \<not> fuse_done (pk_stream pk))"

text \<open>Peeking stores the item that \<open>poll_next\<close> returns then.\<close>

lemma pk_poll_peek_cases:
  assumes "pk_ok pk"
  obtains (item) x pk' pk'' where "pk_poll_peek pk = (Poll_Ready (Some x), pk')" "pk_ok pk'"
      "pk_items pk' = pk_items pk" "pk_work pk' = pk_work pk"
      "pk_poll_next pk' = (Poll_Ready (Some x), pk'')" "pk_ok pk''" "pk_items pk = x # pk_items pk''"
      "pk_work pk = Suc (pk_work pk'')"
  | (pending) pk' where "pk_poll_peek pk = (Poll_Pending, pk')" "pk_ok pk'" "pk_items pk' = pk_items pk"
      "pk_work pk = Suc (pk_work pk')" "\<not> pk_is_done pk'"
  | (ended) pk' where "pk_poll_peek pk = (Poll_Ready None, pk')" "pk_ok pk'" "pk_items pk' = []" "pk_items pk = []"
      "pk_work pk' = pk_work pk" "pk_is_done pk'"
proof (cases "pk_peeked pk")
  case (Some x)
  with assms show ?thesis
    by (intro item [of x pk "pk\<lparr>pk_peeked := None\<rparr>"])
      (simp_all add: pk_poll_peek_def pk_poll_next_def pk_items_def pk_work_def pk_ok_def)
next
  case None
  have "fuse_ok (pk_stream pk)" using assms by (simp add: pk_ok_def)
  then show ?thesis
  proof (cases rule: fuse_poll_cases)
    case (item x script)
    let ?f = "(pk_stream pk)\<lparr>fuse_script := script\<rparr>"
    show ?thesis
      using None item assms
      by (intro that(1) [of x "pk\<lparr>pk_stream := ?f, pk_peeked := Some x\<rparr>" "pk\<lparr>pk_stream := ?f\<rparr>"])
        (simp_all add: pk_poll_peek_def pk_poll_next_def pk_items_def pk_work_def pk_ok_def)
  next
    case (pending script)
    then show ?thesis
      using None assms that(2) [of "pk\<lparr>pk_stream := (pk_stream pk)\<lparr>fuse_script := script\<rparr>\<rparr>"]
      by (simp add: pk_poll_peek_def pk_items_def pk_work_def pk_ok_def pk_is_done_def)
  next
    case ended
    then show ?thesis
      using None assms that(3) [of "pk\<lparr>pk_stream := (pk_stream pk)\<lparr>fuse_done := True\<rparr>\<rparr>"]
      by (simp add: pk_poll_peek_def pk_items_def pk_work_def pk_ok_def pk_is_done_def)
  qed
qed

definition bw_owed :: "'v buffered_weighted \<Rightarrow> 'v list" where
  "bw_owed st = map snd (bw_queue st) @ map snd (pk_items (bw_stream st))"

definition bw_work :: "'v buffered_weighted \<Rightarrow> nat" where
  "bw_work st = 2 * pk_work (bw_stream st) + length (bw_queue st)"

definition bw_bounded :: "nat \<Rightarrow> 'v buffered_weighted \<Rightarrow> bool" where
  "bw_bounded m st \<longleftrightarrow>
     bw_current_weight st = (\<Sum>(w, f) \<leftarrow> bw_queue st. min w m) \<and> bw_current_weight st \<le> m"

definition bw_inv :: "nat \<Rightarrow> 'v buffered_weighted \<Rightarrow> bool" where
  "bw_inv m st \<longleftrightarrow> m < usize_limit \<and> bw_max_weight st = m \<and> bw_bounded m st \<and> pk_ok (bw_stream st)"

text \<open>What the system reports never exceeds the range of \<open>u64\<close>.\<close>

definition proc_sane :: "('v buffered_weighted \<Rightarrow> proc_stat) \<Rightarrow> bool" where
  "proc_sane proc \<longleftrightarrow> (\<forall>st rss page. proc st = Some (rss, page) \<longrightarrow> rss * page < 2 ^ 64)"

lemma within_bound_returns: "proc_sane proc \<Longrightarrow> \<exists>b. mb_within_bound bound (proc st) w = Inr b"
  by (auto simp: mb_within_bound_def proc_sane_def u64_mul_def split: option.splits)

lemma must_wait_cases:
  assumes "bw_inv m st" "proc_sane proc"
  obtains (wait) "bw_must_wait (proc st0) w st = Inr True" "bw_queue st \<noteq> []"
  | (go) "bw_must_wait (proc st0) w st = Inr False" "bw_current_weight st + min w m \<le> m"
proof (cases "gw_has_space_for (bw_global_weight st) w")
  case False
  with assms(1) have "bw_queue st \<noteq> []"
    by (auto simp: bw_inv_def bw_bounded_def bw_max_weight_def bw_current_weight_def gw_has_space_for_def)
  with False show ?thesis by (intro wait) (simp_all add: bw_must_wait_def)
next
  case True
  then have "bw_current_weight st + min w m \<le> m"
    using assms(1)
    by (auto simp: bw_inv_def bw_max_weight_def bw_current_weight_def gw_has_space_for_def Let_def)
  moreover obtain b where "mb_within_bound (bw_bound st) (proc st0) w = Inr b"
    using within_bound_returns [OF assms(2)] by blast
  ultimately show ?thesis using True go wait by (cases "\<not> b \<and> bw_queue st \<noteq> []") (simp_all add: bw_must_wait_def)
qed

lemma bw_fill_ok:
  "bw_inv m st \<Longrightarrow> proc_sane proc \<Longrightarrow>
     \<exists>st'. bw_fill proc st = Inr st' \<and> bw_inv m st' \<and> bw_owed st' = bw_owed st \<and> bw_work st' \<le> bw_work st \<and>
       (bw_queue st' = [] \<longrightarrow> pk_is_done (bw_stream st') \<and> pk_items (bw_stream st') = [] \<or>
          \<not> pk_is_done (bw_stream st') \<and> bw_work st' < bw_work st)"
proof (induction proc st rule: bw_fill.induct)
  case (1 proc st)
  have "pk_ok (bw_stream st)" using "1.prems" by (simp add: bw_inv_def)
  then show ?case
  proof (cases rule: pk_poll_peek_cases)
    case (item x pk' pk'')
    obtain w f where x: "x = (w, f)" by fastforce
    let ?st = "st\<lparr>bw_stream := pk'\<rparr>"
    have inv: "bw_inv m ?st"
      using "1.prems"(1) item(2) by (simp add: bw_inv_def bw_bounded_def bw_max_weight_def bw_current_weight_def)
    show ?thesis
    proof (rule must_wait_cases [OF inv "1.prems"(2), of st w])
      assume wait: "bw_must_wait (proc st) w ?st = Inr True" "bw_queue ?st \<noteq> []"
      with item inv x show ?thesis
        by (subst bw_fill.simps) (simp add: bw_owed_def bw_work_def)
    next
      assume go: "bw_must_wait (proc st) w ?st = Inr False" "bw_current_weight ?st + min w m \<le> m"
      let ?gw = "(bw_global_weight st)\<lparr>gw_current := bw_current_weight st + min w m\<rparr>"
      let ?next = "st\<lparr>bw_stream := pk'', bw_global_weight := ?gw, bw_queue := bw_queue st @ [(w, f)]\<rparr>"
      have cur: "bw_current_weight ?st = bw_current_weight st" by (simp add: bw_current_weight_def)
      have add: "gw_add_weight w (bw_global_weight st) = Inr ?gw"
        using go(2) inv cur
        by (simp add: gw_add_weight_def bw_inv_def bw_max_weight_def bw_current_weight_def usize_checked_add_def Let_def)
      have "bw_inv m ?next"
        using inv item(6) go(2) cur by (auto simp: bw_inv_def bw_bounded_def bw_max_weight_def bw_current_weight_def)
      moreover have "bw_owed ?next = bw_owed st" "bw_work ?next < bw_work st"
        using item(7,8) x by (simp_all add: bw_owed_def bw_work_def)
      moreover have e: "bw_fill proc st = bw_fill proc ?next"
        using item(1,5) go(1) add x by (subst bw_fill.simps) simp
      moreover note "1.IH" [OF item(1) [symmetric] refl refl, of False, OF _ item(5) [symmetric] refl refl x [symmetric], of ?gw]
      ultimately show ?thesis using "1.prems"(2) unfolding e by (fastforce dest: le_less_trans)
    qed
  next
    case (pending pk')
    with "1.prems" show ?thesis
      by (subst bw_fill.simps) (simp add: bw_owed_def bw_work_def bw_inv_def bw_bounded_def bw_max_weight_def bw_current_weight_def)
  next
    case (ended pk')
    with "1.prems" show ?thesis
      by (subst bw_fill.simps) (simp add: bw_owed_def bw_work_def bw_inv_def bw_bounded_def bw_max_weight_def bw_current_weight_def)
  qed
qed

lemma bw_poll_cases:
  assumes inv: "bw_inv m st" and sane: "proc_sane proc"
  shows "(\<exists>st'. bw_poll_next (r, proc) st = Inr (Poll_Pending, st') \<and> bw_inv m st' \<and> bw_owed st' = bw_owed st \<and>
      bw_work st' + (if r then 1 else 0) \<le> bw_work st) \<or>
    (\<exists>v st'. bw_poll_next (r, proc) st = Inr (Poll_Ready (Some v), st') \<and> bw_owed st = v # bw_owed st' \<and>
      bw_inv m st' \<and> bw_work st' < bw_work st) \<or>
    (\<exists>st'. bw_poll_next (r, proc) st = Inr (Poll_Ready None, st') \<and> bw_owed st = [])"
proof -
  obtain st1 where 1: "bw_fill proc st = Inr st1" "bw_inv m st1" "bw_owed st1 = bw_owed st" "bw_work st1 \<le> bw_work st"
    "bw_queue st1 = [] \<longrightarrow> pk_is_done (bw_stream st1) \<and> pk_items (bw_stream st1) = [] \<or>
       \<not> pk_is_done (bw_stream st1) \<and> bw_work st1 < bw_work st"
    using bw_fill_ok [OF assms] by blast
  show ?thesis
  proof (cases "bw_queue st1")
    case Nil
    with 1 show ?thesis by (auto simp: bw_poll_next_def bw_owed_def)
  next
    case (Cons j queue)
    obtain w v where j: "j = (w, v)" by fastforce
    let ?st = "st1\<lparr>bw_queue := queue,
      bw_global_weight := (bw_global_weight st1)\<lparr>gw_current := bw_current_weight st1 - min w m\<rparr>\<rparr>"
    have cur: "min w m \<le> bw_current_weight st1" using 1(2) Cons j by (simp add: bw_inv_def bw_bounded_def)
    then have sub: "gw_sub_weight w (bw_global_weight st1) =
        Inr ((bw_global_weight st1)\<lparr>gw_current := bw_current_weight st1 - min w m\<rparr>)"
      using 1(2) by (simp add: gw_sub_weight_def bw_inv_def bw_max_weight_def bw_current_weight_def Let_def)
    have "bw_inv m ?st"
      using 1(2) Cons j by (auto simp: bw_inv_def bw_bounded_def bw_max_weight_def bw_current_weight_def)
    moreover have "bw_owed st1 = v # bw_owed ?st" "bw_work ?st < bw_work st1"
      using Cons j by (simp_all add: bw_owed_def bw_work_def)
    ultimately show ?thesis using 1 Cons j sub by (auto simp: bw_poll_next_def)
  qed
qed

definition bw_state :: "nat \<Rightarrow> 'v buffered_weighted \<Rightarrow> 'v list \<Rightarrow> nat \<Rightarrow> bool" where
  "bw_state m st outs n \<longleftrightarrow> bw_inv m st \<and> outs = bw_owed st \<and> n = bw_work st"

interpretation bw: ordered_progress bw_poll_next "bw_state m" "\<lambda>env. proc_sane (snd env)" fst for m
proof unfold_locales
  fix st :: "'v buffered_weighted" and outs n and env :: "'v bw_surroundings"
  assume "bw_state m st outs n" "proc_sane (snd env)"
  then have "bw_inv m st" "outs = bw_owed st" "n = bw_work st" "proc_sane (snd env)"
    by (simp_all add: bw_state_def)
  with bw_poll_cases [of m st "snd env" "fst env"]
  show "(\<exists>s' n'. bw_poll_next env st = Inr (Poll_Pending, s') \<and> bw_state m s' outs n' \<and> n' + (if fst env then 1 else 0) \<le> n) \<or>
    (\<exists>v s' outs' n'. bw_poll_next env st = Inr (Poll_Ready (Some v), s') \<and> outs = v # outs' \<and> bw_state m s' outs' n' \<and> n' < n) \<or>
    (\<exists>s'. bw_poll_next env st = Inr (Poll_Ready None, s') \<and> outs = [])"
    unfolding bw_state_def prod.collapse by fastforce
qed

lemma bw_new_state:
  assumes "m < usize_limit"
  shows "bw_state m (bw_new script m bound) (map snd (script_items script)) (2 * length script)"
  using assms
  by (simp add: bw_state_def bw_inv_def bw_bounded_def bw_new_def gw_new_def pk_new_def bw_max_weight_def
      bw_current_weight_def bw_owed_def bw_work_def pk_items_def pk_work_def pk_ok_def fuse_of_def fuse_ok_def)

section \<open>Properties\<close>

text \<open>
  C14. \<open>BufferedWeighted\<close> returns the outputs of the futures of its stream, all of them and in
  the order of the stream, whatever the weights, the memory readings and the order in which the
  futures complete: after more than two polls for each answer of the inner stream in which the
  first running future is complete, the stream has ended and has returned exactly these outputs.
  It never panics on its weight counter.
\<close>

theorem buffered_weighted_complete:
  assumes "max_weight < usize_limit" "list_all (\<lambda>env. proc_sane (snd env)) envs"
    and "2 * length script < length (filter fst envs)"
  shows "\<exists>st. poll_run bw_poll_next envs (bw_new script max_weight bound) =
    (map snd (script_items script), Run_Done st)"
  using bw.run_ends [OF bw_new_state [OF assms(1)] assms(2,3)] .

definition sample_script :: "(nat \<times> string) option list" where
  "sample_script = [Some (3, ''a''), None, Some (9, ''b''), Some (0, ''c'')]"

theorem buffered_weighted_complete_witness:
  "\<exists>st. poll_run bw_poll_next (replicate 9 (True, \<lambda>_. Some (7, 4096))) (bw_new sample_script 5 (Some 10000)) =
     ([''a'', ''b'', ''c''], Run_Done st)"
  using buffered_weighted_complete [of 5 "replicate 9 (True, \<lambda>_. Some (7, 4096))" sample_script "Some 10000"]
  by (simp add: sample_script_def proc_sane_def usize_limit_def list_all_iff)

text \<open>
  The concurrency of \<open>BufferedWeighted\<close> is bounded: after any number of polls in any
  surroundings, the weight it accounts for is the sum of the weights of the running futures, each
  taken as at most the maximum, and is at most the maximum; and what it has returned is a prefix
  of the outputs in the order of the stream.
\<close>

theorem buffered_weighted_bounded:
  assumes "max_weight < usize_limit" "list_all (\<lambda>env. proc_sane (snd env)) envs"
    and "poll_run bw_poll_next envs (bw_new script max_weight bound) = (vs, Run_Open st)"
  shows "bw_current_weight st = (\<Sum>(w, f) \<leftarrow> bw_queue st. min w max_weight) \<and>
    bw_current_weight st \<le> max_weight \<and> (\<exists>rest. map snd (script_items script) = vs @ map snd (bw_queue st) @ rest)"
  using bw.run_prefix [OF bw_new_state [OF assms(1)] assms(2,3)]
  by (auto simp: bw_state_def bw_inv_def bw_bounded_def bw_owed_def)

theorem buffered_weighted_bounded_witness:
  "\<exists>vs st. poll_run bw_poll_next [(False, \<lambda>_. None)] (bw_new sample_script 5 None) = (vs, Run_Open st) \<and>
     bw_current_weight st \<le> 5"
proof -
  have sane: "list_all (\<lambda>env. proc_sane (snd env)) [(False, \<lambda>_. None)]" by (simp add: proc_sane_def)
  have "\<exists>st. poll_run bw_poll_next [(False, \<lambda>_. None)] (bw_new sample_script 5 None) = ([], Run_Open st)"
    by (simp add: bw_poll_next_def bw_fill.simps bw_new_def pk_new_def fuse_of_def sample_script_def pk_poll_peek_def
        pk_poll_next_def fuse_poll_next_def bw_must_wait_def gw_has_space_for_def gw_new_def mb_within_bound_def
        gw_add_weight_def usize_checked_add_def usize_limit_def)
  then obtain st where "poll_run bw_poll_next [(False, \<lambda>_. None)] (bw_new sample_script 5 None) = ([], Run_Open st)" ..
  with buffered_weighted_bounded [of 5, OF _ sane this] show ?thesis by (auto simp: usize_limit_def)
qed



text \<open>
  \<open>WeightLimitedBufferedTryStream\<close> behaves as \<open>WeightLimitedBufferedStream\<close> on the stream in
  which an item that failed is a ready future of weight zero with the error: the same outputs, and
  it ends, waits or panics at the same poll.  An error thus takes its place in the order and does
  not end the stream.
\<close>

theorem weight_limited_try_equivalent:
  assumes "bp_weight_limit params < 2 ^ 64"
  shows "map_prod id (map_run_end wlt_plain) (poll_run wlt_poll_next rs (wlt_new params script)) =
    poll_run wl_poll_next rs (wl_new params (map (map_option try_item) script))"
  using wlt_run_plain [of "wlt_new params script" rs] assms
  by (simp add: wlt_new_def wl_new_def wlt_plain_def fuse_of_def)

theorem weight_limited_try_equivalent_witness:
  "map_prod id (map_run_end wlt_plain)
      (poll_run wlt_poll_next [True, True] (wlt_new \<lparr>bp_weight_limit = 10, bp_buffer_size = 2\<rparr>
         [Some (Ok (Ok ''a'', 100)), Some (Err ''bad weight'')])) =
   poll_run wl_poll_next [True, True] (wl_new \<lparr>bp_weight_limit = 10, bp_buffer_size = 2\<rparr>
         [Some (Ok ''a'', 100), Some (Err ''bad weight'', 0)])"
  using weight_limited_try_equivalent [of "\<lparr>bp_weight_limit = 10, bp_buffer_size = 2\<rparr>" "[True, True]"
      "[Some (Ok (Ok ''a'', 100)), Some (Err ''bad weight'')]"]
  by (simp add: try_item_def)

text \<open>
  With a limit of zero, on the weight or on the buffer, \<open>WeightLimitedBufferedStream\<close> answers
  every poll with \<open>Pending\<close> without ever asking its inner stream, even when that stream is empty.
\<close>

theorem weight_limited_zero_stuck:
  assumes "bp_weight_limit params = 0 \<or> bp_buffer_size params = 0"
  shows "poll_run wl_poll_next rs (wl_new params script) = ([], Run_Open (wl_new params script))"
proof (induction rs)
  case (Cons r rs)
  have "wl_fill (wl_new params script) = Inr (wl_new params script)"
    using assms by (subst wl_fill.simps) (auto simp: wl_new_def)
  then have "wl_poll_next r (wl_new params script) = Inr (Poll_Pending, wl_new params script)"
    by (simp add: wl_poll_next_def wl_new_def fuse_of_def)
  with Cons show ?case by simp
qed simp

theorem weight_limited_zero_stuck_witness:
  "poll_run wl_poll_next [True, True] (wl_new \<lparr>bp_weight_limit = 0, bp_buffer_size = 2\<rparr> []) =
     ([] :: string list, Run_Open (wl_new \<lparr>bp_weight_limit = 0, bp_buffer_size = 2\<rparr> []))"
  by (rule weight_limited_zero_stuck) simp

end
