(* ===== verification/Durations.thy ===== *)
theory Durations
  imports Rust_Prelude
begin

text \<open>
  \<open>std::time::Duration\<close> as its number of nanoseconds: a \<open>u64\<close> of seconds and less than one
  second of nanoseconds.  The operators of the standard library that the crates use, and the
  extension trait \<open>DurationExt\<close> (\<open>shed/time_ext/src/lib.rs\<close>).
\<close>

section \<open>The type of the standard library\<close>

type_synonym duration = nat

definition dur_limit :: nat where
  "dur_limit = 2 ^ 64 * 10 ^ 9"

definition dur_ok :: "duration \<Rightarrow> bool" where
  "dur_ok d \<longleftrightarrow> d < dur_limit"

definition as_secs :: "duration \<Rightarrow> nat" where
  "as_secs d = d div 10 ^ 9"

definition subsec_nanos :: "duration \<Rightarrow> nat" where
  "subsec_nanos d = d mod 10 ^ 9"

definition subsec_millis :: "duration \<Rightarrow> nat" where
  "subsec_millis d = subsec_nanos d div 10 ^ 6"

definition subsec_micros :: "duration \<Rightarrow> nat" where
  "subsec_micros d = subsec_nanos d div 10 ^ 3"

text \<open>\<open>as_millis\<close>, \<open>as_micros\<close> and \<open>as_nanos\<close> return a \<open>u128\<close>, which holds every such value.\<close>

definition as_millis :: "duration \<Rightarrow> nat" where
  "as_millis d = as_secs d * 1000 + subsec_millis d"

definition as_micros :: "duration \<Rightarrow> nat" where
  "as_micros d = as_secs d * 1000000 + subsec_micros d"

definition as_nanos :: "duration \<Rightarrow> nat" where
  "as_nanos d = as_secs d * 1000000000 + subsec_nanos d"

definition dur_add :: "duration \<Rightarrow> duration \<Rightarrow> duration res" where
  "dur_add a b = (if a + b < dur_limit then Inr (a + b) else Inl (Panic ''overflow when adding durations''))"

definition dur_clamp :: "duration \<Rightarrow> duration \<Rightarrow> duration \<Rightarrow> duration" where
  "dur_clamp lo hi d = (if d < lo then lo else if hi < d then hi else d)"

lemma dur_limits:
  "dur_ok d \<Longrightarrow> as_secs d < 2 ^ 64" "subsec_nanos d < 10 ^ 9" "subsec_micros d < 10 ^ 6" "subsec_millis d < 10 ^ 3"
  by (auto simp: dur_ok_def dur_limit_def as_secs_def subsec_nanos_def subsec_micros_def subsec_millis_def
      div_less_iff_less_mult less_mult_imp_div_less)

section \<open>\<open>DurationExt\<close>\<close>

datatype time_error = OverflowError

definition u64_try_from :: "nat \<Rightarrow> (nat, time_error) result" where
  "u64_try_from n = (if n < 2 ^ 64 then Ok n else Err OverflowError)"

definition as_millis_u64 :: "duration \<Rightarrow> (nat, time_error) result" where
  "as_millis_u64 d = u64_try_from (as_millis d)"

definition as_micros_u64 :: "duration \<Rightarrow> (nat, time_error) result" where
  "as_micros_u64 d = u64_try_from (as_micros d)"

definition as_nanos_u64 :: "duration \<Rightarrow> (nat, time_error) result" where
  "as_nanos_u64 d = u64_try_from (as_nanos d)"

text \<open>
  The unchecked conversions compute on \<open>u64\<close>: a build with overflow checks panics when a step
  leaves the range, another build wraps around.
\<close>

definition u64_step :: "bool \<Rightarrow> nat \<Rightarrow> nat res" where
  "u64_step checks n =
     (if n < 2 ^ 64 then Inr n
      else if checks then Inl (Panic ''arithmetic overflow'') else Inr (n mod 2 ^ 64))"

definition unchecked_units :: "bool \<Rightarrow> nat \<Rightarrow> nat \<Rightarrow> duration \<Rightarrow> nat res" where
  "unchecked_units checks factor subsec d =
     res_bind (u64_step checks (as_secs d * factor)) (\<lambda>n. u64_step checks (n + subsec))"

definition as_millis_unchecked :: "bool \<Rightarrow> duration \<Rightarrow> nat res" where
  "as_millis_unchecked checks d = unchecked_units checks 1000 (subsec_millis d) d"

definition as_micros_unchecked :: "bool \<Rightarrow> duration \<Rightarrow> nat res" where
  "as_micros_unchecked checks d = unchecked_units checks 1000000 (subsec_micros d) d"

definition as_nanos_unchecked :: "bool \<Rightarrow> duration \<Rightarrow> nat res" where
  "as_nanos_unchecked checks d = unchecked_units checks 1000000000 (subsec_nanos d) d"

definition from_micros :: "nat \<Rightarrow> duration" where
  "from_micros micros = micros * 1000"

definition from_nanos :: "nat \<Rightarrow> duration" where
  "from_nanos nanos = nanos"

definition dur_zero :: duration where
  "dur_zero = 0"

definition dur_is_zero :: "duration \<Rightarrow> bool" where
  "dur_is_zero d \<longleftrightarrow> d = dur_zero"

text \<open>An instant as nanoseconds on the clock; \<open>duration_since\<close> saturates at zero.\<close>

definition duration_since :: "nat \<Rightarrow> nat \<Rightarrow> duration" where
  "duration_since later earlier = later - earlier"

definition duration_until :: "nat \<Rightarrow> nat \<Rightarrow> duration" where
  "duration_until this later = duration_since later this"

section \<open>Checked and unchecked conversions\<close>

lemma as_millis_eq: "as_millis d = d div 10 ^ 6"
proof -
  have "d div 10 ^ 6 = (d div 10 ^ 9 * 10 ^ 9 + d mod 10 ^ 9) div 10 ^ 6" by (simp only: div_mult_mod_eq)
  also have "\<dots> = (d div 10 ^ 9 * 1000 * 10 ^ 6 + d mod 10 ^ 9) div 10 ^ 6" by simp
  also have "\<dots> = d div 10 ^ 9 * 1000 + (d mod 10 ^ 9) div 10 ^ 6" by (subst div_mult_self3) simp_all
  finally show ?thesis by (simp add: as_millis_def as_secs_def subsec_millis_def subsec_nanos_def)
qed

lemma as_micros_eq: "as_micros d = d div 10 ^ 3"
proof -
  have "d div 10 ^ 3 = (d div 10 ^ 9 * 10 ^ 9 + d mod 10 ^ 9) div 10 ^ 3" by (simp only: div_mult_mod_eq)
  also have "\<dots> = (d div 10 ^ 9 * 1000000 * 10 ^ 3 + d mod 10 ^ 9) div 10 ^ 3" by simp
  also have "\<dots> = d div 10 ^ 9 * 1000000 + (d mod 10 ^ 9) div 10 ^ 3" by (subst div_mult_self3) simp_all
  finally show ?thesis by (simp add: as_micros_def as_secs_def subsec_micros_def subsec_nanos_def)
qed

lemma as_nanos_eq: "as_nanos d = d"
  by (simp add: as_nanos_def as_secs_def subsec_nanos_def)

lemma unchecked_checked:
  "unchecked_units True factor subsec d =
     (if as_secs d * factor + subsec < 2 ^ 64 then Inr (as_secs d * factor + subsec)
      else Inl (Panic ''arithmetic overflow''))"
  by (auto simp: unchecked_units_def u64_step_def)

lemma unchecked_wraps: "unchecked_units False factor subsec d = Inr ((as_secs d * factor + subsec) mod 2 ^ 64)"
proof -
  have step: "u64_step False n = Inr (n mod 2 ^ 64)" for n by (simp add: u64_step_def)
  show ?thesis unfolding unchecked_units_def step res_bind_Inr by (simp only: mod_add_left_eq)
qed

section \<open>Properties\<close>

text \<open>
  The conversions of \<open>DurationExt\<close> agree with the length of the duration: the checked ones
  return the whole units exactly when these fit into \<open>u64\<close> and \<open>OverflowError\<close> otherwise; the
  unchecked ones return the same number when it fits, and otherwise panic in a build with
  overflow checks and wrap around in a build without.
\<close>

theorem duration_conversions_correct:
  fixes d :: duration
  shows "as_millis_u64 d = (if d div 10 ^ 6 < 2 ^ 64 then Ok (d div 10 ^ 6) else Err OverflowError) \<and>
    as_micros_u64 d = (if d div 10 ^ 3 < 2 ^ 64 then Ok (d div 10 ^ 3) else Err OverflowError) \<and>
    as_nanos_u64 d = (if d < 2 ^ 64 then Ok d else Err OverflowError) \<and>
    as_millis_unchecked False d = Inr (d div 10 ^ 6 mod 2 ^ 64) \<and>
    as_micros_unchecked False d = Inr (d div 10 ^ 3 mod 2 ^ 64) \<and>
    as_nanos_unchecked False d = Inr (d mod 2 ^ 64) \<and>
    is_ok (as_millis_u64 d) = (as_millis_unchecked True d = Inr (d div 10 ^ 6)) \<and>
    is_ok (as_micros_u64 d) = (as_micros_unchecked True d = Inr (d div 10 ^ 3)) \<and>
    is_ok (as_nanos_u64 d) = (as_nanos_unchecked True d = Inr d)"
  using as_millis_eq [of d] as_micros_eq [of d] as_nanos_eq [of d]
  unfolding as_millis_unchecked_def as_micros_unchecked_def as_nanos_unchecked_def unchecked_wraps unchecked_checked
    as_millis_u64_def as_micros_u64_def as_nanos_u64_def u64_try_from_def
  by (auto simp: as_millis_def as_micros_def as_nanos_def simp del: power_numeral)

end
