(* ===== verification/Futures_Retry.thy ===== *)
theory Futures_Retry
  imports Durations Poll_Streams
begin

text \<open>
  Retrying a fallible future (\<open>shed/futures_retry/src/lib.rs\<close>) and its backoff strategies
  (\<open>shed/futures_retry/src/backoff.rs\<close>).

  A running future is the number of its attempt; \<open>func\<close> gives the result the future of an attempt
  ends with, \<open>retry_if\<close> the answer of the closure at an attempt (both are called once for each
  attempt, so that a closure with state is such a function too).  Whether the running future and
  the sleep have completed when they are polled is an argument of each turn.  The calls that can be
  seen from outside are recorded in order.
\<close>

section \<open>Backoff strategies\<close>

text \<open>A backoff is an iterator; computing the next interval may panic.\<close>

type_synonym 'b backoff = "'b \<Rightarrow> (duration option \<times> 'b) res"

record fixed_interval =
  fi_interval :: duration

definition fixed_interval_new :: "duration \<Rightarrow> fixed_interval" where
  "fixed_interval_new interval = \<lparr>fi_interval = interval\<rparr>"

definition fixed_interval_next :: "fixed_interval backoff" where
  "fixed_interval_next b = Inr (Some (fi_interval b), b)"

text \<open>\<open>Duration::mul_f64\<close>, on a type of floating-point numbers, is an argument.\<close>

record 'f exponential_backoff =
  eb_base :: 'f
  eb_current :: duration

definition exponential_backoff_new :: "duration \<Rightarrow> 'f \<Rightarrow> 'f exponential_backoff" where
  "exponential_backoff_new initial_interval base = \<lparr>eb_base = base, eb_current = initial_interval\<rparr>"

definition exponential_backoff_binary :: "'f \<Rightarrow> duration \<Rightarrow> 'f exponential_backoff" where
  "exponential_backoff_binary two initial_interval = exponential_backoff_new initial_interval two"

definition exponential_backoff_next :: "(duration \<Rightarrow> 'f \<Rightarrow> duration res) \<Rightarrow> 'f exponential_backoff backoff" where
  "exponential_backoff_next mul_f64 b =
     (let current = eb_current b in
      res_bind (mul_f64 current (eb_base b)) (\<lambda>next. Inr (Some current, b\<lparr>eb_current := next\<rparr>)))"

record fibonacci_backoff =
  fb_current :: duration
  fb_next :: duration

definition fibonacci_backoff_new :: "duration \<Rightarrow> fibonacci_backoff" where
  "fibonacci_backoff_new initial_interval = \<lparr>fb_current = initial_interval, fb_next = initial_interval\<rparr>"

definition fibonacci_backoff_next :: "fibonacci_backoff backoff" where
  "fibonacci_backoff_next b =
     (let current = fb_current b in
      res_bind (dur_add (fb_current b) (fb_next b)) (\<lambda>next_next.
        Inr (Some current, b\<lparr>fb_current := fb_next b, fb_next := next_next\<rparr>)))"

text \<open>The random factors the jitter will draw are part of its state.\<close>

record ('b, 'f) jitter =
  jit_inner :: 'b
  jit_jitter :: duration
  jit_random :: "nat \<Rightarrow> 'f"

definition jitter_new :: "(nat \<Rightarrow> 'f) \<Rightarrow> 'b \<Rightarrow> duration \<Rightarrow> ('b, 'f) jitter" where
  "jitter_new random inner j = \<lparr>jit_inner = inner, jit_jitter = j, jit_random = random\<rparr>"

definition jitter_next :: "(duration \<Rightarrow> 'f \<Rightarrow> duration res) \<Rightarrow> 'b backoff \<Rightarrow> ('b, 'f) jitter backoff" where
  "jitter_next mul_f64 inner_next b =
     res_bind (inner_next (jit_inner b)) (\<lambda>(out, inner).
       case out of
         None \<Rightarrow> Inr (None, b\<lparr>jit_inner := inner\<rparr>)
       | Some interval \<Rightarrow>
           res_bind (mul_f64 (jit_jitter b) (jit_random b 0)) (\<lambda>j.
           res_bind (dur_add interval j) (\<lambda>d.
             Inr (Some d, b\<lparr>jit_inner := inner, jit_random := \<lambda>i. jit_random b (i + 1)\<rparr>))))"

section \<open>\<open>Retry\<close>\<close>

datatype 'e retry_event = Called nat | Inspected nat 'e | Slept duration

record ('e, 'b) retry =
  rt_fut :: "nat option"
  rt_sleep :: "duration option"
  rt_attempt :: nat
  rt_backoff :: 'b
  rt_max_attempts :: "nat option"
  rt_max_interval :: "duration option"
  rt_inspect_err :: bool
  rt_retry_if :: "nat \<Rightarrow> 'e \<Rightarrow> bool"
  rt_events :: "'e retry_event list"

definition retry_new :: "duration \<Rightarrow> ('e, fixed_interval) retry" where
  "retry_new interval =
     \<lparr>rt_fut = None, rt_sleep = None, rt_attempt = 0, rt_backoff = fixed_interval_new interval,
      rt_max_attempts = None, rt_max_interval = None, rt_inspect_err = False,
      rt_retry_if = (\<lambda>_ _. True), rt_events = []\<rparr>"

definition retry_max_attempts :: "nat \<Rightarrow> ('e, 'b) retry \<Rightarrow> ('e, 'b) retry" where
  "retry_max_attempts m this = this\<lparr>rt_max_attempts := Some m\<rparr>"

definition retry_max_interval :: "duration \<Rightarrow> ('e, 'b) retry \<Rightarrow> ('e, 'b) retry" where
  "retry_max_interval d this = this\<lparr>rt_max_interval := Some d\<rparr>"

definition retry_with_backoff :: "'b2 \<Rightarrow> ('e, 'b) retry \<Rightarrow> ('e, 'b2) retry" where
  "retry_with_backoff b this =
     \<lparr>rt_fut = rt_fut this, rt_sleep = rt_sleep this, rt_attempt = rt_attempt this, rt_backoff = b,
      rt_max_attempts = rt_max_attempts this, rt_max_interval = rt_max_interval this,
      rt_inspect_err = rt_inspect_err this, rt_retry_if = rt_retry_if this, rt_events = rt_events this\<rparr>"

definition initial_interval :: "'b backoff \<Rightarrow> ('e, 'b) retry \<Rightarrow> duration res" where
  "initial_interval next this =
     res_bind (next (rt_backoff this)) (\<lambda>(out, b). Inr (case out of Some d \<Rightarrow> d | None \<Rightarrow> 10 * 10 ^ 6))"

definition retry_exponential_backoff ::
  "'b backoff \<Rightarrow> 'f \<Rightarrow> ('e, 'b) retry \<Rightarrow> ('e, 'f exponential_backoff) retry res" where
  "retry_exponential_backoff next base this =
     res_bind (initial_interval next this) (\<lambda>d. Inr (retry_with_backoff (exponential_backoff_new d base) this))"

definition retry_binary_exponential_backoff ::
  "'b backoff \<Rightarrow> 'f \<Rightarrow> ('e, 'b) retry \<Rightarrow> ('e, 'f exponential_backoff) retry res" where
  "retry_binary_exponential_backoff next two this =
     res_bind (initial_interval next this) (\<lambda>d. Inr (retry_with_backoff (exponential_backoff_binary two d) this))"

definition retry_fibonacci_backoff :: "'b backoff \<Rightarrow> ('e, 'b) retry \<Rightarrow> ('e, fibonacci_backoff) retry res" where
  "retry_fibonacci_backoff next this =
     res_bind (initial_interval next this) (\<lambda>d. Inr (retry_with_backoff (fibonacci_backoff_new d) this))"

definition retry_jitter :: "(nat \<Rightarrow> 'f) \<Rightarrow> duration \<Rightarrow> ('e, 'b) retry \<Rightarrow> ('e, ('b, 'f) jitter) retry" where
  "retry_jitter random j this = retry_with_backoff (jitter_new random (rt_backoff this) j) this"

definition retry_inspect_err :: "('e, 'b) retry \<Rightarrow> ('e, 'b) retry" where
  "retry_inspect_err this = this\<lparr>rt_inspect_err := True\<rparr>"

definition retry_retry_if :: "(nat \<Rightarrow> 'e \<Rightarrow> bool) \<Rightarrow> ('e, 'b) retry \<Rightarrow> ('e, 'b) retry" where
  "retry_retry_if f this = this\<lparr>rt_retry_if := f\<rparr>"

text \<open>The condition on the attempt and the error under which there is a retry.\<close>

definition may_retry :: "('e, 'b) retry \<Rightarrow> 'e \<Rightarrow> bool" where
  "may_retry this e \<longleftrightarrow>
     (case rt_max_attempts this of None \<Rightarrow> True | Some m \<Rightarrow> rt_attempt this < m) \<and> rt_retry_if this (rt_attempt this) e"

definition clamped :: "duration option \<Rightarrow> duration \<Rightarrow> duration" where
  "clamped max_interval d = (case max_interval of None \<Rightarrow> d | Some m \<Rightarrow> dur_clamp 0 m d)"

definition record_event :: "'e retry_event \<Rightarrow> ('e, 'b) retry \<Rightarrow> ('e, 'b) retry" where
  "record_event ev this = this\<lparr>rt_events := rt_events this @ [ev]\<rparr>"

text \<open>The end of a turn: poll the sleep, if there is one, and start the next attempt.\<close>

definition retry_proceed :: "bool \<Rightarrow> ('e, 'b) retry \<Rightarrow> ('e, 'b) retry res" where
  "retry_proceed sleep_ready this =
     (if rt_sleep this \<noteq> None \<and> \<not> sleep_ready then Inr this
      else
        (case usize_checked_add (rt_attempt this) 1 of
           None \<Rightarrow> Inl (Panic ''attempt to add with overflow'')
         | Some a \<Rightarrow>
             Inr (record_event (Called a) (this\<lparr>rt_sleep := None, rt_attempt := a, rt_fut := Some a\<rparr>))))"

text \<open>
  One turn of the loop of \<open>poll\<close>, which returns with the events so far.  When the future or the
  sleep that is polled is pending, \<open>poll\<close> returns and the next poll starts over in the state reached.
\<close>

definition retry_turn ::
  "(nat \<Rightarrow> ('v, 'e) result) \<Rightarrow> 'b backoff \<Rightarrow> bool \<times> bool \<Rightarrow> ('e, 'b) retry \<Rightarrow>
     (('e, 'b) retry, ('e retry_event list \<times> ('v \<times> nat, 'e) result)) poll_step" where
  "retry_turn func next env this =
     (case env of (fut_ready, sleep_ready) \<Rightarrow>
        (case rt_fut this of
           None \<Rightarrow> continue_with (retry_proceed sleep_ready this)
         | Some a \<Rightarrow>
             if \<not> fut_ready then Continue this
             else
               (case func a of
                  Ok v \<Rightarrow> Ready (rt_events this, Ok (v, rt_attempt this))
                | Err e \<Rightarrow>
                    (let this = this\<lparr>rt_fut := None\<rparr>;
                         this = (if rt_inspect_err this then record_event (Inspected (rt_attempt this) e) this else this)
                     in if may_retry this e then
                          (case next (rt_backoff this) of
                             Inl p \<Rightarrow> Panicked p
                           | Inr (None, b) \<Rightarrow> Ready (rt_events this, Err e)
                           | Inr (Some interval, b) \<Rightarrow>
                               (let d = clamped (rt_max_interval this) interval in
                                continue_with (retry_proceed sleep_ready
                                  (record_event (Slept d) (this\<lparr>rt_backoff := b, rt_sleep := Some d\<rparr>)))))
                        else Ready (rt_events this, Err e)))))"

section \<open>The reference: one attempt after the other\<close>

text \<open>
  What happens from the start of attempt \<open>a\<close> on, with at most \<open>fuel\<close> attempts: the events after the
  call, and the result.  \<open>None\<close> means that the attempts were not enough or that the backoff panics.
\<close>

record 'e retry_policy =
  rp_max_attempts :: "nat option"
  rp_max_interval :: "duration option"
  rp_inspect_err :: bool
  rp_retry_if :: "nat \<Rightarrow> 'e \<Rightarrow> bool"

definition policy_of :: "('e, 'b) retry \<Rightarrow> 'e retry_policy" where
  "policy_of st = \<lparr>rp_max_attempts = rt_max_attempts st, rp_max_interval = rt_max_interval st,
     rp_inspect_err = rt_inspect_err st, rp_retry_if = rt_retry_if st\<rparr>"

definition allows :: "'e retry_policy \<Rightarrow> nat \<Rightarrow> 'e \<Rightarrow> bool" where
  "allows pol a e \<longleftrightarrow> (case rp_max_attempts pol of None \<Rightarrow> True | Some m \<Rightarrow> a < m) \<and> rp_retry_if pol a e"

definition inspection :: "'e retry_policy \<Rightarrow> nat \<Rightarrow> 'e \<Rightarrow> 'e retry_event list" where
  "inspection pol a e = (if rp_inspect_err pol then [Inspected a e] else [])"

fun attempts ::
  "(nat \<Rightarrow> ('v, 'e) result) \<Rightarrow> 'b backoff \<Rightarrow> 'e retry_policy \<Rightarrow> nat \<Rightarrow> 'b \<Rightarrow> nat \<Rightarrow>
     ('e retry_event list \<times> ('v \<times> nat, 'e) result) option" where
  "attempts func next pol 0 b a = None"
| "attempts func next pol (Suc fuel) b a =
     (case func a of
        Ok v \<Rightarrow> Some ([], Ok (v, a))
      | Err e \<Rightarrow>
          if allows pol a e then
            (case next b of
               Inl p \<Rightarrow> None
             | Inr (None, b') \<Rightarrow> Some (inspection pol a e, Err e)
             | Inr (Some d, b') \<Rightarrow>
                 (case attempts func next pol fuel b' (a + 1) of
                    None \<Rightarrow> None
                  | Some (evs, r) \<Rightarrow>
                      Some (inspection pol a e @ Slept (clamped (rp_max_interval pol) d) # Called (a + 1) # evs, r)))
          else Some (inspection pol a e, Err e))"

text \<open>A state of the code and the attempts that lie before it.\<close>

definition retry_inv ::
  "(nat \<Rightarrow> ('v, 'e) result) \<Rightarrow> 'b backoff \<Rightarrow> 'e retry_policy \<Rightarrow>
     'e retry_event list \<times> ('v \<times> nat, 'e) result \<Rightarrow> ('e, 'b) retry \<Rightarrow> nat \<Rightarrow> bool" where
  "retry_inv func next pol out st n \<longleftrightarrow> policy_of st = pol \<and> rt_attempt st + n < usize_limit \<and>
     (\<exists>evs. case rt_fut st of
        Some a \<Rightarrow> a = rt_attempt st \<and> rt_sleep st = None \<and>
          attempts func next pol n (rt_backoff st) a = Some (evs, snd out) \<and> fst out = rt_events st @ evs
      | None \<Rightarrow> (\<exists>k. n = Suc k \<and> attempts func next pol k (rt_backoff st) (rt_attempt st + 1) = Some (evs, snd out) \<and>
          fst out = rt_events st @ Called (rt_attempt st + 1) # evs))"

lemma may_retry_allows: "policy_of st = pol \<Longrightarrow> may_retry st e = allows pol (rt_attempt st) e"
  by (auto simp: may_retry_def allows_def policy_of_def)

lemma proceed_inv:
  assumes "retry_inv func next pol out st n" "rt_fut st = None"
  shows "\<exists>st' n'. retry_proceed sl st = Inr st' \<and> retry_inv func next pol out st' n' \<and>
    n' + (if sl then 1 else 0) \<le> n"
proof -
  obtain evs k where k: "policy_of st = pol" "rt_attempt st + n < usize_limit" "n = Suc k"
    "attempts func next pol k (rt_backoff st) (rt_attempt st + 1) = Some (evs, snd out)"
    "fst out = rt_events st @ Called (rt_attempt st + 1) # evs"
    using assms by (auto simp: retry_inv_def)
  show ?thesis
  proof (cases "rt_sleep st \<noteq> None \<and> \<not> sl")
    case True
    with assms show ?thesis by (auto simp: retry_proceed_def)
  next
    case False
    let ?st = "record_event (Called (rt_attempt st + 1))
      (st\<lparr>rt_sleep := None, rt_attempt := rt_attempt st + 1, rt_fut := Some (rt_attempt st + 1)\<rparr>)"
    have "retry_proceed sl st = Inr ?st"
      using False k(2,3) by (auto simp: retry_proceed_def usize_checked_add_def)
    moreover have "retry_inv func next pol out ?st k"
      using k by (auto simp: retry_inv_def record_event_def policy_of_def)
    ultimately show ?thesis using k(3) by auto
  qed
qed

lemma retry_turn_cases:
  assumes inv: "retry_inv func next pol out st n"
  shows "(\<exists>st' n'. retry_turn func next env st = Continue st' \<and> retry_inv func next pol out st' n' \<and>
      n' + (if env = (True, True) then 1 else 0) \<le> n) \<or>
    (\<exists>r. retry_turn func next env st = Ready r \<and> r = out)"
proof -
  obtain fr sl where env: "env = (fr, sl)" by fastforce
  show ?thesis
  proof (cases "rt_fut st")
    case None
    with proceed_inv [OF inv None, of sl] env show ?thesis
      by (fastforce simp: retry_turn_def continue_with_def)
  next
    case (Some a)
    then obtain evs where a: "a = rt_attempt st" "rt_sleep st = None" "policy_of st = pol"
      "rt_attempt st + n < usize_limit"
      "attempts func next pol n (rt_backoff st) a = Some (evs, snd out)" "fst out = rt_events st @ evs"
      using inv by (auto simp: retry_inv_def)
    then obtain k where n: "n = Suc k" by (cases n) auto
    show ?thesis
    proof (cases fr)
      case False
      with Some env inv show ?thesis by (auto simp: retry_turn_def)
    next
      case fr: True
      show ?thesis
      proof (cases "func a")
        case (Ok v)
        then have "retry_turn func next env st = Ready (rt_events st, Ok (v, a))"
          using Some fr a(1) by (simp add: retry_turn_def env)
        moreover have "out = (rt_events st, Ok (v, a))" using Ok a(5,6) n by (simp add: prod_eq_iff)
        ultimately show ?thesis by simp
      next
        case (Err e)
        define st1 where "st1 = (if rt_inspect_err (st\<lparr>rt_fut := None\<rparr>)
          then record_event (Inspected (rt_attempt (st\<lparr>rt_fut := None\<rparr>)) e) (st\<lparr>rt_fut := None\<rparr>) else st\<lparr>rt_fut := None\<rparr>)"
        have st1: "rt_events st1 = rt_events st @ inspection pol a e" "policy_of st1 = pol" "rt_attempt st1 = a"
          "rt_backoff st1 = rt_backoff st" "rt_fut st1 = None" "rt_sleep st1 = None" "rt_max_interval st1 = rp_max_interval pol"
          using a by (auto simp: st1_def inspection_def policy_of_def record_event_def)
        have turn: "retry_turn func next env st = (if may_retry st1 e then
            (case next (rt_backoff st1) of
               Inl p \<Rightarrow> Panicked p
             | Inr (None, b) \<Rightarrow> Ready (rt_events st1, Err e)
             | Inr (Some interval, b) \<Rightarrow>
                 (let d = clamped (rt_max_interval st1) interval in
                  continue_with (retry_proceed sl (record_event (Slept d) (st1\<lparr>rt_backoff := b, rt_sleep := Some d\<rparr>)))))
          else Ready (rt_events st1, Err e))"
          unfolding retry_turn_def env prod.case Some option.case Err result.case Let_def st1_def using fr by simp
        show ?thesis
        proof (cases "allows pol a e")
          case False
          with turn st1 a n Err may_retry_allows [OF st1(2)] show ?thesis by (auto simp: prod_eq_iff)
        next
          case True
          then have m: "may_retry st1 e" using may_retry_allows [OF st1(2)] st1(3) by simp
          from a(5) n Err True obtain d b where nx: "next (rt_backoff st) = Inr (d, b)"
            by (auto split: sum.splits)
          show ?thesis
          proof (cases d)
            case None
            with turn m st1 a n Err True nx show ?thesis by (auto simp: prod_eq_iff)
          next
            case (Some d')
            let ?d = "clamped (rt_max_interval st1) d'"
            let ?st = "record_event (Slept ?d) (st1\<lparr>rt_backoff := b, rt_sleep := Some ?d\<rparr>)"
            have "retry_inv func next pol out ?st n"
              using a n Err True nx Some st1
              by (auto simp: retry_inv_def record_event_def policy_of_def split: option.splits)
            from proceed_inv [OF this, of sl] show ?thesis
              using turn m nx Some st1(4,5) env by (fastforce simp: Let_def continue_with_def record_event_def)
          qed
        qed
      qed
    qed
  qed
qed

interpretation retry: future_progress "retry_turn func nxt" "retry_inv func nxt pol out" "\<lambda>r. r = out" "\<lambda>env. env = (True, True)"
  for func nxt pol out
  by unfold_locales (rule retry_turn_cases)

section \<open>Bounds on the attempts\<close>

lemma attempts_returns:
  assumes safe: "\<And>b. \<exists>out b'. next b = Inr (out, b')" and m: "rp_max_attempts pol = Some m"
  shows "m \<le> a + fuel \<Longrightarrow> \<exists>evs r. attempts func next pol (Suc fuel) b a = Some (evs, r)"
proof (induction fuel arbitrary: a b)
  case 0
  then show ?case using m by (auto simp: allows_def split: result.splits)
next
  case (Suc fuel)
  obtain out b' where nx: "next b = Inr (out, b')" using safe by blast
  from Suc.IH [of "a + 1" b'] Suc.prems obtain evs r where
    "attempts func next pol (Suc fuel) b' (a + 1) = Some (evs, r)" by auto
  then show ?case using nx
    by (subst attempts.simps) (auto simp del: attempts.simps split: result.splits option.splits)
qed

text \<open>The attempts that are started after attempt \<open>a\<close> in a list of events.\<close>

definition calls :: "'e retry_event list \<Rightarrow> nat list" where
  "calls evs = List.map_filter (\<lambda>ev. case ev of Called a \<Rightarrow> Some a | _ \<Rightarrow> None) evs"

lemma calls_simps [simp]:
  "calls [] = []" "calls (Called a # evs) = a # calls evs" "calls (Inspected a e # evs) = calls evs"
  "calls (Slept d # evs) = calls evs" "calls (inspection pol a e @ evs) = calls evs"
  by (simp_all add: calls_def map_filter_simps inspection_def)

text \<open>The attempts are made one after the other, and the result is that of the last one.\<close>

lemma attempts_in_order:
  "attempts func next pol fuel b a = Some (evs, r) \<Longrightarrow>
     \<exists>n. calls evs = [a + 1..<Suc n] \<and> a \<le> n \<and>
       (case r of Ok (v, k) \<Rightarrow> k = n \<and> func n = Ok v | Err e \<Rightarrow> func n = Err e) \<and>
       (\<forall>i \<in> {a..<n}. \<exists>e. func i = Err e \<and> allows pol i e)"
proof (induction fuel arbitrary: b a evs)
  case (Suc fuel)
  show ?case
  proof (cases "func a")
    case (Ok v)
    with Suc.prems show ?thesis by (intro exI [of _ a]) auto
  next
    case (Err e)
    show ?thesis
    proof (cases "allows pol a e \<and> (\<exists>d b'. next b = Inr (Some d, b'))")
      case False
      with Err Suc.prems have "evs = inspection pol a e" "r = Err e"
        by (auto split: if_splits sum.splits option.splits prod.splits)
      with Err show ?thesis using calls_simps(5) [of pol a e "[]"] by (intro exI [of _ a]) auto
    next
      case True
      then obtain d b' where nx: "allows pol a e" "next b = Inr (Some d, b')" by blast
      with Err Suc.prems obtain evs' where at: "attempts func next pol fuel b' (a + 1) = Some (evs', r)"
        and evs: "evs = inspection pol a e @ Slept (clamped (rp_max_interval pol) d) # Called (a + 1) # evs'"
        by (auto split: option.splits)
      from Suc.IH [OF at] obtain n where n: "calls evs' = [a + 1 + 1..<Suc n]" "a + 1 \<le> n"
        "case r of Ok (v, k) \<Rightarrow> k = n \<and> func n = Ok v | Err e \<Rightarrow> func n = Err e"
        "\<forall>i \<in> {a + 1..<n}. \<exists>e. func i = Err e \<and> allows pol i e" by blast
      have "\<forall>i \<in> {a..<n}. \<exists>e. func i = Err e \<and> allows pol i e"
        using n(4) Err nx(1) by (metis Suc_eq_plus1 Suc_leI atLeastLessThan_iff le_neq_implies_less)
      with n evs show ?thesis by (intro exI [of _ n]) (auto simp: upt_conv_Cons)
    qed
  qed
qed simp

definition fresh :: "('e, 'b) retry \<Rightarrow> bool" where
  "fresh st \<longleftrightarrow> rt_fut st = None \<and> rt_sleep st = None \<and> rt_attempt st = 0 \<and> rt_events st = []"

lemma fresh_inv:
  assumes "fresh st" "attempts func next (policy_of st) k (rt_backoff st) 1 = Some (evs, r)" "Suc k < usize_limit"
  shows "retry_inv func next (policy_of st) (Called 1 # evs, r) st (Suc k)"
  using assms by (auto simp: retry_inv_def fresh_def)

section \<open>Backoffs that panic\<close>

fun backoff_fails :: "'b backoff \<Rightarrow> nat \<Rightarrow> 'b \<Rightarrow> panic \<Rightarrow> bool" where
  "backoff_fails next 0 b p \<longleftrightarrow> next b = Inl p"
| "backoff_fails next (Suc k) b p \<longleftrightarrow> (\<exists>d b'. next b = Inr (Some d, b') \<and> backoff_fails next k b' p)"

lemma retry_panics:
  assumes "\<And>a. func a = Err e" "rt_max_attempts st = None" "rt_retry_if st = (\<lambda>_ _. True)"
    "rt_fut st = Some a" "rt_sleep st = None" "rt_attempt st + k < usize_limit" "backoff_fails next k (rt_backoff st) p"
  shows "poll_loop (retry_turn func next) (replicate (Suc k) (True, True)) st = Panicked p"
  using assms(2-)
proof (induction k arbitrary: st a)
  case 0
  then show ?case using assms(1) by (simp add: retry_turn_def may_retry_def Let_def record_event_def)
next
  case (Suc k)
  then obtain d b' where nx: "next (rt_backoff st) = Inr (Some d, b')" "backoff_fails next k b' p" by auto
  have lt: "rt_attempt st + 1 < usize_limit" using Suc.prems(5) by simp
  have "\<exists>st'. retry_turn func next (True, True) st = Continue st' \<and> rt_backoff st' = b' \<and>
    rt_max_attempts st' = None \<and> rt_retry_if st' = (\<lambda>_ _. True) \<and> rt_fut st' = Some (rt_attempt st + 1) \<and>
    rt_sleep st' = None \<and> rt_attempt st' = rt_attempt st + 1"
    using Suc.prems nx(1) lt assms(1)
    by (cases "rt_inspect_err st")
      (simp_all add: retry_turn_def may_retry_def Let_def record_event_def retry_proceed_def usize_checked_add_def
        continue_with_def)
  then obtain st' where st': "retry_turn func next (True, True) st = Continue st'" "rt_backoff st' = b'"
    "rt_max_attempts st' = None" "rt_retry_if st' = (\<lambda>_ _. True)" "rt_fut st' = Some (rt_attempt st + 1)"
    "rt_sleep st' = None" "rt_attempt st' = rt_attempt st + 1" by blast
  from Suc.IH [OF st'(3-6)] st' nx(2) Suc.prems(5) show ?case by simp
qed

text \<open>The Fibonacci numbers.\<close>

fun fib_from :: "nat \<Rightarrow> nat \<Rightarrow> nat \<Rightarrow> nat" where
  "fib_from a b 0 = a"
| "fib_from a b (Suc n) = fib_from b (a + b) n"

definition fib :: "nat \<Rightarrow> nat" where
  "fib n = fib_from 0 1 n"

lemma fib_from_rec: "fib_from a b (Suc (Suc n)) = fib_from a b n + fib_from a b (Suc n)"
  by (induction n arbitrary: a b) simp_all

lemma fib_simps: "fib 0 = 0" "fib (Suc 0) = 1" "fib (Suc (Suc n)) = fib n + fib (Suc n)"
  unfolding fib_def fib_from_rec by simp_all

lemma fib_mono: "fib n \<le> fib (Suc n)"
  by (cases n) (simp_all add: fib_simps)

lemma fibonacci_step:
  assumes "b = \<lparr>fb_current = fib (i + 1) * d, fb_next = fib (i + 2) * d\<rparr>"
  shows "fibonacci_backoff_next b =
    (if fib (i + 3) * d < dur_limit
     then Inr (Some (fib (i + 1) * d), \<lparr>fb_current = fib (i + 2) * d, fb_next = fib (i + 3) * d\<rparr>)
     else Inl (Panic ''overflow when adding durations''))"
  using assms by (simp add: fibonacci_backoff_next_def dur_add_def Let_def eval_nat_numeral fib_simps algebra_simps)

lemma fibonacci_fails:
  "fib (i + k + 2) * d < dur_limit \<Longrightarrow> dur_limit \<le> fib (i + k + 3) * d \<Longrightarrow>
     backoff_fails fibonacci_backoff_next k \<lparr>fb_current = fib (i + 1) * d, fb_next = fib (i + 2) * d\<rparr>
       (Panic ''overflow when adding durations'')"
proof (induction k arbitrary: i)
  case 0
  then show ?case using fibonacci_step [OF refl, of i d] by simp
next
  case (Suc k)
  have mono: "fib m \<le> fib n" if "m \<le> n" for m n by (rule lift_Suc_mono_le [of fib, OF fib_mono that])
  have "fib (i + 3) * d \<le> fib (i + Suc k + 2) * d" by (intro mult_right_mono mono) simp_all
  with Suc.prems(1) have "fib (i + 3) * d < dur_limit" by linarith
  then have "fibonacci_backoff_next \<lparr>fb_current = fib (i + 1) * d, fb_next = fib (i + 2) * d\<rparr> =
      Inr (Some (fib (i + 1) * d), \<lparr>fb_current = fib (i + 1 + 1) * d, fb_next = fib (i + 1 + 2) * d\<rparr>)"
    using fibonacci_step [OF refl, of i d] by (simp add: eval_nat_numeral)
  moreover have "backoff_fails fibonacci_backoff_next k
      \<lparr>fb_current = fib (i + 1 + 1) * d, fb_next = fib (i + 1 + 2) * d\<rparr> (Panic ''overflow when adding durations'')"
    using Suc.IH [of "i + 1"] Suc.prems by (simp add: add.commute add.left_commute)
  ultimately show ?case by auto
qed

section \<open>Properties\<close>

text \<open>
  C16. \<open>Retry\<close> does what its builder says, whatever the order in which futures and sleeps complete.
  When making the attempts one after the other (calling the function with 1, 2, 3, and so on,
  inspecting each error, sleeping for the clamped interval of the backoff in between) ends within
  \<open>k\<close> attempts, polling either gives exactly this result after exactly these calls, or is not done
  because the surroundings have let it go on in at most \<open>k + 1\<close> turns.
\<close>

theorem retry_refines_attempts:
  assumes "fresh st" "attempts func next (policy_of st) k (rt_backoff st) 1 = Some (evs, r)" "Suc k < usize_limit"
  shows "poll_loop (retry_turn func next) envs st = Ready (Called 1 # evs, r) \<or>
    (\<exists>st'. poll_loop (retry_turn func next) envs st = Continue st' \<and>
       length (filter (\<lambda>env. env = (True, True)) envs) \<le> Suc k)"
  using retry.run_safe [OF fresh_inv [OF assms], of envs] by auto

definition sample_func :: "nat \<Rightarrow> (string, string) result" where
  "sample_func a = (if a < 3 then Err ''not yet'' else Ok ''done'')"

definition sample_retry :: "(string, fixed_interval) retry" where
  "sample_retry = retry_max_interval 5 (retry_inspect_err (retry_new 7))"

lemma sample_retry_fresh: "fresh sample_retry"
  by (simp add: fresh_def sample_retry_def retry_max_interval_def retry_inspect_err_def retry_new_def)

lemma sample_retry_attempts:
  "attempts sample_func fixed_interval_next (policy_of sample_retry) 3 (rt_backoff sample_retry) 1 =
     Some ([Inspected 1 ''not yet'', Slept 5, Called 2, Inspected 2 ''not yet'', Slept 5, Called 3], Ok (''done'', 3))"
  by (simp add: eval_nat_numeral sample_func_def policy_of_def sample_retry_def retry_max_interval_def
      retry_inspect_err_def retry_new_def fixed_interval_next_def fixed_interval_new_def allows_def inspection_def
      clamped_def dur_clamp_def)

theorem retry_refines_attempts_witness:
  "poll_loop (retry_turn sample_func fixed_interval_next)
     [(True, True), (False, True), (True, True), (True, True), (True, True), (True, True)] sample_retry =
   Ready ([Called 1, Inspected 1 ''not yet'', Slept 5, Called 2, Inspected 2 ''not yet'', Slept 5, Called 3], Ok (''done'', 3))"
  using retry_refines_attempts [OF sample_retry_fresh sample_retry_attempts,
      of "[(True, True), (False, True), (True, True), (True, True), (True, True), (True, True)]"]
  by (simp add: usize_limit_def)

text \<open>
  With \<open>max_attempts(m)\<close> and a backoff that does not panic, the future returns: the attempts
  1 to some \<open>n\<close>, at most \<open>m\<close> and at least one, are made in order, all but the last fail with an error that
  may be retried, and the result is that of the last one.
\<close>

theorem retry_max_attempts_returns:
  assumes "fresh st" "rt_max_attempts st = Some m" "m + 1 < usize_limit"
    and "\<And>b. \<exists>out b'. next b = Inr (out, b')"
    and "m + 2 < length (filter (\<lambda>env. env = (True, True)) envs)"
  shows "\<exists>evs r n. poll_loop (retry_turn func next) envs st = Ready (evs, r) \<and> calls evs = [1..<Suc n] \<and>
    1 \<le> n \<and> n \<le> max 1 m \<and>
    (case r of Ok (v, k) \<Rightarrow> k = n \<and> func n = Ok v | Err e \<Rightarrow> func n = Err e) \<and>
    (\<forall>i \<in> {1..<n}. \<exists>e. func i = Err e \<and> rt_retry_if st i e)"
proof -
  have pol: "rp_max_attempts (policy_of st) = Some m" "rp_retry_if (policy_of st) = rt_retry_if st"
    using assms(2) by (simp_all add: policy_of_def)
  have "m \<le> 1 + (m - 1)" by simp
  then obtain evs r where at: "attempts func next (policy_of st) (Suc (m - 1)) (rt_backoff st) 1 = Some (evs, r)"
    using attempts_returns [of "next" "policy_of st" m 1 "m - 1" func "rt_backoff st", OF assms(4) pol(1)] by blast
  have k: "Suc (Suc (m - 1)) \<le> m + 2" by simp
  have "poll_loop (retry_turn func next) envs st = Ready (Called 1 # evs, r)"
    using retry.run_returns [OF fresh_inv [OF assms(1) at], of envs] assms(3,5) k
    by (cases m) (auto simp: usize_limit_def)
  moreover from attempts_in_order [OF at] obtain n where n: "calls evs = [1 + 1..<Suc n]" "1 \<le> n"
    "case r of Ok (v, k) \<Rightarrow> k = n \<and> func n = Ok v | Err e \<Rightarrow> func n = Err e"
    "\<forall>i \<in> {1..<n}. \<exists>e. func i = Err e \<and> allows (policy_of st) i e" by blast
  moreover have "n \<le> max 1 m"
  proof (cases "n \<le> 1")
    case False
    then have "n - 1 \<in> {1..<n}" by auto
    with n(4) pol(1) show ?thesis by (fastforce simp: allows_def)
  qed simp
  moreover have "\<forall>i \<in> {1..<n}. \<exists>e. func i = Err e \<and> rt_retry_if st i e"
    using n(4) pol(2) by (fastforce simp: allows_def)
  moreover have "calls (Called 1 # evs) = [1..<Suc n]" using n(1,2) by (simp add: upt_conv_Cons)
  ultimately show ?thesis by blast
qed

theorem retry_max_attempts_returns_witness:
  "\<exists>evs r n. poll_loop (retry_turn sample_func fixed_interval_next) (replicate 5 (True, True))
      (retry_max_attempts 2 (retry_new 7)) = Ready (evs, r) \<and> calls evs = [1..<Suc n] \<and> n \<le> 2"
  using retry_max_attempts_returns [of "retry_max_attempts 2 (retry_new 7)" 2 fixed_interval_next "replicate 5 (True, True)" sample_func]
  by (fastforce simp: fresh_def retry_max_attempts_def retry_new_def fixed_interval_next_def usize_limit_def)

text \<open>
  Fibonacci backoff overflows: a future that always fails, retried without a limit on the
  attempts, panics in the backoff after \<open>k + 1\<close> failures, where \<open>k\<close> is the number of intervals that
  can be computed.  A maximal interval does not help, as it is applied to the interval that is
  returned and not to the state of the backoff.
\<close>

theorem retry_fibonacci_panics:
  assumes "\<And>a. func a = Err e" "fib (k + 2) * d < dur_limit" "dur_limit \<le> fib (k + 3) * d" "k + 2 < usize_limit"
    and "retry_fibonacci_backoff fixed_interval_next (retry_max_interval m (retry_new d)) = Inr st"
  shows "poll_loop (retry_turn func fibonacci_backoff_next) (replicate (k + 2) (True, True)) st =
    Panicked (Panic ''overflow when adding durations'')"
proof -
  let ?st = "\<lparr>rt_fut = Some 1, rt_sleep = None, rt_attempt = 1, rt_backoff = \<lparr>fb_current = d, fb_next = d\<rparr>,
    rt_max_attempts = None, rt_max_interval = Some m, rt_inspect_err = False, rt_retry_if = \<lambda>_ _. True,
    rt_events = [Called 1]\<rparr>"
  have st: "st = \<lparr>rt_fut = None, rt_sleep = None, rt_attempt = 0, rt_backoff = \<lparr>fb_current = d, fb_next = d\<rparr>,
    rt_max_attempts = None, rt_max_interval = Some m, rt_inspect_err = False, rt_retry_if = \<lambda>_ _. True, rt_events = []\<rparr>"
    using assms(5)
    by (simp add: retry_fibonacci_backoff_def initial_interval_def retry_max_interval_def retry_new_def
        fixed_interval_next_def fixed_interval_new_def retry_with_backoff_def fibonacci_backoff_new_def)
  have "retry_turn func fibonacci_backoff_next (True, True) st = Continue ?st"
    using assms(4) by (simp add: st retry_turn_def retry_proceed_def usize_checked_add_def record_event_def continue_with_def)
  moreover have "backoff_fails fibonacci_backoff_next k \<lparr>fb_current = d, fb_next = d\<rparr> (Panic ''overflow when adding durations'')"
    using fibonacci_fails [of 0 k d] assms(2,3) by (simp add: fib_simps eval_nat_numeral)
  then have "poll_loop (retry_turn func fibonacci_backoff_next) (replicate (Suc k) (True, True)) ?st =
      Panicked (Panic ''overflow when adding durations'')"
    using assms(4) by (intro retry_panics [OF assms(1)]) simp_all
  ultimately show ?thesis by (simp add: eval_nat_numeral)
qed

lemma fib_from_add: "fib_from a b (m + n) = fib_from (fib_from a b m) (fib_from a b (Suc m)) n"
  by (induction m arbitrary: a b) simp_all

lemma fib_from_30: "fib_from a b (30 + n) = fib_from (514229 * a + 832040 * b) (832040 * a + 1346269 * b) n"
proof -
  have ten: "fib_from a b (10 + n) = fib_from (34 * a + 55 * b) (55 * a + 89 * b) n" for a b n
    by (subst fib_from_add) (simp add: eval_nat_numeral algebra_simps)
  have "30 + n = 10 + (10 + (10 + n))" by simp
  then show ?thesis by (simp only: ten) (simp add: algebra_simps)
qed

lemma fib_93_94: "fib 93 < 2 ^ 64 \<and> 2 ^ 64 \<le> fib 94"
proof -
  have "fib_from a b 3 = a + 2 * b" "fib_from a b 4 = 2 * a + 3 * b" for a b
    by (simp_all add: eval_nat_numeral)
  moreover have "(93::nat) = 30 + (30 + (30 + 3))" "(94::nat) = 30 + (30 + (30 + 4))" by simp_all
  ultimately show ?thesis unfolding fib_def by (simp only: fib_from_30) simp
qed

theorem retry_fibonacci_panics_witness:
  "\<exists>st. retry_fibonacci_backoff fixed_interval_next (retry_max_interval (60 * 10 ^ 9) (retry_new (10 ^ 9))) = Inr st \<and>
     poll_loop (retry_turn (\<lambda>_. Err ''down'') fibonacci_backoff_next) (replicate 93 (True, True)) st =
       (Panicked (Panic ''overflow when adding durations'') :: (_, _ \<times> (nat \<times> nat, string) result) poll_step)"
proof -
  obtain st :: "(string, fibonacci_backoff) retry" where
    st: "retry_fibonacci_backoff fixed_interval_next (retry_max_interval (60 * 10 ^ 9) (retry_new (10 ^ 9))) = Inr st"
    by (simp add: retry_fibonacci_backoff_def initial_interval_def fixed_interval_next_def)
  with retry_fibonacci_panics [OF _ _ _ _ st, of "\<lambda>_. Err ''down''" "''down''" 91] fib_93_94 show ?thesis
    by (simp add: dur_limit_def usize_limit_def)
qed

end
