(* ===== verification/Hash_Memo.thy ===== *)
theory Hash_Memo
  imports Rust_Prelude "HOL-Library.Word"
begin

text \<open>
  Memoized hash values (\<open>shed/hash_memo/src/lib.rs\<close>): \<open>MemoHasher\<close> wraps a hasher and lets the
  wrappers \<open>EagerHashMemoizer\<close> and \<open>LazyHashMemoizer\<close> hand it a hash that is known already.

  The wrapped hasher and its factory are arguments: a state, what a write does to it and the hash
  it finishes with.  Hashing a value is the sequence of writes its \<open>Hash\<close> implementation makes.
\<close>

section \<open>Hashers\<close>

text \<open>The methods of \<open>Hasher\<close> that feed it, with their arguments.\<close>

datatype hash_write =
  W_bytes "8 word list"
| W_u8 "8 word" | W_u16 "16 word" | W_u32 "32 word" | W_u64 "64 word" | W_u128 "128 word" | W_usize "64 word"
| W_i8 "8 word" | W_i16 "16 word" | W_i32 "32 word" | W_i64 "64 word" | W_i128 "128 word" | W_isize "64 word"

record 'h hasher_impl =
  h_write :: "hash_write \<Rightarrow> 'h \<Rightarrow> 'h"
  h_finish :: "'h \<Rightarrow> 64 word"

record 'h build_hasher =
  bh_impl :: "'h hasher_impl"
  bh_start :: 'h

definition write_all :: "'h hasher_impl \<Rightarrow> hash_write list \<Rightarrow> 'h \<Rightarrow> 'h" where
  "write_all impl ws h = fold (h_write impl) ws h"

text \<open>\<open>BuildHasher::hash_one\<close>.\<close>

definition hash_one :: "'h build_hasher \<Rightarrow> hash_write list \<Rightarrow> 64 word" where
  "hash_one f ws = h_finish (bh_impl f) (write_all (bh_impl f) ws (bh_start f))"

section \<open>\<open>MemoHasher\<close>\<close>

record 'h memo_hasher =
  inner_hasher :: 'h
  finish_memo :: "64 word option"
  needs_finish :: bool
  accept_memo :: bool

definition memo_hasher_new :: "'h \<Rightarrow> 'h memo_hasher" where
  "memo_hasher_new inner =
     \<lparr>inner_hasher = inner, finish_memo = None, needs_finish = False, accept_memo = False\<rparr>"

definition memo_finish :: "'h hasher_impl \<Rightarrow> 'h memo_hasher \<Rightarrow> 64 word \<times> 'h memo_hasher" where
  "memo_finish impl this =
     (case finish_memo this of
        Some v \<Rightarrow> (v, this\<lparr>needs_finish := False\<rparr>)
      | None \<Rightarrow>
          if needs_finish this then (h_finish impl (inner_hasher this), this\<lparr>needs_finish := False\<rparr>)
          else (0, this\<lparr>accept_memo := True, needs_finish := False\<rparr>))"

definition memo_forward :: "'h hasher_impl \<Rightarrow> hash_write \<Rightarrow> 'h memo_hasher \<Rightarrow> 'h memo_hasher" where
  "memo_forward impl w this = this\<lparr>needs_finish := True, inner_hasher := h_write impl w (inner_hasher this)\<rparr>"

definition memo_write_u64 :: "'h hasher_impl \<Rightarrow> 64 word \<Rightarrow> 'h memo_hasher \<Rightarrow> 'h memo_hasher" where
  "memo_write_u64 impl v this =
     (if accept_memo this then this\<lparr>finish_memo := Some v\<rparr> else memo_forward impl (W_u64 v) this)"

definition memo_write :: "'h hasher_impl \<Rightarrow> hash_write \<Rightarrow> 'h memo_hasher \<Rightarrow> 'h memo_hasher" where
  "memo_write impl w this = (case w of W_u64 v \<Rightarrow> memo_write_u64 impl v this | _ \<Rightarrow> memo_forward impl w this)"

record 'h build_memo_hasher =
  inner_factory :: "'h build_hasher"

definition build_memo_hasher_new :: "'h build_hasher \<Rightarrow> 'h build_memo_hasher" where
  "build_memo_hasher_new f = \<lparr>inner_factory = f\<rparr>"

definition memo_build_hasher :: "'h build_memo_hasher \<Rightarrow> 'h memo_hasher" where
  "memo_build_hasher b = memo_hasher_new (bh_start (inner_factory b))"

text \<open>
  What a \<open>Hash\<close> implementation does to the hasher it is given: it writes, and the memoizers also
  ask for the hash in between and throw it away.
\<close>

datatype hash_op = Op_Write hash_write | Op_Finish

definition memo_op :: "'h hasher_impl \<Rightarrow> hash_op \<Rightarrow> 'h memo_hasher \<Rightarrow> 'h memo_hasher" where
  "memo_op impl op this = (case op of Op_Write w \<Rightarrow> memo_write impl w this | Op_Finish \<Rightarrow> snd (memo_finish impl this))"

definition memo_hash_one :: "'h build_memo_hasher \<Rightarrow> hash_op list \<Rightarrow> 64 word" where
  "memo_hash_one b ops =
     (let impl = bh_impl (inner_factory b)
      in fst (memo_finish impl (fold (memo_op impl) ops (memo_build_hasher b))))"

text \<open>A plain hasher does not change when it is asked for the hash.\<close>

definition plain_hash_one :: "'h build_hasher \<Rightarrow> hash_op list \<Rightarrow> 64 word" where
  "plain_hash_one f ops =
     hash_one f (List.map_filter (\<lambda>op. case op of Op_Write w \<Rightarrow> Some w | Op_Finish \<Rightarrow> None) ops)"

section \<open>The memoizers\<close>

record 't eager_memo =
  em_hash_memo :: "64 word"
  em_inner :: 't

definition eager_new :: "('t \<Rightarrow> hash_op list) \<Rightarrow> (hash_op list \<Rightarrow> 64 word) \<Rightarrow> 't \<Rightarrow> 't eager_memo" where
  "eager_new hash_value factory_hash_one value =
     \<lparr>em_hash_memo = factory_hash_one (hash_value value), em_inner = value\<rparr>"

definition eager_hash :: "'t eager_memo \<Rightarrow> hash_op list" where
  "eager_hash m = [Op_Finish, Op_Write (W_u64 (em_hash_memo m))]"

definition eager_borrow :: "'t eager_memo \<Rightarrow> 't" where
  "eager_borrow m = em_inner m"

definition eager_deref :: "'t eager_memo \<Rightarrow> 't" where
  "eager_deref m = em_inner m"

text \<open>The factory of a lazy memoizer is what it computes the hash of a sequence of operations with.\<close>

record 't lazy_memo =
  lm_inner :: 't
  lm_hash_memo :: "64 word option"
  lm_factory :: "hash_op list \<Rightarrow> 64 word"

definition lazy_new :: "'t \<Rightarrow> (hash_op list \<Rightarrow> 64 word) \<Rightarrow> 't lazy_memo" where
  "lazy_new value factory = \<lparr>lm_inner = value, lm_hash_memo = None, lm_factory = factory\<rparr>"

definition lazy_eq :: "'t lazy_memo \<Rightarrow> 't lazy_memo \<Rightarrow> bool" where
  "lazy_eq a b \<longleftrightarrow> lm_inner a = lm_inner b"

text \<open>\<open>OnceLock::get_or_init\<close> stores the hash when it is asked for the first time.\<close>

definition lazy_hash :: "('t \<Rightarrow> hash_op list) \<Rightarrow> 't lazy_memo \<Rightarrow> hash_op list \<times> 't lazy_memo" where
  "lazy_hash hash_value m =
     (let inner_hash = (case lm_hash_memo m of Some v \<Rightarrow> v | None \<Rightarrow> lm_factory m (hash_value (lm_inner m)))
      in ([Op_Finish, Op_Write (W_u64 inner_hash)], m\<lparr>lm_hash_memo := Some inner_hash\<rparr>))"

definition lazy_borrow :: "'t lazy_memo \<Rightarrow> 't" where
  "lazy_borrow m = lm_inner m"

definition lazy_deref :: "'t lazy_memo \<Rightarrow> 't" where
  "lazy_deref m = lm_inner m"

section \<open>What the hasher returns\<close>

text \<open>Writes alone, with no question for the hash among them.\<close>

definition writes :: "hash_write list \<Rightarrow> hash_op list" where
  "writes ws = map Op_Write ws"

lemma memo_op_Write [simp]: "memo_op impl (Op_Write w) = memo_write impl w"
  by (simp add: memo_op_def fun_eq_iff)

lemma memo_write_plain:
  "\<not> accept_memo m \<Longrightarrow> memo_write impl w m = memo_forward impl w m"
  by (cases w) (simp_all add: memo_write_def memo_write_u64_def)

lemma fold_writes_plain:
  "\<not> accept_memo m \<Longrightarrow> fold (memo_op impl) (writes ws) m =
     m\<lparr>needs_finish := needs_finish m \<or> ws \<noteq> [], inner_hasher := write_all impl ws (inner_hasher m)\<rparr>"
proof (induction ws arbitrary: m)
  case (Cons w ws)
  then show ?case by (simp add: writes_def memo_write_plain memo_forward_def write_all_def)
qed (simp add: writes_def write_all_def)

lemma memo_hash_writes:
  "memo_hash_one (build_memo_hasher_new f) (writes ws) = (if ws = [] then 0 else hash_one f ws)"
  by (simp add: memo_hash_one_def memo_build_hasher_def build_memo_hasher_new_def memo_hasher_new_def
      fold_writes_plain memo_finish_def hash_one_def Let_def)

lemma plain_hash_writes: "plain_hash_one f (writes ws) = hash_one f ws"
proof -
  have "List.map_filter (\<lambda>op. case op of Op_Write w \<Rightarrow> Some w | Op_Finish \<Rightarrow> None) (writes ws) = ws"
    by (induction ws) (simp_all add: writes_def map_filter_simps)
  then show ?thesis by (simp add: plain_hash_one_def)
qed

text \<open>A question for the hash before anything is written makes the next \<open>write_u64\<close> the hash.\<close>

lemma memo_hash_handed: "memo_hash_one b [Op_Finish, Op_Write (W_u64 v)] = v"
  by (simp add: memo_hash_one_def memo_build_hasher_def memo_hasher_new_def memo_op_def memo_finish_def
      memo_write_def memo_write_u64_def Let_def)

text \<open>From then on only \<open>write_u64\<close> counts.\<close>

fun last_u64 :: "64 word \<Rightarrow> hash_op list \<Rightarrow> 64 word" where
  "last_u64 v [] = v"
| "last_u64 v (Op_Write (W_u64 v') # ops) = last_u64 v' ops"
| "last_u64 v (_ # ops) = last_u64 v ops"

lemma fold_ops_handed:
  "accept_memo m \<Longrightarrow> finish_memo m = Some v \<Longrightarrow>
     finish_memo (fold (memo_op impl) ops m) = Some (last_u64 v ops)"
proof (induction ops arbitrary: m v)
  case (Cons op ops)
  show ?case
  proof (cases op)
    case (Op_Write w)
    with Cons show ?thesis by (cases w) (simp_all add: memo_write_def memo_write_u64_def memo_forward_def)
  next
    case Op_Finish
    with Cons show ?thesis by (simp add: memo_op_def memo_finish_def)
  qed
qed simp

lemma memo_hash_after_memo:
  "memo_hash_one b (Op_Finish # Op_Write (W_u64 v) # ops) = last_u64 v ops"
proof -
  let ?impl = "bh_impl (inner_factory b)"
  define m where "m = memo_op ?impl (Op_Write (W_u64 v)) (memo_op ?impl Op_Finish (memo_build_hasher b))"
  have "accept_memo m" "finish_memo m = Some v"
    by (simp_all add: m_def memo_build_hasher_def memo_hasher_new_def memo_op_def memo_finish_def memo_write_def
        memo_write_u64_def)
  from fold_ops_handed [OF this, of ?impl ops] show ?thesis
    by (simp add: memo_hash_one_def m_def memo_finish_def Let_def)
qed

section \<open>Properties\<close>


text \<open>A hasher that adds up the bytes and words it is given.\<close>

definition sum_hasher :: "(64 word) build_hasher" where
  "sum_hasher = \<lparr>bh_impl = \<lparr>h_write = (\<lambda>w h. case w of W_u64 v \<Rightarrow> 31 * h + v | W_u8 v \<Rightarrow> 31 * h + ucast v | _ \<Rightarrow> h + 1),
     h_finish = (\<lambda>h. h + 5)\<rparr>, bh_start = 7\<rparr>"


text \<open>
  A value that writes nothing hashes to zero under \<open>BuildMemoHasher\<close>, whatever the wrapped
  hasher returns for it; and a key that begins with a memoizer hashes to the memoized hash, or to the
  last \<open>u64\<close> that is written after it: everything else the key writes is ignored, and so keys that
  differ only there have the same hash.
\<close>

theorem memo_hash_ignores_the_rest:
  "memo_hash_one (build_memo_hasher_new f) (writes []) = 0 \<and>
   memo_hash_one (build_memo_hasher_new f) (eager_hash m @ ops) = last_u64 (em_hash_memo m) ops"
  by (simp add: memo_hash_writes eager_hash_def memo_hash_after_memo)

end
