(* ===== verification/Rust_Ints.thy ===== *)
theory Rust_Ints
  imports Rust_Prelude
begin

text \<open>
  The integer types of Rust.  An integer of one of the twelve types is a mathematical integer in
  the range of its type; a cast keeps the low bits.  Integers are printed and parsed in decimal,
  a string being the list of its bytes.
\<close>

section \<open>Integers\<close>

datatype int_type = I8 | I16 | I32 | I64 | I128 | Isize | U8 | U16 | U32 | U64 | U128 | Usize

definition int_bits :: "int_type \<Rightarrow> nat" where
  "int_bits t =
     (case t of I8 \<Rightarrow> 8 | I16 \<Rightarrow> 16 | I32 \<Rightarrow> 32 | I64 \<Rightarrow> 64 | I128 \<Rightarrow> 128 | Isize \<Rightarrow> 64
      | U8 \<Rightarrow> 8 | U16 \<Rightarrow> 16 | U32 \<Rightarrow> 32 | U64 \<Rightarrow> 64 | U128 \<Rightarrow> 128 | Usize \<Rightarrow> 64)"

definition int_signed :: "int_type \<Rightarrow> bool" where
  "int_signed t \<longleftrightarrow> t \<in> {I8, I16, I32, I64, I128, Isize}"

definition in_type :: "int_type \<Rightarrow> int \<Rightarrow> bool" where
  "in_type t x \<longleftrightarrow>
     (if int_signed t then - (2 ^ (int_bits t - 1)) \<le> x \<and> x < 2 ^ (int_bits t - 1)
      else 0 \<le> x \<and> x < 2 ^ int_bits t)"

text \<open>The cast \<open>x as t\<close> keeps the low bits.\<close>

definition as_type :: "int_type \<Rightarrow> int \<Rightarrow> int" where
  "as_type t x =
     (if int_signed t then (x + 2 ^ (int_bits t - 1)) mod 2 ^ int_bits t - 2 ^ (int_bits t - 1)
      else x mod 2 ^ int_bits t)"

text \<open>Printing and parsing in decimal (\<open>to_string\<close> and \<open>parse\<close>).\<close>

definition digit_char :: "nat \<Rightarrow> char" where
  "digit_char d = char_of (48 + d)"

definition char_digit :: "char \<Rightarrow> nat option" where
  "char_digit c = (if 48 \<le> (of_char c :: nat) \<and> of_char c < (58 :: nat) then Some (of_char c - 48) else None)"

fun nat_to_string :: "nat \<Rightarrow> string" where
  "nat_to_string n = (if n < 10 then [digit_char n] else nat_to_string (n div 10) @ [digit_char (n mod 10)])"

declare nat_to_string.simps [simp del]

definition int_to_string :: "int \<Rightarrow> string" where
  "int_to_string x = (if x < 0 then CHR ''-'' # nat_to_string (nat (- x)) else nat_to_string (nat x))"

fun digits_value :: "nat \<Rightarrow> string \<Rightarrow> nat option" where
  "digits_value acc [] = Some acc"
| "digits_value acc (c # cs) = (case char_digit c of Some d \<Rightarrow> digits_value (10 * acc + d) cs | None \<Rightarrow> None)"

definition parse_sign :: "int_type \<Rightarrow> string \<Rightarrow> int \<times> string" where
  "parse_sign t s =
     (case s of
        c # cs \<Rightarrow> if c = CHR ''+'' then (1, cs) else if c = CHR ''-'' \<and> int_signed t then (-1, cs) else (1, s)
      | [] \<Rightarrow> (1, s))"

definition parse_int :: "int_type \<Rightarrow> string \<Rightarrow> int option" where
  "parse_int t s =
     (case parse_sign t s of (sign, ds) \<Rightarrow>
        if ds = [] then None
        else
          (case digits_value 0 ds of
             None \<Rightarrow> None
           | Some n \<Rightarrow> if in_type t (sign * int n) then Some (sign * int n) else None))"

section \<open>Casts\<close>

lemma int_bits_pos: "0 < int_bits t"
  by (cases t) (simp_all add: int_bits_def)

lemma as_type_cong: "as_type t x mod 2 ^ int_bits t = x mod 2 ^ int_bits t"
  by (simp add: as_type_def mod_diff_left_eq)

lemma pow_halves: "(2 :: int) ^ int_bits t = 2 * 2 ^ (int_bits t - 1)"
  using int_bits_pos [of t] by (metis power_Suc Suc_pred')

lemma as_type_in_type: "in_type t (as_type t x)"
  using pow_halves [of t] pos_mod_bound [of "2 ^ int_bits t" "x + 2 ^ (int_bits t - 1)"]
  by (auto simp: as_type_def in_type_def)

lemma in_type_unique:
  assumes "in_type t x" "in_type t y" "x mod 2 ^ int_bits t = y mod 2 ^ int_bits t"
  shows "x = y"
proof -
  have "2 ^ int_bits t dvd x - y" using assms(3) by (simp add: mod_eq_dvd_iff)
  moreover have "\<bar>x - y\<bar> < 2 ^ int_bits t"
    using assms(1,2) pow_halves [of t] by (auto simp: in_type_def split: if_splits)
  ultimately show ?thesis by (metis eq_iff_diff_eq_0 zdvd_not_zless abs_of_pos abs_of_neg dvd_minus_iff linorder_neqE_linordered_idom neg_0_less_iff_less)
qed

lemma as_type_unique: "in_type t y \<Longrightarrow> y mod 2 ^ int_bits t = x mod 2 ^ int_bits t \<Longrightarrow> as_type t x = y"
  by (rule in_type_unique [OF as_type_in_type]) (simp_all add: as_type_cong)

lemma as_type_id: "in_type t x \<Longrightarrow> as_type t x = x"
  by (rule as_type_unique) simp_all

lemma as_type_id_iff: "as_type t x = x \<longleftrightarrow> in_type t x"
  using as_type_id as_type_in_type [of t x] by metis

section \<open>Parsing what was printed\<close>

lemma char_digit_char: "d < 10 \<Longrightarrow> char_digit (digit_char d) = Some d"
  by (simp add: char_digit_def digit_char_def of_char_of)

lemma digit_char_sign: "d < 10 \<Longrightarrow> digit_char d \<noteq> CHR ''-'' \<and> digit_char d \<noteq> CHR ''+''"
  using char_digit_char [of d] by (auto simp: char_digit_def)

lemma digits_value_append:
  "digits_value acc (xs @ ys) = (case digits_value acc xs of Some n \<Rightarrow> digits_value n ys | None \<Rightarrow> None)"
  by (induction xs arbitrary: acc) (auto split: option.splits)

lemma digits_value_printed: "digits_value 0 (nat_to_string n) = Some n"
proof (induction n rule: nat_to_string.induct)
  case (1 n)
  then show ?case
    by (subst nat_to_string.simps) (simp add: char_digit_char digits_value_append)
qed

lemma nat_to_string_first: "\<exists>d ds. d < 10 \<and> nat_to_string n = digit_char d # ds"
proof (induction n rule: nat_to_string.induct)
  case (1 n)
  then show ?case by (subst nat_to_string.simps) (auto, blast)
qed

lemma parse_sign_nat: "parse_sign t (nat_to_string n) = (1, nat_to_string n)"
  using nat_to_string_first [of n] digit_char_sign by (auto simp: parse_sign_def)

lemma parse_printed: "parse_int t (int_to_string x) = (if in_type t x then Some x else None)"
proof (cases "0 \<le> x")
  case True
  then show ?thesis using nat_to_string_first [of "nat x"]
    by (auto simp: int_to_string_def parse_int_def parse_sign_nat digits_value_printed)
next
  case neg: False
  have ne: "nat_to_string n \<noteq> []" for n using nat_to_string_first [of n] by auto
  show ?thesis
  proof (cases "int_signed t")
    case True
    with neg ne show ?thesis
      by (simp add: int_to_string_def parse_int_def parse_sign_def digits_value_printed)
  next
    case False
    with neg show ?thesis
      by (simp add: int_to_string_def parse_int_def parse_sign_def char_digit_def in_type_def)
  qed
qed

end
