(* ===== verification/Scuba_Value.thy ===== *)
theory Scuba_Value
  imports Rust_Ints "HOL-Library.Word" "HOL-Library.FSet" "HOL-Library.Char_ord" "HOL-Library.List_Lexorder"
    "HOL-Library.AList" "HOL-Library.Multiset"
begin

text \<open>
  The values of a Scuba sample and their conversions (\<open>shed/scuba_sample/src/value.rs\<close>).

  A string is the list of its bytes, which is compared as Rust compares strings.  An integer of one
  of the twelve types is a mathematical integer in its range.  A float is its bit pattern; what
  needs floating-point arithmetic (casts, printing, parsing) is an argument.  The text of error
  messages is left out.
\<close>

section \<open>Floats\<close>

type_synonym f64 = "64 word"
type_synonym f32 = "32 word"

text \<open>Neither infinite nor a NaN: not all bits of the exponent are set.\<close>

definition f64_is_finite :: "f64 \<Rightarrow> bool" where
  "f64_is_finite d \<longleftrightarrow> (unat d div 2 ^ 52) mod 2 ^ 11 \<noteq> 2047"

record float_ops =
  f32_to_f64 :: "f32 \<Rightarrow> f64"
  f64_to_f32 :: "f64 \<Rightarrow> f32"
  int_to_f64 :: "int \<Rightarrow> f64"
  int_to_f32 :: "int \<Rightarrow> f32"
  f64_to_string :: "f64 \<Rightarrow> string"
  parse_f64 :: "string \<Rightarrow> f64 option"
  parse_f32 :: "string \<Rightarrow> f32 option"

section \<open>\<open>ScubaValue\<close>\<close>

datatype null_scuba_value = Null_Int | Null_Double | Null_Normal | Null_Denorm | Null_NormVector | Null_TagSet

datatype scuba_value =
  SV_Int int
| SV_Double f64
| SV_Normal string
| SV_Denorm string
| SV_NormVector "string list"
| SV_TagSet "string fset"
| SV_Null null_scuba_value

definition value_ok :: "scuba_value \<Rightarrow> bool" where
  "value_ok v \<longleftrightarrow> (case v of SV_Int i \<Rightarrow> in_type I64 i | _ \<Rightarrow> True)"

text \<open>The entries of a debug list or set, with \<open>{:?}\<close> of a string as an argument.\<close>

definition debug_entries :: "(string \<Rightarrow> string) \<Rightarrow> string list \<Rightarrow> string" where
  "debug_entries str_debug ss = concat (case map str_debug ss of [] \<Rightarrow> [] | e # es \<Rightarrow> e # map (\<lambda>e. '', '' @ e) es)"

definition value_display :: "float_ops \<Rightarrow> (string \<Rightarrow> string) \<Rightarrow> scuba_value \<Rightarrow> string" where
  "value_display fo str_debug v =
     (case v of
        SV_Int i \<Rightarrow> int_to_string i
      | SV_Double d \<Rightarrow> f64_to_string fo d
      | SV_Normal s \<Rightarrow> s
      | SV_Denorm s \<Rightarrow> s
      | SV_NormVector norms \<Rightarrow> ''['' @ debug_entries str_debug norms @ '']''
      | SV_TagSet tags \<Rightarrow> ''{'' @ debug_entries str_debug (sorted_list_of_fset tags) @ ''}''
      | SV_Null _ \<Rightarrow> ''null'')"

subsection \<open>Serialization\<close>

text \<open>The call a value makes on the serializer, and the call a deserializer makes on the visitor.\<close>

datatype ser_call = Ser_i64 int | Ser_f64 f64 | Ser_str string | Ser_seq "string list" | Ser_none

datatype visit_call =
  Visit_bool bool | Visit_i64 int | Visit_u64 int | Visit_f64 f64 | Visit_str string | Visit_string string
| Visit_seq "string option list" | Visit_unit | Visit_map

definition value_serialize :: "scuba_value \<Rightarrow> ser_call" where
  "value_serialize v =
     (case v of
        SV_Int v \<Rightarrow> Ser_i64 v
      | SV_Double v \<Rightarrow> Ser_f64 v
      | SV_Normal v \<Rightarrow> Ser_str v
      | SV_Denorm v \<Rightarrow> Ser_str v
      | SV_NormVector v \<Rightarrow> Ser_seq v
      | SV_TagSet v \<Rightarrow> Ser_seq (sorted_list_of_fset v)
      | SV_Null _ \<Rightarrow> Ser_none)"

subsection \<open>Conversions into a value\<close>

definition from_int :: "int_type \<Rightarrow> int \<Rightarrow> scuba_value" where
  "from_int t value = SV_Int (as_type I64 value)"

definition from_option_int :: "int_type \<Rightarrow> int option \<Rightarrow> scuba_value" where
  "from_option_int t value = (case value of None \<Rightarrow> SV_Null Null_Int | Some v \<Rightarrow> SV_Int (as_type I64 v))"

definition bool_to_string :: "bool \<Rightarrow> string" where
  "bool_to_string b = (if b then ''true'' else ''false'')"

definition from_bool :: "bool \<Rightarrow> scuba_value" where
  "from_bool value = SV_Normal (bool_to_string value)"

definition from_f32 :: "float_ops \<Rightarrow> f32 \<Rightarrow> scuba_value" where
  "from_f32 fo value = SV_Double (f32_to_f64 fo value)"

definition from_f64 :: "f64 \<Rightarrow> scuba_value" where
  "from_f64 value = SV_Double value"

definition from_string :: "string \<Rightarrow> scuba_value" where
  "from_string value = SV_Normal value"

definition from_vec :: "('t \<Rightarrow> string) \<Rightarrow> 't list \<Rightarrow> scuba_value" where
  "from_vec into_string value = SV_NormVector (map into_string value)"

definition value_from_iter :: "('t \<Rightarrow> string) \<Rightarrow> 't list \<Rightarrow> scuba_value" where
  "value_from_iter into_string items = SV_NormVector (map into_string items)"

definition from_hash_set :: "string fset \<Rightarrow> scuba_value" where
  "from_hash_set value = SV_TagSet value"

text \<open>A map is the list of its entries in the order of iteration.\<close>

definition from_map :: "(string \<times> string) list \<Rightarrow> scuba_value" where
  "from_map value = SV_NormVector (sort (map (\<lambda>(k, v). k @ '':'' @ v) value))"

definition from_option_string :: "string option \<Rightarrow> scuba_value" where
  "from_option_string value = (case value of None \<Rightarrow> SV_Null Null_Normal | Some s \<Rightarrow> SV_Normal s)"

definition from_option_f64 :: "f64 option \<Rightarrow> scuba_value" where
  "from_option_f64 value = (case value of None \<Rightarrow> SV_Null Null_Double | Some v \<Rightarrow> SV_Double v)"

definition from_option_f32 :: "float_ops \<Rightarrow> f32 option \<Rightarrow> scuba_value" where
  "from_option_f32 fo value = (case value of None \<Rightarrow> SV_Null Null_Double | Some v \<Rightarrow> SV_Double (f32_to_f64 fo v))"

definition from_option_bool :: "bool option \<Rightarrow> scuba_value" where
  "from_option_bool value = (case value of None \<Rightarrow> SV_Null Null_Normal | Some v \<Rightarrow> SV_Normal (bool_to_string v))"

text \<open>The visitor builds the value with these conversions; an element of a sequence may fail to be a string.\<close>

datatype de_error = Invalid_Type

fun collect_strings :: "string option list \<Rightarrow> (string list, de_error) result" where
  "collect_strings [] = Ok []"
| "collect_strings (None # items) = Err Invalid_Type"
| "collect_strings (Some s # items) =
     (case collect_strings items of Ok ss \<Rightarrow> Ok (s # ss) | Err e \<Rightarrow> Err e)"

definition value_visit :: "visit_call \<Rightarrow> (scuba_value, de_error) result" where
  "value_visit c =
     (case c of
        Visit_i64 value \<Rightarrow> Ok (from_int I64 value)
      | Visit_u64 value \<Rightarrow> Ok (from_int U64 value)
      | Visit_f64 value \<Rightarrow> Ok (from_f64 value)
      | Visit_str value \<Rightarrow> Ok (from_string value)
      | Visit_string value \<Rightarrow> Ok (from_string value)
      | Visit_seq items \<Rightarrow>
          (case collect_strings items of Ok norm_vector \<Rightarrow> Ok (from_vec id norm_vector) | Err e \<Rightarrow> Err e)
      | Visit_unit \<Rightarrow> Ok (SV_Null Null_Int)
      | Visit_bool _ \<Rightarrow> Err Invalid_Type
      | Visit_map \<Rightarrow> Err Invalid_Type)"

subsection \<open>JSON values\<close>

text \<open>
  \<open>serde_json::Value\<close> over a type of numbers.  The operations on numbers are arguments; the object
  is the list of its entries.
\<close>

datatype 'n json =
  J_Null | J_Bool bool | J_Number 'n | J_String string | J_Array "'n json list" | J_Object "(string \<times> 'n json) list"

record 'n number_ops =
  num_from_int :: "int \<Rightarrow> 'n"
  num_from_f64 :: "f64 \<Rightarrow> 'n option"
  num_as_i64 :: "'n \<Rightarrow> int option"
  num_as_f64 :: "'n \<Rightarrow> f64 option"

definition json_from_value :: "'n number_ops \<Rightarrow> scuba_value \<Rightarrow> 'n json" where
  "json_from_value no val =
     (case val of
        SV_Int v \<Rightarrow> J_Number (num_from_int no v)
      | SV_Double v \<Rightarrow> (case num_from_f64 no v of Some value \<Rightarrow> J_Number value | None \<Rightarrow> J_Null)
      | SV_Normal v \<Rightarrow> J_String v
      | SV_Denorm v \<Rightarrow> J_String v
      | SV_NormVector v \<Rightarrow> J_Array (map J_String v)
      | SV_TagSet v \<Rightarrow> J_Array (map J_String (sorted_list_of_fset v))
      | SV_Null _ \<Rightarrow> J_Null)"

definition json_string :: "'n json \<Rightarrow> string option" where
  "json_string j = (case j of J_String s \<Rightarrow> Some s | _ \<Rightarrow> None)"

definition value_from_json :: "'n number_ops \<Rightarrow> 'n json \<Rightarrow> (scuba_value, 'n json) result" where
  "value_from_json no this =
     (case this of
        J_String s \<Rightarrow> Ok (SV_Normal s)
      | J_Number n \<Rightarrow>
          (case num_as_i64 no n of
             Some i \<Rightarrow> Ok (SV_Int i)
           | None \<Rightarrow> (case num_as_f64 no n of Some f \<Rightarrow> Ok (SV_Double f) | None \<Rightarrow> Err (J_Number n)))
      | J_Bool b \<Rightarrow> Ok (SV_Normal (bool_to_string b))
      | J_Array a \<Rightarrow>
          (case collect_strings (map json_string a) of Ok strings \<Rightarrow> Ok (SV_NormVector strings) | Err _ \<Rightarrow> Err (J_Array a))
      | J_Null \<Rightarrow> Err this
      | J_Object _ \<Rightarrow> Err this)"

subsection \<open>Conversions out of a value\<close>

datatype scuba_error = MissingColumn | UnexpectedNull | InvalidTypeConversion | CustomParseError

definition parsed :: "'a option \<Rightarrow> ('a, scuba_error) result" where
  "parsed p = (case p of Some v \<Rightarrow> Ok v | None \<Rightarrow> Err InvalidTypeConversion)"

definition parsed_option :: "'a option \<Rightarrow> ('a option, scuba_error) result" where
  "parsed_option p = (case p of Some v \<Rightarrow> Ok (Some v) | None \<Rightarrow> Err InvalidTypeConversion)"

definition to_int :: "int_type \<Rightarrow> scuba_value \<Rightarrow> (int, scuba_error) result" where
  "to_int t value =
     (case value of
        SV_Int v \<Rightarrow> Ok (as_type t v)
      | SV_Normal v \<Rightarrow> parsed (parse_int t v)
      | SV_Denorm v \<Rightarrow> parsed (parse_int t v)
      | SV_Null _ \<Rightarrow> Err UnexpectedNull
      | _ \<Rightarrow> Err InvalidTypeConversion)"

definition to_option_int :: "int_type \<Rightarrow> scuba_value \<Rightarrow> (int option, scuba_error) result" where
  "to_option_int t value =
     (case value of
        SV_Int v \<Rightarrow> Ok (Some (as_type t v))
      | SV_Normal v \<Rightarrow> parsed_option (parse_int t v)
      | SV_Denorm v \<Rightarrow> parsed_option (parse_int t v)
      | SV_Null _ \<Rightarrow> Ok None
      | _ \<Rightarrow> Err InvalidTypeConversion)"

definition to_f64 :: "float_ops \<Rightarrow> scuba_value \<Rightarrow> (f64, scuba_error) result" where
  "to_f64 fo value =
     (case value of
        SV_Int v \<Rightarrow> Ok (int_to_f64 fo v)
      | SV_Double v \<Rightarrow> Ok v
      | SV_Normal v \<Rightarrow> parsed (parse_f64 fo v)
      | SV_Denorm v \<Rightarrow> parsed (parse_f64 fo v)
      | SV_Null _ \<Rightarrow> Err UnexpectedNull
      | _ \<Rightarrow> Err InvalidTypeConversion)"

definition to_option_f64 :: "float_ops \<Rightarrow> scuba_value \<Rightarrow> (f64 option, scuba_error) result" where
  "to_option_f64 fo value =
     (case value of
        SV_Int v \<Rightarrow> Ok (Some (int_to_f64 fo v))
      | SV_Double v \<Rightarrow> Ok (Some v)
      | SV_Normal v \<Rightarrow> parsed_option (parse_f64 fo v)
      | SV_Denorm v \<Rightarrow> parsed_option (parse_f64 fo v)
      | SV_Null _ \<Rightarrow> Ok None
      | _ \<Rightarrow> Err InvalidTypeConversion)"

definition to_f32 :: "float_ops \<Rightarrow> scuba_value \<Rightarrow> (f32, scuba_error) result" where
  "to_f32 fo value =
     (case value of
        SV_Int v \<Rightarrow> Ok (int_to_f32 fo v)
      | SV_Double v \<Rightarrow> Ok (f64_to_f32 fo v)
      | SV_Normal v \<Rightarrow> parsed (parse_f32 fo v)
      | SV_Denorm v \<Rightarrow> parsed (parse_f32 fo v)
      | SV_Null _ \<Rightarrow> Err UnexpectedNull
      | _ \<Rightarrow> Err InvalidTypeConversion)"

definition to_option_f32 :: "float_ops \<Rightarrow> scuba_value \<Rightarrow> (f32 option, scuba_error) result" where
  "to_option_f32 fo value =
     (case value of
        SV_Int v \<Rightarrow> Ok (Some (int_to_f32 fo v))
      | SV_Double v \<Rightarrow> Ok (Some (f64_to_f32 fo v))
      | SV_Normal v \<Rightarrow> parsed_option (parse_f32 fo v)
      | SV_Denorm v \<Rightarrow> parsed_option (parse_f32 fo v)
      | SV_Null _ \<Rightarrow> Ok None
      | _ \<Rightarrow> Err InvalidTypeConversion)"

definition parse_bool :: "string \<Rightarrow> bool option" where
  "parse_bool s = (if s = ''true'' then Some True else if s = ''false'' then Some False else None)"

definition to_bool :: "scuba_value \<Rightarrow> (bool, scuba_error) result" where
  "to_bool value =
     (case value of
        SV_Normal v \<Rightarrow> parsed (parse_bool v)
      | SV_Denorm v \<Rightarrow> parsed (parse_bool v)
      | SV_Null _ \<Rightarrow> Err UnexpectedNull
      | _ \<Rightarrow> Err InvalidTypeConversion)"

definition to_option_bool :: "scuba_value \<Rightarrow> (bool option, scuba_error) result" where
  "to_option_bool value =
     (case value of
        SV_Normal v \<Rightarrow> parsed_option (parse_bool v)
      | SV_Denorm v \<Rightarrow> parsed_option (parse_bool v)
      | SV_Null _ \<Rightarrow> Ok None
      | _ \<Rightarrow> Err InvalidTypeConversion)"

definition value_to_string :: "float_ops \<Rightarrow> scuba_value \<Rightarrow> (string, scuba_error) result" where
  "value_to_string fo value =
     (case value of
        SV_Normal v \<Rightarrow> Ok v
      | SV_Denorm v \<Rightarrow> Ok v
      | SV_Int v \<Rightarrow> Ok (int_to_string v)
      | SV_Double v \<Rightarrow> Ok (f64_to_string fo v)
      | SV_Null _ \<Rightarrow> Err UnexpectedNull
      | _ \<Rightarrow> Err InvalidTypeConversion)"

definition to_option_string :: "float_ops \<Rightarrow> scuba_value \<Rightarrow> (string option, scuba_error) result" where
  "to_option_string fo value =
     (case value of
        SV_Normal v \<Rightarrow> Ok (Some v)
      | SV_Denorm v \<Rightarrow> Ok (Some v)
      | SV_Int v \<Rightarrow> Ok (Some (int_to_string v))
      | SV_Double v \<Rightarrow> Ok (Some (f64_to_string fo v))
      | SV_Null _ \<Rightarrow> Ok None
      | _ \<Rightarrow> Err InvalidTypeConversion)"

text \<open>The conversions of a reference, into \<open>Option<&String>\<close>, \<open>&str\<close> and \<open>Option<&str>\<close>.\<close>

definition to_option_string_ref :: "scuba_value \<Rightarrow> (string option, scuba_error) result" where
  "to_option_string_ref value =
     (case value of
        SV_Normal v \<Rightarrow> Ok (Some v)
      | SV_Denorm v \<Rightarrow> Ok (Some v)
      | SV_Null _ \<Rightarrow> Ok None
      | _ \<Rightarrow> Err InvalidTypeConversion)"

definition to_str :: "scuba_value \<Rightarrow> (string, scuba_error) result" where
  "to_str value =
     (case value of
        SV_Normal v \<Rightarrow> Ok v
      | SV_Denorm v \<Rightarrow> Ok v
      | SV_Null _ \<Rightarrow> Err UnexpectedNull
      | _ \<Rightarrow> Err InvalidTypeConversion)"

definition to_option_str :: "scuba_value \<Rightarrow> (string option, scuba_error) result" where
  "to_option_str value =
     (case value of
        SV_Normal v \<Rightarrow> Ok (Some v)
      | SV_Denorm v \<Rightarrow> Ok (Some v)
      | SV_Null _ \<Rightarrow> Ok None
      | _ \<Rightarrow> Err InvalidTypeConversion)"

definition to_vec :: "(string \<Rightarrow> 't) \<Rightarrow> scuba_value \<Rightarrow> ('t list, scuba_error) result" where
  "to_vec conv value =
     (case value of
        SV_NormVector v \<Rightarrow> Ok (map conv v)
      | SV_Null _ \<Rightarrow> Err UnexpectedNull
      | _ \<Rightarrow> Err InvalidTypeConversion)"

definition to_set :: "(string \<Rightarrow> 't) \<Rightarrow> scuba_value \<Rightarrow> ('t fset, scuba_error) result" where
  "to_set conv value =
     (case value of
        SV_TagSet v \<Rightarrow> Ok (conv |`| v)
      | SV_Null _ \<Rightarrow> Err UnexpectedNull
      | _ \<Rightarrow> Err InvalidTypeConversion)"

text \<open>\<open>splitn(2, ':')\<close>: the part before the first colon, and the part after it when there is one.\<close>

definition splitn_colon :: "string \<Rightarrow> string \<times> string option" where
  "splitn_colon s =
     (takeWhile (\<lambda>c. c \<noteq> CHR '':'') s,
      case dropWhile (\<lambda>c. c \<noteq> CHR '':'') s of [] \<Rightarrow> None | _ # rest \<Rightarrow> Some rest)"

definition map_entry :: "string \<Rightarrow> (string \<times> string, scuba_error) result" where
  "map_entry s = (case splitn_colon s of (k, Some v) \<Rightarrow> Ok (k, v) | (_, None) \<Rightarrow> Err InvalidTypeConversion)"

text \<open>Collecting the entries inserts them one by one and stops at the first error.\<close>

fun collect_map :: "string list \<Rightarrow> (string \<times> string) list \<Rightarrow> ((string \<times> string) list, scuba_error) result" where
  "collect_map [] m = Ok m"
| "collect_map (s # ss) m = (case map_entry s of Ok (k, v) \<Rightarrow> collect_map ss (AList.update k v m) | Err e \<Rightarrow> Err e)"

definition to_map :: "scuba_value \<Rightarrow> ((string \<times> string) list, scuba_error) result" where
  "to_map value =
     (case value of
        SV_NormVector v \<Rightarrow> collect_map v []
      | SV_Null _ \<Rightarrow> Err UnexpectedNull
      | _ \<Rightarrow> Err InvalidTypeConversion)"

section \<open>Integers survive the cast to \<open>i64\<close> when they fit\<close>

lemma as_narrow:
  assumes "in_type t x" "int_bits t \<le> 64"
  shows "as_type t (as_type I64 x) = x"
proof (rule as_type_unique [OF assms(1)])
  have "2 ^ int_bits t dvd (2 :: int) ^ int_bits I64" using assms(2) by (intro le_imp_power_dvd) (simp add: int_bits_def)
  then show "x mod 2 ^ int_bits t = as_type I64 x mod 2 ^ int_bits t"
    using as_type_cong [of I64 x] by (metis mod_mod_cancel)
qed

lemma wide_types: "\<not> int_bits t \<le> 64 \<longleftrightarrow> t = I128 \<or> t = U128"
  by (cases t) (simp_all add: int_bits_def)

lemma as_i128: "as_type I128 (as_type I64 x) = as_type I64 x"
proof (rule as_type_id)
  show "in_type I128 (as_type I64 x)"
    using as_type_in_type [of I64 x] by (simp add: in_type_def int_bits_def int_signed_def)
qed

lemma as_u128: "as_type U128 (as_type I64 x) = (if as_type I64 x < 0 then as_type I64 x + 2 ^ 128 else as_type I64 x)"
proof (rule as_type_unique)
  show "in_type U128 (if as_type I64 x < 0 then as_type I64 x + 2 ^ 128 else as_type I64 x)"
    using as_type_in_type [of I64 x] by (simp add: in_type_def int_bits_def int_signed_def)
qed (simp add: int_bits_def)

lemma as_i64_shift: "as_type I64 (y + 2 ^ 128) = as_type I64 y"
proof -
  have "(y + 2 ^ 128) mod (2 ^ 64) = y mod (2 ^ 64 :: int)"
    by (metis mod_add_self2 mod_mult_self4 mult_numeral_1 power_add numeral_Bit0 mod_mult_self2)
  then show ?thesis
    using as_type_unique [OF as_type_in_type, of I64 y "y + 2 ^ 128"] as_type_cong [of I64 y]
    by (simp add: int_bits_def)
qed

lemma as_u128_back:
  assumes "in_type U128 x"
  shows "as_type U128 (as_type I64 x) = x \<longleftrightarrow> in_type I64 x \<or> 2 ^ 128 - 2 ^ 63 \<le> x"
proof
  assume "as_type U128 (as_type I64 x) = x"
  then show "in_type I64 x \<or> 2 ^ 128 - 2 ^ 63 \<le> x"
    using as_type_in_type [of I64 x] by (auto simp: as_u128 in_type_def int_bits_def int_signed_def split: if_splits)
next
  assume "in_type I64 x \<or> 2 ^ 128 - 2 ^ 63 \<le> x"
  then show "as_type U128 (as_type I64 x) = x"
  proof
    assume "in_type I64 x"
    then show ?thesis using assms by (simp add: as_type_id in_type_def int_signed_def)
  next
    assume big: "2 ^ 128 - 2 ^ 63 \<le> x"
    have "in_type I64 (x - 2 ^ 128)" using big assms by (simp add: in_type_def int_bits_def int_signed_def)
    then have "as_type I64 x = x - 2 ^ 128" using as_i64_shift [of "x - 2 ^ 128"] by (simp add: as_type_id)
    moreover have "x < 2 ^ 128" using assms by (simp add: in_type_def int_bits_def int_signed_def)
    ultimately show ?thesis unfolding as_u128 by simp
  qed
qed

section \<open>Maps as lists of strings\<close>

lemma splitn_colon_entry:
  "CHR '':'' \<notin> set k \<Longrightarrow> splitn_colon (k @ '':'' @ v) = (k, Some v)"
  by (auto simp: splitn_colon_def takeWhile_append dropWhile_append)

lemma map_entry_key: "map_entry s = Ok (k, v) \<Longrightarrow> CHR '':'' \<notin> set k"
  by (auto simp: map_entry_def splitn_colon_def split: list.splits dest: set_takeWhileD)

lemma collect_map_keys:
  "collect_map ss m = Ok m' \<Longrightarrow> \<forall>k \<in> fst ` set m. CHR '':'' \<notin> set k \<Longrightarrow> \<forall>k \<in> fst ` set m'. CHR '':'' \<notin> set k"
proof (induction ss arbitrary: m)
  case (Cons s ss)
  then obtain k v where kv: "map_entry s = Ok (k, v)" "collect_map ss (AList.update k v m) = Ok m'"
    by (auto split: result.splits)
  have "fst ` set (AList.update k v m) = insert k (fst ` set m)"
    using dom_update [of k v m] by (simp add: dom_map_of_conv_image_fst)
  with map_entry_key [OF kv(1)] Cons.prems(2) have "\<forall>k \<in> fst ` set (AList.update k v m). CHR '':'' \<notin> set k" by simp
  from Cons.IH [OF kv(2) this] show ?case .
qed simp

lemma collect_map_entries:
  assumes "\<forall>(k, v) \<in> set kvs. CHR '':'' \<notin> set k"
  shows "\<exists>m'. collect_map (map (\<lambda>(k, v). k @ '':'' @ v) kvs) m = Ok m' \<and> map_of m' = map_of m ++ map_of (rev kvs)"
  using assms
proof (induction kvs arbitrary: m)
  case (Cons kv kvs)
  obtain k v where kv: "kv = (k, v)" by (cases kv)
  have "map_entry (k @ '':'' @ v) = Ok (k, v)"
    unfolding map_entry_def using Cons.prems kv by (subst splitn_colon_entry) simp_all
  moreover from Cons.IH [of "AList.update k v m"] Cons.prems obtain m' where
    "collect_map (map (\<lambda>(k, v). k @ '':'' @ v) kvs) (AList.update k v m) = Ok m'"
    "map_of m' = map_of (AList.update k v m) ++ map_of (rev kvs)" by auto
  ultimately show ?case by (simp add: kv update_conv' map_add_upd_left)
qed simp

lemma sorted_entries: "\<exists>kvs'. sort (map f kvs) = map f kvs' \<and> mset kvs' = mset kvs"
proof -
  have "sort (map f kvs) = map f (sort_key f kvs)"
    by (rule properties_for_sort) simp_all
  then show ?thesis by (metis mset_sort)
qed

lemma map_of_same_entries:
  assumes "distinct (map fst kvs)" "mset kvs' = mset kvs"
  shows "map_of (rev kvs') = map_of kvs"
proof (rule map_of_inject_set [THEN iffD2])
  have "mset (map fst kvs') = mset (map fst kvs)" using assms(2) by simp
  with assms(1) show "distinct (map fst (rev kvs'))" by (metis distinct_rev mset_eq_imp_distinct_iff rev_map)
  show "set (rev kvs') = set kvs" using assms(2) by (metis set_mset_mset set_rev)
qed (rule assms(1))

lemma to_map_entries:
  assumes "distinct (map fst kvs)" "\<forall>(k, v) \<in> set kvs. CHR '':'' \<notin> set k"
  shows "\<exists>m. to_map (from_map kvs) = Ok m \<and> map_of m = map_of kvs"
proof -
  obtain kvs' where kvs': "sort (map (\<lambda>(k, v). k @ '':'' @ v) kvs) = map (\<lambda>(k, v). k @ '':'' @ v) kvs'" "mset kvs' = mset kvs"
    using sorted_entries by blast
  from kvs'(2) have "set kvs' = set kvs" by (metis set_mset_mset)
  with assms(2) collect_map_entries [of kvs' "[]"] map_of_same_entries [OF assms(1) kvs'(2)] show ?thesis
    unfolding to_map_def from_map_def kvs'(1) by auto
qed

section \<open>Reading back what was serialized\<close>

text \<open>
  What a self-describing format does between the two: an integer comes back at one of its two
  widths, a finite float, a string and a sequence of strings come back as they are, \<open>none\<close> comes
  back as the unit.
\<close>

definition reads_back :: "(ser_call \<Rightarrow> visit_call) \<Rightarrow> bool" where
  "reads_back fmt \<longleftrightarrow>
     (\<forall>i. in_type I64 i \<longrightarrow> fmt (Ser_i64 i) = Visit_i64 i \<or> 0 \<le> i \<and> fmt (Ser_i64 i) = Visit_u64 i) \<and>
     (\<forall>d. f64_is_finite d \<longrightarrow> fmt (Ser_f64 d) = Visit_f64 d) \<and>
     (\<forall>s. fmt (Ser_str s) \<in> {Visit_str s, Visit_string s}) \<and>
     (\<forall>ss. fmt (Ser_seq ss) = Visit_seq (map Some ss)) \<and>
     fmt Ser_none = Visit_unit"

lemma reads_back_str: "reads_back fmt \<Longrightarrow> value_visit (fmt (Ser_str s)) = Ok (SV_Normal s)"
  by (auto simp: reads_back_def value_visit_def from_string_def dest: spec [of _ s])

lemma reads_back_int: "reads_back fmt \<Longrightarrow> in_type I64 i \<Longrightarrow> value_visit (fmt (Ser_i64 i)) = Ok (SV_Int i)"
  by (auto simp: reads_back_def value_visit_def from_int_def as_type_id dest: spec [of _ i])

lemma collect_strings_Some: "collect_strings (map Some ss) = Ok ss"
  by (induction ss) simp_all

lemma reads_back_seq: "reads_back fmt \<Longrightarrow> value_visit (fmt (Ser_seq ss)) = Ok (SV_NormVector ss)"
  by (simp add: reads_back_def value_visit_def from_vec_def collect_strings_Some)

lemma reads_back_rest:
  "reads_back fmt \<Longrightarrow> f64_is_finite d \<Longrightarrow> value_visit (fmt (Ser_f64 d)) = Ok (SV_Double d)"
  "reads_back fmt \<Longrightarrow> value_visit (fmt Ser_none) = Ok (SV_Null Null_Int)"
  by (simp_all add: reads_back_def value_visit_def from_f64_def)

text \<open>The variants that come back as they were.\<close>

definition comes_back :: "scuba_value \<Rightarrow> bool" where
  "comes_back v \<longleftrightarrow>
     (case v of SV_Int _ \<Rightarrow> True | SV_Double _ \<Rightarrow> True | SV_Normal _ \<Rightarrow> True | SV_NormVector _ \<Rightarrow> True
      | SV_Null n \<Rightarrow> n = Null_Int | _ \<Rightarrow> False)"

section \<open>Properties\<close>

text \<open>
  An integer of any of the twelve types becomes the same integer in the value exactly when it fits
  into \<open>i64\<close>, and converting the value back to its type gives it again for every type of at most 64
  bits; of the 128-bit types only the integers that fit into \<open>i64\<close> come back, and the highest ones of
  \<open>u128\<close>.
\<close>

theorem scuba_int_roundtrip:
  assumes "in_type t x"
  shows "(from_int t x = SV_Int x \<longleftrightarrow> in_type I64 x) \<and>
    (to_int t (from_int t x) = Ok x \<longleftrightarrow> int_bits t \<le> 64 \<or> in_type I64 x \<or> t = U128 \<and> 2 ^ 128 - 2 ^ 63 \<le> x)"
proof
  show "from_int t x = SV_Int x \<longleftrightarrow> in_type I64 x" by (simp add: from_int_def as_type_id_iff)
  show "to_int t (from_int t x) = Ok x \<longleftrightarrow> int_bits t \<le> 64 \<or> in_type I64 x \<or> t = U128 \<and> 2 ^ 128 - 2 ^ 63 \<le> x"
  proof (cases "int_bits t \<le> 64")
    case True
    then show ?thesis by (simp add: from_int_def to_int_def as_narrow [OF assms])
  next
    case False
    then consider "t = I128" | "t = U128" using wide_types by blast
    then show ?thesis
    proof cases
      case 1
      then show ?thesis by (simp add: from_int_def to_int_def as_i128 as_type_id_iff int_bits_def)
    next
      case 2
      then show ?thesis using as_u128_back assms by (simp add: from_int_def to_int_def int_bits_def)
    qed
  qed
qed

theorem scuba_int_roundtrip_witness:
  "from_int U64 (2 ^ 64 - 1) \<noteq> SV_Int (2 ^ 64 - 1) \<and> to_int U64 (from_int U64 (2 ^ 64 - 1)) = Ok (2 ^ 64 - 1)"
  using scuba_int_roundtrip [of U64 "2 ^ 64 - 1"] by (simp add: in_type_def int_bits_def int_signed_def)

text \<open>
  Text is converted with its range checked: the decimal text of an integer converts to this
  integer when the type has it and is an invalid conversion otherwise, while the integer itself is
  cut down to the type without an error.
\<close>

theorem scuba_text_is_checked:
  "to_int t (SV_Normal (int_to_string x)) = (if in_type t x then Ok x else Err InvalidTypeConversion) \<and>
   to_option_int t (SV_Denorm (int_to_string x)) = (if in_type t x then Ok (Some x) else Err InvalidTypeConversion) \<and>
   (\<exists>y. to_int t (SV_Int x) = Ok y \<and> in_type t y \<and> (y = x \<longleftrightarrow> in_type t x) \<and> y mod 2 ^ int_bits t = x mod 2 ^ int_bits t)"
  by (simp add: to_int_def to_option_int_def parse_printed parsed_def parsed_option_def as_type_in_type as_type_id_iff as_type_cong)

text \<open>
  C21. A map with string keys becomes a sorted list of strings \<open>key:value\<close> that can always be converted
  back; it gives the same map exactly when no key contains a colon.
\<close>

theorem scuba_map_roundtrip:
  assumes "distinct (map fst kvs)"
  shows "(\<exists>ss. from_map kvs = SV_NormVector ss \<and> sorted ss) \<and>
    ((\<exists>m. to_map (from_map kvs) = Ok m \<and> map_of m = map_of kvs) \<longleftrightarrow> (\<forall>(k, v) \<in> set kvs. CHR '':'' \<notin> set k))"
proof
  show "\<exists>ss. from_map kvs = SV_NormVector ss \<and> sorted ss" by (simp add: from_map_def)
  have "\<forall>k \<in> fst ` set kvs. CHR '':'' \<notin> set k" if "to_map (from_map kvs) = Ok m" "map_of m = map_of kvs" for m
  proof -
    from that(1) have "\<forall>k \<in> fst ` set m. CHR '':'' \<notin> set k"
      using collect_map_keys [of _ "[]" m] by (auto simp: to_map_def from_map_def)
    moreover have "fst ` set m = fst ` set kvs" using that(2) by (metis dom_map_of_conv_image_fst)
    ultimately show ?thesis by simp
  qed
  then show "(\<exists>m. to_map (from_map kvs) = Ok m \<and> map_of m = map_of kvs) \<longleftrightarrow> (\<forall>(k, v) \<in> set kvs. CHR '':'' \<notin> set k)"
    using to_map_entries [OF assms] by fastforce
qed

theorem scuba_map_roundtrip_witness:
  "(\<exists>m. to_map (from_map [(''foo'', ''a:b''), (''bar'', ''10'')]) = Ok m \<and>
      map_of m = map_of [(''foo'', ''a:b''), (''bar'', ''10'')]) \<and>
   \<not> (\<exists>m. to_map (from_map [(''a:b'', ''c'')]) = Ok m \<and> map_of m = map_of [(''a:b'', ''c'')])"
  using scuba_map_roundtrip [of "[(''foo'', ''a:b''), (''bar'', ''10'')]"] scuba_map_roundtrip [of "[(''a:b'', ''c'')]"]
  by simp

text \<open>
  A value that goes through a self-describing format comes back as a value that is serialized in
  the same way and has the same JSON; integers, finite floats, strings and vectors come back as they
  are, while a tag set becomes a vector, a \<open>Denorm\<close> a \<open>Normal\<close>, and a null forgets its type.
\<close>

theorem scuba_serde_roundtrip:
  assumes "reads_back fmt" "value_ok v" "\<And>d. v = SV_Double d \<Longrightarrow> f64_is_finite d"
  shows "\<exists>v'. value_visit (fmt (value_serialize v)) = Ok v' \<and> value_ok v' \<and> value_serialize v' = value_serialize v \<and>
    json_from_value no v' = json_from_value no v \<and> (v' = v \<longleftrightarrow> comes_back v)"
  using assms
  by (cases v) (auto simp: value_serialize_def value_ok_def json_from_value_def comes_back_def
      reads_back_str reads_back_int reads_back_seq reads_back_rest)

text \<open>A format that keeps the calls as they are, with non-negative integers as \<open>u64\<close>.\<close>

definition plain_format :: "ser_call \<Rightarrow> visit_call" where
  "plain_format c =
     (case c of
        Ser_i64 i \<Rightarrow> if 0 \<le> i then Visit_u64 i else Visit_i64 i
      | Ser_f64 d \<Rightarrow> Visit_f64 d
      | Ser_str s \<Rightarrow> Visit_str s
      | Ser_seq ss \<Rightarrow> Visit_seq (map Some ss)
      | Ser_none \<Rightarrow> Visit_unit)"

text \<open>Numbers that are an integer or a finite float.\<close>

definition plain_numbers :: "(int + f64) number_ops" where
  "plain_numbers =
     \<lparr>num_from_int = Inl, num_from_f64 = (\<lambda>d. if f64_is_finite d then Some (Inr d) else None),
      num_as_i64 = (\<lambda>n. case n of Inl i \<Rightarrow> if in_type I64 i then Some i else None | Inr _ \<Rightarrow> None),
      num_as_f64 = (\<lambda>n. case n of Inl _ \<Rightarrow> None | Inr d \<Rightarrow> Some d)\<rparr>"

theorem scuba_serde_roundtrip_witness:
  "\<exists>v'. value_visit (plain_format (value_serialize (SV_TagSet {|''b'', ''a''|}))) = Ok v' \<and> v' \<noteq> SV_TagSet {|''b'', ''a''|} \<and>
     value_serialize v' = value_serialize (SV_TagSet {|''b'', ''a''|}) \<and>
     json_from_value plain_numbers v' = json_from_value plain_numbers (SV_TagSet {|''b'', ''a''|})"
proof -
  have "reads_back plain_format" by (simp add: reads_back_def plain_format_def)
  from scuba_serde_roundtrip [OF this, of "SV_TagSet {|''b'', ''a''|}" plain_numbers] show ?thesis
    by (auto simp: value_ok_def comes_back_def)
qed

end
