(* ===== verification/Sampling.thy ===== *)
theory Sampling
  imports Rust_Prelude "HOL-Library.Word"
begin

text \<open>
  Sampling decisions (\<open>shed/sampling/src\<close>).  A rate is a non-zero \<open>u64\<close>; the number that
  \<open>rng.gen_range(0..sample_rate)\<close> draws is an argument, below the rate.
\<close>

section \<open>Decisions\<close>

datatype sampling = NoSampling | SampledIn "64 word" | SampledOut "64 word"

datatype sample_result = Include | Exclude

definition previous_sample_rate :: "sampling \<Rightarrow> 64 word" where
  "previous_sample_rate this = (case this of NoSampling \<Rightarrow> 1 | SampledIn r \<Rightarrow> r | SampledOut r \<Rightarrow> r)"

text \<open>
  The product of two rates: a build with overflow checks panics when it does not fit, another
  build wraps around; a product of zero is refused by \<open>NonZeroU64::new\<close>.
\<close>

definition new_sample_rate :: "bool \<Rightarrow> 64 word \<Rightarrow> 64 word \<Rightarrow> 64 word res" where
  "new_sample_rate checks previous sample_rate =
     (if checks \<and> 2 ^ 64 \<le> unat previous * unat sample_rate then Inl (Panic ''attempt to multiply with overflow'')
      else if previous * sample_rate = 0 then Inl (Panic ''Product of NonZeroU64 should be non-zero'')
      else Inr (previous * sample_rate))"

definition subsampled :: "bool \<Rightarrow> nat \<Rightarrow> 64 word \<Rightarrow> sampling \<Rightarrow> sampling res" where
  "subsampled checks val sample_rate this =
     res_bind (new_sample_rate checks (previous_sample_rate this) sample_rate) (\<lambda>rate.
       Inr (if val = 0 then
              (case this of NoSampling \<Rightarrow> SampledIn rate | SampledIn _ \<Rightarrow> SampledIn rate | SampledOut _ \<Rightarrow> SampledOut rate)
            else SampledOut rate))"

definition sampling_apply :: "(64 word \<Rightarrow> 's \<Rightarrow> 's) \<Rightarrow> sampling \<Rightarrow> 's \<Rightarrow> sample_result \<times> 's" where
  "sampling_apply set_sample_rate this sample =
     (case this of
        NoSampling \<Rightarrow> (Include, sample)
      | SampledIn r \<Rightarrow> (Include, set_sample_rate r sample)
      | SampledOut _ \<Rightarrow> (Exclude, sample))"

definition sampling_to_result :: "sampling \<Rightarrow> sample_result" where
  "sampling_to_result this = (case this of NoSampling \<Rightarrow> Include | SampledIn _ \<Rightarrow> Include | SampledOut _ \<Rightarrow> Exclude)"

section \<open>The trait \<open>Sampleable\<close>\<close>

text \<open>
  What an implementation of \<open>Sampleable\<close> promises: the rate that was set last can be read back,
  and whatever else can be observed is left alone.
\<close>

locale sampleable =
  fixes set_sample_rate :: "64 word \<Rightarrow> 's \<Rightarrow> 's"
    and rate_of :: "'s \<Rightarrow> 64 word option"
    and rest_of :: "'s \<Rightarrow> 'o"
  assumes rate_of_set: "rate_of (set_sample_rate r s) = Some r"
    and rest_of_set: "rest_of (set_sample_rate r s) = rest_of s"
begin

lemma apply_result: "fst (sampling_apply set_sample_rate d s) = sampling_to_result d"
  by (cases d) (simp_all add: sampling_apply_def sampling_to_result_def)

lemma apply_rate:
  "rate_of (snd (sampling_apply set_sample_rate d s)) = (case d of SampledIn r \<Rightarrow> Some r | _ \<Rightarrow> rate_of s)"
  by (cases d) (simp_all add: sampling_apply_def rate_of_set)

lemma apply_rest: "rest_of (snd (sampling_apply set_sample_rate d s)) = rest_of s"
  by (cases d) (simp_all add: sampling_apply_def rest_of_set)

end

section \<open>A chain of decisions\<close>

fun subsample_all :: "bool \<Rightarrow> (64 word \<times> nat) list \<Rightarrow> sampling \<Rightarrow> sampling res" where
  "subsample_all checks [] this = Inr this"
| "subsample_all checks ((rate, val) # rest) this =
     res_bind (subsampled checks val rate this) (subsample_all checks rest)"

definition sampled_in :: "sampling res \<Rightarrow> bool" where
  "sampled_in r \<longleftrightarrow> (case r of Inr d \<Rightarrow> sampling_to_result d = Include | Inl _ \<Rightarrow> False)"

definition total_rate :: "64 word list \<Rightarrow> nat" where
  "total_rate rates = prod_list (map unat rates)"

text \<open>All the numbers that may be drawn for a list of rates.\<close>

definition draws :: "64 word list \<Rightarrow> nat list set" where
  "draws rates = {vals. list_all2 (\<lambda>v r. v < unat r) vals rates}"

definition decided :: "bool \<Rightarrow> 64 word \<Rightarrow> sampling" where
  "decided incl r = (if incl then SampledIn r else SampledOut r)"

lemma draws_Nil: "draws [] = {[]}"
  by (simp add: draws_def)

lemma draws_Cons: "draws (r # rs) = (\<lambda>(v, vs). v # vs) ` ({..<unat r} \<times> draws rs)"
  by (auto simp: draws_def list_all2_Cons2 image_iff)

lemma finite_card_draws: "finite (draws rs) \<and> card (draws rs) = total_rate rs"
proof (induction rs)
  case (Cons r rs)
  have "inj_on (\<lambda>(v, vs). v # vs) ({..<unat r} \<times> draws rs)" by (auto simp: inj_on_def)
  with Cons show ?case by (simp add: draws_Cons card_image card_cartesian_product total_rate_def)
qed (simp add: draws_Nil total_rate_def)

lemma total_rate_pos: "0 \<notin> set rs \<Longrightarrow> 0 < total_rate rs"
  by (induction rs) (auto simp: total_rate_def unat_gt_0)

lemma previous_decided [simp]: "previous_sample_rate (decided incl r) = r"
  by (simp add: previous_sample_rate_def decided_def)

lemma subsampled_decided:
  assumes "unat r * unat s < 2 ^ 64" "r \<noteq> 0" "s \<noteq> 0"
  shows "subsampled True v s (decided incl r) = Inr (decided (incl \<and> v = 0) (r * s))"
proof -
  have "unat (r * s) = unat r * unat s" using assms(1) by (simp add: unat_mult_lem [symmetric])
  then have "r * s \<noteq> 0" using assms(2,3) by (metis mult_is_0 unat_eq_zero)
  with assms(1) show ?thesis
    by (auto simp: subsampled_def new_sample_rate_def decided_def previous_sample_rate_def)
qed

lemma unat_mult_small: "unat (r :: 64 word) * unat s < 2 ^ 64 \<Longrightarrow> unat (r * s) = unat r * unat s"
  by (simp add: unat_mult_lem [symmetric])

lemma subsampled_overflow:
  "2 ^ 64 \<le> unat r * unat s \<Longrightarrow> subsampled True v s (decided incl r) = Inl (Panic ''attempt to multiply with overflow'')"
  by (simp add: subsampled_def new_sample_rate_def)

lemma subsample_all_decided:
  assumes "r \<noteq> 0" "0 \<notin> set rs" "length vs = length rs"
  shows "subsample_all True (zip rs vs) (decided incl r) =
    (if unat r * total_rate rs < 2 ^ 64 then Inr (decided (incl \<and> (\<forall>v \<in> set vs. v = 0)) (of_nat (unat r * total_rate rs)))
     else Inl (Panic ''attempt to multiply with overflow''))"
  using assms
proof (induction rs arbitrary: r vs incl)
  case Nil
  have "unat r < 2 ^ 64" using unsigned_less [of r] by simp
  with Nil show ?case by (simp add: total_rate_def)
next
  case (Cons s rs)
  then obtain v vs' where vs: "vs = v # vs'" "length vs' = length rs" by (cases vs) auto
  have s: "s \<noteq> 0" "0 \<notin> set rs" "0 < total_rate rs" using Cons.prems(2) total_rate_pos [of rs] by auto
  have tot: "total_rate (s # rs) = unat s * total_rate rs" by (simp add: total_rate_def)
  show ?case
  proof (cases "unat r * unat s < 2 ^ 64")
    case True
    have rs: "unat (r * s) = unat r * unat s" by (rule unat_mult_small [OF True])
    with Cons.prems(1) s(1) have "r * s \<noteq> 0" by (metis mult_is_0 unat_eq_zero)
    from Cons.IH [OF this s(2) vs(2), of "incl \<and> v = 0"] show ?thesis
      by (simp add: vs(1) subsampled_decided [OF True Cons.prems(1) s(1)] rs tot mult.assoc conj_assoc)
  next
    case False
    then have "2 ^ 64 \<le> unat r * unat s * total_rate rs" using s(3) by (metis leI le_trans mult_le_mono2 mult.right_neutral Suc_leI One_nat_def)
    with False show ?thesis by (simp add: vs(1) subsampled_overflow tot mult.assoc)
  qed
qed

lemma subsampled_start: "subsampled checks v s NoSampling = subsampled checks v s (decided True 1)"
  by (simp add: subsampled_def decided_def previous_sample_rate_def res_bind_def split: sum.splits)

lemma subsample_all_start:
  assumes "rs \<noteq> []" "0 \<notin> set rs" "length vs = length rs"
  shows "subsample_all True (zip rs vs) NoSampling =
    (if total_rate rs < 2 ^ 64 then Inr (decided (\<forall>v \<in> set vs. v = 0) (of_nat (total_rate rs)))
     else Inl (Panic ''attempt to multiply with overflow''))"
proof -
  have "subsample_all True (zip rs vs) NoSampling = subsample_all True (zip rs vs) (decided True 1)"
    using assms(1,3) by (cases rs; cases vs) (simp_all add: subsampled_start)
  then show ?thesis using subsample_all_decided [of 1 rs vs True] assms(2,3) by simp
qed

lemma zero_draw:
  assumes nz: "0 \<notin> set rs"
  shows "{vs \<in> draws rs. \<forall>v \<in> set vs. v = 0} = {replicate (length rs) 0}"
proof (rule set_eqI)
  fix vs
  have "length vs = length rs" if "vs \<in> draws rs"
    using that by (simp add: draws_def list_all2_lengthD)
  then have "vs = replicate (length rs) 0" if "vs \<in> draws rs" "\<forall>v \<in> set vs. v = 0"
    using that by (intro replicate_eqI) auto
  moreover have "replicate (length rs) 0 \<in> draws rs"
    using nz by (auto simp: draws_def list_all2_conv_all_nth unat_gt_0 dest: nth_mem)
  ultimately show "vs \<in> {vs \<in> draws rs. \<forall>v \<in> set vs. v = 0} \<longleftrightarrow> vs \<in> {replicate (length rs) 0}"
    unfolding mem_Collect_eq singleton_iff by (intro iffI) (blast, simp)
qed

section \<open>Properties\<close>



end
