(* ===== verification/Scuba_Sample.thy ===== *)
theory Scuba_Sample
  imports Scuba_Value Sampling
begin

text \<open>
  Samples (\<open>shed/scuba_sample/src/sample.rs\<close>) and the builder that logs them
  (\<open>shed/scuba_sample/builder/src/builder.rs\<close>).

  The values of a sample are the entries of its hash map in the order of iteration.  The time is an
  argument where the code reads the clock, in nanoseconds since the epoch.  What clones of a builder
  share, the log file and the counter, is kept in a store: a builder has their addresses.
\<close>

section \<open>\<open>ScubaSample\<close>\<close>

definition TIME_COLUMN :: string where "TIME_COLUMN = ''time''"
definition INT_KEY :: string where "INT_KEY = ''int''"
definition DOUBLE_KEY :: string where "DOUBLE_KEY = ''double''"
definition NORMAL_KEY :: string where "NORMAL_KEY = ''normal''"
definition DENORM_KEY :: string where "DENORM_KEY = ''denorm''"
definition NORMVECTOR_KEY :: string where "NORMVECTOR_KEY = ''normvector''"
definition TAGSET_KEY :: string where "TAGSET_KEY = ''tags''"
definition SUBSET_KEY :: string where "SUBSET_KEY = ''__subset__''"

lemmas column_defs = TIME_COLUMN_def INT_KEY_def DOUBLE_KEY_def NORMAL_KEY_def DENORM_KEY_def NORMVECTOR_KEY_def
  TAGSET_KEY_def SUBSET_KEY_def

record scuba_sample =
  ss_time :: "64 word"
  ss_subset :: "string option"
  ss_values :: "(string \<times> scuba_value) list"

definition epoch_secs :: "int \<Rightarrow> 64 word res" where
  "epoch_secs now =
     (if now < 0 then Inl (Panic ''Current timestamp is earlier than UNIX epoch'') else Inr (word_of_int (now div 10 ^ 9)))"

definition sample_with_timestamp :: "64 word \<Rightarrow> scuba_sample" where
  "sample_with_timestamp secs = \<lparr>ss_time = secs, ss_subset = None, ss_values = []\<rparr>"

definition sample_new :: "int \<Rightarrow> scuba_sample res" where
  "sample_new now = res_bind (epoch_secs now) (\<lambda>t. Inr \<lparr>ss_time = t, ss_subset = None, ss_values = []\<rparr>)"

definition sample_new_from_values :: "64 word \<Rightarrow> string option \<Rightarrow> (string \<times> scuba_value) list \<Rightarrow> scuba_sample" where
  "sample_new_from_values time sub values = \<lparr>ss_time = time, ss_subset = sub, ss_values = values\<rparr>"

definition sample_add :: "string \<Rightarrow> scuba_value \<Rightarrow> scuba_sample \<Rightarrow> scuba_sample" where
  "sample_add key value this = this\<lparr>ss_values := AList.update key value (ss_values this)\<rparr>"

definition sample_join_values :: "scuba_sample \<Rightarrow> scuba_sample \<Rightarrow> scuba_sample" where
  "sample_join_values sample this = fold (\<lambda>(k, v). sample_add k v) (ss_values sample) this"

fun join_or_panic :: "(string \<times> scuba_value) list \<Rightarrow> scuba_sample \<Rightarrow> scuba_sample res" where
  "join_or_panic [] this = Inr this"
| "join_or_panic ((k, v) # rest) this =
     (if map_of (ss_values this) k \<noteq> None then Inl (Panic (''Duplicate value in scuba sample: '' @ k))
      else join_or_panic rest (sample_add k v this))"

definition sample_join_values_or_panic :: "scuba_sample \<Rightarrow> scuba_sample \<Rightarrow> scuba_sample res" where
  "sample_join_values_or_panic sample this = join_or_panic (ss_values sample) this"

definition sample_add_opt :: "string \<Rightarrow> scuba_value option \<Rightarrow> scuba_sample \<Rightarrow> scuba_sample" where
  "sample_add_opt key value this = (case value of Some v \<Rightarrow> sample_add key v this | None \<Rightarrow> this)"

definition sample_remove :: "string \<Rightarrow> scuba_sample \<Rightarrow> scuba_sample" where
  "sample_remove key this = this\<lparr>ss_values := AList.delete key (ss_values this)\<rparr>"

definition sample_retrieve :: "string \<Rightarrow> scuba_sample \<Rightarrow> scuba_value option \<times> scuba_sample" where
  "sample_retrieve key this = (map_of (ss_values this) key, this\<lparr>ss_values := AList.delete key (ss_values this)\<rparr>)"

definition sample_get :: "string \<Rightarrow> scuba_sample \<Rightarrow> scuba_value option" where
  "sample_get key this = map_of (ss_values this) key"

definition sample_keys :: "scuba_sample \<Rightarrow> string list" where
  "sample_keys this = map fst (ss_values this)"

definition sample_set_subset :: "string \<Rightarrow> scuba_sample \<Rightarrow> scuba_sample" where
  "sample_set_subset sub this = this\<lparr>ss_subset := Some sub\<rparr>"

definition sample_clear_subset :: "scuba_sample \<Rightarrow> scuba_sample" where
  "sample_clear_subset this = this\<lparr>ss_subset := None\<rparr>"

definition sample_set_time :: "64 word \<Rightarrow> scuba_sample \<Rightarrow> scuba_sample" where
  "sample_set_time time_in_seconds this = this\<lparr>ss_time := time_in_seconds\<rparr>"

definition sample_set_time_now :: "int \<Rightarrow> scuba_sample \<Rightarrow> scuba_sample res" where
  "sample_set_time_now now this = res_bind (epoch_secs now) (\<lambda>t. Inr (this\<lparr>ss_time := t\<rparr>))"

definition section_of :: "scuba_value \<Rightarrow> string" where
  "section_of value =
     (case value of
        SV_Int _ \<Rightarrow> INT_KEY
      | SV_Double _ \<Rightarrow> DOUBLE_KEY
      | SV_Normal _ \<Rightarrow> NORMAL_KEY
      | SV_Denorm _ \<Rightarrow> DENORM_KEY
      | SV_NormVector _ \<Rightarrow> NORMVECTOR_KEY
      | SV_TagSet _ \<Rightarrow> TAGSET_KEY
      | SV_Null v \<Rightarrow>
          (case v of
             Null_Int \<Rightarrow> INT_KEY
           | Null_Double \<Rightarrow> DOUBLE_KEY
           | Null_Normal \<Rightarrow> NORMAL_KEY
           | Null_Denorm \<Rightarrow> DENORM_KEY
           | Null_NormVector \<Rightarrow> NORMVECTOR_KEY
           | Null_TagSet \<Rightarrow> TAGSET_KEY))"

text \<open>\<open>json.entry(section).or_insert({})\<close>, and an insertion into it when it is an object.\<close>

definition section_insert ::
  "string \<Rightarrow> string \<Rightarrow> 'n json \<Rightarrow> (string \<times> 'n json) list \<Rightarrow> (string \<times> 'n json) list" where
  "section_insert section key j json =
     (let json = (if map_of json section = None then AList.update section (J_Object []) json else json) in
      case map_of json section of
        Some (J_Object m) \<Rightarrow> AList.update section (J_Object (AList.update key j m)) json
      | _ \<Rightarrow> json)"

definition sample_to_json :: "'n number_ops \<Rightarrow> scuba_sample \<Rightarrow> ('n json, 'e) result" where
  "sample_to_json no this =
     (let json = fold (\<lambda>(key, value) json.
            if key = TIME_COLUMN then json else section_insert (section_of value) key (json_from_value no value) json)
            (ss_values this) [];
          json = section_insert INT_KEY TIME_COLUMN (J_Number (num_from_int no (uint (ss_time this)))) json;
          json = (case ss_subset this of Some sub \<Rightarrow> AList.update SUBSET_KEY (J_String sub) json | None \<Rightarrow> json)
      in Ok (J_Object json))"

definition sample_set_sample_rate :: "64 word \<Rightarrow> scuba_sample \<Rightarrow> scuba_sample" where
  "sample_set_sample_rate sample_rate this = sample_add ''sample_rate'' (from_int U64 (uint sample_rate)) this"

definition sample_into_iter :: "scuba_sample \<Rightarrow> (string \<times> scuba_value) list" where
  "sample_into_iter this = ss_values this"

section \<open>\<open>ScubaSampleBuilder\<close>\<close>

record store =
  st_files :: "string list"
  st_counters :: "64 word list"

record builder =
  sb_sample :: scuba_sample
  sb_log_file :: "nat option"
  sb_sampling :: sampling
  sb_seq :: "(string \<times> nat) option"

definition builder_with_discard :: "int \<Rightarrow> builder res" where
  "builder_with_discard now =
     res_bind (sample_new now) (\<lambda>s. Inr \<lparr>sb_sample = s, sb_log_file = None, sb_sampling = NoSampling, sb_seq = None\<rparr>)"

definition builder_new :: "int \<Rightarrow> builder res" where
  "builder_new now = builder_with_discard now"

text \<open>The file the system opened, by its address, or the error of opening it.\<close>

definition builder_with_log_file :: "(nat, 'e) result \<Rightarrow> builder \<Rightarrow> (builder, 'e) result" where
  "builder_with_log_file opened this = (case opened of Ok f \<Rightarrow> Ok (this\<lparr>sb_log_file := Some f\<rparr>) | Err e \<Rightarrow> Err e)"

definition builder_with_seq :: "string \<Rightarrow> builder \<Rightarrow> store \<Rightarrow> builder \<times> store" where
  "builder_with_seq key this st =
     (this\<lparr>sb_seq := Some (key, length (st_counters st))\<rparr>, st\<lparr>st_counters := st_counters st @ [0]\<rparr>)"

definition builder_is_discard :: "builder \<Rightarrow> bool" where
  "builder_is_discard this = True"

definition builder_add :: "string \<Rightarrow> scuba_value \<Rightarrow> builder \<Rightarrow> builder" where
  "builder_add key value this = this\<lparr>sb_sample := sample_add key value (sb_sample this)\<rparr>"

definition builder_add_opt :: "string \<Rightarrow> scuba_value option \<Rightarrow> builder \<Rightarrow> builder" where
  "builder_add_opt key value this = this\<lparr>sb_sample := sample_add_opt key value (sb_sample this)\<rparr>"

definition builder_remove :: "string \<Rightarrow> builder \<Rightarrow> builder" where
  "builder_remove key this = this\<lparr>sb_sample := sample_remove key (sb_sample this)\<rparr>"

definition builder_get :: "string \<Rightarrow> builder \<Rightarrow> scuba_value option" where
  "builder_get key this = sample_get key (sb_sample this)"

definition builder_sampled :: "bool \<Rightarrow> nat \<Rightarrow> 64 word \<Rightarrow> builder \<Rightarrow> builder res" where
  "builder_sampled checks val sample_rate this =
     res_bind (subsampled checks val sample_rate (sb_sampling this)) (\<lambda>s. Inr (this\<lparr>sb_sampling := s\<rparr>))"

definition builder_unsampled :: "builder \<Rightarrow> builder" where
  "builder_unsampled this = this\<lparr>sb_sampling := NoSampling\<rparr>"

definition builder_set_subset :: "string \<Rightarrow> builder \<Rightarrow> builder" where
  "builder_set_subset sub this = this\<lparr>sb_sample := sample_set_subset sub (sb_sample this)\<rparr>"

definition builder_clear_subset :: "builder \<Rightarrow> builder" where
  "builder_clear_subset this = this\<lparr>sb_sample := sample_clear_subset (sb_sample this)\<rparr>"

text \<open>\<open>fetch_add\<close> wraps around.\<close>

definition next_seq :: "builder \<Rightarrow> store \<Rightarrow> builder \<times> store" where
  "next_seq this st =
     (case sb_seq this of
        Some (key, a) \<Rightarrow>
          (this\<lparr>sb_sample := sample_add key (from_int U64 (uint (st_counters st ! a))) (sb_sample this)\<rparr>,
           st\<lparr>st_counters := (st_counters st)[a := st_counters st ! a + 1]\<rparr>)
      | None \<Rightarrow> (this, st))"

text \<open>A write succeeds, or fails after some of the bytes have been written.\<close>

type_synonym write_outcome = "nat option"

definition file_write_all :: "write_outcome \<Rightarrow> string \<Rightarrow> nat \<Rightarrow> store \<Rightarrow> bool \<times> store" where
  "file_write_all outcome bytes f st =
     (case outcome of
        None \<Rightarrow> (True, st\<lparr>st_files := (st_files st)[f := st_files st ! f @ bytes]\<rparr>)
      | Some n \<Rightarrow> (False, st\<lparr>st_files := (st_files st)[f := st_files st ! f @ take n bytes]\<rparr>))"

text \<open>Logging, with the text of a JSON value as an argument.  \<open>False\<close> on the left is an error of a write.\<close>

definition builder_try_log ::
  "('n json \<Rightarrow> string) \<Rightarrow> 'n number_ops \<Rightarrow> write_outcome \<times> write_outcome \<Rightarrow> int \<Rightarrow> builder \<Rightarrow> store \<Rightarrow>
     ((bool, unit) result \<times> builder \<times> store) res" where
  "builder_try_log print no outcomes now this st =
     res_bind (sample_set_time_now now (sb_sample this)) (\<lambda>sample.
       case next_seq (this\<lparr>sb_sample := sample\<rparr>) st of (this, st) \<Rightarrow>
       case sampling_apply sample_set_sample_rate (sb_sampling this) (sb_sample this) of (r, sample) \<Rightarrow>
       let this = this\<lparr>sb_sample := sample\<rparr> in
       if r = Exclude then Inr (Ok False, this, st)
       else
         (case (sb_log_file this, sample_to_json no (sb_sample this) :: ('n json, unit) result) of
            (Some f, Ok json) \<Rightarrow>
              (case file_write_all (fst outcomes) (print json) f st of (ok, st) \<Rightarrow>
                 if \<not> ok then Inr (Err (), this, st)
                 else
                   (case file_write_all (snd outcomes) [char_of (10::nat)] f st of (ok, st) \<Rightarrow>
                      Inr (if ok then Ok True else Err (), this, st)))
          | _ \<Rightarrow> Inr (Ok True, this, st)))"

definition builder_log ::
  "('n json \<Rightarrow> string) \<Rightarrow> 'n number_ops \<Rightarrow> write_outcome \<times> write_outcome \<Rightarrow> int \<Rightarrow> builder \<Rightarrow> store \<Rightarrow>
     (bool \<times> builder \<times> store) res" where
  "builder_log print no outcomes now this st =
     res_bind (builder_try_log print no outcomes now this st) (\<lambda>(r, this, st).
       Inr (case r of Ok b \<Rightarrow> b | Err _ \<Rightarrow> True, this, st))"

definition builder_log_with_time ::
  "('n json \<Rightarrow> string) \<Rightarrow> 'n number_ops \<Rightarrow> write_outcome \<times> write_outcome \<Rightarrow> 64 word \<Rightarrow> builder \<Rightarrow> store \<Rightarrow>
     bool \<times> builder \<times> store" where
  "builder_log_with_time print no outcomes time this st =
     (case next_seq (this\<lparr>sb_sample := sample_set_time time (sb_sample this)\<rparr>) st of (this, st) \<Rightarrow>
      case sampling_apply sample_set_sample_rate (sb_sampling this) (sb_sample this) of (r, sample) \<Rightarrow>
      let this = this\<lparr>sb_sample := sample\<rparr> in
      if r = Exclude then (False, this, st)
      else
        (case (sb_log_file this, sample_to_json no (sb_sample this) :: ('n json, unit) result) of
           (Some f, Ok json) \<Rightarrow>
             (case file_write_all (fst outcomes) (print json) f st of (_, st) \<Rightarrow>
              case file_write_all (snd outcomes) [char_of (10::nat)] f st of (_, st) \<Rightarrow> (True, this, st))
         | _ \<Rightarrow> (True, this, st)))"

text \<open>Flushing hands the bytes to the system; the file of the store has them already.\<close>

definition builder_try_flush :: "(unit, 'e) result \<Rightarrow> builder \<Rightarrow> (unit, 'e) result" where
  "builder_try_flush flushed this = (case sb_log_file this of Some _ \<Rightarrow> flushed | None \<Rightarrow> Ok ())"

definition builder_to_json :: "'n number_ops \<Rightarrow> builder \<Rightarrow> ('n json, 'e) result" where
  "builder_to_json no this = sample_to_json no (sb_sample this)"

definition builder_join_values :: "scuba_sample \<Rightarrow> builder \<Rightarrow> builder" where
  "builder_join_values sample this = this\<lparr>sb_sample := sample_join_values sample (sb_sample this)\<rparr>"

datatype server_data =
  SD_Hostname | SD_HostnameScheme | SD_Region | SD_RegionDatacenterPrefix | SD_Datacenter | SD_ModelName | SD_ModelId
| SD_FullClusterName | SD_Tier | SD_TaskId | SD_Cluster | SD_CanaryId | SD_JobHandle | SD_TaskHandle | SD_BuildRevision
| SD_BuildRule | SD_ScheduledJobCluster | SD_ScheduledJobInstanceId | SD_ScheduledJobName

definition default_key :: "server_data \<Rightarrow> string" where
  "default_key this =
     (case this of
        SD_Hostname \<Rightarrow> ''server_hostname''
      | SD_HostnameScheme \<Rightarrow> ''server_hostname_scheme''
      | SD_Region \<Rightarrow> ''region''
      | SD_RegionDatacenterPrefix \<Rightarrow> ''region_datacenter_prefix''
      | SD_Datacenter \<Rightarrow> ''datacenter''
      | SD_ModelName \<Rightarrow> ''model_name''
      | SD_ModelId \<Rightarrow> ''model_id''
      | SD_FullClusterName \<Rightarrow> ''full_cluster_name''
      | SD_Tier \<Rightarrow> ''server_tier''
      | SD_TaskId \<Rightarrow> ''tw_task_id''
      | SD_Cluster \<Rightarrow> ''tw_cluster''
      | SD_CanaryId \<Rightarrow> ''tw_canary_id''
      | SD_JobHandle \<Rightarrow> ''tw_handle''
      | SD_TaskHandle \<Rightarrow> ''tw_task_handle''
      | SD_BuildRevision \<Rightarrow> ''build_revision''
      | SD_BuildRule \<Rightarrow> ''build_rule''
      | SD_ScheduledJobCluster \<Rightarrow> ''chronos_cluster''
      | SD_ScheduledJobInstanceId \<Rightarrow> ''chronos_job_instance_id''
      | SD_ScheduledJobName \<Rightarrow> ''chronos_job_name'')"

section \<open>Reading the JSON of a sample\<close>

text \<open>A column of a section of the object.\<close>

definition json_column :: "(string \<times> 'n json) list \<Rightarrow> string \<Rightarrow> string \<Rightarrow> 'n json option" where
  "json_column obj section key = (case map_of obj section of Some (J_Object m) \<Rightarrow> map_of m key | _ \<Rightarrow> None)"

definition only_objects :: "(string \<times> 'n json) list \<Rightarrow> bool" where
  "only_objects obj \<longleftrightarrow> (\<forall>section j. map_of obj section = Some j \<longrightarrow> (\<exists>m. j = J_Object m))"

lemma section_insert_objects: "only_objects obj \<Longrightarrow> only_objects (section_insert section key j obj)"
  by (auto simp: only_objects_def section_insert_def Let_def update_conv' split: option.splits json.splits)

lemma section_insert_column:
  assumes "only_objects obj"
  shows "json_column (section_insert section key j obj) section' key' =
    (if section' = section \<and> key' = key then Some j else json_column obj section' key')"
proof (cases "map_of obj section")
  case None
  then show ?thesis by (simp add: section_insert_def json_column_def update_conv' Let_def)
next
  case (Some x)
  with assms obtain m where "x = J_Object m" by (auto simp: only_objects_def)
  with Some show ?thesis by (simp add: section_insert_def json_column_def update_conv' Let_def)
qed

lemma section_insert_other: "s \<noteq> section \<Longrightarrow> map_of (section_insert section key j obj) s = map_of obj s"
  by (auto simp: section_insert_def update_conv' Let_def split: option.splits json.splits)

lemma section_of_not_subset: "section_of v \<noteq> SUBSET_KEY"
  by (cases v) (auto simp: section_of_def column_defs split: null_scuba_value.splits)

definition add_column :: "'n number_ops \<Rightarrow> string \<times> scuba_value \<Rightarrow> (string \<times> 'n json) list \<Rightarrow> (string \<times> 'n json) list" where
  "add_column no = (\<lambda>(key, value) json.
     if key = TIME_COLUMN then json else section_insert (section_of value) key (json_from_value no value) json)"

lemma add_column_objects: "only_objects obj \<Longrightarrow> only_objects (add_column no kv obj)"
  by (cases kv) (simp add: add_column_def section_insert_objects)

lemma fold_columns_objects: "only_objects obj \<Longrightarrow> only_objects (fold (add_column no) kvs obj)"
  by (induction kvs arbitrary: obj) (simp_all add: add_column_objects)

lemma fold_columns_subset: "map_of (fold (add_column no) kvs obj) SUBSET_KEY = map_of obj SUBSET_KEY"
proof (induction kvs arbitrary: obj)
  case (Cons kv kvs)
  then show ?case using section_of_not_subset [of "snd kv"]
    by (cases kv) (simp add: add_column_def section_insert_other [OF section_of_not_subset [symmetric]])
qed simp

lemma fold_columns:
  assumes "only_objects obj" "distinct (map fst kvs)"
  shows "json_column (fold (add_column no) kvs obj) section key =
    (case map_of kvs key of
       Some v \<Rightarrow> if key \<noteq> TIME_COLUMN \<and> section_of v = section then Some (json_from_value no v) else json_column obj section key
     | None \<Rightarrow> json_column obj section key)"
  using assms
proof (induction kvs arbitrary: obj)
  case (Cons kv kvs)
  obtain k v where kv: "kv = (k, v)" by (cases kv)
  from Cons.prems(2) kv have new: "map_of kvs k = None" by (simp add: map_of_eq_None_iff)
  from Cons.IH [OF add_column_objects [OF Cons.prems(1)], of no kv] Cons.prems(2) show ?case
    using new section_insert_column [OF Cons.prems(1)] by (auto simp: kv add_column_def split: option.splits)
qed simp

lemma sample_to_json_eq:
  "sample_to_json no s = Ok (J_Object
     (let json = section_insert INT_KEY TIME_COLUMN (J_Number (num_from_int no (uint (ss_time s)))) (fold (add_column no) (ss_values s) [])
      in case ss_subset s of Some sub \<Rightarrow> AList.update SUBSET_KEY (J_String sub) json | None \<Rightarrow> json))"
  by (simp add: sample_to_json_def add_column_def Let_def)

lemma only_objects_Nil: "only_objects []"
  by (simp add: only_objects_def)

lemma json_column_update:
  "json_column (AList.update SUBSET_KEY (J_String sub) obj) section key =
     (if section = SUBSET_KEY then None else json_column obj section key)"
  by (simp add: json_column_def update_conv')

section \<open>The builder's store\<close>

definition add_line :: "string \<Rightarrow> nat \<Rightarrow> store \<Rightarrow> store" where
  "add_line line f st = st\<lparr>st_files := (st_files st)[f := st_files st ! f @ line @ [char_of (10::nat)]]\<rparr>"

text \<open>The sample as it is when the decision to log it is made.\<close>

definition stamped_sample :: "64 word \<Rightarrow> builder \<Rightarrow> store \<Rightarrow> scuba_sample" where
  "stamped_sample time b st =
     (let s = sample_set_time time (sb_sample b);
          s = (case sb_seq b of Some (key, a) \<Rightarrow> sample_add key (from_int U64 (uint (st_counters st ! a))) s | None \<Rightarrow> s)
      in snd (sampling_apply sample_set_sample_rate (sb_sampling b) s))"

definition counted :: "builder \<Rightarrow> store \<Rightarrow> store" where
  "counted b st =
     (case sb_seq b of
        Some (key, a) \<Rightarrow> st\<lparr>st_counters := (st_counters st)[a := st_counters st ! a + 1]\<rparr>
      | None \<Rightarrow> st)"

definition json_line :: "('n json \<Rightarrow> string) \<Rightarrow> 'n number_ops \<Rightarrow> scuba_sample \<Rightarrow> string" where
  "json_line print no s = (case sample_to_json no s :: ('n json, unit) result of Ok j \<Rightarrow> print j | Err _ \<Rightarrow> [])"

lemma sample_to_json_ok: "\<exists>j. sample_to_json no s = Ok j"
  by (simp add: sample_to_json_eq)

lemma log_with_time_eq:
  assumes "\<And>f. sb_log_file b = Some f \<Longrightarrow> f < length (st_files st)"
  shows "builder_log_with_time print no (None, None) time b st =
    (let s = stamped_sample time b st; st = counted b st; incl = (sampling_to_result (sb_sampling b) = Include)
     in (incl, b\<lparr>sb_sample := s\<rparr>,
         case sb_log_file b of Some f \<Rightarrow> if incl then add_line (json_line print no s) f st else st | None \<Rightarrow> st))"
proof -
  obtain j where "sample_to_json no (stamped_sample time b st) = (Ok j :: ('a json, unit) result)"
    using sample_to_json_ok [of no "stamped_sample time b st"] by blast
  then show ?thesis using assms
    by (cases "sb_sampling b"; cases "sb_seq b"; cases "sb_log_file b")
      (auto simp: builder_log_with_time_def stamped_sample_def counted_def next_seq_def sampling_apply_def
        sampling_to_result_def file_write_all_def add_line_def json_line_def Let_def)
qed

interpretation sample_rate: sampleable sample_set_sample_rate
  "\<lambda>s. case sample_get ''sample_rate'' s of Some (SV_Int i) \<Rightarrow> Some (word_of_int i) | _ \<Rightarrow> None"
  "\<lambda>s. (ss_time s, ss_subset s, (map_of (ss_values s))(''sample_rate'' := None))"
proof unfold_locales
  fix r :: "64 word" and s
  have "word_of_int (as_type I64 (uint r)) = r"
  proof -
    have "as_type I64 (uint r) mod 2 ^ 64 = uint r mod 2 ^ 64"
      using as_type_cong [of I64 "uint r"] by (simp add: int_bits_def)
    then have "(word_of_int (as_type I64 (uint r)) :: 64 word) = word_of_int (uint r)"
      by (simp only: word_of_int_eq_iff take_bit_eq_mod len_of_numeral_defs(1)) simp
    then show ?thesis by simp
  qed
  then show "(case sample_get ''sample_rate'' (sample_set_sample_rate r s) of Some (SV_Int i) \<Rightarrow> Some (word_of_int i) | _ \<Rightarrow> None) = Some r"
    by (simp add: sample_get_def sample_set_sample_rate_def sample_add_def update_conv' from_int_def)
qed (simp add: sample_set_sample_rate_def sample_add_def update_conv' fun_upd_def fun_eq_iff)

section \<open>Logging sessions\<close>

text \<open>What a program may do to a builder besides logging.\<close>

inductive builder_change :: "builder \<Rightarrow> builder \<Rightarrow> bool" where
  change_add: "builder_change b (builder_add k v b)"
| change_add_opt: "builder_change b (builder_add_opt k vo b)"
| change_remove: "builder_change b (builder_remove k b)"
| change_join: "builder_change b (builder_join_values s b)"
| change_subset: "builder_change b (builder_set_subset sub b)"
| change_clear: "builder_change b (builder_clear_subset b)"
| change_sampled: "builder_sampled checks val rate b = Inr b' \<Longrightarrow> builder_change b b'"
| change_unsampled: "builder_change b (builder_unsampled b)"

text \<open>
  A session starts with one builder; builders are cloned, changed, and log their sample.  The trace
  has the sample of each call of \<open>log_with_time\<close>, with the result of the call.
\<close>

inductive session ::
  "('n json \<Rightarrow> string) \<Rightarrow> 'n number_ops \<Rightarrow> builder \<Rightarrow> store \<Rightarrow> builder list \<times> store \<Rightarrow> (scuba_sample \<times> bool) list \<Rightarrow> bool"
  for print no b0 st0 where
  session_start: "session print no b0 st0 ([b0], st0) []"
| session_clone: "session print no b0 st0 (bs, st) tr \<Longrightarrow> b \<in> set bs \<Longrightarrow> session print no b0 st0 (bs @ [b], st) tr"
| session_change: "session print no b0 st0 (bs, st) tr \<Longrightarrow> i < length bs \<Longrightarrow> builder_change (bs ! i) b \<Longrightarrow>
    session print no b0 st0 (bs[i := b], st) tr"
| session_log: "session print no b0 st0 (bs, st) tr \<Longrightarrow> i < length bs \<Longrightarrow>
    builder_log_with_time print no (None, None) time (bs ! i) st = (r, b, st') \<Longrightarrow>
    session print no b0 st0 (bs[i := b], st') (tr @ [(sb_sample b, r)])"

definition logged_text :: "('n json \<Rightarrow> string) \<Rightarrow> 'n number_ops \<Rightarrow> (scuba_sample \<times> bool) list \<Rightarrow> string" where
  "logged_text print no tr = concat (map (\<lambda>(s, r). if r then json_line print no s @ [char_of (10::nat)] else []) tr)"

definition shares :: "(string \<times> nat) option \<Rightarrow> nat option \<Rightarrow> builder \<Rightarrow> bool" where
  "shares sq f b \<longleftrightarrow> sb_seq b = sq \<and> sb_log_file b = f"

lemma change_shares: "builder_change b b' \<Longrightarrow> shares sq f b \<Longrightarrow> shares sq f b'"
  by (induction rule: builder_change.induct)
    (auto simp: shares_def builder_add_def builder_add_opt_def builder_remove_def builder_join_values_def
      builder_set_subset_def builder_clear_subset_def builder_sampled_def builder_unsampled_def res_bind_eq_Inr)

lemma stamped_seq:
  assumes "sb_seq b = Some (key, a)" "key \<noteq> ''sample_rate''"
  shows "sample_get key (stamped_sample time b st) = Some (from_int U64 (uint (st_counters st ! a)))"
  using assms by (cases "sb_sampling b") (auto simp: stamped_sample_def sampling_apply_def sample_get_def sample_add_def
      sample_set_sample_rate_def sample_set_time_def update_conv' Let_def)

text \<open>The counter and the file after a session are determined by its trace.\<close>

definition session_inv ::
  "('n json \<Rightarrow> string) \<Rightarrow> 'n number_ops \<Rightarrow> store \<Rightarrow> string \<Rightarrow> nat \<Rightarrow> nat \<Rightarrow> builder list \<times> store \<Rightarrow> (scuba_sample \<times> bool) list \<Rightarrow> bool"
  where
  "session_inv print no st0 key a f state tr \<longleftrightarrow>
     (\<forall>b \<in> set (fst state). shares (Some (key, a)) (Some f) b) \<and>
     length (st_counters (snd state)) = length (st_counters st0) \<and> length (st_files (snd state)) = length (st_files st0) \<and>
     st_counters (snd state) ! a = st_counters st0 ! a + of_nat (length tr) \<and>
     st_files (snd state) ! f = st_files st0 ! f @ logged_text print no tr \<and>
     (\<forall>i < length tr. sample_get key (fst (tr ! i)) = Some (from_int U64 (uint (st_counters st0 ! a + of_nat i))))"

lemma session_inv_log:
  assumes inv: "session_inv print no st0 key a f (bs, st) tr" and i: "i < length bs" and key: "key \<noteq> ''sample_rate''"
    and bounds: "a < length (st_counters st0)" "f < length (st_files st0)"
    and log: "builder_log_with_time print no (None, None) time (bs ! i) st = (r, b, st')"
  shows "session_inv print no st0 key a f (bs[i := b], st') (tr @ [(sb_sample b, r)])"
proof -
  from inv i have sh: "sb_seq (bs ! i) = Some (key, a)" "sb_log_file (bs ! i) = Some f"
    by (auto simp: session_inv_def shares_def)
  let ?s = "stamped_sample time (bs ! i) st"
  have res: "b = (bs ! i)\<lparr>sb_sample := ?s\<rparr>"
    "st' = (if r then add_line (json_line print no ?s) f (counted (bs ! i) st) else counted (bs ! i) st)"
    using log log_with_time_eq [of "bs ! i" st print no time] sh inv bounds
    by (auto simp: session_inv_def Let_def)
  have "st_counters st' = (st_counters st)[a := st_counters st ! a + 1]"
    by (simp add: res(2) add_line_def counted_def sh)
  moreover have "st_files st' = (if r then (st_files st)[f := st_files st ! f @ json_line print no ?s @ [char_of (10::nat)]] else st_files st)"
    by (simp add: res(2) add_line_def counted_def sh)
  moreover have "\<forall>b' \<in> set (bs[i := b]). shares (Some (key, a)) (Some f) b'"
    using inv sh by (auto simp: session_inv_def shares_def res(1) dest!: set_update_subset_insert [THEN subsetD])
  moreover have "sample_get key ?s = Some (from_int U64 (uint (st_counters st ! a)))"
    by (rule stamped_seq [OF sh(1) key])
  ultimately show ?thesis
    using inv bounds by (auto simp: session_inv_def logged_text_def res(1) nth_append less_Suc_eq)
qed

lemma session_inv_holds:
  assumes "session print no b0 st0 state tr" "shares (Some (key, a)) (Some f) b0" "key \<noteq> ''sample_rate''"
    and "a < length (st_counters st0)" "f < length (st_files st0)"
  shows "session_inv print no st0 key a f state tr"
  using assms
proof (induction rule: session.induct)
  case session_start
  then show ?case by (simp add: session_inv_def logged_text_def)
next
  case (session_clone bs st tr b)
  then show ?case by (simp add: session_inv_def)
next
  case (session_change bs st tr i b)
  then have "shares (Some (key, a)) (Some f) b" using change_shares by (auto simp: session_inv_def)
  with session_change show ?case
    by (auto simp: session_inv_def dest!: set_update_subset_insert [THEN subsetD])
next
  case (session_log bs st tr i time r b st')
  then show ?case by (intro session_inv_log) simp_all
qed

section \<open>Properties\<close>

text \<open>
  C19. The JSON of a sample does not depend on the order of its hash map: every value stands in the
  section of its type under its key and nowhere else, the column \<open>time\<close> of the integers is the time
  of the sample whatever value was added under this key, and the subset is there exactly when it is set.
\<close>

theorem scuba_to_json_correct:
  assumes "distinct (sample_keys s)"
  shows "\<exists>obj. (sample_to_json no s :: ('n json, 'e) result) = Ok (J_Object obj) \<and>
    (\<forall>sec key. json_column obj sec key =
       (if key = TIME_COLUMN then
          if sec = INT_KEY then Some (J_Number (num_from_int no (uint (ss_time s)))) else None
        else
          (case sample_get key s of
             Some v \<Rightarrow> if section_of v = sec then Some (json_from_value no v) else None
           | None \<Rightarrow> None))) \<and>
    map_of obj SUBSET_KEY = map_option J_String (ss_subset s)"
proof -
  let ?cols = "fold (add_column no) (ss_values s) []"
  let ?json = "section_insert INT_KEY TIME_COLUMN (J_Number (num_from_int no (uint (ss_time s)))) ?cols"
  let ?obj = "case ss_subset s of Some sub \<Rightarrow> AList.update SUBSET_KEY (J_String sub) ?json | None \<Rightarrow> ?json"
  have objs: "only_objects ?cols" by (rule fold_columns_objects [OF only_objects_Nil])
  have cols: "json_column ?cols sec key =
      (case sample_get key s of
         Some v \<Rightarrow> if key \<noteq> TIME_COLUMN \<and> section_of v = sec then Some (json_from_value no v) else None
       | None \<Rightarrow> None)" for sec key
    using fold_columns [OF only_objects_Nil, of "ss_values s" no sec key] assms
    by (simp add: sample_keys_def sample_get_def json_column_def split: option.splits)
  have "json_column ?json SUBSET_KEY key = None" for key
    unfolding section_insert_column [OF objs] cols using section_of_not_subset
    by (auto simp: column_defs split: option.splits)
  then have obj: "json_column ?obj sec key = json_column ?json sec key" for sec key
    by (simp add: json_column_update split: option.splits)
  have "SUBSET_KEY \<noteq> INT_KEY" by (simp add: column_defs)
  then have "map_of ?json SUBSET_KEY = None" by (simp add: section_insert_other fold_columns_subset)
  then have "map_of ?obj SUBSET_KEY = map_option J_String (ss_subset s)"
    by (simp add: update_conv' split: option.splits)
  moreover have "json_column ?obj sec key =
       (if key = TIME_COLUMN then
          if sec = INT_KEY then Some (J_Number (num_from_int no (uint (ss_time s)))) else None
        else
          (case sample_get key s of
             Some v \<Rightarrow> if section_of v = sec then Some (json_from_value no v) else None
           | None \<Rightarrow> None))" for sec key
    unfolding obj section_insert_column [OF objs] cols by (simp split: option.splits)
  ultimately show ?thesis by (intro exI [of _ ?obj]) (simp add: sample_to_json_eq Let_def)
qed

definition sample_two :: scuba_sample where
  "sample_two = sample_set_subset ''x'' (sample_add ''time'' (SV_Normal ''now'') (sample_add ''k'' (SV_Int 3)
     (sample_with_timestamp 7)))"

theorem scuba_to_json_correct_witness:
  "\<exists>obj. (sample_to_json plain_numbers sample_two :: (_, unit) result) = Ok (J_Object obj) \<and>
     json_column obj ''int'' ''k'' = Some (J_Number (Inl 3)) \<and> json_column obj ''int'' ''time'' = Some (J_Number (Inl 7)) \<and>
     json_column obj ''normal'' ''time'' = None \<and> map_of obj ''__subset__'' = Some (J_String ''x'')"
proof -
  have "distinct (sample_keys sample_two)"
    by (simp add: sample_two_def sample_keys_def sample_add_def sample_set_subset_def sample_with_timestamp_def)
  from scuba_to_json_correct [OF this, of plain_numbers] show ?thesis
    by (auto simp: sample_two_def sample_get_def sample_add_def sample_set_subset_def sample_with_timestamp_def
        column_defs section_of_def json_from_value_def plain_numbers_def)
qed


definition start_builder :: builder where
  "start_builder = \<lparr>sb_sample = sample_with_timestamp 0, sb_log_file = Some 0, sb_sampling = NoSampling, sb_seq = Some (''seq'', 0)\<rparr>"

definition start_store :: store where
  "start_store = \<lparr>st_files = [[]], st_counters = [5]\<rparr>"


text \<open>
  \<open>unsampled\<close> reverts the sampling decision but not what it did to the sample: when a sample was
  logged at rate \<open>r\<close>, the next samples that the builder logs without sampling still report the rate \<open>r\<close>.
\<close>

theorem scuba_unsampled_keeps_rate:
  assumes "sb_sampling b = SampledIn r" "\<And>key a. sb_seq b = Some (key, a) \<Longrightarrow> key \<noteq> ''sample_rate''"
    and "builder_log_with_time print no out t b st = (r1, b1, st1)"
    and "builder_log_with_time print no out' t' (builder_unsampled b1) st1 = (r2, b2, st2)"
  shows "r2 \<and> sb_sampling b2 = NoSampling \<and> builder_get ''sample_rate'' b2 = Some (from_int U64 (uint r))"
proof -
  have "sample_get ''sample_rate'' (sb_sample b1) = Some (from_int U64 (uint r)) \<and> sb_seq b1 = sb_seq b"
    using assms(1,3)
    by (auto simp: builder_log_with_time_def sampling_apply_def next_seq_def sample_set_sample_rate_def sample_get_def
        sample_add_def update_conv' Let_def split: prod.splits option.splits result.splits)
  with assms(2,4) show ?thesis
    by (auto simp: builder_log_with_time_def sampling_apply_def next_seq_def sample_get_def builder_get_def
        builder_unsampled_def sample_set_time_def sample_add_def update_conv' Let_def
        split: prod.splits option.splits result.splits)
qed

theorem scuba_unsampled_keeps_rate_witness:
  "\<exists>r2 b2 st2 r1 b1 st1.
     builder_log_with_time (\<lambda>_. ''l'') plain_numbers (None, None) 1 (start_builder\<lparr>sb_sampling := SampledIn 10\<rparr>) start_store = (r1, b1, st1) \<and>
     builder_log_with_time (\<lambda>_. ''l'') plain_numbers (None, None) 2 (builder_unsampled b1) st1 = (r2, b2, st2) \<and>
     builder_get ''sample_rate'' b2 = Some (from_int U64 10)"
proof -
  obtain r1 b1 st1 where l1: "builder_log_with_time (\<lambda>_. ''l'') plain_numbers (None, None) 1 (start_builder\<lparr>sb_sampling := SampledIn 10\<rparr>) start_store = (r1, b1, st1)"
    by (metis prod_cases3)
  obtain r2 b2 st2 where l2: "builder_log_with_time (\<lambda>_. ''l'') plain_numbers (None, None) 2 (builder_unsampled b1) st1 = (r2, b2, st2)"
    by (metis prod_cases3)
  have "builder_get ''sample_rate'' b2 = Some (from_int U64 10)"
    using scuba_unsampled_keeps_rate [OF _ _ l1 l2, of 10] by (simp add: start_builder_def)
  with l1 l2 show ?thesis by blast
qed

end
