(* ===== verification/Ordered_Tree.thy ===== *)
theory Ordered_Tree
  imports Ordered_Stream "HOL-Library.Sublist"
begin

text \<open>
  The execution tree of the ordered stream: what a state has left to yield, read off its tree and its
  jobs; when a tree is well formed; the changes of a tree that keep what is left; and the budgets of
  its nodes.
\<close>


section \<open>The specification\<close>

text \<open>
  The items of a list of outputs and recursions, each recursion replaced by the items of what it
  unfolds into, in order; an input whose unfold fails stands for its error.
\<close>

inductive expand ::
  "('i \<Rightarrow> (('o, 'i) ordered_traversal list, 'e) result) \<Rightarrow> ('o, 'i) ordered_traversal list \<Rightarrow> ('o, 'e) result list \<Rightarrow> bool"
  for f where
  expand_Nil: "expand f [] []"
| expand_Output: "expand f ts os \<Longrightarrow> expand f (Output x # ts) (Ok x # os)"
| expand_Recurse: "f i = Ok us \<Longrightarrow> expand f us os1 \<Longrightarrow> expand f ts os2 \<Longrightarrow> expand f (Recurse w i # ts) (os1 @ os2)"
| expand_Fail: "f i = Err e \<Longrightarrow> expand f ts os \<Longrightarrow> expand f (Recurse w i # ts) (Err e # os)"

inductive_cases expand_NilE: "expand f [] os"
inductive_cases expand_OutputE: "expand f (Output x # ts) os"
inductive_cases expand_RecurseE: "expand f (Recurse w i # ts) os"

text \<open>The items of one input.\<close>

definition input_out :: "('i \<Rightarrow> (('o, 'i) ordered_traversal list, 'e) result) \<Rightarrow> 'i \<Rightarrow> ('o, 'e) result list \<Rightarrow> bool" where
  "input_out f i os \<longleftrightarrow> (case f i of Ok us \<Rightarrow> expand f us os | Err e \<Rightarrow> os = [Err e])"

section \<open>The remaining output of a state\<close>

type_synonym ('o, 'i) node_map = "nat \<Rightarrow> ('o, 'i) os_node option"

text \<open>What a child in a slot of a node will still yield.\<close>

inductive child_out ::
  "('i \<Rightarrow> (('o, 'i) ordered_traversal list, 'e) result) \<Rightarrow> ('o, 'i) node_map \<Rightarrow> (os_location \<times> 'i) set \<Rightarrow>
     nat \<Rightarrow> nat \<Rightarrow> ('o, 'i) child \<Rightarrow> ('o, 'e) result list \<Rightarrow> bool"
  for f t J where
  out_Yielded: "child_out f t J p k Ch_Yielded []"
| out_Output: "child_out f t J p k (Ch_Output x) [Ok x]"
| out_Unscheduled: "input_out f i os \<Longrightarrow> child_out f t J p k (Ch_Unscheduled w i) os"
| out_Pending: "(node_location_new p k, i) \<in> J \<Longrightarrow> input_out f i os \<Longrightarrow> child_out f t J p k (Ch_Pending w) os"
| out_Node: "t j = Some node \<Longrightarrow> length oss = length (os_children node) \<Longrightarrow>
    (\<And>m. m < length oss \<Longrightarrow> child_out f t J j m (os_children node ! m) (oss ! m)) \<Longrightarrow>
    child_out f t J p k (Ch_Node w j) (concat oss)"

inductive_cases out_YieldedE: "child_out f t J p k Ch_Yielded os"
inductive_cases out_OutputE: "child_out f t J p k (Ch_Output x) os"
inductive_cases out_UnscheduledE: "child_out f t J p k (Ch_Unscheduled w i) os"
inductive_cases out_PendingE: "child_out f t J p k (Ch_Pending w) os"
inductive_cases out_NodeE: "child_out f t J p k (Ch_Node w j) os"

text \<open>The children of a node from a slot on.\<close>

definition kids_out ::
  "('i \<Rightarrow> (('o, 'i) ordered_traversal list, 'e) result) \<Rightarrow> ('o, 'i) node_map \<Rightarrow> (os_location \<times> 'i) set \<Rightarrow>
     nat \<Rightarrow> nat \<Rightarrow> ('o, 'i) child list \<Rightarrow> ('o, 'e) result list \<Rightarrow> bool" where
  "kids_out f t J p k cs os \<longleftrightarrow>
     (\<exists>oss. length oss = length cs \<and> (\<forall>m. k \<le> m \<and> m < length cs \<longrightarrow> child_out f t J p m (cs ! m) (oss ! m)) \<and>
        os = concat (drop k oss))"

lemma kids_out_end: "length cs \<le> k \<Longrightarrow> kids_out f t J p k cs os \<longleftrightarrow> os = []"
  by (auto simp: kids_out_def intro: exI [of _ "map (\<lambda>_. []) cs"])

lemma kids_out_step:
  assumes "k < length cs"
  shows "kids_out f t J p k cs os \<longleftrightarrow>
    (\<exists>os1 os2. child_out f t J p k (cs ! k) os1 \<and> kids_out f t J p (Suc k) cs os2 \<and> os = os1 @ os2)"
proof
  assume "kids_out f t J p k cs os"
  then obtain oss where oss: "length oss = length cs"
    "\<forall>m. k \<le> m \<and> m < length cs \<longrightarrow> child_out f t J p m (cs ! m) (oss ! m)" "os = concat (drop k oss)"
    by (auto simp: kids_out_def)
  then have "os = oss ! k @ concat (drop (Suc k) oss)" using assms by (simp add: Cons_nth_drop_Suc [symmetric])
  moreover have "kids_out f t J p (Suc k) cs (concat (drop (Suc k) oss))"
    using oss by (auto simp: kids_out_def)
  ultimately show "\<exists>os1 os2. child_out f t J p k (cs ! k) os1 \<and> kids_out f t J p (Suc k) cs os2 \<and> os = os1 @ os2"
    using oss(2) assms by blast
next
  assume "\<exists>os1 os2. child_out f t J p k (cs ! k) os1 \<and> kids_out f t J p (Suc k) cs os2 \<and> os = os1 @ os2"
  then obtain os1 oss where h: "child_out f t J p k (cs ! k) os1" "length oss = length cs"
    "\<forall>m. Suc k \<le> m \<and> m < length cs \<longrightarrow> child_out f t J p m (cs ! m) (oss ! m)" "os = os1 @ concat (drop (Suc k) oss)"
    by (auto simp: kids_out_def)
  have "drop k (oss[k := os1]) = os1 # drop (Suc k) oss"
    using h(2) assms by (simp add: Cons_nth_drop_Suc [symmetric])
  then have "os = concat (drop k (oss[k := os1]))" using h(4) by simp
  moreover have "child_out f t J p m (cs ! m) (oss[k := os1] ! m)" if "k \<le> m" "m < length cs" for m
    using that h by (cases "m = k") auto
  ultimately show "kids_out f t J p k cs os"
    unfolding kids_out_def using h(2) by (intro exI [of _ "oss[k := os1]"]) simp
qed

lemma kids_out_mono:
  assumes "kids_out f t J p k cs os" "length cs' = length cs"
    and "\<And>m os. k \<le> m \<Longrightarrow> m < length cs \<Longrightarrow> child_out f t J p m (cs ! m) os \<Longrightarrow> child_out f t' J' p m (cs' ! m) os"
  shows "kids_out f t' J' p k cs' os"
  using assms unfolding kids_out_def by metis

lemma out_Node_iff: "child_out f t J p k (Ch_Node w j) os \<longleftrightarrow> (\<exists>node. t j = Some node \<and> kids_out f t J j 0 (os_children node) os)"
proof
  assume "child_out f t J p k (Ch_Node w j) os"
  then show "\<exists>node. t j = Some node \<and> kids_out f t J j 0 (os_children node) os"
    by (rule out_NodeE) (auto simp: kids_out_def)
next
  assume "\<exists>node. t j = Some node \<and> kids_out f t J j 0 (os_children node) os"
  then show "child_out f t J p k (Ch_Node w j) os"
    by (auto simp: kids_out_def intro: out_Node)
qed

text \<open>
  Changing the tree keeps what the children yield, when each slot that is looked at either keeps
  its node, with slots that are kept in turn, or means the same as before.
\<close>

lemma child_out_transfer:
  assumes slot: "\<And>q m c c' os. crel q m c c' \<Longrightarrow> child_out f t J q m c os \<Longrightarrow>
      child_out f t' J' q m c' os \<or>
      (\<exists>w w' j node node'. c = Ch_Node w j \<and> c' = Ch_Node w' j \<and> t j = Some node \<and> t' j = Some node' \<and>
         length (os_children node') = length (os_children node) \<and>
         (\<forall>i < length (os_children node). crel j i (os_children node ! i) (os_children node' ! i)))"
  shows "child_out f t J p k c os \<Longrightarrow> crel p k c c' \<Longrightarrow> child_out f t' J' p k c' os"
proof (induction arbitrary: c' rule: child_out.induct)
  case (out_Node j node oss p k w)
  have "child_out f t J p k (Ch_Node w j) (concat oss)"
    using out_Node.hyps by (intro child_out.out_Node) auto
  from slot [OF out_Node.prems this] show ?case
  proof
    assume "\<exists>v w' j' nodea node'. Ch_Node w j = Ch_Node v j' \<and> c' = Ch_Node w' j' \<and> t j' = Some nodea \<and> t' j' = Some node' \<and>
         length (os_children node') = length (os_children nodea) \<and>
         (\<forall>i < length (os_children nodea). crel j' i (os_children nodea ! i) (os_children node' ! i))"
    then obtain w' node' where c': "c' = Ch_Node w' j" "t' j = Some node'"
      "length (os_children node') = length (os_children node)"
      "\<forall>i < length (os_children node). crel j i (os_children node ! i) (os_children node' ! i)"
      using out_Node.hyps(1) by auto
    then show ?thesis using out_Node by (auto intro!: child_out.out_Node)
  qed
next
  case (out_Yielded p k)
  from slot [OF out_Yielded child_out.out_Yielded] show ?case by auto
next
  case (out_Output p k x)
  from slot [OF out_Output child_out.out_Output] show ?case by auto
next
  case (out_Unscheduled i os p k w)
  from slot [OF out_Unscheduled(2) child_out.out_Unscheduled [OF out_Unscheduled(1)]] show ?case by auto
next
  case (out_Pending p k i os w)
  from slot [OF out_Pending(3) child_out.out_Pending [OF out_Pending(1,2)]] show ?case by auto
qed

section \<open>The execution tree\<close>

text \<open>
  The root has index zero, parents and children know each other, a child has a higher index than
  its parent, and the weights of every node add up.
\<close>

definition wf_tree :: "('o, 'i) node_map \<Rightarrow> bool" where
  "wf_tree t \<longleftrightarrow> finite (dom t) \<and>
     (\<forall>j node. t j = Some node \<longrightarrow> weights_ok node \<and>
        (case os_parent node of
           None \<Rightarrow> j = 0
         | Some l \<Rightarrow> node_index l < j \<and> (\<exists>pn w. t (node_index l) = Some pn \<and>
             child_index l < length (os_children pn) \<and> os_children pn ! child_index l = Ch_Node w j))) \<and>
     (\<forall>p pn k w j. t p = Some pn \<longrightarrow> k < length (os_children pn) \<longrightarrow> os_children pn ! k = Ch_Node w j \<longrightarrow>
        (\<exists>node. t j = Some node \<and> os_parent node = Some (node_location_new p k)))"

lemma wf_weights: "wf_tree t \<Longrightarrow> t j = Some node \<Longrightarrow> weights_ok node"
  by (simp add: wf_tree_def)

lemma wf_node:
  assumes "wf_tree t" "t j = Some node"
  shows "case os_parent node of
      None \<Rightarrow> j = 0
    | Some l \<Rightarrow> node_index l < j \<and> (\<exists>pn w. t (node_index l) = Some pn \<and>
        child_index l < length (os_children pn) \<and> os_children pn ! child_index l = Ch_Node w j)"
  using assms unfolding wf_tree_def by blast

lemma wf_root: "wf_tree t \<Longrightarrow> t j = Some node \<Longrightarrow> os_parent node = None \<Longrightarrow> j = 0"
  by (drule (1) wf_node) simp

lemma wf_parent:
  assumes "wf_tree t" "t j = Some node" "os_parent node = Some l"
  obtains pn w where "node_index l < j" "t (node_index l) = Some pn" "child_index l < length (os_children pn)"
    "os_children pn ! child_index l = Ch_Node w j"
  using wf_node [OF assms(1,2)] assms(3) by auto

lemma wf_child:
  assumes "wf_tree t" "t p = Some pn" "k < length (os_children pn)" "os_children pn ! k = Ch_Node w j"
  obtains node where "t j = Some node" "os_parent node = Some (node_location_new p k)" "p < j"
proof -
  obtain node where n: "t j = Some node" "os_parent node = Some (node_location_new p k)"
    using assms unfolding wf_tree_def by blast
  from wf_parent [OF assms(1) n] have "p < j" by (auto simp: node_location_new_def)
  with n that show ?thesis by blast
qed

lemma location_eta [simp]: "node_location_new (node_index l) (child_index l) = (l :: os_location)"
  by (simp add: node_location_new_def)

lemma node_location_sel [simp]: "node_index (node_location_new p k) = p" "child_index (node_location_new p k) = k"
  by (simp_all add: node_location_new_def)

text \<open>Every pending child has exactly one job, and every job belongs to a pending child.\<close>

definition jobs_ok :: "('o, 'i) node_map \<Rightarrow> (os_location \<times> 'i) list \<Rightarrow> bool" where
  "jobs_ok t js \<longleftrightarrow> distinct (map fst js) \<and>
     (\<forall>l \<in> fst ` set js. \<exists>pn w. t (node_index l) = Some pn \<and> child_index l < length (os_children pn) \<and>
        os_children pn ! child_index l = Ch_Pending w)"

text \<open>The slots above a node, up to the root, with what comes after them.\<close>

inductive above ::
  "('i \<Rightarrow> (('o, 'i) ordered_traversal list, 'e) result) \<Rightarrow> ('o, 'i) node_map \<Rightarrow> (os_location \<times> 'i) set \<Rightarrow>
     os_location option \<Rightarrow> os_location list \<Rightarrow> ('o, 'e) result list \<Rightarrow> bool"
  for f t J where
  above_root: "above f t J None [] []"
| above_slot: "t (node_index l) = Some node \<Longrightarrow> child_index l < length (os_children node) \<Longrightarrow>
    (\<forall>i < child_index l. os_children node ! i = Ch_Yielded) \<Longrightarrow>
    kids_out f t J (node_index l) (Suc (child_index l)) (os_children node) os1 \<Longrightarrow>
    above f t J (os_parent node) ls os2 \<Longrightarrow> above f t J (Some l) (l # ls) (os1 @ os2)"

inductive_cases above_rootE: "above f t J None ls os"
inductive_cases above_slotE: "above f t J (Some l) ls os"

text \<open>What is left to yield from a slot of a node on, all before it being yielded.\<close>

definition loc_out ::
  "('i \<Rightarrow> (('o, 'i) ordered_traversal list, 'e) result) \<Rightarrow> ('o, 'i) node_map \<Rightarrow> (os_location \<times> 'i) set \<Rightarrow>
     nat \<Rightarrow> nat \<Rightarrow> os_location list \<Rightarrow> ('o, 'e) result list \<Rightarrow> bool" where
  "loc_out f t J p k ls os \<longleftrightarrow>
     (\<exists>node os1 os2. t p = Some node \<and> k \<le> length (os_children node) \<and>
        (\<forall>i < k. os_children node ! i = Ch_Yielded) \<and> kids_out f t J p k (os_children node) os1 \<and>
        above f t J (os_parent node) ls os2 \<and> os = os1 @ os2)"

lemma above_below:
  assumes "wf_tree t" "above f t J lo ls os"
  shows "lo = Some l \<Longrightarrow> sorted_wrt (\<lambda>a b. node_index b < node_index a) ls \<and> hd ls = l \<and> ls \<noteq> [] \<and>
    (\<forall>x \<in> set ls. node_index x \<le> node_index l \<and> t (node_index x) \<noteq> None)"
  using assms(2)
proof (induction arbitrary: l rule: above.induct)
  case above_root
  then show ?case by simp
next
  case (above_slot l' node os1 ls os2)
  then have l: "l' = l" by simp
  show ?case
  proof (cases "os_parent node")
    case None
    with above_slot.hyps(5) have "ls = []" by (auto elim: above_rootE)
    with l above_slot.hyps(1) show ?thesis by simp
  next
    case (Some l2)
    obtain pn w where "node_index l2 < node_index l'" using wf_parent [OF assms(1) above_slot.hyps(1) Some] by blast
    with above_slot.IH [OF Some] l above_slot.hyps(1) show ?thesis by fastforce
  qed
qed

lemma above_distinct:
  assumes "wf_tree t" "above f t J lo ls os"
  shows "distinct (map node_index ls)" "node_index ` set ls \<subseteq> dom t"
proof -
  have "distinct (map node_index ls) \<and> node_index ` set ls \<subseteq> dom t"
  proof (cases lo)
    case None
    with assms(2) show ?thesis by (auto elim: above_rootE)
  next
    case (Some l)
    from above_below [OF assms Some] have "sorted_wrt (\<lambda>a b. node_index b < node_index a) ls"
      "node_index ` set ls \<subseteq> dom t" by auto
    moreover from this(1) have "distinct (map node_index ls)" by (induction ls) auto
    ultimately show ?thesis by blast
  qed
  then show "distinct (map node_index ls)" "node_index ` set ls \<subseteq> dom t" by blast+
qed

lemma above_card:
  assumes "wf_tree t" "above f t J lo ls os"
  shows "length ls \<le> card (dom t)"
proof -
  have "length ls = card (node_index ` set ls)"
    using above_distinct(1) [OF assms] by (metis distinct_card length_map set_map)
  also have "\<dots> \<le> card (dom t)"
    using above_distinct(2) [OF assms] assms(1) by (intro card_mono) (auto simp: wf_tree_def)
  finally show ?thesis .
qed

section \<open>Steps that keep the remaining output\<close>

lemma loc_transfer:
  assumes slot: "\<And>q m c c' os. crel q m c c' \<Longrightarrow> child_out f t J q m c os \<Longrightarrow>
      child_out f t' J' q m c' os \<or> (\<exists>w w' j. c = Ch_Node w j \<and> c' = Ch_Node w' j)"
    and nodes: "\<And>j node. t j = Some node \<Longrightarrow> \<exists>node'. t' j = Some node' \<and> os_parent node' = os_parent node \<and>
      length (os_children node') = length (os_children node) \<and>
      (\<forall>i < length (os_children node). crel j i (os_children node ! i) (os_children node' ! i))"
    and yielded: "\<And>q m c'. crel q m Ch_Yielded c' \<Longrightarrow> c' = Ch_Yielded"
  shows "loc_out f t J p k ls os \<Longrightarrow> loc_out f t' J' p k ls os"
    and "above f t J lo ls os \<Longrightarrow> above f t' J' lo ls os"
proof -
  have child: "child_out f t' J' q m c' os" if "child_out f t J q m c os" "crel q m c c'" for q m c c' os
  proof (rule child_out_transfer [of crel f t J t' J', OF _ that])
    fix q m c c' os assume h: "crel q m c c'" "child_out f t J q m c os"
    show "child_out f t' J' q m c' os \<or>
      (\<exists>w w' j node node'. c = Ch_Node w j \<and> c' = Ch_Node w' j \<and> t j = Some node \<and> t' j = Some node' \<and>
         length (os_children node') = length (os_children node) \<and>
         (\<forall>i < length (os_children node). crel j i (os_children node ! i) (os_children node' ! i)))"
      using slot [OF h]
    proof
      assume "\<exists>w w' j. c = Ch_Node w j \<and> c' = Ch_Node w' j"
      then obtain w w' j where c: "c = Ch_Node w j" "c' = Ch_Node w' j" by blast
      with h(2) obtain node where node: "t j = Some node" by (auto elim: out_NodeE)
      with c nodes [OF node] show ?thesis by blast
    qed blast
  qed
  have kids: "kids_out f t' J' q m (os_children node') os"
    if "kids_out f t J q m (os_children node) os" "length (os_children node') = length (os_children node)"
      "\<forall>i < length (os_children node). crel q i (os_children node ! i) (os_children node' ! i)" for q m node node' os
    using that(1,2) by (rule kids_out_mono) (use that(3) child in blast)
  have up: "above f t' J' lo ls os" if "above f t J lo ls os" for lo ls os
    using that
  proof (induction rule: above.induct)
    case (above_slot l node os1 ls os2)
    from nodes [OF above_slot.hyps(1)] obtain node' where n: "t' (node_index l) = Some node'"
      "os_parent node' = os_parent node" "length (os_children node') = length (os_children node)"
      "\<forall>i < length (os_children node). crel (node_index l) i (os_children node ! i) (os_children node' ! i)" by blast
    have "\<forall>i < child_index l. os_children node' ! i = Ch_Yielded"
      using above_slot.hyps(2,3) n(4) yielded by (metis less_trans)
    with above_slot n kids [OF above_slot.hyps(4) n(3,4)] show ?case
      by (intro above.above_slot [where node = node']) auto
  qed (rule above.above_root)
  show "above f t J lo ls os \<Longrightarrow> above f t' J' lo ls os" by (rule up)
  assume "loc_out f t J p k ls os"
  then obtain node os1 os2 where l: "t p = Some node" "k \<le> length (os_children node)"
    "\<forall>i < k. os_children node ! i = Ch_Yielded" "kids_out f t J p k (os_children node) os1"
    "above f t J (os_parent node) ls os2" "os = os1 @ os2" by (auto simp: loc_out_def)
  from nodes [OF l(1)] obtain node' where n: "t' p = Some node'"
    "os_parent node' = os_parent node" "length (os_children node') = length (os_children node)"
    "\<forall>i < length (os_children node). crel p i (os_children node ! i) (os_children node' ! i)" by blast
  have "\<forall>i < k. os_children node' ! i = Ch_Yielded"
    using l(2,3) n(4) yielded by (metis less_le_trans)
  with l n kids [OF l(4) n(3,4)] up [OF l(5)] show "loc_out f t' J' p k ls os" by (auto simp: loc_out_def)
qed

subsection \<open>Scheduling and budgets\<close>

definition upd_slot :: "(os_location \<times> 'i) list \<Rightarrow> nat \<Rightarrow> nat \<Rightarrow> nat \<Rightarrow> ('o, 'i) child \<Rightarrow> ('o, 'i) child \<Rightarrow> bool" where
  "upd_slot js p q m c c' \<longleftrightarrow> (if q = p then slot_rel js p m c c' else c' = c)"

lemma child_out_jobs_mono: "child_out f t J p k c os \<Longrightarrow> J \<subseteq> J' \<Longrightarrow> \<forall>w j. c \<noteq> Ch_Node w j \<Longrightarrow> child_out f t' J' p k c os"
  by (induction rule: child_out.induct) (auto intro: child_out.intros)

lemma update_slot:
  assumes "J \<subseteq> J'" "set js \<subseteq> J'" "upd_slot js p q m c c'" "child_out f t J q m c os"
  shows "child_out f t' J' q m c' os \<or> (\<exists>w w' j. c = Ch_Node w j \<and> c' = Ch_Node w' j)"
proof (cases "c' = c")
  case True
  then show ?thesis using child_out_jobs_mono [OF assms(4,1)] by (cases c) auto
next
  case False
  with assms(3) have "q = p" "slot_rel js p m c c'" by (auto simp: upd_slot_def split: if_splits)
  with False consider "\<exists>w w' j. c = Ch_Node w j \<and> c' = Ch_Node w' j"
    | w i where "c = Ch_Unscheduled w i" "c' = Ch_Pending w" "(node_location_new p m, i) \<in> set js"
    by (auto simp: slot_rel_def)
  then show ?thesis
  proof cases
    case (2 w i)
    with assms(4) have "input_out f i os" by (auto elim: out_UnscheduledE)
    with 2 assms(2) \<open>q = p\<close> show ?thesis by (auto intro: out_Pending)
  qed blast
qed

lemma update_nodes:
  assumes "t p = Some node" "node_rel js p node node'" "t j = Some n"
  shows "\<exists>node''. (t(p \<mapsto> node')) j = Some node'' \<and> os_parent node'' = os_parent n \<and>
      length (os_children node'') = length (os_children n) \<and>
      (\<forall>i < length (os_children n). upd_slot js p j i (os_children n ! i) (os_children node'' ! i))"
  using assms by (auto simp: node_rel_def upd_slot_def)

lemma update_yielded: "upd_slot js p q m Ch_Yielded c' \<Longrightarrow> c' = Ch_Yielded"
  by (auto simp: upd_slot_def slot_rel_def split: if_splits)

lemma update_out:
  assumes "t p = Some node" "node_rel js p node node'" "J \<subseteq> J'" "set js \<subseteq> J'"
  shows "loc_out f t J q k ls os \<Longrightarrow> loc_out f (t(p \<mapsto> node')) J' q k ls os"
    and "above f t J lo ls os \<Longrightarrow> above f (t(p \<mapsto> node')) J' lo ls os"
proof -
  note slot = update_slot [OF assms(3,4), where t = t and t' = "t(p \<mapsto> node')" and f = f and p = p]
  note nodes = update_nodes [of t p node js node', OF assms(1,2)]
  note tr = loc_transfer [where crel = "upd_slot js p" and t = t and t' = "t(p \<mapsto> node')" and J = J and J' = J' and f = f]
  show "loc_out f t J q k ls os \<Longrightarrow> loc_out f (t(p \<mapsto> node')) J' q k ls os"
    by (rule tr(1)) (use slot nodes update_yielded in blast)+
  show "above f t J lo ls os \<Longrightarrow> above f (t(p \<mapsto> node')) J' lo ls os"
    by (rule tr(2)) (use slot nodes update_yielded in blast)+
qed

text \<open>The same parent, and the same nodes in the same slots.\<close>

definition same_nodes :: "('o, 'i) os_node \<Rightarrow> ('o, 'i) os_node \<Rightarrow> bool" where
  "same_nodes node node' \<longleftrightarrow> os_parent node' = os_parent node \<and> length (os_children node') = length (os_children node) \<and>
     (\<forall>k < length (os_children node). \<forall>j.
        (\<exists>w. os_children node' ! k = Ch_Node w j) \<longleftrightarrow> (\<exists>w. os_children node ! k = Ch_Node w j))"

lemma node_rel_same: "node_rel js p node node' \<Longrightarrow> same_nodes node node'"
proof -
  assume h: "node_rel js p node node'"
  have "(\<exists>w. os_children node' ! k = Ch_Node w j) \<longleftrightarrow> (\<exists>w. os_children node ! k = Ch_Node w j)"
    if "k < length (os_children node)" for k j
  proof -
    from h that have "slot_rel js p k (os_children node ! k) (os_children node' ! k)" by (simp add: node_rel_def)
    then show ?thesis by (cases "os_children node ! k") (auto simp: slot_rel_def)
  qed
  with h show ?thesis by (simp add: same_nodes_def node_rel_def)
qed

lemma update_wf:
  assumes "wf_tree t" "t p = Some node" "same_nodes node node'" "weights_ok node'"
  shows "wf_tree (t(p \<mapsto> node'))"
  unfolding wf_tree_def
proof (intro conjI allI impI)
  show "finite (dom (t(p \<mapsto> node')))" using assms(1) by (simp add: wf_tree_def)
next
  fix j n assume j: "(t(p \<mapsto> node')) j = Some n"
  then show "weights_ok n" using assms(4) wf_weights [OF assms(1)] by (auto split: if_splits)
  obtain n0 where n0: "t j = Some n0" "os_parent n = os_parent n0"
    using j assms(2,3) by (auto simp: same_nodes_def split: if_splits)
  show "case os_parent n of
      None \<Rightarrow> j = 0
    | Some l \<Rightarrow> node_index l < j \<and> (\<exists>pn w. (t(p \<mapsto> node')) (node_index l) = Some pn \<and>
        child_index l < length (os_children pn) \<and> os_children pn ! child_index l = Ch_Node w j)"
  proof (cases "os_parent n")
    case (Some l)
    with n0 wf_parent [OF assms(1) n0(1)] obtain pn w where l: "node_index l < j" "t (node_index l) = Some pn"
      "child_index l < length (os_children pn)" "os_children pn ! child_index l = Ch_Node w j" by metis
    show ?thesis
    proof (cases "node_index l = p")
      case True
      with l assms(2) have "pn = node" by simp
      with assms(3) l(3,4) have "\<exists>w. os_children node' ! child_index l = Ch_Node w j"
        "length (os_children node') = length (os_children pn)" unfolding same_nodes_def by blast+
      with True l Some show ?thesis by auto
    qed (use l Some in auto)
  qed (use n0 wf_root [OF assms(1)] in auto)
next
  fix q pn k w j assume h: "(t(p \<mapsto> node')) q = Some pn" "k < length (os_children pn)" "os_children pn ! k = Ch_Node w j"
  obtain pn0 w0 where pn0: "t q = Some pn0" "k < length (os_children pn0)" "os_children pn0 ! k = Ch_Node w0 j"
  proof (cases "q = p")
    case True
    with h assms(3) have "\<exists>w. os_children node ! k = Ch_Node w j" "k < length (os_children node)"
      unfolding same_nodes_def by auto
    with True assms(2) that show ?thesis by blast
  qed (use h that in auto)
  obtain n where "t j = Some n" "os_parent n = Some (node_location_new q k)" using wf_child [OF assms(1) pn0] by blast
  then show "\<exists>n. (t(p \<mapsto> node')) j = Some n \<and> os_parent n = Some (node_location_new q k)"
    using assms(2,3) by (auto simp: same_nodes_def)
qed

lemma keep_jobs:
  assumes "jobs_ok t J" "t p = Some node" "length (os_children node') = length (os_children node)"
    and "\<And>k w. k < length (os_children node) \<Longrightarrow> os_children node ! k = Ch_Pending w \<Longrightarrow> os_children node' ! k = Ch_Pending w"
  shows "jobs_ok (t(p \<mapsto> node')) J"
  unfolding jobs_ok_def
proof (intro conjI ballI)
  show "distinct (map fst J)" using assms(1) by (simp add: jobs_ok_def)
  fix l assume "l \<in> fst ` set J"
  with assms(1) obtain pn w where pn: "t (node_index l) = Some pn" "child_index l < length (os_children pn)"
    "os_children pn ! child_index l = Ch_Pending w" unfolding jobs_ok_def by blast
  then show "\<exists>pn w. (t(p \<mapsto> node')) (node_index l) = Some pn \<and> child_index l < length (os_children pn) \<and>
      os_children pn ! child_index l = Ch_Pending w"
    using assms(2-4) by (cases "node_index l = p") auto
qed

lemma delete_jobs:
  assumes "jobs_ok t J" "t p = Some node" "\<forall>m < length (os_children node). os_children node ! m = Ch_Yielded"
  shows "jobs_ok (t(p := None)) J"
  unfolding jobs_ok_def
proof (intro conjI ballI)
  show "distinct (map fst J)" using assms(1) by (simp add: jobs_ok_def)
  fix l assume "l \<in> fst ` set J"
  with assms(1) obtain pn w where pn: "t (node_index l) = Some pn" "child_index l < length (os_children pn)"
    "os_children pn ! child_index l = Ch_Pending w" unfolding jobs_ok_def by blast
  moreover have "node_index l \<noteq> p" using pn assms(2,3) by auto
  ultimately show "\<exists>pn w. (t(p := None)) (node_index l) = Some pn \<and> child_index l < length (os_children pn) \<and>
      os_children pn ! child_index l = Ch_Pending w" by simp
qed

lemma update_jobs:
  assumes "jobs_ok t J" "t p = Some node" "node_rel js p node node'" "mset J' = mset J + mset js"
  shows "jobs_ok (t(p \<mapsto> node')) J'"
proof -
  have sets: "set J' = set J \<union> set js" using assms(4) by (metis set_mset_mset set_mset_union)
  have "fst ` set J \<inter> fst ` set js = {}"
  proof -
    have "l \<notin> fst ` set js" if "l \<in> fst ` set J" for l
    proof
      assume "l \<in> fst ` set js"
      then obtain k w i where "l = node_location_new p k" "os_children node ! k = Ch_Unscheduled w i"
        using assms(3) by (fastforce simp: node_rel_def)
      with that assms(1,2) show False by (fastforce simp: jobs_ok_def)
    qed
    then show ?thesis by blast
  qed
  with assms(1,3) have "distinct (map fst (J @ js))" by (auto simp: jobs_ok_def node_rel_def)
  moreover have "mset (map fst J') = mset (map fst (J @ js))" using assms(4) by simp
  ultimately have "distinct (map fst J')" by (metis mset_eq_imp_distinct_iff)
  moreover have "\<exists>pn w. (t(p \<mapsto> node')) (node_index l) = Some pn \<and> child_index l < length (os_children pn) \<and>
      os_children pn ! child_index l = Ch_Pending w" if "l \<in> fst ` set J'" for l
  proof (cases "l \<in> fst ` set J")
    case True
    with assms(1) obtain pn w where pn: "t (node_index l) = Some pn" "child_index l < length (os_children pn)"
      "os_children pn ! child_index l = Ch_Pending w" unfolding jobs_ok_def by blast
    show ?thesis
    proof (cases "node_index l = p")
      case eq: True
      with pn assms(2) have "pn = node" by simp
      with assms(3) pn(2,3) have "slot_rel js p (child_index l) (Ch_Pending w) (os_children node' ! child_index l)"
        "length (os_children node') = length (os_children pn)" unfolding node_rel_def by metis+
      with eq pn show ?thesis by (auto simp: slot_rel_def)
    qed (use pn in auto)
  next
    case False
    with that sets have "l \<in> fst ` set js" by auto
    then obtain k w i where "l = node_location_new p k" "k < length (os_children node)" "os_children node' ! k = Ch_Pending w"
      using assms(3) by (fastforce simp: node_rel_def)
    with assms(3) show ?thesis by (auto simp: node_rel_def)
  qed
  ultimately show ?thesis by (simp add: jobs_ok_def)
qed

subsection \<open>Changes on the path to the root\<close>

text \<open>
  A change of nodes in \<open>B\<close> only, where the slots that hold them are all in \<open>P\<close>, at most one slot of
  each node.
\<close>

definition path_change ::
  "('o, 'i) node_map \<Rightarrow> ('o, 'i) node_map \<Rightarrow> nat set \<Rightarrow> os_location set \<Rightarrow> bool" where
  "path_change t t' B P \<longleftrightarrow> wf_tree t \<and> (\<forall>j. j \<notin> B \<longrightarrow> t' j = t j) \<and>
     (\<forall>j \<in> B. \<forall>n l. t j = Some n \<longrightarrow> os_parent n = Some l \<longrightarrow> l \<in> P) \<and> node_index ` P \<subseteq> B \<and> inj_on node_index P"

lemma off_slot:
  assumes "path_change t t' B P" "t q = Some n" "m < length (os_children n)" "os_children n ! m = Ch_Node w j"
    and "node_location_new q m \<notin> P"
  shows "j \<notin> B"
proof
  assume j: "j \<in> B"
  have wf: "wf_tree t" using assms(1) by (simp add: path_change_def)
  obtain nj where "t j = Some nj" "os_parent nj = Some (node_location_new q m)"
    using wf_child [OF wf assms(2-4)] by blast
  with assms(1,5) j show False unfolding path_change_def by blast
qed

lemma child_out_off:
  assumes "path_change t t' B P"
  shows "child_out f t J p k c os \<Longrightarrow> (\<And>w j. c = Ch_Node w j \<Longrightarrow> j \<notin> B) \<Longrightarrow> child_out f t' J p k c os"
proof (induction rule: child_out.induct)
  case (out_Node j node oss p k w)
  then have j: "j \<notin> B" by blast
  with out_Node.hyps(1) assms have t': "t' j = Some node" by (simp add: path_change_def)
  have "child_out f t' J j m (os_children node ! m) (oss ! m)" if m: "m < length oss" for m
  proof (rule out_Node.IH [OF m])
    fix w' j' assume "os_children node ! m = Ch_Node w' j'"
    moreover have "node_location_new j m \<notin> P" using j assms by (auto simp: path_change_def)
    ultimately show "j' \<notin> B" using off_slot [OF assms out_Node.hyps(1)] m out_Node.hyps(2) by auto
  qed
  with t' out_Node.hyps(2) show ?case by (auto intro: child_out.out_Node)
qed (auto intro: child_out.intros)

lemma kids_out_off:
  assumes "path_change t t' B P" "t q = Some n" "kids_out f t J q k (os_children n) os"
    and "\<And>m. k \<le> m \<Longrightarrow> node_location_new q m \<notin> P"
  shows "kids_out f t' J q k (os_children n) os"
  using assms(3) by (rule kids_out_mono) (use assms(4) off_slot [OF assms(1,2)] child_out_off [OF assms(1)] in blast)+

lemma above_off:
  assumes "path_change t t' B P"
  shows "above f t J lo ls os \<Longrightarrow> set ls \<subseteq> P \<Longrightarrow> (\<And>x. x \<in> set ls \<Longrightarrow> t' (node_index x) = t (node_index x)) \<Longrightarrow>
    above f t' J lo ls os"
proof (induction rule: above.induct)
  case (above_slot l node os1 ls os2)
  have "node_location_new (node_index l) m \<notin> P" if "Suc (child_index l) \<le> m" for m
  proof
    assume "node_location_new (node_index l) m \<in> P"
    with above_slot.prems(1) assms have "node_location_new (node_index l) m = l"
      unfolding path_change_def inj_on_def by (metis list.set_intros(1) node_location_sel(1) subsetD)
    then have "child_index (node_location_new (node_index l) m) = child_index l" by simp
    with that show False by simp
  qed
  from kids_out_off [OF assms above_slot.hyps(1,4) this]
  have "kids_out f t' J (node_index l) (Suc (child_index l)) (os_children node) os1" .
  with above_slot show ?case by (intro above.above_slot [where node = node]) auto
qed (rule above.above_root)

lemma above_closed:
  "above f t J lo ls os \<Longrightarrow> (\<forall>l. lo = Some l \<longrightarrow> l \<in> set ls) \<and>
     (\<forall>x \<in> set ls. \<forall>n l. t (node_index x) = Some n \<longrightarrow> os_parent n = Some l \<longrightarrow> l \<in> set ls)"
  by (induction rule: above.induct) auto

lemma above_inj:
  "wf_tree t \<Longrightarrow> above f t J lo ls os \<Longrightarrow> inj_on node_index (set ls)"
  using above_distinct(1) by (metis distinct_map)

text \<open>The path from a node to the root.\<close>

lemma path_changeI:
  assumes "wf_tree t" "t p = Some node" "above f t J (os_parent node) ls os"
    and "\<And>j. j \<notin> insert p (node_index ` set ls) \<Longrightarrow> t' j = t j"
  shows "path_change t t' (insert p (node_index ` set ls)) (set ls)"
proof -
  note c = above_closed [OF assms(3)]
  have "l \<in> set ls" if "j \<in> insert p (node_index ` set ls)" "t j = Some n" "os_parent n = Some l" for j n l
    using that c assms(2) by auto
  then show ?thesis
    unfolding path_change_def using assms(1,4) above_inj [OF assms(1,3)] by blast
qed

lemma above_lower:
  assumes "wf_tree t" "t p = Some node" "above f t J (os_parent node) ls os" "x \<in> set ls"
  shows "node_index x < p"
proof -
  obtain l where l: "os_parent node = Some l" using assms(3,4) by (cases "os_parent node") (auto elim: above_rootE)
  then have "node_index l < p" using wf_parent [OF assms(1,2)] by metis
  with above_below [OF assms(1,3) l] assms(4) show ?thesis by fastforce
qed

section \<open>Yielding\<close>

lemma loc_skip:
  assumes "loc_out f t J p k ls os" "t p = Some node"
  shows "k \<le> j \<Longrightarrow> j \<le> length (os_children node) \<Longrightarrow> \<forall>i. k \<le> i \<and> i < j \<longrightarrow> os_children node ! i = Ch_Yielded \<Longrightarrow>
    loc_out f t J p j ls os"
proof (induction rule: dec_induct)
  case base
  then show ?case using assms(1) by simp
next
  case (step j)
  then have "loc_out f t J p j ls os" and y: "os_children node ! j = Ch_Yielded" and j: "j < length (os_children node)" by auto
  then obtain os1 os2 where h: "\<forall>i < j. os_children node ! i = Ch_Yielded" "kids_out f t J p j (os_children node) os1"
    "above f t J (os_parent node) ls os2" "os = os1 @ os2" using assms(2) by (auto simp: loc_out_def)
  from h(2) have "kids_out f t J p (Suc j) (os_children node) os1"
    using y unfolding kids_out_step [OF j] by (auto elim: out_YieldedE)
  with h y j assms(2) show ?case by (auto simp: loc_out_def less_Suc_eq)
qed

lemma loc_child:
  assumes "wf_tree t" "loc_out f t J p k ls os" "t p = Some node" "k < length (os_children node)" "os_children node ! k = Ch_Node w j"
  shows "loc_out f t J j 0 (node_location_new p k # ls) os"
proof -
  from assms(2,3) obtain os1 os2 where h: "\<forall>i < k. os_children node ! i = Ch_Yielded"
    "kids_out f t J p k (os_children node) os1" "above f t J (os_parent node) ls os2" "os = os1 @ os2"
    by (auto simp: loc_out_def)
  from h(2) obtain a b where ab: "child_out f t J p k (Ch_Node w j) a" "kids_out f t J p (Suc k) (os_children node) b" "os1 = a @ b"
    unfolding kids_out_step [OF assms(4)] assms(5) by blast
  from ab(1) obtain nj where nj: "t j = Some nj" "kids_out f t J j 0 (os_children nj) a" by (auto simp: out_Node_iff)
  have par: "os_parent nj = Some (node_location_new p k)" using wf_child [OF assms(1,3-5)] nj(1) by fastforce
  have "above f t J (Some (node_location_new p k)) (node_location_new p k # ls) (b @ os2)"
    using assms(3,4) h ab(2) by (intro above_slot [where node = node]) simp_all
  with nj par h(4) ab(3) show ?thesis by (auto simp: loc_out_def)
qed

lemma loc_output:
  assumes "wf_tree t" "loc_out f t J p k ls R" "t p = Some node" "k < length (os_children node)" "os_children node ! k = Ch_Output x"
    and "os_parent node' = os_parent node" "os_children node' = (os_children node)[k := Ch_Yielded]"
  shows "\<exists>R'. R = Ok x # R' \<and> loc_out f (t(p \<mapsto> node')) J p (Suc k) ls R'"
proof -
  from assms(2,3) obtain os1 os2 where h: "\<forall>i < k. os_children node ! i = Ch_Yielded"
    "kids_out f t J p k (os_children node) os1" "above f t J (os_parent node) ls os2" "R = os1 @ os2"
    by (auto simp: loc_out_def)
  from h(2) obtain b where b: "kids_out f t J p (Suc k) (os_children node) b" "os1 = Ok x # b"
    unfolding kids_out_step [OF assms(4)] assms(5) by (auto elim: out_OutputE)
  have pc: "path_change t (t(p \<mapsto> node')) (insert p (node_index ` set ls)) (set ls)"
    by (rule path_changeI [OF assms(1,3) h(3)]) simp
  have low: "node_index x < p" if "x \<in> set ls" for x by (rule above_lower [OF assms(1,3) h(3) that])
  then have "node_location_new p m \<notin> set ls" for m by fastforce
  from kids_out_off [OF pc assms(3) b(1) this] have "kids_out f (t(p \<mapsto> node')) J p (Suc k) (os_children node) b" .
  then have "kids_out f (t(p \<mapsto> node')) J p (Suc k) (os_children node') b"
    by (rule kids_out_mono) (simp_all add: assms(7))
  moreover have "above f (t(p \<mapsto> node')) J (os_parent node') ls os2"
    unfolding assms(6) by (rule above_off [OF pc h(3)]) (use low in auto)
  ultimately have "loc_out f (t(p \<mapsto> node')) J p (Suc k) ls (b @ os2)"
    using h(1) assms(4,7) by (auto simp: loc_out_def less_Suc_eq)
  with h(4) b(2) show ?thesis by simp
qed

lemma loc_end: "loc_out f t J p k ls R \<Longrightarrow> t p = Some node \<Longrightarrow> k = length (os_children node) \<Longrightarrow> above f t J (os_parent node) ls R"
  by (auto simp: loc_out_def kids_out_end)

lemma loc_complete:
  assumes "wf_tree t" "loc_out f t J p k ls R" "t p = Some node" "k = length (os_children node)"
    and "os_parent node = Some l" "t (node_index l) = Some pn"
    and "os_parent pn' = os_parent pn" "os_children pn' = (os_children pn)[child_index l := Ch_Yielded]"
  shows "ls \<noteq> [] \<and> loc_out f (t(p := None, node_index l \<mapsto> pn')) J (node_index l) (child_index l) (tl ls) R"
proof -
  let ?t = "t(p := None, node_index l \<mapsto> pn')"
  have ab: "above f t J (Some l) ls R" using loc_end [OF assms(2-4)] assms(5) by simp
  from above_slotE [OF this] obtain os1 ls' os2 where h: "ls = l # ls'" "child_index l < length (os_children pn)"
    "\<forall>i < child_index l. os_children pn ! i = Ch_Yielded"
    "kids_out f t J (node_index l) (Suc (child_index l)) (os_children pn) os1"
    "above f t J (os_parent pn) ls' os2" "R = os1 @ os2"
    using assms(6) by (metis option.inject)
  have pl: "node_index l < p" using wf_parent [OF assms(1,3,5)] by blast
  have pc: "path_change t ?t (insert p (node_index ` set ls)) (set ls)"
    by (rule path_changeI [OF assms(1,3) ab [folded assms(5)]]) (simp add: h(1))
  have inj: "inj_on node_index (set ls)" by (rule above_inj [OF assms(1) ab])
  have "node_location_new (node_index l) m \<notin> set ls" if "Suc (child_index l) \<le> m" for m
  proof
    assume "node_location_new (node_index l) m \<in> set ls"
    with inj h(1) have "node_location_new (node_index l) m = l" by (auto simp: inj_on_def)
    then have "child_index (node_location_new (node_index l) m) = child_index l" by simp
    with that show False by simp
  qed
  from kids_out_off [OF pc assms(6) h(4) this] have "kids_out f ?t J (node_index l) (Suc (child_index l)) (os_children pn) os1" .
  then have "kids_out f ?t J (node_index l) (Suc (child_index l)) (os_children pn') os1"
    by (rule kids_out_mono) (simp_all add: assms(8))
  then have kids: "kids_out f ?t J (node_index l) (child_index l) (os_children pn') os1"
    using h(2) by (subst kids_out_step) (auto simp: assms(8) intro: out_Yielded)
  have low: "node_index x < node_index l" if "x \<in> set ls'" for x
    by (rule above_lower [OF assms(1,6) h(5) that])
  have "?t (node_index x) = t (node_index x)" if "x \<in> set ls'" for x
    using low [OF that] pl by simp
  then have "above f ?t J (os_parent pn') ls' os2"
    unfolding assms(7) using above_off [OF pc h(5)] h(1) by auto
  with kids h show ?thesis by (auto simp: loc_out_def assms(8))
qed

lemma complete_wf:
  assumes "wf_tree t" "t p = Some node" "\<forall>k < length (os_children node). os_children node ! k = Ch_Yielded"
    and "os_parent node = Some l" "t (node_index l) = Some pn" "os_parent pn' = os_parent pn"
    and "os_children pn' = (os_children pn)[child_index l := Ch_Yielded]" "weights_ok pn'"
  shows "wf_tree (t(p := None, node_index l \<mapsto> pn'))"
  unfolding wf_tree_def
proof (intro conjI allI impI)
  let ?t = "t(p := None, node_index l \<mapsto> pn')"
  show "finite (dom ?t)" using assms(1) by (simp add: wf_tree_def)
  have pl: "node_index l \<noteq> p" using wf_parent [OF assms(1,2,4)] by blast
  fix j n assume j: "?t j = Some n"
  then show "weights_ok n" using assms(8) wf_weights [OF assms(1)] by (auto split: if_splits)
  obtain n0 where n0: "t j = Some n0" "os_parent n = os_parent n0" "j \<noteq> p"
    using j assms(5,6) pl by (auto split: if_splits)
  show "case os_parent n of
      None \<Rightarrow> j = 0
    | Some a \<Rightarrow> node_index a < j \<and> (\<exists>pn w. ?t (node_index a) = Some pn \<and>
        child_index a < length (os_children pn) \<and> os_children pn ! child_index a = Ch_Node w j)"
  proof (cases "os_parent n")
    case (Some a)
    with n0 obtain an w where a: "node_index a < j" "t (node_index a) = Some an"
      "child_index a < length (os_children an)" "os_children an ! child_index a = Ch_Node w j"
      using wf_parent [OF assms(1) n0(1)] by metis
    have "node_index a \<noteq> p" using a assms(2,3) by auto
    moreover have "a \<noteq> l" using a assms(5) n0(3) wf_parent [OF assms(1,2,4)] by fastforce
    ultimately show ?thesis
    proof (cases "node_index a = node_index l")
      case True
      with \<open>a \<noteq> l\<close> have "child_index a \<noteq> child_index l" by (metis location_eta)
      with True a assms(5,7) Some show ?thesis by auto
    qed (use a Some in auto)
  qed (use n0 wf_root [OF assms(1)] in auto)
next
  let ?t = "t(p := None, node_index l \<mapsto> pn')"
  fix q n k w j assume h: "?t q = Some n" "k < length (os_children n)" "os_children n ! k = Ch_Node w j"
  have pl: "node_index l \<noteq> p" using wf_parent [OF assms(1,2,4)] by blast
  obtain n0 where n0: "t q = Some n0" "k < length (os_children n0)" "os_children n0 ! k = Ch_Node w j"
    "node_location_new q k \<noteq> l"
  proof (cases "q = node_index l")
    case True
    with h(1) have n: "n = pn'" by simp
    with h assms(7) have "k < length (os_children pn)" by simp
    moreover from this h(3) n assms(7) have "k \<noteq> child_index l" by auto
    moreover from this h(3) n assms(7) have "os_children pn ! k = Ch_Node w j" by simp
    ultimately show ?thesis using True assms(5) that by (metis node_location_sel(2))
  next
    case False
    with h pl have "t q = Some n" by (auto split: if_splits)
    moreover have "node_location_new q k \<noteq> l" using False by (metis node_location_sel(1))
    ultimately show ?thesis using h(2,3) that by blast
  qed
  obtain nj where nj: "t j = Some nj" "os_parent nj = Some (node_location_new q k)"
    using wf_child [OF assms(1) n0(1-3)] by blast
  have "j \<noteq> p" using nj n0(4) assms(2,4) by auto
  then show "\<exists>nj. ?t j = Some nj \<and> os_parent nj = Some (node_location_new q k)"
    using nj assms(5,6) by auto
qed

section \<open>Budgets\<close>

text \<open>The budget of all nodes of the tree.\<close>

definition tree_budget :: "('o, 'i) node_map \<Rightarrow> nat" where
  "tree_budget t = (\<Sum>j \<in> dom t. budget (the (t j)))"

lemma tree_budget_update:
  assumes "finite (dom t)" "t p = Some node"
  shows "tree_budget (t(p \<mapsto> node')) + budget node = tree_budget t + budget node'"
proof -
  have p: "p \<in> dom t" using assms(2) by auto
  have "(\<Sum>j \<in> dom t - {p}. budget (the ((t(p \<mapsto> node')) j))) = (\<Sum>j \<in> dom t - {p}. budget (the (t j)))"
    by (rule sum.cong) auto
  then show ?thesis
    using sum.remove [OF assms(1) p, of "\<lambda>j. budget (the (t j))"]
      sum.remove [OF assms(1) p, of "\<lambda>j. budget (the ((t(p \<mapsto> node')) j))"] assms(2) p
    by (simp add: tree_budget_def insert_absorb)
qed

lemma tree_budget_new:
  assumes "finite (dom t)" "t p = None"
  shows "tree_budget (t(p \<mapsto> node)) = tree_budget t + budget node"
proof -
  have p: "p \<notin> dom t" using assms(2) by auto
  have "(\<Sum>j \<in> dom t. budget (the ((t(p \<mapsto> node)) j))) = (\<Sum>j \<in> dom t. budget (the (t j)))"
    using p by (intro sum.cong) auto
  with p assms(1) show ?thesis by (simp add: tree_budget_def)
qed

lemma tree_budget_delete:
  assumes "finite (dom t)" "t p = Some node"
  shows "tree_budget (t(p := None)) + budget node = tree_budget t"
proof -
  have "(t(p := None))(p \<mapsto> node) = t" using assms(2) by auto
  with tree_budget_new [of "t(p := None)" p node] assms(1) show ?thesis by simp
qed

lemma node_budget_le: "finite (dom t) \<Longrightarrow> t p = Some node \<Longrightarrow> budget node \<le> tree_budget t"
  using tree_budget_delete [of t p node] by simp

text \<open>A step on the tree and the jobs that keeps their shape and the remaining output.\<close>

definition keeps ::
  "('i \<Rightarrow> (('o, 'i) ordered_traversal list, 'e) result) \<Rightarrow> ('o, 'i) node_map \<Rightarrow> (os_location \<times> 'i) list \<Rightarrow>
     ('o, 'i) node_map \<Rightarrow> (os_location \<times> 'i) list \<Rightarrow> bool" where
  "keeps f t js t' js' \<longleftrightarrow> wf_tree t' \<and> jobs_ok t' js' \<and> dom t' = dom t \<and>
     (\<forall>j n n'. t j = Some n \<longrightarrow> t' j = Some n' \<longrightarrow> os_parent n' = os_parent n) \<and>
     (\<forall>q k ls os. loc_out f t (set js) q k ls os \<longrightarrow> loc_out f t' (set js') q k ls os) \<and>
     (\<forall>lo ls os. above f t (set js) lo ls os \<longrightarrow> above f t' (set js') lo ls os)"

lemma keeps_refl: "wf_tree t \<Longrightarrow> jobs_ok t js \<Longrightarrow> keeps f t js t js"
  by (simp add: keeps_def)

lemma keepsD:
  assumes "keeps f t js t' js'"
  shows "wf_tree t'" "jobs_ok t' js'" "dom t' = dom t"
    and "t j = Some n \<Longrightarrow> t' j = Some n' \<Longrightarrow> os_parent n' = os_parent n"
    and "loc_out f t (set js) q k ls os \<Longrightarrow> loc_out f t' (set js') q k ls os"
    and "above f t (set js) lo ls os \<Longrightarrow> above f t' (set js') lo ls os"
  using assms unfolding keeps_def by blast+

lemma keeps_trans:
  assumes "keeps f t js t1 js1" "keeps f t1 js1 t2 js2"
  shows "keeps f t js t2 js2"
  unfolding keeps_def
proof (intro conjI allI impI)
  fix j n n' assume n: "t j = Some n" "t2 j = Some n'"
  from n(1) keepsD(3) [OF assms(1)] have "j \<in> dom t1" by auto
  then obtain n1 where n1: "t1 j = Some n1" by auto
  have "os_parent n' = os_parent n1" by (rule keepsD(4) [OF assms(2) n1 n(2)])
  also have "\<dots> = os_parent n" by (rule keepsD(4) [OF assms(1) n(1) n1])
  finally show "os_parent n' = os_parent n" .
next
  fix q k ls os assume "loc_out f t (set js) q k ls os"
  then show "loc_out f t2 (set js2) q k ls os" by (intro keepsD(5) [OF assms(2)] keepsD(5) [OF assms(1)])
next
  fix lo ls os assume "above f t (set js) lo ls os"
  then show "above f t2 (set js2) lo ls os" by (intro keepsD(6) [OF assms(2)] keepsD(6) [OF assms(1)])
qed (use keepsD(1-3) [OF assms(1)] keepsD(1-3) [OF assms(2)] in simp_all)

lemma keeps_update:
  assumes "wf_tree t" "jobs_ok t js" "t p = Some node" "node_rel new p node node'" "weights_ok node'"
    and "mset js' = mset js + mset new"
  shows "keeps f t js (t(p \<mapsto> node')) js'"
proof -
  have sets: "set js \<subseteq> set js'" "set new \<subseteq> set js'" using assms(6) by (metis set_mset_mset set_mset_union sup_ge1 sup_ge2)+
  have "wf_tree (t(p \<mapsto> node'))" by (rule update_wf [OF assms(1,3) node_rel_same [OF assms(4)] assms(5)])
  moreover have "jobs_ok (t(p \<mapsto> node')) js'" by (rule update_jobs [OF assms(2-4,6)])
  moreover have "dom (t(p \<mapsto> node')) = dom t" using assms(3) by auto
  moreover have "\<forall>j n n'. t j = Some n \<longrightarrow> (t(p \<mapsto> node')) j = Some n' \<longrightarrow> os_parent n' = os_parent n"
    using assms(3,4) by (auto simp: node_rel_def)
  ultimately show ?thesis
    unfolding keeps_def
    using update_out [of t p node new node' "set js" "set js'" f, OF assms(3,4) sets] by blast
qed

lemma keeps_upd_same:
  assumes "wf_tree t" "jobs_ok t js" "t p = Some node" "weights_ok node'"
    and "os_parent node' = os_parent node" "length (os_children node') = length (os_children node)"
    and "\<And>k. k < length (os_children node) \<Longrightarrow> slot_rel [] p k (os_children node ! k) (os_children node' ! k)"
  shows "keeps f t js (t(p \<mapsto> node')) js"
  by (rule keeps_update [OF assms(1-3) _ assms(4), of "[]"]) (use assms(5-7) in \<open>auto simp: node_rel_def\<close>)

lemma add_budget_same:
  assumes "add_budget b node = (extra, node')"
  shows "os_children node' = os_children node" "os_parent node' = os_parent node" "remaining_weight node' = remaining_weight node"
    "budget node' + extra = budget node + b" "expired node' = expired node"
  using assms by (auto simp: add_budget_def Let_def)

lemma weights_ok_cong:
  "os_children node' = os_children node \<Longrightarrow> remaining_weight node' = remaining_weight node \<Longrightarrow> weights_ok node' \<longleftrightarrow> weights_ok node"
  by (simp add: weights_ok_def)

lemma child_yielded_ok:
  assumes "weights_ok node" "ci < length (os_children node)"
  shows "\<exists>node'. child_yielded ci needed node = Inr node' \<and> weights_ok node' \<and> os_parent node' = os_parent node \<and>
    budget node' = budget node \<and> length (os_children node') = length (os_children node) \<and>
    (\<forall>k < length (os_children node). slot_rel [] p k (os_children node ! k) (os_children node' ! k))"
proof (cases "\<exists>w j. os_children node ! ci = Ch_Node w j \<and> needed < w")
  case True
  then obtain w j where c: "os_children node ! ci = Ch_Node w j" "needed < w" by blast
  let ?c = "Ch_Node (w - (w - needed)) j"
  have "w - needed \<le> remaining_weight node"
    "sum_list (map child_weight ((os_children node)[ci := ?c])) = remaining_weight node - (w - needed)"
    using weights_ok_update [OF assms, of ?c] c by auto
  with c assms(2) show ?thesis
    by (auto simp: child_yielded_def vec_index_def usize_sub_def weights_ok_def slot_rel_def nth_list_update)
next
  case False
  then show ?thesis using assms
    by (auto simp: child_yielded_def vec_index_def slot_rel_def split: child.splits)
qed

text \<open>Walking up to the root passes the surplus on and changes no more than weights.\<close>

lemma walk_up_ok:
  assumes "wf_tree (map_of T)" "jobs_ok (map_of T) js" "above f (map_of T) (set js) lo ls os" "length ls \<le> fuel"
  shows "\<exists>s' T'. os_walk_up fuel lo surplus needed T = Inr (s', T') \<and> keeps f (map_of T) js (map_of T') js \<and>
    tree_budget (map_of T') + s' = tree_budget (map_of T) + surplus"
  using assms
proof (induction fuel arbitrary: lo ls os surplus needed T)
  case 0
  then have "lo = None" by (auto elim: above.cases)
  with "0.prems" show ?case by (simp add: keeps_refl)
next
  case (Suc fuel)
  show ?case
  proof (cases lo)
    case None
    with Suc.prems show ?thesis by (simp add: keeps_refl)
  next
    case (Some l)
    let ?p = "node_index l"
    from above_slotE [OF Suc.prems(3) [unfolded Some]] obtain node ls' os2 where l: "map_of T ?p = Some node"
      "child_index l < length (os_children node)" "ls = l # ls'" "above f (map_of T) (set js) (os_parent node) ls' os2" by metis
    have ok: "weights_ok node" by (rule wf_weights [OF Suc.prems(1) l(1)])
    obtain node1 where n1: "child_yielded (child_index l) needed node = Inr node1" "weights_ok node1"
      "os_parent node1 = os_parent node" "budget node1 = budget node" "length (os_children node1) = length (os_children node)"
      "\<forall>k < length (os_children node). slot_rel [] ?p k (os_children node ! k) (os_children node1 ! k)"
      using child_yielded_ok [OF ok l(2)] by blast
    obtain s1 node2 where n2: "add_budget surplus node1 = (s1, node2)" by (cases "add_budget surplus node1")
    note same = add_budget_same [OF n2]
    let ?T = "AList.update ?p node2 T"
    have t: "map_of ?T = (map_of T)(?p \<mapsto> node2)" by (simp add: update_conv')
    have k1: "keeps f (map_of T) js (map_of ?T) js"
      unfolding t by (rule keeps_upd_same [OF Suc.prems(1,2) l(1)])
        (use n1 same weights_ok_cong [OF same(1,3)] in simp_all)
    have "above f (map_of ?T) (set js) (os_parent node2) ls' os2"
      using keepsD(6) [OF k1 l(4)] same(2) n1(3) by simp
    moreover note keepsD(1,2) [OF k1]
    ultimately obtain s' T' where r: "os_walk_up fuel (os_parent node2) s1 (budget_needed node2) ?T = Inr (s', T')"
      "keeps f (map_of ?T) js (map_of T') js" "tree_budget (map_of T') + s' = tree_budget (map_of ?T) + s1"
      using Suc.IH Suc.prems(4) l(3) by (metis Suc_le_mono length_Cons)
    have "tree_budget (map_of ?T) + budget node = tree_budget (map_of T) + budget node2"
      unfolding t by (rule tree_budget_update [OF finite_dom_map_of l(1)])
    then have "tree_budget (map_of T') + s' = tree_budget (map_of T) + surplus" using r(3) same(4) n1(4) by simp
    moreover have "os_walk_up (Suc fuel) lo surplus needed T = Inr (s', T')"
      using Some l(1) n1(1) n2 r(1) by simp
    ultimately show ?thesis using keeps_trans [OF k1 r(2)] by blast
  qed
qed

end
