(* ===== verification/Ordered_Correct.thy ===== *)
theory Ordered_Correct
  imports Ordered_Tree
begin

text \<open>
  Correctness of the ordered stream: what it yields is the depth-first sequence of the tree, up to
  the limit, and it neither panics nor runs into a programming error.  Every step of the stream keeps
  what is left to yield, except that a yielded item is taken from its front.
\<close>

section \<open>Scheduling\<close>

text \<open>
  The loop over the frames visits every node at most once: \<open>V\<close> are the nodes visited so far, and a
  visited child of a node on the stack lies before the slot where its schedule goes on.
\<close>

definition resumable :: "frame \<Rightarrow> bool" where
  "resumable fr \<longleftrightarrow> (\<exists>s. fr_schedule fr = Some s \<and> 0 < pending_count s)"

definition stack_ok :: "('o, 'i) node_map \<Rightarrow> nat set \<Rightarrow> frame list \<Rightarrow> nat option \<Rightarrow> bool" where
  "stack_ok t V stack completed \<longleftrightarrow> distinct (map fr_node stack) \<and> fr_node ` set stack \<subseteq> V \<and>
     (\<forall>fr \<in> set stack. \<forall>s node. fr_schedule fr = Some s \<longrightarrow> t (fr_node fr) = Some node \<longrightarrow> covers s node) \<and>
     (\<forall>fr \<in> set (tl stack). resumable fr) \<and> (completed \<noteq> None \<longrightarrow> stack \<noteq> [] \<longrightarrow> resumable (hd stack))"

definition visited_ok :: "('o, 'i) node_map \<Rightarrow> nat set \<Rightarrow> frame list \<Rightarrow> bool" where
  "visited_ok t V stack \<longleftrightarrow> V \<subseteq> dom t \<and>
     (\<forall>v \<in> V. \<forall>n l. t v = Some n \<longrightarrow> os_parent n = Some l \<longrightarrow> node_index l \<in> V \<and>
        (\<forall>fr \<in> set stack. fr_node fr = node_index l \<longrightarrow>
           (\<exists>s. fr_schedule fr = Some s \<and> child_index l < next_child_index s)))"

definition same_stream :: "('o, 'i) ordered_stream \<Rightarrow> ('o, 'i) ordered_stream \<Rightarrow> bool" where
  "same_stream st st' \<longleftrightarrow> total_budget st' = total_budget st \<and> os_limit st' = os_limit st \<and> os_index st' = os_index st \<and>
     yield_next_location st' = yield_next_location st \<and> os_scheduled_max st' = os_scheduled_max st"

lemma node_rel_cong:
  "node_rel js p node1 node' \<Longrightarrow> os_children node1 = os_children node \<Longrightarrow> os_parent node1 = os_parent node \<Longrightarrow> node_rel js p node node'"
  by (simp add: node_rel_def)

text \<open>One look at the top frame.\<close>

lemma schedule_visit:
  assumes wf: "wf_tree (map_of (os_tree st))" "jobs_ok (map_of (os_tree st)) (os_jobs st)"
    and stack: "stack_ok (map_of (os_tree st)) V (fr # stack) completed" "visited_ok (map_of (os_tree st)) V (fr # stack)"
    and node: "map_of (os_tree st) (fr_node fr) = Some node"
    and sched: "sched = (case fr_schedule fr of Some s \<Rightarrow> s | None \<Rightarrow> node_schedule_of node)"
    and bound: "length (os_scheduled st) \<le> os_scheduled_max st"
  shows "\<exists>sched1 extra node1 act sched' node' st'.
    (case completed of None \<Rightarrow> Inr sched | Some _ \<Rightarrow> child_scheduled sched) = Inr sched1 \<and>
    add_budget additional node = (extra, node1) \<and>
    os_node_loop (fr_node fr) sched1 node1 st = Inr (act, sched', node', st') \<and>
    keeps f (map_of (os_tree st)) (os_jobs st) ((map_of (os_tree st))(fr_node fr \<mapsto> node')) (os_jobs st') \<and>
    tree_budget ((map_of (os_tree st))(fr_node fr \<mapsto> node')) + handed_out act + extra =
      tree_budget (map_of (os_tree st)) + additional \<and>
    os_tree st' = os_tree st \<and> same_stream st st' \<and> length (os_scheduled st') \<le> os_scheduled_max st \<and>
    covers sched' node' \<and> recurse_ok sched act sched' node'"
proof -
  let ?t = "map_of (os_tree st)"
  have ok: "weights_ok node" by (rule wf_weights [OF wf(1) node])
  have cov: "covers sched node"
    using stack(1) node covers_new [of node] by (auto simp: sched stack_ok_def split: option.splits)
  obtain sched1 where s1: "(case completed of None \<Rightarrow> Inr sched | Some _ \<Rightarrow> child_scheduled sched) = Inr sched1"
    "covers sched1 node" "next_child_index sched1 = next_child_index sched"
  proof (cases completed)
    case (Some c)
    with stack(1) have "0 < pending_count sched" by (auto simp: stack_ok_def resumable_def sched)
    with Some cov that show ?thesis by (simp add: child_scheduled_def usize_sub_def covers_def)
  qed (use cov that in simp)
  obtain extra node1 where n1: "add_budget additional node = (extra, node1)" by (cases "add_budget additional node")
  note same = add_budget_same [OF n1]
  have "weights_ok node1" "covers sched1 node1"
    using ok weights_ok_cong [OF same(1,3)] covers_add_budget [OF ok s1(2) n1] by blast+
  from os_node_loop_ok [OF this, of "fr_node fr" st] obtain act sched' node' st' js where
    r: "os_node_loop (fr_node fr) sched1 node1 st = Inr (act, sched', node', st')" "weights_ok node'" "covers sched' node'"
      "budget node1 = budget node' + handed_out act" "node_rel js (fr_node fr) node1 node'" "stream_rel js st st'"
      "recurse_ok sched1 act sched' node'" by blast
  have "keeps f ?t (os_jobs st) (?t(fr_node fr \<mapsto> node')) (os_jobs st')"
    by (rule keeps_update [OF wf node node_rel_cong [OF r(5) same(1,2)] r(2)]) (use r(6) in \<open>simp add: stream_rel_def\<close>)
  moreover have "tree_budget (?t(fr_node fr \<mapsto> node')) + budget node = tree_budget ?t + budget node'"
    by (rule tree_budget_update [OF finite_dom_map_of node])
  then have "tree_budget (?t(fr_node fr \<mapsto> node')) + handed_out act + extra = tree_budget ?t + additional"
    using r(4) same(4) by simp
  moreover have "recurse_ok sched act sched' node'"
    using r(7) s1(3) by (auto simp: recurse_ok_def split: node_action.splits)
  moreover have "os_tree st' = os_tree st" "same_stream st st'" "length (os_scheduled st') \<le> os_scheduled_max st"
    using r(6) bound by (auto simp: stream_rel_def same_stream_def)
  ultimately show ?thesis using s1(1) n1 r(1,3) by blast
qed

lemma stack_rest:
  assumes "stack_ok t V (fr # stack) completed" "x \<in> set stack"
  shows "fr_node x \<noteq> fr_node fr" "resumable x"
    "fr_schedule x = Some s \<Longrightarrow> (t(fr_node fr \<mapsto> node')) (fr_node x) = Some n \<Longrightarrow> covers s n"
proof -
  have "fr_node fr \<notin> fr_node ` set stack" "\<forall>y \<in> set stack. resumable y" using assms(1) by (simp_all add: stack_ok_def)
  with assms(2) show ne: "fr_node x \<noteq> fr_node fr" and "resumable x" by (blast dest: sym [of "fr_node x"])+
  assume h: "fr_schedule x = Some s" "(t(fr_node fr \<mapsto> node')) (fr_node x) = Some n"
  with ne have "t (fr_node x) = Some n" by simp
  with h(1) assms show "covers s n" unfolding stack_ok_def by (meson list.set_intros(2))
qed

lemma stack_pop:
  assumes "stack_ok t V (fr # stack) completed" "visited_ok t V (fr # stack)" "keeps f t js (t(fr_node fr \<mapsto> node')) js'"
  shows "stack_ok (t(fr_node fr \<mapsto> node')) V stack completed'" "visited_ok (t(fr_node fr \<mapsto> node')) V stack"
proof -
  have "distinct (map fr_node stack)" "fr_node ` set stack \<subseteq> V" using assms(1) by (simp_all add: stack_ok_def)
  then show "stack_ok (t(fr_node fr \<mapsto> node')) V stack completed'"
    unfolding stack_ok_def
    using stack_rest(2,3) [OF assms(1)] list.set_sel(2) [of stack] by (cases "stack = []") (auto simp del: fun_upd_apply)
  have par: "os_parent n = os_parent n0" if "t v = Some n0" "(t(fr_node fr \<mapsto> node')) v = Some n" for v n n0
    by (rule keepsD(4) [OF assms(3) that])
  have old: "\<exists>n0. t v = Some n0" if "v \<in> V" for v using that assms(2) by (auto simp: visited_ok_def)
  show "visited_ok (t(fr_node fr \<mapsto> node')) V stack"
    unfolding visited_ok_def
  proof (intro conjI ballI allI impI)
    show "V \<subseteq> dom (t(fr_node fr \<mapsto> node'))" using assms(2) keepsD(3) [OF assms(3)] by (simp add: visited_ok_def)
    fix v n l assume h: "v \<in> V" "(t(fr_node fr \<mapsto> node')) v = Some n" "os_parent n = Some l"
    obtain n0 where n0: "t v = Some n0" using old [OF h(1)] by blast
    with par [OF n0 h(2)] h(3) have p: "os_parent n0 = Some l" by simp
    show "node_index l \<in> V" using assms(2) h(1) n0 p unfolding visited_ok_def by blast
    show "\<exists>s. fr_schedule x = Some s \<and> child_index l < next_child_index s" if "x \<in> set stack" "fr_node x = node_index l" for x
      using assms(2) h(1) n0 p that unfolding visited_ok_def by (meson list.set_intros(2))
  qed
qed

lemma stack_push:
  fixes surplus :: nat
  assumes "stack_ok t V (fr # stack) completed" "visited_ok t V (fr # stack)" "wf_tree t"
    and "keeps f t js (t(fr_node fr \<mapsto> node')) js'" "t (fr_node fr) = Some node"
    and "recurse_ok (case fr_schedule fr of Some s \<Rightarrow> s | None \<Rightarrow> node_schedule_of node) (Act_Recurse ci j b) sched' node'"
    and "covers sched' node'"
  defines "stack' \<equiv> \<lparr>fr_node = j, fr_child = Some ci, fr_schedule = None, fr_surplus = 0\<rparr> #
      fr\<lparr>fr_schedule := Some sched', fr_surplus := surplus\<rparr> # stack"
  shows "j \<notin> V" "stack_ok (t(fr_node fr \<mapsto> node')) (insert j V) stack' None"
    "visited_ok (t(fr_node fr \<mapsto> node')) (insert j V) stack'"
proof -
  let ?t = "t(fr_node fr \<mapsto> node')"
  obtain w where w: "ci < length (os_children node')" "os_children node' ! ci = Ch_Node w j"
    using assms(6) by (auto simp: recurse_ok_def)
  have nx: "next_child_index (case fr_schedule fr of Some s \<Rightarrow> s | None \<Rightarrow> node_schedule_of node) \<le> ci"
    "next_child_index sched' = Suc ci" "0 < pending_count sched'" using assms(6) by (auto simp: recurse_ok_def)
  obtain nj where nj: "?t j = Some nj" "os_parent nj = Some (node_location_new (fr_node fr) ci)" "fr_node fr < j"
    using wf_child [OF keepsD(1) [OF assms(4)], of "fr_node fr" node' ci w j] w by auto
  have tj: "t j = Some nj" using nj by auto
  have inV: "fr_node fr \<in> V" "fr_node ` set stack \<subseteq> V" using assms(1) by (auto simp: stack_ok_def)
  show jV: "j \<notin> V"
  proof
    assume "j \<in> V"
    with tj nj(2) assms(2) have "\<exists>s. fr_schedule fr = Some s \<and> ci < next_child_index s"
      unfolding visited_ok_def by fastforce
    with nx(1) show False by auto
  qed
  have dist: "fr_node fr \<notin> fr_node ` set stack" "distinct (map fr_node stack)" using assms(1) by (auto simp: stack_ok_def)
  have "distinct (map fr_node stack')" using dist jV inV by (auto simp: stack'_def)
  moreover have "covers s n" if "x \<in> set stack'" "fr_schedule x = Some s" "?t (fr_node x) = Some n" for x s n
  proof -
    from that(1) consider "x = \<lparr>fr_node = j, fr_child = Some ci, fr_schedule = None, fr_surplus = 0\<rparr>"
      | "x = fr\<lparr>fr_schedule := Some sched', fr_surplus := surplus\<rparr>" | "x \<in> set stack" by (auto simp: stack'_def)
    then show ?thesis
    proof cases
      case 3
      from stack_rest(3) [OF assms(1) this that(2,3)] show ?thesis .
    qed (use that assms(7) in auto)
  qed
  moreover have "resumable x" if "x \<in> set (tl stack')" for x
    using that nx(3) stack_rest(2) [OF assms(1)] by (auto simp: stack'_def resumable_def)
  ultimately show "stack_ok ?t (insert j V) stack' None"
    using inV by (auto simp: stack_ok_def stack'_def)
  show "visited_ok ?t (insert j V) stack'"
    unfolding visited_ok_def
  proof (intro conjI ballI allI impI)
    show "insert j V \<subseteq> dom ?t" using nj(1) assms(2) by (auto simp: visited_ok_def)
    fix v n l assume h: "v \<in> insert j V" "?t v = Some n" "os_parent n = Some l"
    show "node_index l \<in> insert j V"
    proof (cases "v = j")
      case True
      with h nj inV show ?thesis by auto
    next
      case False
      with h(1) have v: "v \<in> V" by simp
      then obtain n0 where n0: "t v = Some n0" using assms(2) by (auto simp: visited_ok_def)
      with keepsD(4) [OF assms(4) n0 h(2)] h(3) v assms(2) show ?thesis unfolding visited_ok_def by auto
    qed
    show "\<exists>s. fr_schedule x = Some s \<and> child_index l < next_child_index s" if x: "x \<in> set stack'" "fr_node x = node_index l" for x
    proof (cases "v = j")
      case True
      with h nj have l: "l = node_location_new (fr_node fr) ci" by simp
      with x have "fr_node x = fr_node fr" by simp
      with x(1) stack_rest(1) [OF assms(1)] nj(3) have "x = fr\<lparr>fr_schedule := Some sched', fr_surplus := surplus\<rparr>"
        by (auto simp: stack'_def)
      with l nx(2) show ?thesis by simp
    next
      case False
      with h(1) have v: "v \<in> V" by simp
      then obtain n0 where n0: "t v = Some n0" using assms(2) by (auto simp: visited_ok_def)
      then have p: "os_parent n0 = Some l" using keepsD(4) [OF assms(4) n0 h(2)] h(3) by simp
      have old: "node_index l \<in> V"
        "\<And>y. y \<in> set (fr # stack) \<Longrightarrow> fr_node y = node_index l \<Longrightarrow> \<exists>s. fr_schedule y = Some s \<and> child_index l < next_child_index s"
        using assms(2) v n0 p unfolding visited_ok_def by blast+
      have "x \<noteq> \<lparr>fr_node = j, fr_child = Some ci, fr_schedule = None, fr_surplus = 0\<rparr>" using old(1) jV x(2) by auto
      with x consider "x = fr\<lparr>fr_schedule := Some sched', fr_surplus := surplus\<rparr>" | "x \<in> set stack"
        by (auto simp: stack'_def)
      then show ?thesis
      proof cases
        case 1
        with x(2) old(2) [of fr] nx show ?thesis by auto
      qed (use x(2) old(2) [of x] in simp)
    qed
  qed
qed

lemma same_stream_trans: "same_stream a b \<Longrightarrow> same_stream b c \<Longrightarrow> same_stream a c"
  by (simp add: same_stream_def)

lemma same_stream_tree [simp]: "same_stream st (st'\<lparr>os_tree := T\<rparr>) \<longleftrightarrow> same_stream st st'"
  by (simp add: same_stream_def)

lemma os_jobs_tree [simp]: "os_jobs (st\<lparr>os_tree := T\<rparr>) = os_jobs st"
  by (simp add: os_jobs_def)

text \<open>What the whole loop does to a stream.\<close>

definition scheduled_to ::
  "('i \<Rightarrow> (('o, 'i) ordered_traversal list, 'e) result) \<Rightarrow> ('o, 'i) ordered_stream \<Rightarrow> nat \<Rightarrow> ('o, 'i) ordered_stream \<Rightarrow> nat \<Rightarrow> bool" where
  "scheduled_to f st b st' b' \<longleftrightarrow>
     keeps f (map_of (os_tree st)) (os_jobs st) (map_of (os_tree st')) (os_jobs st') \<and>
     tree_budget (map_of (os_tree st')) + b' = tree_budget (map_of (os_tree st)) + b \<and> same_stream st st' \<and>
     length (os_scheduled st') \<le> os_scheduled_max st'"

lemma scheduled_to_trans: "scheduled_to f a x b y \<Longrightarrow> scheduled_to f b y c z \<Longrightarrow> scheduled_to f a x c z"
  unfolding scheduled_to_def using keeps_trans same_stream_trans by fastforce

lemma schedule_loop_ok:
  assumes "wf_tree (map_of (os_tree st))" "jobs_ok (map_of (os_tree st)) (os_jobs st)"
    and "stack_ok (map_of (os_tree st)) V stack completed" "visited_ok (map_of (os_tree st)) V stack"
    and "length (os_scheduled st) \<le> os_scheduled_max st"
    and "2 * card (dom (map_of (os_tree st))) + length stack \<le> fuel + 2 * card V"
  shows "\<exists>b st'. os_schedule_loop fuel stack completed additional st = Inr (b, st') \<and>
    scheduled_to f st (additional + sum_list (map fr_surplus stack)) st' b"
  using assms
proof (induction fuel arbitrary: st V stack completed additional)
  case 0
  have "card V \<le> card (dom (map_of (os_tree st)))"
    using "0.prems"(4) by (intro card_mono) (simp_all add: visited_ok_def finite_dom_map_of)
  with "0.prems"(6) have "length stack = 0" by linarith
  then have "stack = []" by simp
  with "0.prems" show ?case by (simp add: scheduled_to_def keeps_refl same_stream_def)
next
  case (Suc fuel)
  let ?t = "map_of (os_tree st)"
  show ?case
  proof (cases stack)
    case Nil
    with Suc.prems show ?thesis by (simp add: scheduled_to_def keeps_refl same_stream_def)
  next
    case (Cons fr stack')
    note prems = Suc.prems [unfolded Cons]
    from prems(3,4) have "fr_node fr \<in> dom ?t" by (auto simp: stack_ok_def visited_ok_def)
    then obtain node where node: "?t (fr_node fr) = Some node" by auto
    from schedule_visit [OF prems(1-4) node refl prems(5), of additional f]
    obtain sched1 extra node1 act sched' node' st1 where
      v: "(case completed of None \<Rightarrow> Inr (case fr_schedule fr of Some s \<Rightarrow> s | None \<Rightarrow> node_schedule_of node)
          | Some _ \<Rightarrow> child_scheduled (case fr_schedule fr of Some s \<Rightarrow> s | None \<Rightarrow> node_schedule_of node)) = Inr sched1"
        "add_budget additional node = (extra, node1)"
        "os_node_loop (fr_node fr) sched1 node1 st = Inr (act, sched', node', st1)"
        "keeps f ?t (os_jobs st) (?t(fr_node fr \<mapsto> node')) (os_jobs st1)"
        "tree_budget (?t(fr_node fr \<mapsto> node')) + handed_out act + extra = tree_budget ?t + additional"
        "os_tree st1 = os_tree st" "same_stream st st1" "length (os_scheduled st1) \<le> os_scheduled_max st"
        "covers sched' node'"
        "recurse_ok (case fr_schedule fr of Some s \<Rightarrow> s | None \<Rightarrow> node_schedule_of node) act sched' node'" by blast
    let ?st = "st1\<lparr>os_tree := AList.update (fr_node fr) node' (os_tree st1)\<rparr>"
    have t: "map_of (os_tree ?st) = ?t(fr_node fr \<mapsto> node')" by (simp add: update_conv' v(6))
    have dom: "dom (map_of (os_tree ?st)) = dom ?t" unfolding t by (rule keepsD(3) [OF v(4)])
    have bound: "length (os_scheduled ?st) \<le> os_scheduled_max ?st" using v(7,8) by (simp add: same_stream_def)
    have first: "scheduled_to f st (additional + sum_list (map fr_surplus stack)) ?st
        (handed_out act + (fr_surplus fr + extra) + sum_list (map fr_surplus stack'))"
      using v(4,5,7) bound by (simp add: scheduled_to_def t [simplified] Cons)
    note go = v(1-3) node
    have pop: ?thesis if "handed_out act = 0" "os_schedule_loop (Suc fuel) stack completed additional st =
        os_schedule_loop fuel stack' c (fr_surplus fr + extra) ?st" for c
    proof -
      have "2 * card (dom (map_of (os_tree ?st))) + length stack' \<le> fuel + 2 * card V"
        using prems(6) dom by simp
      from Suc.IH [OF _ _ _ _ bound this, of c "fr_surplus fr + extra"] stack_pop [OF prems(3,4) v(4)]
        keepsD(1,2) [OF v(4)] obtain b st' where
        r: "os_schedule_loop fuel stack' c (fr_surplus fr + extra) ?st = Inr (b, st')"
          "scheduled_to f ?st (fr_surplus fr + extra + sum_list (map fr_surplus stack')) st' b"
        unfolding t os_jobs_tree by blast
      with that scheduled_to_trans [OF first] show ?thesis by simp
    qed
    show ?thesis
    proof (cases act)
      case (Act_Schedule ci i)
      with v(10) show ?thesis by (simp add: recurse_ok_def)
    next
      case Act_Pending
      then show ?thesis using go by (intro pop [of None]) (simp_all add: Cons)
    next
      case Act_Complete
      then show ?thesis using go by (intro pop [of "fr_child fr"]) (simp_all add: Cons)
    next
      case (Act_Recurse ci j b)
      let ?fr = "fr\<lparr>fr_schedule := Some sched', fr_surplus := fr_surplus fr + extra\<rparr>"
      let ?new = "\<lparr>fr_node = j, fr_child = Some ci, fr_schedule = None, fr_surplus = 0\<rparr>"
      note push = stack_push [OF prems(3,4,1) v(4) node v(10) [unfolded Act_Recurse] v(9)]
      have "finite V" using prems(4) finite_subset [OF _ finite_dom_map_of] by (auto simp: visited_ok_def)
      then have "2 * card (dom (map_of (os_tree ?st))) + length (?new # ?fr # stack') \<le> fuel + 2 * card (insert j V)"
        using prems(6) dom push(1) by simp
      from Suc.IH [OF _ _ _ _ bound this, of None b] push(2,3) [of "fr_surplus fr + extra"] keepsD(1,2) [OF v(4)] obtain b' st' where
        r: "os_schedule_loop fuel (?new # ?fr # stack') None b ?st = Inr (b', st')"
          "scheduled_to f ?st (b + sum_list (map fr_surplus (?new # ?fr # stack'))) st' b'"
        unfolding t os_jobs_tree by blast
      with scheduled_to_trans [OF first] have "scheduled_to f st (additional + sum_list (map fr_surplus stack)) st' b'"
        using Act_Recurse by (simp add: add.assoc)
      moreover have "os_schedule_loop (Suc fuel) stack completed additional st = Inr (b', st')"
        using go Act_Recurse r(1) by (simp add: Cons)
      ultimately show ?thesis by blast
    qed
  qed
qed

section \<open>The state of the stream\<close>

text \<open>
  A state in the middle of the traversal: the stream goes on at slot \<open>k\<close> of node \<open>p\<close>, and has \<open>R\<close> left
  to yield.  The budgets of the nodes add up to the total budget.
\<close>

definition tree_inv ::
  "('i \<Rightarrow> (('o, 'i) ordered_traversal list, 'e) result) \<Rightarrow> ('o, 'i) ordered_stream \<Rightarrow> nat \<Rightarrow> nat \<Rightarrow>
     os_location list \<Rightarrow> ('o, 'e) result list \<Rightarrow> bool" where
  "tree_inv f st p k ls R \<longleftrightarrow> wf_tree (map_of (os_tree st)) \<and> jobs_ok (map_of (os_tree st)) (os_jobs st) \<and>
     tree_budget (map_of (os_tree st)) = total_budget st \<and> dom (map_of (os_tree st)) \<subseteq> {..os_index st} \<and>
     loc_out f (map_of (os_tree st)) (set (os_jobs st)) p k ls R \<and>
     length (os_scheduled st) \<le> os_scheduled_max st"

definition os_state ::
  "('i \<Rightarrow> (('o, 'i) ordered_traversal list, 'e) result) \<Rightarrow> ('o, 'i) ordered_stream \<Rightarrow> ('o, 'e) result list \<Rightarrow> bool" where
  "os_state f st R \<longleftrightarrow>
     (case yield_next_location st of
        None \<Rightarrow> R = [] \<or> os_limit st = Some 0
      | Some l \<Rightarrow> os_limit st \<noteq> Some 0 \<and> (\<exists>ls. tree_inv f st (node_index l) (child_index l) ls R))"

lemma loc_root:
  assumes "wf_tree t" "loc_out f t J p k ls R"
  shows "t 0 \<noteq> None"
proof -
  have "t 0 \<noteq> None" if "above f t J lo ls os" "t q = Some n" "os_parent n = lo" for lo ls os q n
    using that
  proof (induction arbitrary: q n rule: above.induct)
    case above_root
    with wf_root [OF assms(1)] show ?case by auto
  qed blast
  with assms(2) show ?thesis by (auto simp: loc_out_def)
qed

lemma os_schedule_ok:
  assumes "tree_inv f st p k ls R"
  shows "\<exists>st'. os_schedule st = Inr st' \<and> tree_inv f st' p k ls R \<and> os_limit st' = os_limit st \<and>
    yield_next_location st' = yield_next_location st \<and> os_scheduled_max st' = os_scheduled_max st"
proof -
  let ?t = "map_of (os_tree st)"
  let ?fr = "\<lparr>fr_node = 0, fr_child = None, fr_schedule = None, fr_surplus = 0\<rparr>"
  have inv: "wf_tree ?t" "jobs_ok ?t (os_jobs st)" "tree_budget ?t = total_budget st" "dom ?t \<subseteq> {..os_index st}"
    "loc_out f ?t (set (os_jobs st)) p k ls R" "length (os_scheduled st) \<le> os_scheduled_max st"
    using assms by (auto simp: tree_inv_def)
  have root: "0 \<in> dom ?t" using loc_root [OF inv(1,5)] by auto
  have "card (dom ?t) \<le> length (os_tree st)"
    by (metis card_length dom_map_of_conv_image_fst length_map set_map)
  then have fuel: "2 * card (dom ?t) + length [?fr] \<le> os_fuel st + 2 * card {0 :: nat}" by (simp add: os_fuel_def)
  have "stack_ok ?t {0} [?fr] None" by (simp add: stack_ok_def)
  moreover have "visited_ok ?t {0} [?fr]"
    using root wf_parent [OF inv(1), of 0] by (fastforce simp: visited_ok_def)
  ultimately obtain b st' where r: "os_schedule_loop (os_fuel st) [?fr] None 0 st = Inr (b, st')"
    "scheduled_to f st (0 + sum_list (map fr_surplus [?fr])) st' b"
    using schedule_loop_ok [OF inv(1,2) _ _ inv(6) fuel] by blast
  have k: "keeps f ?t (os_jobs st) (map_of (os_tree st')) (os_jobs st')" "same_stream st st'"
    "tree_budget (map_of (os_tree st')) + b = total_budget st" "length (os_scheduled st') \<le> os_scheduled_max st'"
    using r(2) inv(3) by (simp_all add: scheduled_to_def)
  have "os_schedule st = Inr (st'\<lparr>total_budget := total_budget st - b\<rparr>)"
    using r(1) k(2,3) by (simp add: os_schedule_def os_schedule_next_def same_stream_def usize_sub_def)
  moreover have "tree_inv f (st'\<lparr>total_budget := total_budget st - b\<rparr>) p k ls R"
    using keepsD(1-3) [OF k(1)] keepsD(5) [OF k(1) inv(5)] k(2-4) inv(4)
    by (simp add: tree_inv_def same_stream_def os_jobs_def)
  ultimately show ?thesis using k(2) by (simp add: same_stream_def)
qed

section \<open>The state after a yield\<close>

lemma slot_rel_refl [simp]: "slot_rel js p k c c"
  by (simp add: slot_rel_def)

text \<open>Yielding an output takes expired budget and surplus from the node, and nothing else.\<close>

lemma taken_same:
  assumes "take_expired node = (e, node1)" "take_surplus node1 = (surplus, node2)"
  shows "os_children node2 = os_children node" "os_parent node2 = os_parent node" "remaining_weight node2 = remaining_weight node"
    "budget node2 + e + surplus = budget node"
  using assms by (auto simp: take_expired_def take_surplus_def Let_def usize_saturating_sub_def min_def)

lemma tree_inv_loc:
  assumes "tree_inv f st p k ls R" "map_of (os_tree st) p = Some node"
  shows "\<exists>R2. above f (map_of (os_tree st)) (set (os_jobs st)) (os_parent node) ls R2"
  using assms by (auto simp: tree_inv_def loc_out_def)

text \<open>The tail of \<open>yield_next\<close> on an output: take what is expired and the surplus, and walk up.\<close>

lemma output_walk_ok:
  assumes inv: "tree_inv f st p k ls R" and node: "map_of (os_tree st) p = Some node0" and fuel: "length ls \<le> fuel"
    and same: "os_children node = os_children node0" "os_parent node = os_parent node0"
      "remaining_weight node = remaining_weight node0" "budget node = budget node0"
    and taken: "take_expired node = (e, node1)" "take_surplus node1 = (surplus, node2)"
  shows "\<exists>total s' T total'. usize_sub (total_budget st) e = Inr total \<and>
    os_walk_up fuel (os_parent node2) surplus (budget_needed node2) (AList.update p node2 (os_tree st)) = Inr (s', T) \<and>
    usize_sub total s' = Inr total' \<and>
    tree_inv f (st\<lparr>os_limit := lim, yield_next_location := loc, os_tree := T, total_budget := total'\<rparr>) p k ls R"
proof -
  let ?t = "map_of (os_tree st)"
  let ?T = "AList.update p node2 (os_tree st)"
  have i: "wf_tree ?t" "jobs_ok ?t (os_jobs st)" "tree_budget ?t = total_budget st" "dom ?t \<subseteq> {..os_index st}"
    "loc_out f ?t (set (os_jobs st)) p k ls R" "length (os_scheduled st) \<le> os_scheduled_max st"
    using inv by (auto simp: tree_inv_def)
  note s = taken_same [OF taken]
  have t: "map_of ?T = ?t(p \<mapsto> node2)" by (simp add: update_conv')
  have ok: "weights_ok node2"
    using wf_weights [OF i(1) node] s(1,3) same by (simp add: weights_ok_def)
  have k1: "keeps f ?t (os_jobs st) (map_of ?T) (os_jobs st)"
    unfolding t by (rule keeps_upd_same [OF i(1,2) node ok]) (use s same in simp_all)
  have b1: "tree_budget (map_of ?T) + budget node0 = total_budget st + budget node2"
    unfolding t i(3) [symmetric] by (rule tree_budget_update [OF finite_dom_map_of node])
  have le: "budget node0 \<le> total_budget st" using node_budget_le [OF finite_dom_map_of node] i(3) by simp
  obtain R2 where "above f ?t (set (os_jobs st)) (os_parent node0) ls R2" using tree_inv_loc [OF inv node] by blast
  then have "above f (map_of ?T) (set (os_jobs st)) (os_parent node2) ls R2"
    using keepsD(6) [OF k1] s(2) same(2) by simp
  from walk_up_ok [OF keepsD(1,2) [OF k1] this fuel] obtain s' T where
    w: "os_walk_up fuel (os_parent node2) surplus (budget_needed node2) ?T = Inr (s', T)"
      "keeps f (map_of ?T) (os_jobs st) (map_of T) (os_jobs st)"
      "tree_budget (map_of T) + s' = tree_budget (map_of ?T) + surplus" by blast
  have k: "keeps f ?t (os_jobs st) (map_of T) (os_jobs st)" by (rule keeps_trans [OF k1 w(2)])
  have sum: "tree_budget (map_of T) + s' + e = total_budget st" using w(3) b1 s(4) same(4) le by linarith
  then have "usize_sub (total_budget st) e = Inr (total_budget st - e)"
    "usize_sub (total_budget st - e) s' = Inr (tree_budget (map_of T))" by (auto simp: usize_sub_def)
  moreover have "tree_inv f (st\<lparr>os_limit := lim, yield_next_location := loc, os_tree := T,
      total_budget := tree_budget (map_of T)\<rparr>) p k ls R"
    using keepsD(1-3) [OF k] keepsD(5) [OF k i(5)] i(4,6) by (simp add: tree_inv_def os_jobs_def)
  ultimately show ?thesis using w(1) by blast
qed

lemma output_ok:
  assumes inv: "tree_inv f st p (Suc ci) ls R" and node: "map_of (os_tree st) p = Some node" and fuel: "length ls \<le> fuel"
    and lim: "os_limit st \<noteq> Some 0"
  shows "\<exists>st'. os_output fuel p ci node st = Inr st' \<and> os_state f st' R \<and>
    os_limit st' = map_option (\<lambda>n. n - 1) (os_limit st) \<and> os_scheduled_max st' = os_scheduled_max st \<and>
    length (os_scheduled st') \<le> os_scheduled_max st"
proof -
  have bound: "length (os_scheduled st) \<le> os_scheduled_max st" using inv by (simp add: tree_inv_def)
  define node0 where "node0 = (case os_limit st of None \<Rightarrow> node
    | Some n \<Rightarrow> if n - 1 < total_budget st then expire_budget 1 node else node)"
  define lim' where "lim' = map_option (\<lambda>n. n - 1) (os_limit st)"
  have same: "os_children node0 = os_children node" "os_parent node0 = os_parent node"
    "remaining_weight node0 = remaining_weight node" "budget node0 = budget node"
    by (auto simp: node0_def expire_budget_def split: option.splits)
  have step: "(case os_limit st of
          None \<Rightarrow> Inr (node, st)
        | Some lim \<Rightarrow>
            res_bind (usize_sub lim 1) (\<lambda>lim.
              Inr (if lim < total_budget st then expire_budget 1 node else node, st\<lparr>os_limit := Some lim\<rparr>))) =
      Inr (node0, st\<lparr>os_limit := lim'\<rparr>)"
    using lim by (auto simp: node0_def lim'_def usize_sub_def split: option.splits)
  show ?thesis
  proof (cases "lim' = Some 0")
    case True
    then have "os_output fuel p ci node st = Inr ((os_clear (st\<lparr>os_limit := lim'\<rparr>))\<lparr>yield_next_location := None\<rparr>)"
      unfolding os_output_def step by simp
    with True show ?thesis by (simp add: os_state_def os_clear_def lim'_def)
  next
    case False
    obtain e node1 where e: "take_expired node0 = (e, node1)" by (cases "take_expired node0")
    obtain s node2 where s: "take_surplus node1 = (s, node2)" by (cases "take_surplus node1")
    from output_walk_ok [OF inv node fuel same e s, where lim = lim' and loc = "Some (node_location_new p (ci + 1))"]
    obtain total s' T total' where w: "usize_sub (total_budget st) e = Inr total"
      "os_walk_up fuel (os_parent node2) s (budget_needed node2) (AList.update p node2 (os_tree st)) = Inr (s', T)"
      "usize_sub total s' = Inr total'"
      "tree_inv f (st\<lparr>os_limit := lim', yield_next_location := Some (node_location_new p (ci + 1)), os_tree := T,
        total_budget := total'\<rparr>) p (Suc ci) ls R" by blast
    let ?st = "st\<lparr>os_limit := lim', yield_next_location := Some (node_location_new p (ci + 1)), os_tree := T, total_budget := total'\<rparr>"
    have "os_output fuel p ci node st = Inr ?st"
      unfolding os_output_def step using False e s w(1-3) by simp
    moreover have "os_state f ?st R" using w(4) False by (auto simp: os_state_def)
    ultimately show ?thesis using bound by (simp add: lim'_def)
  qed
qed

lemma tree_inv_cong:
  "map_of T = map_of (os_tree st) \<Longrightarrow> tree_inv f (st\<lparr>os_tree := T\<rparr>) p k ls R \<longleftrightarrow> tree_inv f st p k ls R"
  by (simp add: tree_inv_def)

lemma node_yield_next_parent: "node_yield_next ci node = Inr (y, node') \<Longrightarrow> os_parent node' = os_parent node"
proof (induction ci node rule: node_yield_next.induct)
  case (1 ci node)
  show ?case
  proof (cases "ci < length (os_children node) \<and> os_children node ! ci = Ch_Yielded")
    case True
    then have "node_yield_next ci node = node_yield_next (ci + 1) node" by (subst node_yield_next.simps) simp
    with True "1.IH" "1.prems" show ?thesis by simp
  next
    case False
    with "1.prems" show ?thesis
      by (subst (asm) node_yield_next.simps) (auto simp: res_bind_eq_Inr split: if_splits child.splits)
  qed
qed

text \<open>A node that is complete is removed, and its budget goes to its parent.\<close>

lemma complete_step:
  assumes inv: "tree_inv f st p k ls R" and node: "map_of (os_tree st) p = Some node"
    and k: "k = length (os_children node)" and par: "os_parent node = Some l"
  shows "\<exists>pn pn'. map_of (os_tree st) (node_index l) = Some pn \<and> node_index l \<noteq> p \<and> ls \<noteq> [] \<and>
    child_complete (child_index l) (budget node) pn = Inr pn' \<and>
    (\<forall>T. map_of T = (map_of (os_tree st))(p := None, node_index l \<mapsto> pn') \<longrightarrow>
       tree_inv f (st\<lparr>os_tree := T\<rparr>) (node_index l) (child_index l) (tl ls) R)"
proof -
  let ?t = "map_of (os_tree st)"
  have i: "wf_tree ?t" "jobs_ok ?t (os_jobs st)" "tree_budget ?t = total_budget st" "dom ?t \<subseteq> {..os_index st}"
    "loc_out f ?t (set (os_jobs st)) p k ls R" "length (os_scheduled st) \<le> os_scheduled_max st"
    using inv by (auto simp: tree_inv_def)
  have all: "\<forall>m < length (os_children node). os_children node ! m = Ch_Yielded"
    using i(5) node k by (auto simp: loc_out_def)
  obtain pn w where pn: "node_index l < p" "?t (node_index l) = Some pn" "child_index l < length (os_children pn)"
    "os_children pn ! child_index l = Ch_Node w p" using wf_parent [OF i(1) node par] by blast
  define pn' where "pn' = pn\<lparr>os_children := (os_children pn)[child_index l := Ch_Yielded],
    budget := budget pn + budget node, remaining_weight := remaining_weight pn - w\<rparr>"
  have wt: "w \<le> remaining_weight pn" "weights_ok pn'"
    using weights_ok_update [OF wf_weights [OF i(1) pn(2)] pn(3), of Ch_Yielded] pn(4)
    by (auto simp: weights_ok_def pn'_def)
  have cc: "child_complete (child_index l) (budget node) pn = Inr pn'"
    using pn(3,4) wt(1) by (simp add: child_complete_def vec_index_def usize_sub_def pn'_def)
  let ?t' = "?t(p := None, node_index l \<mapsto> pn')"
  have "jobs_ok (?t(p := None)) (os_jobs st)"
    by (rule delete_jobs [OF i(2) node all])
  then have jobs: "jobs_ok ?t' (os_jobs st)"
    by (rule keep_jobs [where node = pn]) (use pn in \<open>auto simp: pn'_def nth_list_update\<close>)
  have "tree_budget ?t' + budget pn = tree_budget (?t(p := None)) + budget pn'"
    by (rule tree_budget_update) (use pn in \<open>auto simp: finite_dom_map_of\<close>)
  then have bud: "tree_budget ?t' = total_budget st"
    using tree_budget_delete [OF finite_dom_map_of node] i(3) by (simp add: pn'_def)
  have wf: "wf_tree ?t'" by (rule complete_wf [OF i(1) node all par pn(2) _ _ wt(2)]) (simp_all add: pn'_def)
  have "ls \<noteq> [] \<and> loc_out f ?t' (set (os_jobs st)) (node_index l) (child_index l) (tl ls) R"
    by (rule loc_complete [OF i(1,5) node k par pn(2)]) (simp_all add: pn'_def)
  moreover have "dom ?t' \<subseteq> {..os_index st}" using i(4) pn(2) by auto
  ultimately show ?thesis
    using pn(1,2) cc wf jobs bud i(6) by (auto simp: tree_inv_def)
qed

text \<open>What a yield makes of a state that has \<open>R\<close> left.\<close>

definition yielded ::
  "('i \<Rightarrow> (('o, 'i) ordered_traversal list, 'e) result) \<Rightarrow> ('o, 'i) ordered_stream \<Rightarrow> ('o, 'e) result list \<Rightarrow> 'o yield \<Rightarrow>
     ('o, 'i) ordered_stream \<Rightarrow> bool" where
  "yielded f st R y st' \<longleftrightarrow> os_scheduled_max st' = os_scheduled_max st \<and> length (os_scheduled st') \<le> os_scheduled_max st \<and>
     (case y of
        Yield_Output None \<Rightarrow> (R = [] \<or> os_limit st = Some 0) \<and> yield_next_location st' = None
      | Yield_Output (Some x) \<Rightarrow> (\<exists>R'. R = Ok x # R' \<and> os_state f st' R' \<and> os_limit st' = map_option (\<lambda>n. n - 1) (os_limit st))
      | Yield_Pending \<Rightarrow> os_limit st' = os_limit st \<and>
          (\<exists>l ls. yield_next_location st' = Some l \<and> tree_inv f st' (node_index l) (child_index l) ls R))"

lemma yielded_cong:
  "yielded f st1 R y st' \<Longrightarrow> os_scheduled_max st1 = os_scheduled_max st \<Longrightarrow> os_limit st1 = os_limit st \<Longrightarrow> yielded f st R y st'"
  by (simp add: yielded_def split: yield.splits option.splits)

lemma output_step:
  assumes inv: "tree_inv f st p k ls R" and node: "map_of (os_tree st) p = Some node"
    and out: "k < length (os_children node)" "os_children node ! k = Ch_Output x"
    and node': "os_children node' = (os_children node)[k := Ch_Yielded]" "os_parent node' = os_parent node"
      "budget node' = budget node" "weights_ok node'"
  shows "\<exists>R'. R = Ok x # R' \<and> tree_inv f (st\<lparr>os_tree := AList.update p node' (os_tree st)\<rparr>) p (Suc k) ls R'"
proof -
  let ?t = "map_of (os_tree st)"
  have i: "wf_tree ?t" "jobs_ok ?t (os_jobs st)" "tree_budget ?t = total_budget st" "dom ?t \<subseteq> {..os_index st}"
    "loc_out f ?t (set (os_jobs st)) p k ls R" "length (os_scheduled st) \<le> os_scheduled_max st"
    using inv by (auto simp: tree_inv_def)
  obtain R' where R': "R = Ok x # R'" "loc_out f (?t(p \<mapsto> node')) (set (os_jobs st)) p (Suc k) ls R'"
    using loc_output [OF i(1,5) node out node'(2,1)] by blast
  have "wf_tree (?t(p \<mapsto> node'))"
    by (rule update_wf [OF i(1) node _ node'(4)]) (use node' out in \<open>auto simp: same_nodes_def nth_list_update\<close>)
  moreover have "jobs_ok (?t(p \<mapsto> node')) (os_jobs st)"
    by (rule keep_jobs [OF i(2) node]) (use node' out in \<open>auto simp: nth_list_update\<close>)
  moreover have "tree_budget (?t(p \<mapsto> node')) = total_budget st"
    using tree_budget_update [OF finite_dom_map_of node, of node'] node'(3) i(3) by simp
  ultimately show ?thesis
    using R' i(4,6) node by (auto simp: tree_inv_def update_conv')
qed

lemma tree_inv_skip:
  assumes "tree_inv f st p k ls R" "map_of (os_tree st) p = Some node" "k \<le> j" "j \<le> length (os_children node)"
    "\<forall>i. k \<le> i \<and> i < j \<longrightarrow> os_children node ! i = Ch_Yielded"
  shows "tree_inv f st p j ls R"
  using assms(1) loc_skip [of f "map_of (os_tree st)" _ p k ls R node j] assms(2-5) by (auto simp: tree_inv_def)

lemma tree_inv_child:
  assumes "tree_inv f st p k ls R" "map_of (os_tree st) p = Some node" "k < length (os_children node)" "os_children node ! k = Ch_Node w j"
  shows "tree_inv f st j 0 (node_location_new p k # ls) R"
  using assms(1) loc_child [of "map_of (os_tree st)" f _ p k ls R node w j] assms(2-4) by (auto simp: tree_inv_def)

lemma tree_inv_node:
  assumes "tree_inv f st p k ls R"
  obtains node where "map_of (os_tree st) p = Some node" "k \<le> length (os_children node)" "weights_ok node"
    "length ls \<le> card (dom (map_of (os_tree st)))" "0 < card (dom (map_of (os_tree st)))"
proof -
  from assms obtain node R2 where n: "map_of (os_tree st) p = Some node" "k \<le> length (os_children node)"
    "above f (map_of (os_tree st)) (set (os_jobs st)) (os_parent node) ls R2" "wf_tree (map_of (os_tree st))"
    by (auto simp: tree_inv_def loc_out_def)
  have "p \<in> dom (map_of (os_tree st))" using n(1) by auto
  then have "0 < card (dom (map_of (os_tree st)))" by (metis card_gt_0_iff empty_iff finite_dom_map_of)
  with n that [OF n(1,2) wf_weights [OF n(4,1)] above_card [OF n(4,3)]] show ?thesis by blast
qed

lemma yield_loop_ok:
  assumes "tree_inv f st p k ls R" "yield_next_location st = None" "os_limit st \<noteq> Some 0"
    and "3 * card (dom (map_of (os_tree st))) \<le> fuel + length ls"
  shows "\<exists>y st'. os_yield_loop fuel (Some (node_location_new p k)) st = Inr (y, st') \<and> yielded f st R y st'"
  using assms
proof (induction fuel arbitrary: st p k ls)
  case 0
  obtain node where "map_of (os_tree st) p = Some node" "length ls \<le> card (dom (map_of (os_tree st)))"
    "0 < card (dom (map_of (os_tree st)))" using tree_inv_node [OF "0.prems"(1)] by blast
  with "0.prems"(4) show ?case by linarith
next
  case (Suc fuel)
  let ?t = "map_of (os_tree st)"
  obtain node where node: "?t p = Some node" "k \<le> length (os_children node)" "weights_ok node"
    "length ls \<le> card (dom ?t)" "0 < card (dom ?t)" using tree_inv_node [OF Suc.prems(1)] by blast
  have bound: "length (os_scheduled st) \<le> os_scheduled_max st" using Suc.prems(1) by (simp add: tree_inv_def)
  have fuel: "length ls \<le> fuel" using Suc.prems(4) node(4,5) by linarith
  obtain y node' j where y: "node_yield_next k node = Inr (y, node')" "weights_ok node'" "budget node' = budget node"
      "k \<le> j" "\<forall>i. k \<le> i \<and> i < j \<longrightarrow> os_children node ! i = Ch_Yielded"
    and c: "case y of
         Y_Output c out \<Rightarrow> c = j \<and> j < length (os_children node) \<and> os_children node ! j = Ch_Output out \<and>
           os_children node' = (os_children node)[j := Ch_Yielded] \<and> budget node \<noteq> 0
       | Y_FromChild idx \<Rightarrow> j < length (os_children node) \<and> (\<exists>w. os_children node ! j = Ch_Node w idx) \<and> node' = node
       | Y_Pending c \<Rightarrow> c = j \<and> j < length (os_children node) \<and> os_children node ! j \<noteq> Ch_Yielded \<and> node' = node
       | Y_Complete \<Rightarrow> j = length (os_children node) \<and> node' = node"
    using node_yield_next_spec [OF node(3,2)] by blast
  note par = node_yield_next_parent [OF y(1)]
  have j: "j \<le> length (os_children node)" using c by (auto split: node_yield.splits)
  have inv: "tree_inv f st p j ls R" by (rule tree_inv_skip [OF Suc.prems(1) node(1) y(4) j y(5)])
  let ?st = "st\<lparr>os_tree := AList.update p node' (os_tree st)\<rparr>"
  have same: "map_of (os_tree ?st) = ?t" if "node' = node"
    using node(1) that by (auto simp: update_conv')
  note go = node(1) y(1)
  show ?case
  proof (cases y)
    case (Y_Pending c')
    with c have n: "node' = node" and c': "c' = j" by simp_all
    have "os_yield_loop (Suc fuel) (Some (node_location_new p k)) st =
        Inr (Yield_Pending, ?st\<lparr>yield_next_location := Some (node_location_new p j)\<rparr>)"
      using go Y_Pending c' by simp
    moreover have "tree_inv f (?st\<lparr>yield_next_location := Some (node_location_new p j)\<rparr>) p j ls R"
      using inv same [OF n] by (simp add: tree_inv_def os_jobs_def)
    ultimately show ?thesis using bound by (auto simp: yielded_def)
  next
    case (Y_FromChild idx)
    with c obtain w where n: "node' = node" and w: "j < length (os_children node)" "os_children node ! j = Ch_Node w idx" by auto
    have "tree_inv f ?st idx 0 (node_location_new p j # ls) R"
      using tree_inv_child [OF inv node(1) w] by (simp only: tree_inv_cong [OF same [OF n, simplified]])
    moreover have "3 * card (dom (map_of (os_tree ?st))) \<le> fuel + length (node_location_new p j # ls)"
      unfolding same [OF n] using Suc.prems(4) by simp
    ultimately obtain y' st' where "os_yield_loop fuel (Some (node_location_new idx 0)) ?st = Inr (y', st')" "yielded f ?st R y' st'"
      using Suc.IH [of ?st idx 0 "node_location_new p j # ls"] Suc.prems(2,3) by auto
    moreover from this(2) have "yielded f st R y' st'" by (rule yielded_cong) simp_all
    ultimately show ?thesis using go Y_FromChild by simp
  next
    case (Y_Output c' out)
    with c have c': "c' = j" "j < length (os_children node)" "os_children node ! j = Ch_Output out"
      "os_children node' = (os_children node)[j := Ch_Yielded]" by simp_all
    obtain R' where R': "R = Ok out # R'" "tree_inv f ?st p (Suc j) ls R'"
      using output_step [OF inv node(1) c'(2-4) par y(3,2)] by blast
    have "map_of (os_tree ?st) p = Some node'" by (simp add: update_conv')
    from output_ok [OF R'(2) this fuel] Suc.prems(3) obtain st' where
      o: "os_output fuel p j node' ?st = Inr st'" "os_state f st' R'"
        "os_limit st' = map_option (\<lambda>n. n - 1) (os_limit st)" "os_scheduled_max st' = os_scheduled_max st"
        "length (os_scheduled st') \<le> os_scheduled_max st" by auto
    have "os_yield_loop (Suc fuel) (Some (node_location_new p k)) st = Inr (Yield_Output (Some out), st')"
      using go Y_Output c'(1) o(1) by simp
    with R'(1) o show ?thesis by (auto simp: yielded_def)
  next
    case Y_Complete
    with c have n: "node' = node" and k: "j = length (os_children node)" by simp_all
    have all: "\<forall>m < length (os_children node). os_children node ! m = Ch_Yielded"
      using inv node(1) k by (auto simp: tree_inv_def loc_out_def)
    then have "sum_list (map child_weight (os_children node)) = 0"
      by (auto simp: sum_list_eq_0_iff in_set_conv_nth)
    then have z: "remaining_weight node = 0" using node(3) by (simp add: weights_ok_def)
    show ?thesis
    proof (cases "os_parent node")
      case None
      have "above f ?t (set (os_jobs st)) None ls R"
        using loc_end [of f ?t _ p j ls R node] node(1) k inv None by (auto simp: tree_inv_def)
      then have "R = []" by (auto elim: above_rootE)
      then show ?thesis using go Y_Complete n z None Suc.prems(2) bound by (auto simp: yielded_def)
    next
      case (Some l)
      from complete_step [OF inv node(1) k Some] obtain pn pn' where
        p: "?t (node_index l) = Some pn" "node_index l \<noteq> p" "ls \<noteq> []"
          "child_complete (child_index l) (budget node) pn = Inr pn'"
          "\<And>T. map_of T = ?t(p := None, node_index l \<mapsto> pn') \<Longrightarrow>
            tree_inv f (st\<lparr>os_tree := T\<rparr>) (node_index l) (child_index l) (tl ls) R" by blast
      let ?T = "AList.update (node_index l) pn' (AList.delete p (AList.update p node (os_tree st)))"
      have T: "map_of ?T = ?t(p := None, node_index l \<mapsto> pn')" by (auto simp: update_conv' delete_conv')
      have "dom (map_of ?T) = dom ?t - {p}" unfolding T using p(1,2) by auto
      then have "card (dom (map_of ?T)) + 1 = card (dom ?t)"
        using node(1) by (metis Suc_eq_plus1 card.remove domI finite_dom_map_of)
      then have "3 * card (dom (map_of (os_tree (st\<lparr>os_tree := ?T\<rparr>)))) \<le> fuel + length (tl ls)"
        using Suc.prems(4) p(3) by (cases ls) auto
      from Suc.IH [OF p(5) [OF T] _ _ this] Suc.prems(2,3) obtain y' st' where
        r: "os_yield_loop fuel (Some l) (st\<lparr>os_tree := ?T\<rparr>) = Inr (y', st')" "yielded f (st\<lparr>os_tree := ?T\<rparr>) R y' st'" by auto
      have q: "map_of (AList.delete p (AList.update p node (os_tree st))) (node_index l) = Some pn"
        using p(1,2) by (simp add: update_conv' delete_conv')
      have "os_yield_loop (Suc fuel) (Some (node_location_new p k)) st = Inr (y', st')"
        using go Y_Complete n z Some q p(4) r(1) by simp
      moreover from r(2) have "yielded f st R y' st'" by (rule yielded_cong) simp_all
      ultimately show ?thesis by blast
    qed
  qed
qed

section \<open>The state after an unfold\<close>

lemma os_unfolded_children_simps [simp]:
  "os_unfolded_children [] = []"
  "os_unfolded_children (Output x # ts) = Ch_Output x # os_unfolded_children ts"
  "os_unfolded_children (Recurse w i # ts) = Ch_Unscheduled (max w 1) i # os_unfolded_children ts"
  "length (os_unfolded_children ts) = length ts"
  "os_unfolded_children ts = [] \<longleftrightarrow> ts = []"
  by (simp_all add: os_unfolded_children_def)

text \<open>A list of items that is not scheduled yields its expansion.\<close>

lemma expand_kids:
  assumes "expand f us os"
  shows "kids_out f t J p 0 (os_unfolded_children us) os"
proof -
  have "\<exists>oss. length oss = length us \<and> (\<forall>m < length us. \<forall>k. child_out f t J p k (os_unfolded_children us ! m) (oss ! m)) \<and> os = concat oss"
    using assms
  proof (induction rule: expand.induct)
    case expand_Nil
    show ?case by simp
  next
    case (expand_Output ts os x)
    then obtain oss where "length oss = length ts" "\<forall>m < length ts. \<forall>k. child_out f t J p k (os_unfolded_children ts ! m) (oss ! m)"
      "os = concat oss" by blast
    then show ?case
      by (intro exI [of _ "[Ok x] # oss"]) (auto simp: less_Suc_eq_0_disj intro: out_Output)
  next
    case (expand_Recurse i us os1 ts os2 w)
    then obtain oss where "length oss = length ts" "\<forall>m < length ts. \<forall>k. child_out f t J p k (os_unfolded_children ts ! m) (oss ! m)"
      "os2 = concat oss" by blast
    with expand_Recurse.hyps show ?case
      by (intro exI [of _ "os1 # oss"])
        (auto simp: less_Suc_eq_0_disj input_out_def intro!: out_Unscheduled)
  next
    case (expand_Fail i e ts os w)
    then obtain oss where "length oss = length ts" "\<forall>m < length ts. \<forall>k. child_out f t J p k (os_unfolded_children ts ! m) (oss ! m)"
      "os = concat oss" by blast
    with expand_Fail.hyps show ?case
      by (intro exI [of _ "[Err e] # oss"])
        (auto simp: less_Suc_eq_0_disj input_out_def intro!: out_Unscheduled)
  qed
  then show ?thesis by (auto simp: kids_out_def)
qed

text \<open>The child of a pending slot is replaced by something that yields what its input does.\<close>

lemma replace_out:
  assumes pn: "t q = Some pn" "m < length (os_children pn)" "os_children pn ! m = Ch_Pending w"
    and pn': "t' q = Some pn'" "os_children pn' = (os_children pn)[m := c']" "os_parent pn' = os_parent pn"
    and other: "\<And>j n. j \<noteq> q \<Longrightarrow> t j = Some n \<Longrightarrow> t' j = Some n"
    and job: "distinct (map fst js)" "(node_location_new q m, i) \<in> set js" "set js - {(node_location_new q m, i)} \<subseteq> J'"
    and new: "\<And>os. input_out f i os \<Longrightarrow> child_out f t' J' q m c' os"
  shows "loc_out f t (set js) p k ls os \<Longrightarrow> loc_out f t' J' p k ls os"
proof -
  define crel where "crel a b c d \<longleftrightarrow> (if a = q \<and> b = m then c = Ch_Pending w \<and> d = c' else d = c)" for a b c d
  have "child_out f t' J' a b d os \<or> (\<exists>w w' j. c = Ch_Node w j \<and> d = Ch_Node w' j)"
    if "crel a b c d" "child_out f t (set js) a b c os" for a b c d os
  proof (cases "a = q \<and> b = m")
    case True
    with that obtain i' where i': "(node_location_new q m, i') \<in> set js" "input_out f i' os"
      by (auto simp: crel_def elim: out_PendingE)
    with eq_key_imp_eq_value [OF job(1,2)] have "input_out f i os" by blast
    with True that(1) new show ?thesis by (simp add: crel_def)
  next
    case False
    with that(1) have d: "d = c" by (auto simp: crel_def)
    from that(2) False job(3) show ?thesis
      unfolding d by (cases c) (auto elim!: out_YieldedE out_OutputE out_UnscheduledE out_PendingE intro: child_out.intros)
  qed
  moreover have "\<exists>n'. t' j = Some n' \<and> os_parent n' = os_parent n \<and> length (os_children n') = length (os_children n) \<and>
      (\<forall>a < length (os_children n). crel j a (os_children n ! a) (os_children n' ! a))" if "t j = Some n" for j n
  proof (cases "j = q")
    case True
    with that pn pn' show ?thesis by (auto simp: crel_def nth_list_update)
  qed (use that other in \<open>auto simp: crel_def\<close>)
  moreover have "d = Ch_Yielded" if "crel a b Ch_Yielded d" for a b d
    using that by (auto simp: crel_def split: if_splits)
  ultimately show "loc_out f t (set js) p k ls os \<Longrightarrow> loc_out f t' J' p k ls os"
    by (rule loc_transfer(1)) blast+
qed

text \<open>The execution tree with a new node in the slot of a pending child.\<close>

lemma new_wf:
  assumes wf: "wf_tree t" and pn: "t q = Some pn" "m < length (os_children pn)" "os_children pn ! m = Ch_Pending w"
    and pn': "os_children pn' = (os_children pn)[m := Ch_Node nw idx]" "os_parent pn' = os_parent pn" "weights_ok pn'"
    and fresh: "\<forall>j \<in> dom t. j < idx"
    and new: "os_parent n' = Some (node_location_new q m)" "weights_ok n'" "\<forall>k < length (os_children n'). \<forall>w j. os_children n' ! k \<noteq> Ch_Node w j"
  shows "wf_tree (t(q \<mapsto> pn', idx \<mapsto> n'))"
  unfolding wf_tree_def
proof (intro conjI allI impI)
  let ?t = "t(q \<mapsto> pn', idx \<mapsto> n')"
  have q: "q < idx" "q \<noteq> idx" "t idx = None" using fresh pn(1) by auto
  show "finite (dom ?t)" using wf by (simp add: wf_tree_def)
  have old: "\<exists>w. os_children pn' ! a = Ch_Node w j" if "os_children pn ! a = Ch_Node w' j" for a j w'
    using that pn pn'(1) by (cases "a = m") auto
  fix j n assume j: "?t j = Some n"
  then show "weights_ok n" using pn'(3) new(2) wf_weights [OF wf] by (auto split: if_splits)
  show "case os_parent n of
      None \<Rightarrow> j = 0
    | Some a \<Rightarrow> node_index a < j \<and> (\<exists>pn w. ?t (node_index a) = Some pn \<and>
        child_index a < length (os_children pn) \<and> os_children pn ! child_index a = Ch_Node w j)"
  proof (cases "j = idx")
    case True
    with j new(1) q pn pn'(1) show ?thesis by auto
  next
    case False
    with j pn'(2) pn(1) obtain n0 where n0: "t j = Some n0" "os_parent n = os_parent n0" by (auto split: if_splits)
    show ?thesis
    proof (cases "os_parent n")
      case (Some a)
      with n0 wf_parent [OF wf n0(1)] obtain an w where a: "node_index a < j" "t (node_index a) = Some an"
        "child_index a < length (os_children an)" "os_children an ! child_index a = Ch_Node w j" by metis
      moreover have "node_index a \<noteq> idx" using a(2) q(3) by auto
      ultimately show ?thesis using Some old [of "child_index a" w j] pn(1) pn'(1) by auto
    qed (use n0 wf_root [OF wf] in auto)
  qed
next
  let ?t = "t(q \<mapsto> pn', idx \<mapsto> n')"
  have q: "q \<noteq> idx" "t idx = None" using fresh pn(1) by auto
  fix a n k v j assume h: "?t a = Some n" "k < length (os_children n)" "os_children n ! k = Ch_Node v j"
  show "\<exists>nj. ?t j = Some nj \<and> os_parent nj = Some (node_location_new a k)"
  proof (cases "a = q \<and> k = m")
    case True
    with h pn'(1) pn(2) q new(1) show ?thesis by auto
  next
    case False
    have "a \<noteq> idx" using h new(3) by auto
    with h False pn pn'(1) obtain n0 where "t a = Some n0" "k < length (os_children n0)" "os_children n0 ! k = Ch_Node v j"
      by (auto split: if_splits)
    from wf_child [OF wf this] obtain nj where nj: "t j = Some nj" "os_parent nj = Some (node_location_new a k)" by blast
    moreover have "j \<noteq> idx" using nj(1) q by auto
    ultimately show ?thesis using pn(1) pn'(2) by auto
  qed
qed

lemma jobs_ok_take:
  assumes "jobs_ok t js" "mset js = add_mset (l, i) (mset js')"
  shows "distinct (map fst js)" "(l, i) \<in> set js" "set js - {(l, i)} \<subseteq> set js'" "l \<notin> fst ` set js'" "jobs_ok t js'"
proof -
  show d: "distinct (map fst js)" using assms(1) by (simp add: jobs_ok_def)
  have "mset (map fst js) = mset (map fst ((l, i) # js'))" using assms(2) by simp
  with d have "distinct (map fst ((l, i) # js'))" by (metis mset_eq_imp_distinct_iff)
  then have d': "distinct (map fst js')" and l: "l \<notin> fst ` set js'" by simp_all
  show "l \<notin> fst ` set js'" by (rule l)
  have sets: "set js = insert (l, i) (set js')" using assms(2) by (metis set_mset_add_mset_insert set_mset_mset)
  then show "(l, i) \<in> set js" "set js - {(l, i)} \<subseteq> set js'" by auto
  from assms(1) sets d' show "jobs_ok t js'" by (auto simp: jobs_ok_def)
qed

lemma job_slot:
  assumes "jobs_ok t js" "(l, i) \<in> set js"
  obtains pn w where "t (node_index l) = Some pn" "child_index l < length (os_children pn)" "os_children pn ! child_index l = Ch_Pending w"
  using assms unfolding jobs_ok_def by (metis fst_conv image_eqI)

text \<open>Jobs of other slots are not touched by a change of the slot of \<open>l\<close>.\<close>

lemma replace_jobs:
  assumes "jobs_ok t js" "l \<notin> fst ` set js" "t (node_index l) = Some pn"
    and "t' (node_index l) = Some pn'" "os_children pn' = (os_children pn)[child_index l := c']"
    and "\<And>j n. j \<noteq> node_index l \<Longrightarrow> t j = Some n \<Longrightarrow> t' j = Some n"
  shows "jobs_ok t' js"
  unfolding jobs_ok_def
proof (intro conjI ballI)
  show "distinct (map fst js)" using assms(1) by (simp add: jobs_ok_def)
  fix a assume a: "a \<in> fst ` set js"
  with assms(1) obtain an w where an: "t (node_index a) = Some an" "child_index a < length (os_children an)"
    "os_children an ! child_index a = Ch_Pending w" unfolding jobs_ok_def by blast
  show "\<exists>pn w. t' (node_index a) = Some pn \<and> child_index a < length (os_children pn) \<and> os_children pn ! child_index a = Ch_Pending w"
  proof (cases "node_index a = node_index l")
    case True
    moreover have "child_index a \<noteq> child_index l" using True a assms(2) by (metis location_eta)
    ultimately show ?thesis using an assms(3-5) by auto
  next
    case False
    with assms(6) an show ?thesis by blast
  qed
qed

lemma process_unfold_ok:
  assumes inv: "tree_inv f st p k ls R" and f: "f i = Ok us"
    and st1: "os_tree st1 = os_tree st" "same_stream st st1" "mset (os_jobs st) = add_mset (l, i) (mset (os_jobs st1))"
      "length (os_scheduled st1) \<le> os_scheduled_max st1"
  shows "\<exists>st'. os_process_unfold l us st1 = Inr st' \<and> tree_inv f st' p k ls R \<and> os_limit st' = os_limit st \<and>
    yield_next_location st' = yield_next_location st \<and> os_scheduled_max st' = os_scheduled_max st"
proof -
  let ?t = "map_of (os_tree st)" let ?q = "node_index l" let ?m = "child_index l"
  have iv: "wf_tree ?t" "jobs_ok ?t (os_jobs st)" "tree_budget ?t = total_budget st" "dom ?t \<subseteq> {..os_index st}"
    "loc_out f ?t (set (os_jobs st)) p k ls R" using inv by (auto simp: tree_inv_def)
  note job = jobs_ok_take [OF iv(2) st1(3)]
  obtain pn w where pn: "?t ?q = Some pn" "?m < length (os_children pn)" "os_children pn ! ?m = Ch_Pending w"
    using job_slot [OF iv(2) job(2)] by blast
  have ok: "weights_ok pn" by (rule wf_weights [OF iv(1) pn(1)])
  have le: "w \<le> remaining_weight pn" using weights_ok_update(1) [OF ok pn(2), of Ch_Yielded] pn(3) by simp
  note st_eq = st1(2) [unfolded same_stream_def]
  have fin: ?thesis
    if step: "os_process_unfold l us st1 = Inr (st1\<lparr>os_index := os_index st1 + 1, os_tree := T\<rparr>)"
      and pn': "map_of T ?q = Some pn'" "os_children pn' = (os_children pn)[?m := c']" "os_parent pn' = os_parent pn"
      and other: "\<And>j n. j \<noteq> ?q \<Longrightarrow> ?t j = Some n \<Longrightarrow> map_of T j = Some n"
      and new: "\<And>os. input_out f i os \<Longrightarrow> child_out f (map_of T) (set (os_jobs st1)) ?q ?m c' os"
      and wf: "wf_tree (map_of T)" "tree_budget (map_of T) = total_budget st" "dom (map_of T) \<subseteq> {..os_index st + 1}" for T pn' c'
  proof -
    have "loc_out f (map_of T) (set (os_jobs st1)) p k ls R"
      by (rule replace_out [where t = ?t and q = ?q and m = ?m and t' = "map_of T" and js = "os_jobs st" and i = i,
            OF pn pn' other job(1) _ _ new iv(5)]) (use job(2,3) in simp_all)
    moreover have "jobs_ok (map_of T) (os_jobs st1)"
      by (rule replace_jobs [where t = ?t and t' = "map_of T", OF job(5,4) pn(1) pn'(1,2) other])
    ultimately have "tree_inv f (st1\<lparr>os_index := os_index st1 + 1, os_tree := T\<rparr>) p k ls R"
      using wf st_eq st1(4) by (simp add: tree_inv_def os_jobs_def)
    with step st_eq show ?thesis by simp
  qed
  show ?thesis
  proof (cases "us = []")
    case True
    let ?pn = "pn\<lparr>os_children := (os_children pn)[?m := Ch_Yielded], remaining_weight := remaining_weight pn - w\<rparr>"
    let ?T = "AList.update ?q ?pn (os_tree st)"
    have T: "map_of ?T = ?t(?q \<mapsto> ?pn)" by (simp add: update_conv')
    show ?thesis
    proof (rule fin [of ?T ?pn Ch_Yielded])
      show "os_process_unfold l us st1 = Inr (st1\<lparr>os_index := os_index st1 + 1, os_tree := ?T\<rparr>)"
        using True pn le by (simp add: os_process_unfold_def st1(1) vec_index_def usize_sub_def)
      show "wf_tree (map_of ?T)"
        unfolding T by (rule update_wf [OF iv(1) pn(1)])
          (use weights_ok_update(2) [OF ok pn(2), of Ch_Yielded] pn in \<open>auto simp: same_nodes_def nth_list_update weights_ok_def\<close>)
      show "tree_budget (map_of ?T) = total_budget st"
        unfolding T using tree_budget_update [OF finite_dom_map_of pn(1), of ?pn] iv(3) by simp
      show "child_out f (map_of ?T) (set (os_jobs st1)) ?q ?m Ch_Yielded os" if "input_out f i os" for os
        using that True f by (auto simp: input_out_def elim: expand_NilE intro: out_Yielded)
    qed (use iv(4) pn(1) in \<open>auto simp: T\<close>)
  next
    case False
    let ?cs = "os_unfolded_children us"
    let ?w = "sum_list (map child_weight ?cs)"
    let ?idx = "os_index st + 1"
    let ?c = "Ch_Node (min ?w w) ?idx"
    let ?pn = "pn\<lparr>os_children := (os_children pn)[?m := ?c], remaining_weight := remaining_weight pn - (w - min ?w w)\<rparr>"
    let ?new = "os_node_new (Some l) ?cs ?w"
    let ?T = "AList.update ?idx ?new (AList.update ?q ?pn (os_tree st))"
    have T: "map_of ?T = ?t(?q \<mapsto> ?pn, ?idx \<mapsto> ?new)" by (simp add: update_conv')
    have fresh: "\<forall>j \<in> dom ?t. j < ?idx" using iv(4) by auto
    have q: "?q < ?idx" using fresh pn(1) by auto
    have idx: "?t ?idx = None" using fresh by auto
    have plain: "\<forall>k < length ?cs. \<forall>w j. ?cs ! k \<noteq> Ch_Node w j"
      by (auto simp: os_unfolded_children_def split: ordered_traversal.splits)
    show ?thesis
    proof (rule fin [of ?T ?pn ?c])
      show "os_process_unfold l us st1 = Inr (st1\<lparr>os_index := os_index st1 + 1, os_tree := ?T\<rparr>)"
        using False pn le st_eq by (auto simp: os_process_unfold_def st1(1) vec_index_def usize_sub_def Let_def)
      show "wf_tree (map_of ?T)"
        unfolding T by (rule new_wf [OF iv(1) pn _ _ _ fresh])
          (use weights_ok_update(2) [OF ok pn(2), of ?c] pn(3) plain in \<open>auto simp: os_node_new_def weights_ok_def\<close>)
      have "tree_budget (map_of ?T) = tree_budget (?t(?q \<mapsto> ?pn)) + budget ?new"
        unfolding T by (rule tree_budget_new) (use idx q in \<open>auto simp: finite_dom_map_of\<close>)
      then show "tree_budget (map_of ?T) = total_budget st"
        using tree_budget_update [OF finite_dom_map_of pn(1), of ?pn] iv(3) by (simp add: os_node_new_def)
      show "child_out f (map_of ?T) (set (os_jobs st1)) ?q ?m ?c os" if "input_out f i os" for os
      proof -
        have "expand f us os" using that f by (simp add: input_out_def)
        then have "kids_out f (map_of ?T) (set (os_jobs st1)) ?idx 0 (os_children ?new) os"
          using expand_kids by (simp add: os_node_new_def)
        moreover have "map_of ?T ?idx = Some ?new" unfolding T by simp
        ultimately show ?thesis unfolding out_Node_iff by blast
      qed
      show "map_of ?T ?q = Some ?pn" "dom (map_of ?T) \<subseteq> {..?idx}" unfolding T using q iv(4) pn(1) by auto
      show "map_of ?T j = Some n" if "j \<noteq> ?q" "?t j = Some n" for j n unfolding T using that idx by auto
    qed simp_all
  qed
qed

section \<open>Every job is of an input that is still to be yielded\<close>

lemma above_facts:
  "above f t J lo ls os \<Longrightarrow> x \<in> set ls \<Longrightarrow>
     (\<exists>n os'. t (node_index x) = Some n \<and> (\<forall>i < child_index x. os_children n ! i = Ch_Yielded) \<and>
        kids_out f t J (node_index x) (Suc (child_index x)) (os_children n) os' \<and> set os' \<subseteq> set os) \<and>
     (lo = Some x \<or> (\<exists>y \<in> set ls. \<exists>n. t (node_index y) = Some n \<and> os_parent n = Some x))"
proof (induction rule: above.induct)
  case (above_slot l node os1 ls os2)
  show ?case
  proof (cases "x = l")
    case True
    with above_slot.hyps show ?thesis by auto
  next
    case False
    with above_slot.prems have "x \<in> set ls" by simp
    from above_slot.IH [OF this] above_slot.hyps(1) show ?thesis by fastforce
  qed
qed simp

lemma above_to_root:
  "above f t J lo ls os \<Longrightarrow> wf_tree t \<Longrightarrow> t q = Some n \<Longrightarrow> os_parent n = lo \<Longrightarrow> 0 \<in> insert q (node_index ` set ls)"
proof (induction arbitrary: q n rule: above.induct)
  case above_root
  then show ?case using wf_root by fastforce
next
  case (above_slot l node os1 ls os2)
  from above_slot.IH [OF above_slot.prems(1) above_slot.hyps(1) refl] show ?case by auto
qed

lemma kids_out_nth:
  assumes "kids_out f t J p k cs os" "k \<le> m" "m < length cs"
  obtains os' where "child_out f t J p m (cs ! m) os'" "set os' \<subseteq> set os"
proof -
  from assms obtain oss where oss: "length oss = length cs" "child_out f t J p m (cs ! m) (oss ! m)" "os = concat (drop k oss)"
    by (auto simp: kids_out_def)
  have "oss ! m \<in> set (drop k oss)" using assms(2,3) oss(1) by (auto simp: in_set_conv_nth intro!: exI [of _ "m - k"])
  with oss that [of "oss ! m"] show ?thesis by auto
qed

text \<open>Every slot that is not yielded lies on the path or contributes to the rest.\<close>

lemma inside:
  assumes wf: "wf_tree t" and loc: "loc_out f t J p k ls R"
  shows "t j = Some n \<Longrightarrow> j \<in> insert p (node_index ` set ls) \<or> (\<exists>os. kids_out f t J j 0 (os_children n) os \<and> set os \<subseteq> set R)"
proof (induction j arbitrary: n rule: less_induct)
  case (less j)
  from loc obtain node os1 os2 where l: "t p = Some node" "\<forall>i < k. os_children node ! i = Ch_Yielded"
    "kids_out f t J p k (os_children node) os1" "above f t J (os_parent node) ls os2" "R = os1 @ os2"
    by (auto simp: loc_out_def)
  have child: "\<exists>os. kids_out f t J j 0 (os_children n) os \<and> set os \<subseteq> set R"
    if "child_out f t J q m (Ch_Node w j) os" "set os \<subseteq> set R" for q m w os
    using that less.prems by (auto simp: out_Node_iff)
  show ?case
  proof (cases "os_parent n")
    case None
    then have "j = 0" using wf_root [OF wf less.prems] by simp
    with above_to_root [OF l(4) wf l(1) refl] show ?thesis by simp
  next
    case (Some a)
    obtain pn w where a: "node_index a < j" "t (node_index a) = Some pn" "child_index a < length (os_children pn)"
      "os_children pn ! child_index a = Ch_Node w j" using wf_parent [OF wf less.prems Some] by blast
    from less.IH [OF a(1,2)] consider "node_index a = p" | x where "x \<in> set ls" "node_index a = node_index x"
      | os where "kids_out f t J (node_index a) 0 (os_children pn) os" "set os \<subseteq> set R" by auto
    then show ?thesis
    proof cases
      case 1
      with a l(1,2) have "k \<le> child_index a" by (metis child.distinct(19) not_le option.inject)
      with 1 a l(1,3) obtain os where "child_out f t J p (child_index a) (Ch_Node w j) os" "set os \<subseteq> set os1"
        by (metis kids_out_nth option.inject)
      then have "set os \<subseteq> set R" using l(5) by auto
      from child [OF \<open>child_out f t J p (child_index a) (Ch_Node w j) os\<close> this] show ?thesis by blast
    next
      case (2 x)
      from above_facts [OF l(4) 2(1)] obtain xn os' where x: "t (node_index x) = Some xn"
        "\<forall>i < child_index x. os_children xn ! i = Ch_Yielded"
        "kids_out f t J (node_index x) (Suc (child_index x)) (os_children xn) os'" "set os' \<subseteq> set os2"
        and up: "os_parent node = Some x \<or> (\<exists>y \<in> set ls. \<exists>n. t (node_index y) = Some n \<and> os_parent n = Some x)" by blast
      have xn: "xn = pn" using x(1) a(2) 2(2) by simp
      consider "child_index a < child_index x" | "child_index a = child_index x" | "Suc (child_index x) \<le> child_index a" by linarith
      then show ?thesis
      proof cases
        case 1
        with x(2) xn a(4) show ?thesis by simp
      next
        case eq: 2
        then have ax: "a = x" using 2(2) by (metis location_eta)
        from up have "\<exists>y n. y \<in> insert p (node_index ` set ls) \<and> t y = Some n \<and> os_parent n = Some x" using l(1) by blast
        then obtain y n' where y: "y \<in> insert p (node_index ` set ls)" "t y = Some n'" "os_parent n' = Some x" by blast
        from wf_parent [OF wf y(2,3)] obtain w' where "os_children pn ! child_index x = Ch_Node w' y" using x(1) xn by (metis option.inject)
        with a(4) ax have "j = y" by simp
        with y(1) show ?thesis by simp
      next
        case 3
        with x(3) xn a(3,4) 2(2) obtain os where "child_out f t J (node_index a) (child_index a) (Ch_Node w j) os" "set os \<subseteq> set os'"
          by (metis kids_out_nth)
        then have "set os \<subseteq> set R" using x(4) l(5) by auto
        from child [OF \<open>child_out f t J (node_index a) (child_index a) (Ch_Node w j) os\<close> this] show ?thesis by blast
      qed
    next
      case (3 os)
      with a(3,4) obtain os' where "child_out f t J (node_index a) (child_index a) (Ch_Node w j) os'" "set os' \<subseteq> set os"
        by (metis kids_out_nth le0)
      then have "set os' \<subseteq> set R" using 3(2) by auto
      from child [OF \<open>child_out f t J (node_index a) (child_index a) (Ch_Node w j) os'\<close> this] show ?thesis by blast
    qed
  qed
qed

text \<open>A failing unfold is an error that the traversal has ahead of it.\<close>

lemma slot_inside:
  assumes "wf_tree t" "loc_out f t J p k ls R" "t j = Some n" "m < length (os_children n)" "os_children n ! m = Ch_Pending w"
  shows "\<exists>os. child_out f t J j m (os_children n ! m) os \<and> set os \<subseteq> set R"
proof -
  from assms(2) obtain node os1 os2 where l: "t p = Some node" "\<forall>i < k. os_children node ! i = Ch_Yielded"
    "kids_out f t J p k (os_children node) os1" "above f t J (os_parent node) ls os2" "R = os1 @ os2"
    by (auto simp: loc_out_def)
  from inside [OF assms(1-3)] consider "j = p" | x where "x \<in> set ls" "j = node_index x"
    | os where "kids_out f t J j 0 (os_children n) os" "set os \<subseteq> set R" by auto
  then show ?thesis
  proof cases
    case 1
    with l(1,2) assms(3,5) have "k \<le> m" by (metis child.distinct(13) not_le option.inject)
    moreover have n: "n = node" using 1 l(1) assms(3) by simp
    ultimately obtain os where "child_out f t J p m (os_children node ! m) os" "set os \<subseteq> set os1"
      using kids_out_nth [OF l(3), of m] assms(4) by blast
    with 1 n l(5) show ?thesis by auto
  next
    case (2 x)
    from above_facts [OF l(4) 2(1)] obtain os' where x: "\<forall>i < child_index x. os_children n ! i = Ch_Yielded"
      "kids_out f t J j (Suc (child_index x)) (os_children n) os'" "set os' \<subseteq> set os2"
      and up: "os_parent node = Some x \<or> (\<exists>y \<in> set ls. \<exists>n. t (node_index y) = Some n \<and> os_parent n = Some x)"
      using assms(3) 2(2) by auto
    have "\<exists>y n'. t y = Some n' \<and> os_parent n' = Some x" using up l(1) by blast
    then obtain y n' where y: "t y = Some n'" "os_parent n' = Some x" by blast
    from wf_parent [OF assms(1) y] assms(3) 2(2) have "\<exists>w. os_children n ! child_index x = Ch_Node w y" by (metis option.inject)
    with assms(5) have "m \<noteq> child_index x" by auto
    moreover have "\<not> m < child_index x" using x(1) assms(5) by auto
    ultimately have "Suc (child_index x) \<le> m" by simp
    then obtain os where "child_out f t J j m (os_children n ! m) os" "set os \<subseteq> set os'"
      using kids_out_nth [OF x(2) _ assms(4)] by blast
    with x(3) l(5) show ?thesis by auto
  next
    case (3 os)
    then obtain os' where "child_out f t J j m (os_children n ! m) os'" "set os' \<subseteq> set os"
      using kids_out_nth [OF 3(1) le0 assms(4)] by blast
    with 3(2) show ?thesis by auto
  qed
qed

section \<open>Turns\<close>

lemma os_yield_ok:
  assumes "os_state f st R" "length (os_scheduled st) \<le> os_scheduled_max st"
  shows "\<exists>y st'. os_yield st = Inr (y, st') \<and> yielded f st R y st'"
proof (cases "yield_next_location st")
  case None
  with assms show ?thesis by (auto simp: os_yield_def os_yield_next_def yielded_def os_state_def)
next
  case (Some l)
  with assms(1) obtain ls where inv: "os_limit st \<noteq> Some 0" "tree_inv f st (node_index l) (child_index l) ls R"
    by (auto simp: os_state_def)
  let ?st = "st\<lparr>yield_next_location := None\<rparr>"
  have "tree_inv f ?st (node_index l) (child_index l) ls R" using inv(2) by (simp add: tree_inv_def os_jobs_def)
  moreover have "card (dom (map_of (os_tree st))) \<le> length (os_tree st)"
    by (metis card_length dom_map_of_conv_image_fst length_map set_map)
  then have "3 * card (dom (map_of (os_tree ?st))) \<le> os_fuel st + length ls" by (simp add: os_fuel_def)
  ultimately obtain y st' where "os_yield_loop (os_fuel st) (Some l) ?st = Inr (y, st')" "yielded f ?st R y st'"
    using yield_loop_ok [of f ?st "node_index l" "child_index l" ls R "os_fuel st"] inv(1) by auto
  moreover from this(2) have "yielded f st R y st'" by (rule yielded_cong) simp_all
  ultimately show ?thesis using Some by (simp add: os_yield_def os_yield_next_def)
qed

text \<open>What a turn may make of a state that has \<open>R\<close> left.\<close>

definition turn_ok ::
  "('i \<Rightarrow> (('o, 'i) ordered_traversal list, 'e) result) \<Rightarrow> ('o, 'i) ordered_stream \<Rightarrow> ('o, 'e) result list \<Rightarrow>
     (('o, 'i) ordered_stream, 'o, 'e) os_turn \<Rightarrow> bool" where
  "turn_ok f st R turn \<longleftrightarrow>
     (case turn of
        Os_Again st' \<Rightarrow> os_state f st' R \<and> os_limit st' = os_limit st \<and>
          os_scheduled_max st' = os_scheduled_max st \<and> length (os_scheduled st') \<le> os_scheduled_max st
      | Os_Item x st' \<Rightarrow> (\<exists>R'. R = Ok x # R' \<and> os_state f st' R' \<and> os_limit st' = map_option (\<lambda>n. n - 1) (os_limit st)) \<and>
          os_limit st \<noteq> Some 0 \<and> os_scheduled_max st' = os_scheduled_max st \<and> length (os_scheduled st') \<le> os_scheduled_max st
      | Os_End st' \<Rightarrow> R = [] \<or> os_limit st = Some 0
      | Os_Failed e \<Rightarrow> Err e \<in> set R
      | Os_Stopped p \<Rightarrow> False)"

lemma os_limit_zero: "os_state f st R \<Longrightarrow> os_limit st = Some 0 \<Longrightarrow> os_yield st = Inr (y, st') \<Longrightarrow> y = Yield_Output None"
  by (auto simp: os_state_def os_yield_def os_yield_next_def split: option.splits)

text \<open>The running unfold that completes is taken out, and a queued one may start.\<close>

lemma complete_job:
  assumes "i < length (os_scheduled st)" "os_scheduled st ! i = (l, input)"
    and "running = take i (os_scheduled st) @ drop (Suc i) (os_scheduled st)"
    and "st1 = (case schedule_queue st of
            [] \<Rightarrow> st\<lparr>os_scheduled := running\<rparr>
          | job # queue \<Rightarrow> st\<lparr>os_scheduled := running @ [job], schedule_queue := queue\<rparr>)"
    and "length (os_scheduled st) \<le> os_scheduled_max st"
  shows "os_tree st1 = os_tree st" "same_stream st st1" "mset (os_jobs st) = add_mset (l, input) (mset (os_jobs st1))"
    "length (os_scheduled st1) \<le> os_scheduled_max st1"
proof -
  have "os_scheduled st = take i (os_scheduled st) @ (l, input) # drop (Suc i) (os_scheduled st)"
    using assms(1,2) by (metis id_take_nth_drop)
  then have "mset (os_scheduled st) = add_mset (l, input) (mset running)"
    unfolding assms(3) by (metis mset.simps(2) mset_append union_mset_add_mset_right)
  then show "mset (os_jobs st) = add_mset (l, input) (mset (os_jobs st1))"
    unfolding assms(4) by (auto simp: os_jobs_def split: list.splits)
  have "length running < length (os_scheduled st)" using assms(1,3) by simp
  then show "os_tree st1 = os_tree st" "same_stream st st1" "length (os_scheduled st1) \<le> os_scheduled_max st1"
    unfolding assms(4) using assms(5) by (auto simp: same_stream_def split: list.splits)
qed

lemma job_fails:
  assumes "tree_inv f st p k ls R" "(l, i) \<in> set (os_jobs st)" "f i = Err e"
  shows "Err e \<in> set R"
proof -
  let ?t = "map_of (os_tree st)"
  have inv: "wf_tree ?t" "jobs_ok ?t (os_jobs st)" "loc_out f ?t (set (os_jobs st)) p k ls R"
    using assms(1) by (auto simp: tree_inv_def)
  obtain pn w where pn: "?t (node_index l) = Some pn" "child_index l < length (os_children pn)"
    "os_children pn ! child_index l = Ch_Pending w" using job_slot [OF inv(2) assms(2)] by blast
  from slot_inside [OF inv(1,3) pn] obtain os where
    "child_out f ?t (set (os_jobs st)) (node_index l) (child_index l) (Ch_Pending w) os" "set os \<subseteq> set R"
    unfolding pn(3) by blast
  moreover from this(1) obtain i' where "(l, i') \<in> set (os_jobs st)" "input_out f i' os" by (auto elim: out_PendingE)
  moreover from this(1) have "i' = i" using assms(2) inv(2) by (auto simp: jobs_ok_def dest: eq_key_imp_eq_value)
  ultimately show ?thesis using assms(3) by (auto simp: input_out_def)
qed

lemma os_wait_ok:
  assumes inv: "tree_inv f st (node_index l) (child_index l) ls R" "yield_next_location st = Some l" "os_limit st \<noteq> Some 0"
  shows "turn_ok f st R (os_wait f k st)"
proof -
  have bound: "length (os_scheduled st) \<le> os_scheduled_max st" using inv(1) by (simp add: tree_inv_def)
  show ?thesis
  proof (cases "os_scheduled st = []")
    case True
    with inv bound show ?thesis by (auto simp: os_wait_def turn_ok_def os_state_def)
  next
    case False
    define i where "i = k mod length (os_scheduled st)"
    obtain jl input where job: "os_scheduled st ! i = (jl, input)" by (cases "os_scheduled st ! i")
    have i: "i < length (os_scheduled st)" using False by (simp add: i_def)
    define running where "running = take i (os_scheduled st) @ drop (Suc i) (os_scheduled st)"
    define st1 where "st1 = (case schedule_queue st of
        [] \<Rightarrow> st\<lparr>os_scheduled := running\<rparr>
      | job # queue \<Rightarrow> st\<lparr>os_scheduled := running @ [job], schedule_queue := queue\<rparr>)"
    note st1 = complete_job [OF i job running_def st1_def bound]
    have wait: "os_wait f k st = (case f input of
        Err e \<Rightarrow> Os_Failed e
      | Ok unfolded \<Rightarrow> (case os_process_unfold jl unfolded st1 of Inl e \<Rightarrow> Os_Stopped e | Inr this \<Rightarrow> Os_Again this))"
      unfolding st1_def running_def using False job by (simp add: os_wait_def Let_def i_def [symmetric])
    show ?thesis
    proof (cases "f input")
      case (Err e)
      have "(jl, input) \<in> set (os_jobs st)" using nth_mem [OF i] job by (simp add: os_jobs_def)
      with job_fails [OF inv(1) this Err] Err wait show ?thesis by (simp add: turn_ok_def)
    next
      case (Ok us)
      from process_unfold_ok [OF inv(1) Ok st1] obtain st2 where
        st2: "os_process_unfold jl us st1 = Inr st2" "tree_inv f st2 (node_index l) (child_index l) ls R"
          "os_limit st2 = os_limit st" "yield_next_location st2 = yield_next_location st"
          "os_scheduled_max st2 = os_scheduled_max st" by blast
      have "length (os_scheduled st2) \<le> os_scheduled_max st2" using st2(2) by (simp add: tree_inv_def)
      with st2 Ok wait inv show ?thesis by (auto simp: turn_ok_def os_state_def)
    qed
  qed
qed

text \<open>A turn is over after one of its two yields, whatever the choice, or waits for a running unfold.\<close>

lemma os_turn_cases:
  assumes "os_state f st R" "length (os_scheduled st) \<le> os_scheduled_max st"
  shows "(\<exists>t. turn_ok f st R t \<and> (\<forall>k. os_turn f k st = t)) \<or>
    (\<exists>st' l ls. (\<forall>k. os_turn f k st = os_wait f k st') \<and> tree_inv f st' (node_index l) (child_index l) ls R \<and>
       yield_next_location st' = Some l \<and> os_limit st' = os_limit st \<and> os_limit st \<noteq> Some 0 \<and>
       os_scheduled_max st' = os_scheduled_max st)"
proof -
  obtain y st1 where y: "os_yield st = Inr (y, st1)" "yielded f st R y st1" using os_yield_ok [OF assms] by blast
  show ?thesis
  proof (cases y)
    case (Yield_Output xo)
    with y os_limit_zero [OF assms(1) _ y(1)] show ?thesis
      by (intro disjI1 exI [of _ "case xo of None \<Rightarrow> Os_End st1 | Some x \<Rightarrow> Os_Item x st1"])
        (auto simp: os_turn_def turn_ok_def yielded_def split: option.splits)
  next
    case Yield_Pending
    then have ne: "os_limit st \<noteq> Some 0" using os_limit_zero [OF assms(1) _ y(1)] by auto
    from y(2) Yield_Pending obtain l ls where
      l: "yield_next_location st1 = Some l" "tree_inv f st1 (node_index l) (child_index l) ls R"
        "os_limit st1 = os_limit st" "os_scheduled_max st1 = os_scheduled_max st" by (auto simp: yielded_def)
    obtain st2 where st2: "os_schedule st1 = Inr st2" "tree_inv f st2 (node_index l) (child_index l) ls R"
      "os_limit st2 = os_limit st1" "yield_next_location st2 = yield_next_location st1" "os_scheduled_max st2 = os_scheduled_max st1"
      using os_schedule_ok [OF l(2)] by blast
    have "os_state f st2 R" "length (os_scheduled st2) \<le> os_scheduled_max st2"
      using st2 l ne by (auto simp: os_state_def tree_inv_def)
    then obtain y' st3 where y': "os_yield st2 = Inr (y', st3)" "yielded f st2 R y' st3" using os_yield_ok by blast
    note eqs = st2(3,5) l(3,4)
    have bind: "os_bind (os_schedule st1) os_yield = Inr (y', st3)" using st2(1) y'(1) by simp
    show ?thesis
    proof (cases y')
      case out: (Yield_Output xo)
      with y(1) Yield_Pending bind y'(2) eqs ne show ?thesis
        by (intro disjI1 exI [of _ "case xo of None \<Rightarrow> Os_End st3 | Some x \<Rightarrow> Os_Item x st3"])
          (auto simp: os_turn_def turn_ok_def yielded_def split: option.splits)
    next
      case pend: Yield_Pending
      then have "os_turn f k st = os_wait f k st3" for k using y(1) Yield_Pending bind by (simp add: os_turn_def)
      moreover from y'(2) pend obtain l' ls' where "yield_next_location st3 = Some l'"
        "tree_inv f st3 (node_index l') (child_index l') ls' R" "os_limit st3 = os_limit st"
        "os_scheduled_max st3 = os_scheduled_max st" using eqs by (auto simp: yielded_def)
      ultimately show ?thesis using ne by blast
    qed
  qed
qed

lemma turn_ok_cong:
  "turn_ok f st1 R t \<Longrightarrow> os_limit st1 = os_limit st \<Longrightarrow> os_scheduled_max st1 = os_scheduled_max st \<Longrightarrow> turn_ok f st R t"
  by (simp add: turn_ok_def split: os_turn.splits)

lemma os_turn_ok:
  assumes "os_state f st R" "length (os_scheduled st) \<le> os_scheduled_max st"
  shows "turn_ok f st R (os_turn f k st)"
  using os_turn_cases [OF assms]
proof
  assume "\<exists>st' l ls. (\<forall>k. os_turn f k st = os_wait f k st') \<and> tree_inv f st' (node_index l) (child_index l) ls R \<and>
     yield_next_location st' = Some l \<and> os_limit st' = os_limit st \<and> os_limit st \<noteq> Some 0 \<and>
     os_scheduled_max st' = os_scheduled_max st"
  then obtain st' l ls where w: "os_turn f k st = os_wait f k st'" "tree_inv f st' (node_index l) (child_index l) ls R"
    "yield_next_location st' = Some l" "os_limit st' = os_limit st" "os_limit st \<noteq> Some 0"
    "os_scheduled_max st' = os_scheduled_max st" by blast
  from os_wait_ok [OF w(2,3), of k] w(4,5) have "turn_ok f st' R (os_wait f k st')" by simp
  then show ?thesis unfolding w(1) by (rule turn_ok_cong [OF _ w(4,6)])
qed auto

text \<open>With at most one unfold running there is no choice.\<close>

lemma os_turn_single:
  assumes "os_state f st R" "length (os_scheduled st) \<le> os_scheduled_max st" "os_scheduled_max st \<le> 1"
  shows "os_turn f k st = os_turn f 0 st"
  using os_turn_cases [OF assms(1,2)]
proof
  assume "\<exists>st' l ls. (\<forall>k. os_turn f k st = os_wait f k st') \<and> tree_inv f st' (node_index l) (child_index l) ls R \<and>
     yield_next_location st' = Some l \<and> os_limit st' = os_limit st \<and> os_limit st \<noteq> Some 0 \<and>
     os_scheduled_max st' = os_scheduled_max st"
  then obtain st' where w: "\<And>k. os_turn f k st = os_wait f k st'" "length (os_scheduled st') \<le> 1"
    using assms(3) by (auto simp: tree_inv_def)
  have "k mod length (os_scheduled st') = 0" if "os_scheduled st' \<noteq> []"
    using w(2) that by (cases "os_scheduled st'") auto
  then show ?thesis by (auto simp: w(1) os_wait_def)
qed auto

section \<open>Runs\<close>

text \<open>
  A run takes a turn for each of a list of choices: which of the running unfolds completes.  It
  gives what was yielded and how far the stream has come.
\<close>

fun os_run ::
  "('i \<Rightarrow> (('o, 'i) ordered_traversal list, 'e) result) \<Rightarrow> nat list \<Rightarrow> ('o, 'i) ordered_stream \<Rightarrow>
     'o list \<times> (('o, 'i) ordered_stream, 'o, 'e) os_turn" where
  "os_run f [] st = ([], Os_Again st)"
| "os_run f (k # ks) st =
     (case os_turn f k st of
        Os_Again st' \<Rightarrow> os_run f ks st'
      | Os_Item x st' \<Rightarrow> (case os_run f ks st' of (xs, r) \<Rightarrow> (x # xs, r))
      | r \<Rightarrow> ([], r))"

definition limited :: "nat option \<Rightarrow> 'a list \<Rightarrow> 'a list" where
  "limited lim xs = (case lim of None \<Rightarrow> xs | Some n \<Rightarrow> take n xs)"

lemma limited_Cons: "lim \<noteq> Some 0 \<Longrightarrow> limited lim (x # xs) = x # limited (map_option (\<lambda>n. n - 1) lim) xs"
  by (auto simp: limited_def take_Cons' split: option.splits)

definition run_ok :: "nat \<Rightarrow> nat option \<Rightarrow> ('o, 'e) result list \<Rightarrow> 'o list \<times> (('o, 'i) ordered_stream, 'o, 'e) os_turn \<Rightarrow> bool" where
  "run_ok bound lim R run \<longleftrightarrow> prefix (map Ok (fst run)) (limited lim R) \<and>
     (case snd run of
        Os_Again st' \<Rightarrow> length (os_scheduled st') \<le> bound
      | Os_Item _ _ \<Rightarrow> False
      | Os_End _ \<Rightarrow> map Ok (fst run) = limited lim R
      | Os_Failed e \<Rightarrow> Err e \<in> set R
      | Os_Stopped _ \<Rightarrow> False)"

lemma os_run_ok:
  "os_state f st R \<Longrightarrow> length (os_scheduled st) \<le> os_scheduled_max st \<Longrightarrow>
     run_ok (os_scheduled_max st) (os_limit st) R (os_run f ks st)"
proof (induction ks arbitrary: st R)
  case Nil
  then show ?case by (simp add: run_ok_def)
next
  case (Cons k ks)
  note t = os_turn_ok [OF Cons.prems, of k]
  show ?case
  proof (cases "os_turn f k st")
    case (Os_Again st')
    with t Cons.IH [of st' R] show ?thesis by (simp add: turn_ok_def)
  next
    case (Os_Item x st')
    with t obtain R' where R': "R = Ok x # R'" "os_state f st' R'" "os_limit st' = map_option (\<lambda>n. n - 1) (os_limit st)"
      "os_limit st \<noteq> Some 0" "os_scheduled_max st' = os_scheduled_max st" "length (os_scheduled st') \<le> os_scheduled_max st"
      by (auto simp: turn_ok_def)
    from Cons.IH [OF R'(2)] R' have "run_ok (os_scheduled_max st) (map_option (\<lambda>n. n - 1) (os_limit st)) R' (os_run f ks st')"
      by simp
    then show ?thesis
      using Os_Item R'(4) by (auto simp: run_ok_def R'(1) limited_Cons split: prod.splits os_turn.splits)
  next
    case (Os_End st')
    with t show ?thesis by (auto simp: turn_ok_def run_ok_def limited_def split: option.splits)
  qed (use t in \<open>auto simp: turn_ok_def run_ok_def\<close>)
qed

text \<open>The inputs a traversal starts from, as items to recurse into.\<close>

definition init_items :: "(nat \<times> 'i) list \<Rightarrow> ('o, 'i) ordered_traversal list" where
  "init_items init = map (\<lambda>(weight, input). Recurse weight input) init"

lemma os_new_ok:
  assumes "expand f (init_items init) R"
  shows "\<exists>st. os_new max_scheduled queued_max lim init = Inr st \<and> os_state f st R \<and> os_limit st = lim \<and>
    os_scheduled st = [] \<and> os_scheduled_max st = max_scheduled"
proof -
  let ?cs = "os_init_children init :: ('b, 'a) child list"
  have cs: "?cs = os_unfolded_children (init_items init)"
    by (auto simp: os_init_children_def os_unfolded_children_def init_items_def)
  let ?root = "os_node_new None ?cs (sum_list (map child_weight ?cs))"
  obtain surplus root where root: "add_budget queued_max ?root = (surplus, root)" by (cases "add_budget queued_max ?root")
  note same = add_budget_same [OF root]
  let ?st = "\<lparr>os_scheduled_max = max_scheduled, total_budget = queued_max - surplus, os_limit = lim,
    schedule_queue = [], os_scheduled = [], os_tree = [(0, root)], os_index = 0,
    yield_next_location = (if lim = Some 0 then None else Some (node_location_new 0 0))\<rparr>"
  have b: "budget root + surplus = queued_max" using same(4) by (simp add: os_node_new_def)
  have new: "os_new max_scheduled queued_max lim init = Inr ?st"
    using b by (auto simp: os_new_def root Let_def usize_sub_def)
  let ?t = "map_of (os_tree ?st)"
  have node: "os_children root = ?cs" "os_parent root = None" using same by (simp_all add: os_node_new_def)
  have "weights_ok root" using same by (simp add: weights_ok_def os_node_new_def)
  moreover have "\<forall>k < length ?cs. \<forall>w j. ?cs ! k \<noteq> Ch_Node w j"
    by (auto simp: os_init_children_def split: prod.splits)
  ultimately have wf: "wf_tree ?t" using node by (auto simp: wf_tree_def split: if_splits)
  have "kids_out f ?t {} 0 0 ?cs R" unfolding cs by (rule expand_kids [OF assms])
  then have "loc_out f ?t {} 0 0 [] R" using node by (auto simp: loc_out_def intro: above_root)
  moreover have "tree_budget ?t = queued_max - surplus" using b by (simp add: tree_budget_def)
  ultimately have "tree_inv f ?st 0 0 [] R" using wf by (simp add: tree_inv_def jobs_ok_def os_jobs_def)
  then have "os_state f ?st R" by (auto simp: os_state_def)
  with new show ?thesis by simp
qed

section \<open>Properties\<close>


definition sample_unfold :: "nat \<Rightarrow> ((nat, nat) ordered_traversal list, string) result" where
  "sample_unfold i =
     (if i = 0 then Ok [Output 1, Recurse 1 1, Output 4] else if i = 1 then Ok [Output 2, Output 3] else Ok [])"

definition sample_os_start :: "(nat, nat) ordered_stream" where
  "sample_os_start = (case os_new 2 3 (Some 3) [(1, 0), (1, 1)] of Inr st \<Rightarrow> st)"

lemma sample_expand:
  "expand sample_unfold (init_items [(1, 0), (1, 1)]) [Ok 1, Ok 2, Ok 3, Ok 4, Ok 2, Ok 3]"
proof -
  have e1: "expand sample_unfold [Output 2, Output 3] [Ok 2, Ok 3]" by (intro expand.intros)
  have f: "sample_unfold 0 = Ok [Output 1, Recurse 1 1, Output 4]" "sample_unfold 1 = Ok [Output 2, Output 3]"
    by (simp_all add: sample_unfold_def)
  have "expand sample_unfold [Recurse 1 1, Output 4] ([Ok 2, Ok 3] @ [Ok 4])"
    by (rule expand_Recurse [OF f(2) e1]) (intro expand.intros)
  from expand_Output [OF this, of 1] have e0: "expand sample_unfold [Output 1, Recurse 1 1, Output 4] [Ok 1, Ok 2, Ok 3, Ok 4]" by simp
  have "expand sample_unfold [Recurse 1 1] ([Ok 2, Ok 3] @ [])" by (rule expand_Recurse [OF f(2) e1 expand_Nil])
  from expand_Recurse [OF f(1) e0 this, of 1] show ?thesis by (simp add: init_items_def)
qed


section \<open>A limited stream that never ends\<close>

lemma os_run_again: "os_turn f k st = Os_Again st \<Longrightarrow> set ks \<subseteq> {k} \<Longrightarrow> os_run f ks st = ([], Os_Again st)"
  by (induction ks) auto

lemma os_run_append:
  "os_run f (ks @ ks') st =
     (case os_run f ks st of
        (xs, Os_Again st') \<Rightarrow> (case os_run f ks' st' of (ys, r) \<Rightarrow> (xs @ ys, r))
      | (xs, r) \<Rightarrow> (xs, r))"
proof (induction ks arbitrary: st)
  case (Cons k ks)
  then show ?case by (auto split: os_turn.splits prod.splits)
qed simp

lemma os_run_single:
  "os_state f st R \<Longrightarrow> length (os_scheduled st) \<le> os_scheduled_max st \<Longrightarrow> os_scheduled_max st \<le> 1 \<Longrightarrow>
     os_run f ks st = os_run f (replicate (length ks) 0) st"
proof (induction ks arbitrary: st R)
  case (Cons k ks)
  note t = os_turn_ok [OF Cons.prems(1,2), of 0] and eq = os_turn_single [OF Cons.prems, of k]
  show ?case
  proof (cases "os_turn f 0 st")
    case (Os_Again st')
    with t Cons.prems(3) have "os_state f st' R" "length (os_scheduled st') \<le> os_scheduled_max st'" "os_scheduled_max st' \<le> 1"
      by (simp_all add: turn_ok_def)
    with Cons.IH Os_Again eq show ?thesis by simp
  next
    case (Os_Item x st')
    with t Cons.prems(3) obtain R' where "os_state f st' R'" "length (os_scheduled st') \<le> os_scheduled_max st'" "os_scheduled_max st' \<le> 1"
      by (auto simp: turn_ok_def)
    with Cons.IH Os_Item eq show ?thesis by simp
  qed (simp_all add: eq)
qed simp

definition starving_unfold :: "nat \<Rightarrow> ((nat, nat) ordered_traversal list, string) result" where
  "starving_unfold i =
     (if i = 0 then Ok [Recurse 1 2, Recurse 1 3] else if i = 1 then Ok [Output 4]
      else if i = 2 then Ok [Output 1, Output 2] else Ok [Output 3])"

definition starving_start :: "(nat, nat) ordered_stream" where
  "starving_start = (case bounded_traversal_limited_ordered_stream 1 2 3 [(1, 0), (1, 1)] of Inr st \<Rightarrow> st)"

definition starving_end :: "(nat, nat) ordered_stream" where
  "starving_end = (case snd (os_run starving_unfold (replicate 12 0) starving_start) of Os_Again st \<Rightarrow> st)"

lemma starving_run:
  "os_run starving_unfold (replicate 12 0) starving_start = ([1, 2], Os_Again starving_end)"
  "os_turn starving_unfold 0 starving_end = Os_Again starving_end"
  "bounded_traversal_limited_ordered_stream 1 2 3 [(1, 0), (1, 1)] = Inr starving_start"
  by code_simp+

lemma starving_expand: "expand starving_unfold (init_items [(1, 0), (1, 1)]) [Ok 1, Ok 2, Ok 3, Ok 4]"
proof -
  have f: "starving_unfold 0 = Ok [Recurse 1 2, Recurse 1 3]" "starving_unfold 1 = Ok [Output 4]"
    "starving_unfold 2 = Ok [Output 1, Output 2]" "starving_unfold 3 = Ok [Output 3]" by (simp_all add: starving_unfold_def)
  have e: "expand starving_unfold [Output 1, Output 2] [Ok 1, Ok 2]" "expand starving_unfold [Output 3] [Ok 3]"
    "expand starving_unfold [Output 4] [Ok 4]" by (intro expand.intros)+
  have "expand starving_unfold [Recurse 1 2, Recurse 1 3] ([Ok 1, Ok 2] @ [Ok 3] @ [])"
    by (rule expand_Recurse [OF f(3) e(1) expand_Recurse [OF f(4) e(2) expand_Nil]])
  moreover have "expand starving_unfold [Recurse 1 1] ([Ok 4] @ [])" by (rule expand_Recurse [OF f(2) e(3) expand_Nil])
  ultimately have "expand starving_unfold [Recurse 1 0, Recurse 1 1] (([Ok 1, Ok 2] @ [Ok 3] @ []) @ [Ok 4] @ [])"
    by (rule expand_Recurse [where f = starving_unfold, OF f(1)])
  then show ?thesis by (simp add: init_items_def)
qed

lemma run_before_end:
  assumes "os_run f (ks @ ks') st = (outs, Os_Again st')"
  shows "\<exists>outs1 st1. os_run f ks st = (outs1, Os_Again st1) \<and> prefix outs1 outs"
  using assms unfolding os_run_append by (auto split: prod.splits os_turn.splits)


end
