(* ===== verification/Cached_Config.thy ===== *)
theory Cached_Config
  imports Rust_Prelude "HOL-Library.AList" "HOL-Library.Word"
begin

text \<open>
  The store of configs (\<open>shed/cached_config/src\<close>): handles to configs that an updater keeps up to date
  from a source.  The registered entities live in a heap that handles refer to with a strong count and
  the client lists of the store refer to weakly.  What a source answers is an argument of each call.

  The \<open>watch\<close> channel of \<open>tokio\<close> is a parameter, with what the crate relies on stated as \<open>watch_laws\<close>;
  so is the file system.  The writes to the logger are left out.
\<close>

section \<open>Entities and sources\<close>

datatype 'd modification_time = Unset | UnixTimestamp "64 word" | DateTime 'd

record 'd entity =
  ent_contents :: "string option"
  ent_mod_time :: "'d modification_time"
  ent_version :: string

text \<open>The trait \<open>Source\<close>.\<close>

record ('d, 'e) source =
  config_for_path :: "string \<Rightarrow> ('d entity, 'e) result"
  paths_to_refresh :: "string list \<Rightarrow> string list"

datatype 'e config_error = Failure 'e | No_Subscriber string | Static_Config | Updater_Gone

subsection \<open>Files\<close>

text \<open>Reading a file and its modification time in seconds since the epoch.\<close>

record 'e file_system =
  read_to_string :: "string \<Rightarrow> (string, 'e) result"
  modified_secs :: "string \<Rightarrow> (64 word, 'e) result"

text \<open>\<open>PathBuf::join\<close>: an absolute path replaces the directory.\<close>

definition path_join :: "string \<Rightarrow> string \<Rightarrow> string" where
  "path_join dir path =
     (if path \<noteq> [] \<and> hd path = CHR ''/'' then path
      else if dir = [] \<or> last dir = CHR ''/'' then dir @ path
      else dir @ ''/'' @ path)"

record file_source =
  fs_directory :: string
  fs_extension :: "string option"

definition file_config_for_path :: "file_source \<Rightarrow> 'e file_system \<Rightarrow> string \<Rightarrow> ('d entity, 'e) result" where
  "file_config_for_path this fs path =
     (let path = path_join (fs_directory this)
                   (case fs_extension this of Some extension \<Rightarrow> path @ extension | None \<Rightarrow> path)
      in case read_to_string fs path of
           Err e \<Rightarrow> Err e
         | Ok contents \<Rightarrow>
             (case modified_secs fs path of
                Err e \<Rightarrow> Err e
              | Ok mod_time \<Rightarrow>
                  Ok \<lparr>ent_contents = Some contents, ent_mod_time = UnixTimestamp mod_time, ent_version = contents\<rparr>))"

definition file_paths_to_refresh :: "string list \<Rightarrow> string list" where
  "file_paths_to_refresh paths = paths"

definition file_source_of :: "file_source \<Rightarrow> 'e file_system \<Rightarrow> ('d, 'e) source" where
  "file_source_of this fs =
     \<lparr>config_for_path = file_config_for_path this fs, paths_to_refresh = file_paths_to_refresh\<rparr>"

subsection \<open>The source for tests\<close>

record 'd test_source =
  path_to_config :: "(string \<times> 'd entity) list"
  to_refresh :: "string list"

definition test_source_new :: "'d test_source" where
  "test_source_new = \<lparr>path_to_config = [], to_refresh = []\<rparr>"

definition test_config_for_path :: "'d test_source \<Rightarrow> string \<Rightarrow> ('d entity, string) result" where
  "test_config_for_path this path =
     (case map_of (path_to_config this) path of
        Some e \<Rightarrow> Ok e
      | None \<Rightarrow> Err (''Config not present for '' @ path))"

definition test_paths_to_refresh :: "'d test_source \<Rightarrow> string list \<Rightarrow> string list" where
  "test_paths_to_refresh this paths = filter (\<lambda>p. p \<in> set (to_refresh this)) paths"

definition insert_config :: "string \<Rightarrow> string \<Rightarrow> 'd modification_time \<Rightarrow> 'd test_source \<Rightarrow> 'd test_source" where
  "insert_config key contents mod_time this =
     this\<lparr>path_to_config := AList.update key
       \<lparr>ent_contents = Some contents, ent_mod_time = mod_time, ent_version = ''''\<rparr> (path_to_config this)\<rparr>"

definition insert_to_refresh :: "string \<Rightarrow> 'd test_source \<Rightarrow> 'd test_source" where
  "insert_to_refresh path this = this\<lparr>to_refresh := List.insert path (to_refresh this)\<rparr>"

definition test_source_of :: "'d test_source \<Rightarrow> ('d, string) source" where
  "test_source_of this =
     \<lparr>config_for_path = test_config_for_path this, paths_to_refresh = test_paths_to_refresh this\<rparr>"

section \<open>Registered entities\<close>

text \<open>
  The operations of a \<open>watch\<close> channel: its shared state, sending (which fails without a receiver), the current value,
  the mark of a receiver that has seen the current value, and whether there is a value that a
  receiver with a given mark has not seen.
\<close>

record ('w, 'r, 'a) watch_ops =
  watch_channel :: "'a \<Rightarrow> 'w"
  watch_send :: "'a \<Rightarrow> 'w \<Rightarrow> 'w option"
  watch_borrow :: "'w \<Rightarrow> 'a"
  watch_seen :: "'w \<Rightarrow> 'r"
  watch_has_changed :: "'w \<Rightarrow> 'r \<Rightarrow> bool"

record ('w, 'r, 'a, 'd, 'e) registered =
  re_mod_time :: "'d modification_time"
  re_version :: string
  re_path :: string
  re_deserializer :: "string \<Rightarrow> ('a, 'e) result"
  re_watch :: 'w
  re_receiver :: 'r

definition re_new ::
  "('w, 'r, 'a) watch_ops \<Rightarrow> string \<Rightarrow> 'd entity \<Rightarrow> (string \<Rightarrow> ('a, 'e) result) \<Rightarrow>
     (('w, 'r, 'a, 'd, 'e) registered, 'e) result" where
  "re_new wo path entity deserializer =
     (case deserializer (case ent_contents entity of Some c \<Rightarrow> c | None \<Rightarrow> []) of
        Err e \<Rightarrow> Err e
      | Ok contents \<Rightarrow>
          Ok \<lparr>re_mod_time = ent_mod_time entity, re_version = ent_version entity, re_path = path,
              re_deserializer = deserializer, re_watch = watch_channel wo contents,
              re_receiver = watch_seen wo (watch_channel wo contents)\<rparr>)"

definition re_get :: "('w, 'r, 'a) watch_ops \<Rightarrow> ('w, 'r, 'a, 'd, 'e) registered \<Rightarrow> 'a" where
  "re_get wo this = watch_borrow wo (re_watch this)"

definition re_refresh ::
  "('w, 'r, 'a) watch_ops \<Rightarrow> 'd entity \<Rightarrow> ('w, 'r, 'a, 'd, 'e) registered \<Rightarrow>
     (bool, 'e config_error) result \<times> ('w, 'r, 'a, 'd, 'e) registered" where
  "re_refresh wo entity this =
     (if ent_mod_time entity \<noteq> re_mod_time this \<or> ent_version entity \<noteq> re_version this then
        (case re_deserializer this (case ent_contents entity of Some c \<Rightarrow> c | None \<Rightarrow> []) of
           Err e \<Rightarrow> (Err (Failure e), this)
         | Ok contents \<Rightarrow>
             (case watch_send wo contents (re_watch this) of
                None \<Rightarrow> (Err (No_Subscriber (re_path this)), this)
              | Some w \<Rightarrow>
                  (Ok True,
                   this\<lparr>re_watch := w, re_mod_time := ent_mod_time entity, re_version := ent_version entity\<rparr>)))
      else (Ok False, this))"

section \<open>The store\<close>

record ('w, 'r, 'a, 'd, 'e) config_store =
  cs_entities :: "('w, 'r, 'a, 'd, 'e) registered list"
  cs_strong :: "nat list"
  cs_clients :: "(string \<times> nat list) list"

datatype 'a config_handle = Registered nat | Fixed 'a

definition cs_new :: "('w, 'r, 'a, 'd, 'e) config_store" where
  "cs_new = \<lparr>cs_entities = [], cs_strong = [], cs_clients = []\<rparr>"

text \<open>\<open>Weak::upgrade\<close> succeeds while a handle is left.\<close>

definition alive :: "('w, 'r, 'a, 'd, 'e) config_store \<Rightarrow> nat \<Rightarrow> bool" where
  "alive st a \<longleftrightarrow> a < length (cs_strong st) \<and> 0 < cs_strong st ! a"

definition get_config_handle_with_deserializer ::
  "('w, 'r, 'a) watch_ops \<Rightarrow> ('d, 'e) source \<Rightarrow> string \<Rightarrow> (string \<Rightarrow> ('a, 'e) result) \<Rightarrow>
     ('w, 'r, 'a, 'd, 'e) config_store \<Rightarrow>
     ('a config_handle, 'e config_error) result \<times> ('w, 'r, 'a, 'd, 'e) config_store" where
  "get_config_handle_with_deserializer wo src path deserializer this =
     (case config_for_path src path of
        Err e \<Rightarrow> (Err (Failure e), this)
      | Ok entity \<Rightarrow>
          (case re_new wo path entity deserializer of
             Err e \<Rightarrow> (Err (Failure e), this)
           | Ok entity \<Rightarrow>
               (let a = length (cs_entities this);
                    client_handle = (case map_of (cs_clients this) path of Some l \<Rightarrow> l | None \<Rightarrow> [])
                in (Ok (Registered a),
                    this\<lparr>cs_entities := cs_entities this @ [entity], cs_strong := cs_strong this @ [1],
                         cs_clients := AList.update path (client_handle @ [a]) (cs_clients this)\<rparr>))))"

definition refresh_client ::
  "('w, 'r, 'a) watch_ops \<Rightarrow> ('d, 'e) source \<Rightarrow> nat \<Rightarrow> ('w, 'r, 'a, 'd, 'e) config_store \<Rightarrow>
     ('w, 'r, 'a, 'd, 'e) config_store" where
  "refresh_client wo src client this =
     (case config_for_path src (re_path (cs_entities this ! client)) of
        Err e \<Rightarrow> this
      | Ok entity \<Rightarrow>
          this\<lparr>cs_entities :=
            (cs_entities this)[client := snd (re_refresh wo entity (cs_entities this ! client))]\<rparr>)"

fun refresh_client_list ::
  "('w, 'r, 'a) watch_ops \<Rightarrow> ('d, 'e) source \<Rightarrow> nat list \<Rightarrow> ('w, 'r, 'a, 'd, 'e) config_store \<Rightarrow>
     ('w, 'r, 'a, 'd, 'e) config_store" where
  "refresh_client_list wo src [] this = this"
| "refresh_client_list wo src (client # client_list) this =
     refresh_client_list wo src client_list
       (if alive this client then refresh_client wo src client this else this)"

fun refresh_paths ::
  "('w, 'r, 'a) watch_ops \<Rightarrow> ('d, 'e) source \<Rightarrow> string list \<Rightarrow> ('w, 'r, 'a, 'd, 'e) config_store \<Rightarrow>
     ('w, 'r, 'a, 'd, 'e) config_store" where
  "refresh_paths wo src [] this = this"
| "refresh_paths wo src (path # paths) this =
     refresh_paths wo src paths
       (case map_of (cs_clients this) path of
          Some client_list \<Rightarrow> refresh_client_list wo src client_list this
        | None \<Rightarrow> this)"

text \<open>The client lists without the clients that have vanished, and without lists that are empty then.\<close>

definition retain_clients :: "('w, 'r, 'a, 'd, 'e) config_store \<Rightarrow> ('w, 'r, 'a, 'd, 'e) config_store" where
  "retain_clients this =
     this\<lparr>cs_clients :=
       filter (\<lambda>(_, client_list). client_list \<noteq> [])
         (map (\<lambda>(path, client_list). (path, filter (alive this) client_list)) (cs_clients this))\<rparr>"

text \<open>
  One iteration of the updater, which \<open>force_update_configs\<close> runs too.  Without clients it waits on the
  condition variable until one is registered: \<open>None\<close>.
\<close>

definition updater_thread_iteration ::
  "('w, 'r, 'a) watch_ops \<Rightarrow> ('d, 'e) source \<Rightarrow> ('w, 'r, 'a, 'd, 'e) config_store \<Rightarrow>
     ('w, 'r, 'a, 'd, 'e) config_store option" where
  "updater_thread_iteration wo src this =
     (if cs_clients this = [] then None
      else Some (retain_clients (refresh_paths wo src (paths_to_refresh src (map fst (cs_clients this))) this)))"

section \<open>Handles and watchers\<close>

definition handle_get ::
  "('w, 'r, 'a) watch_ops \<Rightarrow> 'a config_handle \<Rightarrow> ('w, 'r, 'a, 'd, 'e) config_store \<Rightarrow> 'a" where
  "handle_get wo handle st =
     (case handle of Registered a \<Rightarrow> re_get wo (cs_entities st ! a) | Fixed contents \<Rightarrow> contents)"

definition handle_clone :: "'a config_handle \<Rightarrow> ('w, 'r, 'a, 'd, 'e) config_store \<Rightarrow> ('w, 'r, 'a, 'd, 'e) config_store" where
  "handle_clone handle st =
     (case handle of
        Registered a \<Rightarrow> st\<lparr>cs_strong := (cs_strong st)[a := cs_strong st ! a + 1]\<rparr>
      | Fixed _ \<Rightarrow> st)"

definition handle_drop :: "'a config_handle \<Rightarrow> ('w, 'r, 'a, 'd, 'e) config_store \<Rightarrow> ('w, 'r, 'a, 'd, 'e) config_store" where
  "handle_drop handle st =
     (case handle of
        Registered a \<Rightarrow> st\<lparr>cs_strong := (cs_strong st)[a := cs_strong st ! a - 1]\<rparr>
      | Fixed _ \<Rightarrow> st)"

text \<open>A watcher has a receiver of its own, a copy of the one that the entity keeps.\<close>

record 'r config_watcher =
  cw_entity :: nat
  cw_receiver :: 'r

definition handle_watcher ::
  "'a config_handle \<Rightarrow> ('w, 'r, 'a, 'd, 'e) config_store \<Rightarrow> ('r config_watcher, 'e config_error) result" where
  "handle_watcher handle st =
     (case handle of
        Registered a \<Rightarrow> Ok \<lparr>cw_entity = a, cw_receiver = re_receiver (cs_entities st ! a)\<rparr>
      | Fixed _ \<Rightarrow> Err Static_Config)"

text \<open>Polling \<open>wait_for_next\<close>: \<open>None\<close> is \<open>Pending\<close>.  The sender is dropped with the last handle.\<close>

definition wait_for_next ::
  "('w, 'r, 'a) watch_ops \<Rightarrow> ('w, 'r, 'a, 'd, 'e) config_store \<Rightarrow> 'r config_watcher \<Rightarrow>
     ('a, 'e config_error) result option \<times> 'r config_watcher" where
  "wait_for_next wo st this =
     (let w = re_watch (cs_entities st ! cw_entity this) in
      if watch_has_changed wo w (cw_receiver this)
      then (Some (Ok (watch_borrow wo w)), this\<lparr>cw_receiver := watch_seen wo w\<rparr>)
      else if \<not> alive st (cw_entity this) then (Some (Err Updater_Gone), this)
      else (None, this))"

section \<open>What the crate relies on\<close>

definition sent :: "('w, 'r, 'a) watch_ops \<Rightarrow> 'a list \<Rightarrow> 'w \<Rightarrow> 'w" where
  "sent wo xs w = fold (\<lambda>x w. the (watch_send wo x w)) xs w"

text \<open>
  The channel holds the value sent last; sending succeeds, since the entity itself keeps a receiver; and a
  receiver that has seen a state of the channel finds a change exactly when something was sent since.
\<close>

definition watch_laws :: "('w, 'r, 'a) watch_ops \<Rightarrow> bool" where
  "watch_laws wo \<longleftrightarrow>
     (\<forall>x. watch_borrow wo (watch_channel wo x) = x) \<and>
     (\<forall>x w. \<exists>w'. watch_send wo x w = Some w' \<and> watch_borrow wo w' = x) \<and>
     (\<forall>xs w. watch_has_changed wo (sent wo xs w) (watch_seen wo w) \<longleftrightarrow> xs \<noteq> [])"

lemma watch_lawsD:
  assumes "watch_laws wo"
  shows "watch_borrow wo (watch_channel wo x) = x"
    and "watch_has_changed wo (sent wo xs w) (watch_seen wo w) \<longleftrightarrow> xs \<noteq> []"
  using assms by (simp_all add: watch_laws_def)

lemma watch_sendE:
  assumes "watch_laws wo"
  obtains w' where "watch_send wo x w = Some w'" "watch_borrow wo w' = x" "w' = sent wo [x] w"
proof -
  obtain w' where w': "watch_send wo x w = Some w'" "watch_borrow wo w' = x" using assms unfolding watch_laws_def by blast
  then have "w' = sent wo [x] w" by (simp add: sent_def)
  with w' that show ?thesis by blast
qed

section \<open>Refreshing\<close>

definition entity_bytes :: "'d entity \<Rightarrow> string" where
  "entity_bytes e = (case ent_contents e of Some c \<Rightarrow> c | None \<Rightarrow> [])"

definition same_stamp :: "'d entity \<Rightarrow> ('w, 'r, 'a, 'd, 'e) registered \<Rightarrow> bool" where
  "same_stamp e r \<longleftrightarrow> ent_mod_time e = re_mod_time r \<and> ent_version e = re_version r"

text \<open>What a refresh makes of an entity.\<close>

definition refreshed ::
  "('w, 'r, 'a) watch_ops \<Rightarrow> ('d, 'e) source \<Rightarrow> ('w, 'r, 'a, 'd, 'e) registered \<Rightarrow> ('w, 'r, 'a, 'd, 'e) registered" where
  "refreshed wo src r =
     (case config_for_path src (re_path r) of Err e \<Rightarrow> r | Ok e \<Rightarrow> snd (re_refresh wo e r))"

lemma re_refresh_cases:
  assumes "watch_laws wo"
  shows "(same_stamp e r \<longrightarrow> re_refresh wo e r = (Ok False, r)) \<and>
    (\<forall>err. \<not> same_stamp e r \<longrightarrow> re_deserializer r (entity_bytes e) = Err err \<longrightarrow> re_refresh wo e r = (Err (Failure err), r)) \<and>
    (\<forall>c. \<not> same_stamp e r \<longrightarrow> re_deserializer r (entity_bytes e) = Ok c \<longrightarrow>
       re_refresh wo e r = (Ok True, r\<lparr>re_watch := sent wo [c] (re_watch r), re_mod_time := ent_mod_time e, re_version := ent_version e\<rparr>))"
proof -
  have "\<exists>w. watch_send wo c (re_watch r) = Some w \<and> w = sent wo [c] (re_watch r)" for c
    using watch_sendE [OF assms] by metis
  then show ?thesis by (fastforce simp: re_refresh_def same_stamp_def entity_bytes_def)
qed

lemma refreshed_same [simp]:
  "re_path (refreshed wo src r) = re_path r" "re_deserializer (refreshed wo src r) = re_deserializer r"
  "re_receiver (refreshed wo src r) = re_receiver r"
  by (auto simp: refreshed_def re_refresh_def split: result.splits option.splits)

text \<open>Refreshing twice from the same source is refreshing once.\<close>

lemma refreshed_idem:
  assumes "watch_laws wo"
  shows "refreshed wo src (refreshed wo src r) = refreshed wo src r"
proof (cases "config_for_path src (re_path r)")
  case (Ok e)
  note c = re_refresh_cases [OF assms, of e]
  show ?thesis
  proof (cases "\<exists>c. \<not> same_stamp e r \<and> re_deserializer r (entity_bytes e) = Ok c")
    case True
    then obtain c where "refreshed wo src r = r\<lparr>re_watch := sent wo [c] (re_watch r), re_mod_time := ent_mod_time e, re_version := ent_version e\<rparr>"
      using c [of r] Ok by (auto simp: refreshed_def)
    moreover from this have "same_stamp e (refreshed wo src r)" by (simp add: same_stamp_def)
    ultimately show ?thesis using c [of "refreshed wo src r"] Ok by (simp add: refreshed_def)
  next
    case False
    then have "refreshed wo src r = r"
      using c [of r] Ok by (cases "re_deserializer r (entity_bytes e)") (auto simp: refreshed_def)
    then show ?thesis by simp
  qed
qed (simp add: refreshed_def)

definition refresh_at ::
  "('w, 'r, 'a) watch_ops \<Rightarrow> ('d, 'e) source \<Rightarrow> nat set \<Rightarrow> ('w, 'r, 'a, 'd, 'e) config_store \<Rightarrow> ('w, 'r, 'a, 'd, 'e) config_store" where
  "refresh_at wo src A st =
     st\<lparr>cs_entities := map (\<lambda>a. if a \<in> A then refreshed wo src (cs_entities st ! a) else cs_entities st ! a) [0..<length (cs_entities st)]\<rparr>"

lemma refresh_at_simps [simp]:
  "cs_strong (refresh_at wo src A st) = cs_strong st" "cs_clients (refresh_at wo src A st) = cs_clients st"
  "length (cs_entities (refresh_at wo src A st)) = length (cs_entities st)" "alive (refresh_at wo src A st) = alive st"
  "a < length (cs_entities st) \<Longrightarrow> cs_entities (refresh_at wo src A st) ! a =
     (if a \<in> A then refreshed wo src (cs_entities st ! a) else cs_entities st ! a)"
  by (simp_all add: refresh_at_def alive_def fun_eq_iff)

lemma refresh_at_empty [simp]: "refresh_at wo src {} st = st"
  by (simp add: refresh_at_def map_nth)

lemma refresh_at_un:
  assumes "watch_laws wo"
  shows "refresh_at wo src B (refresh_at wo src A st) = refresh_at wo src (A \<union> B) st"
  by (auto simp: refresh_at_def refreshed_idem [OF assms] intro!: nth_equalityI)

lemma refresh_client_at:
  assumes "client < length (cs_entities st)"
  shows "refresh_client wo src client st = refresh_at wo src {client} st"
proof -
  have "(cs_entities st)[client := refreshed wo src (cs_entities st ! client)] =
      map (\<lambda>a. if a \<in> {client} then refreshed wo src (cs_entities st ! a) else cs_entities st ! a) [0..<length (cs_entities st)]"
    using assms by (auto intro!: nth_equalityI simp: nth_list_update)
  moreover have "st\<lparr>cs_entities := (cs_entities st)[client := cs_entities st ! client]\<rparr> = st" by simp
  ultimately show ?thesis
    by (auto simp: refresh_client_def refresh_at_def refreshed_def split: result.splits)
qed

lemma refresh_client_list_at:
  "watch_laws wo \<Longrightarrow> set l \<subseteq> {..<length (cs_entities st)} \<Longrightarrow>
     refresh_client_list wo src l st = refresh_at wo src {a \<in> set l. alive st a} st"
proof (induction l arbitrary: st)
  case (Cons c l)
  show ?case
  proof (cases "alive st c")
    case True
    have eq: "insert c {a \<in> set l. alive st a} = {a. (a = c \<or> a \<in> set l) \<and> alive st a}" using True by auto
    from True Cons show ?thesis
      using refresh_at_un [OF Cons.prems(1), of src "{a \<in> set l. alive st a}" "{c}" st]
      by (simp add: refresh_client_at eq)
  next
    case False
    have eq: "{a \<in> set l. alive st a} = {a \<in> set (c # l). alive st a}" using False by auto
    from False Cons eq show ?thesis by simp
  qed
qed simp

section \<open>The invariant of the store\<close>

text \<open>
  Every path has one client list, of entities of that path, and every entity with a handle left is in
  the list of its path.
\<close>

definition cs_inv :: "('w, 'r, 'a, 'd, 'e) config_store \<Rightarrow> bool" where
  "cs_inv st \<longleftrightarrow> length (cs_strong st) = length (cs_entities st) \<and> distinct (map fst (cs_clients st)) \<and>
     (\<forall>p l. map_of (cs_clients st) p = Some l \<longrightarrow> distinct l \<and> (\<forall>a \<in> set l. a < length (cs_entities st) \<and> re_path (cs_entities st ! a) = p)) \<and>
     (\<forall>a. alive st a \<longrightarrow> (\<exists>l. map_of (cs_clients st) (re_path (cs_entities st ! a)) = Some l \<and> a \<in> set l))"

lemma cs_invD:
  assumes "cs_inv st"
  shows "length (cs_strong st) = length (cs_entities st)" "distinct (map fst (cs_clients st))"
    and "map_of (cs_clients st) p = Some l \<Longrightarrow> distinct l"
    and "map_of (cs_clients st) p = Some l \<Longrightarrow> a \<in> set l \<Longrightarrow> a < length (cs_entities st) \<and> re_path (cs_entities st ! a) = p"
    and "alive st a \<Longrightarrow> \<exists>l. map_of (cs_clients st) (re_path (cs_entities st ! a)) = Some l \<and> a \<in> set l"
  using assms unfolding cs_inv_def by blast+

lemma refresh_at_inv: "cs_inv st \<Longrightarrow> cs_inv (refresh_at wo src A st)"
  unfolding cs_inv_def
  by (intro conjI allI impI ballI) (auto simp: alive_def split: if_splits)

lemma alive_bound: "cs_inv st \<Longrightarrow> alive st a \<Longrightarrow> a < length (cs_entities st)"
  by (simp add: cs_inv_def alive_def)

lemma refresh_paths_at:
  "watch_laws wo \<Longrightarrow> cs_inv st \<Longrightarrow>
     refresh_paths wo src ps st = refresh_at wo src {a. alive st a \<and> re_path (cs_entities st ! a) \<in> set ps} st"
proof (induction ps arbitrary: st)
  case (Cons p ps)
  let ?A = "{a. alive st a \<and> re_path (cs_entities st ! a) = p}"
  have step: "(case map_of (cs_clients st) p of Some l \<Rightarrow> refresh_client_list wo src l st | None \<Rightarrow> st) = refresh_at wo src ?A st"
  proof (cases "map_of (cs_clients st) p")
    case None
    with cs_invD(5) [OF Cons.prems(2)] have "?A = {}" by force
    with None show ?thesis unfolding \<open>?A = {}\<close> by simp
  next
    case (Some l)
    have "{a \<in> set l. alive st a} = ?A"
    proof (intro set_eqI iffI)
      fix a assume "a \<in> ?A"
      with cs_invD(5) [OF Cons.prems(2), of a] Some show "a \<in> {a \<in> set l. alive st a}" by auto
    qed (use cs_invD(4) [OF Cons.prems(2) Some] in auto)
    moreover have "set l \<subseteq> {..<length (cs_entities st)}" using cs_invD(4) [OF Cons.prems(2) Some] by auto
    ultimately show ?thesis using refresh_client_list_at [OF Cons.prems(1), of l st src] Some by simp
  qed
  let ?st = "refresh_at wo src ?A st"
  have "re_path (cs_entities ?st ! a) = re_path (cs_entities st ! a)" if "alive st a" for a
    using alive_bound [OF Cons.prems(2) that] by simp
  then have "?A \<union> {a. alive ?st a \<and> re_path (cs_entities ?st ! a) \<in> set ps} =
      {a. alive st a \<and> re_path (cs_entities st ! a) \<in> set (p # ps)}" by auto
  with Cons.IH [OF Cons.prems(1) refresh_at_inv [OF Cons.prems(2)]] step
    refresh_at_un [OF Cons.prems(1), of src _ ?A st] show ?case by simp
qed simp

lemma retain_clients_list:
  assumes "cs_inv st"
  shows "map_of (cs_clients (retain_clients st)) p =
    (case map_of (cs_clients st) p of
       None \<Rightarrow> None
     | Some l \<Rightarrow> if filter (alive st) l = [] then None else Some (filter (alive st) l))"
proof -
  have "map_of (filter (\<lambda>(_, l). l \<noteq> []) (map (\<lambda>(q, l). (q, filter (alive st) l)) cl)) p =
      (case map_of cl p of None \<Rightarrow> None | Some l \<Rightarrow> if filter (alive st) l = [] then None else Some (filter (alive st) l))"
    if "distinct (map fst cl)" for cl :: "(string \<times> nat list) list"
    using that
  proof (induction cl)
    case (Cons ql cl)
    moreover have "map_of cl p = None" if "fst ql = p" using Cons.prems that by (auto simp: map_of_eq_None_iff)
    ultimately show ?case by (cases ql) (auto split: option.splits)
  qed simp
  from this [OF cs_invD(2) [OF assms]] show ?thesis by (simp add: retain_clients_def)
qed

lemma retain_clients_simps [simp]:
  "cs_entities (retain_clients st) = cs_entities st" "cs_strong (retain_clients st) = cs_strong st"
  "alive (retain_clients st) = alive st"
  by (simp_all add: retain_clients_def alive_def fun_eq_iff)

lemma retain_clients_inv:
  assumes "cs_inv st"
  shows "cs_inv (retain_clients st)"
  unfolding cs_inv_def
proof (intro conjI allI impI)
  show "length (cs_strong (retain_clients st)) = length (cs_entities (retain_clients st))"
    using cs_invD(1) [OF assms] by simp
  have "map fst (map (\<lambda>(q, l). (q, filter (alive st) l)) (cs_clients st)) = map fst (cs_clients st)"
    by (simp add: case_prod_unfold comp_def)
  with cs_invD(2) [OF assms] show "distinct (map fst (cs_clients (retain_clients st)))"
    unfolding retain_clients_def by (simp add: distinct_map_filter del: map_map)
next
  fix p l assume "map_of (cs_clients (retain_clients st)) p = Some l"
  then obtain l0 where l0: "map_of (cs_clients st) p = Some l0" "l = filter (alive st) l0"
    by (auto simp: retain_clients_list [OF assms] split: option.splits if_splits)
  then show "distinct l" using cs_invD(3) [OF assms l0(1)] by simp
  from l0 cs_invD(4) [OF assms l0(1)]
  show "\<forall>a \<in> set l. a < length (cs_entities (retain_clients st)) \<and> re_path (cs_entities (retain_clients st) ! a) = p" by simp
next
  fix a assume a: "alive (retain_clients st) a"
  then obtain l where "map_of (cs_clients st) (re_path (cs_entities st ! a)) = Some l" "a \<in> set l"
    using cs_invD(5) [OF assms, of a] by auto
  with a have "map_of (cs_clients (retain_clients st)) (re_path (cs_entities st ! a)) = Some (filter (alive st) l)"
    "a \<in> set (filter (alive st) l)" by (auto simp: retain_clients_list [OF assms] filter_empty_conv)
  then show "\<exists>l. map_of (cs_clients (retain_clients st)) (re_path (cs_entities (retain_clients st) ! a)) = Some l \<and> a \<in> set l"
    by simp
qed

text \<open>An iteration of the updater.\<close>

lemma updater_iteration_at:
  assumes "watch_laws wo" "cs_inv st" "updater_thread_iteration wo src st = Some st'"
  shows "st' = retain_clients (refresh_at wo src
      {a. alive st a \<and> re_path (cs_entities st ! a) \<in> set (paths_to_refresh src (map fst (cs_clients st)))} st)"
    and "cs_inv st'"
  using assms refresh_paths_at [OF assms(1,2), of src "paths_to_refresh src (map fst (cs_clients st))"]
  by (auto simp: updater_thread_iteration_def split: if_splits intro!: retain_clients_inv refresh_at_inv)

section \<open>Runs\<close>

datatype ('a, 'd, 'e) cs_op =
  Cs_Get "('d, 'e) source" string "string \<Rightarrow> ('a, 'e) result"
| Cs_Clone nat
| Cs_Drop nat
| Cs_Update "('d, 'e) source"

text \<open>Only a handle that is there can be cloned or dropped.\<close>

fun cs_step ::
  "('w, 'r, 'a) watch_ops \<Rightarrow> ('a, 'd, 'e) cs_op \<Rightarrow> ('w, 'r, 'a, 'd, 'e) config_store \<Rightarrow> ('w, 'r, 'a, 'd, 'e) config_store" where
  "cs_step wo (Cs_Get src path deserializer) st = snd (get_config_handle_with_deserializer wo src path deserializer st)"
| "cs_step wo (Cs_Clone a) st = (if alive st a then handle_clone (Registered a) st else st)"
| "cs_step wo (Cs_Drop a) st = (if alive st a then handle_drop (Registered a) st else st)"
| "cs_step wo (Cs_Update src) st = (case updater_thread_iteration wo src st of None \<Rightarrow> st | Some st' \<Rightarrow> st')"

definition cs_run :: "('w, 'r, 'a) watch_ops \<Rightarrow> ('a, 'd, 'e) cs_op list \<Rightarrow> ('w, 'r, 'a, 'd, 'e) config_store" where
  "cs_run wo ops = fold (cs_step wo) ops cs_new"

lemma cs_new_inv: "cs_inv cs_new"
  by (simp add: cs_inv_def cs_new_def alive_def)

lemma get_handle_inv:
  assumes "cs_inv st"
  shows "cs_inv (snd (get_config_handle_with_deserializer wo src path deserializer st))"
proof (cases "\<exists>e r. config_for_path src path = Ok e \<and> re_new wo path e deserializer = Ok r")
  case True
  then obtain e r where r: "config_for_path src path = Ok e" "re_new wo path e deserializer = Ok r" by blast
  then have path: "re_path r = path" by (auto simp: re_new_def split: result.splits)
  let ?a = "length (cs_entities st)"
  let ?l = "case map_of (cs_clients st) path of Some l \<Rightarrow> l | None \<Rightarrow> []"
  let ?st = "st\<lparr>cs_entities := cs_entities st @ [r], cs_strong := cs_strong st @ [1], cs_clients := AList.update path (?l @ [?a]) (cs_clients st)\<rparr>"
  note inv = cs_invD [OF assms]
  have st: "snd (get_config_handle_with_deserializer wo src path deserializer st) = ?st"
    using r by (simp add: get_config_handle_with_deserializer_def Let_def)
  have old: "a < ?a" if "alive st a" for a by (rule alive_bound [OF assms that])
  have alive: "alive ?st a \<longleftrightarrow> alive st a \<or> a = ?a" for a
    using inv(1) by (auto simp: alive_def nth_append less_Suc_eq)
  have clients: "map_of (cs_clients ?st) p = (if p = path then Some (?l @ [?a]) else map_of (cs_clients st) p)" for p
    by (simp add: update_conv')
  have l: "distinct ?l" "\<forall>a \<in> set ?l. a < ?a \<and> re_path (cs_entities st ! a) = path"
    using inv(3,4) [of path] by (cases "map_of (cs_clients st) path"; auto)+
  show ?thesis
    unfolding st cs_inv_def
  proof (intro conjI allI impI)
    show "length (cs_strong ?st) = length (cs_entities ?st)" using inv(1) by simp
    show "distinct (map fst (cs_clients ?st))" using inv(2) by (simp add: distinct_update)
    fix p l' assume "map_of (cs_clients ?st) p = Some l'"
    then show "distinct l'" "\<forall>a \<in> set l'. a < length (cs_entities ?st) \<and> re_path (cs_entities ?st ! a) = p"
      using l inv(3,4) [of p] path unfolding clients by (fastforce split: if_splits simp: nth_append)+
  next
    fix a assume "alive ?st a"
    then show "\<exists>l. map_of (cs_clients ?st) (re_path (cs_entities ?st ! a)) = Some l \<and> a \<in> set l"
      using inv(5) [of a] old [of a] path unfolding alive clients by (auto simp: nth_append split: option.splits)
  qed
next
  case False
  then have "snd (get_config_handle_with_deserializer wo src path deserializer st) = st"
    by (auto simp: get_config_handle_with_deserializer_def split: result.splits)
  with assms show ?thesis by simp
qed

lemma strong_inv:
  assumes "cs_inv st" "alive st a" "\<And>b. 0 < s ! b \<Longrightarrow> b < length s \<Longrightarrow> alive st b" "length s = length (cs_strong st)"
  shows "cs_inv (st\<lparr>cs_strong := s\<rparr>)"
proof -
  have "alive st b" if "alive (st\<lparr>cs_strong := s\<rparr>) b" for b using that assms(3,4) by (simp add: alive_def)
  then show ?thesis using assms(1,4) by (auto simp: cs_inv_def)
qed

lemma cs_step_inv:
  assumes "watch_laws wo" "cs_inv st"
  shows "cs_inv (cs_step wo op st)"
proof (cases op)
  case (Cs_Get src path d)
  then show ?thesis using get_handle_inv [OF assms(2)] by simp
next
  case (Cs_Update src)
  then show ?thesis using updater_iteration_at(2) [OF assms] assms(2) by (auto split: option.splits)
next
  case (Cs_Clone a)
  then show ?thesis using assms(2)
    by (auto simp: handle_clone_def alive_def nth_list_update intro!: strong_inv [of st a] split: if_splits)
next
  case (Cs_Drop a)
  then show ?thesis using assms(2)
    by (auto simp: handle_drop_def alive_def nth_list_update intro!: strong_inv [of st a] split: if_splits)
qed

lemma cs_run_inv:
  assumes "watch_laws wo"
  shows "cs_inv (cs_run wo ops)"
proof -
  have "cs_inv st \<Longrightarrow> cs_inv (fold (cs_step wo) ops st)" for st
    by (induction ops arbitrary: st) (use cs_step_inv [OF assms] in auto)
  with cs_new_inv show ?thesis by (simp add: cs_run_def)
qed

section \<open>Sources whose stamps tell contents apart\<close>

text \<open>Every entity holds what some state of the source had under the stamp that is recorded.\<close>

definition coherent ::
  "('w, 'r, 'a) watch_ops \<Rightarrow> ('s \<Rightarrow> string \<Rightarrow> ('d entity, 'e) result) \<Rightarrow> ('w, 'r, 'a, 'd, 'e) config_store \<Rightarrow> bool" where
  "coherent wo ents st \<longleftrightarrow>
     (\<forall>r \<in> set (cs_entities st). \<exists>s e. ents s (re_path r) = Ok e \<and> same_stamp e r \<and>
        re_deserializer r (entity_bytes e) = Ok (re_get wo r))"

fun from_source :: "('s \<Rightarrow> string \<Rightarrow> ('d entity, 'e) result) \<Rightarrow> ('a, 'd, 'e) cs_op \<Rightarrow> bool" where
  "from_source ents (Cs_Get src path deserializer) \<longleftrightarrow> (\<exists>s. config_for_path src = ents s)"
| "from_source ents (Cs_Update src) \<longleftrightarrow> (\<exists>s. config_for_path src = ents s)"
| "from_source ents op \<longleftrightarrow> True"

lemma refreshed_coherent:
  assumes "watch_laws wo" "config_for_path src = ents s"
    and "\<exists>s e. ents s (re_path r) = Ok e \<and> same_stamp e r \<and> re_deserializer r (entity_bytes e) = Ok (re_get wo r)"
  shows "\<exists>s e. ents s (re_path (refreshed wo src r)) = Ok e \<and> same_stamp e (refreshed wo src r) \<and>
    re_deserializer (refreshed wo src r) (entity_bytes e) = Ok (re_get wo (refreshed wo src r))"
proof (cases "\<exists>e c. ents s (re_path r) = Ok e \<and> \<not> same_stamp e r \<and> re_deserializer r (entity_bytes e) = Ok c")
  case True
  then obtain e c where e: "ents s (re_path r) = Ok e" "\<not> same_stamp e r" "re_deserializer r (entity_bytes e) = Ok c" by blast
  then have "refreshed wo src r = r\<lparr>re_watch := sent wo [c] (re_watch r), re_mod_time := ent_mod_time e, re_version := ent_version e\<rparr>"
    using re_refresh_cases [OF assms(1), of e r] assms(2) by (auto simp: refreshed_def)
  moreover have "watch_borrow wo (sent wo [c] (re_watch r)) = c" using watch_sendE [OF assms(1)] by metis
  ultimately show ?thesis using e(1,3) by (auto simp: same_stamp_def re_get_def)
next
  case False
  have "refreshed wo src r = r"
  proof (cases "ents s (re_path r)")
    case (Ok e)
    with False re_refresh_cases [OF assms(1), of e r] show ?thesis
      using assms(2) by (cases "re_deserializer r (entity_bytes e)") (auto simp: refreshed_def)
  qed (simp add: refreshed_def assms(2))
  with assms(3) show ?thesis by simp
qed

lemma refresh_at_coherent:
  assumes "watch_laws wo" "config_for_path src = ents s" "coherent wo ents st"
  shows "coherent wo ents (refresh_at wo src A st)"
  using assms(3) refreshed_coherent [of wo src ents s, OF assms(1,2)]
  by (force simp: coherent_def refresh_at_def)

lemma coherent_cong: "cs_entities st' = cs_entities st \<Longrightarrow> coherent wo ents st' \<longleftrightarrow> coherent wo ents st"
  by (simp add: coherent_def)

lemma coherent_step:
  assumes "watch_laws wo" "cs_inv st" "coherent wo ents st" "from_source ents op"
  shows "coherent wo ents (cs_step wo op st)"
proof (cases op)
  case (Cs_Get src path d)
  with assms(4) obtain s where s: "config_for_path src = ents s" by auto
  have "\<exists>s e. ents s (re_path r) = Ok e \<and> same_stamp e r \<and> re_deserializer r (entity_bytes e) = Ok (re_get wo r)"
    if "ents s path = Ok e" "re_new wo path e d = Ok r" for e r
    using that by (auto simp: re_new_def same_stamp_def entity_bytes_def re_get_def watch_lawsD [OF assms(1)]
        split: result.splits intro!: exI [of _ s])
  with Cs_Get s assms(3) show ?thesis
    by (auto simp: get_config_handle_with_deserializer_def coherent_def Let_def split: result.splits)
next
  case (Cs_Update src)
  with assms(4) obtain s where s: "config_for_path src = ents s" by auto
  show ?thesis
  proof (cases "updater_thread_iteration wo src st")
    case None
    with Cs_Update assms(3) show ?thesis by simp
  next
    case (Some st')
    from updater_iteration_at(1) [OF assms(1,2) Some] refresh_at_coherent [OF assms(1) s assms(3)]
    have "coherent wo ents st'" by (simp add: coherent_def)
    with Cs_Update Some show ?thesis by simp
  qed
next
  case (Cs_Clone a)
  with assms(3) show ?thesis by (simp add: handle_clone_def coherent_def)
next
  case (Cs_Drop a)
  with assms(3) show ?thesis by (simp add: handle_drop_def coherent_def)
qed

lemma coherent_run:
  assumes "watch_laws wo" "\<forall>op \<in> set ops. from_source ents op"
  shows "coherent wo ents (cs_run wo ops)"
proof -
  have "cs_inv st \<Longrightarrow> coherent wo ents st \<Longrightarrow> coherent wo ents (fold (cs_step wo) ops st)" for st
    using assms(2)
  proof (induction ops arbitrary: st)
    case (Cons op ops)
    then show ?case using coherent_step [OF assms(1) Cons.prems(1,2)] cs_step_inv [OF assms(1) Cons.prems(1)] by simp
  qed simp
  from this [OF cs_new_inv] show ?thesis unfolding cs_run_def by (simp add: coherent_def cs_new_def)
qed

text \<open>
  What the store needs of a source for its handles to be up to date: two entities of a path with the
  same modification time and version have the same contents.
\<close>

locale stamped_source =
  fixes ents :: "'s \<Rightarrow> string \<Rightarrow> ('d entity, 'e) result"
  assumes stamps: "ents s p = Ok e \<Longrightarrow> ents s' p = Ok e' \<Longrightarrow> ent_mod_time e = ent_mod_time e' \<Longrightarrow>
    ent_version e = ent_version e' \<Longrightarrow> ent_contents e = ent_contents e'"
begin

lemma up_to_date:
  assumes "watch_laws wo" "cs_inv st" "coherent wo ents st" "config_for_path src = ents s"
    and "updater_thread_iteration wo src st = Some st'" "alive st' a"
    and "re_path (cs_entities st' ! a) \<in> set (paths_to_refresh src (map fst (cs_clients st)))"
    and "ents s (re_path (cs_entities st' ! a)) = Ok e" "re_deserializer (cs_entities st' ! a) (entity_bytes e) = Ok c"
  shows "re_get wo (cs_entities st' ! a) = c"
proof -
  let ?r = "cs_entities st ! a"
  note st' = updater_iteration_at(1) [OF assms(1,2,5)]
  have a: "alive st a" using assms(6) by (simp add: st')
  have len: "a < length (cs_entities st)" by (rule alive_bound [OF assms(2) a])
  have path: "re_path (cs_entities st' ! a) = re_path ?r" using len by (simp add: st')
  have r': "cs_entities st' ! a = refreshed wo src ?r" using a len assms(7) path by (simp add: st')
  have e: "ents s (re_path ?r) = Ok e" "re_deserializer ?r (entity_bytes e) = Ok c" using assms(8,9) by (simp_all add: r')
  show ?thesis
  proof (cases "same_stamp e ?r")
    case True
    then have "refreshed wo src ?r = ?r"
      using re_refresh_cases [OF assms(1), of e ?r] e(1) assms(4) by (simp add: refreshed_def)
    moreover obtain s0 e0 where e0: "ents s0 (re_path ?r) = Ok e0" "same_stamp e0 ?r"
      "re_deserializer ?r (entity_bytes e0) = Ok (re_get wo ?r)"
      using assms(3) len unfolding coherent_def by (metis nth_mem)
    have "ent_contents e = ent_contents e0"
      by (rule stamps [OF e(1) e0(1)]) (use True e0(2) in \<open>simp_all add: same_stamp_def\<close>)
    ultimately show ?thesis using e(2) e0(3) r' by (simp add: entity_bytes_def)
  next
    case False
    then have "refreshed wo src ?r = ?r\<lparr>re_watch := sent wo [c] (re_watch ?r), re_mod_time := ent_mod_time e, re_version := ent_version e\<rparr>"
      using re_refresh_cases [OF assms(1), of e ?r] e assms(4) by (simp add: refreshed_def)
    moreover have "watch_borrow wo (sent wo [c] (re_watch ?r)) = c" using watch_sendE [OF assms(1)] by metis
    ultimately show ?thesis by (simp add: r' re_get_def)
  qed
qed

end

text \<open>The version of a file is its contents.\<close>

interpretation files: stamped_source "file_config_for_path this" for this
  by unfold_locales (auto simp: file_config_for_path_def Let_def split: result.splits option.splits)

section \<open>Properties\<close>

text \<open>
  After an update the client lists of the store hold exactly the entities that a handle is left of, each
  once and under its path, whatever handles were fetched, cloned and dropped before, and whatever
  the sources answered.
\<close>

theorem config_store_tracks_handles:
  assumes "watch_laws wo" "updater_thread_iteration wo src (cs_run wo ops) = Some st'"
  shows "(\<forall>p l. map_of (cs_clients st') p = Some l \<longrightarrow>
      l \<noteq> [] \<and> distinct l \<and> (\<forall>a \<in> set l. alive st' a \<and> re_path (cs_entities st' ! a) = p)) \<and>
    (\<forall>a. alive st' a \<longrightarrow> (\<exists>l. map_of (cs_clients st') (re_path (cs_entities st' ! a)) = Some l \<and> a \<in> set l))"
proof -
  let ?A = "{a. alive (cs_run wo ops) a \<and> re_path (cs_entities (cs_run wo ops) ! a) \<in>
    set (paths_to_refresh src (map fst (cs_clients (cs_run wo ops))))}"
  let ?st = "refresh_at wo src ?A (cs_run wo ops)"
  note inv = cs_run_inv [OF assms(1), of ops]
  note st' = updater_iteration_at [OF assms(1) inv assms(2)]
  have inv1: "cs_inv ?st" by (rule refresh_at_inv [OF inv])
  have "l \<noteq> [] \<and> distinct l \<and> (\<forall>a \<in> set l. alive st' a \<and> re_path (cs_entities st' ! a) = p)"
    if "map_of (cs_clients st') p = Some l" for p l
  proof -
    from that obtain l0 where l0: "l = filter (alive ?st) l0" "l \<noteq> []"
      unfolding st'(1) retain_clients_list [OF inv1] by (auto split: option.splits if_splits)
    then have "alive st' a" if "a \<in> set l" for a using that by (simp add: st'(1))
    with cs_invD(3,4) [OF st'(2) that] l0(2) show ?thesis by blast
  qed
  with cs_invD(5) [OF st'(2)] show ?thesis by blast
qed

text \<open>
  C22. A store over files is up to date after each update: every handle that is left returns what its
  file now holds, if it can be read and deserialized, however often the files changed, even
  within a second and back again.
\<close>

theorem file_configs_up_to_date:
  fixes st' :: "('w, 'r, 'a, 'd, 'e) config_store" and e :: "'d entity"
  assumes "watch_laws wo" "\<forall>op \<in> set ops. from_source (file_config_for_path this) op"
    and "updater_thread_iteration wo (file_source_of this fs) (cs_run wo ops) = Some st'" "alive st' a"
    and "file_config_for_path this fs (re_path (cs_entities st' ! a)) = Ok e"
    and "re_deserializer (cs_entities st' ! a) (entity_bytes e) = Ok c"
  shows "handle_get wo (Registered a) st' = c"
proof -
  note inv = cs_run_inv [OF assms(1), of ops]
  note st' = updater_iteration_at(1) [OF assms(1) inv assms(3)]
  have "alive (cs_run wo ops) a" using assms(4) by (simp add: st')
  moreover from this have "a < length (cs_entities (cs_run wo ops))" by (rule alive_bound [OF inv])
  ultimately have "re_path (cs_entities st' ! a) \<in> set (map fst (cs_clients (cs_run wo ops)))"
    using cs_invD(5) [OF inv, of a] by (force simp: st' dest: map_of_SomeD)
  then have "re_path (cs_entities st' ! a) \<in> set (paths_to_refresh (file_source_of this fs) (map fst (cs_clients (cs_run wo ops))))"
    by (simp add: file_source_of_def file_paths_to_refresh_def)
  from files.up_to_date [OF assms(1) inv coherent_run [OF assms(1,2)] _ assms(3,4) this assms(5,6)]
  show ?thesis by (simp add: file_source_of_def handle_get_def)
qed

section \<open>A channel and a file system for examples\<close>

definition counted_watch :: "(nat \<times> 'a, nat, 'a) watch_ops" where
  "counted_watch = \<lparr>watch_channel = Pair 0, watch_send = (\<lambda>x w. Some (fst w + 1, x)), watch_borrow = snd,
     watch_seen = fst, watch_has_changed = (\<lambda>w r. fst w \<noteq> r)\<rparr>"

lemma counted_watch_laws: "watch_laws counted_watch"
proof -
  have "fst (sent counted_watch xs w) = fst w + length xs" for xs :: "'a list" and w
    by (induction xs arbitrary: w) (simp_all add: sent_def counted_watch_def)
  then show ?thesis by (simp add: watch_laws_def counted_watch_def)
qed

definition sample_fs :: "string \<Rightarrow> string file_system" where
  "sample_fs contents =
     \<lparr>read_to_string = (\<lambda>path. if path = ''/etc/a.json'' then Ok contents else Err ''no such file''),
      modified_secs = (\<lambda>_. Ok 7)\<rparr>"

definition sample_files :: file_source where
  "sample_files = \<lparr>fs_directory = ''/etc'', fs_extension = Some ''.json''\<rparr>"

definition sample_ops :: "(string, nat, string) cs_op list" where
  "sample_ops = [Cs_Get (file_source_of sample_files (sample_fs ''one'')) ''a'' Ok,
     Cs_Get (file_source_of sample_files (sample_fs ''one'')) ''a'' Ok, Cs_Drop 0]"

definition sample_store :: "(nat \<times> string, nat, string, nat, string) config_store" where
  "sample_store = the (updater_thread_iteration counted_watch (file_source_of sample_files (sample_fs ''two''))
     (cs_run counted_watch sample_ops))"

lemma sample_update:
  "updater_thread_iteration counted_watch (file_source_of sample_files (sample_fs ''two'')) (cs_run counted_watch sample_ops) =
     Some sample_store"
  by (simp add: sample_store_def updater_thread_iteration_def) code_simp

lemma sample_from_files: "\<forall>op \<in> set sample_ops. from_source (file_config_for_path sample_files) op"
  by (auto simp: sample_ops_def file_source_of_def)

theorem config_store_tracks_handles_witness:
  "cs_clients sample_store = [(''a'', [1])] \<and> \<not> alive sample_store 0 \<and>
   (alive sample_store 1 \<and> re_path (cs_entities sample_store ! 1) = ''a'') \<and>
   (\<exists>l. map_of (cs_clients sample_store) (re_path (cs_entities sample_store ! 1)) = Some l \<and> 1 \<in> set l)"
proof (intro conjI)
  note tracks = config_store_tracks_handles [OF counted_watch_laws sample_update]
  show clients: "cs_clients sample_store = [(''a'', [1])]" and "\<not> alive sample_store 0" by code_simp+
  from clients have a: "map_of (cs_clients sample_store) ''a'' = Some [1]" by simp
  show alive: "alive sample_store 1" and "re_path (cs_entities sample_store ! 1) = ''a''"
    using conjunct1 [OF tracks, rule_format, OF a] by simp_all
  show "\<exists>l. map_of (cs_clients sample_store) (re_path (cs_entities sample_store ! 1)) = Some l \<and> 1 \<in> set l"
    by (rule conjunct2 [OF tracks, rule_format, OF alive])
qed

theorem file_configs_up_to_date_witness: "handle_get counted_watch (Registered 1) sample_store = ''two''"
proof (rule file_configs_up_to_date [OF counted_watch_laws sample_from_files sample_update])
  show "alive sample_store 1" by code_simp
  show "file_config_for_path sample_files (sample_fs ''two'') (re_path (cs_entities sample_store ! 1)) =
      Ok (\<lparr>ent_contents = Some ''two'', ent_mod_time = UnixTimestamp 7, ent_version = ''two''\<rparr> :: nat entity)" by code_simp
  show "re_deserializer (cs_entities sample_store ! 1)
      (entity_bytes \<lparr>ent_contents = Some ''two'', ent_mod_time = UnixTimestamp 7 :: nat modification_time, ent_version = ''two''\<rparr>) = Ok ''two''"
    by code_simp
qed

end
