(* ===== verification/Just_Knobs.thy ===== *)
theory Just_Knobs
  imports Cached_Config
begin

text \<open>
  JustKnobs (\<open>shed/justknobs_stub/src\<close>): named switches and numbers, looked up in the memory of the
  current thread, in a config that a worker keeps up to date, or in the stub of the open-source build.
  The thread-local memory of all threads and the two global cells are the state.  Log messages are left out.
\<close>

section \<open>Knobs\<close>

datatype knob_val = Knob_Bool bool | Knob_Int int

type_synonym knobs = "(string \<times> knob_val) list"

text \<open>The Thrift struct that a config holds.\<close>

record jk_struct =
  jk_bools :: "(string \<times> bool) list"
  jk_ints :: "(string \<times> int) list"

text \<open>\<open>collect\<close> into a \<open>HashMap\<close>: a later entry replaces an earlier one with its key.\<close>

definition collect_knobs :: "(string \<times> knob_val) list \<Rightarrow> knobs" where
  "collect_knobs kvs = fold (\<lambda>(k, v). AList.update k v) kvs []"

definition in_memory_from :: "jk_struct \<Rightarrow> knobs" where
  "in_memory_from jk =
     collect_knobs (map (\<lambda>(k, v). (k, Knob_Bool v)) (jk_bools jk) @ map (\<lambda>(k, v). (k, Knob_Int v)) (jk_ints jk))"

datatype jk_error =
  Missing_Bool string
| Missing_Int string
| Int_For_Bool string
| Bool_For_Int string
| Thread_Local_Not_Set
| Out_Of_Range

text \<open>\<open>h\<close> is the type of the handle that the worker reads.\<close>

record 'h jk_state =
  jk_thread :: "nat \<Rightarrow> knobs option"
  jk_global :: "knobs option"
  jk_worker_state :: "'h option"

definition knob_bool :: "string \<Rightarrow> knob_val \<Rightarrow> (bool, jk_error) result" where
  "knob_bool name value = (case value of Knob_Int _ \<Rightarrow> Err (Int_For_Bool name) | Knob_Bool b \<Rightarrow> Ok b)"

definition knob_int :: "string \<Rightarrow> knob_val \<Rightarrow> (int, jk_error) result" where
  "knob_int name value = (case value of Knob_Bool _ \<Rightarrow> Err (Bool_For_Int name) | Knob_Int v \<Rightarrow> Ok v)"

section \<open>In the memory of a thread\<close>

definition tl_in_use :: "nat \<Rightarrow> 'h jk_state \<Rightarrow> bool" where
  "tl_in_use t st \<longleftrightarrow> jk_thread st t \<noteq> None"

definition tl_eval :: "nat \<Rightarrow> string \<Rightarrow> 'h jk_state \<Rightarrow> (bool, jk_error) result" where
  "tl_eval t name st =
     (case jk_thread st t of
        Some jk \<Rightarrow> (case map_of jk name of Some v \<Rightarrow> knob_bool name v | None \<Rightarrow> Err (Missing_Bool name))
      | None \<Rightarrow> Err Thread_Local_Not_Set)"

definition tl_get :: "nat \<Rightarrow> string \<Rightarrow> 'h jk_state \<Rightarrow> (int, jk_error) result" where
  "tl_get t name st =
     (case jk_thread st t of
        Some jk \<Rightarrow> (case map_of jk name of Some v \<Rightarrow> knob_int name v | None \<Rightarrow> Err (Missing_Int name))
      | None \<Rightarrow> Err Thread_Local_Not_Set)"

definition merge_just_knobs :: "knobs option \<Rightarrow> knobs \<Rightarrow> knobs" where
  "merge_just_knobs old_just_knobs new_just_knobs =
     (case old_just_knobs of
        None \<Rightarrow> new_just_knobs
      | Some old \<Rightarrow> fold (\<lambda>(k, v). AList.update k v) new_just_knobs old)"

definition tl_set :: "nat \<Rightarrow> knobs option \<Rightarrow> 'h jk_state \<Rightarrow> 'h jk_state" where
  "tl_set t k st = st\<lparr>jk_thread := (jk_thread st)(t := k)\<rparr>"

text \<open>A closure is a function on the state.\<close>

definition with_just_knobs :: "nat \<Rightarrow> knobs \<Rightarrow> ('h jk_state \<Rightarrow> 'r \<times> 'h jk_state) \<Rightarrow> 'h jk_state \<Rightarrow> 'r \<times> 'h jk_state" where
  "with_just_knobs t new_just_knobs f st =
     (let old_just_knobs = jk_thread st t;
          merged_just_knobs = merge_just_knobs old_just_knobs new_just_knobs;
          (res, st) = f (tl_set t (Some merged_just_knobs) st)
      in (res, tl_set t old_just_knobs st))"

text \<open>
  The asynchronous variant merges when it is called; each poll of the future it returns, on whatever
  thread, sees the merged knobs and puts back those of the thread.
\<close>

definition with_just_knobs_async :: "nat \<Rightarrow> knobs \<Rightarrow> 'h jk_state \<Rightarrow> knobs" where
  "with_just_knobs_async t new_just_knobs st = merge_just_knobs (jk_thread st t) new_just_knobs"

definition with_just_knobs_poll ::
  "nat \<Rightarrow> knobs \<Rightarrow> ('h jk_state \<Rightarrow> 'r option \<times> 'h jk_state) \<Rightarrow> 'h jk_state \<Rightarrow> 'r option \<times> 'h jk_state" where
  "with_just_knobs_poll t merged_just_knobs fut st =
     (let old_just_knobs = jk_thread st t;
          (res, st) = fut (tl_set t (Some merged_just_knobs) st)
      in (res, tl_set t old_just_knobs st))"

definition override_just_knobs :: "nat \<Rightarrow> knobs \<Rightarrow> 'h jk_state \<Rightarrow> 'h jk_state" where
  "override_just_knobs t new_just_knobs st = tl_set t (Some (merge_just_knobs (jk_thread st t) new_just_knobs)) st"

section \<open>From a config\<close>

definition cc_in_use :: "'h jk_state \<Rightarrow> bool" where
  "cc_in_use st \<longleftrightarrow> jk_worker_state st \<noteq> None \<or> jk_global st \<noteq> None"

text \<open>\<open>get_or_init\<close> of the global cell.\<close>

definition just_knobs :: "'h jk_state \<Rightarrow> knobs \<times> 'h jk_state" where
  "just_knobs st = (case jk_global st of Some jk \<Rightarrow> (jk, st) | None \<Rightarrow> ([], st\<lparr>jk_global := Some []\<rparr>))"

definition cc_eval :: "string \<Rightarrow> 'h jk_state \<Rightarrow> (bool, jk_error) result \<times> 'h jk_state" where
  "cc_eval name st =
     (case just_knobs st of (jk, st) \<Rightarrow>
        (case map_of jk name of Some v \<Rightarrow> knob_bool name v | None \<Rightarrow> Err (Missing_Bool name), st))"

definition cc_get :: "string \<Rightarrow> 'h jk_state \<Rightarrow> (int, jk_error) result \<times> 'h jk_state" where
  "cc_get name st =
     (case just_knobs st of (jk, st) \<Rightarrow>
        (case map_of jk name of Some v \<Rightarrow> knob_int name v | None \<Rightarrow> Err (Missing_Int name), st))"

definition update_just_knobs :: "jk_struct \<Rightarrow> 'h jk_state \<Rightarrow> 'h jk_state" where
  "update_just_knobs new_just_knobs st =
     (case just_knobs st of (_, st) \<Rightarrow> st\<lparr>jk_global := Some (in_memory_from new_just_knobs)\<rparr>)"

section \<open>All together\<close>

definition stub_eval :: "string \<Rightarrow> (bool, jk_error) result" where
  "stub_eval name = Ok False"

definition stub_get :: "string \<Rightarrow> (int, jk_error) result" where
  "stub_get name = Ok 0"

definition jk_eval :: "nat \<Rightarrow> string \<Rightarrow> 'h jk_state \<Rightarrow> (bool, jk_error) result \<times> 'h jk_state" where
  "jk_eval t name st =
     (if tl_in_use t st then (tl_eval t name st, st)
      else if cc_in_use st then cc_eval name st
      else (stub_eval name, st))"

definition jk_get :: "nat \<Rightarrow> string \<Rightarrow> 'h jk_state \<Rightarrow> (int, jk_error) result \<times> 'h jk_state" where
  "jk_get t name st =
     (if tl_in_use t st then (tl_get t name st, st)
      else if cc_in_use st then cc_get name st
      else (stub_get name, st))"

text \<open>\<open>get_as\<close> converts with \<open>try_into\<close>, given as a partial function.\<close>

definition jk_get_as :: "(int \<Rightarrow> 'v option) \<Rightarrow> nat \<Rightarrow> string \<Rightarrow> 'h jk_state \<Rightarrow> ('v, jk_error) result \<times> 'h jk_state" where
  "jk_get_as try_into t name st =
     (case jk_get t name st of
        (Err e, st) \<Rightarrow> (Err e, st)
      | (Ok v, st) \<Rightarrow> (case try_into v of Some x \<Rightarrow> Ok x | None \<Rightarrow> Err Out_Of_Range, st))"

section \<open>The worker\<close>

type_synonym ('w, 'r, 'd, 'e) jk_store = "('w, 'r, jk_struct, 'd, 'e) config_store"

definition init_just_knobs ::
  "('w, 'r, jk_struct) watch_ops \<Rightarrow> jk_struct config_handle \<Rightarrow> ('w, 'r, 'd, 'e) jk_store \<Rightarrow> 'h jk_state \<Rightarrow> 'h jk_state" where
  "init_just_knobs wo config_handle store st = update_just_knobs (handle_get wo config_handle store) st"

definition init_just_knobs_worker ::
  "('w, 'r, jk_struct) watch_ops \<Rightarrow> jk_struct config_handle \<Rightarrow> ('w, 'r, 'd, 'e) jk_store \<Rightarrow>
     jk_struct config_handle jk_state \<Rightarrow> jk_struct config_handle jk_state res" where
  "init_just_knobs_worker wo config_handle store st =
     (let st = init_just_knobs wo config_handle store st in
      if jk_worker_state st \<noteq> None
      then Inl (Panic ''Two or more JustKnobs update threads exist at the same time'')
      else Inr (st\<lparr>jk_worker_state := Some config_handle\<rparr>))"

text \<open>The task \<open>wait_and_update\<close>: before its first poll, waiting, or over.\<close>

datatype 'r jk_task = Task_Spawned | Task_Waiting "'r config_watcher" | Task_Over

text \<open>
  One turn of the task: it gets its watcher first, and then at each turn takes an update if there is
  one.  The flag is set when the turn ends with \<open>Pending\<close>.
\<close>

definition wait_and_update_turn ::
  "('w, 'r, jk_struct) watch_ops \<Rightarrow> ('w, 'r, 'd, 'e) jk_store \<Rightarrow> 'r jk_task \<times> jk_struct config_handle jk_state \<Rightarrow>
     (bool \<times> 'r jk_task \<times> jk_struct config_handle jk_state) res" where
  "wait_and_update_turn wo store ts =
     (case ts of (task, st) \<Rightarrow>
        (case task of
           Task_Spawned \<Rightarrow>
             (case jk_worker_state st of
                None \<Rightarrow> Inl (Panic ''JustKnob worker state uninitialised'')
              | Some config_handle \<Rightarrow>
                  (case handle_watcher config_handle store of
                     Err _ \<Rightarrow> Inl (Panic ''JustKnob backed by static config source'')
                   | Ok watcher \<Rightarrow> Inr (False, Task_Waiting watcher, st)))
         | Task_Waiting watcher \<Rightarrow>
             (case wait_for_next wo store watcher of
                (None, watcher) \<Rightarrow> Inr (True, Task_Waiting watcher, st)
              | (Some (Ok new_just_knobs), watcher) \<Rightarrow>
                  Inr (False, Task_Waiting watcher, update_just_knobs new_just_knobs st)
              | (Some (Err _), _) \<Rightarrow> Inr (False, Task_Over, st))
         | Task_Over \<Rightarrow> Inr (True, Task_Over, st)))"

section \<open>Overriding knobs\<close>

lemma fold_update_lookup:
  "map_of (fold (\<lambda>(k, v). AList.update k v) kvs m) name = (case map_of (rev kvs) name of Some v \<Rightarrow> Some v | None \<Rightarrow> map_of m name)"
proof (induction kvs arbitrary: m)
  case (Cons kv kvs)
  then show ?case by (cases kv) (auto simp: update_conv' map_add_def split: option.splits)
qed simp

lemma merge_lookup:
  assumes "distinct (map fst new)"
  shows "map_of (merge_just_knobs old new) name =
    (case map_of new name of Some v \<Rightarrow> Some v | None \<Rightarrow> (case old of Some m \<Rightarrow> map_of m name | None \<Rightarrow> None))"
proof -
  have "map_of (rev new) = map_of new"
    using assms by (intro map_of_inject_set [THEN iffD2]) (simp_all add: rev_map [symmetric])
  then show ?thesis by (auto simp: merge_just_knobs_def fold_update_lookup split: option.splits)
qed

lemma collect_lookup: "map_of (collect_knobs kvs) name = map_of (rev kvs) name"
  by (simp add: collect_knobs_def fold_update_lookup split: option.splits)

section \<open>The worker and the store\<close>

datatype ('d, 'e) jk_event = Ev_Store "(jk_struct, 'd, 'e) cs_op" | Ev_Worker

fun jk_sys_step ::
  "('w, 'r, jk_struct) watch_ops \<Rightarrow> ('d, 'e) jk_event \<Rightarrow>
     ('w, 'r, 'd, 'e) jk_store \<times> 'r jk_task \<times> jk_struct config_handle jk_state \<Rightarrow>
     (('w, 'r, 'd, 'e) jk_store \<times> 'r jk_task \<times> jk_struct config_handle jk_state) res" where
  "jk_sys_step wo (Ev_Store op) (store, task, st) = Inr (cs_step wo op store, task, st)"
| "jk_sys_step wo Ev_Worker (store, task, st) =
     res_bind (wait_and_update_turn wo store (task, st)) (\<lambda>(_, task, st). Inr (store, task, st))"

fun jk_sys_run ::
  "('w, 'r, jk_struct) watch_ops \<Rightarrow> ('d, 'e) jk_event list \<Rightarrow>
     ('w, 'r, 'd, 'e) jk_store \<times> 'r jk_task \<times> jk_struct config_handle jk_state \<Rightarrow>
     (('w, 'r, 'd, 'e) jk_store \<times> 'r jk_task \<times> jk_struct config_handle jk_state) res" where
  "jk_sys_run wo [] s = Inr s"
| "jk_sys_run wo (ev # evs) s = res_bind (jk_sys_step wo ev s) (jk_sys_run wo evs)"

text \<open>A receiver with the mark \<open>r\<close> and all that was sent since; with nothing unseen the knobs are the current ones.\<close>

definition in_sync :: "('w, 'r, jk_struct) watch_ops \<Rightarrow> 'r \<Rightarrow> 'w \<Rightarrow> knobs option \<Rightarrow> bool" where
  "in_sync wo r w g \<longleftrightarrow>
     (\<exists>w0 xs. r = watch_seen wo w0 \<and> w = sent wo xs w0 \<and> (xs = [] \<longrightarrow> g = Some (in_memory_from (watch_borrow wo w0))))"

lemma sent_append: "sent wo ys (sent wo xs w) = sent wo (xs @ ys) w"
  by (simp add: sent_def)

lemma in_sync_sent:
  assumes "in_sync wo r w g"
  shows "in_sync wo r (sent wo ys w) g"
proof -
  from assms obtain w0 xs where w0: "r = watch_seen wo w0" "w = sent wo xs w0"
    "xs = [] \<longrightarrow> g = Some (in_memory_from (watch_borrow wo w0))" by (auto simp: in_sync_def)
  then have "sent wo ys w = sent wo (xs @ ys) w0" by (simp add: sent_append)
  with w0 show ?thesis unfolding in_sync_def by (intro exI [of _ w0] exI [of _ "xs @ ys"]) simp
qed

lemma in_sync_now: "g = Some (in_memory_from (watch_borrow wo w)) \<Longrightarrow> in_sync wo (watch_seen wo w) w g"
  unfolding in_sync_def by (intro exI [of _ w] exI [of _ "[]"]) (simp add: sent_def)

text \<open>How an entity changes.\<close>

definition grows ::
  "('w, 'r, 'a) watch_ops \<Rightarrow> ('w, 'r, 'a, 'd, 'e) registered \<Rightarrow> ('w, 'r, 'a, 'd, 'e) registered \<Rightarrow> bool" where
  "grows wo r r' \<longleftrightarrow> (\<exists>ys. re_watch r' = sent wo ys (re_watch r)) \<and> re_receiver r' = re_receiver r"

lemma grows_refl: "grows wo r r"
  unfolding grows_def by (intro conjI exI [of _ "[]"]) (simp_all add: sent_def)

lemma refreshed_grows:
  assumes "watch_laws wo"
  shows "grows wo r (refreshed wo src r)"
proof (cases "config_for_path src (re_path r)")
  case (Ok e)
  have "(\<exists>c. snd (re_refresh wo e r) = r\<lparr>re_watch := sent wo [c] (re_watch r), re_mod_time := ent_mod_time e, re_version := ent_version e\<rparr>) \<or>
      snd (re_refresh wo e r) = r"
    using re_refresh_cases [OF assms, of e r]
    by (cases "same_stamp e r"; cases "re_deserializer r (entity_bytes e)") auto
  then show ?thesis
    using Ok grows_refl [of wo r] by (auto simp: refreshed_def grows_def)
qed (simp add: refreshed_def grows_refl)

lemma cs_step_grows:
  assumes "watch_laws wo" "cs_inv st" "a < length (cs_entities st)"
  shows "a < length (cs_entities (cs_step wo op st)) \<and> grows wo (cs_entities st ! a) (cs_entities (cs_step wo op st) ! a)"
proof (cases op)
  case (Cs_Get src path d)
  then show ?thesis using assms(3)
    by (auto simp: get_config_handle_with_deserializer_def Let_def nth_append grows_refl split: result.splits)
next
  case (Cs_Update src)
  show ?thesis
  proof (cases "updater_thread_iteration wo src st")
    case (Some st')
    from updater_iteration_at(1) [OF assms(1,2) Some] assms(3) Cs_Update Some show ?thesis
      by (simp add: grows_refl refreshed_grows [OF assms(1)])
  qed (use assms(3) Cs_Update in \<open>simp add: grows_refl\<close>)
qed (use assms(3) in \<open>simp_all add: handle_clone_def handle_drop_def grows_refl\<close>)

definition task_sync ::
  "('w, 'r, jk_struct) watch_ops \<Rightarrow> nat \<Rightarrow> ('w, 'r, 'd, 'e) jk_store \<times> 'r jk_task \<times> jk_struct config_handle jk_state \<Rightarrow> bool" where
  "task_sync wo a s =
     (case s of (store, task, st) \<Rightarrow>
        cs_inv store \<and> a < length (cs_entities store) \<and> jk_worker_state st = Some (Registered a) \<and>
        (case task of
           Task_Spawned \<Rightarrow> in_sync wo (re_receiver (cs_entities store ! a)) (re_watch (cs_entities store ! a)) (jk_global st)
         | Task_Waiting w \<Rightarrow> cw_entity w = a \<and> in_sync wo (cw_receiver w) (re_watch (cs_entities store ! a)) (jk_global st)
         | Task_Over \<Rightarrow> True))"

lemma update_just_knobs_simps [simp]:
  "jk_global (update_just_knobs jk st) = Some (in_memory_from jk)" "jk_worker_state (update_just_knobs jk st) = jk_worker_state st"
  "jk_thread (update_just_knobs jk st) = jk_thread st"
  by (auto simp: update_just_knobs_def just_knobs_def split: option.splits)

lemma turn_sync:
  assumes "watch_laws wo" "task_sync wo a (store, task, st)"
  shows "\<exists>p task' st'. wait_and_update_turn wo store (task, st) = Inr (p, task', st') \<and> task_sync wo a (store, task', st') \<and>
    jk_thread st' = jk_thread st"
  using assms
  by (cases task)
    (auto simp: task_sync_def wait_and_update_turn_def handle_watcher_def wait_for_next_def Let_def in_sync_now)

lemma sys_step_sync:
  assumes "watch_laws wo" "task_sync wo a s"
  shows "\<exists>s'. jk_sys_step wo ev s = Inr s' \<and> task_sync wo a s' \<and> jk_thread (snd (snd s')) = jk_thread (snd (snd s))"
proof -
  obtain store task st where s: "s = (store, task, st)" by (cases s)
  show ?thesis
  proof (cases ev)
    case (Ev_Store op)
    have inv: "cs_inv store" "a < length (cs_entities store)" using assms(2) s by (simp_all add: task_sync_def)
    obtain ys where g: "re_watch (cs_entities (cs_step wo op store) ! a) = sent wo ys (re_watch (cs_entities store ! a))"
      "re_receiver (cs_entities (cs_step wo op store) ! a) = re_receiver (cs_entities store ! a)"
      "a < length (cs_entities (cs_step wo op store))"
      using cs_step_grows [OF assms(1) inv, of op] by (auto simp: grows_def)
    with assms(2) s Ev_Store show ?thesis
      using cs_step_inv [OF assms(1) inv(1), of op] by (auto simp: task_sync_def in_sync_sent split: jk_task.splits)
  next
    case Ev_Worker
    with turn_sync [OF assms(1) assms(2) [unfolded s]] s show ?thesis by auto
  qed
qed

lemma sys_run_sync:
  "watch_laws wo \<Longrightarrow> task_sync wo a s \<Longrightarrow>
     \<exists>s'. jk_sys_run wo evs s = Inr s' \<and> task_sync wo a s' \<and> jk_thread (snd (snd s')) = jk_thread (snd (snd s))"
proof (induction evs arbitrary: s)
  case (Cons ev evs)
  from sys_step_sync [OF Cons.prems, of ev] obtain s1 where "jk_sys_step wo ev s = Inr s1" "task_sync wo a s1"
    "jk_thread (snd (snd s1)) = jk_thread (snd (snd s))" by blast
  with Cons.IH [OF Cons.prems(1), of s1] show ?case by auto
qed simp

text \<open>Entities of a store that was run from the beginning.\<close>

lemma cs_run_history:
  assumes "watch_laws wo" "r \<in> set (cs_entities (cs_run wo ops))"
  shows "\<exists>w0 xs. re_receiver r = watch_seen wo w0 \<and> re_watch r = sent wo xs w0"
proof -
  let ?H = "\<lambda>r. \<exists>w0 xs. re_receiver r = watch_seen wo w0 \<and> re_watch r = sent wo xs w0"
  have new: "?H r" if "re_new wo path e d = Ok r" for path e d r
    using that unfolding re_new_def by (auto split: result.splits intro!: exI [of _ "[]"] simp: sent_def)
  have grow: "?H r'" if "?H r" "grows wo r r'" for r r'
    using that unfolding grows_def by (metis sent_append)
  have step: "\<forall>r \<in> set (cs_entities (cs_step wo op st)). ?H r"
    if "cs_inv st" "\<forall>r \<in> set (cs_entities st). ?H r" for op st
  proof
    fix r assume "r \<in> set (cs_entities (cs_step wo op st))"
    then obtain a where a: "a < length (cs_entities (cs_step wo op st))" "r = cs_entities (cs_step wo op st) ! a"
      by (auto simp: in_set_conv_nth)
    show "?H r"
    proof (cases "a < length (cs_entities st)")
      case True
      with that cs_step_grows [OF assms(1) that(1) True, of op] a grow show ?thesis by (metis nth_mem)
    next
      case False
      show ?thesis
      proof (cases op)
        case (Cs_Get src path d)
        with a False obtain e where "re_new wo path e d = Ok r"
          by (auto simp: get_config_handle_with_deserializer_def Let_def nth_append less_Suc_eq split: result.splits)
        with new show ?thesis by blast
      next
        case (Cs_Update src)
        with a False updater_iteration_at(1) [OF assms(1) that(1), of src] show ?thesis by (auto split: option.splits)
      qed (use a False in \<open>auto simp: handle_clone_def handle_drop_def split: if_splits\<close>)
    qed
  qed
  have "cs_inv st \<Longrightarrow> \<forall>r \<in> set (cs_entities st). ?H r \<Longrightarrow> \<forall>r \<in> set (cs_entities (fold (cs_step wo) ops st)). ?H r" for st
  proof (induction ops arbitrary: st)
    case (Cons op ops)
    from Cons.IH [OF cs_step_inv [OF assms(1) Cons.prems(1)] step [OF Cons.prems]] show ?case by simp
  qed simp
  from this [OF cs_new_inv] assms(2) show ?thesis by (simp add: cs_run_def cs_new_def)
qed

lemma init_sync:
  assumes "watch_laws wo" "a < length (cs_entities (cs_run wo ops))"
    and "init_just_knobs_worker wo (Registered a) (cs_run wo ops) st = Inr st0"
  shows "task_sync wo a (cs_run wo ops, Task_Spawned, st0)" "jk_thread st0 = jk_thread st"
proof -
  let ?r = "cs_entities (cs_run wo ops) ! a"
  have "?r \<in> set (cs_entities (cs_run wo ops))" using assms(2) by simp
  from cs_run_history [OF assms(1) this] obtain w0 xs where h: "re_receiver ?r = watch_seen wo w0" "re_watch ?r = sent wo xs w0"
    by blast
  have st0: "jk_global st0 = Some (in_memory_from (watch_borrow wo (re_watch ?r)))" "jk_worker_state st0 = Some (Registered a)"
    "jk_thread st0 = jk_thread st"
    using assms(3) by (auto simp: init_just_knobs_worker_def init_just_knobs_def handle_get_def re_get_def Let_def split: if_splits)
  then show "jk_thread st0 = jk_thread st" by simp
  have "in_sync wo (re_receiver ?r) (re_watch ?r) (jk_global st0)"
    unfolding in_sync_def h(2) using h(1) st0(1) by (intro exI [of _ w0] exI [of _ xs]) (simp add: h(2) sent_def)
  with st0 assms(2) cs_run_inv [OF assms(1), of ops] show "task_sync wo a (cs_run wo ops, Task_Spawned, st0)"
    by (simp add: task_sync_def)
qed

section \<open>Properties\<close>

text \<open>
  Knobs overridden for a closure are in force exactly while it runs.  Inside, a knob of the thread
  is the new one if it is overridden and the old one otherwise, a knob that neither has is an
  error (it is not looked up in the config or the stub), and other threads see no difference; afterwards
  the thread has the knobs it had before, whatever the closure does to them.
\<close>

theorem with_just_knobs_scoped:
  assumes "distinct (map fst new)"
  shows "\<exists>inside. with_just_knobs t new f st = (fst (f inside), tl_set t (jk_thread st t) (snd (f inside))) \<and>
    jk_thread (snd (with_just_knobs t new f st)) t = jk_thread st t \<and>
    (\<forall>name. jk_eval t name inside =
       (case (case map_of new name of Some v \<Rightarrow> Some v
               | None \<Rightarrow> (case jk_thread st t of Some old \<Rightarrow> map_of old name | None \<Rightarrow> None)) of
          Some v \<Rightarrow> knob_bool name v
        | None \<Rightarrow> Err (Missing_Bool name), inside)) \<and>
    (\<forall>t' name. t' = t \<or> fst (jk_eval t' name inside) = fst (jk_eval t' name st))"
proof (intro exI conjI allI)
  let ?inside = "tl_set t (Some (merge_just_knobs (jk_thread st t) new)) st"
  show "with_just_knobs t new f st = (fst (f ?inside), tl_set t (jk_thread st t) (snd (f ?inside)))"
    by (simp add: with_just_knobs_def Let_def case_prod_unfold)
  show "jk_thread (snd (with_just_knobs t new f st)) t = jk_thread st t"
    by (simp add: with_just_knobs_def Let_def case_prod_unfold tl_set_def)
  fix name
  show "jk_eval t name ?inside =
       (case (case map_of new name of Some v \<Rightarrow> Some v
               | None \<Rightarrow> (case jk_thread st t of Some old \<Rightarrow> map_of old name | None \<Rightarrow> None)) of
          Some v \<Rightarrow> knob_bool name v
        | None \<Rightarrow> Err (Missing_Bool name), ?inside)"
    by (simp add: jk_eval_def tl_in_use_def tl_eval_def tl_set_def merge_lookup [OF assms])
  fix t'
  show "t' = t \<or> fst (jk_eval t' name ?inside) = fst (jk_eval t' name st)"
    by (auto simp: jk_eval_def tl_in_use_def tl_eval_def tl_set_def cc_in_use_def cc_eval_def just_knobs_def stub_eval_def
        split: option.splits)
qed

theorem with_just_knobs_scoped_witness:
  "\<exists>inside. with_just_knobs 0 [(''k'', Knob_Bool True)] (\<lambda>st. ((), override_just_knobs 0 [(''k'', Knob_Int 1)] st))
       \<lparr>jk_thread = (\<lambda>_. Some [(''k'', Knob_Bool False), (''n'', Knob_Int 3)]), jk_global = None, jk_worker_state = None :: nat option\<rparr> =
     ((), tl_set 0 (Some [(''k'', Knob_Bool False), (''n'', Knob_Int 3)]) (override_just_knobs 0 [(''k'', Knob_Int 1)] inside)) \<and>
     fst (jk_eval 0 ''k'' inside) = Ok True \<and> fst (jk_eval 0 ''x'' inside) = Err (Missing_Bool ''x'')"
proof -
  let ?st = "\<lparr>jk_thread = (\<lambda>_. Some [(''k'', Knob_Bool False), (''n'', Knob_Int 3)]), jk_global = None, jk_worker_state = None :: nat option\<rparr>"
  let ?f = "\<lambda>st. ((), override_just_knobs 0 [(''k'', Knob_Int 1)] st)"
  obtain inside where "with_just_knobs 0 [(''k'', Knob_Bool True)] ?f ?st = (fst (?f inside), tl_set 0 (jk_thread ?st 0) (snd (?f inside)))"
    "\<forall>name. jk_eval 0 name inside =
       (case (case map_of [(''k'', Knob_Bool True)] name of Some v \<Rightarrow> Some v
               | None \<Rightarrow> (case jk_thread ?st 0 of Some old \<Rightarrow> map_of old name | None \<Rightarrow> None)) of
          Some v \<Rightarrow> knob_bool name v
        | None \<Rightarrow> Err (Missing_Bool name), inside)"
    using with_just_knobs_scoped [of "[(''k'', Knob_Bool True)]" 0 ?f ?st] by auto
  then show ?thesis by (auto simp: knob_bool_def)
qed

text \<open>
  C23. Knobs follow their config.  A worker is started on a handle of a store; then the store is used
  and updated and the worker polled, in any order.  Nothing panics, and whenever the worker has
  nothing left to do but wait, every thread without overrides sees the knobs of the value that the
  handle has at that time.
\<close>

theorem justknobs_follow_config:
  assumes "watch_laws wo" "a < length (cs_entities (cs_run wo ops))"
    and "init_just_knobs_worker wo (Registered a) (cs_run wo ops) st = Inr st0"
  shows "\<exists>store task st'. jk_sys_run wo events (cs_run wo ops, Task_Spawned, st0) = Inr (store, task, st') \<and>
    (\<forall>w st''. wait_and_update_turn wo store (task, st') = Inr (True, Task_Waiting w, st'') \<longrightarrow>
       (\<forall>t name. jk_thread st t = None \<longrightarrow>
          fst (jk_eval t name st'') =
            (case map_of (in_memory_from (handle_get wo (Registered a) store)) name of
               Some v \<Rightarrow> knob_bool name v
             | None \<Rightarrow> Err (Missing_Bool name))))"
proof -
  note init = init_sync [OF assms]
  from sys_run_sync [OF assms(1) init(1), of events] init(2) obtain store task st' where
    run: "jk_sys_run wo events (cs_run wo ops, Task_Spawned, st0) = Inr (store, task, st')"
    and sync: "task_sync wo a (store, task, st')" and thread: "jk_thread st' = jk_thread st" by auto
  have "jk_global st'' = Some (in_memory_from (handle_get wo (Registered a) store)) \<and> jk_thread st'' = jk_thread st"
    if turn: "wait_and_update_turn wo store (task, st') = Inr (True, Task_Waiting w, st'')" for w st''
  proof -
    from turn have t: "task = Task_Waiting w" "st'' = st'" "\<not> watch_has_changed wo (re_watch (cs_entities store ! cw_entity w)) (cw_receiver w)"
      by (auto simp: wait_and_update_turn_def wait_for_next_def Let_def split: jk_task.splits option.splits result.splits if_splits)
    with sync obtain w0 xs where w0: "cw_entity w = a" "cw_receiver w = watch_seen wo w0" "re_watch (cs_entities store ! a) = sent wo xs w0"
      "xs = [] \<longrightarrow> jk_global st' = Some (in_memory_from (watch_borrow wo w0))" by (auto simp: task_sync_def in_sync_def)
    with t(3) have "xs = []" using watch_lawsD(2) [OF assms(1), of xs w0] by simp
    with w0 t(2) thread show ?thesis by (simp add: handle_get_def re_get_def sent_def)
  qed
  moreover have "fst (jk_eval t name st'') = (case map_of k name of Some v \<Rightarrow> knob_bool name v | None \<Rightarrow> Err (Missing_Bool name))"
    if "jk_global st'' = Some k" "jk_thread st'' t = None" for st'' :: "jk_struct config_handle jk_state" and k t name
    using that by (simp add: jk_eval_def tl_in_use_def cc_in_use_def cc_eval_def just_knobs_def)
  ultimately have "\<forall>w st''. wait_and_update_turn wo store (task, st') = Inr (True, Task_Waiting w, st'') \<longrightarrow>
       (\<forall>t name. jk_thread st t = None \<longrightarrow>
          fst (jk_eval t name st'') =
            (case map_of (in_memory_from (handle_get wo (Registered a) store)) name of
               Some v \<Rightarrow> knob_bool name v
             | None \<Rightarrow> Err (Missing_Bool name)))"
    by presburger
  with run show ?thesis by blast
qed

definition sample_jk :: "string \<Rightarrow> (jk_struct, string) result" where
  "sample_jk s = (if s = ''on'' then Ok \<lparr>jk_bools = [(''k'', True)], jk_ints = []\<rparr>
     else if s = ''off'' then Ok \<lparr>jk_bools = [(''k'', False)], jk_ints = []\<rparr> else Err ''bad json'')"

definition sample_jk_ops :: "(jk_struct, nat, string) cs_op list" where
  "sample_jk_ops = [Cs_Get (file_source_of sample_files (sample_fs ''on'')) ''a'' sample_jk]"

definition sample_jk_events :: "(nat, string) jk_event list" where
  "sample_jk_events = [Ev_Worker, Ev_Store (Cs_Update (file_source_of sample_files (sample_fs ''off''))), Ev_Worker]"

definition sample_jk_state :: "jk_struct config_handle jk_state" where
  "sample_jk_state = \<lparr>jk_thread = (\<lambda>_. None), jk_global = None, jk_worker_state = None\<rparr>"

definition sample_jk_started :: "jk_struct config_handle jk_state" where
  "sample_jk_started = \<lparr>jk_thread = (\<lambda>_. None), jk_global = Some [(''k'', Knob_Bool True)], jk_worker_state = Some (Registered 0)\<rparr>"

definition sample_jk_end :: "(nat \<times> jk_struct, nat, nat, string) jk_store \<times> nat jk_task \<times> jk_struct config_handle jk_state" where
  "sample_jk_end = (case jk_sys_run counted_watch sample_jk_events (cs_run counted_watch sample_jk_ops, Task_Spawned, sample_jk_started) of Inr s \<Rightarrow> s)"

lemma sample_jk_init:
  "init_just_knobs_worker counted_watch (Registered 0) (cs_run counted_watch sample_jk_ops) sample_jk_state = Inr sample_jk_started"
proof -
  have "handle_get counted_watch (Registered 0) (cs_run counted_watch sample_jk_ops) = \<lparr>jk_bools = [(''k'', True)], jk_ints = []\<rparr>"
    by code_simp
  then show ?thesis
    by (simp add: init_just_knobs_worker_def init_just_knobs_def update_just_knobs_def just_knobs_def sample_jk_state_def
        sample_jk_started_def in_memory_from_def collect_knobs_def)
qed

theorem justknobs_follow_config_witness:
  "jk_sys_run counted_watch sample_jk_events (cs_run counted_watch sample_jk_ops, Task_Spawned, sample_jk_started) = Inr sample_jk_end \<and>
   (\<exists>w st''. wait_and_update_turn counted_watch (fst sample_jk_end) (snd sample_jk_end) = Inr (True, Task_Waiting w, st'') \<and>
      fst (jk_eval 5 ''k'' st'') = Ok False)"
proof -
  have "0 < length (cs_entities (cs_run counted_watch sample_jk_ops))" by code_simp
  from justknobs_follow_config [OF counted_watch_laws this sample_jk_init, of sample_jk_events]
  obtain store task st' where r: "jk_sys_run counted_watch sample_jk_events (cs_run counted_watch sample_jk_ops, Task_Spawned, sample_jk_started) = Inr (store, task, st')"
    and e: "\<And>w st''. wait_and_update_turn counted_watch store (task, st') = Inr (True, Task_Waiting w, st'') \<Longrightarrow>
       fst (jk_eval 5 ''k'' st'') =
            (case map_of (in_memory_from (handle_get counted_watch (Registered 0) store)) ''k'' of
               Some v \<Rightarrow> knob_bool ''k'' v
             | None \<Rightarrow> Err (Missing_Bool ''k''))"
    by (auto simp: sample_jk_state_def)
  then have s: "sample_jk_end = (store, task, st')" by (simp add: sample_jk_end_def)
  have "case wait_and_update_turn counted_watch (fst sample_jk_end) (snd sample_jk_end) of
      Inr (True, Task_Waiting w, st'') \<Rightarrow> True | _ \<Rightarrow> False" by code_simp
  then obtain w st'' where t: "wait_and_update_turn counted_watch (fst sample_jk_end) (snd sample_jk_end) = Inr (True, Task_Waiting w, st'')"
    by (auto split: sum.splits bool.splits jk_task.splits)
  have "in_memory_from (handle_get counted_watch (Registered 0) (fst sample_jk_end)) = [(''k'', Knob_Bool False)]" by code_simp
  then have "fst (jk_eval 5 ''k'' st'') = Ok False" using e [of w st''] t unfolding s by (simp add: knob_bool_def)
  with t s r show ?thesis by simp
qed

end
