(* ===== verification/Thrift_Framed.thy ===== *)
theory Thrift_Framed
  imports Framed_Codec
begin

text \<open>
  The framed transport of Thrift (\<open>shed/fbthrift_ext/framed/lib.rs\<close>): a frame is the length of
  its payload as a big-endian \<open>u32\<close>, then the payload.  The encoder casts the length of the
  payload, a \<open>usize\<close>, to \<open>u32\<close>, so that a longer payload gets a wrong header.
\<close>

section \<open>The codec\<close>

datatype framed_transport = FramedTransport

datatype io_error = Io_Error string

text \<open>\<open>Cursor::new\<close> starts at the first byte.\<close>

record cursor =
  cursor_inner :: "byte list"
  cursor_pos :: nat

definition cursor_new :: "byte list \<Rightarrow> cursor" where
  "cursor_new bs = \<lparr>cursor_inner = bs, cursor_pos = 0\<rparr>"

text \<open>\<open>put_u32\<close> and \<open>BigEndian::read_u32\<close>; the cast to a byte keeps the low eight bits.\<close>

definition put_u32 :: "nat \<Rightarrow> byte list" where
  "put_u32 n = [of_nat (n div 2 ^ 24), of_nat (n div 2 ^ 16), of_nat (n div 2 ^ 8), of_nat n]"

fun read_u32 :: "byte list \<Rightarrow> nat" where
  "read_u32 [a, b, c, d] = unat a * 2 ^ 24 + unat b * 2 ^ 16 + unat c * 2 ^ 8 + unat d"
| "read_u32 _ = 0"

definition framed_encode :: "framed_transport \<Rightarrow> byte list \<Rightarrow> byte list \<Rightarrow> (unit, io_error) result \<times> byte list" where
  "framed_encode self it dst = (Ok (), (dst @ put_u32 (length it mod 2 ^ 32)) @ it)"

definition framed_decode :: "(framed_transport, byte, cursor, io_error) decoder" where
  "framed_decode self src =
     (if length src < 4 then (Inr (Ok None), self, src)
      else
        (case vec_slice src 0 4 of
           Inl p \<Rightarrow> (Inl p, self, src)
         | Inr head \<Rightarrow>
             let len = read_u32 head in
             if length src < 4 + len then (Inr (Ok None), self, src)
             else
               (case bytes_split_to src 4 of
                  Inl p \<Rightarrow> (Inl p, self, src)
                | Inr (_, src1) \<Rightarrow>
                    (case bytes_split_to src1 len of
                       Inl p \<Rightarrow> (Inl p, self, src1)
                     | Inr (res, src2) \<Rightarrow> (Inr (Ok (Some (cursor_new res))), self, src2)))))"

section \<open>Headers\<close>

lemma put_u32_length [simp]: "length (put_u32 n) = 4"
  by (simp add: put_u32_def)

lemma read_put_u32: "read_u32 (put_u32 n) = n mod 2 ^ 32"
proof -
  let ?b = "\<lambda>k. n div k mod 256"
  have split: "m mod (256 * k) = (m div 256) mod k * 256 + m mod 256" for m k :: nat
    by (simp add: mod_mult2_eq)
  have "n mod 2 ^ 32 = n mod (256 * (256 * (256 * 256)))" by simp
  also have "\<dots> = (((n div 256 div 256) div 256 mod 256 * 256 + n div 256 div 256 mod 256) * 256 + n div 256 mod 256) * 256 + n mod 256"
    unfolding split ..
  also have "\<dots> = ?b (2 ^ 24) * 2 ^ 24 + ?b (2 ^ 16) * 2 ^ 16 + ?b (2 ^ 8) * 2 ^ 8 + n mod 256"
    by (simp add: div_mult2_eq [symmetric] algebra_simps)
  finally show ?thesis by (simp add: put_u32_def unat_of_nat)
qed

text \<open>The decoder never panics: it returns the payload that the header announces, or waits for it.\<close>

lemma framed_decode_eq:
  "framed_decode self src =
     (let len = read_u32 (take 4 src) in
      if length src < 4 \<or> length src < 4 + len then (Inr (Ok None), self, src)
      else (Inr (Ok (Some (cursor_new (take len (drop 4 src))))), self, drop (4 + len) src))"
  by (auto simp: framed_decode_def vec_slice_def bytes_split_to_def Let_def add.commute)

definition framed_frame :: "byte list \<Rightarrow> byte list" where
  "framed_frame it = snd (framed_encode FramedTransport it [])"

lemma framed_frame_eq: "framed_frame it = put_u32 (length it mod 2 ^ 32) @ it"
  by (simp add: framed_frame_def framed_encode_def)

lemma framed_decode_header:
  assumes "src = put_u32 n @ body" "n < 2 ^ 32"
  shows "framed_decode self src =
    (if length body < n then (Inr (Ok None), self, src)
     else (Inr (Ok (Some (cursor_new (take n body)))), self, drop n body))"
proof -
  have "read_u32 (take 4 src) = n" using assms by (simp add: read_put_u32)
  then show ?thesis unfolding framed_decode_eq Let_def using assms by simp
qed

lemma framed_decode_whole:
  "length it < 2 ^ 32 \<Longrightarrow>
     framed_decode FramedTransport (framed_frame it @ rest) = (Inr (Ok (Some (cursor_new it))), FramedTransport, rest)"
  by (subst framed_decode_header [of _ "length it" "it @ rest"]) (simp_all add: framed_frame_eq)

lemma framed_decode_part:
  assumes "length it < 2 ^ 32" "p @ q = framed_frame it @ rest" "length p < length (framed_frame it)"
  shows "framed_decode FramedTransport p = (Inr (Ok None), FramedTransport, p)"
proof (cases "length p < 4")
  case True
  then show ?thesis by (simp add: framed_decode_eq Let_def)
next
  case False
  have "take 4 (p @ q) = put_u32 (length it mod 2 ^ 32)" unfolding assms(2) by (simp add: framed_frame_eq)
  with False have "take 4 p = put_u32 (length it mod 2 ^ 32)" by simp
  then have "p = put_u32 (length it) @ drop 4 p" using assms(1) by (metis append_take_drop_id mod_less)
  from framed_decode_header [OF this assms(1)] assms(3) False show ?thesis
    by (simp add: framed_frame_eq)
qed

interpretation framed: frame_codec framed_decode FramedTransport framed_frame cursor_new "\<lambda>it. length it < 2 ^ 32"
proof unfold_locales
  show "framed_frame it \<noteq> []" for it by (simp add: framed_frame_eq put_u32_def)
  show "framed_decode FramedTransport [] = (Inr (Ok None), FramedTransport, [])" by (simp add: framed_decode_eq)
qed (rule framed_decode_whole framed_decode_part; assumption)+

section \<open>Streams of frames\<close>

text \<open>What an encoder writes for a sequence of payloads.\<close>

fun framed_stream :: "byte list list \<Rightarrow> byte list \<Rightarrow> byte list" where
  "framed_stream [] dst = dst"
| "framed_stream (it # its) dst = framed_stream its (snd (framed_encode FramedTransport it dst))"

lemma framed_stream_concat: "framed_stream its dst = dst @ concat (map framed_frame its)"
  by (induction its arbitrary: dst) (simp_all add: framed_frame_def framed_encode_def)

section \<open>Properties\<close>

text \<open>
  Any part of an encoded stream of payloads, in whatever chunks it arrives, gives the reader
  the payloads of the frames that are complete, in order, each as a cursor at its first byte; the
  bytes of the frame that is not complete stay in the buffer, and no error and no panic occurs.
\<close>

theorem framed_stream_prefix:
  assumes "\<forall>it \<in> set its. length it < 2 ^ 32" "concat chunks @ later = framed_stream its []"
  shows "\<exists>n buf. reader_feed framed_decode FramedTransport [] chunks =
             (map cursor_new (take n its), FramedTransport, buf) \<and>
           concat chunks = framed_stream (take n its) [] @ buf \<and>
           (if n < length its then length buf < length (framed_frame (its ! n)) else buf = [])"
proof -
  have "[] @ concat chunks @ later = concat (map framed_frame its)"
    using assms(2) by (simp add: framed_stream_concat)
  from framed.feed_prefix [OF assms(1) this framed.waiting_start]
  obtain ms1 ms2 buf where r: "its = ms1 @ ms2"
    "reader_feed framed_decode FramedTransport [] chunks = (map cursor_new ms1, FramedTransport, buf)"
    "concat chunks = concat (map framed_frame ms1) @ buf" "framed.waiting ms2 buf" by auto
  then show ?thesis
    by (intro exI [of _ "length ms1"] exI [of _ buf])
      (auto simp: framed_stream_concat framed.waiting_def nth_append split: list.splits)
qed

theorem framed_stream_prefix_witness:
  "\<exists>n buf. reader_feed framed_decode FramedTransport [] [[0, 0, 0], [2, 7, 8, 0], []] =
       (map cursor_new (take n [[7, 8], [9]]), FramedTransport, buf) \<and>
     concat [[0, 0, 0], [2, 7, 8, 0], []] = framed_stream (take n [[7, 8], [9]]) [] @ buf \<and>
     (if n < length [[7, 8], [9 :: byte]] then length buf < length (framed_frame ([[7, 8], [9]] ! n)) else buf = [])"
  by (rule framed_stream_prefix [where later = "[0, 0, 1, 9]"])
    (simp_all add: framed_encode_def put_u32_def)

text \<open>
  What comes back when one payload of any length is encoded and decoded: the header is the
  length modulo \<open>2 ^ 32\<close>, so a payload survives exactly when its length fits into the header;
  of a longer one the decoder returns a front part and leaves the rest of its bytes in the buffer, to be
  read as the next frame.
\<close>

theorem framed_header_wraps:
  "framed_decode FramedTransport (snd (framed_encode FramedTransport it [])) =
     (Inr (Ok (Some (cursor_new (take (length it mod 2 ^ 32) it)))), FramedTransport, drop (length it mod 2 ^ 32) it) \<and>
   (fst (framed_decode FramedTransport (snd (framed_encode FramedTransport it []))) = Inr (Ok (Some (cursor_new it))) \<longleftrightarrow>
      length it < 2 ^ 32)"
proof -
  let ?n = "length it mod 2 ^ 32"
  have d: "framed_decode FramedTransport (snd (framed_encode FramedTransport it [])) =
      (Inr (Ok (Some (cursor_new (take ?n it)))), FramedTransport, drop ?n it)"
    by (subst framed_decode_header [of _ ?n it]) (simp_all add: framed_encode_def)
  moreover have "take ?n it = it \<longleftrightarrow> length it < 2 ^ 32"
  proof
    assume "take ?n it = it"
    then have "length it \<le> ?n" by (metis length_take min.absorb_iff2 min.commute)
    also have "?n < 2 ^ 32" by simp
    finally show "length it < 2 ^ 32" .
  qed simp
  ultimately show ?thesis by (simp add: cursor_new_def)
qed

end
