(* ===== verification/Thrift_Adapters.thy ===== *)
theory Thrift_Adapters
  imports Rust_Ints Durations "HOL-Library.Word"
begin

text \<open>
  The adapters of \<open>shed/fbthrift_ext/adapters\<close> between the types of Thrift messages and Rust
  types.  The trait \<open>ThriftAdapter\<close> is the locale \<open>thrift_adapter\<close>: what it reads from a message
  it writes back unchanged.  An adapter that also reads back all that it writes is an
  \<open>exact_adapter\<close>.  The duration adapters are not exact, as they cut a duration to whole units and to the
  width of the integer; the others are.

  Numbers are mathematical integers in the range of their type.  The crates \<open>uuid\<close> and \<open>chrono\<close>
  are arguments.  An address of \<open>std::net\<close> is parsed and printed as the standard library does it.
  The trait's associated error \<open>Infallible\<close> is a type argument that no value uses.
\<close>

section \<open>The trait\<close>

fun read_all :: "('s \<Rightarrow> ('a, 'e) result) \<Rightarrow> 's list \<Rightarrow> ('a list, 'e) result" where
  "read_all from_thrift [] = Ok []"
| "read_all from_thrift (s # ss) =
     (case from_thrift s of
        Err e \<Rightarrow> Err e
      | Ok a \<Rightarrow> (case read_all from_thrift ss of Err e \<Rightarrow> Err e | Ok as \<Rightarrow> Ok (a # as)))"

locale thrift_adapter =
  fixes to_thrift :: "'a \<Rightarrow> 's"
    and from_thrift :: "'s \<Rightarrow> ('a, 'e) result"
    and standard :: "'s \<Rightarrow> bool"
    and adapted :: "'a \<Rightarrow> bool"
  assumes writes_standard: "adapted a \<Longrightarrow> standard (to_thrift a)"
    and writes_what_it_read: "standard s \<Longrightarrow> from_thrift s = Ok a \<Longrightarrow> adapted a \<and> to_thrift a = s"
begin

lemma from_thrift_inj:
  "standard s \<Longrightarrow> standard s' \<Longrightarrow> from_thrift s = Ok a \<Longrightarrow> from_thrift s' = Ok a \<Longrightarrow> s = s'"
  using writes_what_it_read by metis

text \<open>A message that was read and is sent on has the same fields.\<close>

lemma forward_all: "\<forall>s \<in> set ss. standard s \<Longrightarrow> read_all from_thrift ss = Ok as \<Longrightarrow> map to_thrift as = ss"
  by (induction ss arbitrary: as) (auto simp: writes_what_it_read split: result.splits)

text \<open>The values that survive are those that can be read.\<close>

lemma survives_iff:
  "adapted a \<Longrightarrow> from_thrift (to_thrift a) = Ok a \<longleftrightarrow> (\<exists>s. standard s \<and> from_thrift s = Ok a)"
  using writes_standard writes_what_it_read by metis

end

locale exact_adapter = thrift_adapter +
  assumes reads_what_it_wrote: "adapted a \<Longrightarrow> from_thrift (to_thrift a) = Ok a"
begin

lemma to_thrift_inj: "inj_on to_thrift {a. adapted a}"
  by (rule inj_onI) (metis mem_Collect_eq reads_what_it_wrote result.inject(1))

lemma readable: "to_thrift ` {a. adapted a} = {s. standard s \<and> is_ok (from_thrift s)}"
proof (intro set_eqI iffI)
  fix s assume "s \<in> to_thrift ` {a. adapted a}"
  then show "s \<in> {s. standard s \<and> is_ok (from_thrift s)}"
    using reads_what_it_wrote writes_standard by force
next
  fix s assume "s \<in> {s. standard s \<and> is_ok (from_thrift s)}"
  then obtain a where "standard s" "from_thrift s = Ok a" by (cases "from_thrift s") auto
  then show "s \<in> to_thrift ` {a. adapted a}" using writes_what_it_read by force
qed

lemma one_to_one: "bij_betw to_thrift {a. adapted a} {s. standard s \<and> is_ok (from_thrift s)}"
  using to_thrift_inj readable by (simp add: bij_betw_def)

lemma read_all_written: "\<forall>a \<in> set as. adapted a \<Longrightarrow> read_all from_thrift (map to_thrift as) = Ok as"
  by (induction as) (simp_all add: reads_what_it_wrote)

end

section \<open>Unsigned integers\<close>

text \<open>The four Thrift integers; \<open>UsizeAdapter\<close> is the pair of \<open>i64\<close> and \<open>usize\<close>.\<close>

datatype thrift_int = Thrift_I8 | Thrift_I16 | Thrift_I32 | Thrift_I64

definition std_type :: "thrift_int \<Rightarrow> int_type" where
  "std_type t = (case t of Thrift_I8 \<Rightarrow> I8 | Thrift_I16 \<Rightarrow> I16 | Thrift_I32 \<Rightarrow> I32 | Thrift_I64 \<Rightarrow> I64)"

definition unsigned_type :: "thrift_int \<Rightarrow> int_type" where
  "unsigned_type t = (case t of Thrift_I8 \<Rightarrow> U8 | Thrift_I16 \<Rightarrow> U16 | Thrift_I32 \<Rightarrow> U32 | Thrift_I64 \<Rightarrow> U64)"

definition unsigned_to_thrift :: "thrift_int \<Rightarrow> int \<Rightarrow> int" where
  "unsigned_to_thrift t v = as_type (std_type t) v"

definition unsigned_from_thrift :: "thrift_int \<Rightarrow> int \<Rightarrow> (int, 'e) result" where
  "unsigned_from_thrift t v = Ok (as_type (unsigned_type t) v)"

definition usize_to_thrift :: "int \<Rightarrow> int" where
  "usize_to_thrift v = as_type I64 v"

definition usize_from_thrift :: "int \<Rightarrow> (int, 'e) result" where
  "usize_from_thrift v = Ok (as_type Usize v)"

section \<open>Non-negative integers\<close>

datatype nonnegative = NonNegative int

datatype nonnegative_error = NonNegativeError int

definition nonnegative_error_display :: "nonnegative_error \<Rightarrow> string" where
  "nonnegative_error_display e =
     (case e of NonNegativeError v \<Rightarrow> int_to_string v @ '' was provided to nonnegative adapter'')"

definition nn_display :: "nonnegative \<Rightarrow> string" where
  "nn_display n = (case n of NonNegative v \<Rightarrow> int_to_string v)"

definition nn_bits :: "thrift_int \<Rightarrow> nat" where
  "nn_bits t = int_bits (std_type t)"

definition nn_new_unchecked :: "int \<Rightarrow> nonnegative" where
  "nn_new_unchecked n = NonNegative n"

definition nn_new :: "int \<Rightarrow> nonnegative option" where
  "nn_new n = (if n < 0 then None else Some (NonNegative n))"

definition nn_get :: "nonnegative \<Rightarrow> int" where
  "nn_get n = (case n of NonNegative v \<Rightarrow> v)"

definition nn_to_thrift :: "nonnegative \<Rightarrow> int" where
  "nn_to_thrift n = (case n of NonNegative v \<Rightarrow> v)"

definition nn_from_thrift :: "int \<Rightarrow> (nonnegative, nonnegative_error) result" where
  "nn_from_thrift v = (if v < 0 then Err (NonNegativeError v) else Ok (nn_new_unchecked v))"

text \<open>The derived order compares the numbers.\<close>

instantiation nonnegative :: linorder
begin

definition less_eq_nonnegative :: "nonnegative \<Rightarrow> nonnegative \<Rightarrow> bool" where
  "less_eq_nonnegative a b \<longleftrightarrow> nn_get a \<le> nn_get b"

definition less_nonnegative :: "nonnegative \<Rightarrow> nonnegative \<Rightarrow> bool" where
  "less_nonnegative a b \<longleftrightarrow> nn_get a < nn_get b"

instance
  by standard (auto simp: less_eq_nonnegative_def less_nonnegative_def nn_get_def split: nonnegative.splits)

end

section \<open>Durations\<close>

datatype granularity = Second | Millisecond | Microsecond | Nanosecond

definition as_units :: "granularity \<Rightarrow> duration \<Rightarrow> nat" where
  "as_units g d = (case g of Second \<Rightarrow> as_secs d | Millisecond \<Rightarrow> as_millis d | Microsecond \<Rightarrow> as_micros d | Nanosecond \<Rightarrow> as_nanos d)"

definition nanos_per :: "granularity \<Rightarrow> nat" where
  "nanos_per g = (case g of Second \<Rightarrow> 10 ^ 9 | Millisecond \<Rightarrow> 10 ^ 6 | Microsecond \<Rightarrow> 10 ^ 3 | Nanosecond \<Rightarrow> 1)"

definition from_units :: "granularity \<Rightarrow> nat \<Rightarrow> duration" where
  "from_units g n = n * nanos_per g"

datatype try_from_int_error = TryFromIntError

definition try_from_int :: "int_type \<Rightarrow> int \<Rightarrow> (int, try_from_int_error) result" where
  "try_from_int t v = (if in_type t v then Ok v else Err TryFromIntError)"

definition int_max :: "int_type \<Rightarrow> int" where
  "int_max t = (if int_signed t then 2 ^ (int_bits t - 1) - 1 else 2 ^ int_bits t - 1)"

definition saturating_to_thrift :: "granularity \<Rightarrow> thrift_int \<Rightarrow> duration \<Rightarrow> int" where
  "saturating_to_thrift g t d =
     (case try_from_int (std_type t) (int (as_units g d)) of Ok v \<Rightarrow> v | Err _ \<Rightarrow> int_max (std_type t))"

definition saturating_from_thrift :: "granularity \<Rightarrow> int \<Rightarrow> (duration, try_from_int_error) result" where
  "saturating_from_thrift g v =
     (case try_from_int U64 v of Err e \<Rightarrow> Err e | Ok u \<Rightarrow> Ok (from_units g (nat u)))"

definition wrapping_to_thrift :: "granularity \<Rightarrow> thrift_int \<Rightarrow> duration \<Rightarrow> int" where
  "wrapping_to_thrift g t d = as_type (std_type t) (int (as_units g d))"

definition wrapping_from_thrift :: "granularity \<Rightarrow> int \<Rightarrow> (duration, try_from_int_error) result" where
  "wrapping_from_thrift g v =
     (case try_from_int U64 v of Err e \<Rightarrow> Err e | Ok u \<Rightarrow> Ok (from_units g (nat u)))"

section \<open>Time stamps\<close>

datatype out_of_range_error = OutOfRangeError int

definition timestamp_to_thrift :: "('dt \<Rightarrow> int) \<Rightarrow> 'dt \<Rightarrow> int" where
  "timestamp_to_thrift to_thrift_fn v = to_thrift_fn v"

definition timestamp_from_thrift :: "(int \<Rightarrow> 'dt option) \<Rightarrow> int \<Rightarrow> ('dt, out_of_range_error) result" where
  "timestamp_from_thrift from_thrift_fn v =
     (case from_thrift_fn v of Some d \<Rightarrow> Ok d | None \<Rightarrow> Err (OutOfRangeError v))"

record 'dt chrono_ops =
  co_timestamp :: "'dt \<Rightarrow> int"
  co_timestamp_millis :: "'dt \<Rightarrow> int"
  co_timestamp_micros :: "'dt \<Rightarrow> int"
  co_from_timestamp :: "int \<Rightarrow> nat \<Rightarrow> 'dt option"
  co_from_timestamp_millis :: "int \<Rightarrow> 'dt option"
  co_from_timestamp_micros :: "int \<Rightarrow> 'dt option"

definition utc_to_thrift :: "'dt chrono_ops \<Rightarrow> 'dt \<Rightarrow> int" where
  "utc_to_thrift co = timestamp_to_thrift (co_timestamp co)"

definition utc_from_thrift :: "'dt chrono_ops \<Rightarrow> int \<Rightarrow> ('dt, out_of_range_error) result" where
  "utc_from_thrift co = timestamp_from_thrift (\<lambda>val. co_from_timestamp co val 0)"

definition utc_millis_to_thrift :: "'dt chrono_ops \<Rightarrow> 'dt \<Rightarrow> int" where
  "utc_millis_to_thrift co = timestamp_to_thrift (co_timestamp_millis co)"

definition utc_millis_from_thrift :: "'dt chrono_ops \<Rightarrow> int \<Rightarrow> ('dt, out_of_range_error) result" where
  "utc_millis_from_thrift co = timestamp_from_thrift (co_from_timestamp_millis co)"

definition utc_micros_to_thrift :: "'dt chrono_ops \<Rightarrow> 'dt \<Rightarrow> int" where
  "utc_micros_to_thrift co = timestamp_to_thrift (co_timestamp_micros co)"

definition utc_micros_from_thrift :: "'dt chrono_ops \<Rightarrow> int \<Rightarrow> ('dt, out_of_range_error) result" where
  "utc_micros_from_thrift co = timestamp_from_thrift (co_from_timestamp_micros co)"

section \<open>Identifiers\<close>

record ('u, 'e) uuid_ops =
  uo_nil :: 'u
  uo_as_bytes :: "'u \<Rightarrow> 8 word list"
  uo_from_slice :: "8 word list \<Rightarrow> ('u, 'e) result"
  uo_to_string :: "'u \<Rightarrow> string"
  uo_try_parse :: "string \<Rightarrow> ('u, 'e) result"

definition uuid_bytes_to_thrift :: "('u, 'e) uuid_ops \<Rightarrow> 'u \<Rightarrow> 8 word list" where
  "uuid_bytes_to_thrift uo v = uo_as_bytes uo v"

definition uuid_bytes_from_thrift :: "('u, 'e) uuid_ops \<Rightarrow> 8 word list \<Rightarrow> ('u, 'e) result" where
  "uuid_bytes_from_thrift uo v = (if v = [] then Ok (uo_nil uo) else uo_from_slice uo v)"

definition uuid_string_to_thrift :: "('u, 'e) uuid_ops \<Rightarrow> 'u \<Rightarrow> string" where
  "uuid_string_to_thrift uo v = uo_to_string uo v"

definition uuid_string_from_thrift :: "('u, 'e) uuid_ops \<Rightarrow> string \<Rightarrow> ('u, 'e) result" where
  "uuid_string_from_thrift uo v = (if v = [] then Ok (uo_nil uo) else uo_try_parse uo v)"

section \<open>Wrappers\<close>

datatype 't redacted = Redacted 't

definition REDACTED :: string where
  "REDACTED = ''<REDACTED>''"

definition unredact :: "'t redacted \<Rightarrow> 't" where
  "unredact r = (case r of Redacted v \<Rightarrow> v)"

definition redacted_from :: "'t \<Rightarrow> 't redacted" where
  "redacted_from v = Redacted v"

definition redacted_debug :: "'t redacted \<Rightarrow> string" where
  "redacted_debug r = REDACTED"

definition redacted_as_value :: "'t redacted \<Rightarrow> string" where
  "redacted_as_value r = REDACTED"

definition redacted_to_thrift :: "'t redacted \<Rightarrow> 't" where
  "redacted_to_thrift r = unredact r"

definition redacted_from_thrift :: "'t \<Rightarrow> ('t redacted, 'e) result" where
  "redacted_from_thrift v = Ok (Redacted v)"

datatype 't arc = Arc 't

definition arc_to_thrift :: "'t arc \<Rightarrow> 't" where
  "arc_to_thrift a = (case a of Arc v \<Rightarrow> v)"

definition arc_from_thrift :: "'t \<Rightarrow> ('t arc, 'e) result" where
  "arc_from_thrift v = Ok (Arc v)"

section \<open>Addresses\<close>

text \<open>
  \<open>Ipv4Addr\<close> and its text.  \<open>read_number\<close> of the standard library reads at most three decimal digits of
  a \<open>u8\<close> and no superfluous zero in front; four of them are separated by dots, and nothing may be left.
\<close>

datatype ipv4_addr = Ipv4Addr "8 word" "8 word" "8 word" "8 word"

datatype addr_parse_error = AddrParseError

definition ipv4_to_string :: "ipv4_addr \<Rightarrow> string" where
  "ipv4_to_string a =
     (case a of Ipv4Addr w x y z \<Rightarrow>
        nat_to_string (unat w) @ CHR ''.'' # nat_to_string (unat x) @ CHR ''.'' #
        nat_to_string (unat y) @ CHR ''.'' # nat_to_string (unat z))"

fun read_digits :: "nat \<Rightarrow> nat \<Rightarrow> string \<Rightarrow> (nat \<times> nat \<times> string) option" where
  "read_digits acc k [] = Some (acc, k, [])"
| "read_digits acc k (c # cs) =
     (case char_digit c of
        None \<Rightarrow> Some (acc, k, c # cs)
      | Some d \<Rightarrow>
          if 255 < acc * 10 then None
          else if 255 < acc * 10 + d then None
          else if 3 < Suc k then None
          else read_digits (acc * 10 + d) (Suc k) cs)"

definition read_number :: "string \<Rightarrow> (nat \<times> string) option" where
  "read_number s =
     (case read_digits 0 0 s of
        None \<Rightarrow> None
      | Some (n, k, rest) \<Rightarrow>
          if k = 0 then None
          else if (case s of [] \<Rightarrow> False | c # _ \<Rightarrow> c = CHR ''0'') \<and> 1 < k then None
          else Some (n, rest))"

definition read_given_char :: "char \<Rightarrow> string \<Rightarrow> string option" where
  "read_given_char c s = (case s of [] \<Rightarrow> None | x # xs \<Rightarrow> if x = c then Some xs else None)"

definition read_dot_number :: "string \<Rightarrow> (nat \<times> string) option" where
  "read_dot_number s = Option.bind (read_given_char (CHR ''.'') s) read_number"

definition read_ipv4 :: "string \<Rightarrow> (ipv4_addr \<times> string) option" where
  "read_ipv4 s =
     Option.bind (read_number s) (\<lambda>(w, s1).
     Option.bind (read_dot_number s1) (\<lambda>(x, s2).
     Option.bind (read_dot_number s2) (\<lambda>(y, s3).
     Option.bind (read_dot_number s3) (\<lambda>(z, s4).
       Some (Ipv4Addr (of_nat w) (of_nat x) (of_nat y) (of_nat z), s4)))))"

definition ipv4_from_str :: "string \<Rightarrow> (ipv4_addr, addr_parse_error) result" where
  "ipv4_from_str s =
     (if 15 < length s then Err AddrParseError
      else
        (case read_ipv4 s of
           Some (a, rest) \<Rightarrow> if rest = [] then Ok a else Err AddrParseError
         | None \<Rightarrow> Err AddrParseError))"

definition ipv4_to_thrift :: "ipv4_addr \<Rightarrow> string" where
  "ipv4_to_thrift a = ipv4_to_string a"

definition ipv4_from_thrift :: "string \<Rightarrow> (ipv4_addr, addr_parse_error) result" where
  "ipv4_from_thrift s = ipv4_from_str s"

section \<open>The adapters meet their contracts\<close>

lemma types_of_thrift [simp]:
  "int_signed (std_type t)" "\<not> int_signed (unsigned_type t)" "int_bits (unsigned_type t) = int_bits (std_type t)"
  "int_bits (std_type t) \<le> 64"
  by (cases t; simp add: std_type_def unsigned_type_def int_signed_def int_bits_def)+

lemma cast_back:
  assumes "int_bits t = int_bits u" "in_type t x"
  shows "as_type t (as_type u x) = x"
  by (rule as_type_unique [OF assms(2)]) (use as_type_cong [of u x] assms(1) in simp)

interpretation unsigned: exact_adapter "unsigned_to_thrift t" "unsigned_from_thrift t"
    "in_type (std_type t)" "in_type (unsigned_type t)" for t
  by unfold_locales (auto simp: unsigned_to_thrift_def unsigned_from_thrift_def as_type_in_type cast_back)

interpretation usize: exact_adapter usize_to_thrift usize_from_thrift "in_type I64" "in_type Usize"
  by unfold_locales
    (auto simp: usize_to_thrift_def usize_from_thrift_def as_type_in_type cast_back int_bits_def)

interpretation nonneg: exact_adapter nn_to_thrift nn_from_thrift "in_type (std_type t)"
    "\<lambda>n. in_type (std_type t) (nn_get n) \<and> 0 \<le> nn_get n" for t
  by unfold_locales
    (auto simp: nn_to_thrift_def nn_from_thrift_def nn_get_def nn_new_unchecked_def
      split: nonnegative.splits if_splits)

interpretation redaction: exact_adapter redacted_to_thrift redacted_from_thrift "\<lambda>_. True" "\<lambda>_. True"
  by unfold_locales (auto simp: redacted_to_thrift_def redacted_from_thrift_def unredact_def split: redacted.splits)

interpretation arcs: exact_adapter arc_to_thrift arc_from_thrift "\<lambda>_. True" "\<lambda>_. True"
  by unfold_locales (auto simp: arc_to_thrift_def arc_from_thrift_def split: arc.splits)

subsection \<open>Durations\<close>

lemma nanos_per_pos [simp]: "0 < nanos_per g"
  by (simp add: nanos_per_def split: granularity.splits)

lemma as_units_eq: "as_units g d = d div nanos_per g"
  by (cases g) (simp_all add: as_units_def nanos_per_def as_millis_eq [simplified] as_micros_eq [simplified] as_nanos_eq as_secs_def)

lemma as_from_units: "as_units g (from_units g n) = n"
  by (simp add: as_units_eq from_units_def)

lemma in_std: "in_type (std_type t) v \<longleftrightarrow> - (2 ^ (int_bits (std_type t) - 1)) \<le> v \<and> v \<le> int_max (std_type t)"
  by (simp add: in_type_def int_max_def)

lemma int_max_small: "int_max (std_type t) < 2 ^ 64"
  by (cases t) (simp_all add: int_max_def std_type_def int_signed_def int_bits_def)

lemma int_max_nonneg: "0 \<le> int_max (std_type t)"
  by (cases t) (simp_all add: int_max_def std_type_def int_signed_def int_bits_def)

lemma duration_read:
  assumes "in_type (std_type t) v"
  shows "saturating_from_thrift g v = (if v < 0 then Err TryFromIntError else Ok (nat v * nanos_per g))"
    and "wrapping_from_thrift g v = (if v < 0 then Err TryFromIntError else Ok (nat v * nanos_per g))"
proof -
  have "in_type U64 v \<longleftrightarrow> \<not> v < 0"
    using assms int_max_small [of t] unfolding in_std by (auto simp: in_type_def int_signed_def int_bits_def)
  then show "saturating_from_thrift g v = (if v < 0 then Err TryFromIntError else Ok (nat v * nanos_per g))"
    and "wrapping_from_thrift g v = (if v < 0 then Err TryFromIntError else Ok (nat v * nanos_per g))"
    by (auto simp: saturating_from_thrift_def wrapping_from_thrift_def try_from_int_def from_units_def)
qed

lemma saturating_to_eq: "saturating_to_thrift g t d = min (int (d div nanos_per g)) (int_max (std_type t))"
proof -
  have "0 \<le> int (as_units g d)" by simp
  then show ?thesis
    by (auto simp: saturating_to_thrift_def try_from_int_def in_std as_units_eq min_def
        intro: order_trans [of _ 0])
qed

lemma wrapping_to_eq: "wrapping_to_thrift g t d = as_type (std_type t) (int (d div nanos_per g))"
  by (simp add: wrapping_to_thrift_def as_units_eq)

lemma saturating_in: "in_type (std_type t) (saturating_to_thrift g t d)"
  unfolding saturating_to_eq in_std using int_max_nonneg [of t]
  by (auto simp: min_def intro: order_trans [of _ 0])

interpretation saturating: thrift_adapter "saturating_to_thrift g t" "saturating_from_thrift g" "in_type (std_type t)" "\<lambda>_. True" for g t
  by unfold_locales
    (rule saturating_in, auto simp: duration_read saturating_to_eq in_std split: if_splits)

interpretation wrapping: thrift_adapter "wrapping_to_thrift g t" "wrapping_from_thrift g" "in_type (std_type t)" "\<lambda>_. True" for g t
  by unfold_locales
    (auto simp: wrapping_to_eq as_type_in_type duration_read as_type_id split: if_splits)

lemma as_std_nonneg:
  "as_type (std_type t) (int n) < 0 \<longleftrightarrow> 2 ^ (int_bits (std_type t) - 1) \<le> n mod 2 ^ int_bits (std_type t)" (is ?neg)
  "\<not> as_type (std_type t) (int n) < 0 \<Longrightarrow> nat (as_type (std_type t) (int n)) = n mod 2 ^ int_bits (std_type t)"
proof -
  let ?b = "int_bits (std_type t)" and ?m = "n mod 2 ^ int_bits (std_type t)"
  have m: "int ?m = int n mod 2 ^ ?b" by (simp add: zmod_int)
  have lt: "int ?m < 2 ^ ?b" unfolding m by simp
  have "as_type (std_type t) (int n) = (if 2 ^ (?b - 1) \<le> ?m then int ?m - 2 ^ ?b else int ?m)"
  proof (rule as_type_unique)
    have "(2 ^ (?b - 1) \<le> ?m) = (2 ^ (?b - 1) \<le> int ?m)" by (metis numeral_power_le_of_nat_cancel_iff)
    then show "in_type (std_type t) (if 2 ^ (?b - 1) \<le> ?m then int ?m - 2 ^ ?b else int ?m)"
      using lt pow_halves [of "std_type t"] by (auto simp: in_type_def)
  qed (simp add: m)
  with lt show ?neg "\<not> as_type (std_type t) (int n) < 0 \<Longrightarrow> nat (as_type (std_type t) (int n)) = ?m"
    by (auto split: if_splits)
qed

subsection \<open>Time stamps and identifiers\<close>

text \<open>
  The adapters meet the contract when the functions of \<open>chrono\<close> and \<open>uuid\<close> that they call are
  inverse to each other on what can be read.
\<close>

lemma timestamp_adapter:
  assumes "\<And>v dt. in_type I64 v \<Longrightarrow> g v = Some dt \<Longrightarrow> f dt = v" "\<And>dt. in_type I64 (f dt)"
  shows "thrift_adapter (timestamp_to_thrift f) (timestamp_from_thrift g) (in_type I64) (\<lambda>_. True)"
  by unfold_locales
    (auto simp: assms timestamp_to_thrift_def timestamp_from_thrift_def split: option.splits)

lemma uuid_bytes_adapter:
  assumes "\<And>b u. uo_from_slice uo b = Ok u \<Longrightarrow> uo_as_bytes uo u = b" "\<And>u. uo_from_slice uo (uo_as_bytes uo u) = Ok u"
    and "\<And>u. uo_as_bytes uo u \<noteq> []"
  shows "exact_adapter (uuid_bytes_to_thrift uo) (uuid_bytes_from_thrift uo) (\<lambda>b. b \<noteq> []) (\<lambda>_. True)"
  by unfold_locales (auto simp: assms uuid_bytes_to_thrift_def uuid_bytes_from_thrift_def)

subsection \<open>Addresses\<close>

lemma char_digit_Some: "char_digit c = Some d \<longleftrightarrow> d < 10 \<and> c = digit_char d"
proof
  assume c: "char_digit c = Some d"
  then have "d < 10" and n: "of_char c = 48 + d" by (auto simp: char_digit_def split: if_splits)
  moreover from n have "c = digit_char d" by (metis char_of_char digit_char_def)
  ultimately show "d < 10 \<and> c = digit_char d" by simp
qed (auto simp: char_digit_char)

lemma digit_char_zero: "digit_char 0 = CHR ''0''"
  by (simp add: digit_char_def char_of_eq_iff)

text \<open>Digits without a superfluous zero are what is printed of their value.\<close>

definition digit_list :: "nat list \<Rightarrow> bool" where
  "digit_list ds \<longleftrightarrow> ds \<noteq> [] \<and> (\<forall>d \<in> set ds. d < 10) \<and> (hd ds = 0 \<longrightarrow> length ds = 1)"

lemma nat_to_string_digits: "\<exists>ds. digit_list ds \<and> nat_to_string n = map digit_char ds \<and> (0 < n \<longrightarrow> 0 < hd ds)"
proof (induction n rule: nat_to_string.induct)
  case (1 n)
  show ?case
  proof (cases "n < 10")
    case True
    then show ?thesis by (intro exI [of _ "[n]"]) (simp add: digit_list_def nat_to_string.simps)
  next
    case False
    with 1 obtain ds where "digit_list ds" "nat_to_string (n div 10) = map digit_char ds" "0 < hd ds" by auto
    with False show ?thesis
      by (intro exI [of _ "ds @ [n mod 10]"]) (subst nat_to_string.simps, auto simp: digit_list_def)
  qed
qed

lemma digits_value_ge: "digits_value acc s = Some n \<Longrightarrow> acc \<le> n"
  by (induction s arbitrary: acc) (fastforce split: option.splits)+

lemma digits_printed:
  assumes "digit_list ds" "digits_value 0 (map digit_char ds) = Some n"
  shows "nat_to_string n = map digit_char ds"
  using assms
proof (induction ds arbitrary: n rule: rev_induct)
  case (snoc d ds)
  have d: "d < 10" using snoc.prems(1) by (simp add: digit_list_def)
  show ?case
  proof (cases "ds = []")
    case True
    with snoc.prems d show ?thesis by (simp add: char_digit_char nat_to_string.simps)
  next
    case False
    then have l: "digit_list ds" and pos: "0 < hd ds" using snoc.prems(1) by (auto simp: digit_list_def)
    from snoc.prems(2) d obtain m where m: "digits_value 0 (map digit_char ds) = Some m" "n = 10 * m + d"
      by (auto simp: digits_value_append char_digit_char split: option.splits)
    from l pos obtain x xs where "ds = x # xs" "0 < x" "x < 10" by (cases ds) (auto simp: digit_list_def)
    with m(1) digits_value_ge [of x "map digit_char xs" m] have "0 < m" by (simp add: char_digit_char)
    with m snoc.IH [OF l m(1)] d show ?thesis by (subst nat_to_string.simps) simp
  qed
qed (simp add: digit_list_def)

definition no_digit :: "string \<Rightarrow> bool" where
  "no_digit s \<longleftrightarrow> (case s of [] \<Rightarrow> True | c # _ \<Rightarrow> char_digit c = None)"

lemma read_digits_iff:
  assumes "acc \<le> 255" "k \<le> 3"
  shows "read_digits acc k s = Some (n, k', rest) \<longleftrightarrow>
    (\<exists>ds. s = map digit_char ds @ rest \<and> (\<forall>d \<in> set ds. d < 10) \<and> digits_value acc (map digit_char ds) = Some n \<and>
       n \<le> 255 \<and> k' = k + length ds \<and> k' \<le> 3 \<and> no_digit rest)" (is "_ \<longleftrightarrow> (\<exists>ds. ?P acc k s ds)")
  using assms
proof (induction s arbitrary: acc k)
  case Nil
  then show ?case by (auto simp: no_digit_def)
next
  case (Cons c cs)
  show ?case
  proof (cases "char_digit c")
    case None
    have "?P acc k (c # cs) ds \<longleftrightarrow> ds = [] \<and> rest = c # cs \<and> n = acc \<and> k' = k" for ds
      using None Cons.prems by (cases ds) (auto simp: no_digit_def char_digit_char)
    with None show ?thesis by auto
  next
    case (Some d)
    have c: "c = digit_char d" "d < 10" using Some by (simp_all add: char_digit_Some)
    have P: "?P acc k (c # cs) ds \<longleftrightarrow> (\<exists>ds'. ds = d # ds' \<and> ?P (10 * acc + d) (Suc k) cs ds')" for ds
    proof (cases ds)
      case Nil
      with Some show ?thesis by (auto simp: no_digit_def)
    next
      case (Cons e ds')
      have e: "e = d" if "e < 10" "c = digit_char e" using Some char_digit_char [OF that(1)] that(2) by simp
      show ?thesis
      proof (cases "e = d")
        case True
        with Cons c show ?thesis by (simp add: char_digit_char)
      next
        case False
        with Cons e show ?thesis by auto
      qed
    qed
    have eq: "(\<exists>ds. ?P acc k (c # cs) ds) \<longleftrightarrow> (\<exists>ds'. ?P (10 * acc + d) (Suc k) cs ds')" unfolding P by blast
    show ?thesis
    proof (cases "10 * acc + d \<le> 255 \<and> Suc k \<le> 3")
      case True
      with Some Cons.IH [of "10 * acc + d" "Suc k"] show ?thesis unfolding eq by (simp add: mult.commute)
    next
      case False
      then have "\<not> ?P (10 * acc + d) (Suc k) cs ds'" for ds'
        using digits_value_ge [of "10 * acc + d" "map digit_char ds'" n] by auto
      moreover have "read_digits acc k (c # cs) = None" using Some False by (auto simp: mult.commute)
      ultimately show ?thesis unfolding eq by simp
    qed
  qed
qed

lemma octet_text: "n \<le> 255 \<Longrightarrow> length (nat_to_string n) \<le> 3"
  by (subst nat_to_string.simps, subst nat_to_string.simps, subst nat_to_string.simps) simp

lemma octet_bound: "unat (u :: 8 word) \<le> 255"
  using unsigned_less [of u, where ?'a = nat] by simp

text \<open>\<open>read_number\<close> takes off exactly what is printed of a \<open>u8\<close>.\<close>

lemma read_number_iff:
  "read_number s = Some (n, rest) \<longleftrightarrow> n \<le> 255 \<and> s = nat_to_string n @ rest \<and> no_digit rest"
proof
  assume "read_number s = Some (n, rest)"
  then obtain k where k: "read_digits 0 0 s = Some (n, k, rest)" "0 < k"
    "\<not> ((case s of [] \<Rightarrow> False | c # _ \<Rightarrow> c = CHR ''0'') \<and> 1 < k)"
    by (auto simp: read_number_def split: option.splits if_splits)
  then obtain ds where ds: "s = map digit_char ds @ rest" "\<forall>d \<in> set ds. d < 10"
    "digits_value 0 (map digit_char ds) = Some n" "n \<le> 255" "k = length ds" "no_digit rest"
    by (auto simp: read_digits_iff)
  from ds k(2,3) have "digit_list ds" by (cases ds) (auto simp: digit_list_def digit_char_zero)
  with ds show "n \<le> 255 \<and> s = nat_to_string n @ rest \<and> no_digit rest" using digits_printed by simp
next
  assume s: "n \<le> 255 \<and> s = nat_to_string n @ rest \<and> no_digit rest"
  obtain ds where ds: "digit_list ds" "nat_to_string n = map digit_char ds" using nat_to_string_digits by blast
  have v: "digits_value 0 (map digit_char ds) = Some n" using digits_value_printed [of n] ds(2) by simp
  have "length ds \<le> 3" using octet_text [of n] s ds(2) by simp
  with s ds v have "read_digits 0 0 s = Some (n, length ds, rest)" by (auto simp: read_digits_iff digit_list_def)
  moreover have "\<not> ((case s of [] \<Rightarrow> False | c # _ \<Rightarrow> c = CHR ''0'') \<and> 1 < length ds)"
  proof
    assume a: "(case s of [] \<Rightarrow> False | c # _ \<Rightarrow> c = CHR ''0'') \<and> 1 < length ds"
    from ds(1) obtain x xs where x: "ds = x # xs" "x < 10" by (cases ds) (auto simp: digit_list_def)
    with a s ds(2) have "digit_char x = digit_char 0" by (simp add: digit_char_zero)
    then have "x = 0" using char_digit_char [of x] char_digit_char [of 0] x(2) by simp
    with ds(1) x a show False by (simp add: digit_list_def)
  qed
  ultimately show "read_number s = Some (n, rest)" using ds(1) by (auto simp: read_number_def digit_list_def)
qed

lemma read_dot_number_iff:
  "read_dot_number s = Some (n, rest) \<longleftrightarrow> n \<le> 255 \<and> s = CHR ''.'' # nat_to_string n @ rest \<and> no_digit rest"
  by (auto simp: read_dot_number_def read_given_char_def read_number_iff bind_eq_Some_conv split: list.splits if_splits)

lemma no_digit_dot [simp]: "no_digit (CHR ''.'' # s)"
  by (simp add: no_digit_def char_digit_def)

lemma read_ipv4_iff:
  "read_ipv4 s = Some (a, []) \<longleftrightarrow> s = ipv4_to_string a"
proof
  assume "read_ipv4 s = Some (a, [])"
  then show "s = ipv4_to_string a"
    by (auto simp: read_ipv4_def bind_eq_Some_conv read_number_iff read_dot_number_iff ipv4_to_string_def unat_of_nat)
next
  assume s: "s = ipv4_to_string a"
  obtain w x y z where a: "a = Ipv4Addr w x y z" by (cases a)
  note b = octet_bound
  have "read_number s = Some (unat w, CHR ''.'' # nat_to_string (unat x) @ CHR ''.'' # nat_to_string (unat y) @ CHR ''.'' # nat_to_string (unat z))"
    using s b by (simp add: read_number_iff a ipv4_to_string_def)
  moreover have "read_dot_number (CHR ''.'' # nat_to_string (unat u) @ CHR ''.'' # rest) = Some (unat u, CHR ''.'' # rest)" for u :: "8 word" and rest
    using b by (simp add: read_dot_number_iff)
  moreover have "read_dot_number (CHR ''.'' # nat_to_string (unat z)) = Some (unat z, [])"
    using b by (simp add: read_dot_number_iff no_digit_def)
  ultimately show "read_ipv4 s = Some (a, [])" by (simp add: read_ipv4_def a)
qed

lemma ipv4_short: "length (ipv4_to_string a) \<le> 15"
proof -
  have b: "length (nat_to_string (unat u)) \<le> 3" for u :: "8 word" by (rule octet_text [OF octet_bound])
  obtain w x y z where "a = Ipv4Addr w x y z" by (cases a)
  with b [of w] b [of x] b [of y] b [of z] show ?thesis by (simp add: ipv4_to_string_def)
qed

lemma ipv4_from_str_iff: "ipv4_from_str s = Ok a \<longleftrightarrow> s = ipv4_to_string a"
  using read_ipv4_iff [of s a] ipv4_short [of a]
  by (auto simp: ipv4_from_str_def split: option.splits)

interpretation ipv4: exact_adapter ipv4_to_thrift ipv4_from_thrift "\<lambda>_. True" "\<lambda>_. True"
  by unfold_locales (auto simp: ipv4_to_thrift_def ipv4_from_thrift_def ipv4_from_str_iff)

section \<open>Properties\<close>

text \<open>
  C28. What a duration becomes in a message and when it is read back, for every unit and width.  The
  saturating adapter writes the whole units, at most the largest integer of the field, and reads
  that back.  The wrapping adapter keeps the low bits of the number of units, and what it wrote is
  read back as these bits, or refused when they make a negative number.
\<close>

theorem duration_adapters_correct:
  fixes g :: granularity and t :: thrift_int and d :: duration
  defines "w \<equiv> int_bits (std_type t)" and "units \<equiv> d div nanos_per g"
  shows "saturating_to_thrift g t d = min (int units) (2 ^ (w - 1) - 1) \<and>
    saturating_from_thrift g (saturating_to_thrift g t d) = Ok (min units (2 ^ (w - 1) - 1) * nanos_per g) \<and>
    wrapping_from_thrift g (wrapping_to_thrift g t d) =
      (if units mod 2 ^ w < 2 ^ (w - 1) then Ok (units mod 2 ^ w * nanos_per g) else Err TryFromIntError)"
proof (intro conjI)
  have max: "int_max (std_type t) = 2 ^ (w - 1) - 1" by (simp add: int_max_def w_def)
  show sat: "saturating_to_thrift g t d = min (int units) (2 ^ (w - 1) - 1)"
    unfolding saturating_to_eq units_def max ..
  have "(2 ^ (w - 1) - 1 :: int) = int (2 ^ (w - 1) - 1)" by (simp add: of_nat_diff)
  then have "nat (min (int units) (2 ^ (w - 1) - 1)) = min units (2 ^ (w - 1) - 1)"
    by (metis nat_int of_nat_min)
  moreover have "\<not> min (int units) (2 ^ (w - 1) - 1) < 0" using int_max_nonneg [of t] unfolding max by linarith
  ultimately show "saturating_from_thrift g (saturating_to_thrift g t d) = Ok (min units (2 ^ (w - 1) - 1) * nanos_per g)"
    by (simp only: duration_read(1) [OF saturating_in [of t g d], unfolded sat] sat if_False)
  show "wrapping_from_thrift g (wrapping_to_thrift g t d) =
      (if units mod 2 ^ w < 2 ^ (w - 1) then Ok (units mod 2 ^ w * nanos_per g) else Err TryFromIntError)"
    unfolding wrapping_to_eq duration_read(2) [OF as_type_in_type] units_def w_def
    using as_std_nonneg [of t "d div nanos_per g"] by auto
qed


text \<open>
  The text of an IPv4 address is unique: a string is read as an address exactly when it is what is
  written for that address, so that leading zeros, missing or superfluous parts, numbers above 255 and
  anything around the address are refused, and a field that was read is written back unchanged.
\<close>

theorem ipv4_text_unique:
  "ipv4_from_thrift s = Ok a \<longleftrightarrow> s = ipv4_to_thrift a"
  by (simp add: ipv4_to_thrift_def ipv4_from_thrift_def ipv4_from_str_iff)

end
