(* ===== verification/Futures_01.thy ===== *)
theory Futures_01
  imports Weighted_Buffer
begin

text \<open>
  The stream and future adaptors of \<open>shed/futures_01_ext/src\<close>, for the futures of version 0.1.  A
  poll returns \<open>Ok\<close> of \<open>NotReady\<close> or of \<open>Ready\<close>, or an error; an error does not end a stream, which
  may be polled again.  An inner stream is its script: the answers to the polls it will receive,
  each an item, an error or \<open>NotReady\<close>; the stream ends after the script.
\<close>

section \<open>Polls of version 0.1\<close>

type_synonym ('a, 'e) poll01 = "('a poll, 'e) result"

type_synonym ('i, 'e) script = "('i, 'e) result option list"

definition script_poll :: "('i, 'e) script \<Rightarrow> ('i option, 'e) poll01 \<times> ('i, 'e) script" where
  "script_poll script =
     (case script of
        [] \<Rightarrow> (Ok (Poll_Ready None), [])
      | None # rest \<Rightarrow> (Ok Poll_Pending, rest)
      | Some (Ok v) # rest \<Rightarrow> (Ok (Poll_Ready (Some v)), rest)
      | Some (Err e) # rest \<Rightarrow> (Err e, rest))"

text \<open>\<open>Fuse\<close> polls its stream until that has ended; an error does not count as an end.\<close>

definition fuse01_poll :: "('i, 'e) result fuse \<Rightarrow> ('i option, 'e) poll01 \<times> ('i, 'e) result fuse" where
  "fuse01_poll f =
     (if fuse_done f then (Ok (Poll_Ready None), f)
      else
        (case script_poll (fuse_script f) of
           (Ok (Poll_Ready None), script) \<Rightarrow> (Ok (Poll_Ready None), f\<lparr>fuse_script := script, fuse_done := True\<rparr>)
         | (r, script) \<Rightarrow> (r, f\<lparr>fuse_script := script\<rparr>)))"

text \<open>A stream of version 0.1 yields its items and its errors; this is how a run of it is observed.\<close>

definition yields :: "('a option, 'e) poll01 \<Rightarrow> ('a, 'e) result option poll" where
  "yields r =
     (case r of
        Err e \<Rightarrow> Poll_Ready (Some (Err e))
      | Ok Poll_Pending \<Rightarrow> Poll_Pending
      | Ok (Poll_Ready None) \<Rightarrow> Poll_Ready None
      | Ok (Poll_Ready (Some v)) \<Rightarrow> Poll_Ready (Some (Ok v)))"

definition observed ::
  "('c \<Rightarrow> 's \<Rightarrow> (('a option, 'e) poll01 \<times> 's) res) \<Rightarrow> 'c \<Rightarrow> 's \<Rightarrow> (('a, 'e) result option poll \<times> 's) res" where
  "observed poll_fn c s = (case poll_fn c s of Inl p \<Rightarrow> Inl p | Inr (r, s') \<Rightarrow> Inr (yields r, s'))"

section \<open>\<open>Enumerate\<close>\<close>

record ('i, 'e) enumerate01 =
  en_inner :: "('i, 'e) script"
  en_count :: nat

definition enumerate_new :: "('i, 'e) script \<Rightarrow> ('i, 'e) enumerate01" where
  "enumerate_new inner = \<lparr>en_inner = inner, en_count = 0\<rparr>"

text \<open>The count is a \<open>usize\<close>.\<close>

definition enumerate_poll ::
  "unit \<Rightarrow> ('i, 'e) enumerate01 \<Rightarrow> ((((nat \<times> 'i) option, 'e) poll01) \<times> ('i, 'e) enumerate01) res" where
  "enumerate_poll cx st =
     (case script_poll (en_inner st) of (r, inner) \<Rightarrow>
        let st = st\<lparr>en_inner := inner\<rparr> in
        (case r of
           Err e \<Rightarrow> Inr (Err e, st)
         | Ok Poll_Pending \<Rightarrow> Inr (Ok Poll_Pending, st)
         | Ok (Poll_Ready None) \<Rightarrow> Inr (Ok (Poll_Ready None), st)
         | Ok (Poll_Ready (Some v)) \<Rightarrow>
             let c = en_count st in
             res_bind (u64_add (en_count st) 1) (\<lambda>count.
               Inr (Ok (Poll_Ready (Some (c, v))), st\<lparr>en_count := count\<rparr>))))"

section \<open>\<open>BatchStream\<close>\<close>

record ('i, 'e) batch_stream =
  ba_inner :: "('i, 'e) result fuse"
  ba_err :: "'e option"
  ba_limit :: nat

definition batch_new :: "('i, 'e) script \<Rightarrow> nat \<Rightarrow> ('i, 'e) batch_stream" where
  "batch_new s limit = \<lparr>ba_inner = fuse_of s, ba_err = None, ba_limit = limit\<rparr>"

function batch_fill :: "'i list \<Rightarrow> ('i, 'e) batch_stream \<Rightarrow> 'i list \<times> ('i, 'e) batch_stream" where
  "batch_fill batch st =
     (if length batch < ba_limit st then
        (case fuse01_poll (ba_inner st) of
           (Ok (Poll_Ready (Some v)), inner) \<Rightarrow> batch_fill (batch @ [v]) (st\<lparr>ba_inner := inner\<rparr>)
         | (Ok _, inner) \<Rightarrow> (batch, st\<lparr>ba_inner := inner\<rparr>)
         | (Err err, inner) \<Rightarrow> (batch, st\<lparr>ba_inner := inner, ba_err := Some err\<rparr>))
      else (batch, st))"
  by pat_completeness auto
termination
  by (relation "measure (\<lambda>(batch, st). ba_limit st - length batch)") auto

declare batch_fill.simps [simp del]

definition batch_poll ::
  "unit \<Rightarrow> ('i, 'e) batch_stream \<Rightarrow> (('i list option, 'e) poll01 \<times> ('i, 'e) batch_stream) res" where
  "batch_poll cx st =
     (case ba_err st of
        Some err \<Rightarrow> Inr (Err err, st\<lparr>ba_err := None\<rparr>)
      | None \<Rightarrow>
          (case batch_fill [] st of (batch, st) \<Rightarrow>
             if batch = [] then
               (case ba_err st of
                  Some err \<Rightarrow> Inr (Err err, st\<lparr>ba_err := None\<rparr>)
                | None \<Rightarrow>
                    if fuse_done (ba_inner st) then Inr (Ok (Poll_Ready None), st)
                    else Inr (Ok Poll_Pending, st))
             else Inr (Ok (Poll_Ready (Some batch)), st)))"

section \<open>\<open>WeightLimitedBufferedStream\<close> of version 0.1\<close>

text \<open>
  As in version 0.3 the queue returns the results of its futures in their order, and whether the
  first has completed is an argument of the poll.  An error of the inner stream or of a future is
  returned at once, by \<open>?\<close> and \<open>try_ready!\<close>; in the second case the weight of the future is not
  subtracted.
\<close>

record ('i, 'e) weight_limited01 =
  w1_queue :: "(('i, 'e) result \<times> nat) list"
  w1_current_weight :: nat
  w1_weight_limit :: nat
  w1_max_buffer_size :: nat
  w1_stream :: "(('i, 'e) result \<times> nat, 'e) result fuse"

definition w1_new :: "buffered_params \<Rightarrow> (('i, 'e) result \<times> nat, 'e) script \<Rightarrow> ('i, 'e) weight_limited01" where
  "w1_new params stream =
     \<lparr>w1_queue = [], w1_current_weight = 0, w1_weight_limit = bp_weight_limit params,
      w1_max_buffer_size = bp_buffer_size params, w1_stream = fuse_of stream\<rparr>"

lemma fuse01_shrinks:
  "fuse01_poll f = (Ok (Poll_Ready (Some x)), f') \<Longrightarrow> length (fuse_script f') < length (fuse_script f)"
  by (auto simp: fuse01_poll_def script_poll_def split: if_splits list.splits option.splits result.splits)

function w1_fill :: "('i, 'e) weight_limited01 \<Rightarrow> ((unit, 'e) result \<times> ('i, 'e) weight_limited01) res" where
  "w1_fill st =
     (if length (w1_queue st) < w1_max_buffer_size st \<and> w1_current_weight st < w1_weight_limit st then
        (case fuse01_poll (w1_stream st) of
           (Err e, stream) \<Rightarrow> Inr (Err e, st\<lparr>w1_stream := stream\<rparr>)
         | (Ok (Poll_Ready (Some (s, weight))), stream) \<Rightarrow>
             res_bind (u64_add (w1_current_weight st) weight) (\<lambda>current.
               w1_fill (st\<lparr>w1_stream := stream, w1_current_weight := current,
                           w1_queue := w1_queue st @ [(s, weight)]\<rparr>))
         | (Ok _, stream) \<Rightarrow> Inr (Ok (), st\<lparr>w1_stream := stream\<rparr>))
      else Inr (Ok (), st))"
  by pat_completeness auto
termination
  by (relation "measure (\<lambda>st. length (fuse_script (w1_stream st)))") (auto dest: sym [THEN fuse01_shrinks])

declare w1_fill.simps [simp del]

definition w1_poll ::
  "bool \<Rightarrow> ('i, 'e) weight_limited01 \<Rightarrow> (('i option, 'e) poll01 \<times> ('i, 'e) weight_limited01) res" where
  "w1_poll front_ready st =
     res_bind (w1_fill st) (\<lambda>(r, st).
       case r of
         Err e \<Rightarrow> Inr (Err e, st)
       | Ok _ \<Rightarrow>
           (case w1_queue st of
              (out, weight) # queue \<Rightarrow>
                if front_ready then
                  (case out of
                     Err e \<Rightarrow> Inr (Err e, st\<lparr>w1_queue := queue\<rparr>)
                   | Ok val \<Rightarrow>
                       res_bind (u64_sub (w1_current_weight st) weight) (\<lambda>current.
                         Inr (Ok (Poll_Ready (Some val)), st\<lparr>w1_queue := queue, w1_current_weight := current\<rparr>)))
                else Inr (Ok Poll_Pending, st)
            | [] \<Rightarrow>
                if fuse_done (w1_stream st) then Inr (Ok (Poll_Ready None), st)
                else Inr (Ok Poll_Pending, st)))"

section \<open>\<open>FuturesOrdered\<close>\<close>

text \<open>A future is the number of polls that find it unfinished, and its result.\<close>

type_synonym ('i, 'e) future01 = "nat \<times> ('i, 'e) result"

definition future_poll :: "('i, 'e) future01 \<Rightarrow> ('i, 'e) poll01 \<times> ('i, 'e) future01" where
  "future_poll fut =
     (case fut of
        (Suc n, r) \<Rightarrow> (Ok Poll_Pending, (n, r))
      | (0, Ok v) \<Rightarrow> (Ok (Poll_Ready v), fut)
      | (0, Err e) \<Rightarrow> (Err e, fut))"

record ('i, 'e) futures_ordered =
  fo_elems :: "('i, 'e) future01 list"
  fo_current :: "('i, 'e) future01 option"

definition next_future :: "('i, 'e) future01 list \<Rightarrow> ('i, 'e) future01 option \<times> ('i, 'e) future01 list" where
  "next_future elems = (case elems of [] \<Rightarrow> (None, []) | fut # rest \<Rightarrow> (Some fut, rest))"

definition futures_ordered :: "('i, 'e) future01 list \<Rightarrow> ('i, 'e) futures_ordered" where
  "futures_ordered iter =
     (case next_future iter of (current, elems) \<Rightarrow> \<lparr>fo_elems = elems, fo_current = current\<rparr>)"

definition fo_poll ::
  "unit \<Rightarrow> ('i, 'e) futures_ordered \<Rightarrow> (('i option, 'e) poll01 \<times> ('i, 'e) futures_ordered) res" where
  "fo_poll cx st =
     (case fo_current st of
        Some fut \<Rightarrow>
          (case future_poll fut of
             (Ok (Poll_Ready v), _) \<Rightarrow>
               (case next_future (fo_elems st) of (current, elems) \<Rightarrow>
                  Inr (Ok (Poll_Ready (Some v)), st\<lparr>fo_elems := elems, fo_current := current\<rparr>))
           | (Ok Poll_Pending, fut) \<Rightarrow> Inr (Ok Poll_Pending, st\<lparr>fo_current := Some fut\<rparr>)
           | (Err e, _) \<Rightarrow>
               (case next_future (fo_elems st) of (current, elems) \<Rightarrow>
                  Inr (Err e, st\<lparr>fo_elems := elems, fo_current := current\<rparr>)))
      | None \<Rightarrow> Inr (Ok (Poll_Ready None), st))"

section \<open>\<open>CollectTo\<close> and \<open>CollectNoConsume\<close>\<close>

text \<open>\<open>ext\<close> is \<open>extend\<close>, which adds an item to the collection, \<open>dflt\<close> is its default.\<close>

record ('i, 'e, 'c) collect_to =
  ct_stream :: "('i, 'e) script"
  ct_collection :: 'c

definition ct_new :: "'c \<Rightarrow> ('i, 'e) script \<Rightarrow> ('i, 'e, 'c) collect_to" where
  "ct_new dflt stream = \<lparr>ct_stream = stream, ct_collection = dflt\<rparr>"

definition ct_finish :: "'c \<Rightarrow> ('i, 'e, 'c) collect_to \<Rightarrow> 'c \<times> ('i, 'e, 'c) collect_to" where
  "ct_finish dflt st = (ct_collection st, st\<lparr>ct_collection := dflt\<rparr>)"

lemma script_poll_shrinks: "script_poll s = (Ok (Poll_Ready (Some x)), s') \<Longrightarrow> length s' < length s"
  by (auto simp: script_poll_def split: list.splits option.splits result.splits)

function ct_poll ::
  "'c \<Rightarrow> ('i \<Rightarrow> 'c \<Rightarrow> 'c) \<Rightarrow> ('i, 'e, 'c) collect_to \<Rightarrow> ('c, 'e) poll01 \<times> ('i, 'e, 'c) collect_to" where
  "ct_poll dflt ext st =
     (case script_poll (ct_stream st) of
        (Ok (Poll_Ready (Some v)), stream) \<Rightarrow>
          ct_poll dflt ext (st\<lparr>ct_stream := stream, ct_collection := ext v (ct_collection st)\<rparr>)
      | (Ok (Poll_Ready None), stream) \<Rightarrow>
          (case ct_finish dflt (st\<lparr>ct_stream := stream\<rparr>) of (c, st) \<Rightarrow> (Ok (Poll_Ready c), st))
      | (Ok Poll_Pending, stream) \<Rightarrow> (Ok Poll_Pending, st\<lparr>ct_stream := stream\<rparr>)
      | (Err e, stream) \<Rightarrow> (Err e, snd (ct_finish dflt (st\<lparr>ct_stream := stream\<rparr>))))"
  by pat_completeness auto
termination
  by (relation "measure (\<lambda>(dflt, ext, st). length (ct_stream st))") (auto dest: sym [THEN script_poll_shrinks])

declare ct_poll.simps [simp del]

record ('i, 'e) collect_no_consume =
  nc_stream :: "('i, 'e) script option"
  nc_items :: "'i list"

definition nc_new :: "('i, 'e) script \<Rightarrow> ('i, 'e) collect_no_consume" where
  "nc_new s = \<lparr>nc_stream = Some s, nc_items = []\<rparr>"

definition nc_finish ::
  "('i, 'e) collect_no_consume \<Rightarrow> (('i list \<times> ('i, 'e) script) \<times> ('i, 'e) collect_no_consume) res" where
  "nc_finish st =
     (case nc_stream st of
        None \<Rightarrow> Inl (Panic ''finish called after completion'')
      | Some s \<Rightarrow> Inr ((nc_items st, s), \<lparr>nc_stream = None, nc_items = []\<rparr>))"

function nc_poll ::
  "('i, 'e) collect_no_consume \<Rightarrow> (('i list \<times> ('i, 'e) script, 'e) poll01 \<times> ('i, 'e) collect_no_consume) res" where
  "nc_poll st =
     (case nc_stream st of
        None \<Rightarrow> Inl (Panic ''CollectNoConsume future polled after completion'')
      | Some s \<Rightarrow>
          (case script_poll s of
             (Ok (Poll_Ready (Some e)), s) \<Rightarrow> nc_poll (st\<lparr>nc_stream := Some s, nc_items := nc_items st @ [e]\<rparr>)
           | (Ok (Poll_Ready None), s) \<Rightarrow>
               res_bind (nc_finish (st\<lparr>nc_stream := Some s\<rparr>)) (\<lambda>(r, st). Inr (Ok (Poll_Ready r), st))
           | (Ok Poll_Pending, s) \<Rightarrow> Inr (Ok Poll_Pending, st\<lparr>nc_stream := Some s\<rparr>)
           | (Err e, s) \<Rightarrow> res_bind (nc_finish (st\<lparr>nc_stream := Some s\<rparr>)) (\<lambda>(_, st). Inr (Err e, st))))"
  by pat_completeness auto
termination
  by (relation "measure (\<lambda>st. case nc_stream st of None \<Rightarrow> 0 | Some s \<Rightarrow> length s)")
    (auto dest: sym [THEN script_poll_shrinks])

declare nc_poll.simps [simp del]

section \<open>Batches\<close>

text \<open>
  What batches of a stream are: the items that are there without waiting, at most \<open>limit\<close> of them
  together; an error stands for itself.
\<close>

fun batch_front :: "nat \<Rightarrow> ('i, 'e) script \<Rightarrow> 'i list" where
  "batch_front (Suc k) (Some (Ok v) # s) = v # batch_front k s"
| "batch_front _ _ = []"

function batches :: "nat \<Rightarrow> ('i, 'e) script \<Rightarrow> ('i list, 'e) result list" where
  "batches limit [] = []"
| "batches limit (None # s) = batches limit s"
| "batches limit (Some (Err e) # s) = Err e # batches limit s"
| "batches limit (Some (Ok v) # s) =
     (let b = batch_front (limit - 1) s in Ok (v # b) # batches limit (drop (length b) s))"
  by pat_completeness auto
termination
  by (relation "measure (\<lambda>(limit, s). length s)") auto

lemma batch_front_length: "length (batch_front k s) \<le> k"
  by (induction k s rule: batch_front.induct) auto

lemma batch_front_script: "s = map (\<lambda>v. Some (Ok v)) (batch_front k s) @ drop (length (batch_front k s)) s"
  by (induction k s rule: batch_front.induct) auto

lemma batch_front_stop:
  "length (batch_front k s) < k \<Longrightarrow> drop (length (batch_front k s)) s = Some (Ok v) # r \<Longrightarrow> False"
proof (induction k s rule: batch_front.induct)
  case (1 k w s)
  then show ?case by auto
qed auto

definition flat :: "('i list, 'e) result list \<Rightarrow> ('i, 'e) result list" where
  "flat outs = concat (map (\<lambda>r. case r of Ok b \<Rightarrow> map Ok b | Err e \<Rightarrow> [Err e]) outs)"

lemma script_items_append [simp]: "script_items (s @ t) = script_items s @ script_items t"
  by (simp add: script_items_def List.map_filter_def)

lemma script_items_ok [simp]: "script_items (map (\<lambda>v. Some (Ok v)) vs) = map Ok vs"
  by (induction vs) simp_all

lemma batches_flat: "flat (batches limit s) = script_items s"
proof (induction limit s rule: batches.induct)
  case (4 limit v s)
  let ?b = "batch_front (limit - 1) s"
  have "script_items s = map Ok ?b @ script_items (drop (length ?b) s)"
    using arg_cong [OF batch_front_script [of s "limit - 1"], of script_items] by simp
  with 4 [OF refl] show ?case by (simp add: Let_def flat_def)
qed (simp_all add: flat_def)

lemma batches_sizes: "0 < limit \<Longrightarrow> Ok b \<in> set (batches limit s) \<Longrightarrow> b \<noteq> [] \<and> length b \<le> limit"
proof (induction limit s rule: batches.induct)
  case (4 limit v s)
  with batch_front_length [of "limit - 1" s] show ?case by (auto simp: Let_def)
qed auto

text \<open>What the loop of \<open>BatchStream\<close> takes from its stream.\<close>

definition batch_rest :: "('i, 'e) batch_stream \<Rightarrow> nat \<Rightarrow> ('i, 'e) script \<Rightarrow> ('i, 'e) batch_stream" where
  "batch_rest st k rest =
     (if k \<ge> ba_limit st then st\<lparr>ba_inner := (ba_inner st)\<lparr>fuse_script := rest\<rparr>\<rparr>
      else
        (case rest of
           Some (Err e) # r \<Rightarrow> st\<lparr>ba_inner := (ba_inner st)\<lparr>fuse_script := r\<rparr>, ba_err := Some e\<rparr>
         | [] \<Rightarrow> st\<lparr>ba_inner := (ba_inner st)\<lparr>fuse_script := [], fuse_done := True\<rparr>\<rparr>
         | _ # r \<Rightarrow> st\<lparr>ba_inner := (ba_inner st)\<lparr>fuse_script := r\<rparr>\<rparr>))"

lemma batch_rest_script [simp]:
  "batch_rest (st\<lparr>ba_inner := (ba_inner st)\<lparr>fuse_script := s\<rparr>\<rparr>) k rest = batch_rest st k rest"
  by (simp add: batch_rest_def split: list.split option.split result.split)

lemma batch_fill_eq:
  assumes "fuse_ok (ba_inner st)" "ba_err st = None"
  shows "batch_fill batch st =
    (let b = batch_front (ba_limit st - length batch) (fuse_script (ba_inner st)) in
     (batch @ b, batch_rest st (length batch + length b) (drop (length b) (fuse_script (ba_inner st)))))"
  using assms
proof (induction "fuse_script (ba_inner st)" arbitrary: batch st)
  case Nil
  show ?case
  proof (cases "fuse_done (ba_inner st)")
    case True
    with Nil have "(ba_inner st)\<lparr>fuse_script := [], fuse_done := True\<rparr> = ba_inner st" by (simp add: fuse.equality)
    with True Nil show ?thesis by (subst batch_fill.simps) (auto simp: fuse01_poll_def batch_rest_def)
  next
    case False
    with Nil show ?thesis
      by (subst batch_fill.simps) (auto simp: fuse01_poll_def script_poll_def batch_rest_def)
  qed
next
  case (Cons a s)
  note s = Cons.hyps(2) [symmetric]
  have not_done: "\<not> fuse_done (ba_inner st)" using Cons.prems(1) s by (simp add: fuse_ok_def)
  show ?case
  proof (cases "length batch < ba_limit st")
    case False
    with s show ?thesis by (subst batch_fill.simps) (simp add: batch_rest_def)
  next
    case True
    then obtain k where k: "ba_limit st - length batch = Suc k" by (metis Suc_diff_Suc)
    consider "a = None" | e where "a = Some (Err e)" | v where "a = Some (Ok v)" by (metis option.exhaust result.exhaust)
    then show ?thesis
    proof cases
      case (3 v)
      let ?st = "st\<lparr>ba_inner := (ba_inner st)\<lparr>fuse_script := s\<rparr>\<rparr>"
      have "batch_fill batch st = batch_fill (batch @ [v]) ?st"
        using True 3 s not_done by (subst batch_fill.simps) (simp add: fuse01_poll_def script_poll_def)
      also have "\<dots> = (let b = batch_front k s in (batch @ v # b, batch_rest st (Suc (length batch + length b)) (drop (length b) s)))"
      proof -
        have "fuse_ok (ba_inner ?st)" "ba_err ?st = None" "s = fuse_script (ba_inner ?st)" "ba_limit ?st - length (batch @ [v]) = k"
          using Cons.prems not_done k by (simp_all add: fuse_ok_def)
        with Cons.hyps(1) [of ?st "batch @ [v]"] show ?thesis by (simp add: Let_def)
      qed
      also have "\<dots> = (let b = batch_front (ba_limit st - length batch) (a # s) in
          (batch @ b, batch_rest st (length batch + length b) (drop (length b) (a # s))))"
        using 3 by (simp add: k Let_def)
      finally show ?thesis by (simp only: s)
    qed (use True s k not_done in \<open>subst batch_fill.simps, simp add: fuse01_poll_def script_poll_def batch_rest_def\<close>)+
  qed
qed

text \<open>What a batch stream still owes.\<close>

definition batch_pending :: "('i, 'e) batch_stream \<Rightarrow> ('i, 'e) script" where
  "batch_pending st = (case ba_err st of None \<Rightarrow> [] | Some e \<Rightarrow> [Some (Err e)]) @ fuse_script (ba_inner st)"

definition batch_state :: "nat \<Rightarrow> ('i, 'e) batch_stream \<Rightarrow> ('i list, 'e) result list \<Rightarrow> nat \<Rightarrow> bool" where
  "batch_state limit st outs n \<longleftrightarrow> 0 < limit \<and> fuse_ok (ba_inner st) \<and> ba_limit st = limit \<and>
     outs = batches limit (batch_pending st) \<and> n = length (batch_pending st)"

lemma batch_rest_state:
  assumes "fuse_ok (ba_inner st)" "ba_err st = None" "rest = [] \<or> \<not> fuse_done (ba_inner st)"
    and "k < ba_limit st \<longrightarrow> (\<forall>v r. rest \<noteq> Some (Ok v) # r)"
  shows "fuse_ok (ba_inner (batch_rest st k rest)) \<and> ba_limit (batch_rest st k rest) = ba_limit st \<and>
    batches limit (batch_pending (batch_rest st k rest)) = batches limit rest \<and>
    length (batch_pending (batch_rest st k rest)) \<le> length rest"
  using assms
  by (auto simp: batch_rest_def batch_pending_def fuse_ok_def split: list.split option.split result.split)

interpretation batching: ordered_progress "observed batch_poll" "batch_state limit" "\<lambda>_. True" "\<lambda>_. True" for limit
proof
  fix st :: "('i, 'e) batch_stream" and outs n c
  assume "batch_state limit st outs n"
  then have inv: "0 < limit" "fuse_ok (ba_inner st)" "ba_limit st = limit"
    and outs: "outs = batches limit (batch_pending st)" and n: "n = length (batch_pending st)"
    by (simp_all add: batch_state_def)
  let ?goal = "(\<exists>s' n'. observed batch_poll c st = Inr (Poll_Pending, s') \<and> batch_state limit s' outs n' \<and> n' + (if True then 1 else 0) \<le> n) \<or>
    (\<exists>v s' outs' n'. observed batch_poll c st = Inr (Poll_Ready (Some v), s') \<and> outs = v # outs' \<and> batch_state limit s' outs' n' \<and> n' < n) \<or>
    (\<exists>s'. observed batch_poll c st = Inr (Poll_Ready None, s') \<and> outs = [])"
  show ?goal
  proof (cases "ba_err st")
    case (Some e)
    then have "observed batch_poll c st = Inr (Poll_Ready (Some (Err e)), st\<lparr>ba_err := None\<rparr>)"
      by (simp add: observed_def batch_poll_def yields_def)
    moreover have "outs = Err e # batches limit (batch_pending (st\<lparr>ba_err := None\<rparr>))" "length (batch_pending (st\<lparr>ba_err := None\<rparr>)) < n"
      using Some by (simp_all add: outs n batch_pending_def)
    ultimately show ?thesis using inv by (simp add: batch_state_def)
  next
    case None
    let ?script = "fuse_script (ba_inner st)"
    let ?b = "batch_front limit ?script"
    let ?st = "batch_rest st (length ?b) (drop (length ?b) ?script)"
    have pend: "batch_pending st = ?script" using None by (simp add: batch_pending_def)
    have fill: "batch_fill [] st = (?b, ?st)" using batch_fill_eq [OF inv(2) None, of "[]"] inv(3) by (simp add: Let_def)
    have rest: "fuse_ok (ba_inner ?st) \<and> ba_limit ?st = limit \<and>
        batches limit (batch_pending ?st) = batches limit (drop (length ?b) ?script) \<and>
        length (batch_pending ?st) \<le> length (drop (length ?b) ?script)"
      using batch_rest_state [OF inv(2) None, of "drop (length ?b) ?script" "length ?b" limit] inv
        batch_front_stop [of limit ?script] by (auto simp: fuse_ok_def)
    consider "?script = []" | s where "?script = None # s" | e s where "?script = Some (Err e) # s" | v s where "?script = Some (Ok v) # s"
      by (metis list.exhaust option.exhaust result.exhaust)
    then show ?thesis
    proof cases
      case 1
      then have "observed batch_poll c st = Inr (Poll_Ready None, ?st)"
        using None fill inv by (simp add: observed_def batch_poll_def yields_def batch_rest_def)
      then show ?thesis using 1 by (simp add: outs pend)
    next
      case (2 s)
      then have "\<not> fuse_done (ba_inner st)" using inv by (simp add: fuse_ok_def)
      with 2 have "observed batch_poll c st = Inr (Poll_Pending, st\<lparr>ba_inner := (ba_inner st)\<lparr>fuse_script := s\<rparr>\<rparr>)"
        using None fill inv by (simp add: observed_def batch_poll_def yields_def batch_rest_def)
      then show ?thesis using 2 inv None by (auto simp: outs n pend batch_state_def batch_pending_def fuse_ok_def)
    next
      case (3 e s)
      then have "\<not> fuse_done (ba_inner st)" using inv by (simp add: fuse_ok_def)
      with 3 have "observed batch_poll c st = Inr (Poll_Ready (Some (Err e)), st\<lparr>ba_inner := (ba_inner st)\<lparr>fuse_script := s\<rparr>, ba_err := None\<rparr>)"
        using None fill inv by (simp add: observed_def batch_poll_def yields_def batch_rest_def)
      then show ?thesis using 3 inv None by (auto simp: outs n pend batch_state_def batch_pending_def fuse_ok_def)
    next
      case (4 v s)
      then obtain k where k: "limit = Suc k" using inv(1) by (metis gr0_conv_Suc)
      then have "?b = v # batch_front k s" using 4 by simp
      then have "observed batch_poll c st = Inr (Poll_Ready (Some (Ok ?b)), ?st)"
        using None fill by (simp add: observed_def batch_poll_def yields_def)
      moreover have "outs = Ok ?b # batches limit (batch_pending ?st)"
        using 4 rest by (simp add: outs pend k Let_def)
      moreover have "length (batch_pending ?st) < n"
      proof -
        have "length (drop (length ?b) ?script) < length ?script" using \<open>?b = v # batch_front k s\<close> 4 by simp
        with rest show ?thesis by (simp add: n pend)
      qed
      ultimately show ?thesis using rest inv(1) by (simp add: batch_state_def)
    qed
  qed
qed

lemma batch_new_state: "0 < limit \<Longrightarrow> batch_state limit (batch_new s limit) (batches limit s) (length s)"
  by (simp add: batch_state_def batch_new_def batch_pending_def)

section \<open>Futures one after the other\<close>

definition fo_owed :: "('i, 'e) futures_ordered \<Rightarrow> ('i, 'e) future01 list" where
  "fo_owed st = (case fo_current st of None \<Rightarrow> [] | Some fut \<Rightarrow> fut # fo_elems st)"

definition fo_state :: "('i, 'e) futures_ordered \<Rightarrow> ('i, 'e) result list \<Rightarrow> nat \<Rightarrow> bool" where
  "fo_state st outs n \<longleftrightarrow> outs = map snd (fo_owed st) \<and> n = sum_list (map (\<lambda>fut. Suc (fst fut)) (fo_owed st))"

lemma next_future_owed:
  "next_future elems = (current, rest) \<Longrightarrow> fo_owed (st\<lparr>fo_elems := rest, fo_current := current\<rparr>) = elems"
  by (auto simp: next_future_def fo_owed_def split: list.splits)

interpretation serial: ordered_progress "observed fo_poll" fo_state "\<lambda>_. True" "\<lambda>_. True"
proof
  fix st :: "('i, 'e) futures_ordered" and outs n c
  assume inv: "fo_state st outs n"
  show "(\<exists>s' n'. observed fo_poll c st = Inr (Poll_Pending, s') \<and> fo_state s' outs n' \<and> n' + (if True then 1 else 0) \<le> n) \<or>
    (\<exists>v s' outs' n'. observed fo_poll c st = Inr (Poll_Ready (Some v), s') \<and> outs = v # outs' \<and> fo_state s' outs' n' \<and> n' < n) \<or>
    (\<exists>s'. observed fo_poll c st = Inr (Poll_Ready None, s') \<and> outs = [])"
  proof (cases "fo_current st")
    case None
    with inv show ?thesis by (simp add: observed_def fo_poll_def yields_def fo_state_def fo_owed_def)
  next
    case (Some fut)
    obtain k r where fut: "fut = (k, r)" by (cases fut)
    obtain current elems where nxt: "next_future (fo_elems st) = (current, elems)" by (cases "next_future (fo_elems st)")
    show ?thesis
    proof (cases k)
      case 0
      then have "observed fo_poll c st = Inr (Poll_Ready (Some r), st\<lparr>fo_elems := elems, fo_current := current\<rparr>)"
        using Some fut nxt by (cases r) (simp_all add: observed_def fo_poll_def yields_def future_poll_def)
      with inv Some fut 0 next_future_owed [OF nxt, of st] show ?thesis by (simp add: fo_state_def fo_owed_def)
    next
      case (Suc j)
      then have "observed fo_poll c st = Inr (Poll_Pending, st\<lparr>fo_current := option.Some (j, r)\<rparr>)"
        using Some fut by (simp add: observed_def fo_poll_def yields_def future_poll_def)
      with inv Some fut Suc show ?thesis by (auto simp: fo_state_def fo_owed_def)
    qed
  qed
qed

lemma futures_ordered_state:
  "fo_state (futures_ordered futs) (map snd futs) (sum_list (map (\<lambda>fut. Suc (fst fut)) futs))"
  by (cases futs) (simp_all add: futures_ordered_def next_future_def fo_state_def fo_owed_def)

section \<open>Enumerating and collecting\<close>

fun numbered :: "nat \<Rightarrow> ('i, 'e) result list \<Rightarrow> (nat \<times> 'i, 'e) result list" where
  "numbered k [] = []"
| "numbered k (Ok v # rs) = Ok (k, v) # numbered (Suc k) rs"
| "numbered k (Err e # rs) = Err e # numbered k rs"

definition enumerate_state :: "('i, 'e) enumerate01 \<Rightarrow> (nat \<times> 'i, 'e) result list \<Rightarrow> nat \<Rightarrow> bool" where
  "enumerate_state st outs n \<longleftrightarrow> en_count st + length (en_inner st) < 2 ^ 64 \<and>
     outs = numbered (en_count st) (script_items (en_inner st)) \<and> n = length (en_inner st)"

interpretation enumerating: ordered_progress "observed enumerate_poll" enumerate_state "\<lambda>_. True" "\<lambda>_. True"
proof
  fix st :: "('i, 'e) enumerate01" and outs n c
  assume inv: "enumerate_state st outs n"
  consider "en_inner st = []" | s where "en_inner st = None # s" | e s where "en_inner st = Some (Err e) # s"
    | v s where "en_inner st = Some (Ok v) # s"
    by (metis list.exhaust option.exhaust result.exhaust)
  then show "(\<exists>s' n'. observed enumerate_poll c st = Inr (Poll_Pending, s') \<and> enumerate_state s' outs n' \<and> n' + (if True then 1 else 0) \<le> n) \<or>
    (\<exists>v s' outs' n'. observed enumerate_poll c st = Inr (Poll_Ready (Some v), s') \<and> outs = v # outs' \<and> enumerate_state s' outs' n' \<and> n' < n) \<or>
    (\<exists>s'. observed enumerate_poll c st = Inr (Poll_Ready None, s') \<and> outs = [])"
    by cases (use inv in \<open>auto simp: enumerate_state_def observed_def enumerate_poll_def script_poll_def yields_def Let_def u64_add_def\<close>)
qed

text \<open>A collecting future, polled until it returns.\<close>

fun ct_run :: "'c \<Rightarrow> ('i \<Rightarrow> 'c \<Rightarrow> 'c) \<Rightarrow> nat \<Rightarrow> ('i, 'e, 'c) collect_to \<Rightarrow> ('c, 'e) result option" where
  "ct_run dflt ext 0 st = None"
| "ct_run dflt ext (Suc k) st =
     (case ct_poll dflt ext st of
        (Ok Poll_Pending, st) \<Rightarrow> ct_run dflt ext k st
      | (Ok (Poll_Ready c), st) \<Rightarrow> Some (Ok c)
      | (Err e, st) \<Rightarrow> Some (Err e))"

fun until_error :: "('i \<Rightarrow> 'c \<Rightarrow> 'c) \<Rightarrow> ('i, 'e) result list \<Rightarrow> 'c \<Rightarrow> ('c, 'e) result" where
  "until_error ext [] c = Ok c"
| "until_error ext (Ok v # rs) c = until_error ext rs (ext v c)"
| "until_error ext (Err e # rs) c = Err e"

lemma ct_run_collects:
  "length (filter Option.is_none (ct_stream st)) < k \<Longrightarrow>
     ct_run dflt ext k st = Some (until_error ext (script_items (ct_stream st)) (ct_collection st))"
proof (induction "ct_stream st" arbitrary: st k)
  case Nil
  then show ?case
    by (cases k) (simp_all add: ct_poll.simps [of dflt ext st] script_poll_def ct_finish_def)
next
  case (Cons a s)
  note s = Cons.hyps(2) [symmetric]
  from Cons.prems obtain j where k: "k = Suc j" by (cases k) simp_all
  consider "a = None" | e where "a = Some (Err e)" | v where "a = Some (Ok v)" by (metis option.exhaust result.exhaust)
  then show ?case
  proof cases
    case 1
    have "ct_run dflt ext j (st\<lparr>ct_stream := s\<rparr>) = Some (until_error ext (script_items s) (ct_collection st))"
      using Cons.hyps(1) [of "st\<lparr>ct_stream := s\<rparr>" j] Cons.prems 1 k s by simp
    with 1 k s show ?thesis by (simp add: ct_poll.simps [of dflt ext st] script_poll_def)
  next
    case (2 e)
    with k s show ?thesis by (simp add: ct_poll.simps [of dflt ext st] script_poll_def)
  next
    case (3 v)
    let ?st = "st\<lparr>ct_stream := s, ct_collection := ext v (ct_collection st)\<rparr>"
    have "ct_run dflt ext k ?st = Some (until_error ext (script_items s) (ct_collection ?st))"
      using Cons.hyps(1) [of ?st k] Cons.prems 3 s by simp
    moreover have "ct_poll dflt ext st = ct_poll dflt ext ?st" using 3 s by (subst ct_poll.simps) (simp add: script_poll_def)
    ultimately show ?thesis using 3 k s by simp
  qed
qed

section \<open>A failed future keeps its weight\<close>

lemma w1_fill_full: "w1_weight_limit st \<le> w1_current_weight st \<Longrightarrow> w1_fill st = Inr (Ok (), st)"
  by (subst w1_fill.simps) simp

lemma w1_run_stuck:
  assumes "w1_weight_limit st \<le> w1_current_weight st" "w1_queue st = []" "\<not> fuse_done (w1_stream st)"
  shows "poll_run (observed w1_poll) cs st = ([], Run_Open st)"
  by (induction cs) (use assms in \<open>simp_all add: observed_def w1_poll_def w1_fill_full yields_def\<close>)

section \<open>Properties\<close>

text \<open>
  C27. Batching loses nothing and keeps the order: a batch stream with a positive limit that is
  polled often enough ends, and what it has yielded, taken apart, is what the stream has, items
  and errors, in the same order; no batch is empty or longer than the limit.
\<close>

theorem batch_stream_lossless:
  assumes "0 < limit" "length s < length cs"
  shows "\<exists>outs st'. poll_run (observed batch_poll) cs (batch_new s limit) = (outs, Run_Done st') \<and>
    flat outs = script_items s \<and> (\<forall>b. Ok b \<in> set outs \<longrightarrow> b \<noteq> [] \<and> length b \<le> limit)"
proof -
  have "list_all (\<lambda>_. True) cs" "length s < length (filter (\<lambda>_. True) cs)" using assms(2) by (simp_all add: list_all_iff)
  from batching.run_ends [OF batch_new_state [OF assms(1)] this] obtain st' where
    "poll_run (observed batch_poll) cs (batch_new s limit) = (batches limit s, Run_Done st')" by blast
  with batches_flat [of limit s] batches_sizes [OF assms(1), of _ s] show ?thesis by blast
qed

theorem batch_stream_lossless_witness:
  "\<exists>outs st'. poll_run (observed batch_poll) (replicate 8 ())
       (batch_new [Some (Ok CHR ''a''), Some (Ok CHR ''b''), Some (Ok CHR ''c''), None, Some (Ok CHR ''d''), Some (Err (7 :: nat)), Some (Ok CHR ''e'')] 2) =
       (outs, Run_Done st') \<and> flat outs = [Ok CHR ''a'', Ok CHR ''b'', Ok CHR ''c'', Ok CHR ''d'', Err 7, Ok CHR ''e'']"
  using batch_stream_lossless [of 2 "[Some (Ok CHR ''a''), Some (Ok CHR ''b''), Some (Ok CHR ''c''), None, Some (Ok CHR ''d''), Some (Err (7 :: nat)), Some (Ok CHR ''e'')]" "replicate 8 ()"]
  by (simp only: length_replicate) (simp, blast)

text \<open>
  The futures of a sequence are run one after the other: polled often enough, the stream ends and
  has yielded the result of each of them in their order, and an error does not stop it.
\<close>

theorem futures_ordered_serial:
  assumes "sum_list (map (\<lambda>fut. Suc (fst fut)) futs) < length cs"
  shows "\<exists>st'. poll_run (observed fo_poll) cs (futures_ordered futs) = (map snd futs, Run_Done st')"
  using serial.run_ends [OF futures_ordered_state, of cs futs] assms by (simp add: list_all_iff)

theorem futures_ordered_serial_witness:
  "\<exists>st'. poll_run (observed fo_poll) (replicate 9 ()) (futures_ordered [(2, Ok ''a''), (0, Err (5 :: nat)), (3, Ok ''c'')]) =
     ([Ok ''a'', Err 5, Ok ''c''], Run_Done st')"
  using futures_ordered_serial [of "[(2, Ok ''a''), (0, Err (5 :: nat)), (3, Ok ''c'')]" "replicate 9 ()"]
  by (simp only: length_replicate) simp

text \<open>
  The weight-limited buffer of version 0.1 does not give back the weight of a future that fails.  When
  the first future of a stream fails and its weight reaches the limit, the buffer returns the
  error and is pending in all later polls, without polling the stream again: it yields nothing
  more and never ends.
\<close>

theorem weight_limited01_leaks:
  assumes "0 < bp_weight_limit params" "bp_weight_limit params \<le> w" "w < 2 ^ 64" "0 < bp_buffer_size params"
  shows "\<exists>st'. poll_run (observed w1_poll) cs (w1_new params (Some (Ok (Err e, w)) # rest)) =
      (if True \<in> set cs then [Err e] else [], Run_Open st') \<and>
    (cs \<noteq> [] \<longrightarrow> fuse_script (w1_stream st') = rest)"
proof -
  let ?start = "w1_new params (Some (Ok (Err e, w)) # rest)"
  let ?st = "?start\<lparr>w1_queue := [(Err e, w)], w1_current_weight := w, w1_stream := fuse_of rest\<rparr>"
  have fill: "w1_fill ?start = Inr (Ok (), ?st)"
    using assms by (subst w1_fill.simps)
      (simp add: w1_new_def fuse01_poll_def fuse_of_def script_poll_def u64_add_def w1_fill_full)
  have full: "w1_weight_limit ?st \<le> w1_current_weight ?st" using assms(2) by (simp add: w1_new_def)
  have stuck: "poll_run (observed w1_poll) cs (?st\<lparr>w1_queue := []\<rparr>) = ([], Run_Open (?st\<lparr>w1_queue := []\<rparr>))" for cs
    by (rule w1_run_stuck) (use full in \<open>simp_all add: fuse_of_def\<close>)
  have run: "poll_run (observed w1_poll) cs ?st =
      (if True \<in> set cs then [Err e] else [], Run_Open (if True \<in> set cs then ?st\<lparr>w1_queue := []\<rparr> else ?st))" for cs
  proof (induction cs)
    case (Cons c cs)
    have "observed w1_poll c ?st = Inr (if c then (Poll_Ready (Some (Err e)), ?st\<lparr>w1_queue := []\<rparr>) else (Poll_Pending, ?st))"
      using w1_fill_full [OF full] by (simp add: observed_def w1_poll_def yields_def)
    with Cons stuck show ?case by (cases c) simp_all
  qed simp
  have first: "observed w1_poll c ?start = observed w1_poll c ?st" for c
    using fill w1_fill_full [OF full] by (simp add: observed_def w1_poll_def)
  show ?thesis
  proof (cases cs)
    case (Cons c cs')
    let ?last = "if True \<in> set cs then ?st\<lparr>w1_queue := []\<rparr> else ?st"
    have "poll_run (observed w1_poll) cs ?start = poll_run (observed w1_poll) cs ?st" using first [of c] Cons by simp
    also note run
    finally have "poll_run (observed w1_poll) cs ?start = (if True \<in> set cs then [Err e] else [], Run_Open ?last)" .
    moreover have "fuse_script (w1_stream ?last) = rest" by (simp add: fuse_of_def)
    ultimately have "poll_run (observed w1_poll) cs ?start = (if True \<in> set cs then [Err e] else [], Run_Open ?last) \<and>
        (cs \<noteq> [] \<longrightarrow> fuse_script (w1_stream ?last) = rest)" by (intro conjI impI)
    then show ?thesis by (rule exI)
  qed simp
qed

theorem weight_limited01_leaks_witness:
  "\<exists>st'. poll_run (observed w1_poll) [False, True, True]
       (w1_new \<lparr>bp_weight_limit = 10, bp_buffer_size = 4\<rparr> [Some (Ok (Err ''no'', 12)), Some (Ok (Ok (1 :: nat), 1))]) =
     ([Err ''no''], Run_Open st') \<and> fuse_script (w1_stream st') = [Some (Ok (Ok 1, 1))]"
  using weight_limited01_leaks [of "\<lparr>bp_weight_limit = 10, bp_buffer_size = 4\<rparr>" 12 "[False, True, True]" "''no''" "[Some (Ok (Ok (1 :: nat), 1))]"]
  by simp

end
