(* ===== verification/Stream_Wrappers.thy ===== *)
theory Stream_Wrappers
  imports Poll_Streams Durations
begin

text \<open>
  The wrappers of streams and futures in \<open>shed/futures_ext/src\<close>: \<open>StreamWithTimeout\<close>,
  \<open>YieldPeriodically\<close>, \<open>ReturnRemainder\<close> with \<open>ConservativeReceiver\<close>, \<open>OnCancel\<close> and
  \<open>OnCancelWithData\<close>, \<open>ControlledHandle\<close> and \<open>flatten_err\<close>.

  An inner stream is the script of its answers.  Times are nanoseconds on a clock.  What the clock,
  the timer and the executor decide is an argument of each poll.
\<close>

section \<open>Inner streams\<close>

definition script_next :: "'a option list \<Rightarrow> 'a option poll \<times> 'a option list" where
  "script_next script =
     (case script of
        [] \<Rightarrow> (Poll_Ready None, [])
      | None # rest \<Rightarrow> (Poll_Pending, rest)
      | Some x # rest \<Rightarrow> (Poll_Ready (Some x), rest))"

definition script_stream :: "'c \<Rightarrow> 'a option list \<Rightarrow> ('a option poll \<times> 'a option list) res" where
  "script_stream cx script = Inr (script_next script)"

lemma script_next_cases:
  obtains (ended) "script = []" "script_next script = (Poll_Ready None, [])"
  | (pending) rest where "script = None # rest" "script_next script = (Poll_Pending, rest)"
  | (yielded) x rest where "script = Some x # rest" "script_next script = (Poll_Ready (Some x), rest)"
  by (cases script; cases "hd script") (auto simp: script_next_def)

section \<open>\<open>StreamWithTimeout\<close>\<close>

datatype stream_timeout_error = StreamTimeoutError duration

record 'a stream_with_timeout =
  sw_inner :: "'a option list"
  sw_duration :: duration
  sw_done :: bool
  sw_deadline :: "nat option"

definition sw_new :: "'a option list \<Rightarrow> duration \<Rightarrow> 'a stream_with_timeout" where
  "sw_new inner dur = \<lparr>sw_inner = inner, sw_duration = dur, sw_done = False, sw_deadline = None\<rparr>"

text \<open>
  A poll finds the clock at \<open>now\<close>; the timer of the runtime has fired all that was due at \<open>timer\<close>.
  \<open>sleep\<close> is due its duration after it was made.
\<close>

type_synonym clock = "nat \<times> nat"

definition sw_poll_next ::
  "clock \<Rightarrow> 'a stream_with_timeout \<Rightarrow> (('a, stream_timeout_error) result option poll \<times> 'a stream_with_timeout) res" where
  "sw_poll_next = (\<lambda>(now, timer) st.
     if sw_done st then Inr (Poll_Ready None, st)
     else
       let dur = sw_duration st;
           deadline = (case sw_deadline st of None \<Rightarrow> now + dur | Some d \<Rightarrow> d);
           st = st\<lparr>sw_deadline := Some deadline\<rparr> in
       if deadline \<le> timer then Inr (Poll_Ready (Some (Err (StreamTimeoutError dur))), st\<lparr>sw_done := True\<rparr>)
       else
         (case script_next (sw_inner st) of
            (Poll_Pending, inner) \<Rightarrow> Inr (Poll_Pending, st\<lparr>sw_inner := inner\<rparr>)
          | (Poll_Ready None, inner) \<Rightarrow> Inr (Poll_Ready None, st\<lparr>sw_inner := inner, sw_done := True\<rparr>)
          | (Poll_Ready (Some v), inner) \<Rightarrow> Inr (Poll_Ready (Some (Ok v)), st\<lparr>sw_inner := inner\<rparr>)))"

section \<open>\<open>YieldPeriodically\<close>\<close>

text \<open>The calls of the callback are recorded; \<open>yp_wakes\<close> counts how often the stream wakes its own task.\<close>

record 'a yield_periodically =
  yp_inner :: "'a option list"
  yp_budget :: duration
  yp_current_budget :: duration
  yp_must_yield :: bool
  yp_on_large_overshoot :: bool
  yp_overshoots :: "(duration \<times> duration) list"
  yp_wakes :: nat

definition BUDGET_OVERSHOOT_MULTIPLIER :: nat where
  "BUDGET_OVERSHOOT_MULTIPLIER = 3"

definition yp_new :: "'a option list \<Rightarrow> duration \<Rightarrow> 'a yield_periodically" where
  "yp_new inner budget =
     \<lparr>yp_inner = inner, yp_budget = budget, yp_current_budget = budget, yp_must_yield = False,
      yp_on_large_overshoot = False, yp_overshoots = [], yp_wakes = 0\<rparr>"

definition yp_with_budget :: "duration \<Rightarrow> 'a yield_periodically \<Rightarrow> 'a yield_periodically" where
  "yp_with_budget budget st = st\<lparr>yp_budget := budget, yp_current_budget := budget\<rparr>"

definition yp_set_on_large_overshoot :: "'a yield_periodically \<Rightarrow> 'a yield_periodically" where
  "yp_set_on_large_overshoot st = st\<lparr>yp_on_large_overshoot := True\<rparr>"

definition dur_checked_sub :: "duration \<Rightarrow> duration \<Rightarrow> duration option" where
  "dur_checked_sub a b = (if b \<le> a then Some (a - b) else None)"

definition dur_mul :: "duration \<Rightarrow> nat \<Rightarrow> duration res" where
  "dur_mul d k = (if d * k < dur_limit then Inr (d * k) else Inl (Panic ''overflow when multiplying duration by scalar''))"

definition yp_overshoot :: "duration \<Rightarrow> 'a yield_periodically \<Rightarrow> 'a yield_periodically res" where
  "yp_overshoot elapsed st =
     (if yp_on_large_overshoot st then
        res_bind (dur_mul (yp_budget st) BUDGET_OVERSHOOT_MULTIPLIER) (\<lambda>allowed.
          Inr (if allowed < elapsed - yp_current_budget st
               then st\<lparr>yp_overshoots := yp_overshoots st @ [(yp_current_budget st, elapsed)]\<rparr> else st))
      else Inr st)"

text \<open>The argument is the time that the poll of the inner stream takes.\<close>

definition yp_poll_next :: "duration \<Rightarrow> 'a yield_periodically \<Rightarrow> ('a option poll \<times> 'a yield_periodically) res" where
  "yp_poll_next elapsed st =
     (if yp_must_yield st then Inr (Poll_Pending, st\<lparr>yp_must_yield := False, yp_wakes := Suc (yp_wakes st)\<rparr>)
      else
        (case script_next (yp_inner st) of
           (Poll_Pending, inner) \<Rightarrow> Inr (Poll_Pending, st\<lparr>yp_inner := inner, yp_current_budget := yp_budget st\<rparr>)
         | (Poll_Ready r, inner) \<Rightarrow>
             let st = st\<lparr>yp_inner := inner\<rparr> in
             (case dur_checked_sub (yp_current_budget st) elapsed of
                Some new_budget \<Rightarrow> Inr (Poll_Ready r, st\<lparr>yp_current_budget := new_budget\<rparr>)
              | None \<Rightarrow>
                  res_bind (yp_overshoot elapsed st) (\<lambda>st.
                    Inr (Poll_Ready r, st\<lparr>yp_must_yield := True, yp_current_budget := yp_budget st\<rparr>)))))"

section \<open>One-shot channels and \<open>ConservativeReceiver\<close>\<close>

text \<open>The channel of the \<open>futures\<close> crate: a slot, and whether each end is still there.\<close>

record 't oneshot =
  os_slot :: "'t option"
  os_sender :: bool
  os_receiver :: bool

definition oneshot_channel :: "'t oneshot" where
  "oneshot_channel = \<lparr>os_slot = None, os_sender = True, os_receiver = True\<rparr>"

definition oneshot_send :: "'t \<Rightarrow> 't oneshot \<Rightarrow> (unit, 't) result \<times> 't oneshot" where
  "oneshot_send t ch =
     (if os_receiver ch then (Ok (), ch\<lparr>os_slot := Some t, os_sender := False\<rparr>) else (Err t, ch\<lparr>os_sender := False\<rparr>))"

definition oneshot_drop_sender :: "'t oneshot \<Rightarrow> 't oneshot" where
  "oneshot_drop_sender ch = ch\<lparr>os_sender := False\<rparr>"

datatype canceled = Canceled

definition oneshot_poll :: "'t oneshot \<Rightarrow> ('t, canceled) result poll \<times> 't oneshot" where
  "oneshot_poll ch =
     (case os_slot ch of
        Some t \<Rightarrow> (Poll_Ready (Ok t), ch\<lparr>os_slot := None\<rparr>)
      | None \<Rightarrow> if os_sender ch then (Poll_Pending, ch) else (Poll_Ready (Err Canceled), ch))"

datatype conservative_receiver_error = Receiver_Canceled | ReceiveBeforeSend

definition cr_display :: "conservative_receiver_error \<Rightarrow> string" where
  "cr_display e = (case e of Receiver_Canceled \<Rightarrow> ''oneshot canceled'' | ReceiveBeforeSend \<Rightarrow> ''recv called on channel before send'')"

definition cr_poll :: "'t oneshot \<Rightarrow> ('t, conservative_receiver_error) result \<times> 't oneshot" where
  "cr_poll ch =
     (case oneshot_poll ch of
        (Poll_Ready (Ok t), ch) \<Rightarrow> (Ok t, ch)
      | (Poll_Ready (Err _), ch) \<Rightarrow> (Err Receiver_Canceled, ch)
      | (Poll_Pending, ch) \<Rightarrow> (Err ReceiveBeforeSend, ch))"

text \<open>Awaiting the receiver polls it once, as it is always ready, and drops it.\<close>

definition cr_await :: "'t oneshot \<Rightarrow> ('t, conservative_receiver_error) result \<times> 't oneshot" where
  "cr_await ch = (case cr_poll ch of (r, ch) \<Rightarrow> (r, ch\<lparr>os_receiver := False\<rparr>))"

section \<open>\<open>ReturnRemainder\<close>\<close>

text \<open>
  An inner stream that can say more after it has said \<open>None\<close>: an entry of its script is pending, an item
  or the end of a part.
\<close>

datatype 'a answer = Answer_Pending | Answer_Item 'a | Answer_End

definition answer_next :: "'a answer list \<Rightarrow> 'a option poll \<times> 'a answer list" where
  "answer_next script =
     (case script of
        [] \<Rightarrow> (Poll_Ready None, [])
      | Answer_Pending # rest \<Rightarrow> (Poll_Pending, rest)
      | Answer_Item x # rest \<Rightarrow> (Poll_Ready (Some x), rest)
      | Answer_End # rest \<Rightarrow> (Poll_Ready None, rest))"

record 'a return_remainder =
  rr_inner :: "'a answer list option"
  rr_send :: bool
  rr_channel :: "'a answer list oneshot"

definition rr_new :: "'a answer list \<Rightarrow> 'a return_remainder" where
  "rr_new inner = \<lparr>rr_inner = Some inner, rr_send = True, rr_channel = oneshot_channel\<rparr>"

definition rr_poll_next :: "unit \<Rightarrow> 'a return_remainder \<Rightarrow> ('a option poll \<times> 'a return_remainder) res" where
  "rr_poll_next cx st =
     (case rr_inner st of
        None \<Rightarrow> Inr (Poll_Ready None, st)
      | Some inner \<Rightarrow>
          (case answer_next inner of
             (Poll_Pending, inner) \<Rightarrow> Inr (Poll_Pending, st\<lparr>rr_inner := Some inner\<rparr>)
           | (Poll_Ready (Some v), inner) \<Rightarrow> Inr (Poll_Ready (Some v), st\<lparr>rr_inner := Some inner\<rparr>)
           | (Poll_Ready None, inner) \<Rightarrow>
               if rr_send st then
                 Inr (Poll_Ready None,
                   st\<lparr>rr_inner := None, rr_send := False, rr_channel := snd (oneshot_send inner (rr_channel st))\<rparr>)
               else Inl (Panic ''send is None iff inner is None'')))"

text \<open>Dropping the wrapper drops its sender.\<close>

definition rr_drop :: "'a return_remainder \<Rightarrow> 'a return_remainder" where
  "rr_drop st = (if rr_send st then st\<lparr>rr_inner := None, rr_send := False, rr_channel := oneshot_drop_sender (rr_channel st)\<rparr> else st)"

section \<open>\<open>OnCancel\<close> and \<open>OnCancelWithData\<close>\<close>

text \<open>
  A future as the answers to its polls, and \<open>cancel_data\<close> of what is left of it; the calls of the callback
  are recorded with their argument.  \<open>OnCancel\<close> is the case where there is no data.
\<close>

record ('v, 'd) on_cancel =
  oc_inner :: "'v option list"
  oc_on_cancel :: bool
  oc_calls :: "'d list"

definition oc_new :: "'v option list \<Rightarrow> ('v, 'd) on_cancel" where
  "oc_new inner = \<lparr>oc_inner = inner, oc_on_cancel = True, oc_calls = []\<rparr>"

definition oc_poll :: "('v, 'd) on_cancel \<Rightarrow> 'v poll \<times> ('v, 'd) on_cancel" where
  "oc_poll st =
     (case oc_inner st of
        [] \<Rightarrow> (Poll_Pending, st)
      | None # rest \<Rightarrow> (Poll_Pending, st\<lparr>oc_inner := rest\<rparr>)
      | Some v # rest \<Rightarrow> (Poll_Ready v, st\<lparr>oc_inner := rest, oc_on_cancel := False\<rparr>))"

definition oc_drop :: "('v option list \<Rightarrow> 'd) \<Rightarrow> ('v, 'd) on_cancel \<Rightarrow> ('v, 'd) on_cancel" where
  "oc_drop cancel_data st =
     (if oc_on_cancel st then st\<lparr>oc_on_cancel := False, oc_calls := oc_calls st @ [cancel_data (oc_inner st)]\<rparr> else st)"

section \<open>\<open>ControlledHandle\<close>\<close>

text \<open>The handles of a task share one abort handle; the last one to go aborts the task.\<close>

record controlled =
  ch_handles :: nat
  ch_aborted :: bool

definition spawn_controlled :: controlled where
  "spawn_controlled = \<lparr>ch_handles = 1, ch_aborted = False\<rparr>"

definition ch_clone :: "controlled \<Rightarrow> controlled" where
  "ch_clone c = c\<lparr>ch_handles := Suc (ch_handles c)\<rparr>"

definition ch_drop :: "controlled \<Rightarrow> controlled" where
  "ch_drop c = (if ch_handles c = 1 then c\<lparr>ch_handles := 0, ch_aborted := True\<rparr> else c\<lparr>ch_handles := ch_handles c - 1\<rparr>)"

section \<open>\<open>flatten_err\<close>\<close>

definition flatten_err :: "('e2 \<Rightarrow> 'e1) \<Rightarrow> (('i, 'e1) result, 'e2) result \<Rightarrow> ('i, 'e1) result" where
  "flatten_err from e =
     (case e of
        Ok (Ok i) \<Rightarrow> Ok i
      | Ok (Err e1) \<Rightarrow> Err e1
      | Err e2 \<Rightarrow> Err (from e2))"

section \<open>A timeout ends a stream\<close>

text \<open>The polls before the deadline, and what becomes of them.\<close>

definition before :: "nat \<Rightarrow> clock list \<Rightarrow> clock list" where
  "before deadline cs = takeWhile (\<lambda>(now, timer). timer < deadline) cs"

definition sw_expected ::
  "duration \<Rightarrow> nat \<Rightarrow> clock list \<Rightarrow> 'a option list \<Rightarrow> ('a, stream_timeout_error) result list \<times> 's run_end \<Rightarrow> bool" where
  "sw_expected dur deadline cs script r \<longleftrightarrow>
     (case poll_run script_stream (before deadline cs) script of (outs, e) \<Rightarrow>
        (case e of
           Run_Done _ \<Rightarrow> fst r = map Ok outs \<and> (\<exists>st'. snd r = Run_Done st')
         | Run_Open _ \<Rightarrow>
             fst r = map Ok outs @ (if before deadline cs = cs then [] else [Err (StreamTimeoutError dur)]) \<and>
             (if length cs \<le> Suc (length (before deadline cs)) then \<exists>st'. snd r = Run_Open st' else \<exists>st'. snd r = Run_Done st')
         | Run_Panicked _ \<Rightarrow> False))"

lemma before_Cons: "before deadline ((now, timer) # cs) = (if timer < deadline then (now, timer) # before deadline cs else [])"
  by (simp add: before_def)

lemma sw_done_run: "sw_done st \<Longrightarrow> poll_run sw_poll_next cs st = ([], if cs = [] then Run_Open st else Run_Done st)"
  by (cases cs) (auto simp: sw_poll_next_def split: prod.splits)

lemma sw_run:
  "\<not> sw_done st \<Longrightarrow> sw_deadline st = Some deadline \<Longrightarrow> sw_duration st = dur \<Longrightarrow>
     sw_expected dur deadline cs (sw_inner st) (poll_run sw_poll_next cs st)"
proof (induction cs arbitrary: st)
  case Nil
  then show ?case by (simp add: sw_expected_def before_def)
next
  case (Cons c cs)
  obtain now timer where c: "c = (now, timer)" by (cases c)
  have same: "st\<lparr>sw_deadline := Some deadline\<rparr> = st" using Cons.prems(2) by (simp add: stream_with_timeout.equality)
  show ?case
  proof (cases "timer < deadline")
    case False
    with Cons.prems c have "sw_poll_next c st = Inr (Poll_Ready (Some (Err (StreamTimeoutError dur))), st\<lparr>sw_done := True\<rparr>)"
      by (simp add: sw_poll_next_def Let_def same)
    with False c show ?thesis
      by (simp add: sw_expected_def before_Cons sw_done_run)
  next
    case True
    show ?thesis
    proof (cases "sw_inner st" rule: script_next_cases)
      case ended
      with True Cons.prems c have "\<exists>st'. sw_poll_next c st = Inr (Poll_Ready None, st')" by (simp add: sw_poll_next_def Let_def same)
      with ended True c show ?thesis by (auto simp: sw_expected_def before_Cons script_stream_def)
    next
      case (pending rest)
      let ?st = "st\<lparr>sw_inner := rest\<rparr>"
      have "sw_poll_next c st = Inr (Poll_Pending, ?st)" using pending True Cons.prems c by (simp add: sw_poll_next_def Let_def same)
      moreover have "sw_expected dur deadline cs rest (poll_run sw_poll_next cs ?st)" using Cons.IH [of ?st] Cons.prems by simp
      moreover obtain outs e where "poll_run script_stream (before deadline cs) rest = (outs, e)" by (cases "poll_run script_stream (before deadline cs) rest")
      ultimately show ?thesis using pending True c
        by (cases e) (simp_all add: sw_expected_def before_Cons script_stream_def)
    next
      case (yielded x rest)
      let ?st = "st\<lparr>sw_inner := rest\<rparr>"
      have "sw_poll_next c st = Inr (Poll_Ready (Some (Ok x)), ?st)" using yielded True Cons.prems c by (simp add: sw_poll_next_def Let_def same)
      moreover have "sw_expected dur deadline cs rest (poll_run sw_poll_next cs ?st)" using Cons.IH [of ?st] Cons.prems by simp
      moreover obtain outs e where "poll_run script_stream (before deadline cs) rest = (outs, e)" by (cases "poll_run script_stream (before deadline cs) rest")
      moreover obtain outs' e' where "poll_run sw_poll_next cs ?st = (outs', e')" by (cases "poll_run sw_poll_next cs ?st")
      ultimately show ?thesis using yielded True c
        by (cases e) (auto simp: sw_expected_def before_Cons script_stream_def split: if_splits)
    qed
  qed
qed

lemma sw_first_poll:
  "sw_poll_next (now, timer) (sw_new script dur) = sw_poll_next (now, timer) ((sw_new script dur)\<lparr>sw_deadline := Some (now + dur)\<rparr>)"
  by (simp add: sw_poll_next_def sw_new_def Let_def)

section \<open>Yielding\<close>

definition yp_ok :: "'a yield_periodically \<Rightarrow> bool" where
  "yp_ok st \<longleftrightarrow> (yp_on_large_overshoot st \<longrightarrow> yp_budget st * BUDGET_OVERSHOOT_MULTIPLIER < dur_limit) \<and>
     (yp_must_yield st \<longrightarrow> yp_current_budget st = yp_budget st)"

lemma yp_overshoot_ok:
  assumes "yp_ok st"
  obtains calls where "yp_overshoot elapsed st = Inr (st\<lparr>yp_overshoots := calls\<rparr>)"
proof (cases "yp_on_large_overshoot st")
  case False
  then have "yp_overshoot elapsed st = Inr (st\<lparr>yp_overshoots := yp_overshoots st\<rparr>)" by (simp add: yp_overshoot_def)
  then show ?thesis by (rule that)
next
  case True
  with assms have "yp_overshoot elapsed st = Inr (st\<lparr>yp_overshoots := yp_overshoots st @
      (if yp_budget st * BUDGET_OVERSHOOT_MULTIPLIER < elapsed - yp_current_budget st then [(yp_current_budget st, elapsed)] else [])\<rparr>)"
    by (simp add: yp_overshoot_def yp_ok_def dur_mul_def)
  then show ?thesis by (rule that)
qed

text \<open>The answers of a poll.\<close>

lemma yp_poll_cases:
  assumes "yp_ok st"
  obtains (yields) "yp_must_yield st"
      "yp_poll_next elapsed st = Inr (Poll_Pending, st\<lparr>yp_must_yield := False, yp_wakes := Suc (yp_wakes st)\<rparr>)"
  | (pending) rest where "\<not> yp_must_yield st" "yp_inner st = None # rest"
      "yp_poll_next elapsed st = Inr (Poll_Pending, st\<lparr>yp_inner := rest, yp_current_budget := yp_budget st\<rparr>)"
  | (in_time) r rest where "\<not> yp_must_yield st" "script_next (yp_inner st) = (Poll_Ready r, rest)" "elapsed \<le> yp_current_budget st"
      "yp_poll_next elapsed st = Inr (Poll_Ready r, st\<lparr>yp_inner := rest, yp_current_budget := yp_current_budget st - elapsed\<rparr>)"
  | (too_long) r rest calls where "\<not> yp_must_yield st" "script_next (yp_inner st) = (Poll_Ready r, rest)" "yp_current_budget st < elapsed"
      "yp_poll_next elapsed st = Inr (Poll_Ready r,
         st\<lparr>yp_inner := rest, yp_overshoots := calls, yp_must_yield := True, yp_current_budget := yp_budget st\<rparr>)"
proof (cases "yp_must_yield st")
  case True
  then show ?thesis by (intro yields) (simp_all add: yp_poll_next_def)
next
  case go: False
  have ready: ?thesis if r: "script_next (yp_inner st) = (Poll_Ready r, rest)" for r rest
  proof (cases "elapsed \<le> yp_current_budget st")
    case True
    with go r show ?thesis by (intro in_time [of r rest]) (simp_all add: yp_poll_next_def dur_checked_sub_def)
  next
    case False
    let ?st = "st\<lparr>yp_inner := rest\<rparr>"
    have "yp_ok ?st" using assms by (simp add: yp_ok_def)
    then obtain calls where "yp_overshoot elapsed ?st = Inr (?st\<lparr>yp_overshoots := calls\<rparr>)" by (rule yp_overshoot_ok)
    with False go r show ?thesis by (intro too_long [of r rest calls]) (simp_all add: yp_poll_next_def dur_checked_sub_def)
  qed
  show ?thesis
  proof (cases "yp_inner st" rule: script_next_cases)
    case p: (pending rest)
    with go show ?thesis by (intro pending [of rest]) (simp_all add: yp_poll_next_def)
  qed (rule ready; assumption)+
qed

definition yp_state :: "'a yield_periodically \<Rightarrow> 'a list \<Rightarrow> nat \<Rightarrow> bool" where
  "yp_state st outs n \<longleftrightarrow> yp_ok st \<and> outs = script_items (yp_inner st) \<and>
     n = 2 * length (yp_inner st) + (if yp_must_yield st then 1 else 0)"

lemma script_next_ready:
  "script_next script = (Poll_Ready r, rest) \<Longrightarrow> (r = None \<and> script = []) \<or> (\<exists>x. r = Some x \<and> script = Some x # rest)"
  by (auto simp: script_next_def split: list.splits option.splits)

interpretation yielding: ordered_progress yp_poll_next yp_state "\<lambda>_. True" "\<lambda>_. True"
proof
  fix st :: "'a yield_periodically" and outs n elapsed
  assume inv: "yp_state st outs n"
  then have ok: "yp_ok st" by (simp add: yp_state_def)
  show "(\<exists>s' n'. yp_poll_next elapsed st = Inr (Poll_Pending, s') \<and> yp_state s' outs n' \<and> n' + (if True then 1 else 0) \<le> n) \<or>
    (\<exists>v s' outs' n'. yp_poll_next elapsed st = Inr (Poll_Ready (Some v), s') \<and> outs = v # outs' \<and> yp_state s' outs' n' \<and> n' < n) \<or>
    (\<exists>s'. yp_poll_next elapsed st = Inr (Poll_Ready None, s') \<and> outs = [])"
  proof (cases rule: yp_poll_cases [OF ok, of elapsed, case_names yields pending in_time too_long])
    case (in_time r rest)
    with script_next_ready [OF in_time(2)] inv show ?thesis by (auto simp: yp_state_def yp_ok_def)
  next
    case (too_long r rest calls)
    with script_next_ready [OF too_long(2)] inv show ?thesis by (auto simp: yp_state_def yp_ok_def)
  qed (use inv in \<open>auto simp: yp_state_def yp_ok_def\<close>)
qed

text \<open>All answers to a sequence of polls.\<close>

fun yp_polls :: "duration list \<Rightarrow> 'a yield_periodically \<Rightarrow> ('a option poll list \<times> 'a yield_periodically) res" where
  "yp_polls [] st = Inr ([], st)"
| "yp_polls (c # cs) st =
     (case yp_poll_next c st of
        Inl p \<Rightarrow> Inl p
      | Inr (r, st) \<Rightarrow> (case yp_polls cs st of Inl p \<Rightarrow> Inl p | Inr (rs, st) \<Rightarrow> Inr (r # rs, st)))"

lemma yp_polls_append:
  "yp_polls (cs @ cs') st =
     (case yp_polls cs st of
        Inl p \<Rightarrow> Inl p
      | Inr (rs, st) \<Rightarrow> (case yp_polls cs' st of Inl p \<Rightarrow> Inl p | Inr (rs', st) \<Rightarrow> Inr (rs @ rs', st)))"
  by (induction cs arbitrary: st) (auto split: sum.splits)

lemma yp_polls_length: "yp_polls cs st = Inr (rs, st') \<Longrightarrow> length rs = length cs"
  by (induction cs arbitrary: st rs) (auto split: sum.splits)

lemma yp_poll_keeps:
  assumes "yp_ok st" "yp_poll_next c st = Inr (r, st')"
  shows "yp_ok st' \<and> yp_budget st' = yp_budget st \<and>
    (r = Poll_Pending \<longrightarrow> \<not> yp_must_yield st' \<and> yp_current_budget st' = yp_budget st)"
  by (cases rule: yp_poll_cases [OF assms(1), of c, case_names yields pending in_time too_long])
    (use assms in \<open>auto simp: yp_ok_def\<close>)

lemma yp_polls_keep:
  "yp_ok st \<Longrightarrow> yp_polls cs st = Inr (rs, st') \<Longrightarrow> yp_ok st' \<and> yp_budget st' = yp_budget st \<and>
     (rs \<noteq> [] \<longrightarrow> last rs = Poll_Pending \<longrightarrow> \<not> yp_must_yield st' \<and> yp_current_budget st' = yp_budget st)"
proof (induction cs arbitrary: st rs)
  case (Cons c cs)
  then obtain r st1 rs1 where r: "yp_poll_next c st = Inr (r, st1)" "yp_polls cs st1 = Inr (rs1, st')" "rs = r # rs1"
    by (auto split: sum.splits prod.splits)
  note k = yp_poll_keeps [OF Cons.prems(1) r(1)]
  with Cons.IH [of st1 rs1] r(2) have IH: "yp_ok st' \<and> yp_budget st' = yp_budget st1 \<and>
     (rs1 \<noteq> [] \<longrightarrow> last rs1 = Poll_Pending \<longrightarrow> \<not> yp_must_yield st' \<and> yp_current_budget st' = yp_budget st1)" by simp
  show ?case
  proof (cases "rs1 = []")
    case True
    with yp_polls_length [OF r(2)] r(2) have "st' = st1" by simp
    with True r k show ?thesis by simp
  qed (use IH r k in simp)
qed simp

text \<open>As long as no poll is pending, the time of the polls stays in the budget, the last one apart.\<close>

lemma yp_within_budget:
  "yp_ok st \<Longrightarrow> \<not> yp_must_yield st \<Longrightarrow> yp_polls cs st = Inr (rs, st') \<Longrightarrow> Poll_Pending \<notin> set rs \<Longrightarrow>
     sum_list (butlast cs) \<le> yp_current_budget st"
proof (induction cs arbitrary: st rs)
  case (Cons c cs)
  then obtain r st1 rs1 where r: "yp_poll_next c st = Inr (r, st1)" "yp_polls cs st1 = Inr (rs1, st')" "rs = r # rs1"
    by (auto split: sum.splits prod.splits)
  show ?case
  proof (cases rule: yp_poll_cases [OF Cons.prems(1), of c, case_names yields pending in_time too_long])
    case (in_time x rest)
    then have "yp_ok st1" "\<not> yp_must_yield st1" "yp_current_budget st1 = yp_current_budget st - c"
      using r(1) Cons.prems(1,2) by (auto simp: yp_ok_def)
    with Cons.IH [of st1 rs1] r Cons.prems(4) in_time(3) show ?thesis by auto
  next
    case (too_long x rest calls)
    then have must: "yp_must_yield st1" using r(1) by simp
    have "cs = []"
    proof (cases cs)
      case (Cons c' cs')
      with must r(2) have "Poll_Pending \<in> set rs1" by (auto simp: yp_poll_next_def split: sum.splits prod.splits)
      with r(3) Cons.prems(4) show ?thesis by simp
    qed
    then show ?thesis by simp
  qed (use Cons.prems r in simp_all)
qed simp

section \<open>The remainder of a stream\<close>

definition part_items :: "'a answer list \<Rightarrow> 'a list" where
  "part_items part = List.map_filter (\<lambda>a. case a of Answer_Item x \<Rightarrow> Some x | _ \<Rightarrow> None) part"

lemma part_items_simps [simp]:
  "part_items [] = []"
  "part_items (Answer_Item x # part) = x # part_items part"
  "part_items (Answer_Pending # part) = part_items part"
  by (simp_all add: part_items_def List.map_filter_def)

lemma rr_poll_simps:
  "rr_inner st = Some (Answer_Pending # rest) \<Longrightarrow> rr_poll_next cx st = Inr (Poll_Pending, st\<lparr>rr_inner := Some rest\<rparr>)"
  "rr_inner st = Some (Answer_Item x # rest) \<Longrightarrow> rr_poll_next cx st = Inr (Poll_Ready (Some x), st\<lparr>rr_inner := Some rest\<rparr>)"
  "rr_inner st = Some (Answer_End # rest) \<Longrightarrow> rr_send st \<Longrightarrow> rr_poll_next cx st = Inr (Poll_Ready None,
     st\<lparr>rr_inner := None, rr_send := False, rr_channel := snd (oneshot_send rest (rr_channel st))\<rparr>)"
  by (simp_all add: rr_poll_next_def answer_next_def)

lemma rr_run:
  "Answer_End \<notin> set part \<Longrightarrow> length part < length cs \<Longrightarrow> rr_inner st = Some (part @ Answer_End # rest) \<Longrightarrow>
     rr_send st \<Longrightarrow>
     poll_run rr_poll_next cs st =
       (part_items part, Run_Done (st\<lparr>rr_inner := None, rr_send := False, rr_channel := snd (oneshot_send rest (rr_channel st))\<rparr>))"
proof (induction part arbitrary: cs st)
  case Nil
  then obtain c cs' where "cs = c # cs'" by (cases cs) auto
  with Nil show ?case by (simp add: rr_poll_simps)
next
  case (Cons a part)
  then obtain c cs' where cs: "cs = c # cs'" by (cases cs) auto
  let ?st = "st\<lparr>rr_inner := Some (part @ Answer_End # rest)\<rparr>"
  have "poll_run rr_poll_next cs' ?st =
      (part_items part, Run_Done (?st\<lparr>rr_inner := None, rr_send := False, rr_channel := snd (oneshot_send rest (rr_channel ?st))\<rparr>))"
    by (rule Cons.IH) (use Cons.prems cs in simp_all)
  with Cons.prems cs show ?case
    by (cases a) (simp_all add: rr_poll_simps)
qed

lemma rr_run_open:
  "Answer_End \<notin> set part \<Longrightarrow> length cs \<le> length part \<Longrightarrow> rr_inner st = Some (part @ Answer_End # rest) \<Longrightarrow>
     poll_run rr_poll_next cs st =
       (part_items (take (length cs) part), Run_Open (st\<lparr>rr_inner := Some (drop (length cs) part @ Answer_End # rest)\<rparr>))"
proof (induction cs arbitrary: part st)
  case Nil
  then show ?case by (simp add: return_remainder.equality)
next
  case (Cons c cs)
  then obtain a part' where part: "part = a # part'" by (cases part) auto
  let ?st = "st\<lparr>rr_inner := Some (part' @ Answer_End # rest)\<rparr>"
  have "poll_run rr_poll_next cs ?st =
      (part_items (take (length cs) part'), Run_Open (?st\<lparr>rr_inner := Some (drop (length cs) part' @ Answer_End # rest)\<rparr>))"
    by (rule Cons.IH) (use Cons.prems part in simp_all)
  with Cons.prems part show ?case
    by (cases a) (simp_all add: rr_poll_simps)
qed

section \<open>Callbacks on cancellation\<close>

fun oc_run :: "nat \<Rightarrow> ('v, 'd) on_cancel \<Rightarrow> 'v option \<times> ('v, 'd) on_cancel" where
  "oc_run 0 st = (None, st)"
| "oc_run (Suc k) st =
     (case oc_poll st of (Poll_Pending, st) \<Rightarrow> oc_run k st | (Poll_Ready v, st) \<Rightarrow> (Some v, st))"

lemma on_cancel_called:
  "oc_on_cancel st \<Longrightarrow> oc_run k st = (r, st') \<Longrightarrow>
     oc_calls (oc_drop cancel_data st') =
       oc_calls st @ (case r of Some _ \<Rightarrow> [] | None \<Rightarrow> [cancel_data (drop k (oc_inner st))])"
proof (induction k arbitrary: st)
  case (Suc k)
  show ?case
  proof (cases "oc_inner st")
    case Nil
    with Suc.prems Suc.IH [of st] show ?thesis by (cases r) (simp_all add: oc_poll_def)
  next
    case (Cons a rest)
    with Suc.prems Suc.IH [of "st\<lparr>oc_inner := rest\<rparr>"] show ?thesis
      by (cases a; cases r) (auto simp: oc_poll_def oc_drop_def)
  qed
qed (auto simp: oc_drop_def)

section \<open>Handles of a task\<close>

text \<open>A task with handles, as long as there is one to clone or drop.\<close>

inductive controlled_reach :: "controlled \<Rightarrow> bool" where
  spawned: "controlled_reach spawn_controlled"
| cloned: "controlled_reach c \<Longrightarrow> 0 < ch_handles c \<Longrightarrow> controlled_reach (ch_clone c)"
| dropped: "controlled_reach c \<Longrightarrow> 0 < ch_handles c \<Longrightarrow> controlled_reach (ch_drop c)"

lemma controlled_aborts: "controlled_reach c \<Longrightarrow> ch_aborted c \<longleftrightarrow> ch_handles c = 0"
  by (induction rule: controlled_reach.induct) (auto simp: spawn_controlled_def ch_clone_def ch_drop_def)

section \<open>Properties\<close>

text \<open>
  The deadline of a stream with a timeout is counted from its first poll.  Before it the
  stream yields what the inner stream yields and ends when that ends; the first poll that finds the timer
  past the deadline yields the timeout error, once, and the next poll ends the stream without polling the
  inner one.
\<close>

theorem stream_timeout_enforced:
  fixes cs :: "clock list" and dur :: duration
  defines "live \<equiv> takeWhile (\<lambda>(now, timer). timer < fst (hd cs) + dur) cs"
  assumes "cs \<noteq> []"
  shows "case poll_run script_stream live script of
      (outs, Run_Done _) \<Rightarrow> (\<exists>st'. poll_run sw_poll_next cs (sw_new script dur) = (map Ok outs, Run_Done st'))
    | (outs, Run_Open _) \<Rightarrow>
        (\<exists>e. poll_run sw_poll_next cs (sw_new script dur) =
             (map Ok outs @ (if live = cs then [] else [Err (StreamTimeoutError dur)]), e) \<and>
           (if length cs \<le> Suc (length live) then \<exists>st'. e = Run_Open st' else \<exists>st'. e = Run_Done st'))
    | (_, Run_Panicked _) \<Rightarrow> False"
proof -
  obtain now timer cs' where cs: "cs = (now, timer) # cs'" using assms(2) by (cases cs) auto
  let ?st = "(sw_new script dur)\<lparr>sw_deadline := Some (now + dur)\<rparr>"
  have run: "poll_run sw_poll_next cs (sw_new script dur) = poll_run sw_poll_next cs ?st"
    using sw_first_poll [of now timer script dur] cs by simp
  have live: "live = before (now + dur) cs" by (simp add: live_def before_def cs)
  have "sw_expected dur (now + dur) cs script (poll_run sw_poll_next cs ?st)"
    using sw_run [of ?st "now + dur" dur cs] by (simp add: sw_new_def)
  then show ?thesis
    unfolding sw_expected_def run live
    by (cases "poll_run sw_poll_next cs ?st") (auto split: prod.splits run_end.splits)
qed

theorem stream_timeout_enforced_witness:
  "\<exists>st'. poll_run sw_poll_next [(100, 99), (110, 109), (151, 150)] (sw_new [Some CHR ''a'', None, Some CHR ''b''] 50) =
     ([Ok CHR ''a'', Err (StreamTimeoutError 50)], Run_Open st')"
proof -
  have "poll_run script_stream [(100, 99), (110 :: nat, 109 :: nat)] [Some CHR ''a'', None, Some CHR ''b''] = (''a'', Run_Open [Some CHR ''b''])"
    by (simp add: script_stream_def script_next_def)
  then show ?thesis
    using stream_timeout_enforced [of "[(100, 99), (110, 109), (151, 150)]" "[Some CHR ''a'', None, Some CHR ''b'']" 50] by auto
qed

text \<open>
  A stream that yields periodically passes on all items in order and ends, whatever time its polls take, if it is polled
  at most twice as often.
\<close>

theorem yield_periodically_transparent:
  assumes "2 * length script < length cs" "cb \<longrightarrow> budget * BUDGET_OVERSHOOT_MULTIPLIER < dur_limit"
  shows "\<exists>st'. poll_run yp_poll_next cs ((if cb then yp_set_on_large_overshoot else id) (yp_new script budget)) =
    (script_items script, Run_Done st')"
proof -
  have "yp_state ((if cb then yp_set_on_large_overshoot else id) (yp_new script budget)) (script_items script) (2 * length script)"
    using assms(2) by (simp add: yp_state_def yp_ok_def yp_new_def yp_set_on_large_overshoot_def)
  from yielding.run_ends [OF this, of cs] assms(1) show ?thesis by (simp add: list_all_iff)
qed

theorem yield_periodically_transparent_witness:
  "\<exists>st'. poll_run yp_poll_next [5, 70, 1, 2, 3, 4, 5] (yp_set_on_large_overshoot (yp_new [Some CHR ''a'', None, Some CHR ''b''] 10)) =
    ([CHR ''a'', CHR ''b''], Run_Done st')"
  using yield_periodically_transparent [of "[Some CHR ''a'', None, Some CHR ''b'']" "[5, 70, 1, 2, 3, 4, 5]" True 10]
  by (simp add: BUDGET_OVERSHOOT_MULTIPLIER_def dur_limit_def)

text \<open>
  Between two polls that are pending, the polls of such a stream take at most the budget
  together, the last of them apart: the poll that exceeds the budget is followed by a pending one.
\<close>

theorem yield_periodically_bounded:
  assumes "yp_polls (cs1 @ cs2) (yp_new script budget) = Inr (rs, st)"
    and "cs1 = [] \<or> rs ! (length cs1 - 1) = Poll_Pending" "Poll_Pending \<notin> set (drop (length cs1) rs)"
  shows "sum_list (butlast cs2) \<le> budget"
proof -
  let ?start = "yp_new script budget"
  have ok: "yp_ok ?start" by (simp add: yp_ok_def yp_new_def)
  from assms(1) obtain rs1 rs2 mid where m: "yp_polls cs1 ?start = Inr (rs1, mid)" "yp_polls cs2 mid = Inr (rs2, st)" "rs = rs1 @ rs2"
    by (auto simp: yp_polls_append split: sum.splits)
  note len = yp_polls_length [OF m(1)]
  note keep = yp_polls_keep [OF ok m(1)]
  have "\<not> yp_must_yield mid \<and> yp_current_budget mid = budget"
  proof (cases "cs1 = []")
    case True
    with m(1) show ?thesis by (auto simp: yp_new_def)
  next
    case False
    then have "rs1 \<noteq> []" using len by auto
    moreover from this have "rs ! (length cs1 - 1) = last rs1" using len False by (simp add: m(3) nth_append last_conv_nth)
    ultimately show ?thesis using assms(2) False keep by (simp add: yp_new_def)
  qed
  with yp_within_budget [of mid cs2 rs2 st] keep m(2,3) len assms(3) show ?thesis by simp
qed

theorem yield_periodically_bounded_witness:
  "sum_list (butlast [2, 7, 30 :: nat]) \<le> 10 \<and>
   (case yp_polls ([20, 1] @ [2, 7, 30]) (yp_new (replicate 9 (Some CHR ''a'')) 10) of Inr (rs, _) \<Rightarrow> rs ! 1 = Poll_Pending | Inl _ \<Rightarrow> False)"
proof
  let ?run = "yp_polls ([20, 1] @ [2, 7, 30]) (yp_new (replicate 9 (Some CHR ''a'')) 10)"
  have p: "case ?run of Inr (rs, _) \<Rightarrow> rs ! 1 = Poll_Pending \<and> Poll_Pending \<notin> set (drop 2 rs) | Inl _ \<Rightarrow> False" by code_simp
  then obtain rs st where r: "?run = Inr (rs, st)" "rs ! 1 = Poll_Pending" "Poll_Pending \<notin> set (drop 2 rs)" by (auto split: sum.splits)
  show "sum_list (butlast [2, 7, 30 :: nat]) \<le> 10" by (rule yield_periodically_bounded [OF r(1)]) (use r(2,3) in \<open>simp_all add: numeral_2_eq_2\<close>)
  show "case ?run of Inr (rs, _) \<Rightarrow> rs ! 1 = Poll_Pending | Inl _ \<Rightarrow> False" using p by (auto split: sum.splits)
qed

text \<open>
  The remainder of a stream: the wrapper yields the items up to the first end of the inner stream and ends;
  then, and not before, the receiver returns the inner stream with all that it has left.  A receiver that is awaited too early
  gets an error and the remainder is lost.
\<close>

theorem return_remainder_correct:
  assumes "Answer_End \<notin> set part" "length part < length cs"
  shows "\<exists>st'. poll_run rr_poll_next cs (rr_new (part @ Answer_End # rest)) = (part_items part, Run_Done st') \<and>
    fst (cr_await (rr_channel st')) = Ok rest \<and>
    (\<forall>k \<le> length part. case poll_run rr_poll_next (take k cs) (rr_new (part @ Answer_End # rest)) of
       (_, Run_Open st) \<Rightarrow> fst (cr_await (rr_channel st)) = Err ReceiveBeforeSend \<and>
         fst (cr_await (rr_channel (rr_drop st))) = Err Receiver_Canceled
     | _ \<Rightarrow> False)"
proof -
  let ?start = "rr_new (part @ Answer_End # rest)"
  let ?last = "?start\<lparr>rr_inner := None, rr_send := False, rr_channel := snd (oneshot_send rest (rr_channel ?start))\<rparr>"
  have "poll_run rr_poll_next cs ?start = (part_items part, Run_Done ?last)"
    by (rule rr_run [OF assms]) (simp_all add: rr_new_def)
  moreover have "fst (cr_await (rr_channel ?last)) = Ok rest"
    by (simp add: rr_new_def oneshot_channel_def oneshot_send_def cr_await_def cr_poll_def oneshot_poll_def)
  moreover have "case poll_run rr_poll_next (take k cs) ?start of
       (_, Run_Open st) \<Rightarrow> fst (cr_await (rr_channel st)) = Err ReceiveBeforeSend \<and>
         fst (cr_await (rr_channel (rr_drop st))) = Err Receiver_Canceled
     | _ \<Rightarrow> False" if "k \<le> length part" for k
  proof -
    have "poll_run rr_poll_next (take k cs) ?start =
        (part_items (take k part), Run_Open (?start\<lparr>rr_inner := Some (drop k part @ Answer_End # rest)\<rparr>))"
      using rr_run_open [OF assms(1), of "take k cs" ?start rest] that assms(2) by (simp add: rr_new_def)
    then show ?thesis
      by (simp add: rr_new_def oneshot_channel_def cr_await_def cr_poll_def oneshot_poll_def rr_drop_def oneshot_drop_sender_def)
  qed
  ultimately show ?thesis by blast
qed

theorem return_remainder_correct_witness:
  "\<exists>st'. poll_run rr_poll_next [(), (), (), ()] (rr_new [Answer_Item CHR ''a'', Answer_Pending, Answer_End, Answer_Item CHR ''c'']) = (''a'', Run_Done st') \<and>
    fst (cr_await (rr_channel st')) = Ok [Answer_Item CHR ''c'']"
  using return_remainder_correct [of "[Answer_Item CHR ''a'', Answer_Pending]" "[(), (), (), ()]" "[Answer_Item CHR ''c'']"]
  by auto

end
