(* ===== verification/Futures_01_Ext.thy ===== *)
theory Futures_01_Ext
  imports Futures_01 Stream_Wrappers "HOL-Library.Multiset"
begin

text \<open>
  The rest of \<open>shed/futures_01_ext/src\<close>: \<open>split_err\<close> (\<open>split_err.rs\<close>), \<open>SelectAll\<close>
  (\<open>select_all.rs\<close>) and the future adaptors and \<open>ReturnRemainder\<close> of \<open>lib.rs\<close>.
\<close>

section \<open>\<open>split_err\<close>\<close>

text \<open>The two halves share a one-shot channel; \<open>sp_err_tx\<close> and \<open>sp_err_rx\<close> tell whether they still hold their ends.\<close>

record ('i, 'e) split =
  sp_inner :: "('i, 'e) script"
  sp_err_tx :: bool
  sp_err_rx :: bool
  sp_channel :: "'e oneshot"

definition split_err :: "('i, 'e) script \<Rightarrow> ('i, 'e) split" where
  "split_err s = \<lparr>sp_inner = s, sp_err_tx = True, sp_err_rx = True, sp_channel = oneshot_channel\<rparr>"

definition err_splitter_poll :: "('i, 'e) split \<Rightarrow> 'i option poll \<times> ('i, 'e) split" where
  "err_splitter_poll st =
     (case script_poll (sp_inner st) of
        (Ok r, inner) \<Rightarrow> (r, st\<lparr>sp_inner := inner\<rparr>)
      | (Err err, inner) \<Rightarrow>
          (Poll_Pending,
           (if sp_err_tx st
            then st\<lparr>sp_inner := inner, sp_err_tx := False, sp_channel := snd (oneshot_send err (sp_channel st))\<rparr>
            else st\<lparr>sp_inner := inner\<rparr>)))"

text \<open>\<open>None\<close> stands for \<open>NotReady\<close>, as the future has no item; a receiver that has answered is dropped.\<close>

definition err_future_poll :: "('i, 'e) split \<Rightarrow> 'e option \<times> ('i, 'e) split" where
  "err_future_poll st =
     (if \<not> sp_err_rx st then (None, st)
      else
        (case oneshot_poll (sp_channel st) of
           (Poll_Ready (Ok err), ch) \<Rightarrow> (Some err, st\<lparr>sp_err_rx := False, sp_channel := ch\<lparr>os_receiver := False\<rparr>\<rparr>)
         | (Poll_Pending, ch) \<Rightarrow> (None, st\<lparr>sp_channel := ch\<rparr>)
         | (Poll_Ready (Err _), ch) \<Rightarrow> (None, st\<lparr>sp_err_rx := False, sp_channel := ch\<lparr>os_receiver := False\<rparr>\<rparr>)))"

datatype split_event = Poll_Items | Poll_Error

text \<open>Polls of the two halves in some order: the items that came, and the errors the future returned.\<close>

fun split_run :: "split_event list \<Rightarrow> ('i, 'e) split \<Rightarrow> 'i list \<times> 'e list \<times> ('i, 'e) split" where
  "split_run [] st = ([], [], st)"
| "split_run (Poll_Items # evs) st =
     (case err_splitter_poll st of (r, st) \<Rightarrow>
        (case split_run evs st of (is, es, st) \<Rightarrow>
           ((case r of Poll_Ready (Some i) \<Rightarrow> i # is | _ \<Rightarrow> is), es, st)))"
| "split_run (Poll_Error # evs) st =
     (case err_future_poll st of (r, st) \<Rightarrow>
        (case split_run evs st of (is, es, st) \<Rightarrow>
           (is, (case r of Some e \<Rightarrow> e # es | None \<Rightarrow> es), st)))"

section \<open>\<open>SelectAll\<close>\<close>

text \<open>
  A stream of the set is what it will yield.  \<open>FuturesUnordered\<close> returns the futures of the streams in
  the order in which they complete, which the surroundings decide: for each turn of the loop \<open>None\<close>, when no
  stream is ready, or the position of the one that is.
\<close>

type_synonym ('i, 'e) select_all = "('i, 'e) result list list"

definition sa_default :: "('i, 'e) select_all" where
  "sa_default = []"

definition sa_len :: "('i, 'e) select_all \<Rightarrow> nat" where
  "sa_len sa = length sa"

definition sa_is_empty :: "('i, 'e) select_all \<Rightarrow> bool" where
  "sa_is_empty sa \<longleftrightarrow> sa = []"

definition sa_push :: "('i, 'e) result list \<Rightarrow> ('i, 'e) select_all \<Rightarrow> ('i, 'e) select_all" where
  "sa_push stream sa = sa @ [stream]"

fun select_all :: "('i, 'e) result list list \<Rightarrow> ('i, 'e) select_all \<Rightarrow> ('i, 'e) select_all" where
  "select_all [] sa = sa"
| "select_all (stream # streams) sa = select_all streams (sa_push stream sa)"

definition take_at :: "nat \<Rightarrow> 'a list \<Rightarrow> 'a \<times> 'a list" where
  "take_at i xs = (xs ! (i mod length xs), take (i mod length xs) xs @ drop (Suc (i mod length xs)) xs)"

function sa_poll :: "nat option list \<Rightarrow> ('i, 'e) select_all \<Rightarrow> ('i option, 'e) poll01 \<times> ('i, 'e) select_all" where
  "sa_poll cs sa =
     (if sa = [] then (Ok (Poll_Ready None), sa)
      else
        (case cs of
           [] \<Rightarrow> (Ok Poll_Pending, sa)
         | None # _ \<Rightarrow> (Ok Poll_Pending, sa)
         | Some i # cs \<Rightarrow>
             (case take_at i sa of
                (Ok it # remaining, rest) \<Rightarrow> (Ok (Poll_Ready (Some it)), sa_push remaining rest)
              | (Err err # _, rest) \<Rightarrow> (Err err, rest)
              | ([], rest) \<Rightarrow> sa_poll cs rest)))"
  by pat_completeness auto
termination
  by (relation "measure (\<lambda>(cs, sa). length cs)") auto

declare sa_poll.simps [simp del]

definition sa_poll_next ::
  "nat option list \<Rightarrow> ('i, 'e) select_all \<Rightarrow> (('i option, 'e) poll01 \<times> ('i, 'e) select_all) res" where
  "sa_poll_next cs sa = Inr (sa_poll cs sa)"

section \<open>Future adaptors\<close>

text \<open>A future as the answers to its polls; the calls of the inspecting function are recorded.\<close>

definition discard_poll :: "('i, 'e) poll01 \<Rightarrow> (unit, unit) poll01" where
  "discard_poll r =
     (case r of Err _ \<Rightarrow> Err () | Ok Poll_Pending \<Rightarrow> Ok Poll_Pending | Ok (Poll_Ready _) \<Rightarrow> Ok (Poll_Ready ()))"

record ('i, 'e, 'c) inspecting =
  ins_future :: "('i, 'e) poll01 list"
  ins_f :: bool
  ins_calls :: "'c list"

definition inspect_new :: "('i, 'e) poll01 list \<Rightarrow> ('i, 'e, 'c) inspecting" where
  "inspect_new future = \<lparr>ins_future = future, ins_f = True, ins_calls = []\<rparr>"

definition answer_poll :: "('i, 'e) poll01 list \<Rightarrow> ('i, 'e) poll01 \<times> ('i, 'e) poll01 list" where
  "answer_poll as = (case as of [] \<Rightarrow> (Ok Poll_Pending, []) | a # rest \<Rightarrow> (a, rest))"

definition inspect_err_poll :: "('i, 'e, 'e) inspecting \<Rightarrow> ('i, 'e) poll01 \<times> ('i, 'e, 'e) inspecting" where
  "inspect_err_poll st =
     (case answer_poll (ins_future st) of (r, future) \<Rightarrow>
        let st = st\<lparr>ins_future := future\<rparr> in
        case r of
          Ok p \<Rightarrow> (Ok p, st)
        | Err e \<Rightarrow>
            if ins_f st then (Err e, st\<lparr>ins_f := False, ins_calls := ins_calls st @ [e]\<rparr>) else (Ok Poll_Pending, st))"

definition inspect_result_poll ::
  "('i, 'e, ('i, 'e) result) inspecting \<Rightarrow> ('i, 'e) poll01 \<times> ('i, 'e, ('i, 'e) result) inspecting" where
  "inspect_result_poll st =
     (case answer_poll (ins_future st) of (r, future) \<Rightarrow>
        let st = st\<lparr>ins_future := future\<rparr> in
        case r of
          Ok Poll_Pending \<Rightarrow> (Ok Poll_Pending, st)
        | Ok (Poll_Ready i) \<Rightarrow>
            if ins_f st then (Ok (Poll_Ready i), st\<lparr>ins_f := False, ins_calls := ins_calls st @ [Ok i]\<rparr>) else (Ok Poll_Pending, st)
        | Err e \<Rightarrow>
            if ins_f st then (Err e, st\<lparr>ins_f := False, ins_calls := ins_calls st @ [Err e]\<rparr>) else (Ok Poll_Pending, st))"

section \<open>\<open>ReturnRemainder\<close> of version 0.1\<close>

text \<open>The inner stream is the script of an \<open>Answer\<close> list as in version 0.3, in which an item may be an error.\<close>

record ('i, 'e) remainder01 =
  r1_inner :: "('i, 'e) result answer list option"
  r1_send :: bool
  r1_channel :: "('i, 'e) result answer list oneshot"

definition r1_new :: "('i, 'e) result answer list \<Rightarrow> ('i, 'e) remainder01" where
  "r1_new inner = \<lparr>r1_inner = Some inner, r1_send = True, r1_channel = oneshot_channel\<rparr>"

definition r1_poll :: "unit \<Rightarrow> ('i, 'e) remainder01 \<Rightarrow> (('i option, 'e) poll01 \<times> ('i, 'e) remainder01) res" where
  "r1_poll cx st =
     (case r1_inner st of
        None \<Rightarrow> Inr (Ok (Poll_Ready None), st)
      | Some inner \<Rightarrow>
          (case answer_next inner of
             (Poll_Pending, inner) \<Rightarrow> Inr (Ok Poll_Pending, st\<lparr>r1_inner := Some inner\<rparr>)
           | (Poll_Ready (Some (Err e)), inner) \<Rightarrow> Inr (Err e, st\<lparr>r1_inner := Some inner\<rparr>)
           | (Poll_Ready (Some (Ok v)), inner) \<Rightarrow> Inr (Ok (Poll_Ready (Some v)), st\<lparr>r1_inner := Some inner\<rparr>)
           | (Poll_Ready None, inner) \<Rightarrow>
               if r1_send st then
                 Inr (Ok (Poll_Ready None),
                   st\<lparr>r1_inner := None, r1_send := False, r1_channel := snd (oneshot_send inner (r1_channel st))\<rparr>)
               else Inl (Panic ''send is None iff inner is None'')))"

text \<open>The two versions agree.\<close>

definition r1_plain :: "('i, 'e) remainder01 \<Rightarrow> ('i, 'e) result return_remainder" where
  "r1_plain st = \<lparr>rr_inner = r1_inner st, rr_send = r1_send st, rr_channel = r1_channel st\<rparr>"

lemma r1_simulates:
  "(case observed r1_poll cx st of Inl p \<Rightarrow> Inl p | Inr (r, st') \<Rightarrow> Inr (r, r1_plain st')) = rr_poll_next cx (r1_plain st)"
proof (cases "r1_inner st")
  case (Some inner)
  then show ?thesis
    by (cases inner rule: list.exhaust)
      (auto simp: observed_def r1_poll_def rr_poll_next_def r1_plain_def answer_next_def yields_def
        split: answer.split result.split)
qed (simp add: observed_def r1_poll_def rr_poll_next_def r1_plain_def yields_def)

section \<open>The halves of a stream\<close>

fun errors_of :: "('i, 'e) script \<Rightarrow> 'e list" where
  "errors_of [] = []"
| "errors_of (Some (Err e) # s) = e # errors_of s"
| "errors_of (_ # s) = errors_of s"

fun items_of :: "('i, 'e) script \<Rightarrow> 'i list" where
  "items_of [] = []"
| "items_of (Some (Ok i) # s) = i # items_of s"
| "items_of (_ # s) = items_of s"

text \<open>What the error future still has to return, when \<open>past\<close> are the errors the other half has met.\<close>

definition split_inv :: "'e list \<Rightarrow> bool \<Rightarrow> ('i, 'e) split \<Rightarrow> bool" where
  "split_inv past returned st \<longleftrightarrow>
     sp_err_tx st = (past = []) \<and> sp_err_rx st = (\<not> returned) \<and> (returned \<longrightarrow> past \<noteq> []) \<and>
     (\<not> returned \<longrightarrow> sp_channel st =
        (if past = [] then oneshot_channel else \<lparr>os_slot = Some (hd past), os_sender = False, os_receiver = True\<rparr>))"

definition first_if :: "bool \<Rightarrow> 'e list \<Rightarrow> 'e list" where
  "first_if b es = (if b then [hd es] else [])"

definition split_outcome ::
  "'e list \<Rightarrow> bool \<Rightarrow> ('i, 'e) script \<Rightarrow> nat \<Rightarrow> 'i list \<times> 'e list \<times> ('i, 'e) split \<Rightarrow> bool" where
  "split_outcome past returned script n r \<longleftrightarrow>
     (case r of (is, es, st') \<Rightarrow>
        is = items_of (take n script) \<and> sp_inner st' = drop n script \<and>
        (\<exists>returned'. split_inv (past @ errors_of (take n script)) returned' st' \<and> (returned \<longrightarrow> returned') \<and>
           es = first_if (returned' \<and> \<not> returned) (past @ errors_of (take n script))))"

definition item_polls :: "split_event list \<Rightarrow> nat" where
  "item_polls evs = length (filter (\<lambda>ev. ev = Poll_Items) evs)"

lemma item_polls_simps [simp]:
  "item_polls [] = 0" "item_polls (Poll_Items # evs) = Suc (item_polls evs)" "item_polls (Poll_Error # evs) = item_polls evs"
  by (simp_all add: item_polls_def)

lemma split_outcome_step:
  "split_outcome past returned [] n (is, es, st') \<Longrightarrow> split_outcome past returned [] (Suc n) (is, es, st')"
  "split_outcome past returned s n (is, es, st') \<Longrightarrow> split_outcome past returned (None # s) (Suc n) (is, es, st')"
  "split_outcome past returned s n (is, es, st') \<Longrightarrow> split_outcome past returned (Some (Ok i) # s) (Suc n) (i # is, es, st')"
  "split_outcome (past @ [e]) returned s n (is, es, st') \<Longrightarrow> split_outcome past returned (Some (Err e) # s) (Suc n) (is, es, st')"
  by (simp_all add: split_outcome_def)

lemma split_outcome_return:
  assumes "split_outcome past True s n (is, es, st')" "past \<noteq> []"
  shows "split_outcome past False s n (is, hd past # es, st')"
proof -
  from assms(1) have "is = items_of (take n s)" "sp_inner st' = drop n s" "split_inv (past @ errors_of (take n s)) True st'" "es = []"
    by (auto simp: split_outcome_def first_if_def)
  with assms(2) show ?thesis unfolding split_outcome_def by (auto simp: first_if_def intro!: exI [of _ True])
qed

lemma split_run_spec:
  assumes "split_inv past returned st"
  shows "split_outcome past returned (sp_inner st) (item_polls evs) (split_run evs st)"
  using assms
proof (induction evs arbitrary: past returned st)
  case Nil
  then show ?case by (auto simp: split_outcome_def first_if_def)
next
  case (Cons ev evs)
  show ?case
  proof (cases ev)
    case Poll_Error
    obtain r st1 where r: "err_future_poll st = (r, st1)" by (cases "err_future_poll st")
    obtain is1 es1 st' where run: "split_run evs st1 = (is1, es1, st')" by (cases "split_run evs st1")
    show ?thesis
    proof (cases "returned \<or> past = []")
      case True
      then have "r = None" "split_inv past returned st1" "sp_inner st1 = sp_inner st"
        using r Cons.prems by (auto simp: err_future_poll_def split_inv_def oneshot_poll_def oneshot_channel_def)
      with Cons.IH [OF this(2)] run r Poll_Error show ?thesis by simp
    next
      case False
      then have "r = Some (hd past)" "split_inv past True st1" "sp_inner st1 = sp_inner st"
        using r Cons.prems by (auto simp: err_future_poll_def split_inv_def oneshot_poll_def)
      with Cons.IH [OF this(2)] run have "split_outcome past True (sp_inner st) (item_polls evs) (is1, es1, st')" by simp
      from split_outcome_return [OF this] False \<open>r = Some (hd past)\<close> run r Poll_Error show ?thesis by simp
    qed
  next
    case Poll_Items
    obtain r st1 where r: "err_splitter_poll st = (r, st1)" by (cases "err_splitter_poll st")
    obtain is1 es1 st' where run: "split_run evs st1 = (is1, es1, st')" by (cases "split_run evs st1")
    consider "sp_inner st = []" | s where "sp_inner st = None # s" | e s where "sp_inner st = Some (Err e) # s" | i s where "sp_inner st = Some (Ok i) # s"
      by (metis list.exhaust option.exhaust result.exhaust)
    then show ?thesis
    proof cases
      case 1
      then have "r = Poll_Ready None" "split_inv past returned st1" "sp_inner st1 = []"
        using r Cons.prems by (auto simp: err_splitter_poll_def script_poll_def split_inv_def)
      with Cons.IH [OF this(2)] run r Poll_Items 1 split_outcome_step(1) show ?thesis by fastforce
    next
      case (2 s)
      then have "r = Poll_Pending" "split_inv past returned st1" "sp_inner st1 = s"
        using r Cons.prems by (auto simp: err_splitter_poll_def script_poll_def split_inv_def)
      with Cons.IH [OF this(2)] run r Poll_Items 2 show ?thesis by (simp add: split_outcome_step(2))
    next
      case (3 e s)
      then have "r = Poll_Pending" "split_inv (past @ [e]) returned st1" "sp_inner st1 = s"
        using r Cons.prems
        by (auto simp: err_splitter_poll_def script_poll_def split_inv_def oneshot_send_def oneshot_channel_def split: if_splits)
      with Cons.IH [OF this(2)] run r Poll_Items 3 show ?thesis by (simp add: split_outcome_step(4))
    next
      case (4 i s)
      then have "r = Poll_Ready (Some i)" "split_inv past returned st1" "sp_inner st1 = s"
        using r Cons.prems by (auto simp: err_splitter_poll_def script_poll_def split_inv_def)
      with Cons.IH [OF this(2)] run r Poll_Items 4 show ?thesis by (simp add: split_outcome_step(3))
    qed
  qed
qed

section \<open>A set of streams\<close>

text \<open>A stream is dropped from the set with its first error.\<close>

fun up_to_error :: "('i, 'e) result list \<Rightarrow> ('i, 'e) result list" where
  "up_to_error [] = []"
| "up_to_error (Ok v # rs) = Ok v # up_to_error rs"
| "up_to_error (Err e # rs) = [Err e]"

definition sa_owed :: "('i, 'e) select_all \<Rightarrow> ('i, 'e) result multiset" where
  "sa_owed sa = (\<Sum>s \<in># mset sa. mset (up_to_error s))"

lemma sa_owed_push: "sa_owed (sa_push s sa) = sa_owed sa + mset (up_to_error s)"
  by (simp add: sa_owed_def sa_push_def)

lemma select_all_owed: "sa_owed (select_all streams sa) = sa_owed sa + sa_owed streams"
proof (induction streams arbitrary: sa)
  case (Cons s streams)
  have "sa_owed (s # streams) = sa_owed streams + mset (up_to_error s)" by (simp add: sa_owed_def)
  with Cons [of "sa_push s sa"] show ?case by (simp add: sa_owed_push ac_simps)
qed (simp add: sa_owed_def)

lemma take_at_mset:
  assumes "sa \<noteq> []" "take_at i sa = (s, rest)"
  shows "sa_owed sa = sa_owed rest + mset (up_to_error s)" "length sa = Suc (length rest)"
proof -
  let ?k = "i mod length sa"
  have k: "?k < length sa" using assms(1) by simp
  have sa: "sa = take ?k sa @ s # drop (Suc ?k) sa" "rest = take ?k sa @ drop (Suc ?k) sa"
    using assms(2) id_take_nth_drop [OF k] by (auto simp: take_at_def)
  show "sa_owed sa = sa_owed rest + mset (up_to_error s)" by (subst sa(1)) (simp add: sa_owed_def sa(2))
  show "length sa = Suc (length rest)" using arg_cong [OF sa(1), of length] sa(2) by simp
qed

text \<open>The work that is left: an answer of each stream for each item and for its end.\<close>

definition sa_work :: "('i, 'e) select_all \<Rightarrow> nat" where
  "sa_work sa = size (sa_owed sa) + length sa"

lemma sa_poll_cases:
  "sa_poll cs sa = (r, sa') \<Longrightarrow>
     (r = Ok (Poll_Ready None) \<and> sa_owed sa = {#}) \<or>
     (r = Ok Poll_Pending \<and> sa_owed sa' = sa_owed sa \<and> sa_work sa' \<le> sa_work sa \<and>
        (cs \<noteq> [] \<and> None \<notin> set cs \<longrightarrow> sa_work sa' < sa_work sa)) \<or>
     (\<exists>v. yields r = Poll_Ready (Some v) \<and> sa_owed sa = add_mset v (sa_owed sa') \<and> sa_work sa' < sa_work sa)"
proof (induction cs sa arbitrary: r sa' rule: sa_poll.induct)
  case (1 cs sa)
  show ?case
  proof (cases "sa = []")
    case True
    with "1.prems" have "r = Ok (Poll_Ready None)" by (subst (asm) sa_poll.simps) simp
    with True show ?thesis by (simp add: sa_owed_def)
  next
    case False
    show ?thesis
    proof (cases "\<exists>i cs'. cs = Some i # cs'")
      case no: False
      then have "r = Ok Poll_Pending" "sa' = sa" "cs = [] \<or> None \<in> set cs"
        using "1.prems" False by (subst (asm) sa_poll.simps, auto split: list.splits option.splits)+
      then show ?thesis by auto
    next
      case True
      then obtain i cs' where cs: "cs = Some i # cs'" by blast
      obtain s rest where t: "take_at i sa = (s, rest)" by (cases "take_at i sa")
      note m = take_at_mset [OF False t]
      show ?thesis
      proof (cases s)
        case Nil
        have "sa_poll cs' rest = (r, sa')" using "1.prems" False cs t Nil by (subst (asm) sa_poll.simps) simp
        from "1.IH" [OF False cs refl t [symmetric] Nil this] have
          "(r = Ok (Poll_Ready None) \<and> sa_owed rest = {#}) \<or>
           (r = Ok Poll_Pending \<and> sa_owed sa' = sa_owed rest \<and> sa_work sa' \<le> sa_work rest \<and>
              (cs' \<noteq> [] \<and> None \<notin> set cs' \<longrightarrow> sa_work sa' < sa_work rest)) \<or>
           (\<exists>v. yields r = Poll_Ready (Some v) \<and> sa_owed rest = add_mset v (sa_owed sa') \<and> sa_work sa' < sa_work rest)" .
        moreover have "sa_owed rest = sa_owed sa" "sa_work rest < sa_work sa" using m Nil by (simp_all add: sa_work_def)
        ultimately show ?thesis by auto
      next
        case (Cons a as)
        show ?thesis
        proof (cases a)
          case (Ok v)
          then have "r = result.Ok (Poll_Ready (Some v))" "sa' = sa_push as rest"
            using "1.prems" False cs t Cons by (subst (asm) sa_poll.simps, simp)+
          moreover have "length (sa_push as rest) = Suc (length rest)" by (simp add: sa_push_def)
          ultimately show ?thesis using m Cons Ok by (simp add: yields_def sa_owed_push sa_work_def)
        next
          case (Err e)
          then have "r = result.Err e" "sa' = rest"
            using "1.prems" False cs t Cons by (subst (asm) sa_poll.simps, simp)+
          then show ?thesis using m Cons Err by (simp add: yields_def sa_work_def)
        qed
      qed
    qed
  qed
qed

lemma sa_run:
  "poll_run (observed sa_poll_next) css sa = (outs, e) \<Longrightarrow>
     (\<exists>sa'. e = Run_Open sa' \<and> sa_owed sa = mset outs + sa_owed sa' \<and>
        sa_work sa' + length (filter (\<lambda>cs. cs \<noteq> [] \<and> None \<notin> set cs) css) \<le> sa_work sa) \<or>
     (\<exists>sa'. e = Run_Done sa' \<and> sa_owed sa = mset outs)"
proof (induction css arbitrary: sa outs)
  case (Cons cs css)
  obtain r sa1 where r: "sa_poll cs sa = (r, sa1)" by (cases "sa_poll cs sa")
  have step: "observed sa_poll_next cs sa = Inr (yields r, sa1)" by (simp add: observed_def sa_poll_next_def r)
  from sa_poll_cases [OF r] show ?case
  proof (elim disjE exE conjE)
    assume "r = Ok (Poll_Ready None)" "sa_owed sa = {#}"
    with Cons.prems step show ?case by (auto simp: yields_def)
  next
    assume "r = Ok Poll_Pending" and same: "sa_owed sa1 = sa_owed sa" "sa_work sa1 \<le> sa_work sa"
      "cs \<noteq> [] \<and> None \<notin> set cs \<longrightarrow> sa_work sa1 < sa_work sa"
    then have "poll_run (observed sa_poll_next) css sa1 = (outs, e)" using Cons.prems step by (simp add: yields_def)
    from Cons.IH [OF this] same show ?case by auto
  next
    fix v assume v: "yields r = Poll_Ready (Some v)" "sa_owed sa = add_mset v (sa_owed sa1)" "sa_work sa1 < sa_work sa"
    obtain outs1 where run: "poll_run (observed sa_poll_next) css sa1 = (outs1, e)" "outs = v # outs1"
      using Cons.prems step v(1) by (auto split: prod.splits)
    from Cons.IH [OF run(1)] v run(2) show ?case by auto
  qed
qed auto

section \<open>Properties\<close>

text \<open>
  The halves of a split stream, polled in any order: the infallible half yields all items, also those after
  an error, at which it is only not ready for one poll; the error future returns at most one error, which is the first one of the
  stream, and it returns it in its first poll after the other half has met it.
\<close>

theorem split_err_correct:
  assumes "split_run evs (split_err s) = (vs, es, st)"
  defines "seen \<equiv> take (length (filter (\<lambda>ev. ev = Poll_Items) evs)) s"
  shows "vs = items_of seen \<and> (es = [] \<or> errors_of seen \<noteq> [] \<and> es = [hd (errors_of seen)]) \<and>
    (errors_of seen \<noteq> [] \<longrightarrow> fst (snd (split_run (evs @ [Poll_Error]) (split_err s))) = [hd (errors_of seen)])"
proof -
  have start: "split_inv [] False (split_err s)" by (simp add: split_inv_def split_err_def)
  have inner: "sp_inner (split_err s) = s" by (simp add: split_err_def)
  have seen: "seen = take (item_polls evs) s" by (simp add: seen_def item_polls_def)
  note spec = split_run_spec [OF start, of evs, unfolded inner assms(1)]
  obtain returned' where r: "vs = items_of seen" "split_inv (errors_of seen) returned' st" "es = first_if returned' (errors_of seen)"
    using spec by (auto simp: split_outcome_def seen)
  have later: "split_run (evs @ [Poll_Error]) st0 =
      (case split_run evs st0 of (vs, es, st) \<Rightarrow> (case err_future_poll st of (r, st) \<Rightarrow> (vs, es @ (case r of Some e \<Rightarrow> [e] | None \<Rightarrow> []), st)))" for st0 :: "('a, 'b) split"
    by (induction evs st0 rule: split_run.induct) (auto split: prod.splits poll.splits option.splits)
  have "es = [] \<or> errors_of seen \<noteq> [] \<and> es = [hd (errors_of seen)]"
    using r(2,3) by (auto simp: first_if_def split_inv_def)
  moreover have "fst (snd (split_run (evs @ [Poll_Error]) (split_err s))) = [hd (errors_of seen)]" if "errors_of seen \<noteq> []"
    using r that by (cases returned') (auto simp: later assms(1) err_future_poll_def split_inv_def first_if_def oneshot_poll_def)
  ultimately show ?thesis using r(1) by blast
qed

theorem split_err_correct_witness:
  "fst (split_run [Poll_Items, Poll_Error, Poll_Items, Poll_Items, Poll_Error] (split_err [Some (Ok CHR ''a''), Some (Err (3 :: nat)), Some (Ok CHR ''b'')])) = ''ab'' \<and>
   fst (snd (split_run [Poll_Items, Poll_Error, Poll_Items, Poll_Items, Poll_Error] (split_err [Some (Ok CHR ''a''), Some (Err (3 :: nat)), Some (Ok CHR ''b'')]))) = [3]"
proof -
  let ?evs = "[Poll_Items, Poll_Error, Poll_Items, Poll_Items, Poll_Error]" and ?s = "[Some (Ok CHR ''a''), Some (Err (3 :: nat)), Some (Ok CHR ''b'')]"
  obtain vs es st where run: "split_run ?evs (split_err ?s) = (vs, es, st)" by (cases "split_run ?evs (split_err ?s)")
  have "vs = ''ab''" using split_err_correct [OF run] by (simp add: numeral_3_eq_3)
  moreover obtain vs' es' st' where run': "split_run [Poll_Items, Poll_Error, Poll_Items, Poll_Items] (split_err ?s) = (vs', es', st')"
    by (cases "split_run [Poll_Items, Poll_Error, Poll_Items, Poll_Items] (split_err ?s)")
  have "es = [3]" using split_err_correct [OF run'] run by (simp add: numeral_3_eq_3)
  ultimately show ?thesis unfolding run by simp
qed

text \<open>
  \<open>select_all\<close> yields, whatever the order in which its streams are ready, only what they yield, each
  as often as they do; when it has been polled often enough with one of them ready it has ended, and then it has yielded
  everything of every stream up to and with its first error.
\<close>

theorem select_all_complete:
  assumes "poll_run (observed sa_poll_next) css (select_all streams sa_default) = (outs, e)"
  shows "mset outs \<subseteq># (\<Sum>s \<in># mset streams. mset (up_to_error s)) \<and>
    (size (\<Sum>s \<in># mset streams. mset (up_to_error s)) + length streams < length (filter (\<lambda>cs. cs \<noteq> [] \<and> None \<notin> set cs) css) \<longrightarrow>
       (\<exists>sa'. e = Run_Done sa')) \<and>
    (\<forall>sa'. e = Run_Done sa' \<longrightarrow> mset outs = (\<Sum>s \<in># mset streams. mset (up_to_error s)))"
proof -
  let ?owed = "\<Sum>s \<in># mset streams. mset (up_to_error s)"
  have owed: "sa_owed (select_all streams sa_default) = ?owed"
    by (simp add: select_all_owed) (simp add: sa_owed_def sa_default_def)
  have "length (select_all streams sa) = length streams + length sa" for sa :: "('a, 'b) select_all"
    by (induction streams arbitrary: sa) (simp_all add: sa_push_def)
  then have work: "sa_work (select_all streams sa_default) = size ?owed + length streams"
    unfolding sa_work_def owed by (simp add: sa_default_def)
  from sa_run [OF assms] show ?thesis unfolding owed work by auto
qed

theorem select_all_complete_witness:
  "\<exists>outs sa'. poll_run (observed sa_poll_next) (replicate 9 [Some 1]) (select_all [[Ok CHR ''a'', Err (7 :: nat), Ok CHR ''x''], [Ok CHR ''b'']] sa_default) = (outs, Run_Done sa') \<and>
     mset outs = {#Ok CHR ''a'', Ok CHR ''b'', Err 7#}"
proof -
  let ?streams = "[[Ok CHR ''a'', Err (7 :: nat), Ok CHR ''x''], [Ok CHR ''b'']]"
  obtain outs e where run: "poll_run (observed sa_poll_next) (replicate 9 [Some 1]) (select_all ?streams sa_default) = (outs, e)"
    by (cases "poll_run (observed sa_poll_next) (replicate 9 [Some 1]) (select_all ?streams sa_default)")
  have "length (filter (\<lambda>cs. cs \<noteq> [] \<and> None \<notin> set cs) (replicate 9 [Some (1 :: nat)])) = 9" by (simp add: filter_replicate)
  with select_all_complete [OF run] have "(\<exists>sa'. e = Run_Done sa') \<and> mset outs = {#Ok CHR ''a'', Ok CHR ''b'', Err 7#}" by auto
  with run show ?thesis by blast
qed

end
