(* ===== verification/Stream_Fork.thy ===== *)
theory Stream_Fork
  imports Futures_01
begin

text \<open>
  \<open>streamfork\<close> (\<open>shed/futures_01_ext/src/streamfork.rs\<close>): a future that forwards the items of a
  stream to two sinks, by a predicate.  A sink is a state with the two operations of the trait
  \<open>Sink\<close>; \<open>sink_laws\<close> says what the fork relies on: an item that the sink takes is the next it has
  got, one that it does not take is handed back, and a sink is not unready for ever.
  The predicate is a function of the item.
\<close>

section \<open>Sinks\<close>

datatype 'i async_sink = Sink_Ready | Sink_NotReady 'i

record ('o, 'i, 'se) sink_ops =
  sk_start_send :: "'o \<Rightarrow> 'i \<Rightarrow> ('i async_sink, 'se) result \<times> 'o"
  sk_poll_complete :: "'o \<Rightarrow> (unit, 'se) poll01 \<times> 'o"

text \<open>\<open>got\<close> are the items a sink has taken, \<open>flushed\<close> tells that they are all written, and \<open>patience\<close> is
  a bound on how often the sink will still answer \<open>NotReady\<close>.\<close>

record ('o, 'i) sink_view =
  got :: "'o \<Rightarrow> 'i list"
  flushed :: "'o \<Rightarrow> bool"
  patience :: "'o \<Rightarrow> nat"

definition sink_laws :: "('o, 'i, 'se) sink_ops \<Rightarrow> ('o, 'i) sink_view \<Rightarrow> bool" where
  "sink_laws ops v \<longleftrightarrow>
     (\<forall>s i. case sk_start_send ops s i of
        (Ok Sink_Ready, s') \<Rightarrow> got v s' = got v s @ [i] \<and> patience v s' \<le> patience v s
      | (Ok (Sink_NotReady j), s') \<Rightarrow> j = i \<and> got v s' = got v s \<and> patience v s' < patience v s
      | (Err _, s') \<Rightarrow> True) \<and>
     (\<forall>s. case sk_poll_complete ops s of
        (Ok (Poll_Ready _), s') \<Rightarrow> got v s' = got v s \<and> flushed v s' \<and> patience v s' \<le> patience v s
      | (Ok Poll_Pending, s') \<Rightarrow> got v s' = got v s \<and> patience v s' < patience v s
      | (Err _, s') \<Rightarrow> True)"

section \<open>\<open>Out\<close>\<close>

record ('o, 'i) out =
  out_out :: "'o option"
  out_buf :: "'i option"

definition out_new :: "'o \<Rightarrow> ('o, 'i) out" where
  "out_new s = \<lparr>out_out = Some s, out_buf = None\<rparr>"

definition out_take_result :: "('o, 'i) out \<Rightarrow> ('o \<times> ('o, 'i) out) res" where
  "out_take_result out =
     (case out_out out of
        None \<Rightarrow> Inl (Panic ''Out missing'')
      | Some s \<Rightarrow> Inr (s, out\<lparr>out_out := None\<rparr>))"

definition try_start_send ::
  "('o, 'i, 'se) sink_ops \<Rightarrow> 'i \<Rightarrow> ('o, 'i) out \<Rightarrow> ((unit, 'se) poll01 \<times> ('o, 'i) out) res" where
  "try_start_send ops it out =
     (if out_buf out \<noteq> None then Inl (Panic ''assertion failed: self.buf.is_none()'')
      else
        (case out_out out of
           None \<Rightarrow> Inl (Panic ''Out after completion'')
         | Some s \<Rightarrow>
             (case sk_start_send ops s it of
                (Err e, s') \<Rightarrow> Inr (Err e, out\<lparr>out_out := Some s'\<rparr>)
              | (Ok (Sink_NotReady it'), s') \<Rightarrow> Inr (Ok Poll_Pending, out\<lparr>out_out := Some s', out_buf := Some it'\<rparr>)
              | (Ok Sink_Ready, s') \<Rightarrow> Inr (Ok (Poll_Ready ()), out\<lparr>out_out := Some s'\<rparr>))))"

definition out_push ::
  "('o, 'i, 'se) sink_ops \<Rightarrow> ('o, 'i) out \<Rightarrow> ((unit, 'se) poll01 \<times> ('o, 'i) out) res" where
  "out_push ops out =
     (case out_buf out of
        Some it \<Rightarrow> try_start_send ops it (out\<lparr>out_buf := None\<rparr>)
      | None \<Rightarrow> Inr (Ok (Poll_Ready ()), out))"

definition out_poll_complete ::
  "('o, 'i, 'se) sink_ops \<Rightarrow> ('o, 'i) out \<Rightarrow> ((unit, 'se) poll01 \<times> ('o, 'i) out) res" where
  "out_poll_complete ops out =
     (case out_out out of
        None \<Rightarrow> Inl (Panic ''Out after completion'')
      | Some s \<Rightarrow> (case sk_poll_complete ops s of (r, s') \<Rightarrow> Inr (r, out\<lparr>out_out := Some s'\<rparr>)))"

section \<open>\<open>Forker\<close>\<close>

record ('i, 'ie, 'o1, 'o2, 'se, 'e) fork_env =
  fe_pred :: "'i \<Rightarrow> (bool, 'e) result"
  fe_out1 :: "('o1, 'i, 'se) sink_ops"
  fe_out2 :: "('o2, 'i, 'se) sink_ops"
  fe_from_in :: "'ie \<Rightarrow> 'e"
  fe_from_sink :: "'se \<Rightarrow> 'e"

record ('i, 'ie, 'o1, 'o2, 'e) forker =
  fk_inp :: "('i, 'ie) result fuse option"
  fk_out1 :: "('o1, 'i) out"
  fk_out2 :: "('o2, 'i) out"
  fk_finished :: "(unit, 'e) result option"

definition streamfork :: "('i, 'ie) script \<Rightarrow> 'o1 \<Rightarrow> 'o2 \<Rightarrow> ('i, 'ie, 'o1, 'o2, 'e) forker" where
  "streamfork inp out1 out2 =
     \<lparr>fk_inp = Some (fuse_of inp), fk_out1 = out_new out1, fk_out2 = out_new out2, fk_finished = None\<rparr>"

type_synonym ('i, 'ie, 'o1, 'o2, 'e) fork_item = "('i, 'ie) script \<times> 'o1 \<times> 'o2"

definition fork_take_result ::
  "('i, 'ie, 'o1, 'o2, 'e) forker \<Rightarrow> (('i, 'ie, 'o1, 'o2, 'e) fork_item \<times> ('i, 'ie, 'o1, 'o2, 'e) forker) res" where
  "fork_take_result st =
     (case fk_inp st of
        None \<Rightarrow> Inl (Panic ''Input missing in result'')
      | Some inp \<Rightarrow>
          res_bind (out_take_result (fk_out1 st)) (\<lambda>(o1, out1).
          res_bind (out_take_result (fk_out2 st)) (\<lambda>(o2, out2).
            Inr ((fuse_script inp, o1, o2), st\<lparr>fk_inp := None, fk_out1 := out1, fk_out2 := out2\<rparr>))))"

text \<open>Both operations ask the first sink and, unless that fails, the second; \<open>?\<close> converts the error.\<close>

definition on_both ::
  "('se \<Rightarrow> 'e) \<Rightarrow> (('o1, 'i) out \<Rightarrow> ((unit, 'se) poll01 \<times> ('o1, 'i) out) res) \<Rightarrow>
   (('o2, 'i) out \<Rightarrow> ((unit, 'se) poll01 \<times> ('o2, 'i) out) res) \<Rightarrow>
   ('i, 'ie, 'o1, 'o2, 'e) forker \<Rightarrow> ((unit, 'e) poll01 \<times> ('i, 'ie, 'o1, 'o2, 'e) forker) res" where
  "on_both from_sink op1 op2 st =
     res_bind (op1 (fk_out1 st)) (\<lambda>(r1, out1).
       let st = st\<lparr>fk_out1 := out1\<rparr> in
       case r1 of
         Err e \<Rightarrow> Inr (Err (from_sink e), st)
       | Ok p1 \<Rightarrow>
           res_bind (op2 (fk_out2 st)) (\<lambda>(r2, out2).
             let st = st\<lparr>fk_out2 := out2\<rparr> in
             case r2 of
               Err e \<Rightarrow> Inr (Err (from_sink e), st)
             | Ok p2 \<Rightarrow>
                 if p1 = Poll_Ready () \<and> p2 = Poll_Ready () then Inr (Ok (Poll_Ready ()), st)
                 else Inr (Ok Poll_Pending, st)))"

definition poll_complete_both ::
  "('i, 'ie, 'o1, 'o2, 'se, 'e) fork_env \<Rightarrow> ('i, 'ie, 'o1, 'o2, 'e) forker \<Rightarrow>
   ((unit, 'e) poll01 \<times> ('i, 'ie, 'o1, 'o2, 'e) forker) res" where
  "poll_complete_both env =
     on_both (fe_from_sink env) (out_poll_complete (fe_out1 env)) (out_poll_complete (fe_out2 env))"

definition push_both ::
  "('i, 'ie, 'o1, 'o2, 'se, 'e) fork_env \<Rightarrow> ('i, 'ie, 'o1, 'o2, 'e) forker \<Rightarrow>
   ((unit, 'e) poll01 \<times> ('i, 'ie, 'o1, 'o2, 'e) forker) res" where
  "push_both env = on_both (fe_from_sink env) (out_push (fe_out1 env)) (out_push (fe_out2 env))"

definition fork_send ::
  "('i, 'ie, 'o1, 'o2, 'se, 'e) fork_env \<Rightarrow> bool \<Rightarrow> 'i \<Rightarrow> ('i, 'ie, 'o1, 'o2, 'e) forker \<Rightarrow>
   ((unit, 'se) poll01 \<times> ('i, 'ie, 'o1, 'o2, 'e) forker) res" where
  "fork_send env second it st =
     (if second
      then res_bind (try_start_send (fe_out2 env) it (fk_out2 st)) (\<lambda>(r, out). Inr (r, st\<lparr>fk_out2 := out\<rparr>))
      else res_bind (try_start_send (fe_out1 env) it (fk_out1 st)) (\<lambda>(r, out). Inr (r, st\<lparr>fk_out1 := out\<rparr>)))"

type_synonym ('i, 'ie, 'o1, 'o2, 'e) fork_polled =
  "((('i, 'ie, 'o1, 'o2, 'e) fork_item, 'e) poll01 \<times> ('i, 'ie, 'o1, 'o2, 'e) forker) res"

text \<open>What happens when the input is exhausted or has failed.\<close>

definition fork_end ::
  "('i, 'ie, 'o1, 'o2, 'se, 'e) fork_env \<Rightarrow> (unit, 'e) result \<Rightarrow> ('i, 'ie, 'o1, 'o2, 'e) forker \<Rightarrow>
   ('i, 'ie, 'o1, 'o2, 'e) fork_polled" where
  "fork_end env outcome st =
     res_bind (poll_complete_both env st) (\<lambda>(r, st).
       case r of
         Err e \<Rightarrow> Inr (Err e, st)
       | Ok Poll_Pending \<Rightarrow> Inr (Ok Poll_Pending, st\<lparr>fk_finished := Some outcome\<rparr>)
       | Ok (Poll_Ready _) \<Rightarrow>
           (case outcome of
              Ok _ \<Rightarrow> res_bind (fork_take_result st) (\<lambda>(it, st). Inr (Ok (Poll_Ready it), st))
            | Err e \<Rightarrow> Inr (Err e, st)))"

definition fork_flush ::
  "('i, 'ie, 'o1, 'o2, 'se, 'e) fork_env \<Rightarrow> ('i, 'ie, 'o1, 'o2, 'e) forker \<Rightarrow> ('i, 'ie, 'o1, 'o2, 'e) fork_polled" where
  "fork_flush env st =
     res_bind (out_poll_complete (fe_out1 env) (fk_out1 st)) (\<lambda>(r1, out1).
       let st = st\<lparr>fk_out1 := out1\<rparr> in
       case r1 of
         Err e \<Rightarrow> Inr (Err (fe_from_sink env e), st)
       | Ok _ \<Rightarrow>
           res_bind (out_poll_complete (fe_out2 env) (fk_out2 st)) (\<lambda>(r2, out2).
             let st = st\<lparr>fk_out2 := out2\<rparr> in
             case r2 of
               Err e \<Rightarrow> Inr (Err (fe_from_sink env e), st)
             | Ok _ \<Rightarrow> Inr (Ok Poll_Pending, st)))"

lemma fork_send_inp: "fork_send env b it st = Inr (r, st') \<Longrightarrow> fk_inp st' = fk_inp st \<and> fk_finished st' = fk_finished st"
  by (auto simp: fork_send_def res_bind_def split: if_splits sum.splits)

function fork_loop ::
  "('i, 'ie, 'o1, 'o2, 'se, 'e) fork_env \<Rightarrow> ('i, 'ie, 'o1, 'o2, 'e) forker \<Rightarrow> ('i, 'ie, 'o1, 'o2, 'e) fork_polled" where
  "fork_loop env st =
     (case fk_inp st of
        None \<Rightarrow> Inl (Panic ''Input after completion'')
      | Some inp \<Rightarrow>
          (case fuse01_poll inp of
             (Ok (Poll_Ready (Some it)), inp) \<Rightarrow>
               let st = st\<lparr>fk_inp := Some inp\<rparr> in
               (case fe_pred env it of
                  Err e \<Rightarrow> Inr (Err e, st)
                | Ok second \<Rightarrow>
                    (case fork_send env second it st of
                       Inl p \<Rightarrow> Inl p
                     | Inr (Err e, st) \<Rightarrow> Inr (Err (fe_from_sink env e), st)
                     | Inr (Ok Poll_Pending, st) \<Rightarrow> Inr (Ok Poll_Pending, st)
                     | Inr (Ok (Poll_Ready _), st) \<Rightarrow> fork_loop env st))
           | (Ok Poll_Pending, inp) \<Rightarrow> fork_flush env (st\<lparr>fk_inp := Some inp\<rparr>)
           | (Ok (Poll_Ready None), inp) \<Rightarrow> fork_end env (Ok ()) (st\<lparr>fk_inp := Some inp\<rparr>)
           | (Err err, inp) \<Rightarrow> fork_end env (Err (fe_from_in env err)) (st\<lparr>fk_inp := Some inp\<rparr>)))"
  by pat_completeness auto
termination
proof (relation "measure (\<lambda>(env, st). case fk_inp st of None \<Rightarrow> 0 | Some f \<Rightarrow> length (fuse_script f))", goal_cases)
  case (2 env st inp r inp' x a it st' x2 second aa b st'' bb)
  then show ?case
    by (auto dest!: sym [THEN fork_send_inp] fork_send_inp dest: sym [THEN fuse01_shrinks])
qed simp

declare fork_loop.simps [simp del]

definition fork_poll ::
  "('i, 'ie, 'o1, 'o2, 'se, 'e) fork_env \<Rightarrow> ('i, 'ie, 'o1, 'o2, 'e) forker \<Rightarrow> ('i, 'ie, 'o1, 'o2, 'e) fork_polled" where
  "fork_poll env st =
     (case fk_finished st of
        Some finished_res \<Rightarrow>
          res_bind (poll_complete_both env st) (\<lambda>(r, st).
            case r of
              Err e \<Rightarrow> Inr (Err e, st)
            | Ok Poll_Pending \<Rightarrow> Inr (Ok Poll_Pending, st)
            | Ok (Poll_Ready _) \<Rightarrow>
                (case finished_res of
                   Err e \<Rightarrow> Inr (Err e, st\<lparr>fk_finished := None\<rparr>)
                 | Ok _ \<Rightarrow> res_bind (fork_take_result (st\<lparr>fk_finished := None\<rparr>)) (\<lambda>(it, st). Inr (Ok (Poll_Ready it), st))))
      | None \<Rightarrow>
          res_bind (push_both env st) (\<lambda>(r, st).
            case r of
              Err e \<Rightarrow> Inr (Err e, st)
            | Ok Poll_Pending \<Rightarrow> Inr (Ok Poll_Pending, st)
            | Ok (Poll_Ready _) \<Rightarrow> fork_loop env st))"

section \<open>What an output does\<close>

definition delivered :: "('o, 'i) sink_view \<Rightarrow> ('o, 'i) out \<Rightarrow> 'i list" where
  "delivered v out =
     (case out_out out of None \<Rightarrow> [] | Some s \<Rightarrow> got v s) @ (case out_buf out of None \<Rightarrow> [] | Some i \<Rightarrow> [i])"

definition out_patience :: "('o, 'i) sink_view \<Rightarrow> ('o, 'i) out \<Rightarrow> nat" where
  "out_patience v out = (case out_out out of None \<Rightarrow> 0 | Some s \<Rightarrow> patience v s)"

definition out_flushed :: "('o, 'i) sink_view \<Rightarrow> ('o, 'i) out \<Rightarrow> bool" where
  "out_flushed v out \<longleftrightarrow> (case out_out out of None \<Rightarrow> False | Some s \<Rightarrow> flushed v s)"

text \<open>
  The answer of an operation on an output: it still has its sink, has delivered what it should, and
  was unready only at the cost of its patience.
\<close>

definition answers :: "('o, 'i) sink_view \<Rightarrow> 'i list \<Rightarrow> ('o, 'i) out \<Rightarrow> 'a poll \<Rightarrow> ('o, 'i) out \<Rightarrow> bool" where
  "answers v items out p out' \<longleftrightarrow> out_out out' \<noteq> None \<and> delivered v out' = items \<and>
     (case p of Poll_Pending \<Rightarrow> out_patience v out' < out_patience v out | Poll_Ready _ \<Rightarrow> out_patience v out' \<le> out_patience v out)"

definition op_ok ::
  "('o, 'i) sink_view \<Rightarrow> 'i list \<Rightarrow> ('o, 'i) out \<Rightarrow> (('o, 'i) out \<Rightarrow> bool) \<Rightarrow> ((unit, 'se) poll01 \<times> ('o, 'i) out) res \<Rightarrow> bool" where
  "op_ok v items out ready r \<longleftrightarrow>
     (case r of
        Inl _ \<Rightarrow> False
      | Inr (Err _, out') \<Rightarrow> True
      | Inr (Ok p, out') \<Rightarrow> answers v items out p out' \<and> (p \<noteq> Poll_Pending \<longrightarrow> ready out'))"

lemma sink_lawsD:
  assumes "sink_laws ops v"
  shows "case sk_start_send ops s i of
        (Ok Sink_Ready, s') \<Rightarrow> got v s' = got v s @ [i] \<and> patience v s' \<le> patience v s
      | (Ok (Sink_NotReady j), s') \<Rightarrow> j = i \<and> got v s' = got v s \<and> patience v s' < patience v s
      | (Err _, s') \<Rightarrow> True"
    and "case sk_poll_complete ops s of
        (Ok (Poll_Ready _), s') \<Rightarrow> got v s' = got v s \<and> flushed v s' \<and> patience v s' \<le> patience v s
      | (Ok Poll_Pending, s') \<Rightarrow> got v s' = got v s \<and> patience v s' < patience v s
      | (Err _, s') \<Rightarrow> True"
  by (rule conjunct1 [OF assms [unfolded sink_laws_def], THEN spec, THEN spec]
      conjunct2 [OF assms [unfolded sink_laws_def], THEN spec])+

lemma try_start_send_ok:
  assumes "sink_laws ops v" "out_out out \<noteq> None" "out_buf out = None"
  shows "op_ok v (delivered v out @ [i]) out (\<lambda>out'. out_buf out' = None) (try_start_send ops i out)"
proof -
  obtain s where s: "out_out out = Some s" using assms(2) by auto
  with sink_lawsD(1) [OF assms(1), of s i] assms(3) show ?thesis
    by (cases "sk_start_send ops s i")
      (auto simp: op_ok_def try_start_send_def answers_def delivered_def out_patience_def split: result.splits async_sink.splits)
qed

lemma out_push_ok:
  assumes "sink_laws ops v" "out_out out \<noteq> None"
  shows "op_ok v (delivered v out) out (\<lambda>out'. out_buf out' = None) (out_push ops out)"
proof (cases "out_buf out")
  case None
  with assms(2) show ?thesis by (auto simp: op_ok_def out_push_def answers_def)
next
  case (Some i)
  let ?out = "out\<lparr>out_buf := None\<rparr>"
  have "delivered v ?out @ [i] = delivered v out" "out_patience v ?out = out_patience v out"
    using Some by (simp_all add: delivered_def out_patience_def)
  with try_start_send_ok [OF assms(1), of ?out i] assms(2) Some show ?thesis
    by (auto simp: op_ok_def out_push_def answers_def split: sum.splits prod.splits result.splits poll.splits)
qed

lemma out_poll_complete_ok:
  assumes "sink_laws ops v" "out_out out \<noteq> None"
  shows "op_ok v (delivered v out) out (\<lambda>out'. out_flushed v out' \<and> out_buf out' = out_buf out) (out_poll_complete ops out)"
proof -
  obtain s where s: "out_out out = Some s" using assms(2) by auto
  with sink_lawsD(2) [OF assms(1), of s] show ?thesis
    by (cases "sk_poll_complete ops s")
      (auto simp: op_ok_def out_poll_complete_def answers_def delivered_def out_patience_def out_flushed_def
        split: result.splits poll.splits)
qed

lemma out_poll_complete_buf: "out_poll_complete ops out = Inr (r, out') \<Longrightarrow> out_buf out' = out_buf out"
  by (auto simp: out_poll_complete_def split: option.splits prod.splits)

section \<open>What the fork has delivered\<close>

definition routed :: "('i, 'ie, 'o1, 'o2, 'se, 'e) fork_env \<Rightarrow> bool \<Rightarrow> 'i list \<Rightarrow> 'i list" where
  "routed env second items = filter (\<lambda>i. fe_pred env i = Ok second) items"

text \<open>The views of the two sinks and what they had got at the start.\<close>

record ('i, 'o1, 'o2) fork_view =
  fv_view1 :: "('o1, 'i) sink_view"
  fv_view2 :: "('o2, 'i) sink_view"
  fv_start1 :: "'i list"
  fv_start2 :: "'i list"

definition sides ::
  "('i, 'ie, 'o1, 'o2, 'se, 'e) fork_env \<Rightarrow> ('i, 'o1, 'o2) fork_view \<Rightarrow> 'i list \<Rightarrow> ('i, 'ie, 'o1, 'o2, 'e) forker \<Rightarrow> bool" where
  "sides env fv pre st \<longleftrightarrow>
     sink_laws (fe_out1 env) (fv_view1 fv) \<and> sink_laws (fe_out2 env) (fv_view2 fv) \<and>
     (\<forall>i \<in> set pre. is_ok (fe_pred env i)) \<and>
     out_out (fk_out1 st) \<noteq> None \<and> delivered (fv_view1 fv) (fk_out1 st) = fv_start1 fv @ routed env False pre \<and>
     out_out (fk_out2 st) \<noteq> None \<and> delivered (fv_view2 fv) (fk_out2 st) = fv_start2 fv @ routed env True pre"

definition fork_patience :: "('i, 'o1, 'o2) fork_view \<Rightarrow> ('i, 'ie, 'o1, 'o2, 'e) forker \<Rightarrow> nat" where
  "fork_patience fv st = out_patience (fv_view1 fv) (fk_out1 st) + out_patience (fv_view2 fv) (fk_out2 st)"

definition bufs_empty :: "('i, 'ie, 'o1, 'o2, 'e) forker \<Rightarrow> bool" where
  "bufs_empty st \<longleftrightarrow> out_buf (fk_out1 st) = None \<and> out_buf (fk_out2 st) = None"

definition both_flushed :: "('i, 'o1, 'o2) fork_view \<Rightarrow> ('i, 'ie, 'o1, 'o2, 'e) forker \<Rightarrow> bool" where
  "both_flushed fv st \<longleftrightarrow> out_flushed (fv_view1 fv) (fk_out1 st) \<and> out_flushed (fv_view2 fv) (fk_out2 st)"

lemma on_both_ok:
  fixes st :: "('i, 'ie, 'o1, 'o2, 'e) forker"
  assumes st: "sides env fv pre st"
    and op1: "op_ok (fv_view1 fv) (delivered (fv_view1 fv) (fk_out1 st)) (fk_out1 st) ready1 (op1 (fk_out1 st))"
    and op2: "op_ok (fv_view2 fv) (delivered (fv_view2 fv) (fk_out2 st)) (fk_out2 st) ready2 (op2 (fk_out2 st))"
  obtains (error) e st' where "on_both from_sink op1 op2 st = Inr (Err (from_sink e), st')"
  | (pending) st' where "on_both from_sink op1 op2 st = Inr (Ok Poll_Pending, st')" "sides env fv pre st'"
      "fk_inp st' = fk_inp st" "fk_finished st' = fk_finished st" "fork_patience fv st' < fork_patience fv st"
  | (ready) st' where "on_both from_sink op1 op2 st = Inr (Ok (Poll_Ready ()), st')" "sides env fv pre st'"
      "fk_inp st' = fk_inp st" "fk_finished st' = fk_finished st" "fork_patience fv st' \<le> fork_patience fv st"
      "ready1 (fk_out1 st')" "ready2 (fk_out2 st')"
proof -
  from op1 obtain r1 out1 where r1: "op1 (fk_out1 st) = Inr (r1, out1)" by (auto simp: op_ok_def split: sum.splits)
  show ?thesis
  proof (cases r1)
    case (Err e)
    with r1 show ?thesis by (intro error) (simp add: on_both_def)
  next
    case (Ok p1)
    from op2 obtain r2 out2 where r2: "op2 (fk_out2 st) = Inr (r2, out2)" by (auto simp: op_ok_def split: sum.splits)
    show ?thesis
    proof (cases r2)
      case (Err e)
      with r1 r2 Ok show ?thesis by (intro error) (simp add: on_both_def Let_def)
    next
      case Ok2: (Ok p2)
      let ?st = "st\<lparr>fk_out1 := out1, fk_out2 := out2\<rparr>"
      have a1: "answers (fv_view1 fv) (delivered (fv_view1 fv) (fk_out1 st)) (fk_out1 st) p1 out1" "p1 \<noteq> Poll_Pending \<longrightarrow> ready1 out1"
        using op1 r1 Ok by (simp_all add: op_ok_def)
      have a2: "answers (fv_view2 fv) (delivered (fv_view2 fv) (fk_out2 st)) (fk_out2 st) p2 out2" "p2 \<noteq> Poll_Pending \<longrightarrow> ready2 out2"
        using op2 r2 Ok2 by (simp_all add: op_ok_def)
      have sd: "sides env fv pre ?st" using st a1(1) a2(1) by (simp add: sides_def answers_def)
      have res: "on_both from_sink op1 op2 st =
          Inr (result.Ok (if p1 = Poll_Ready () \<and> p2 = Poll_Ready () then Poll_Ready () else Poll_Pending), ?st)"
        using r1 r2 Ok Ok2 by (simp add: on_both_def Let_def)
      show ?thesis
      proof (cases "p1 = Poll_Ready () \<and> p2 = Poll_Ready ()")
        case True
        with res sd a1 a2 show ?thesis by (intro ready [of ?st]) (simp_all add: answers_def fork_patience_def)
      next
        case False
        with res sd a1 a2 show ?thesis
          by (intro pending [of ?st]) (auto simp: answers_def fork_patience_def split: poll.splits)
      qed
    qed
  qed
qed

lemma sides_outs: "sides env fv pre st \<Longrightarrow> out_out (fk_out1 st) \<noteq> None" "sides env fv pre st \<Longrightarrow> out_out (fk_out2 st) \<noteq> None"
  by (simp_all add: sides_def)

lemma sides_update [simp]:
  "sides env fv pre (st\<lparr>fk_inp := i\<rparr>) = sides env fv pre st" "sides env fv pre (st\<lparr>fk_finished := f\<rparr>) = sides env fv pre st"
  "fork_patience fv (st\<lparr>fk_inp := i\<rparr>) = fork_patience fv st" "fork_patience fv (st\<lparr>fk_finished := f\<rparr>) = fork_patience fv st"
  "bufs_empty (st\<lparr>fk_inp := i\<rparr>) = bufs_empty st" "bufs_empty (st\<lparr>fk_finished := f\<rparr>) = bufs_empty st"
  "both_flushed fv (st\<lparr>fk_inp := i\<rparr>) = both_flushed fv st" "both_flushed fv (st\<lparr>fk_finished := f\<rparr>) = both_flushed fv st"
  by (simp_all add: sides_def fork_patience_def bufs_empty_def both_flushed_def)

text \<open>A result of the future, for a stream with these items and errors.\<close>

definition fork_result ::
  "('i, 'ie, 'o1, 'o2, 'se, 'e) fork_env \<Rightarrow> ('i, 'o1, 'o2) fork_view \<Rightarrow> ('i, 'ie) result list \<Rightarrow>
   (('i, 'ie, 'o1, 'o2, 'e) fork_item, 'e) result \<Rightarrow> ('i, 'ie, 'o1, 'o2, 'e) forker \<Rightarrow> bool" where
  "fork_result env fv items r st \<longleftrightarrow>
     (case r of
        Ok (inp, o1, o2) \<Rightarrow>
          (\<exists>pre. items = map Ok pre \<and> inp = [] \<and> (\<forall>i \<in> set pre. is_ok (fe_pred env i)) \<and>
             got (fv_view1 fv) o1 = fv_start1 fv @ routed env False pre \<and> flushed (fv_view1 fv) o1 \<and>
             got (fv_view2 fv) o2 = fv_start2 fv @ routed env True pre \<and> flushed (fv_view2 fv) o2)
      | Err e \<Rightarrow>
          (\<exists>se. e = fe_from_sink env se) \<or>
          (\<exists>pre i post. items = map Ok pre @ Ok i # post \<and> fe_pred env i = Err e) \<or>
          (\<exists>pre ie post. items = map Ok pre @ Err ie # post \<and> e = fe_from_in env ie \<and>
             sides env fv pre st \<and> bufs_empty st \<and> both_flushed fv st))"

text \<open>The state of the future between polls, and how often it can still be unready.\<close>

definition fork_inv ::
  "('i, 'ie, 'o1, 'o2, 'se, 'e) fork_env \<Rightarrow> ('i, 'o1, 'o2) fork_view \<Rightarrow> ('i, 'ie) result list \<Rightarrow>
   ('i, 'ie, 'o1, 'o2, 'e) forker \<Rightarrow> nat \<Rightarrow> bool" where
  "fork_inv env fv items st n \<longleftrightarrow>
     (\<exists>inp pre. fk_inp st = Some inp \<and> fuse_ok inp \<and> sides env fv pre st \<and>
        n = fork_patience fv st + length (fuse_script inp) \<and>
        (case fk_finished st of
           None \<Rightarrow> items = map Ok pre @ script_items (fuse_script inp)
         | Some (Ok _) \<Rightarrow> items = map Ok pre \<and> fuse_script inp = [] \<and> bufs_empty st
         | Some (Err e) \<Rightarrow> (\<exists>ie. items = map Ok pre @ Err ie # script_items (fuse_script inp) \<and> e = fe_from_in env ie) \<and> bufs_empty st))"

definition fork_good ::
  "('i, 'ie, 'o1, 'o2, 'se, 'e) fork_env \<Rightarrow> ('i, 'o1, 'o2) fork_view \<Rightarrow> ('i, 'ie) result list \<Rightarrow> nat \<Rightarrow>
   ('i, 'ie, 'o1, 'o2, 'e) fork_polled \<Rightarrow> bool" where
  "fork_good env fv items n r \<longleftrightarrow>
     (case r of
        Inl _ \<Rightarrow> False
      | Inr (Ok Poll_Pending, st') \<Rightarrow> (\<exists>n' < n. fork_inv env fv items st' n')
      | Inr (Ok (Poll_Ready x), st') \<Rightarrow> fork_result env fv items (Ok x) st'
      | Inr (Err e, st') \<Rightarrow> fork_result env fv items (Err e) st')"

lemma poll_complete_both_cases:
  fixes st :: "('i, 'ie, 'o1, 'o2, 'e) forker"
  assumes st: "sides env fv pre st" "bufs_empty st"
  obtains (error) e st' where "poll_complete_both env st = Inr (Err (fe_from_sink env e), st')"
  | (pending) st' where "poll_complete_both env st = Inr (Ok Poll_Pending, st')" "sides env fv pre st'" "bufs_empty st'"
      "fk_inp st' = fk_inp st" "fk_finished st' = fk_finished st" "fork_patience fv st' < fork_patience fv st"
  | (ready) st' where "poll_complete_both env st = Inr (Ok (Poll_Ready ()), st')" "sides env fv pre st'" "bufs_empty st'"
      "fk_inp st' = fk_inp st" "fk_finished st' = fk_finished st" "both_flushed fv st'"
proof -
  have laws: "sink_laws (fe_out1 env) (fv_view1 fv)" "sink_laws (fe_out2 env) (fv_view2 fv)" using st by (simp_all add: sides_def)
  have bufs: "bufs_empty st'" if "poll_complete_both env st = Inr (Ok p, st')" for p st'
    using that st(2) by (auto simp: poll_complete_both_def on_both_def bufs_empty_def res_bind_def Let_def
        dest: out_poll_complete_buf split: sum.splits prod.splits result.splits if_splits)
  show ?thesis
    by (rule on_both_ok [where ?op1.0 = "out_poll_complete (fe_out1 env)" and ?op2.0 = "out_poll_complete (fe_out2 env)"
          and from_sink = "fe_from_sink env",
          OF st(1) out_poll_complete_ok [OF laws(1) sides_outs(1) [OF st(1)]] out_poll_complete_ok [OF laws(2) sides_outs(2) [OF st(1)]]])
      (use error pending ready bufs in \<open>auto simp: poll_complete_both_def both_flushed_def\<close>)
qed

lemma push_both_cases:
  fixes st :: "('i, 'ie, 'o1, 'o2, 'e) forker"
  assumes st: "sides env fv pre st"
  obtains (error) e st' where "push_both env st = Inr (Err (fe_from_sink env e), st')"
  | (pending) st' where "push_both env st = Inr (Ok Poll_Pending, st')" "sides env fv pre st'"
      "fk_inp st' = fk_inp st" "fk_finished st' = fk_finished st" "fork_patience fv st' < fork_patience fv st"
  | (ready) st' where "push_both env st = Inr (Ok (Poll_Ready ()), st')" "sides env fv pre st'" "bufs_empty st'"
      "fk_inp st' = fk_inp st" "fk_finished st' = fk_finished st" "fork_patience fv st' \<le> fork_patience fv st"
proof -
  have laws: "sink_laws (fe_out1 env) (fv_view1 fv)" "sink_laws (fe_out2 env) (fv_view2 fv)" using st by (simp_all add: sides_def)
  show ?thesis
    by (rule on_both_ok [where ?op1.0 = "out_push (fe_out1 env)" and ?op2.0 = "out_push (fe_out2 env)"
          and from_sink = "fe_from_sink env",
          OF st out_push_ok [OF laws(1) sides_outs(1) [OF st]] out_push_ok [OF laws(2) sides_outs(2) [OF st]]])
      (use error pending ready in \<open>auto simp: push_both_def bufs_empty_def\<close>)
qed

lemma fork_take_result_ok:
  assumes "sides env fv pre st" "bufs_empty st" "both_flushed fv st" "fk_inp st = Some inp" "fuse_script inp = []"
    and "items = map Ok pre"
  obtains x st' where "fork_take_result st = Inr (x, st')" "fork_result env fv items (Ok x) st'"
proof -
  obtain o1 o2 where o: "out_out (fk_out1 st) = Some o1" "out_out (fk_out2 st) = Some o2"
    using sides_outs [OF assms(1)] by auto
  let ?st = "st\<lparr>fk_inp := None, fk_out1 := (fk_out1 st)\<lparr>out_out := None\<rparr>, fk_out2 := (fk_out2 st)\<lparr>out_out := None\<rparr>\<rparr>"
  have "fork_take_result st = Inr (([], o1, o2), ?st)"
    using assms(4,5) o by (simp add: fork_take_result_def out_take_result_def)
  moreover have "fork_result env fv items (Ok ([], o1, o2)) ?st"
    using assms o by (auto simp: fork_result_def sides_def delivered_def bufs_empty_def both_flushed_def out_flushed_def)
  ultimately show ?thesis by (rule that)
qed

lemma fork_end_ok:
  assumes st: "sides env fv pre st" "bufs_empty st" "fk_inp st = Some inp" "fuse_ok inp" "fk_finished st = None"
    and outcome: "(outcome = Ok () \<and> items = map Ok pre \<and> fuse_script inp = []) \<or>
      (\<exists>ie. outcome = Err (fe_from_in env ie) \<and> items = map Ok pre @ Err ie # script_items (fuse_script inp))"
    and n: "fork_patience fv st + length (fuse_script inp) \<le> n"
  shows "fork_good env fv items n (fork_end env outcome st)"
proof (rule poll_complete_both_cases [OF st(1,2)])
  fix e st' assume "poll_complete_both env st = Inr (Err (fe_from_sink env e), st')"
  then show ?thesis by (auto simp: fork_end_def fork_good_def fork_result_def)
next
  fix st' assume p: "poll_complete_both env st = Inr (Ok Poll_Pending, st')" "sides env fv pre st'" "bufs_empty st'"
    "fk_inp st' = fk_inp st" "fk_finished st' = fk_finished st" "fork_patience fv st' < fork_patience fv st"
  let ?st = "st'\<lparr>fk_finished := Some outcome\<rparr>"
  have "fork_inv env fv items ?st (fork_patience fv st' + length (fuse_script inp))"
    unfolding fork_inv_def
    by (rule exI [of _ inp], rule exI [of _ pre])
      (use p(2,3,4) st(3,4) outcome in auto)
  moreover have "fork_patience fv st' + length (fuse_script inp) < n" using p(6) n by simp
  ultimately show ?thesis using p(1) by (auto simp: fork_end_def fork_good_def)
next
  fix st' assume r: "poll_complete_both env st = Inr (Ok (Poll_Ready ()), st')" "sides env fv pre st'" "bufs_empty st'"
    "fk_inp st' = fk_inp st" "fk_finished st' = fk_finished st" "both_flushed fv st'"
  show ?thesis
  proof (cases outcome)
    case (Ok u)
    then have "items = map result.Ok pre" "fuse_script inp = []" using outcome by auto
    moreover have "fk_inp st' = Some inp" using r(4) st(3) by simp
    ultimately obtain x st'' where
      "fork_take_result st' = Inr (x, st'')" "fork_result env fv items (result.Ok x) st''"
      using fork_take_result_ok [OF r(2,3,6)] by metis
    with r(1) Ok show ?thesis by (simp add: fork_end_def fork_good_def)
  next
    case (Err e)
    with outcome obtain ie where "items = map result.Ok pre @ result.Err ie # script_items (fuse_script inp)" "e = fe_from_in env ie"
      by auto
    with r(2,3,6) have "\<exists>pre ie post. items = map result.Ok pre @ result.Err ie # post \<and> e = fe_from_in env ie \<and>
        sides env fv pre st' \<and> bufs_empty st' \<and> both_flushed fv st'" by blast
    then have "fork_result env fv items (result.Err e) st'" by (simp add: fork_result_def)
    with r(1) Err show ?thesis by (simp add: fork_end_def fork_good_def)
  qed
qed

lemma fork_flush_ok:
  assumes st: "sides env fv pre st" "fk_inp st = Some inp" "fuse_ok inp" "fk_finished st = None"
    and items: "items = map Ok pre @ script_items (fuse_script inp)"
    and n: "fork_patience fv st + length (fuse_script inp) < n"
  shows "fork_good env fv items n (fork_flush env st)"
proof -
  have laws: "sink_laws (fe_out1 env) (fv_view1 fv)" "sink_laws (fe_out2 env) (fv_view2 fv)" using st by (simp_all add: sides_def)
  note c1 = out_poll_complete_ok [OF laws(1) sides_outs(1) [OF st(1)]]
    and c2 = out_poll_complete_ok [OF laws(2) sides_outs(2) [OF st(1)]]
  obtain r1 out1 where r1: "out_poll_complete (fe_out1 env) (fk_out1 st) = Inr (r1, out1)"
    using c1 by (auto simp: op_ok_def split: sum.splits)
  obtain r2 out2 where r2: "out_poll_complete (fe_out2 env) (fk_out2 st) = Inr (r2, out2)"
    using c2 by (auto simp: op_ok_def split: sum.splits)
  show ?thesis
  proof (cases "is_ok r1 \<and> is_ok r2")
    case True
    then obtain p1 p2 where p: "r1 = Ok p1" "r2 = Ok p2" by (cases r1; cases r2) simp_all
    let ?st = "st\<lparr>fk_out1 := out1, fk_out2 := out2\<rparr>"
    have a: "answers (fv_view1 fv) (delivered (fv_view1 fv) (fk_out1 st)) (fk_out1 st) p1 out1"
      "answers (fv_view2 fv) (delivered (fv_view2 fv) (fk_out2 st)) (fk_out2 st) p2 out2"
      using c1 c2 r1 r2 p by (simp_all add: op_ok_def)
    have "sides env fv pre ?st" using st(1) a by (simp add: sides_def answers_def)
    moreover have "fork_patience fv ?st \<le> fork_patience fv st"
      using a by (auto simp: answers_def fork_patience_def split: poll.splits)
    ultimately have "fork_inv env fv items ?st (fork_patience fv ?st + length (fuse_script inp)) \<and>
        fork_patience fv ?st + length (fuse_script inp) < n"
      using st items n by (auto simp: fork_inv_def)
    with r1 r2 p show ?thesis by (auto simp: fork_flush_def fork_good_def Let_def)
  next
    case False
    with r1 r2 show ?thesis
      by (cases r1; cases r2) (auto simp: fork_flush_def fork_good_def fork_result_def Let_def)
  qed
qed

lemma fork_send_ok:
  fixes st :: "('i, 'ie, 'o1, 'o2, 'e) forker"
  assumes st: "sides env fv pre st" "bufs_empty st" and i: "fe_pred env i = Ok second"
  obtains (error) e st' where "fork_send env second i st = Inr (Err e, st')"
  | (pending) st' where "fork_send env second i st = Inr (Ok Poll_Pending, st')" "sides env fv (pre @ [i]) st'"
      "fork_patience fv st' < fork_patience fv st"
  | (ready) st' where "fork_send env second i st = Inr (Ok (Poll_Ready ()), st')" "sides env fv (pre @ [i]) st'" "bufs_empty st'"
      "fork_patience fv st' \<le> fork_patience fv st"
proof -
  have laws: "sink_laws (fe_out1 env) (fv_view1 fv)" "sink_laws (fe_out2 env) (fv_view2 fv)" using st by (simp_all add: sides_def)
  have route: "routed env b (pre @ [i]) = routed env b pre @ (if b = second then [i] else [])" for b
    using i by (simp add: routed_def)
  show ?thesis
  proof (cases second)
    case True
    have "op_ok (fv_view2 fv) (delivered (fv_view2 fv) (fk_out2 st) @ [i]) (fk_out2 st) (\<lambda>out'. out_buf out' = None)
        (try_start_send (fe_out2 env) i (fk_out2 st))"
      by (rule try_start_send_ok [OF laws(2)]) (use st in \<open>simp_all add: sides_def bufs_empty_def\<close>)
    then show ?thesis
      using True st route i error pending ready
      by (auto simp: op_ok_def fork_send_def sides_def bufs_empty_def answers_def fork_patience_def
          split: sum.splits prod.splits result.splits poll.splits)
  next
    case False
    have "op_ok (fv_view1 fv) (delivered (fv_view1 fv) (fk_out1 st) @ [i]) (fk_out1 st) (\<lambda>out'. out_buf out' = None)
        (try_start_send (fe_out1 env) i (fk_out1 st))"
      by (rule try_start_send_ok [OF laws(1)]) (use st in \<open>simp_all add: sides_def bufs_empty_def\<close>)
    then show ?thesis
      using False st route i error pending ready
      by (auto simp: op_ok_def fork_send_def sides_def bufs_empty_def answers_def fork_patience_def
          split: sum.splits prod.splits result.splits poll.splits)
  qed
qed

lemma fork_loop_ok:
  assumes "sides env fv pre st" "bufs_empty st" "fk_inp st = Some inp" "fuse_ok inp" "fk_finished st = None"
    and "items = map Ok pre @ script_items (fuse_script inp)"
    and "fork_patience fv st + length (fuse_script inp) \<le> n"
  shows "fork_good env fv items n (fork_loop env st)"
  using assms
proof (induction "fuse_script inp" arbitrary: st inp pre)
  case Nil
  let ?inp = "if fuse_done inp then inp else inp\<lparr>fuse_script := [], fuse_done := True\<rparr>"
  have "fuse01_poll inp = (Ok (Poll_Ready None), ?inp)" "fuse_script ?inp = []" "fuse_ok ?inp"
    using Nil by (simp_all add: fuse01_poll_def script_poll_def fuse_ok_def)
  then obtain inp' where p: "fuse01_poll inp = (Ok (Poll_Ready None), inp')" "fuse_script inp' = []" "fuse_ok inp'" by blast
  have "fork_good env fv items n (fork_end env (Ok ()) (st\<lparr>fk_inp := Some inp'\<rparr>))"
    by (rule fork_end_ok [of _ _ pre _ inp']) (use Nil p in simp_all)
  with Nil.prems(3) p(1) show ?case by (subst fork_loop.simps) simp
next
  case (Cons a s)
  note s = Cons.hyps(2) [symmetric]
  have not_done: "\<not> fuse_done inp" using Cons.prems(4) s by (simp add: fuse_ok_def)
  let ?inp = "inp\<lparr>fuse_script := s\<rparr>"
  let ?st = "st\<lparr>fk_inp := Some ?inp\<rparr>"
  have ok: "fuse_ok ?inp" using not_done by (simp add: fuse_ok_def)
  consider "a = None" | e where "a = Some (Err e)" | i where "a = Some (Ok i)" by (metis option.exhaust result.exhaust)
  then show ?case
  proof cases
    case 1
    then have "fork_loop env st = fork_flush env ?st"
      using Cons.prems(3) s not_done by (subst fork_loop.simps) (simp add: fuse01_poll_def script_poll_def)
    moreover have "fork_good env fv items n (fork_flush env ?st)"
      by (rule fork_flush_ok [of _ _ pre _ ?inp]) (use Cons.prems s 1 ok in simp_all)
    ultimately show ?thesis by simp
  next
    case (2 e)
    then have "fork_loop env st = fork_end env (Err (fe_from_in env e)) ?st"
      using Cons.prems(3) s not_done by (subst fork_loop.simps) (simp add: fuse01_poll_def script_poll_def)
    moreover have "fork_good env fv items n (fork_end env (Err (fe_from_in env e)) ?st)"
      by (rule fork_end_ok [of _ _ pre _ ?inp]) (use Cons.prems s 2 ok in simp_all)
    ultimately show ?thesis by simp
  next
    case (3 i)
    then have loop: "fork_loop env st =
        (case fe_pred env i of
           Err e \<Rightarrow> Inr (Err e, ?st)
         | Ok second \<Rightarrow>
             (case fork_send env second i ?st of
                Inl p \<Rightarrow> Inl p
              | Inr (Err e, st) \<Rightarrow> Inr (Err (fe_from_sink env e), st)
              | Inr (Ok Poll_Pending, st) \<Rightarrow> Inr (Ok Poll_Pending, st)
              | Inr (Ok (Poll_Ready _), st) \<Rightarrow> fork_loop env st))"
      using Cons.prems(3) s not_done by (subst fork_loop.simps) (simp add: fuse01_poll_def script_poll_def Let_def)
    have items: "items = map Ok pre @ Ok i # script_items s" using Cons.prems(6) s 3 by simp
    show ?thesis
    proof (cases "fe_pred env i")
      case (Err e)
      have "\<exists>pre i post. items = map Ok pre @ Ok i # post \<and> fe_pred env i = result.Err e" using items Err by blast
      with loop Err show ?thesis by (simp add: fork_good_def fork_result_def)
    next
      case (Ok second)
      have ready_to_send: "sides env fv pre ?st" "bufs_empty ?st" using Cons.prems(1,2) by simp_all
      show ?thesis
      proof (cases rule: fork_send_ok [OF ready_to_send Ok, case_names error pending ready])
        case (error e st')
        with loop Ok show ?thesis by (auto simp: fork_good_def fork_result_def)
      next
        case (pending st')
        note kept = fork_send_inp [OF pending(1)]
        have "fork_inv env fv items st' (fork_patience fv st' + length s) \<and> fork_patience fv st' + length s < n"
          using pending kept Cons.prems(5,7) s ok items
          by (auto simp: fork_inv_def intro!: exI [of _ "pre @ [i]"])
        with loop Ok pending(1) show ?thesis by (auto simp: fork_good_def)
      next
        case (ready st')
        note kept = fork_send_inp [OF ready(1)]
        have "fork_good env fv items n (fork_loop env st')"
          by (rule Cons.hyps(1) [of ?inp "pre @ [i]"]) (use ready kept Cons.prems(5,7) s ok items in simp_all)
        with loop Ok ready(1) show ?thesis by simp
      qed
    qed
  qed
qed

lemma fork_poll_ok:
  assumes "fork_inv env fv items st n"
  shows "fork_good env fv items n (fork_poll env st)"
proof -
  obtain inp pre where st: "fk_inp st = Some inp" "fuse_ok inp" "sides env fv pre st"
    and n: "n = fork_patience fv st + length (fuse_script inp)"
    and fin: "case fk_finished st of
           None \<Rightarrow> items = map Ok pre @ script_items (fuse_script inp)
         | Some (Ok _) \<Rightarrow> items = map Ok pre \<and> fuse_script inp = [] \<and> bufs_empty st
         | Some (Err e) \<Rightarrow> (\<exists>ie. items = map Ok pre @ Err ie # script_items (fuse_script inp) \<and> e = fe_from_in env ie) \<and> bufs_empty st"
    using assms by (auto simp: fork_inv_def)
  show ?thesis
  proof (cases "fk_finished st")
    case None
    show ?thesis
    proof (cases rule: push_both_cases [OF st(3), case_names error pending ready])
      case (error e st')
      with None show ?thesis by (auto simp: fork_poll_def fork_good_def fork_result_def)
    next
      case (pending st')
      have "fork_inv env fv items st' (fork_patience fv st' + length (fuse_script inp))"
        using pending st None fin by (auto simp: fork_inv_def)
      moreover have "fork_patience fv st' + length (fuse_script inp) < n" using pending(5) n by simp
      ultimately show ?thesis using pending(1) None by (auto simp: fork_poll_def fork_good_def)
    next
      case (ready st')
      have "fork_good env fv items n (fork_loop env st')"
        by (rule fork_loop_ok [of _ _ pre _ inp]) (use ready st None fin n in simp_all)
      with ready(1) None show ?thesis by (simp add: fork_poll_def)
    qed
  next
    case (Some outcome)
    then have bufs: "bufs_empty st" using fin by (auto split: result.splits)
    let ?start = "st\<lparr>fk_finished := None\<rparr>"
    have out: "(outcome = Ok () \<and> items = map Ok pre \<and> fuse_script inp = []) \<or>
        (\<exists>ie. outcome = Err (fe_from_in env ie) \<and> items = map Ok pre @ Err ie # script_items (fuse_script inp))"
      using fin Some by (cases outcome) auto
    show ?thesis
    proof (cases rule: poll_complete_both_cases [OF st(3) bufs, case_names error pending ready])
      case (error e st')
      with Some show ?thesis by (auto simp: fork_poll_def fork_good_def fork_result_def)
    next
      case (pending st')
      have "fork_inv env fv items st' (fork_patience fv st' + length (fuse_script inp))"
        unfolding fork_inv_def
        by (rule exI [of _ inp], rule exI [of _ pre]) (use pending st Some fin in \<open>auto split: result.splits\<close>)
      moreover have "fork_patience fv st' + length (fuse_script inp) < n" using pending(6) n by simp
      ultimately show ?thesis using pending(1) Some by (auto simp: fork_poll_def fork_good_def)
    next
      case (ready st')
      show ?thesis
      proof (cases outcome)
        case (Ok u)
        then have i: "items = map result.Ok pre" "fuse_script inp = []" using out by auto
        have "sides env fv pre (st'\<lparr>fk_finished := None\<rparr>)" "bufs_empty (st'\<lparr>fk_finished := None\<rparr>)"
          "both_flushed fv (st'\<lparr>fk_finished := None\<rparr>)" "fk_inp (st'\<lparr>fk_finished := None\<rparr>) = option.Some inp"
          using ready st(1) by simp_all
        from fork_take_result_ok [OF this i(2,1)] obtain x st'' where
          "fork_take_result (st'\<lparr>fk_finished := None\<rparr>) = Inr (x, st'')" "fork_result env fv items (result.Ok x) st''" by metis
        with ready(1) Some Ok show ?thesis by (simp add: fork_poll_def fork_good_def)
      next
        case (Err e)
        with out obtain ie where "items = map result.Ok pre @ result.Err ie # script_items (fuse_script inp)" "e = fe_from_in env ie"
          by auto
        with ready(2,3,6) have "\<exists>pre ie post. items = map result.Ok pre @ result.Err ie # post \<and> e = fe_from_in env ie \<and>
            sides env fv pre (st'\<lparr>fk_finished := None\<rparr>) \<and> bufs_empty (st'\<lparr>fk_finished := None\<rparr>) \<and> both_flushed fv (st'\<lparr>fk_finished := None\<rparr>)"
          unfolding sides_update by blast
        then have "fork_result env fv items (result.Err e) (st'\<lparr>fk_finished := None\<rparr>)" by (simp add: fork_result_def)
        with ready(1) Some Err show ?thesis by (simp add: fork_poll_def fork_good_def)
      qed
    qed
  qed
qed

text \<open>A poll as a turn of the future.\<close>

definition fork_step ::
  "('i, 'ie, 'o1, 'o2, 'se, 'e) fork_env \<Rightarrow> unit \<Rightarrow> ('i, 'ie, 'o1, 'o2, 'e) forker \<Rightarrow>
   (('i, 'ie, 'o1, 'o2, 'e) forker, (('i, 'ie, 'o1, 'o2, 'e) fork_item, 'e) result \<times> ('i, 'ie, 'o1, 'o2, 'e) forker) poll_step" where
  "fork_step env cx st =
     (case fork_poll env st of
        Inl p \<Rightarrow> Panicked p
      | Inr (Ok Poll_Pending, st') \<Rightarrow> Continue st'
      | Inr (Ok (Poll_Ready x), st') \<Rightarrow> Ready (Ok x, st')
      | Inr (Err e, st') \<Rightarrow> Ready (Err e, st'))"

interpretation fork: future_progress "fork_step env" "fork_inv env fv items" "\<lambda>(r, st). fork_result env fv items r st" "\<lambda>_. True" for env fv items
proof
  fix st n k
  assume "fork_inv env fv items st n"
  from fork_poll_ok [OF this]
  show "(\<exists>s' n'. fork_step env k st = Continue s' \<and> fork_inv env fv items s' n' \<and> n' + (if True then 1 else 0) \<le> n) \<or>
      (\<exists>r. fork_step env k st = Ready r \<and> (case r of (r, st) \<Rightarrow> fork_result env fv items r st))"
    by (auto simp: fork_good_def fork_step_def Suc_le_eq split: sum.splits prod.splits result.splits poll.splits)
qed

lemma streamfork_start:
  assumes "sink_laws (fe_out1 env) v1" "sink_laws (fe_out2 env) v2"
  shows "fork_inv env \<lparr>fv_view1 = v1, fv_view2 = v2, fv_start1 = got v1 o1, fv_start2 = got v2 o2\<rparr> (script_items s)
    (streamfork s o1 o2) (patience v1 o1 + patience v2 o2 + length s)"
  using assms by (auto simp: fork_inv_def streamfork_def sides_def out_new_def delivered_def routed_def fork_patience_def out_patience_def)

section \<open>Properties\<close>

text \<open>
  C24. A fork that is polled more often than its stream and its sinks can be unready returns, and does
  not panic.  When it returns the sinks, the stream had no error and the predicate failed for no item, each sink has
  got exactly its share of the items, in the order of the stream, and is flushed.  When it returns an error, that is
  an error of a sink, of the predicate, or the first error of the stream; in the last case the sinks have got and flushed
  their shares of all items before it.
\<close>

theorem streamfork_delivers:
  assumes "sink_laws (fe_out1 env) v1" "sink_laws (fe_out2 env) v2"
    and "patience v1 o1 + patience v2 o2 + length s < length cs"
  shows "\<exists>r st'. poll_loop (fork_step env) cs (streamfork s o1 o2) = Ready (r, st') \<and>
    (case r of
       Ok (inp, o1', o2') \<Rightarrow>
         (\<exists>items. script_items s = map Ok items \<and> inp = [] \<and> (\<forall>i \<in> set items. is_ok (fe_pred env i)) \<and>
            got v1 o1' = got v1 o1 @ filter (\<lambda>i. fe_pred env i = Ok False) items \<and> flushed v1 o1' \<and>
            got v2 o2' = got v2 o2 @ filter (\<lambda>i. fe_pred env i = Ok True) items \<and> flushed v2 o2')
     | Err e \<Rightarrow>
         (\<exists>se. e = fe_from_sink env se) \<or>
         (\<exists>items i post. script_items s = map Ok items @ Ok i # post \<and> fe_pred env i = Err e) \<or>
         (\<exists>items ie post o1' o2'. script_items s = map Ok items @ Err ie # post \<and> e = fe_from_in env ie \<and>
            out_out (fk_out1 st') = Some o1' \<and> got v1 o1' = got v1 o1 @ filter (\<lambda>i. fe_pred env i = Ok False) items \<and> flushed v1 o1' \<and>
            out_out (fk_out2 st') = Some o2' \<and> got v2 o2' = got v2 o2 @ filter (\<lambda>i. fe_pred env i = Ok True) items \<and> flushed v2 o2'))"
proof -
  let ?fv = "\<lparr>fv_view1 = v1, fv_view2 = v2, fv_start1 = got v1 o1, fv_start2 = got v2 o2\<rparr>"
  have "patience v1 o1 + patience v2 o2 + length s < length (filter (\<lambda>_. True) cs)" using assms(3) by simp
  from fork.run_returns [OF streamfork_start [OF assms(1,2), of o1 o2 s] this]
  obtain r st' where r: "poll_loop (fork_step env) cs (streamfork s o1 o2) = Ready (r, st')"
    and res: "fork_result env ?fv (script_items s) r st'" by auto
  show ?thesis
  proof (cases r)
    case (Ok x)
    with r res show ?thesis by (auto simp: fork_result_def routed_def)
  next
    case (Err e)
    have "\<exists>o1' o2'. out_out (fk_out1 st') = Some o1' \<and> got v1 o1' = got v1 o1 @ filter (\<lambda>i. fe_pred env i = Ok False) items \<and> flushed v1 o1' \<and>
        out_out (fk_out2 st') = Some o2' \<and> got v2 o2' = got v2 o2 @ filter (\<lambda>i. fe_pred env i = Ok True) items \<and> flushed v2 o2'"
      if "sides env ?fv items st'" "bufs_empty st'" "both_flushed ?fv st'" for items
      using that by (auto simp: sides_def bufs_empty_def both_flushed_def out_flushed_def delivered_def routed_def)
    with r res Err show ?thesis unfolding fork_result_def by (simp, blast)
  qed
qed

text \<open>The sink of the unit tests, which is unready for a number of times.\<close>

record delayed_sink =
  ds_inner :: "nat list"
  ds_buffer :: "nat list"
  ds_poll_complete_left :: nat

definition delayed_new :: "nat \<Rightarrow> delayed_sink" where
  "delayed_new left = \<lparr>ds_inner = [], ds_buffer = [], ds_poll_complete_left = left\<rparr>"

definition delayed_start_send :: "delayed_sink \<Rightarrow> nat \<Rightarrow> (nat async_sink, unit) result \<times> delayed_sink" where
  "delayed_start_send s it = (Ok Sink_Ready, s\<lparr>ds_buffer := ds_buffer s @ [it]\<rparr>)"

definition delayed_poll_complete :: "delayed_sink \<Rightarrow> (unit, unit) poll01 \<times> delayed_sink" where
  "delayed_poll_complete s =
     (case ds_buffer s of
        [] \<Rightarrow> (Ok (Poll_Ready ()), s)
      | val # buffer \<Rightarrow>
          if ds_poll_complete_left s = 0 then (Ok (Poll_Ready ()), s)
          else
            (Ok Poll_Pending,
             s\<lparr>ds_poll_complete_left := ds_poll_complete_left s - 1, ds_buffer := buffer, ds_inner := ds_inner s @ [val]\<rparr>))"

definition delayed_ops :: "(delayed_sink, nat, unit) sink_ops" where
  "delayed_ops = \<lparr>sk_start_send = delayed_start_send, sk_poll_complete = delayed_poll_complete\<rparr>"

definition delayed_view :: "(delayed_sink, nat) sink_view" where
  "delayed_view =
     \<lparr>got = (\<lambda>s. ds_inner s @ ds_buffer s), flushed = (\<lambda>s. ds_buffer s = [] \<or> ds_poll_complete_left s = 0),
      patience = ds_poll_complete_left\<rparr>"

lemma delayed_laws: "sink_laws delayed_ops delayed_view"
  by (auto simp: sink_laws_def delayed_ops_def delayed_view_def delayed_start_send_def delayed_poll_complete_def
      split: list.splits)

definition odd_even :: "(nat, string, delayed_sink, delayed_sink, unit, string) fork_env" where
  "odd_even = \<lparr>fe_pred = (\<lambda>n. Ok (n mod 2 = 1)), fe_out1 = delayed_ops, fe_out2 = delayed_ops, fe_from_in = (\<lambda>e. e), fe_from_sink = (\<lambda>_. ''sink'')\<rparr>"

theorem streamfork_delivers_witness:
  "\<exists>o1 o2 st. poll_loop (fork_step odd_even) (replicate 20 ())
       (streamfork [Some (Ok 0), None, Some (Ok 1), Some (Ok 2)] (delayed_new 5) (delayed_new 5)) = Ready (Ok ([], o1, o2), st) \<and>
     ds_inner o1 @ ds_buffer o1 = [0, 2] \<and> ds_inner o2 @ ds_buffer o2 = [1]"
proof -
  let ?s = "[Some (Ok 0), None, Some (Ok 1), Some (Ok 2)] :: (nat, string) script"
  let ?run = "poll_loop (fork_step odd_even) (replicate 20 ()) (streamfork ?s (delayed_new 5) (delayed_new 5))"
  have items: "script_items ?s = map Ok [0, 1, 2]" by simp
  have inj: "map Ok xs = map Ok ys \<longleftrightarrow> xs = ys" for xs ys :: "nat list" by (simp add: inj_map_eq_map inj_on_def)
  obtain x st where run: "?run = Ready (Ok x, st)"
  proof -
    have "case ?run of Ready (Ok x, st) \<Rightarrow> True | _ \<Rightarrow> False" by code_simp
    then show ?thesis using that by (auto split: poll_step.splits prod.splits result.splits)
  qed
  have "patience delayed_view (delayed_new 5) + patience delayed_view (delayed_new 5) + length ?s < length (replicate 20 ())"
    unfolding length_replicate by (simp add: delayed_view_def delayed_new_def)
  from streamfork_delivers [of odd_even delayed_view delayed_view, OF _ _ this] delayed_laws
  show ?thesis
    unfolding run items by (auto simp: odd_even_def inj delayed_view_def delayed_new_def)
qed

end
