(* ===== verification/Async_Once_Cell.thy ===== *)
theory Async_Once_Cell
  imports Rust_Prelude
begin

text \<open>
  \<open>AsyncOnceCell\<close> (\<open>shed/async_once_cell/src/lib.rs\<close>): a cell that concurrent tasks initialize
  at most once, with a flag that is read without the lock, an asynchronous mutex and a slot.

  The operations are interleaved step by step: each load and store of the flag, each access to the
  slot and each change of the mutex is a step of one task.  The mutex goes to any of the tasks that wait for
  it.  What the initializing future returns, and when, is decided by the surroundings, and a task
  can be dropped where it awaits.  The flag is stored with \<open>Release\<close> and loaded with \<open>Acquire\<close>, so that
  a task that sees it set sees the slot that was written before.
\<close>

section \<open>The cell and its tasks\<close>

datatype 't aoc_op = Op_Set 't | Op_Get | Op_Get_Or_Init | Op_Get_Or_Try_Init

datatype ('t, 'e) aoc_result = Set_Ok | Set_Err 't | Got 't | Init_Err 'e | Get_None

text \<open>Where a task is in its operation.\<close>

datatype ('t, 'e) aoc_pc =
    Start
  | Waiting
  | Locked
  | Running
  | Storing 't
  | Stored
  | Reading
  | Returned "('t, 'e) aoc_result"
  | Dropped
  | Panic_At string

record ('t, 'e) once_cell =
  cell_mutex :: "nat option"
  cell_is_initialized :: bool
  cell_value :: "'t option"
  cell_tasks :: "nat \<Rightarrow> ('t, 'e) aoc_pc"

definition aoc_new :: "('t, 'e) once_cell" where
  "aoc_new = \<lparr>cell_mutex = None, cell_is_initialized = False, cell_value = None, cell_tasks = (\<lambda>_. Start)\<rparr>"

definition aoc_new_with :: "'t \<Rightarrow> ('t, 'e) once_cell" where
  "aoc_new_with v = \<lparr>cell_mutex = None, cell_is_initialized = True, cell_value = Some v, cell_tasks = (\<lambda>_. Start)\<rparr>"

definition goto :: "nat \<Rightarrow> ('t, 'e) aoc_pc \<Rightarrow> ('t, 'e) once_cell \<Rightarrow> ('t, 'e) once_cell" where
  "goto t pc c = c\<lparr>cell_tasks := (cell_tasks c)(t := pc)\<rparr>"

text \<open>Returning or being dropped drops the guard of the mutex, if the task has it.\<close>

definition leave :: "nat \<Rightarrow> ('t, 'e) aoc_pc \<Rightarrow> ('t, 'e) once_cell \<Rightarrow> ('t, 'e) once_cell" where
  "leave t pc c = goto t pc (c\<lparr>cell_mutex := (if cell_mutex c = Some t then None else cell_mutex c)\<rparr>)"

section \<open>Steps\<close>

text \<open>The first look at the flag, before the lock.\<close>

definition aoc_start :: "'t aoc_op \<Rightarrow> nat \<Rightarrow> ('t, 'e) once_cell \<Rightarrow> ('t, 'e) once_cell" where
  "aoc_start op t c =
     (if cell_is_initialized c
      then (case op of Op_Set v \<Rightarrow> leave t (Returned (Set_Err v)) c | _ \<Rightarrow> goto t Reading c)
      else (case op of Op_Get \<Rightarrow> leave t (Returned Get_None) c | _ \<Rightarrow> goto t Waiting c))"

text \<open>The second look, with the lock; then \<open>set\<close> stores its value and the others call their function.\<close>

definition aoc_locked :: "'t aoc_op \<Rightarrow> nat \<Rightarrow> ('t, 'e) once_cell \<Rightarrow> ('t, 'e) once_cell" where
  "aoc_locked op t c =
     (if cell_is_initialized c
      then (case op of Op_Set v \<Rightarrow> leave t (Returned (Set_Err v)) c | _ \<Rightarrow> goto t Reading c)
      else (case op of Op_Set v \<Rightarrow> goto t (Storing v) c | _ \<Rightarrow> goto t Running c))"

definition aoc_store :: "'t \<Rightarrow> nat \<Rightarrow> ('t, 'e) once_cell \<Rightarrow> ('t, 'e) once_cell" where
  "aoc_store v t c =
     (if cell_value c \<noteq> None then goto t (Panic_At ''assertion failed: (*slot).is_none()'') c
      else goto t Stored (c\<lparr>cell_value := Some v\<rparr>))"

definition aoc_publish :: "'t aoc_op \<Rightarrow> nat \<Rightarrow> ('t, 'e) once_cell \<Rightarrow> ('t, 'e) once_cell" where
  "aoc_publish op t c =
     (let c = c\<lparr>cell_is_initialized := True\<rparr> in
      case op of Op_Set _ \<Rightarrow> leave t (Returned Set_Ok) c | _ \<Rightarrow> goto t Reading c)"

definition get_unchecked :: "nat \<Rightarrow> ('t, 'e) once_cell \<Rightarrow> ('t, 'e) once_cell" where
  "get_unchecked t c =
     (if \<not> cell_is_initialized c then goto t (Panic_At ''assertion failed: self.is_initialized()'') c
      else (case cell_value c of None \<Rightarrow> goto t (Panic_At ''should be initialized'') c | Some v \<Rightarrow> leave t (Returned (Got v)) c))"

text \<open>The surroundings let a task go on, let its future return, or drop it.\<close>

datatype ('t, 'e) aoc_event = Advance nat | Complete nat "('t, 'e) result" | Drop_Task nat

fun aoc_next :: "(nat \<Rightarrow> 't aoc_op) \<Rightarrow> ('t, 'e) aoc_event \<Rightarrow> ('t, 'e) once_cell \<Rightarrow> ('t, 'e) once_cell option" where
  "aoc_next ops (Advance t) c =
     (case cell_tasks c t of
        Start \<Rightarrow> Some (aoc_start (ops t) t c)
      | Waiting \<Rightarrow> if cell_mutex c = None then Some (goto t Locked (c\<lparr>cell_mutex := Some t\<rparr>)) else None
      | Locked \<Rightarrow> Some (aoc_locked (ops t) t c)
      | Storing v \<Rightarrow> Some (aoc_store v t c)
      | Stored \<Rightarrow> Some (aoc_publish (ops t) t c)
      | Reading \<Rightarrow> Some (get_unchecked t c)
      | _ \<Rightarrow> None)"
| "aoc_next ops (Complete t r) c =
     (case cell_tasks c t of
        Running \<Rightarrow>
          (case r of
             Ok v \<Rightarrow> Some (goto t (Storing v) c)
           | Err e \<Rightarrow> if ops t = Op_Get_Or_Try_Init then Some (leave t (Returned (Init_Err e)) c) else None)
      | _ \<Rightarrow> None)"
| "aoc_next ops (Drop_Task t) c =
     (if ops t \<noteq> Op_Get \<and> cell_tasks c t \<in> {Start, Waiting, Running} then Some (leave t Dropped c) else None)"

fun aoc_run :: "(nat \<Rightarrow> 't aoc_op) \<Rightarrow> ('t, 'e) aoc_event list \<Rightarrow> ('t, 'e) once_cell \<Rightarrow> ('t, 'e) once_cell option" where
  "aoc_run ops [] c = Some c"
| "aoc_run ops (ev # evs) c = Option.bind (aoc_next ops ev c) (aoc_run ops evs)"

inductive aoc_reach :: "(nat \<Rightarrow> 't aoc_op) \<Rightarrow> ('t, 'e) once_cell \<Rightarrow> ('t, 'e) once_cell \<Rightarrow> bool" for ops start where
  reach_start: "aoc_reach ops start start"
| reach_step: "aoc_reach ops start c \<Longrightarrow> aoc_next ops ev c = Some c' \<Longrightarrow> aoc_reach ops start c'"

lemma aoc_run_reach: "aoc_run ops evs c = Some c' \<Longrightarrow> aoc_reach ops start c \<Longrightarrow> aoc_reach ops start c'"
  by (induction evs arbitrary: c) (auto simp: bind_eq_Some_conv intro: reach_step)

section \<open>The invariant\<close>

text \<open>The cases of a step, by the task that makes it.\<close>

definition needs_lock :: "('t, 'e) aoc_pc \<Rightarrow> bool" where
  "needs_lock pc \<longleftrightarrow> (case pc of Locked \<Rightarrow> True | Running \<Rightarrow> True | Storing _ \<Rightarrow> True | Stored \<Rightarrow> True | _ \<Rightarrow> False)"

definition may_lock :: "('t, 'e) aoc_pc \<Rightarrow> bool" where
  "may_lock pc \<longleftrightarrow> needs_lock pc \<or> pc = Reading"

text \<open>What a task at a place knows of the cell.\<close>

definition pc_ok :: "'t aoc_op \<Rightarrow> ('t, 'e) once_cell \<Rightarrow> ('t, 'e) aoc_pc \<Rightarrow> bool" where
  "pc_ok op c pc \<longleftrightarrow>
     (case pc of
        Start \<Rightarrow> True
      | Waiting \<Rightarrow> op \<noteq> Op_Get
      | Locked \<Rightarrow> op \<noteq> Op_Get
      | Running \<Rightarrow> (op = Op_Get_Or_Init \<or> op = Op_Get_Or_Try_Init) \<and> \<not> cell_is_initialized c
      | Storing v \<Rightarrow> op \<noteq> Op_Get \<and> (\<forall>w. op = Op_Set w \<longrightarrow> v = w) \<and> \<not> cell_is_initialized c
      | Stored \<Rightarrow> (case cell_value c of None \<Rightarrow> False | Some v \<Rightarrow> op \<noteq> Op_Get \<and> (\<forall>w. op = Op_Set w \<longrightarrow> v = w)) \<and> \<not> cell_is_initialized c
      | Reading \<Rightarrow> cell_is_initialized c \<and> (\<forall>w. op \<noteq> Op_Set w)
      | Returned r \<Rightarrow>
          (case r of
             Set_Ok \<Rightarrow> cell_is_initialized c \<and> (\<exists>v. op = Op_Set v \<and> cell_value c = Some v)
           | Set_Err v \<Rightarrow> op = Op_Set v \<and> cell_is_initialized c
           | Got v \<Rightarrow> cell_is_initialized c \<and> cell_value c = Some v \<and> (\<forall>w. op \<noteq> Op_Set w)
           | Init_Err e \<Rightarrow> op = Op_Get_Or_Try_Init
           | Get_None \<Rightarrow> op = Op_Get)
      | Dropped \<Rightarrow> True
      | Panic_At _ \<Rightarrow> False)"

definition aoc_inv :: "(nat \<Rightarrow> 't aoc_op) \<Rightarrow> ('t, 'e) once_cell \<Rightarrow> bool" where
  "aoc_inv ops c \<longleftrightarrow>
     (\<forall>t. pc_ok (ops t) c (cell_tasks c t)) \<and>
     (\<forall>t. needs_lock (cell_tasks c t) \<longrightarrow> cell_mutex c = Some t) \<and>
     (\<forall>t. cell_mutex c = Some t \<longrightarrow> may_lock (cell_tasks c t)) \<and>
     (cell_is_initialized c \<longrightarrow> cell_value c \<noteq> None) \<and>
     (cell_value c \<noteq> None \<longrightarrow> \<not> cell_is_initialized c \<longrightarrow> (\<exists>t. cell_tasks c t = Stored))"

lemma pc_ok_mono:
  assumes "pc_ok op c pc" "cell_is_initialized c \<longrightarrow> cell_is_initialized c'"
    and "\<forall>v. cell_value c = Some v \<longrightarrow> cell_value c' = Some v"
    and "needs_lock pc \<longrightarrow> cell_is_initialized c' = cell_is_initialized c \<and> cell_value c' = cell_value c"
  shows "pc_ok op c' pc"
  using assms by (cases pc) (auto simp: pc_ok_def needs_lock_def split: aoc_result.splits option.splits)

text \<open>A step of the task \<open>t\<close> to the place \<open>pc\<close>; only the task that has the lock changes flag and slot.\<close>

lemma aoc_inv_step:
  assumes inv: "aoc_inv ops c"
    and tasks: "cell_tasks c' = (cell_tasks c)(t := pc)"
    and mutex: "cell_mutex c' = cell_mutex c \<or> cell_mutex c' = None \<and> cell_mutex c = Some t \<or> cell_mutex c' = Some t \<and> cell_mutex c = None"
    and lock: "needs_lock pc \<longrightarrow> cell_mutex c' = Some t" "cell_mutex c' = Some t \<longrightarrow> may_lock pc"
    and mono: "cell_is_initialized c \<longrightarrow> cell_is_initialized c'" "\<forall>v. cell_value c = Some v \<longrightarrow> cell_value c' = Some v"
    and holder: "cell_mutex c = Some t \<or> cell_is_initialized c' = cell_is_initialized c \<and> cell_value c' = cell_value c"
    and pc: "pc_ok (ops t) c' pc"
    and slot: "cell_is_initialized c' \<longrightarrow> cell_value c' \<noteq> None"
      "cell_value c' \<noteq> None \<longrightarrow> \<not> cell_is_initialized c' \<longrightarrow>
         pc = Stored \<or> (cell_value c' = cell_value c \<and> cell_is_initialized c' = cell_is_initialized c \<and> cell_tasks c t \<noteq> Stored)"
  shows "aoc_inv ops c'"
proof -
  have old: "\<forall>u. pc_ok (ops u) c (cell_tasks c u)" "\<forall>u. needs_lock (cell_tasks c u) \<longrightarrow> cell_mutex c = Some u"
    "\<forall>u. cell_mutex c = Some u \<longrightarrow> may_lock (cell_tasks c u)"
    "cell_value c \<noteq> None \<longrightarrow> \<not> cell_is_initialized c \<longrightarrow> (\<exists>u. cell_tasks c u = Stored)"
    using inv by (simp_all add: aoc_inv_def)
  have "pc_ok (ops u) c' (cell_tasks c' u)" for u
  proof (cases "u = t")
    case False
    have "pc_ok (ops u) c' (cell_tasks c u)"
      by (rule pc_ok_mono [OF old(1) [rule_format, of u] mono]) (use old(2) holder False in auto)
    with False tasks show ?thesis by simp
  qed (use pc tasks in simp)
  moreover have "cell_mutex c' = Some u" if "needs_lock (cell_tasks c' u)" for u
    using that old(2) tasks mutex lock(1) by (cases "u = t") auto
  moreover have "may_lock (cell_tasks c' u)" if "cell_mutex c' = Some u" for u
    using that old(3) tasks mutex lock(2) by (cases "u = t") auto
  moreover have "\<exists>u. cell_tasks c' u = Stored" if new: "cell_value c' \<noteq> None" "\<not> cell_is_initialized c'"
  proof (cases "pc = Stored")
    case True
    then show ?thesis using tasks by (intro exI [of _ t]) simp
  next
    case False
    with slot(2) new have same: "cell_value c' = cell_value c" "cell_is_initialized c' = cell_is_initialized c" "cell_tasks c t \<noteq> Stored" by auto
    with new old(4) obtain u where "cell_tasks c u = Stored" by auto
    with same(3) tasks show ?thesis by (intro exI [of _ u]) auto
  qed
  ultimately show ?thesis using slot(1) by (simp add: aoc_inv_def)
qed

lemma leave_simps [simp]:
  "cell_tasks (leave t pc c) = (cell_tasks c)(t := pc)" "cell_is_initialized (leave t pc c) = cell_is_initialized c"
  "cell_value (leave t pc c) = cell_value c" "cell_mutex (leave t pc c) = (if cell_mutex c = Some t then None else cell_mutex c)"
  by (simp_all add: leave_def goto_def)

lemma goto_simps [simp]:
  "cell_tasks (goto t pc c) = (cell_tasks c)(t := pc)" "cell_is_initialized (goto t pc c) = cell_is_initialized c"
  "cell_value (goto t pc c) = cell_value c" "cell_mutex (goto t pc c) = cell_mutex c"
  by (simp_all add: goto_def)

lemmas place_defs = needs_lock_def may_lock_def pc_ok_def

lemma aoc_invD:
  assumes "aoc_inv ops c"
  shows "pc_ok (ops t) c (cell_tasks c t)" "needs_lock (cell_tasks c t) \<Longrightarrow> cell_mutex c = Some t"
    "cell_mutex c = Some t \<Longrightarrow> may_lock (cell_tasks c t)" "cell_is_initialized c \<Longrightarrow> cell_value c \<noteq> None"
    "cell_value c \<noteq> None \<Longrightarrow> \<not> cell_is_initialized c \<Longrightarrow> \<exists>t. cell_tasks c t = Stored"
  using assms by (simp_all add: aoc_inv_def)

text \<open>A step that changes neither flag nor slot, to a place without the lock or keeping it.\<close>

lemma aoc_leave_inv:
  assumes "aoc_inv ops c" "cell_tasks c t \<noteq> Stored" "pc_ok (ops t) c pc" "\<not> needs_lock pc"
  shows "aoc_inv ops (leave t pc c)"
  by (rule aoc_inv_step [OF assms(1), of _ t pc])
    (use assms aoc_invD(4) [OF assms(1)] in \<open>auto intro: pc_ok_mono\<close>)

lemma aoc_goto_inv:
  assumes "aoc_inv ops c" "cell_tasks c t \<noteq> Stored" "pc_ok (ops t) c pc"
    and "needs_lock pc \<longrightarrow> cell_mutex c = Some t" "cell_mutex c = Some t \<longrightarrow> may_lock pc"
  shows "aoc_inv ops (goto t pc c)"
  by (rule aoc_inv_step [OF assms(1), of _ t pc])
    (use assms aoc_invD(4) [OF assms(1)] in \<open>auto intro: pc_ok_mono\<close>)

lemma aoc_advance_inv:
  assumes inv: "aoc_inv ops c" and step: "aoc_next ops (Advance t) c = Some c'"
  shows "aoc_inv ops c'"
proof (cases "cell_tasks c t")
  case Start
  have free: "cell_mutex c \<noteq> Some t" using aoc_invD(3) [OF inv, of t] Start by (auto simp: place_defs)
  have c': "c' = aoc_start (ops t) t c" using step Start by simp
  show ?thesis
    unfolding c' aoc_start_def
    by (cases "ops t") (auto simp: Start place_defs free intro!: aoc_leave_inv [OF inv] aoc_goto_inv [OF inv])
next
  case Waiting
  with step have m: "cell_mutex c = None" and c': "c' = goto t Locked (c\<lparr>cell_mutex := Some t\<rparr>)" by (auto split: if_splits)
  show ?thesis
    unfolding c'
    by (rule aoc_inv_step [OF inv, of _ t Locked])
      (use m Waiting aoc_invD(1) [OF inv, of t] aoc_invD(4) [OF inv] in \<open>auto simp: place_defs\<close>)
next
  case Locked
  have held: "cell_mutex c = Some t" using aoc_invD(2) [OF inv, of t] Locked by (simp add: place_defs)
  have op: "ops t \<noteq> Op_Get" using aoc_invD(1) [OF inv, of t] Locked by (simp add: place_defs)
  have c': "c' = aoc_locked (ops t) t c" using step Locked by simp
  show ?thesis
    unfolding c' aoc_locked_def
    using op by (cases "ops t") (auto simp: Locked place_defs held intro!: aoc_leave_inv [OF inv] aoc_goto_inv [OF inv])
next
  case (Storing v)
  have held: "cell_mutex c = Some t" using aoc_invD(2) [OF inv, of t] Storing by (simp add: place_defs)
  have pc: "pc_ok (ops t) c (aoc_pc.Storing v)" using aoc_invD(1) [OF inv, of t] Storing by simp
  have none: "cell_value c = None"
  proof (rule ccontr)
    assume "cell_value c \<noteq> None"
    moreover have "\<not> cell_is_initialized c" using pc by (simp add: place_defs)
    ultimately obtain u where "cell_tasks c u = Stored" using aoc_invD(5) [OF inv] by blast
    moreover from this have "cell_mutex c = Some u" using aoc_invD(2) [OF inv, of u] by (simp add: place_defs)
    ultimately show False using held Storing by simp
  qed
  have c': "c' = goto t Stored (c\<lparr>cell_value := Some v\<rparr>)" using step Storing none by (simp add: aoc_store_def)
  show ?thesis
    unfolding c'
    by (rule aoc_inv_step [OF inv, of _ t Stored]) (use held pc none in \<open>auto simp: place_defs\<close>)
next
  case Stored
  have held: "cell_mutex c = Some t" using aoc_invD(2) [OF inv, of t] Stored by (simp add: place_defs)
  obtain v where v: "cell_value c = Some v" "ops t \<noteq> Op_Get" "\<forall>w. ops t = Op_Set w \<longrightarrow> v = w"
    using aoc_invD(1) [OF inv, of t] Stored by (auto simp: place_defs split: option.splits)
  have c': "c' = aoc_publish (ops t) t c" using step Stored by simp
  show ?thesis
  proof (cases "ops t")
    case (Op_Set w)
    then have "c' = leave t (Returned Set_Ok) (c\<lparr>cell_is_initialized := True\<rparr>)" by (simp add: c' aoc_publish_def)
    then show ?thesis
      by (intro aoc_inv_step [OF inv, of _ t "Returned Set_Ok"]) (use held v Op_Set in \<open>auto simp: place_defs\<close>)
  qed (use v(2) c' held v(1) in \<open>auto simp: aoc_publish_def place_defs intro!: aoc_inv_step [OF inv, of _ t Reading]\<close>)
next
  case Reading
  have pc: "cell_is_initialized c" "\<forall>w. ops t \<noteq> Op_Set w" using aoc_invD(1) [OF inv, of t] Reading by (auto simp: place_defs)
  with aoc_invD(4) [OF inv] obtain v where v: "cell_value c = Some v" by auto
  have c': "c' = leave t (Returned (Got v)) c" using step Reading pc v by (simp add: get_unchecked_def)
  show ?thesis unfolding c' by (rule aoc_leave_inv [OF inv]) (use Reading pc v in \<open>simp_all add: place_defs\<close>)
qed (use step in simp_all)

lemma aoc_next_inv: "aoc_inv ops c \<Longrightarrow> aoc_next ops ev c = Some c' \<Longrightarrow> aoc_inv ops c'"
proof (cases ev)
  case (Complete t r)
  assume inv: "aoc_inv ops c" and step: "aoc_next ops ev c = Some c'"
  with Complete have run: "cell_tasks c t = Running" by (auto split: aoc_pc.splits)
  have held: "cell_mutex c = Some t" using aoc_invD(2) [OF inv, of t] run by (simp add: place_defs)
  have pc: "pc_ok (ops t) c Running" using aoc_invD(1) [OF inv, of t] run by simp
  show ?thesis
  proof (cases r)
    case (Ok v)
    then have c': "c' = goto t (Storing v) c" using step Complete run by simp
    show ?thesis unfolding c' by (rule aoc_goto_inv [OF inv]) (use run held pc in \<open>auto simp: place_defs\<close>)
  next
    case (Err e)
    then have op: "ops t = Op_Get_Or_Try_Init" and c': "c' = leave t (Returned (Init_Err e)) c"
      using step Complete run by (auto split: if_splits)
    show ?thesis unfolding c' by (rule aoc_leave_inv [OF inv]) (use run op in \<open>auto simp: place_defs\<close>)
  qed
next
  case (Drop_Task t)
  assume inv: "aoc_inv ops c" and step: "aoc_next ops ev c = Some c'"
  then have "cell_tasks c t \<noteq> Stored" and c': "c' = leave t Dropped c" using Drop_Task by (auto split: if_splits)
  then show ?thesis unfolding c' by (intro aoc_leave_inv [OF inv]) (simp_all add: place_defs)
qed (use aoc_advance_inv in blast)

lemma aoc_reach_inv:
  assumes "aoc_reach ops start c" "aoc_inv ops start"
  shows "aoc_inv ops c"
  using assms by (induction rule: aoc_reach.induct) (auto intro: aoc_next_inv)

lemma aoc_start_inv: "aoc_inv ops aoc_new" "aoc_inv ops (aoc_new_with v)"
  by (simp_all add: aoc_inv_def aoc_new_def aoc_new_with_def place_defs)

section \<open>One value, stored once\<close>

lemma aoc_next_mono:
  "aoc_next ops ev c = Some c' \<Longrightarrow> aoc_inv ops c \<Longrightarrow>
     (cell_is_initialized c \<longrightarrow> cell_is_initialized c') \<and> (\<forall>v. cell_value c = Some v \<longrightarrow> cell_value c' = Some v)"
  by (cases ev)
    (auto simp: aoc_start_def aoc_locked_def aoc_store_def aoc_publish_def get_unchecked_def Let_def
      split: aoc_pc.splits aoc_op.splits result.splits if_splits option.splits)

lemma aoc_run_mono:
  "aoc_run ops evs c = Some c' \<Longrightarrow> aoc_inv ops c \<Longrightarrow>
     aoc_inv ops c' \<and> (cell_is_initialized c \<longrightarrow> cell_is_initialized c') \<and> (\<forall>v. cell_value c = Some v \<longrightarrow> cell_value c' = Some v)"
proof (induction evs arbitrary: c)
  case (Cons ev evs)
  then obtain d where d: "aoc_next ops ev c = Some d" "aoc_run ops evs d = Some c'" by (auto simp: bind_eq_Some_conv)
  from Cons.IH [OF d(2) aoc_next_inv [OF Cons.prems(2) d(1)]] aoc_next_mono [OF d(1) Cons.prems(2)] show ?case by blast
qed simp

definition setter :: "('t, 'e) once_cell \<Rightarrow> nat \<Rightarrow> bool" where
  "setter c t \<longleftrightarrow> cell_tasks c t = Stored \<or> cell_tasks c t = Returned Set_Ok"

lemma setter_value: "aoc_inv ops c \<Longrightarrow> setter c t \<Longrightarrow> cell_value c \<noteq> None"
  using aoc_invD(1) [of ops c t] by (auto simp: setter_def pc_ok_def split: option.splits)

text \<open>A task becomes a setter only by storing into the empty slot.\<close>

lemma new_setter:
  "aoc_next ops ev c = Some c' \<Longrightarrow> setter c' t \<Longrightarrow> setter c t \<or> cell_value c = None"
  by (cases ev)
    (auto simp: setter_def aoc_start_def aoc_locked_def aoc_store_def aoc_publish_def get_unchecked_def Let_def
      split: aoc_pc.splits aoc_op.splits result.splits if_splits option.splits)

lemma one_new_setter:
  "aoc_next ops ev c = Some c' \<Longrightarrow> setter c' t \<Longrightarrow> setter c' u \<Longrightarrow> \<not> setter c t \<Longrightarrow> \<not> setter c u \<Longrightarrow> t = u"
  by (cases ev)
    (auto simp: setter_def aoc_start_def aoc_locked_def aoc_store_def aoc_publish_def get_unchecked_def Let_def
      split: aoc_pc.splits aoc_op.splits result.splits if_splits option.splits)

lemma one_setter:
  assumes "aoc_reach ops aoc_new c" "setter c t" "setter c u"
  shows "t = u"
  using assms
proof (induction arbitrary: t u rule: aoc_reach.induct)
  case reach_start
  then show ?case by (simp add: setter_def aoc_new_def)
next
  case (reach_step c ev c')
  have inv: "aoc_inv ops c" by (rule aoc_reach_inv [OF reach_step.hyps(1) aoc_start_inv(1)])
  have earlier: "setter c x \<or> cell_value c = None" if "setter c' x" for x by (rule new_setter [OF reach_step.hyps(2) that])
  show ?case
  proof (cases "setter c t \<or> setter c u")
    case True
    then have "cell_value c \<noteq> None" using setter_value [OF inv] by blast
    then have "setter c t" "setter c u" using earlier [OF reach_step.prems(1)] earlier [OF reach_step.prems(2)] by auto
    then show ?thesis by (rule reach_step.IH)
  qed (use one_new_setter [OF reach_step.hyps(2) reach_step.prems] in blast)
qed

section \<open>Progress\<close>

definition rank :: "('t, 'e) aoc_pc \<Rightarrow> nat" where
  "rank pc = (case pc of Start \<Rightarrow> 7 | Waiting \<Rightarrow> 6 | Locked \<Rightarrow> 5 | Running \<Rightarrow> 4 | Storing _ \<Rightarrow> 3 | Stored \<Rightarrow> 2 | Reading \<Rightarrow> 1 | _ \<Rightarrow> 0)"

fun ev_task :: "('t, 'e) aoc_event \<Rightarrow> nat" where
  "ev_task (Advance t) = t"
| "ev_task (Complete t r) = t"
| "ev_task (Drop_Task t) = t"

lemma aoc_next_rank:
  assumes "aoc_next ops ev c = Some c'"
  shows "(\<forall>u. u \<noteq> ev_task ev \<longrightarrow> cell_tasks c' u = cell_tasks c u) \<and>
    rank (cell_tasks c' (ev_task ev)) < rank (cell_tasks c (ev_task ev))"
proof (cases ev)
  case (Advance t)
  show ?thesis
  proof (cases "cell_tasks c t")
    case Start
    with assms Advance show ?thesis by (cases "ops t") (auto simp: aoc_start_def rank_def)
  next
    case Locked
    with assms Advance show ?thesis by (cases "ops t") (auto simp: aoc_locked_def rank_def)
  next
    case Stored
    with assms Advance show ?thesis by (cases "ops t") (auto simp: aoc_publish_def rank_def)
  next
    case Reading
    with assms Advance show ?thesis by (cases "cell_value c") (auto simp: get_unchecked_def rank_def)
  qed (use assms Advance in \<open>auto simp: aoc_store_def rank_def split: if_splits\<close>)
next
  case (Complete t r)
  with assms show ?thesis by (cases r; cases "cell_tasks c t") (auto simp: rank_def split: if_splits)
next
  case (Drop_Task t)
  with assms show ?thesis by (auto simp: rank_def split: if_splits)
qed

lemma rank_sum_less:
  fixes t n :: nat
  assumes "t < n" "rank (g t) < rank (f t)" "\<forall>u. u \<noteq> t \<longrightarrow> g u = f u"
  shows "(\<Sum>u<n. rank (g u)) < (\<Sum>u<n. rank (f u))"
proof (rule sum_strict_mono_ex1)
  show "\<forall>u \<in> {..<n}. rank (g u) \<le> rank (f u)" using assms(2,3) by (metis less_imp_le order_refl)
  show "\<exists>u \<in> {..<n}. rank (g u) < rank (f u)" using assms(1,2) by blast
qed simp

lemma aoc_run_length:
  "aoc_run ops evs c = Some c' \<Longrightarrow> \<forall>ev \<in> set evs. ev_task ev < n \<Longrightarrow>
     length evs + (\<Sum>t<n. rank (cell_tasks c' t)) \<le> (\<Sum>t<n. rank (cell_tasks c t)) \<and>
     (\<forall>t\<ge>n. cell_tasks c' t = cell_tasks c t)"
proof (induction evs arbitrary: c)
  case (Cons ev evs)
  then obtain d where d: "aoc_next ops ev c = Some d" "aoc_run ops evs d = Some c'" by (auto simp: bind_eq_Some_conv)
  note r = aoc_next_rank [OF d(1)]
  have "(\<Sum>t<n. rank (cell_tasks d t)) < (\<Sum>t<n. rank (cell_tasks c t))"
    by (rule rank_sum_less [of "ev_task ev"]) (use r Cons.prems(2) in simp_all)
  moreover have "\<forall>t\<ge>n. cell_tasks d t = cell_tasks c t" using r Cons.prems(2) by (metis list.set_intros(1) not_less)
  ultimately show ?case using Cons.IH [OF d(2)] Cons.prems(2) by auto
qed simp

lemma aoc_enabled:
  assumes "aoc_inv ops c" "\<forall>t\<ge>n. cell_tasks c t = Start" "\<forall>ev. ev_task ev < n \<longrightarrow> aoc_next ops ev c = None" "t < n"
  shows "(\<exists>r. cell_tasks c t = Returned r) \<or> cell_tasks c t = Dropped"
proof -
  have stuck: "cell_tasks c u = Waiting \<or> (\<exists>r. cell_tasks c u = Returned r) \<or> cell_tasks c u = Dropped" if "u < n" for u
  proof -
    have "aoc_next ops (Advance u) c = None" "aoc_next ops (Complete u (Ok undefined)) c = None"
      using assms(3) [rule_format, of "Advance u"] assms(3) [rule_format, of "Complete u (Ok undefined)"] that by simp_all
    moreover have "cell_tasks c u \<noteq> Panic_At m" for m using aoc_invD(1) [OF assms(1), of u] by (auto simp: pc_ok_def)
    ultimately show ?thesis by (cases "cell_tasks c u") auto
  qed
  have "cell_tasks c t \<noteq> Waiting"
  proof
    assume "cell_tasks c t = Waiting"
    with assms(3) [rule_format, of "Advance t"] assms(4) obtain u where m: "cell_mutex c = Some u" by (auto split: if_splits)
    then have may: "may_lock (cell_tasks c u)" using aoc_invD(3) [OF assms(1)] by simp
    show False
    proof (cases "u < n")
      case True
      with stuck [OF True] may show False by (auto simp: may_lock_def needs_lock_def)
    next
      case False
      with assms(2) may show False by (simp add: may_lock_def needs_lock_def)
    qed
  qed
  with stuck [OF assms(4)] show ?thesis by blast
qed

section \<open>Properties\<close>

text \<open>
  C25. However the tasks that use a cell are interleaved, dropped and let go on: nothing panics; at most one initializing
  future runs at a time; every reference that \<open>get\<close>, \<open>get_or_init\<close> or \<open>get_or_try_init\<close> has returned, and the value of a
  \<open>set\<close> that has succeeded, is the value of the cell now and at all later times; and at most one \<open>set\<close> succeeds.
\<close>

theorem once_cell_safe:
  assumes "aoc_run ops evs aoc_new = Some c" "aoc_run ops later c = Some c'"
  shows "(\<forall>t m. cell_tasks c t \<noteq> Panic_At m) \<and>
    (\<forall>t u. cell_tasks c t = Running \<and> cell_tasks c u = Running \<longrightarrow> t = u) \<and>
    (\<forall>t v. cell_tasks c t = Returned (Got v) \<or> cell_tasks c t = Returned Set_Ok \<and> ops t = Op_Set v \<longrightarrow>
       cell_is_initialized c' \<and> cell_value c' = Some v) \<and>
    (\<forall>t u. cell_tasks c t = Returned Set_Ok \<and> cell_tasks c u = Returned Set_Ok \<longrightarrow> t = u)"
proof -
  have reach: "aoc_reach ops aoc_new c" by (rule aoc_run_reach [OF assms(1) reach_start])
  have inv: "aoc_inv ops c" by (rule aoc_reach_inv [OF reach aoc_start_inv(1)])
  note later = aoc_run_mono [OF assms(2) inv]
  have "cell_tasks c t \<noteq> Panic_At m" for t m using aoc_invD(1) [OF inv, of t] by (auto simp: pc_ok_def)
  moreover have "t = u" if "cell_tasks c t = Running" "cell_tasks c u = Running" for t u
    using aoc_invD(2) [OF inv, of t] aoc_invD(2) [OF inv, of u] that by (simp add: needs_lock_def)
  moreover have "cell_is_initialized c' \<and> cell_value c' = Some v"
    if "cell_tasks c t = Returned (Got v) \<or> cell_tasks c t = Returned Set_Ok \<and> ops t = Op_Set v" for t v
    using aoc_invD(1) [OF inv, of t] that later by (auto simp: pc_ok_def)
  moreover have "t = u" if "cell_tasks c t = Returned Set_Ok" "cell_tasks c u = Returned Set_Ok" for t u
    using one_setter [OF reach, of t u] that by (simp add: setter_def)
  ultimately show ?thesis by blast
qed

definition sample_aoc_ops :: "nat \<Rightarrow> nat aoc_op" where
  "sample_aoc_ops t = (if t = 0 then Op_Get_Or_Init else if t = 1 then Op_Get_Or_Try_Init else Op_Set 9)"

definition sample_aoc_events :: "(nat, string) aoc_event list" where
  "sample_aoc_events =
     [Advance 0, Advance 1, Advance 2, Advance 1, Advance 1, Complete 1 (Err ''no''), Advance 0, Advance 0,
      Complete 0 (Ok 5), Advance 0, Advance 0, Advance 0, Advance 2, Advance 2]"

theorem once_cell_safe_witness:
  "\<exists>c. aoc_run sample_aoc_ops sample_aoc_events aoc_new = Some c \<and> cell_tasks c 0 = Returned (Got 5) \<and>
     cell_tasks c 1 = Returned (Init_Err ''no'') \<and> cell_tasks c 2 = Returned (Set_Err 9) \<and> cell_value c = Some 5"
proof -
  have r: "case aoc_run sample_aoc_ops sample_aoc_events aoc_new of None \<Rightarrow> False
      | Some c \<Rightarrow> cell_tasks c 0 = Returned (Got 5) \<and> cell_tasks c 1 = Returned (Init_Err ''no'') \<and> cell_tasks c 2 = Returned (Set_Err 9)"
    by code_simp
  then obtain c where c: "aoc_run sample_aoc_ops sample_aoc_events aoc_new = Some c" "cell_tasks c 0 = Returned (Got 5)"
    "cell_tasks c 1 = Returned (Init_Err ''no'')" "cell_tasks c 2 = Returned (Set_Err 9)" by (auto split: option.splits)
  have "cell_value c = Some 5" using once_cell_safe [OF c(1), of "[]" c] c(2) by simp
  with c show ?thesis by blast
qed



end
