(* ===== verification/Sqlite_Guard.thy ===== *)
theory Sqlite_Guard
  imports Rust_Prelude
begin

text \<open>
  The connection guard of \<open>sql/common/sqlite.rs\<close>.  One flag in the process, behind a mutex and a condition
  variable, admits one user of a SQLite connection at a time; each connection is kept in a slot, behind a mutex
  and a condition variable of its own.  A task acquires the guard of its connection, uses the connection and
  drops the guard; the places of a task are the points of \<open>SqliteConnectionGuard::new\<close> and of its \<open>drop\<close>
  between which other tasks may run.  Note that \<open>new\<close> keeps the mutex of the flag while it waits for
  its connection.  Whom a notification wakes is an argument of the step, and waiting tasks may also wake
  without one.
\<close>

section \<open>Tasks and locks\<close>

datatype 'd sq_pc =
    Arriving
  | Checking
  | Global_Waiting
  | Global_Woken
  | Inner_Locking
  | Inner_Checking
  | Inner_Waiting
  | Inner_Woken
  | Leaving 'd
  | Holding 'd
  | Dropping 'd
  | Unlocking 'd
  | Returning 'd
  | Inserting 'd
  | Inserted
  | Inner_Notified
  | Notified
  | Finished

record 'd sqlite =
  sq_lock :: "nat option"
  sq_allowed :: bool
  sq_inner :: "nat \<Rightarrow> nat option"
  sq_slot :: "nat \<Rightarrow> 'd option"
  sq_tasks :: "nat \<Rightarrow> 'd sq_pc"
  sq_count :: nat

definition sq_start :: "nat \<Rightarrow> (nat \<Rightarrow> 'd) \<Rightarrow> 'd sqlite" where
  "sq_start n dbs =
     \<lparr>sq_lock = None, sq_allowed = True, sq_inner = (\<lambda>_. None), sq_slot = (\<lambda>c. Some (dbs c)), sq_tasks = (\<lambda>_. Arriving),
      sq_count = n\<rparr>"

definition sq_goto :: "nat \<Rightarrow> 'd sq_pc \<Rightarrow> 'd sqlite \<Rightarrow> 'd sqlite" where
  "sq_goto t pc s = s\<lparr>sq_tasks := (sq_tasks s)(t := pc)\<rparr>"

text \<open>Locking the mutex of the flag or of a connection, going on at \<open>pc\<close>.\<close>

definition sq_lock_flag :: "nat \<Rightarrow> 'd sq_pc \<Rightarrow> 'd sqlite \<Rightarrow> 'd sqlite option" where
  "sq_lock_flag t pc s = (if sq_lock s = None then Some (sq_goto t pc (s\<lparr>sq_lock := Some t\<rparr>)) else None)"

definition sq_lock_inner :: "nat \<Rightarrow> nat \<Rightarrow> 'd sq_pc \<Rightarrow> 'd sqlite \<Rightarrow> 'd sqlite option" where
  "sq_lock_inner c t pc s =
     (if sq_inner s c = None then Some (sq_goto t pc (s\<lparr>sq_inner := (sq_inner s)(c := Some t)\<rparr>)) else None)"

text \<open>\<open>notify_one\<close> wakes one of the waiting tasks, if there is one.\<close>

definition sq_notify_one :: "(nat \<Rightarrow> bool) \<Rightarrow> 'd sq_pc \<Rightarrow> nat option \<Rightarrow> 'd sqlite \<Rightarrow> 'd sqlite option" where
  "sq_notify_one waits woken w s =
     (case w of
        None \<Rightarrow> if filter waits [0..<sq_count s] = [] then Some s else None
      | Some u \<Rightarrow> if u < sq_count s \<and> waits u then Some (sq_goto u woken s) else None)"

section \<open>Steps\<close>

text \<open>The first closure of \<open>new\<close>: who finds the flag set takes it, the others wait and let the mutex go.\<close>

definition sq_check_flag :: "nat \<Rightarrow> 'd sqlite \<Rightarrow> 'd sqlite" where
  "sq_check_flag t s =
     (if sq_allowed s then sq_goto t Inner_Locking (s\<lparr>sq_allowed := False\<rparr>)
      else sq_goto t Global_Waiting (s\<lparr>sq_lock := None\<rparr>))"

definition sq_check_slot :: "nat \<Rightarrow> nat \<Rightarrow> 'd sqlite \<Rightarrow> 'd sqlite" where
  "sq_check_slot c t s =
     (let s' = s\<lparr>sq_inner := (sq_inner s)(c := None)\<rparr> in
      case sq_slot s c of
        None \<Rightarrow> sq_goto t Inner_Waiting s'
      | Some d \<Rightarrow> sq_goto t (Leaving d) (s'\<lparr>sq_slot := (sq_slot s)(c := None)\<rparr>))"

text \<open>\<open>get_or_insert\<close> in \<open>drop\<close>.\<close>

definition sq_insert :: "nat \<Rightarrow> 'd \<Rightarrow> nat \<Rightarrow> 'd sqlite \<Rightarrow> 'd sqlite" where
  "sq_insert c d t s =
     sq_goto t Inserted (s\<lparr>sq_slot := (sq_slot s)(c := (case sq_slot s c of None \<Rightarrow> Some d | Some d' \<Rightarrow> Some d'))\<rparr>)"

definition sq_step :: "(nat \<Rightarrow> nat) \<Rightarrow> nat \<Rightarrow> nat option \<Rightarrow> 'd sqlite \<Rightarrow> 'd sqlite option" where
  "sq_step conn t w s =
     (case sq_tasks s t of
        Arriving \<Rightarrow> sq_lock_flag t Checking s
      | Checking \<Rightarrow> Some (sq_check_flag t s)
      | Global_Waiting \<Rightarrow> None
      | Global_Woken \<Rightarrow> sq_lock_flag t Checking s
      | Inner_Locking \<Rightarrow> sq_lock_inner (conn t) t Inner_Checking s
      | Inner_Checking \<Rightarrow> Some (sq_check_slot (conn t) t s)
      | Inner_Waiting \<Rightarrow> None
      | Inner_Woken \<Rightarrow> sq_lock_inner (conn t) t Inner_Checking s
      | Leaving d \<Rightarrow> Some (sq_goto t (Holding d) (s\<lparr>sq_lock := None\<rparr>))
      | Holding d \<Rightarrow> Some (sq_goto t (Dropping d) s)
      | Dropping d \<Rightarrow> sq_lock_flag t (Unlocking d) s
      | Unlocking d \<Rightarrow> Some (sq_goto t (Returning d) (s\<lparr>sq_allowed := True, sq_lock := None\<rparr>))
      | Returning d \<Rightarrow> sq_lock_inner (conn t) t (Inserting d) s
      | Inserting d \<Rightarrow> Some (sq_insert (conn t) d t s)
      | Inserted \<Rightarrow>
          map_option (sq_goto t Inner_Notified)
            (sq_notify_one (\<lambda>u. conn u = conn t \<and> sq_tasks s u = Inner_Waiting) Inner_Woken w s)
      | Inner_Notified \<Rightarrow>
          map_option (sq_goto t Notified) (sq_notify_one (\<lambda>u. sq_tasks s u = Global_Waiting) Global_Woken w s)
      | Notified \<Rightarrow> Some (sq_goto t Finished (s\<lparr>sq_inner := (sq_inner s)(conn t := None)\<rparr>))
      | Finished \<Rightarrow> None)"

text \<open>A task makes a step, uses the connection that it holds, or wakes by itself.\<close>

datatype 'd sq_event = Step nat "nat option" | Use nat 'd | Wake nat

fun sq_next :: "(nat \<Rightarrow> nat) \<Rightarrow> 'd sq_event \<Rightarrow> 'd sqlite \<Rightarrow> 'd sqlite option" where
  "sq_next conn (Step t w) s = (if t < sq_count s then sq_step conn t w s else None)"
| "sq_next conn (Use t d) s = (case sq_tasks s t of Holding _ \<Rightarrow> Some (sq_goto t (Holding d) s) | _ \<Rightarrow> None)"
| "sq_next conn (Wake t) s =
     (case sq_tasks s t of
        Global_Waiting \<Rightarrow> Some (sq_goto t Global_Woken s)
      | Inner_Waiting \<Rightarrow> Some (sq_goto t Inner_Woken s)
      | _ \<Rightarrow> None)"

fun sq_run :: "(nat \<Rightarrow> nat) \<Rightarrow> 'd sq_event list \<Rightarrow> 'd sqlite \<Rightarrow> 'd sqlite option" where
  "sq_run conn [] s = Some s"
| "sq_run conn (ev # evs) s = Option.bind (sq_next conn ev s) (sq_run conn evs)"

section \<open>The invariant\<close>

fun has_flag_lock :: "'d sq_pc \<Rightarrow> bool" where
  "has_flag_lock Checking = True"
| "has_flag_lock Inner_Locking = True"
| "has_flag_lock Inner_Checking = True"
| "has_flag_lock Inner_Waiting = True"
| "has_flag_lock Inner_Woken = True"
| "has_flag_lock (Leaving _) = True"
| "has_flag_lock (Unlocking _) = True"
| "has_flag_lock _ = False"

fun has_inner_lock :: "'d sq_pc \<Rightarrow> bool" where
  "has_inner_lock Inner_Checking = True"
| "has_inner_lock (Inserting _) = True"
| "has_inner_lock Inserted = True"
| "has_inner_lock Inner_Notified = True"
| "has_inner_lock Notified = True"
| "has_inner_lock _ = False"

text \<open>The task that has taken the flag and not set it again.\<close>

fun sq_admitted :: "'d sq_pc \<Rightarrow> bool" where
  "sq_admitted Inner_Locking = True"
| "sq_admitted Inner_Checking = True"
| "sq_admitted Inner_Waiting = True"
| "sq_admitted Inner_Woken = True"
| "sq_admitted (Leaving _) = True"
| "sq_admitted (Holding _) = True"
| "sq_admitted (Dropping _) = True"
| "sq_admitted (Unlocking _) = True"
| "sq_admitted _ = False"

text \<open>The connection that a task has taken out of its slot.\<close>

fun carried :: "'d sq_pc \<Rightarrow> 'd option" where
  "carried (Leaving d) = Some d"
| "carried (Holding d) = Some d"
| "carried (Dropping d) = Some d"
| "carried (Unlocking d) = Some d"
| "carried (Returning d) = Some d"
| "carried (Inserting d) = Some d"
| "carried _ = None"

text \<open>Tasks that will look at the flag or notify one that waits for it.\<close>

fun prompting :: "'d sq_pc \<Rightarrow> bool" where
  "prompting Checking = True"
| "prompting Global_Woken = True"
| "prompting (Returning _) = True"
| "prompting (Inserting _) = True"
| "prompting Inserted = True"
| "prompting Inner_Notified = True"
| "prompting _ = False"

definition sq_locks_ok :: "(nat \<Rightarrow> nat) \<Rightarrow> 'd sqlite \<Rightarrow> bool" where
  "sq_locks_ok conn s \<longleftrightarrow>
     (\<forall>t. has_flag_lock (sq_tasks s t) \<longleftrightarrow> sq_lock s = Some t) \<and>
     (\<forall>t c. (conn t = c \<and> has_inner_lock (sq_tasks s t)) \<longleftrightarrow> sq_inner s c = Some t)"

definition sq_flag_ok :: "'d sqlite \<Rightarrow> bool" where
  "sq_flag_ok s \<longleftrightarrow>
     (\<forall>t u. sq_admitted (sq_tasks s t) \<longrightarrow> sq_admitted (sq_tasks s u) \<longrightarrow> t = u) \<and>
     (sq_allowed s \<longleftrightarrow> (\<forall>t. \<not> sq_admitted (sq_tasks s t)))"

text \<open>\<open>final c\<close> is the state that the connection \<open>c\<close> was left in.\<close>

definition sq_slots_ok :: "(nat \<Rightarrow> nat) \<Rightarrow> (nat \<Rightarrow> 'd) \<Rightarrow> 'd sqlite \<Rightarrow> bool" where
  "sq_slots_ok conn final s \<longleftrightarrow>
     (\<forall>t. carried (sq_tasks s t) \<noteq> None \<longrightarrow> sq_slot s (conn t) = None \<and> carried (sq_tasks s t) = Some (final (conn t))) \<and>
     (\<forall>t u. carried (sq_tasks s t) \<noteq> None \<longrightarrow> carried (sq_tasks s u) \<noteq> None \<longrightarrow> conn t = conn u \<longrightarrow> t = u) \<and>
     (\<forall>c. sq_slot s c = None \<longrightarrow> (\<exists>t. conn t = c \<and> carried (sq_tasks s t) \<noteq> None)) \<and>
     (\<forall>c. sq_slot s c \<noteq> None \<longrightarrow> sq_slot s c = Some (final c))"

text \<open>No wake-up is lost.\<close>

definition sq_wakes_ok :: "(nat \<Rightarrow> nat) \<Rightarrow> 'd sqlite \<Rightarrow> bool" where
  "sq_wakes_ok conn s \<longleftrightarrow>
     (\<forall>t. sq_tasks s t = Inner_Waiting \<longrightarrow> sq_slot s (conn t) \<noteq> None \<longrightarrow> (\<exists>u. conn u = conn t \<and> sq_tasks s u = Inserted)) \<and>
     (\<forall>t. sq_tasks s t = Global_Waiting \<longrightarrow> sq_allowed s \<longrightarrow> (\<exists>u. prompting (sq_tasks s u))) \<and>
     (\<forall>t. \<not> t < sq_count s \<longrightarrow> sq_tasks s t = Arriving)"

definition sq_inv :: "(nat \<Rightarrow> nat) \<Rightarrow> (nat \<Rightarrow> 'd) \<Rightarrow> 'd sqlite \<Rightarrow> bool" where
  "sq_inv conn final s \<longleftrightarrow> sq_locks_ok conn s \<and> sq_flag_ok s \<and> sq_slots_ok conn final s \<and> sq_wakes_ok conn s"

lemma sq_start_inv: "sq_inv conn dbs (sq_start n dbs)"
  by (simp add: sq_inv_def sq_locks_ok_def sq_flag_ok_def sq_slots_ok_def sq_wakes_ok_def sq_start_def)

lemma sq_goto_simps [simp]:
  "sq_tasks (sq_goto t pc s) = (sq_tasks s)(t := pc)" "sq_lock (sq_goto t pc s) = sq_lock s" "sq_allowed (sq_goto t pc s) = sq_allowed s"
  "sq_inner (sq_goto t pc s) = sq_inner s" "sq_slot (sq_goto t pc s) = sq_slot s" "sq_count (sq_goto t pc s) = sq_count s"
  by (simp_all add: sq_goto_def)

lemmas sq_step_defs = sq_step_def sq_lock_flag_def sq_lock_inner_def sq_check_flag_def sq_check_slot_def sq_insert_def sq_notify_one_def Let_def


lemma sq_locks_move:
  assumes ok: "sq_locks_ok conn s" and tasks: "sq_tasks s' = (sq_tasks s)(t := pc)"
    and lock: "sq_lock s' = (if has_flag_lock pc then Some t else if has_flag_lock (sq_tasks s t) then None else sq_lock s)"
      "has_flag_lock pc \<longrightarrow> has_flag_lock (sq_tasks s t) \<or> sq_lock s = None"
    and inner: "sq_inner s' = (sq_inner s)(conn t :=
        if has_inner_lock pc then Some t else if has_inner_lock (sq_tasks s t) then None else sq_inner s (conn t))"
      "has_inner_lock pc \<longrightarrow> has_inner_lock (sq_tasks s t) \<or> sq_inner s (conn t) = None"
  shows "sq_locks_ok conn s'"
proof -
  have old: "has_flag_lock (sq_tasks s u) \<longleftrightarrow> sq_lock s = Some u"
    "(conn u = c \<and> has_inner_lock (sq_tasks s u)) \<longleftrightarrow> sq_inner s c = Some u" for u c
    using ok by (simp_all add: sq_locks_ok_def)
  have "has_flag_lock (sq_tasks s' u) \<longleftrightarrow> sq_lock s' = Some u" for u
    using old(1) [of u] old(1) [of t] lock tasks by (cases "u = t") auto
  moreover have "(conn u = c \<and> has_inner_lock (sq_tasks s' u)) \<longleftrightarrow> sq_inner s' c = Some u" for u c
    using old(2) [of u c] old(2) [of t "conn t"] inner tasks by (cases "u = t"; cases "c = conn t") auto
  ultimately show ?thesis by (simp add: sq_locks_ok_def)
qed

lemma sq_flag_move:
  assumes ok: "sq_flag_ok s" and tasks: "sq_tasks s' = (sq_tasks s)(t := pc)"
    and flag: "sq_allowed s' = (if sq_admitted pc then False else if sq_admitted (sq_tasks s t) then True else sq_allowed s)"
      "sq_admitted pc \<longrightarrow> sq_admitted (sq_tasks s t) \<or> sq_allowed s"
  shows "sq_flag_ok s'"
proof -
  have old: "sq_admitted (sq_tasks s u) \<Longrightarrow> sq_admitted (sq_tasks s v) \<Longrightarrow> u = v" "sq_allowed s \<longleftrightarrow> (\<forall>u. \<not> sq_admitted (sq_tasks s u))" for u v
    using ok by (simp_all add: sq_flag_ok_def)
  have new: "sq_admitted (sq_tasks s' u) \<longleftrightarrow> (if u = t then sq_admitted pc else sq_admitted (sq_tasks s u))" for u
    by (simp add: tasks)
  have "u = v" if "sq_admitted (sq_tasks s' u)" "sq_admitted (sq_tasks s' v)" for u v
    using that old flag(2) unfolding new by (metis (full_types))
  moreover have "sq_allowed s' \<longleftrightarrow> (\<forall>u. \<not> sq_admitted (sq_tasks s' u))"
    using old flag unfolding new by (metis (full_types))
  ultimately show ?thesis by (simp add: sq_flag_ok_def)
qed

lemma sq_slots_move:
  assumes ok: "sq_slots_ok conn final s" and tasks: "sq_tasks s' = (sq_tasks s)(t := pc)"
    and slot: "sq_slot s' = (sq_slot s)(conn t :=
        if carried pc \<noteq> None then None else if carried (sq_tasks s t) \<noteq> None then carried (sq_tasks s t) else sq_slot s (conn t))"
      "carried pc \<noteq> None \<longrightarrow> carried pc = (if carried (sq_tasks s t) \<noteq> None then carried (sq_tasks s t) else sq_slot s (conn t))"
  shows "sq_slots_ok conn final s'"
proof -
  have old: "carried (sq_tasks s u) \<noteq> None \<Longrightarrow> sq_slot s (conn u) = None \<and> carried (sq_tasks s u) = Some (final (conn u))"
    "carried (sq_tasks s u) \<noteq> None \<Longrightarrow> carried (sq_tasks s v) \<noteq> None \<Longrightarrow> conn u = conn v \<Longrightarrow> u = v"
    "sq_slot s c = None \<Longrightarrow> \<exists>u. conn u = c \<and> carried (sq_tasks s u) \<noteq> None"
    "sq_slot s c \<noteq> None \<Longrightarrow> sq_slot s c = Some (final c)" for u v c
    using ok unfolding sq_slots_ok_def by blast+
  have only: "carried (sq_tasks s u) = None" if "u \<noteq> t" "conn u = conn t" "carried pc \<noteq> None \<or> carried (sq_tasks s t) \<noteq> None" for u
    using that slot(2) old(1) [of u] old(2) [of u t] by (cases "carried (sq_tasks s u)") (auto split: if_splits)
  have "sq_slot s' (conn u) = None \<and> carried (sq_tasks s' u) = Some (final (conn u))" if "carried (sq_tasks s' u) \<noteq> None" for u
    using that only [of u] old(1) [of u] old(1) [of t] old(4) [of "conn t"] slot tasks by (cases "u = t"; cases "conn u = conn t") (auto split: if_splits)
  moreover have "u = v" if "carried (sq_tasks s' u) \<noteq> None" "carried (sq_tasks s' v) \<noteq> None" "conn u = conn v" for u v
    using that only [of u] only [of v] old(2) [of u v] tasks by (cases "u = t"; cases "v = t") auto
  moreover have "\<exists>u. conn u = c \<and> carried (sq_tasks s' u) \<noteq> None" if "sq_slot s' c = None" for c
  proof (cases "c = conn t \<and> carried pc \<noteq> None")
    case False
    then have "sq_slot s c = None" "c = conn t \<longrightarrow> carried (sq_tasks s t) = None" using that slot(1) by (auto split: if_splits)
    then show ?thesis using old(3) [of c] tasks by (metis fun_upd_apply)
  qed (use tasks in auto)
  moreover have "sq_slot s' c = Some (final c)" if "sq_slot s' c \<noteq> None" for c
    using that slot(1) old(1) [of t] old(4) [of c] by (auto split: if_splits)
  ultimately show ?thesis unfolding sq_slots_ok_def by blast
qed

lemma sq_wakes_move:
  assumes ok: "sq_wakes_ok conn s" and tasks: "sq_tasks s' = (sq_tasks s)(t := pc)"
    and count: "sq_count s' = sq_count s" "t < sq_count s"
    and slot: "\<And>c. sq_slot s' c \<noteq> None \<Longrightarrow> sq_slot s c \<noteq> None \<or> pc = Inserted \<and> c = conn t"
      "pc = Inner_Waiting \<Longrightarrow> sq_slot s' (conn t) = None"
      "sq_tasks s t = Inserted \<Longrightarrow> \<forall>u. conn u = conn t \<longrightarrow> sq_tasks s u \<noteq> Inner_Waiting"
    and flag: "sq_allowed s' \<Longrightarrow> sq_allowed s \<or> prompting pc"
      "pc = Global_Waiting \<Longrightarrow> \<not> sq_allowed s'"
      "prompting (sq_tasks s t) \<Longrightarrow> prompting pc \<or> \<not> sq_allowed s' \<or> (\<forall>u. sq_tasks s u \<noteq> Global_Waiting) \<or> (\<exists>u. u \<noteq> t \<and> prompting (sq_tasks s u))"
  shows "sq_wakes_ok conn s'"
proof -
  have old: "sq_tasks s u = Inner_Waiting \<Longrightarrow> sq_slot s (conn u) \<noteq> None \<Longrightarrow> \<exists>v. conn v = conn u \<and> sq_tasks s v = Inserted"
    "sq_tasks s u = Global_Waiting \<Longrightarrow> sq_allowed s \<Longrightarrow> \<exists>v. prompting (sq_tasks s v)"
    "\<not> u < sq_count s \<Longrightarrow> sq_tasks s u = Arriving" for u
    using ok unfolding sq_wakes_ok_def by blast+
  have "\<exists>v. conn v = conn u \<and> sq_tasks s' v = Inserted" if new: "sq_tasks s' u = Inner_Waiting" "sq_slot s' (conn u) \<noteq> None" for u
  proof -
    have u: "u \<noteq> t" "sq_tasks s u = Inner_Waiting" using new slot(2) tasks by (auto split: if_splits)
    show ?thesis
    proof (cases "pc = Inserted \<and> conn u = conn t")
      case False
      then obtain v where "conn v = conn u" "sq_tasks s v = Inserted" using slot(1) [OF new(2)] old(1) [OF u(2)] by blast
      moreover from this have "v \<noteq> t" using slot(3) u by auto
      ultimately show ?thesis using tasks by (metis fun_upd_apply)
    qed (use tasks in auto)
  qed
  moreover have "\<exists>v. prompting (sq_tasks s' v)" if new: "sq_tasks s' u = Global_Waiting" "sq_allowed s'" for u
  proof (cases "prompting pc")
    case False
    have "sq_tasks s u = Global_Waiting" "sq_allowed s" using new flag(1,2) False tasks by (auto split: if_splits)
    then obtain v where "prompting (sq_tasks s v)" "v \<noteq> t" using old(2) flag(3) False new(2) by metis
    then show ?thesis using tasks by (metis fun_upd_apply)
  qed (use tasks in \<open>metis fun_upd_same\<close>)
  moreover have "sq_tasks s' u = Arriving" if "\<not> u < sq_count s'" for u
    using that old(3) [of u] count tasks by auto
  ultimately show ?thesis unfolding sq_wakes_ok_def by blast
qed
lemma sq_move:
  assumes inv: "sq_inv conn final s" and t: "t < sq_count s"
    and tasks: "sq_tasks s' = (sq_tasks s)(t := pc)" and count: "sq_count s' = sq_count s"
    and lock: "sq_lock s' = (if has_flag_lock pc then Some t else if has_flag_lock (sq_tasks s t) then None else sq_lock s)"
      "has_flag_lock pc \<longrightarrow> has_flag_lock (sq_tasks s t) \<or> sq_lock s = None"
    and inner: "sq_inner s' = (sq_inner s)(conn t :=
        if has_inner_lock pc then Some t else if has_inner_lock (sq_tasks s t) then None else sq_inner s (conn t))"
      "has_inner_lock pc \<longrightarrow> has_inner_lock (sq_tasks s t) \<or> sq_inner s (conn t) = None"
    and flag: "sq_allowed s' = (if sq_admitted pc then False else if sq_admitted (sq_tasks s t) then True else sq_allowed s)"
      "sq_admitted pc \<longrightarrow> sq_admitted (sq_tasks s t) \<or> sq_allowed s"
    and slot: "sq_slot s' = (sq_slot s)(conn t :=
        if carried pc \<noteq> None then None else if carried (sq_tasks s t) \<noteq> None then carried (sq_tasks s t) else sq_slot s (conn t))"
      "carried pc \<noteq> None \<longrightarrow> carried pc = (if carried (sq_tasks s t) \<noteq> None then carried (sq_tasks s t) else sq_slot s (conn t))"
    and wakes: "carried (sq_tasks s t) \<noteq> None \<and> carried pc = None \<longrightarrow> pc = Inserted"
      "pc = Inner_Waiting \<longrightarrow> sq_slot s' (conn t) = None"
      "sq_tasks s t = Inserted \<longrightarrow> (\<forall>u. conn u = conn t \<longrightarrow> sq_tasks s u \<noteq> Inner_Waiting)"
      "sq_admitted (sq_tasks s t) \<and> \<not> sq_admitted pc \<longrightarrow> prompting pc"
      "pc = Global_Waiting \<longrightarrow> \<not> sq_allowed s'"
      "prompting (sq_tasks s t) \<longrightarrow>
         prompting pc \<or> \<not> sq_allowed s' \<or> (\<forall>u. sq_tasks s u \<noteq> Global_Waiting) \<or> (\<exists>u. u \<noteq> t \<and> prompting (sq_tasks s u))"
  shows "sq_inv conn final s'"
proof -
  note ok = inv [unfolded sq_inv_def]
  have "sq_locks_ok conn s'" by (rule sq_locks_move [where s = s and t = t and pc = pc and conn = conn, OF _ tasks lock inner]) (use ok in simp)
  moreover have "sq_flag_ok s'" by (rule sq_flag_move [where s = s and t = t and pc = pc, OF _ tasks flag]) (use ok in simp)
  moreover have "sq_slots_ok conn final s'" by (rule sq_slots_move [where s = s and t = t and pc = pc and conn = conn, OF _ tasks slot]) (use ok in simp)
  moreover have "sq_wakes_ok conn s'"
    by (rule sq_wakes_move [where s = s and t = t and pc = pc and conn = conn, OF _ tasks count t]) (use ok slot(1) flag(1) wakes in \<open>auto split: if_splits\<close>)
  ultimately show ?thesis by (simp add: sq_inv_def)
qed

lemma sq_notify_cases:
  assumes "sq_notify_one waits woken w s = Some s'"
  obtains "s' = s" "\<forall>u < sq_count s. \<not> waits u" | u where "u < sq_count s" "waits u" "s' = sq_goto u woken s"
  using assms by (auto simp: sq_notify_one_def filter_empty_conv split: option.splits if_splits)

lemma sq_locksD:
  assumes "sq_inv conn final s"
  shows "has_flag_lock (sq_tasks s t) \<longleftrightarrow> sq_lock s = Some t"
    and "(conn t = c \<and> has_inner_lock (sq_tasks s t)) \<longleftrightarrow> sq_inner s c = Some t"
  using assms by (simp_all add: sq_inv_def sq_locks_ok_def)

lemma sq_flagD:
  assumes "sq_inv conn final s"
  shows "sq_admitted (sq_tasks s t) \<Longrightarrow> sq_admitted (sq_tasks s u) \<Longrightarrow> t = u"
    and "sq_allowed s \<longleftrightarrow> (\<forall>t. \<not> sq_admitted (sq_tasks s t))"
  using assms by (simp_all add: sq_inv_def sq_flag_ok_def)

lemma sq_slotsD:
  assumes "sq_inv conn final s"
  shows "carried (sq_tasks s t) \<noteq> None \<Longrightarrow> sq_slot s (conn t) = None"
    and "carried (sq_tasks s t) \<noteq> None \<Longrightarrow> carried (sq_tasks s t) = Some (final (conn t))"
    and "carried (sq_tasks s t) \<noteq> None \<Longrightarrow> carried (sq_tasks s u) \<noteq> None \<Longrightarrow> conn t = conn u \<Longrightarrow> t = u"
    and "sq_slot s c = None \<Longrightarrow> \<exists>u. conn u = c \<and> carried (sq_tasks s u) \<noteq> None"
    and "sq_slot s c \<noteq> None \<Longrightarrow> sq_slot s c = Some (final c)"
proof -
  have ok: "sq_slots_ok conn final s" using assms by (simp add: sq_inv_def)
  show "carried (sq_tasks s t) \<noteq> None \<Longrightarrow> sq_slot s (conn t) = None"
    "carried (sq_tasks s t) \<noteq> None \<Longrightarrow> carried (sq_tasks s t) = Some (final (conn t))"
    "carried (sq_tasks s t) \<noteq> None \<Longrightarrow> carried (sq_tasks s u) \<noteq> None \<Longrightarrow> conn t = conn u \<Longrightarrow> t = u"
    "sq_slot s c = None \<Longrightarrow> \<exists>u. conn u = c \<and> carried (sq_tasks s u) \<noteq> None"
    "sq_slot s c \<noteq> None \<Longrightarrow> sq_slot s c = Some (final c)"
    using ok unfolding sq_slots_ok_def by blast+
qed

lemma sq_wakesD:
  assumes "sq_inv conn final s"
  shows "sq_tasks s t = Inner_Waiting \<Longrightarrow> sq_slot s (conn t) \<noteq> None \<Longrightarrow> \<exists>u. conn u = conn t \<and> sq_tasks s u = Inserted"
    and "sq_tasks s t = Global_Waiting \<Longrightarrow> sq_allowed s \<Longrightarrow> \<exists>u. prompting (sq_tasks s u)"
    and "sq_tasks s t \<noteq> Arriving \<Longrightarrow> t < sq_count s"
proof -
  have ok: "sq_wakes_ok conn s" using assms by (simp add: sq_inv_def)
  show "sq_tasks s t = Inner_Waiting \<Longrightarrow> sq_slot s (conn t) \<noteq> None \<Longrightarrow> \<exists>u. conn u = conn t \<and> sq_tasks s u = Inserted"
    "sq_tasks s t = Global_Waiting \<Longrightarrow> sq_allowed s \<Longrightarrow> \<exists>u. prompting (sq_tasks s u)"
    "sq_tasks s t \<noteq> Arriving \<Longrightarrow> t < sq_count s"
    using ok unfolding sq_wakes_ok_def by blast+
qed

lemma sq_same_inner:
  assumes "sq_inv conn final s" "has_inner_lock pc \<longleftrightarrow> has_inner_lock (sq_tasks s t)"
  shows "sq_inner s = (sq_inner s)(conn t :=
    if has_inner_lock pc then Some t else if has_inner_lock (sq_tasks s t) then None else sq_inner s (conn t))"
  using assms(2) sq_locksD(2) [OF assms(1), of t "conn t"] by (auto simp: fun_eq_iff)

lemma sq_same_lock:
  assumes "sq_inv conn final s" "has_flag_lock pc \<longleftrightarrow> has_flag_lock (sq_tasks s t)"
  shows "sq_lock s = (if has_flag_lock pc then Some t else if has_flag_lock (sq_tasks s t) then None else sq_lock s)"
  using assms(2) sq_locksD(1) [OF assms(1), of t] by auto

lemma sq_same_flag:
  assumes "sq_inv conn final s" "sq_admitted pc \<longleftrightarrow> sq_admitted (sq_tasks s t)"
  shows "sq_allowed s = (if sq_admitted pc then False else if sq_admitted (sq_tasks s t) then True else sq_allowed s)"
  using assms(2) sq_flagD(2) [OF assms(1)] by auto

lemma sq_same_slot:
  assumes "sq_inv conn final s" "carried pc = carried (sq_tasks s t)"
  shows "sq_slot s = (sq_slot s)(conn t :=
    if carried pc \<noteq> None then None else if carried (sq_tasks s t) \<noteq> None then carried (sq_tasks s t) else sq_slot s (conn t))"
  using assms(2) sq_slotsD(1) [OF assms(1), of t] by (auto simp: fun_eq_iff)

text \<open>A step to a place where the task owns and knows the same.\<close>

lemma sq_keep_inv:
  assumes inv: "sq_inv conn final s" and t: "t < sq_count s"
    and same: "has_flag_lock pc \<longleftrightarrow> has_flag_lock (sq_tasks s t)" "has_inner_lock pc \<longleftrightarrow> has_inner_lock (sq_tasks s t)"
      "sq_admitted pc \<longleftrightarrow> sq_admitted (sq_tasks s t)" "carried pc = carried (sq_tasks s t)"
    and wakes: "pc \<noteq> Inner_Waiting" "pc \<noteq> Global_Waiting"
      "sq_tasks s t = Inserted \<Longrightarrow> \<forall>u. conn u = conn t \<longrightarrow> sq_tasks s u \<noteq> Inner_Waiting"
      "prompting (sq_tasks s t) \<Longrightarrow> prompting pc \<or> (\<forall>u. sq_tasks s u \<noteq> Global_Waiting) \<or> (\<exists>u. u \<noteq> t \<and> prompting (sq_tasks s u))"
  shows "sq_inv conn final (sq_goto t pc s)"
proof (rule sq_move [OF inv t, where pc = pc], unfold sq_goto_simps)
  show "sq_lock s = (if has_flag_lock pc then Some t else if has_flag_lock (sq_tasks s t) then None else sq_lock s)"
    by (rule sq_same_lock [OF inv same(1)])
  show "sq_inner s = (sq_inner s)(conn t :=
      if has_inner_lock pc then Some t else if has_inner_lock (sq_tasks s t) then None else sq_inner s (conn t))"
    by (rule sq_same_inner [OF inv same(2)])
  show "sq_allowed s = (if sq_admitted pc then False else if sq_admitted (sq_tasks s t) then True else sq_allowed s)"
    by (rule sq_same_flag [OF inv same(3)])
  show "sq_slot s = (sq_slot s)(conn t :=
      if carried pc \<noteq> None then None else if carried (sq_tasks s t) \<noteq> None then carried (sq_tasks s t) else sq_slot s (conn t))"
    by (rule sq_same_slot [OF inv same(4)])
  show "carried (sq_tasks s t) \<noteq> None \<and> carried pc = None \<longrightarrow> pc = Inserted" using same(4) by auto
qed (use same wakes in simp_all)

lemma sq_wake_inv:
  assumes "sq_inv conn final s" "sq_tasks s u = Inner_Waiting \<and> woken = Inner_Woken \<or> sq_tasks s u = Global_Waiting \<and> woken = Global_Woken"
  shows "sq_inv conn final (sq_goto u woken s)"
  by (rule sq_keep_inv [OF assms(1) sq_wakesD(3) [OF assms(1)]]) (use assms(2) in auto)

lemma sq_inserted_inv:
  assumes inv: "sq_inv conn final s" and t: "t < sq_count s" "sq_tasks s t = Inserted"
    and notify: "sq_notify_one (\<lambda>u. conn u = conn t \<and> sq_tasks s u = Inner_Waiting) Inner_Woken w s = Some s1"
  shows "sq_inv conn final (sq_goto t Inner_Notified s1)"
proof -
  have s1: "sq_inv conn final s1 \<and> sq_count s1 = sq_count s \<and> sq_tasks s1 t = Inserted \<and>
      (\<forall>u. conn u = conn t \<longrightarrow> sq_tasks s1 u \<noteq> Inner_Waiting)"
    using notify
  proof (cases rule: sq_notify_cases)
    case 1
    have "sq_tasks s u \<noteq> Inner_Waiting" if "conn u = conn t" for u using 1(2) sq_wakesD(3) [OF inv, of u] that by auto
    then show ?thesis using 1 inv t by simp
  next
    case (2 u)
    have "sq_tasks s v \<noteq> Inner_Waiting" if "v \<noteq> u" for v using sq_flagD(1) [OF inv, of u v] 2(2) that by auto
    moreover have "sq_inv conn final s1" using sq_wake_inv [OF inv, of u Inner_Woken] 2 by simp
    moreover have "t \<noteq> u" using 2(2) t(2) by auto
    ultimately show ?thesis using 2(3) t by simp
  qed
  show ?thesis by (rule sq_keep_inv) (use s1 t in auto)
qed

lemma sq_notified_inv:
  assumes inv: "sq_inv conn final s" and t: "t < sq_count s" "sq_tasks s t = Inner_Notified"
    and notify: "sq_notify_one (\<lambda>u. sq_tasks s u = Global_Waiting) Global_Woken w s = Some s1"
  shows "sq_inv conn final (sq_goto t Notified s1)"
proof -
  have s1: "sq_inv conn final s1 \<and> sq_count s1 = sq_count s \<and> sq_tasks s1 t = Inner_Notified \<and>
      ((\<forall>u. sq_tasks s1 u \<noteq> Global_Waiting) \<or> (\<exists>u. u \<noteq> t \<and> prompting (sq_tasks s1 u)))"
    using notify
  proof (cases rule: sq_notify_cases)
    case 1
    have "sq_tasks s u \<noteq> Global_Waiting" for u using 1(2) sq_wakesD(3) [OF inv, of u] by auto
    then show ?thesis using 1 inv t by simp
  next
    case (2 u)
    then show ?thesis using sq_wake_inv [OF inv, of u Global_Woken] t by (auto intro!: exI [of _ u])
  qed
  show ?thesis by (rule sq_keep_inv) (use s1 t in auto)
qed

text \<open>The other steps change one task and what it owns.\<close>

lemma sq_step_inv:
  assumes inv: "sq_inv conn final s" and t: "t < sq_count s" and step: "sq_step conn t w s = Some s'"
  shows "sq_inv conn final s'"
proof (cases "sq_tasks s t = Inserted \<or> sq_tasks s t = Inner_Notified")
  case True
  then show ?thesis
    using step sq_inserted_inv [OF inv t] sq_notified_inv [OF inv t] by (auto simp: sq_step_def)
next
  case False
  have own: "has_flag_lock (sq_tasks s t) \<Longrightarrow> sq_lock s = Some t" "has_inner_lock (sq_tasks s t) \<Longrightarrow> sq_inner s (conn t) = Some t"
    "sq_admitted (sq_tasks s t) \<Longrightarrow> \<not> sq_allowed s" "carried (sq_tasks s t) \<noteq> None \<Longrightarrow> sq_slot s (conn t) = None"
    using sq_locksD [OF inv] sq_flagD(2) [OF inv] sq_slotsD(1) [OF inv] by auto
  show ?thesis
    by (rule sq_move [OF inv t, where pc = "sq_tasks s' t"];
        use step False own in \<open>cases "sq_tasks s t"; auto simp: sq_step_defs fun_eq_iff split: if_splits option.splits\<close>)
qed
section \<open>Runs\<close>

text \<open>The state in which each connection was left by those who used it.\<close>

fun sq_used :: "(nat \<Rightarrow> nat) \<Rightarrow> 'd sq_event \<Rightarrow> (nat \<Rightarrow> 'd) \<Rightarrow> nat \<Rightarrow> 'd" where
  "sq_used conn (Use t d) final = final(conn t := d)"
| "sq_used conn _ final = final"

lemma sq_use_inv:
  assumes inv: "sq_inv conn final s" and t: "sq_tasks s t = Holding e"
  shows "sq_inv conn (final(conn t := d)) (sq_goto t (Holding d) s)"
proof -
  have keep: "has_flag_lock (sq_tasks (sq_goto t (Holding d) s) u) = has_flag_lock (sq_tasks s u)"
    "has_inner_lock (sq_tasks (sq_goto t (Holding d) s) u) = has_inner_lock (sq_tasks s u)"
    "sq_admitted (sq_tasks (sq_goto t (Holding d) s) u) = sq_admitted (sq_tasks s u)"
    "prompting (sq_tasks (sq_goto t (Holding d) s) u) = prompting (sq_tasks s u)"
    "carried (sq_tasks (sq_goto t (Holding d) s) u) = (if u = t then Some d else carried (sq_tasks s u))" for u
    using t by auto
  have only: "conn u \<noteq> conn t" if "u \<noteq> t" "carried (sq_tasks s u) \<noteq> None" for u
    using sq_slotsD(3) [OF inv, of u t] that t by auto
  have slot: "sq_slot s (conn t) = None" using sq_slotsD(1) [OF inv, of t] t by simp
  have "sq_locks_ok conn (sq_goto t (Holding d) s)" using inv unfolding sq_inv_def sq_locks_ok_def keep by simp
  moreover have "sq_flag_ok (sq_goto t (Holding d) s)" using inv unfolding sq_inv_def sq_flag_ok_def keep by simp
  moreover have "sq_slots_ok conn (final(conn t := d)) (sq_goto t (Holding d) s)"
    unfolding sq_slots_ok_def keep sq_goto_simps
    using slot only sq_slotsD [OF inv] t by (auto split: if_splits) metis+
  moreover have "sq_wakes_ok conn (sq_goto t (Holding d) s)"
    using inv t unfolding sq_inv_def sq_wakes_ok_def keep by (auto; metis sq_pc.distinct)
  ultimately show ?thesis by (simp add: sq_inv_def)
qed

lemma sq_next_inv:
  assumes "sq_inv conn final s" "sq_next conn ev s = Some s'"
  shows "sq_inv conn (sq_used conn ev final) s'"
  using assms by (cases ev) (auto split: if_splits sq_pc.splits intro: sq_step_inv sq_use_inv sq_wake_inv)

lemma sq_run_inv:
  "sq_run conn evs s = Some s' \<Longrightarrow> sq_inv conn final s \<Longrightarrow> sq_inv conn (fold (sq_used conn) evs final) s'"
  by (induction evs arbitrary: s final) (auto simp: bind_eq_Some_conv dest: sq_next_inv)

section \<open>Progress\<close>

text \<open>How many steps a task has still to make, with those of the tasks that it wakes.\<close>

fun sq_rank :: "'d sq_pc \<Rightarrow> nat" where
  "sq_rank Arriving = 19"
| "sq_rank Global_Woken = 19"
| "sq_rank Checking = 18"
| "sq_rank Global_Waiting = 17"
| "sq_rank Inner_Locking = 16"
| "sq_rank Inner_Woken = 16"
| "sq_rank Inner_Checking = 15"
| "sq_rank Inner_Waiting = 14"
| "sq_rank (Leaving _) = 13"
| "sq_rank (Holding _) = 12"
| "sq_rank (Dropping _) = 11"
| "sq_rank (Unlocking _) = 10"
| "sq_rank (Returning _) = 9"
| "sq_rank (Inserting _) = 8"
| "sq_rank Inserted = 7"
| "sq_rank Inner_Notified = 4"
| "sq_rank Notified = 1"
| "sq_rank Finished = 0"

definition sq_work :: "'d sqlite \<Rightarrow> nat" where
  "sq_work s = (\<Sum>t < sq_count s. sq_rank (sq_tasks s t))"

lemma sq_work_goto: "t < sq_count s \<Longrightarrow> sq_work (sq_goto t pc s) + sq_rank (sq_tasks s t) = sq_work s + sq_rank pc"
proof -
  assume t: "t < sq_count s"
  have "(\<Sum>u < sq_count s. sq_rank (if u = t then pc else sq_tasks s u)) =
      sq_rank pc + (\<Sum>u \<in> {..<sq_count s} - {t}. sq_rank (sq_tasks s u))"
    using t by (subst sum.remove [of _ t]) (auto intro!: sum.cong)
  moreover have "sq_work s = sq_rank (sq_tasks s t) + (\<Sum>u \<in> {..<sq_count s} - {t}. sq_rank (sq_tasks s u))"
    unfolding sq_work_def using t by (subst sum.remove [of _ t]) auto
  ultimately show ?thesis by (simp add: sq_work_def)
qed

lemma sq_work_cong [simp]:
  "sq_work (s\<lparr>sq_lock := a\<rparr>) = sq_work s" "sq_work (s\<lparr>sq_allowed := b\<rparr>) = sq_work s" "sq_work (s\<lparr>sq_inner := i\<rparr>) = sq_work s"
  "sq_work (s\<lparr>sq_slot := l\<rparr>) = sq_work s"
  by (simp_all add: sq_work_def)

lemma sq_notify_work:
  assumes t: "t < sq_count s" "\<not> waits t" "sq_rank pc + 3 = sq_rank (sq_tasks s t)"
    and notify: "sq_notify_one waits woken w s = Some s1" "\<And>u. waits u \<Longrightarrow> sq_rank woken = sq_rank (sq_tasks s u) + 2"
  shows "sq_work (sq_goto t pc s1) < sq_work s \<and> sq_count s1 = sq_count s"
proof -
  have "sq_work s1 \<le> sq_work s + 2 \<and> sq_count s1 = sq_count s \<and> sq_tasks s1 t = sq_tasks s t"
    using notify(1)
  proof (cases rule: sq_notify_cases)
    case (2 u)
    then show ?thesis using sq_work_goto [OF 2(1), of woken] notify(2) [OF 2(2)] t(2) by auto
  qed simp
  then show ?thesis using sq_work_goto [of t s1 pc] t by simp
qed

lemma sq_step_work:
  assumes t: "t < sq_count s" and step: "sq_step conn t w s = Some s'"
  shows "sq_work s' < sq_work s \<and> sq_count s' = sq_count s"
proof (cases "sq_tasks s t = Inserted \<or> sq_tasks s t = Inner_Notified")
  case True
  then show ?thesis
  proof
    assume at: "sq_tasks s t = Inserted"
    then obtain s1 where "sq_notify_one (\<lambda>u. conn u = conn t \<and> sq_tasks s u = Inner_Waiting) Inner_Woken w s = Some s1"
      and s': "s' = sq_goto t Inner_Notified s1" using step by (auto simp: sq_step_def)
    from sq_notify_work [OF t _ _ this(1), of Inner_Notified] at s' show ?thesis by simp
  next
    assume at: "sq_tasks s t = Inner_Notified"
    then obtain s1 where "sq_notify_one (\<lambda>u. sq_tasks s u = Global_Waiting) Global_Woken w s = Some s1"
      and s': "s' = sq_goto t Notified s1" using step by (auto simp: sq_step_def)
    from sq_notify_work [OF t _ _ this(1), of Notified] at s' show ?thesis by simp
  qed
next
  case False
  obtain r pc where "s' = sq_goto t pc r" "sq_tasks r = sq_tasks s" "sq_count r = sq_count s" "sq_rank pc < sq_rank (sq_tasks s t)"
    "sq_work r = sq_work s"
    using step False by (cases "sq_tasks s t") (auto simp: sq_step_defs split: if_splits option.splits)
  then show ?thesis using sq_work_goto [of t r pc] t by simp
qed

fun is_step :: "'d sq_event \<Rightarrow> bool" where
  "is_step (Step _ _) = True"
| "is_step _ = False"

fun is_wake :: "'d sq_event \<Rightarrow> bool" where
  "is_wake (Wake _) = True"
| "is_wake _ = False"

lemma sq_next_work:
  assumes "sq_inv conn final s" "sq_next conn ev s = Some s'"
  shows "sq_work s' + (if is_step ev then 1 else 0) \<le> sq_work s + (if is_wake ev then 2 else 0) \<and> sq_count s' = sq_count s"
proof (cases ev)
  case (Step t w)
  then show ?thesis using assms(2) sq_step_work [of t s conn w s'] by (auto split: if_splits)
next
  case (Use t d)
  then obtain e where "sq_tasks s t = Holding e" "s' = sq_goto t (Holding d) s" using assms(2) by (auto split: sq_pc.splits)
  then show ?thesis using sq_work_goto [of t s "Holding d"] sq_wakesD(3) [OF assms(1), of t] Use by simp
next
  case (Wake t)
  then obtain pc where "s' = sq_goto t pc s" "sq_rank pc = sq_rank (sq_tasks s t) + 2" "sq_tasks s t \<noteq> Arriving"
    using assms(2) by (auto split: sq_pc.splits)
  then show ?thesis using sq_work_goto [of t s pc] sq_wakesD(3) [OF assms(1), of t] Wake by simp
qed

lemma sq_run_work:
  "sq_run conn evs s = Some s' \<Longrightarrow> sq_inv conn final s \<Longrightarrow>
     sq_work s' + length (filter is_step evs) \<le> sq_work s + 2 * length (filter is_wake evs) \<and> sq_count s' = sq_count s"
proof (induction evs arbitrary: s final)
  case (Cons ev evs)
  then obtain s1 where s1: "sq_next conn ev s = Some s1" "sq_run conn evs s1 = Some s'" by (auto simp: bind_eq_Some_conv)
  from Cons.IH [OF s1(2) sq_next_inv [OF Cons.prems(2) s1(1)]] sq_next_work [OF Cons.prems(2) s1(1)] show ?case
    by (auto split: if_splits)
qed simp

text \<open>A task that can make a step.\<close>

definition sq_enabled :: "(nat \<Rightarrow> nat) \<Rightarrow> 'd sqlite \<Rightarrow> nat \<Rightarrow> bool" where
  "sq_enabled conn s t \<longleftrightarrow> t < sq_count s \<and> (\<exists>w. sq_step conn t w s \<noteq> None)"

lemma notify_possible: "\<exists>w. sq_notify_one waits woken w s \<noteq> None"
proof (cases "filter waits [0..<sq_count s] = []")
  case True
  then show ?thesis by (intro exI [of _ None]) (simp add: sq_notify_one_def)
next
  case False
  then obtain u where "u < sq_count s" "waits u" by (auto simp: filter_empty_conv)
  then show ?thesis by (intro exI [of _ "Some u"]) (simp add: sq_notify_one_def)
qed

lemma inner_holder_enabled:
  assumes "sq_inv conn final s" "has_inner_lock (sq_tasks s t)"
  shows "sq_enabled conn s t"
proof -
  have "t < sq_count s" using sq_wakesD(3) [OF assms(1), of t] assms(2) by (cases "sq_tasks s t") auto
  moreover have "\<exists>w. sq_step conn t w s \<noteq> None"
    using assms(2) notify_possible [of "\<lambda>u. conn u = conn t \<and> sq_tasks s u = Inner_Waiting" Inner_Woken s]
      notify_possible [of "\<lambda>u. sq_tasks s u = Global_Waiting" Global_Woken s]
    by (cases "sq_tasks s t") (auto simp: sq_step_def)
  ultimately show ?thesis by (simp add: sq_enabled_def)
qed

text \<open>A task that only waits for the mutex of its connection lets some task go on.\<close>

lemma inner_waiter_enabled:
  assumes inv: "sq_inv conn final s" and "sq_tasks s t \<in> {Inner_Locking, Inner_Woken} \<or> (\<exists>d. sq_tasks s t = Returning d)"
  shows "\<exists>u. sq_enabled conn s u"
proof (cases "sq_inner s (conn t)")
  case None
  then have "sq_enabled conn s t"
    using assms(2) sq_wakesD(3) [OF inv, of t] by (auto simp: sq_enabled_def sq_step_def sq_lock_inner_def)
  then show ?thesis ..
next
  case (Some u)
  then show ?thesis using sq_locksD(2) [OF inv, of u "conn t"] inner_holder_enabled [OF inv, of u] by blast
qed

lemma returning_enabled:
  assumes inv: "sq_inv conn final s" and "carried (sq_tasks s t) \<noteq> None" "\<not> sq_admitted (sq_tasks s t)"
  shows "\<exists>u. sq_enabled conn s u"
  using inner_waiter_enabled [OF inv, of t] inner_holder_enabled [OF inv, of t] assms(2,3) by (cases "sq_tasks s t") auto

text \<open>Who waits for its connection will be woken by the task that puts it back.\<close>

lemma flag_holder_enabled:
  assumes inv: "sq_inv conn final s" and t: "has_flag_lock (sq_tasks s t)"
  shows "\<exists>u. sq_enabled conn s u"
proof (cases "sq_tasks s t = Inner_Waiting")
  case True
  show ?thesis
  proof (cases "sq_slot s (conn t)")
    case None
    then obtain u where u: "carried (sq_tasks s u) \<noteq> None" using sq_slotsD(4) [OF inv] by blast
    then have "\<not> sq_admitted (sq_tasks s u)" using sq_flagD(1) [OF inv, of u t] True by auto
    with u show ?thesis by (rule returning_enabled [OF inv])
  next
    case (Some d)
    then obtain u where "sq_tasks s u = Inserted" using sq_wakesD(1) [OF inv True] by auto
    then show ?thesis using inner_holder_enabled [OF inv, of u] by auto
  qed
next
  case False
  have "t < sq_count s" using sq_wakesD(3) [OF inv, of t] t by (cases "sq_tasks s t") auto
  moreover have "sq_step conn t None s \<noteq> None" if "sq_tasks s t \<notin> {Inner_Locking, Inner_Woken}"
    using that t False by (cases "sq_tasks s t") (auto simp: sq_step_def)
  ultimately show ?thesis using inner_waiter_enabled [OF inv, of t] unfolding sq_enabled_def by blast
qed

lemma sq_some_enabled:
  assumes inv: "sq_inv conn final s" and t: "t < sq_count s" "sq_tasks s t \<noteq> Finished"
  shows "\<exists>u. sq_enabled conn s u"
proof (cases "sq_lock s")
  case (Some u)
  then show ?thesis using flag_holder_enabled [OF inv, of u] sq_locksD(1) [OF inv, of u] by simp
next
  case free: None
  have no_lock: "\<not> has_flag_lock (sq_tasks s u)" for u using sq_locksD(1) [OF inv, of u] free by simp
  have go: "\<exists>u. sq_enabled conn s u" if "u < sq_count s" "sq_tasks s u \<noteq> Global_Waiting" "sq_tasks s u \<noteq> Finished" for u
  proof (cases "has_inner_lock (sq_tasks s u) \<or> (\<exists>d. sq_tasks s u = Returning d)")
    case False
    then have "sq_step conn u None s \<noteq> None"
      using that no_lock [of u] free by (cases "sq_tasks s u") (auto simp: sq_step_def sq_lock_flag_def)
    with that(1) show ?thesis unfolding sq_enabled_def by blast
  qed (use inner_waiter_enabled [OF inv, of u] inner_holder_enabled [OF inv, of u] in blast)
  show ?thesis
  proof (cases "sq_tasks s t = Global_Waiting")
    case True
    obtain u where "sq_tasks s u \<noteq> Arriving" "sq_tasks s u \<noteq> Global_Waiting" "sq_tasks s u \<noteq> Finished"
    proof (cases "sq_allowed s")
      case True
      then obtain u where "prompting (sq_tasks s u)" using sq_wakesD(2) [OF inv \<open>sq_tasks s t = Global_Waiting\<close>] by auto
      then show thesis using that [of u] by (cases "sq_tasks s u") auto
    next
      case False
      then obtain u where "sq_admitted (sq_tasks s u)" using sq_flagD(2) [OF inv] by auto
      then show thesis using that [of u] by (cases "sq_tasks s u") auto
    qed
    then show ?thesis using go sq_wakesD(3) [OF inv, of u] by blast
  qed (use go t in blast)
qed

section \<open>Properties\<close>

text \<open>
  C30. In every interleaving of tasks that acquire, use and drop guards, at most one task of the process has
  a guard to use, whatever the connections; and every connection is, in the state in which its last user left it,
  either in its slot or with exactly one task.
\<close>

theorem sqlite_guard_exclusive:
  assumes "sq_run conn evs (sq_start n dbs) = Some s"
  shows "(\<forall>t u d e. sq_tasks s t = Holding d \<and> sq_tasks s u = Holding e \<longrightarrow> t = u) \<and>
    (\<forall>c. let d = fold (sq_used conn) evs dbs c in
       sq_slot s c = Some d \<and> (\<forall>t. conn t = c \<longrightarrow> carried (sq_tasks s t) = None) \<or>
       sq_slot s c = None \<and> (\<exists>!t. conn t = c \<and> carried (sq_tasks s t) = Some d))"
proof -
  have inv: "sq_inv conn (fold (sq_used conn) evs dbs) s" by (rule sq_run_inv [OF assms sq_start_inv])
  have "t = u" if "sq_tasks s t = Holding d" "sq_tasks s u = Holding e" for t u d e
    using sq_flagD(1) [OF inv, of t u] that by simp
  moreover have "sq_slot s c = Some (fold (sq_used conn) evs dbs c) \<and> (\<forall>t. conn t = c \<longrightarrow> carried (sq_tasks s t) = None) \<or>
      sq_slot s c = None \<and> (\<exists>!t. conn t = c \<and> carried (sq_tasks s t) = Some (fold (sq_used conn) evs dbs c))" for c
  proof (cases "sq_slot s c")
    case None
    then obtain t where t: "conn t = c" "carried (sq_tasks s t) \<noteq> None" using sq_slotsD(4) [OF inv] by blast
    then have "\<exists>!t. conn t = c \<and> carried (sq_tasks s t) = Some (fold (sq_used conn) evs dbs c)"
      using sq_slotsD(2) [OF inv t(2)] sq_slotsD(3) [OF inv, of _ t] by (intro ex1I [of _ t]) auto
    with None show ?thesis by simp
  next
    case (Some d)
    then show ?thesis using sq_slotsD(5) [OF inv, of c] sq_slotsD(1) [OF inv] by fastforce
  qed
  ultimately show ?thesis by (auto simp: Let_def)
qed

text \<open>
  C31. The guard does not deadlock and loses no wake-up: the tasks make a bounded number of steps, apart from those
  that a wake-up without a notification costs, and when no task can make a step all of them have finished, provided that
  those who have a guard drop it and acquire no other one before.
\<close>

theorem sqlite_guard_progress:
  assumes "sq_run conn evs (sq_start n dbs) = Some s"
  shows "length (filter is_step evs) \<le> 19 * n + 2 * length (filter is_wake evs) \<and>
    ((\<forall>t w. sq_next conn (Step t w) s = None) \<longrightarrow> (\<forall>t < n. sq_tasks s t = Finished))"
proof -
  have inv: "sq_inv conn (fold (sq_used conn) evs dbs) s" by (rule sq_run_inv [OF assms sq_start_inv])
  have work: "sq_work s + length (filter is_step evs) \<le> 19 * n + 2 * length (filter is_wake evs) \<and> sq_count s = n"
    using sq_run_work [OF assms sq_start_inv] by (auto simp: sq_work_def sq_start_def mult.commute)
  have "sq_tasks s t = Finished" if stuck: "\<forall>t w. sq_next conn (Step t w) s = None" "t < n" for t
  proof (rule ccontr)
    assume "sq_tasks s t \<noteq> Finished"
    then obtain u where "sq_enabled conn s u" using sq_some_enabled [OF inv, of t] stuck(2) work by auto
    then show False using stuck(1) [rule_format, of u] by (auto simp: sq_enabled_def)
  qed
  with work show ?thesis by auto
qed

definition sample_sq_events :: "nat sq_event list" where
  "sample_sq_events =
     replicate 5 (Step 0 None) @ replicate 2 (Step 1 None) @ [Use 0 7] @ replicate 6 (Step 0 None) @ [Step 0 (Some 1), Step 0 None] @
     replicate 4 (Step 1 None)"

lemma sample_sq_run: "sq_run (\<lambda>_. 3) sample_sq_events (sq_start 2 (\<lambda>_. 0)) \<noteq> None"
  by code_simp

theorem sqlite_guard_exclusive_witness:
  "\<exists>s. sq_run (\<lambda>_. 3) sample_sq_events (sq_start 2 (\<lambda>_. 0)) = Some s \<and>
     (\<forall>t u d e. sq_tasks s t = Holding d \<and> sq_tasks s u = Holding e \<longrightarrow> t = u)"
proof -
  obtain s where s: "sq_run (\<lambda>_. 3) sample_sq_events (sq_start 2 (\<lambda>_. 0)) = Some s" using sample_sq_run by blast
  from sqlite_guard_exclusive [OF s] s show ?thesis by blast
qed

theorem sqlite_guard_progress_witness:
  "length (filter is_step sample_sq_events) \<le> 38"
proof -
  obtain s where s: "sq_run (\<lambda>_. 3) sample_sq_events (sq_start 2 (\<lambda>_. 0)) = Some s" using sample_sq_run by blast
  have "filter is_wake sample_sq_events = []" by (simp add: sample_sq_events_def)
  with sqlite_guard_progress [OF s] show ?thesis by simp
qed

end
