(* ===== verification/Sql_Transaction.thy ===== *)
theory Sql_Transaction
  imports Rust_Prelude
begin

text \<open>
  Queries and transactions on a SQLite connection: \<open>Transaction\<close> of \<open>sql/common/transaction.rs\<close>, the
  guard operations of \<open>sql/common/sqlite.rs\<close> that it uses, and the SQLite branches of the functions that the macro
  \<open>queries!\<close> of \<open>sql/src/lib.rs\<close> generates.  A guard gives exclusive use of its connection
  (\<open>Sqlite_Guard\<close>), so one connection is treated sequentially: a guard is the connection taken out of its slot, and
  acquiring a connection that is out is waiting for ever, the value \<open>None\<close>.  The operations of \<open>rusqlite\<close> are
  parameters; \<open>sqlite_laws\<close> states what SQLite documents about transactions.  The MySQL variants pass everything to
  client libraries and are not modelled.
\<close>

section \<open>The SQLite library\<close>

text \<open>A statement stands for its text with its parameters; preparing and running it is one operation.\<close>

record ('db, 'st, 'rows, 'e) sqlite_ops =
  execute_batch :: "string \<Rightarrow> 'db \<Rightarrow> (unit, 'e) result \<times> 'db"
  stmt_query :: "'st \<Rightarrow> 'db \<Rightarrow> ('rows, 'e) result \<times> 'db"
  stmt_execute :: "'st \<Rightarrow> 'db \<Rightarrow> (nat, 'e) result \<times> 'db"
  last_insert_rowid :: "'db \<Rightarrow> int"

text \<open>What a connection shows: whether it is in a transaction, what is committed, and what its own queries see.\<close>

record ('db, 'v) sqlite_view =
  in_transaction :: "'db \<Rightarrow> bool"
  committed :: "'db \<Rightarrow> 'v"
  working :: "'db \<Rightarrow> 'v"

definition sqlite_laws :: "('db, 'st, 'rows, 'e) sqlite_ops \<Rightarrow> ('db, 'v) sqlite_view \<Rightarrow> bool" where
  "sqlite_laws ops v \<longleftrightarrow>
     (\<forall>db. \<not> in_transaction v db \<longrightarrow> working v db = committed v db) \<and>
     (\<forall>db r db'. execute_batch ops ''BEGIN DEFERRED'' db = (r, db') \<longrightarrow>
        (in_transaction v db \<longrightarrow> r \<noteq> Ok ()) \<and> committed v db' = committed v db \<and> working v db' = working v db \<and>
        in_transaction v db' = (in_transaction v db \<or> r = Ok ())) \<and>
     (\<forall>db r db'. execute_batch ops ''COMMIT'' db = (r, db') \<longrightarrow> in_transaction v db \<longrightarrow>
        (if r = Ok () then \<not> in_transaction v db' \<and> committed v db' = working v db
         else in_transaction v db' \<and> committed v db' = committed v db)) \<and>
     (\<forall>db db'. execute_batch ops ''ROLLBACK'' db = (Ok (), db') \<longrightarrow> in_transaction v db \<longrightarrow>
        \<not> in_transaction v db' \<and> committed v db' = committed v db)"

text \<open>A statement that does not control transactions and whose errors do not end one.\<close>

definition plain_stmt :: "('db, 'st, 'rows, 'e) sqlite_ops \<Rightarrow> ('db, 'v) sqlite_view \<Rightarrow> 'st \<Rightarrow> bool" where
  "plain_stmt ops v st \<longleftrightarrow>
     (\<forall>db. in_transaction v db \<longrightarrow>
        in_transaction v (snd (stmt_execute ops st db)) \<and> committed v (snd (stmt_execute ops st db)) = committed v db \<and>
        in_transaction v (snd (stmt_query ops st db)) \<and> committed v (snd (stmt_query ops st db)) = committed v db)"

section \<open>The connection and its guard\<close>

datatype sqlite_query_type = Read | Write | SchemaChange | Transaction

text \<open>The callbacks of a connection: what \<open>query_start\<close> returns, and the calls of \<open>after_transaction_commit\<close>.\<close>

record ('db, 'e) sqlite_con =
  con_slot :: "'db option"
  con_query_start :: "(sqlite_query_type \<Rightarrow> (unit, 'e) result) option"
  con_committed_calls :: nat

definition con_new :: "'db \<Rightarrow> ('db, 'e) sqlite_con" where
  "con_new db = \<lparr>con_slot = Some db, con_query_start = None, con_committed_calls = 0\<rparr>"

definition con_new_with_callbacks :: "'db \<Rightarrow> (sqlite_query_type \<Rightarrow> (unit, 'e) result) \<Rightarrow> ('db, 'e) sqlite_con" where
  "con_new_with_callbacks db query_start = \<lparr>con_slot = Some db, con_query_start = Some query_start, con_committed_calls = 0\<rparr>"

definition acquire :: "sqlite_query_type \<Rightarrow> ('db, 'e) sqlite_con \<Rightarrow> (('db, 'e) result \<times> ('db, 'e) sqlite_con) option" where
  "acquire query_type c =
     (case (case con_query_start c of None \<Rightarrow> Ok () | Some query_start \<Rightarrow> query_start query_type) of
        Err e \<Rightarrow> Some (Err e, c)
      | Ok _ \<Rightarrow>
          (case con_slot c of
             None \<Rightarrow> None
           | Some db \<Rightarrow> Some (Ok db, c\<lparr>con_slot := None\<rparr>)))"

definition guard_drop :: "'db \<Rightarrow> ('db, 'e) sqlite_con \<Rightarrow> ('db, 'e) sqlite_con" where
  "guard_drop db c = c\<lparr>con_slot := Some (case con_slot c of None \<Rightarrow> db | Some db' \<Rightarrow> db')\<rparr>"

text \<open>\<open>commit\<close> of the guard: the guard is dropped before the callback is called, or comes back with the error.\<close>

definition guard_commit ::
  "('db, 'st, 'rows, 'e) sqlite_ops \<Rightarrow> 'db \<Rightarrow> ('db, 'e) sqlite_con \<Rightarrow> (unit, 'db \<times> 'e) result \<times> ('db, 'e) sqlite_con" where
  "guard_commit ops db c =
     (case execute_batch ops ''COMMIT'' db of
        (Ok _, db) \<Rightarrow>
          let c = guard_drop db c in
          (Ok (), c\<lparr>con_committed_calls := con_committed_calls c + (case con_query_start c of None \<Rightarrow> 0 | Some _ \<Rightarrow> 1)\<rparr>)
      | (Err e, db) \<Rightarrow> (Err (db, e), c))"

section \<open>\<open>Transaction\<close>\<close>

text \<open>The variant \<open>Sqlite\<close> with its guard, if it has it.\<close>

type_synonym 'db transaction = "'db option"

definition tr_new ::
  "('db, 'st, 'rows, 'e) sqlite_ops \<Rightarrow> ('db, 'e) sqlite_con \<Rightarrow> (('db transaction, 'e) result \<times> ('db, 'e) sqlite_con) option" where
  "tr_new ops c =
     map_option (\<lambda>(r, c).
       case r of
         Err e \<Rightarrow> (Err e, c)
       | Ok db \<Rightarrow>
           (case execute_batch ops ''BEGIN DEFERRED'' db of
              (Err e, db) \<Rightarrow> (Err e, guard_drop db c)
            | (Ok _, db) \<Rightarrow> (Ok (Some db), c))) (acquire Transaction c)"

text \<open>Dropping a transaction; when the drop panics the guard is dropped by the unwinding.\<close>

definition tr_drop ::
  "('db, 'st, 'rows, 'e) sqlite_ops \<Rightarrow> 'db transaction \<Rightarrow> ('db, 'e) sqlite_con \<Rightarrow> unit res \<times> ('db, 'e) sqlite_con" where
  "tr_drop ops tr c =
     (case tr of
        None \<Rightarrow> (Inr (), c)
      | Some db \<Rightarrow>
          (case execute_batch ops ''ROLLBACK'' db of
             (Ok _, db) \<Rightarrow> (Inr (), guard_drop db c)
           | (Err e, db) \<Rightarrow> (Inl (Panic ''Rollback on drop of Sqlite connection has failed''), guard_drop db c)))"

definition tr_commit ::
  "('db, 'st, 'rows, 'e) sqlite_ops \<Rightarrow> 'db transaction \<Rightarrow> ('db, 'e) sqlite_con \<Rightarrow> (unit, 'e) result res \<times> ('db, 'e) sqlite_con" where
  "tr_commit ops tr c =
     (case tr of
        None \<Rightarrow> (Inl (Panic ''called Option::unwrap() on a None value''), c)
      | Some con \<Rightarrow>
          (case guard_commit ops con c of
             (Ok _, c) \<Rightarrow> (case tr_drop ops None c of (r, c) \<Rightarrow> (res_bind r (\<lambda>_. Inr (Ok ())), c))
           | (Err (con, e), c) \<Rightarrow> (case tr_drop ops (Some con) c of (r, c) \<Rightarrow> (res_bind r (\<lambda>_. Inr (Err e)), c))))"

definition tr_rollback ::
  "('db, 'st, 'rows, 'e) sqlite_ops \<Rightarrow> 'db transaction \<Rightarrow> ('db, 'e) sqlite_con \<Rightarrow> (unit, 'e) result res \<times> ('db, 'e) sqlite_con" where
  "tr_rollback ops tr c = (case tr_drop ops tr c of (r, c) \<Rightarrow> (res_bind r (\<lambda>_. Inr (Ok ())), c))"

section \<open>Queries\<close>

record write_result =
  wr_last_insert_id :: "nat option"
  wr_affected_rows :: nat

definition write_result_new :: "nat option \<Rightarrow> nat \<Rightarrow> write_result" where
  "write_result_new i n = \<lparr>wr_last_insert_id = i, wr_affected_rows = n\<rparr>"

text \<open>
  One statement, prepared once, is executed with each set of parameters; the first error ends it.  A query without rows of values is the case of
  one statement.
\<close>

fun execute_all :: "('db, 'st, 'rows, 'e) sqlite_ops \<Rightarrow> 'st list \<Rightarrow> 'db \<Rightarrow> (nat list, 'e) result \<times> 'db" where
  "execute_all ops [] db = (Ok [], db)"
| "execute_all ops (st # sts) db =
     (case stmt_execute ops st db of
        (Err e, db) \<Rightarrow> (Err e, db)
      | (Ok n, db) \<Rightarrow>
          (case execute_all ops sts db of
             (Err e, db) \<Rightarrow> (Err e, db)
           | (Ok ns, db) \<Rightarrow> (Ok (n # ns), db)))"

definition rowid_u64 :: "int \<Rightarrow> nat" where
  "rowid_u64 i = nat (i mod 2 ^ 64)"

definition sqlite_exec_query_with_transaction ::
  "('db, 'st, 'rows, 'e) sqlite_ops \<Rightarrow> 'st list \<Rightarrow> 'db \<Rightarrow> ('db, 'e) sqlite_con \<Rightarrow>
   ('db \<times> write_result, 'e) result \<times> ('db, 'e) sqlite_con" where
  "sqlite_exec_query_with_transaction ops sts guard c =
     (case execute_all ops sts guard of
        (Err e, guard) \<Rightarrow> (Err e, guard_drop guard c)
      | (Ok ns, guard) \<Rightarrow>
          (Ok (guard, write_result_new (Some (rowid_u64 (last_insert_rowid ops guard))) (sum_list ns)), c))"

text \<open>A write in a transaction; the transaction that was passed is dropped when no transaction is returned.\<close>

definition write_with_transaction ::
  "('db, 'st, 'rows, 'e) sqlite_ops \<Rightarrow> 'st list \<Rightarrow> 'db transaction \<Rightarrow> ('db, 'e) sqlite_con \<Rightarrow>
   ('db transaction \<times> write_result, 'e) result res \<times> ('db, 'e) sqlite_con" where
  "write_with_transaction ops values tr c =
     (if values = [] then (Inr (Ok (tr, write_result_new None 0)), c)
      else (case tr of
              None \<Rightarrow> (Inl (Panic ''should be Some before transaction ended''), c)
            | Some con \<Rightarrow>
                (case sqlite_exec_query_with_transaction ops values con c of
                   (Ok (con, r), c) \<Rightarrow> (Inr (Ok (Some con, r)), c)
                 | (Err e, c) \<Rightarrow> (case tr_drop ops None c of (d, c) \<Rightarrow> (res_bind d (\<lambda>_. Inr (Err e)), c)))))"

definition read_with_transaction ::
  "('db, 'st, 'rows, 'e) sqlite_ops \<Rightarrow> 'st \<Rightarrow> 'db transaction \<Rightarrow> ('db, 'e) sqlite_con \<Rightarrow>
   ('db transaction \<times> 'rows, 'e) result res \<times> ('db, 'e) sqlite_con" where
  "read_with_transaction ops st tr c =
     (case tr of
        None \<Rightarrow> (Inl (Panic ''should be Some before transaction ended''), c)
      | Some con \<Rightarrow>
          (case stmt_query ops st con of
             (Ok rows, con) \<Rightarrow> (Inr (Ok (Some con, rows)), c)
           | (Err e, con) \<Rightarrow> (case tr_drop ops None (guard_drop con c) of (d, c) \<Rightarrow> (res_bind d (\<lambda>_. Inr (Err e)), c))))"

text \<open>Queries without a transaction.\<close>

definition sqlite_exec_query ::
  "('db, 'st, 'rows, 'e) sqlite_ops \<Rightarrow> 'st list \<Rightarrow> ('db, 'e) sqlite_con \<Rightarrow> ((write_result, 'e) result \<times> ('db, 'e) sqlite_con) option" where
  "sqlite_exec_query ops values c =
     (if values = [] then Some (Ok (write_result_new None 0), c)
      else map_option (\<lambda>(r, c).
        case r of
          Err e \<Rightarrow> (Err e, c)
        | Ok con \<Rightarrow>
            (case execute_all ops values con of
               (Err e, con) \<Rightarrow> (Err e, guard_drop con c)
             | (Ok ns, con) \<Rightarrow>
                 (Ok (write_result_new (Some (rowid_u64 (last_insert_rowid ops con))) (sum_list ns)), guard_drop con c)))
        (acquire Write c))"

definition sqlite_query ::
  "('db, 'st, 'rows, 'e) sqlite_ops \<Rightarrow> 'st \<Rightarrow> ('db, 'e) sqlite_con \<Rightarrow> (('rows, 'e) result \<times> ('db, 'e) sqlite_con) option" where
  "sqlite_query ops st c =
     map_option (\<lambda>(r, c).
       case r of
         Err e \<Rightarrow> (Err e, c)
       | Ok con \<Rightarrow> (case stmt_query ops st con of (r, con) \<Rightarrow> (r, guard_drop con c))) (acquire Read c)"

section \<open>Using a transaction\<close>

text \<open>A caller starts a transaction, writes in it as long as that succeeds, and then commits, rolls back or drops it.\<close>

datatype tx_end = Do_Commit | Do_Rollback | Do_Drop

datatype 'e tx_outcome = Not_Started 'e | Write_Failed 'e | Write_Panicked panic | Ended "(unit, 'e) result res"

definition tx_finish ::
  "('db, 'st, 'rows, 'e) sqlite_ops \<Rightarrow> tx_end \<Rightarrow> 'db transaction \<Rightarrow> ('db, 'e) sqlite_con \<Rightarrow> (unit, 'e) result res \<times> ('db, 'e) sqlite_con" where
  "tx_finish ops fin tr c =
     (case fin of
        Do_Commit \<Rightarrow> tr_commit ops tr c
      | Do_Rollback \<Rightarrow> tr_rollback ops tr c
      | Do_Drop \<Rightarrow> (case tr_drop ops tr c of (r, c) \<Rightarrow> (res_bind r (\<lambda>_. Inr (Ok ())), c)))"

fun tx_writes ::
  "('db, 'st, 'rows, 'e) sqlite_ops \<Rightarrow> 'st list list \<Rightarrow> tx_end \<Rightarrow> 'db transaction \<Rightarrow> ('db, 'e) sqlite_con \<Rightarrow>
   'e tx_outcome \<times> ('db, 'e) sqlite_con" where
  "tx_writes ops [] fin tr c = (case tx_finish ops fin tr c of (r, c) \<Rightarrow> (Ended r, c))"
| "tx_writes ops (sts # writes) fin tr c =
     (case write_with_transaction ops sts tr c of
        (Inl p, c) \<Rightarrow> (Write_Panicked p, c)
      | (Inr (Err e), c) \<Rightarrow> (Write_Failed e, c)
      | (Inr (Ok (tr, _)), c) \<Rightarrow> tx_writes ops writes fin tr c)"

definition tx_run ::
  "('db, 'st, 'rows, 'e) sqlite_ops \<Rightarrow> 'st list list \<Rightarrow> tx_end \<Rightarrow> ('db, 'e) sqlite_con \<Rightarrow> ('e tx_outcome \<times> ('db, 'e) sqlite_con) option" where
  "tx_run ops writes fin c =
     map_option (\<lambda>(r, c). case r of Err e \<Rightarrow> (Not_Started e, c) | Ok tr \<Rightarrow> tx_writes ops writes fin tr c) (tr_new ops c)"

text \<open>The connection after all statements.\<close>

definition after_writes :: "('db, 'st, 'rows, 'e) sqlite_ops \<Rightarrow> 'st list list \<Rightarrow> 'db \<Rightarrow> 'db" where
  "after_writes ops writes db = fold (\<lambda>st db. snd (stmt_execute ops st db)) (concat writes) db"

section \<open>What a transaction does\<close>

lemma sqlite_lawsD:
  assumes "sqlite_laws ops v"
  shows "\<not> in_transaction v db \<Longrightarrow> working v db = committed v db"
    and "execute_batch ops ''BEGIN DEFERRED'' db = (r, db') \<Longrightarrow>
      (in_transaction v db \<longrightarrow> r \<noteq> Ok ()) \<and> committed v db' = committed v db \<and> working v db' = working v db \<and>
      in_transaction v db' = (in_transaction v db \<or> r = Ok ())"
    and "execute_batch ops ''COMMIT'' db = (r, db') \<Longrightarrow> in_transaction v db \<Longrightarrow>
      (if r = Ok () then \<not> in_transaction v db' \<and> committed v db' = working v db else in_transaction v db' \<and> committed v db' = committed v db)"
    and "execute_batch ops ''ROLLBACK'' db = (Ok (), db') \<Longrightarrow> in_transaction v db \<Longrightarrow> \<not> in_transaction v db' \<and> committed v db' = committed v db"
  using assms unfolding sqlite_laws_def by blast+

lemma execute_all_open:
  assumes "\<forall>st \<in> set sts. plain_stmt ops v st" "in_transaction v db" "execute_all ops sts db = (r, db')"
  shows "in_transaction v db' \<and> committed v db' = committed v db \<and>
    (is_ok r \<longrightarrow> db' = fold (\<lambda>st db. snd (stmt_execute ops st db)) sts db)"
  using assms
proof (induction sts arbitrary: db r db')
  case (Cons st sts)
  obtain r1 db1 where one: "stmt_execute ops st db = (r1, db1)" by fastforce
  then have db1: "in_transaction v db1" "committed v db1 = committed v db" using Cons.prems(1,2) by (auto simp: plain_stmt_def)
  obtain r2 db2 where two: "execute_all ops sts db1 = (r2, db2)" by fastforce
  show ?case
    using Cons.IH [OF _ db1(1) two] Cons.prems(1,3) one two db1 by (cases r1; cases r2) auto
qed simp

text \<open>A transaction that was started owns an open connection until it ends; a write that fails puts the open connection back.\<close>

definition tx_owns :: "('db, 'v) sqlite_view \<Rightarrow> 'v \<Rightarrow> 'db transaction \<Rightarrow> ('db, 'e) sqlite_con \<Rightarrow> bool" where
  "tx_owns v old tr c \<longleftrightarrow> (\<exists>db. tr = Some db \<and> in_transaction v db \<and> committed v db = old) \<and> con_slot c = None"

lemma guard_drop_simps [simp]: "con_slot c = None \<Longrightarrow> con_slot (guard_drop db c) = Some db" "con_query_start (guard_drop db c) = con_query_start c"
  by (simp_all add: guard_drop_def)

lemma write_with_transaction_cases:
  assumes "\<forall>st \<in> set sts. plain_stmt ops v st" "tx_owns v old (Some db) c" "write_with_transaction ops sts (Some db) c = (r, c')"
  shows "case r of
      Inl p \<Rightarrow> False
    | Inr (Err e) \<Rightarrow> (\<exists>db'. con_slot c' = Some db' \<and> in_transaction v db' \<and> committed v db' = old)
    | Inr (Ok (tr, _)) \<Rightarrow> tx_owns v old tr c' \<and> tr = Some (fold (\<lambda>st db. snd (stmt_execute ops st db)) sts db)"
proof (cases "sts = []")
  case True
  then show ?thesis using assms(2,3) by (auto simp: write_with_transaction_def)
next
  case False
  obtain r1 db1 where one: "execute_all ops sts db = (r1, db1)" by fastforce
  have "in_transaction v db1 \<and> committed v db1 = old \<and> (is_ok r1 \<longrightarrow> db1 = fold (\<lambda>st db. snd (stmt_execute ops st db)) sts db)"
    using execute_all_open [OF assms(1) _ one] assms(2) by (auto simp: tx_owns_def)
  then show ?thesis
    using assms(2,3) False one
    by (cases r1) (auto simp: write_with_transaction_def sqlite_exec_query_with_transaction_def tr_drop_def tx_owns_def)
qed

text \<open>What is committed when a transaction has ended: \<open>new\<close> after a successful commit, else \<open>old\<close>.\<close>

definition tx_ended :: "('db, 'v) sqlite_view \<Rightarrow> tx_end \<Rightarrow> 'v \<Rightarrow> 'v \<Rightarrow> (unit, 'e) result res \<Rightarrow> 'db \<Rightarrow> bool" where
  "tx_ended v fin old new r db \<longleftrightarrow>
     (case r of
        Inl p \<Rightarrow> True
      | Inr (Ok _) \<Rightarrow> \<not> in_transaction v db \<and> committed v db = (if fin = Do_Commit then new else old)
      | Inr (Err e) \<Rightarrow> fin = Do_Commit \<and> \<not> in_transaction v db \<and> committed v db = old)"

lemma tx_finish_cases:
  assumes laws: "sqlite_laws ops v" and owns: "tx_owns v old (Some db) c" and fin: "tx_finish ops fin (Some db) c = (r, c')"
  shows "\<exists>db'. con_slot c' = Some db' \<and> tx_ended v fin old (working v db) r db'"
proof -
  have db: "in_transaction v db" "committed v db = old" "con_slot c = None" using owns by (auto simp: tx_owns_def)
  have drop: "\<exists>db'. con_slot c1 = Some db' \<and> (r1 = Inr () \<longrightarrow> \<not> in_transaction v db' \<and> committed v db' = old)"
    if "tr_drop ops (Some db1) c = (r1, c1)" "in_transaction v db1" "committed v db1 = old" for r1 c1 db1
    using that db(3) sqlite_lawsD(4) [OF laws, of db1] by (auto simp: tr_drop_def split: prod.splits result.splits)
  show ?thesis
  proof (cases fin)
    case Do_Commit
    obtain r1 db1 where commit: "execute_batch ops ''COMMIT'' db = (r1, db1)" by fastforce
    note law = sqlite_lawsD(3) [OF laws commit db(1)]
    show ?thesis
    proof (cases r1)
      case (Ok u)
      then show ?thesis
        using fin Do_Commit commit law db(3) by (auto simp: tx_ended_def tx_finish_def tr_commit_def guard_commit_def tr_drop_def Let_def)
    next
      case (Err e)
      obtain r2 c2 where rb: "tr_drop ops (Some db1) c = (r2, c2)" by fastforce
      show ?thesis
        using drop [OF rb] fin Do_Commit commit law Err db rb
        by (cases r2) (auto simp: tx_ended_def tx_finish_def tr_commit_def guard_commit_def)
    qed
  next
    case Do_Rollback
    obtain r2 c2 where rb: "tr_drop ops (Some db) c = (r2, c2)" by fastforce
    show ?thesis using drop [OF rb db(1,2)] fin Do_Rollback rb by (cases r2) (auto simp: tx_ended_def tx_finish_def tr_rollback_def)
  next
    case Do_Drop
    obtain r2 c2 where rb: "tr_drop ops (Some db) c = (r2, c2)" by fastforce
    show ?thesis using drop [OF rb db(1,2)] fin Do_Drop rb by (cases r2) (auto simp: tx_ended_def tx_finish_def)
  qed
qed

lemma tx_writes_cases:
  assumes laws: "sqlite_laws ops v" and "\<forall>st \<in> set (concat writes). plain_stmt ops v st" "tx_owns v old (Some db) c"
    and "tx_writes ops writes fin (Some db) c = (out, c')"
  shows "\<exists>db'. con_slot c' = Some db' \<and>
    (case out of
       Not_Started e \<Rightarrow> False
     | Write_Panicked p \<Rightarrow> False
     | Write_Failed e \<Rightarrow> in_transaction v db' \<and> committed v db' = old
     | Ended r \<Rightarrow> tx_ended v fin old (working v (after_writes ops writes db)) r db')"
  using assms(2-)
proof (induction writes arbitrary: db c)
  case Nil
  obtain r c1 where "tx_finish ops fin (Some db) c = (r, c1)" by fastforce
  with tx_finish_cases [OF laws Nil(2) this] Nil(3) show ?case by (auto simp: after_writes_def)
next
  case (Cons sts writes)
  obtain r c1 where one: "write_with_transaction ops sts (Some db) c = (r, c1)" by fastforce
  have plain: "\<forall>st \<in> set sts. plain_stmt ops v st" "\<forall>st \<in> set (concat writes). plain_stmt ops v st" using Cons.prems(1) by auto
  note step = write_with_transaction_cases [OF plain(1) Cons.prems(2) one]
  show ?case
  proof (cases r)
    case (Inl p)
    with step show ?thesis by simp
  next
    case (Inr res)
    show ?thesis
    proof (cases res)
      case (Err e)
      with step Inr one Cons.prems(3) show ?thesis by auto
    next
      case (Ok x)
      obtain tr wr where x: "x = (tr, wr)" by fastforce
      with step Inr Ok have tr: "tx_owns v old tr c1" "tr = Some (fold (\<lambda>st db. snd (stmt_execute ops st db)) sts db)" by auto
      have "tx_writes ops writes fin tr c1 = (out, c')" using Cons.prems(3) one Inr Ok x by simp
      moreover have "after_writes ops writes (fold (\<lambda>st db. snd (stmt_execute ops st db)) sts db) = after_writes ops (sts # writes) db"
        by (simp add: after_writes_def)
      ultimately show ?thesis using Cons.IH [OF plain(2) tr(1) [unfolded tr(2)]] unfolding tr(2) by (cases out) auto
    qed
  qed
qed

lemma tr_new_cases:
  assumes laws: "sqlite_laws ops v" and "con_slot c = Some db"
  shows "(\<exists>e c' db'. tr_new ops c = Some (Err e, c') \<and> con_slot c' = Some db' \<and>
        in_transaction v db' = in_transaction v db \<and> committed v db' = committed v db) \<or>
    (\<exists>c'. let db' = snd (execute_batch ops ''BEGIN DEFERRED'' db) in
       tr_new ops c = Some (Ok (Some db'), c') \<and> \<not> in_transaction v db \<and> tx_owns v (committed v db) (Some db') c')"
proof -
  obtain r1 db1 where start: "execute_batch ops ''BEGIN DEFERRED'' db = (r1, db1)" by fastforce
  note law = sqlite_lawsD(2) [OF laws start]
  show ?thesis
    using assms(2) law start
    by (cases "case con_query_start c of None \<Rightarrow> Ok () | Some query_start \<Rightarrow> query_start Transaction"; cases r1)
      (auto simp: tr_new_def acquire_def tx_owns_def)
qed

section \<open>After a failed write\<close>

text \<open>Later uses of the connection without the lost transaction, with whether they succeed.\<close>

datatype 'st later = Later_Write "'st list" | Later_Read 'st | Later_Start

definition later_step ::
  "('db, 'st, 'rows, 'e) sqlite_ops \<Rightarrow> 'st later \<Rightarrow> ('db, 'e) sqlite_con \<Rightarrow> (bool \<times> ('db, 'e) sqlite_con) option" where
  "later_step ops op c =
     (case op of
        Later_Write sts \<Rightarrow> map_option (\<lambda>(r, c). (is_ok r, c)) (sqlite_exec_query ops sts c)
      | Later_Read st \<Rightarrow> map_option (\<lambda>(r, c). (is_ok r, c)) (sqlite_query ops st c)
      | Later_Start \<Rightarrow>
          map_option (\<lambda>(r, c). case r of Err _ \<Rightarrow> (False, c) | Ok tr \<Rightarrow> (True, snd (tr_drop ops tr c))) (tr_new ops c))"

fun later_run ::
  "('db, 'st, 'rows, 'e) sqlite_ops \<Rightarrow> 'st later list \<Rightarrow> ('db, 'e) sqlite_con \<Rightarrow> (bool list \<times> ('db, 'e) sqlite_con) option" where
  "later_run ops [] c = Some ([], c)"
| "later_run ops (op # later) c =
     Option.bind (later_step ops op c) (\<lambda>(ok, c). map_option (\<lambda>(oks, c). (ok # oks, c)) (later_run ops later c))"

fun later_stmts :: "'st later \<Rightarrow> 'st set" where
  "later_stmts (Later_Write sts) = set sts"
| "later_stmts (Later_Read st) = {st}"
| "later_stmts Later_Start = {}"

lemma acquire_slot:
  assumes "con_slot c = Some db"
  shows "(\<exists>e. acquire qt c = Some (Err e, c)) \<or> acquire qt c = Some (Ok db, c\<lparr>con_slot := None\<rparr>)"
  using assms
  by (cases "case con_query_start c of None \<Rightarrow> Ok () | Some query_start \<Rightarrow> query_start qt") (auto simp: acquire_def)

definition left_open :: "('db, 'v) sqlite_view \<Rightarrow> 'v \<Rightarrow> ('db, 'e) sqlite_con \<Rightarrow> bool" where
  "left_open v old c \<longleftrightarrow> (\<exists>db. con_slot c = Some db \<and> in_transaction v db \<and> committed v db = old)"

text \<open>Reading in a transaction keeps it open, and loses it in the same way when it fails.\<close>

lemma read_with_transaction_cases:
  assumes "plain_stmt ops v st" "tx_owns v old (Some db) c" "read_with_transaction ops st (Some db) c = (r, c')"
  shows "case r of
      Inl p \<Rightarrow> False
    | Inr (Err e) \<Rightarrow> left_open v old c'
    | Inr (Ok (tr, _)) \<Rightarrow> tx_owns v old tr c'"
proof -
  obtain r1 db1 where one: "stmt_query ops st db = (r1, db1)" by fastforce
  then have "in_transaction v db1 \<and> committed v db1 = old \<and> con_slot c = None"
    using assms(1,2) by (auto simp: plain_stmt_def tx_owns_def dest!: spec [of _ db])
  then show ?thesis
    using assms(3) one by (cases r1) (auto simp: read_with_transaction_def tr_drop_def left_open_def tx_owns_def)
qed

lemma later_step_open:
  assumes laws: "sqlite_laws ops v" and plain: "\<forall>st \<in> later_stmts op. plain_stmt ops v st" and "left_open v old c"
  shows "\<exists>ok c'. later_step ops op c = Some (ok, c') \<and> left_open v old c' \<and> (op = Later_Start \<longrightarrow> \<not> ok)"
proof -
  obtain db where db: "con_slot c = Some db" "in_transaction v db" "committed v db = old" using assms(3) by (auto simp: left_open_def)
  show ?thesis
  proof (cases op)
    case (Later_Write sts)
    obtain r1 db1 where all: "execute_all ops sts db = (r1, db1)" by fastforce
    then have db1: "in_transaction v db1 \<and> committed v db1 = old" using execute_all_open [OF _ db(2) all] plain db(3) Later_Write by auto
    show ?thesis
    proof (cases "sts = []")
      case False
      with acquire_slot [OF db(1), of Write] show ?thesis
        using all Later_Write assms(3) db1 by (elim disjE exE; cases r1) (auto simp: later_step_def sqlite_exec_query_def left_open_def)
    qed (use Later_Write assms(3) in \<open>auto simp: later_step_def sqlite_exec_query_def\<close>)
  next
    case (Later_Read st)
    obtain r1 db1 where one: "stmt_query ops st db = (r1, db1)" by fastforce
    then have "in_transaction v db1 \<and> committed v db1 = old" using plain db(2,3) Later_Read unfolding plain_stmt_def by force
    with acquire_slot [OF db(1), of Read] show ?thesis
      using one Later_Read assms(3) by (elim disjE exE) (auto simp: later_step_def sqlite_query_def left_open_def)
  next
    case Later_Start
    then show ?thesis using tr_new_cases [OF laws db(1)] db by (auto simp: later_step_def left_open_def Let_def)
  qed
qed

lemma later_run_open:
  assumes laws: "sqlite_laws ops v" and "\<forall>op \<in> set later. \<forall>st \<in> later_stmts op. plain_stmt ops v st" "left_open v old c"
  shows "\<exists>oks c'. later_run ops later c = Some (oks, c') \<and> left_open v old c' \<and> list_all2 (\<lambda>op ok. op = Later_Start \<longrightarrow> \<not> ok) later oks"
  using assms(2-)
proof (induction later arbitrary: c)
  case (Cons op later)
  then obtain ok c1 where one: "later_step ops op c = Some (ok, c1)" "left_open v old c1" "op = Later_Start \<longrightarrow> \<not> ok"
    using later_step_open [OF laws, of op old c] by auto
  then show ?case using Cons.IH [of c1] Cons.prems(1) by auto
qed simp

section \<open>Properties\<close>



section \<open>A small SQLite\<close>

text \<open>
  A database of numbers without duplicates, which satisfies the laws: whether it is in a transaction, the
  committed rows and the rows that its own queries see.  A statement inserts a row.
\<close>

type_synonym number_db = "bool \<times> nat list \<times> nat list"

definition number_batch :: "string \<Rightarrow> number_db \<Rightarrow> (unit, string) result \<times> number_db" where
  "number_batch s db =
     (case db of (tx, com, work) \<Rightarrow>
        if s = ''BEGIN DEFERRED'' then (if tx then (Err ''cannot start a transaction within a transaction'', db) else (Ok (), (True, com, com)))
        else if \<not> tx then (Err ''no transaction is active'', db)
        else if s = ''COMMIT'' then (Ok (), (False, work, work))
        else (Ok (), (False, com, com)))"

definition number_insert :: "nat \<Rightarrow> number_db \<Rightarrow> (nat, string) result \<times> number_db" where
  "number_insert n db =
     (case db of (tx, com, work) \<Rightarrow>
        if n \<in> set work then (Err ''UNIQUE constraint failed'', db)
        else (Ok 1, (tx, if tx then com else n # work, n # work)))"

definition number_sqlite :: "(number_db, nat, nat list, string) sqlite_ops" where
  "number_sqlite =
     \<lparr>execute_batch = number_batch, stmt_query = (\<lambda>_ db. (Ok (snd (snd db)), db)), stmt_execute = number_insert,
      last_insert_rowid = (\<lambda>db. int (length (snd (snd db))))\<rparr>"

definition number_view :: "(number_db, nat list) sqlite_view" where
  "number_view = \<lparr>in_transaction = fst, committed = (\<lambda>db. fst (snd db)), working = (\<lambda>(tx, com, work). if tx then work else com)\<rparr>"

lemma number_laws: "sqlite_laws number_sqlite number_view"
  by (auto simp: sqlite_laws_def number_sqlite_def number_view_def number_batch_def split: if_splits)

lemma number_plain: "plain_stmt number_sqlite number_view n"
  by (auto simp: plain_stmt_def number_sqlite_def number_view_def number_insert_def)

definition number_con :: "(number_db, string) sqlite_con" where
  "number_con = con_new (False, [], [])"



end
