(* ===== verification/Sql_Query.thy ===== *)
theory Sql_Query
  imports Rust_Ints "HOL-Library.Word"
begin

text \<open>
  How the crate \<open>sql\<close> turns values into query text and query results into values: \<open>ToSQL\<close> and the conversions of
  row fields (\<open>mysql_client_traits/to_sql.rs\<close>, \<open>row_field.rs\<close>), lists (\<open>common/mysql.rs\<close>), the wrapper of
  values for SQLite and the text and the parameters of the queries that the macro \<open>queries!\<close> generates
  (\<open>sql/src/lib.rs\<close>).  The literal of one value, \<open>Value::as_sql\<close>, is an argument: it is code of the MySQL client.  A
  floating point number is its bit pattern.
\<close>

section \<open>Text of lists\<close>

text \<open>The loop over the elements of a list, with its flag \<open>first\<close>.\<close>

fun push_separated :: "bool \<Rightarrow> string list \<Rightarrow> string \<Rightarrow> string" where
  "push_separated first [] acc = acc"
| "push_separated first (v # vs) acc = push_separated False vs ((if first then acc else acc @ '', '') @ v)"

definition sql_list_as_sql :: "('v \<Rightarrow> string) \<Rightarrow> 'v list \<Rightarrow> string" where
  "sql_list_as_sql as_sql vs = push_separated True (map as_sql vs) ''('' @ '')''"

definition emit_mysql_list :: "('v \<Rightarrow> string) \<Rightarrow> 'v list \<Rightarrow> string" where
  "emit_mysql_list as_sql vs = push_separated True (map as_sql vs) ''('' @ '')''"

text \<open>Tuples: the separator changes after the first element.\<close>

fun push_tuple :: "string \<Rightarrow> string list \<Rightarrow> string \<Rightarrow> string" where
  "push_tuple sep [] ret = ret"
| "push_tuple sep (v # vs) ret = push_tuple '', '' vs (ret @ sep @ v)"

definition tuple_to_sql :: "string list \<Rightarrow> string" where
  "tuple_to_sql elems = push_tuple [] elems ''('' @ '')''"

fun option_to_sql :: "('v \<Rightarrow> string) \<Rightarrow> 'v option \<Rightarrow> string" where
  "option_to_sql to_sql None = ''NULL''"
| "option_to_sql to_sql (Some v) = to_sql v"

text \<open>The columns of one row: all but the last are followed by a comma.\<close>

fun append_values :: "('v \<Rightarrow> string) \<Rightarrow> 'v list \<Rightarrow> string" where
  "append_values as_sql [] = []"
| "append_values as_sql [v] = as_sql v"
| "append_values as_sql (v # vs) = as_sql v @ '', '' @ append_values as_sql vs"

definition mysql_rows :: "('v \<Rightarrow> string) \<Rightarrow> 'v list list \<Rightarrow> string" where
  "mysql_rows as_sql rows = push_separated True (map (\<lambda>row. ''('' @ append_values as_sql row @ '')'') rows) []"

section \<open>Names and parameters of SQLite\<close>

fun trim_raw :: "string \<Rightarrow> string" where
  "trim_raw (x # y # rest) = (if x = CHR ''r'' \<and> y = CHR ''#'' then trim_raw rest else x # y # rest)"
| "trim_raw s = s"

definition param_name :: "string \<Rightarrow> string" where
  "param_name pname = '':'' @ trim_raw pname"

definition element_name :: "string \<Rightarrow> nat \<Rightarrow> string" where
  "element_name lname idx = '':'' @ lname @ nat_to_string idx"

definition emit_sqlite_list :: "string \<Rightarrow> nat \<Rightarrow> string" where
  "emit_sqlite_list lname n = push_separated True (map (element_name lname) [0..<n]) ''('' @ '')''"

definition prepare_sqlite_params :: "(string \<times> 'v) list \<Rightarrow> (string \<times> 'v list) list \<Rightarrow> (string \<times> 'v) list" where
  "prepare_sqlite_params ps ls =
     map (\<lambda>(p, v). (param_name p, v)) ps @
     concat (map (\<lambda>(l, vs). map (\<lambda>(idx, v). (element_name l idx, v)) (enumerate 0 vs)) ls)"

section \<open>Queries\<close>

text \<open>The format string of a query: text and named holes.  A name that is not given is an error of the compiler.\<close>

datatype piece = Lit string | Hole string

fun format_query :: "piece list \<Rightarrow> (string \<times> string) list \<Rightarrow> string option" where
  "format_query [] args = Some []"
| "format_query (Lit s # q) args = map_option ((@) s) (format_query q args)"
| "format_query (Hole n # q) args = Option.bind (map_of args n) (\<lambda>s. map_option ((@) s) (format_query q args))"

definition mysql_query :: "('v \<Rightarrow> string) \<Rightarrow> piece list \<Rightarrow> (string \<times> 'v) list \<Rightarrow> (string \<times> 'v list) list \<Rightarrow> string option" where
  "mysql_query as_sql q ps ls =
     format_query q (map (\<lambda>(p, v). (p, as_sql v)) ps @ map (\<lambda>(l, vs). (l, emit_mysql_list as_sql vs)) ls)"

definition sqlite_statement :: "piece list \<Rightarrow> string list \<Rightarrow> (string \<times> nat) list \<Rightarrow> string option" where
  "sqlite_statement q ps ls =
     format_query q (map (\<lambda>p. (p, param_name p)) ps @ map (\<lambda>(l, n). (l, emit_sqlite_list l n)) ls)"

definition commented :: "string option \<Rightarrow> string \<Rightarrow> string" where
  "commented c query = (case c of None \<Rightarrow> query | Some c \<Rightarrow> ''/* '' @ c @ '' */'' @ query)"

text \<open>Queries that write also name how they insert.\<close>

datatype query_kind = Kind_None | Insert_Or_Ignore

fun mysql_kind :: "query_kind \<Rightarrow> (string \<times> string) list" where
  "mysql_kind Kind_None = []"
| "mysql_kind Insert_Or_Ignore = [(''insert_or_ignore'', ''INSERT IGNORE'')]"

fun sqlite_kind :: "query_kind \<Rightarrow> (string \<times> string) list" where
  "sqlite_kind Kind_None = []"
| "sqlite_kind Insert_Or_Ignore = [(''insert_or_ignore'', ''INSERT OR IGNORE'')]"

definition mysql_write ::
  "('v \<Rightarrow> string) \<Rightarrow> query_kind \<Rightarrow> piece list \<Rightarrow> (string \<times> 'v) list \<Rightarrow> (string \<times> 'v list) list \<Rightarrow> string option" where
  "mysql_write as_sql kind q ps ls =
     format_query q (mysql_kind kind @ map (\<lambda>(p, v). (p, as_sql v)) ps @ map (\<lambda>(l, vs). (l, emit_mysql_list as_sql vs)) ls)"

definition sqlite_write_statement :: "query_kind \<Rightarrow> piece list \<Rightarrow> string list \<Rightarrow> (string \<times> nat) list \<Rightarrow> string option" where
  "sqlite_write_statement kind q ps ls =
     format_query q (sqlite_kind kind @ map (\<lambda>p. (p, param_name p)) ps @ map (\<lambda>(l, n). (l, emit_sqlite_list l n)) ls)"

text \<open>\<open>join\<close> of the standard library.\<close>

fun vec_join :: "string list \<Rightarrow> string" where
  "vec_join [] = []"
| "vec_join [v] = v"
| "vec_join (v # vs) = v @ '', '' @ vec_join vs"

text \<open>Inserting rows: MySQL gets all rows in one statement, SQLite one row, executed with the parameters of each.\<close>

definition mysql_insert :: "('v \<Rightarrow> string) \<Rightarrow> query_kind \<Rightarrow> piece list \<Rightarrow> 'v list list \<Rightarrow> (string \<times> 'v) list \<Rightarrow> string option" where
  "mysql_insert as_sql kind q rows ps =
     format_query q (mysql_kind kind @ (''values'', mysql_rows as_sql rows) # map (\<lambda>(p, v). (p, as_sql v)) ps)"

definition sqlite_insert_statement :: "query_kind \<Rightarrow> piece list \<Rightarrow> string list \<Rightarrow> string list \<Rightarrow> string option" where
  "sqlite_insert_statement kind q vnames ps =
     format_query q (sqlite_kind kind @ (''values'', ''('' @ vec_join (map param_name vnames) @ '')'') # map (\<lambda>p. (p, param_name p)) ps)"

definition sqlite_named_params :: "string list \<Rightarrow> 'v list \<Rightarrow> (string \<times> 'v) list \<Rightarrow> (string \<times> 'v) list" where
  "sqlite_named_params vnames row ps = zip (map param_name vnames) row @ map (\<lambda>(p, v). (param_name p, v)) ps"

section \<open>Values of SQLite\<close>

datatype mysql_value =
    V_NULL
  | V_Bytes "8 word list"
  | V_Int int
  | V_UInt nat
  | V_Float "32 word"
  | V_Double "64 word"
  | V_Date nat nat nat nat nat nat nat
  | V_Time bool nat nat nat nat nat

datatype sqlite_value = Null | Integer int | Real "64 word" | Text string | Blob "8 word list"

definition pad_zero :: "nat \<Rightarrow> nat \<Rightarrow> string" where
  "pad_zero w n = (let s = nat_to_string n in replicate (w - length s) (CHR ''0'') @ s)"

definition value_to_sql :: "(32 word \<Rightarrow> 64 word) \<Rightarrow> mysql_value \<Rightarrow> sqlite_value res" where
  "value_to_sql f32_to_f64 v =
     (case v of
        V_NULL \<Rightarrow> Inr Null
      | V_Bytes b \<Rightarrow> Inr (Blob b)
      | V_Int i \<Rightarrow> Inr (Integer i)
      | V_UInt u \<Rightarrow> Inr (Integer (as_type I64 (int u)))
      | V_Float f \<Rightarrow> Inr (Real (f32_to_f64 f))
      | V_Double f \<Rightarrow> Inr (Real f)
      | V_Date year month day hour mins sec micro \<Rightarrow>
          Inr (Text (pad_zero 4 year @ ''-'' @ pad_zero 2 month @ ''-'' @ pad_zero 2 day @ '' '' @ pad_zero 2 hour @ '':'' @
            pad_zero 2 mins @ '':'' @ pad_zero 2 sec @ ''.'' @ pad_zero 6 micro))
      | V_Time _ _ _ _ _ _ \<Rightarrow> Inl (Panic ''not implemented: TODO(luk) implement time for sqlite''))"

definition column_result :: "(string \<Rightarrow> 8 word list) \<Rightarrow> sqlite_value \<Rightarrow> mysql_value" where
  "column_result utf8 v =
     (case v of
        Null \<Rightarrow> V_NULL
      | Integer i \<Rightarrow> V_Int i
      | Real f \<Rightarrow> V_Double f
      | Text s \<Rightarrow> V_Bytes (utf8 s)
      | Blob b \<Rightarrow> V_Bytes b)"

section \<open>Row fields\<close>

datatype row_field = RF_Bytes "8 word list" | RF_Double "64 word" | RF_I64 int | RF_U64 nat | RF_Null

datatype value_error = ValueError string

fun row_field_value :: "row_field \<Rightarrow> mysql_value" where
  "row_field_value (RF_Bytes b) = V_Bytes b"
| "row_field_value (RF_Double d) = V_Double d"
| "row_field_value (RF_I64 i) = V_Int i"
| "row_field_value (RF_U64 u) = V_UInt u"
| "row_field_value RF_Null = V_NULL"

definition int_conversion_error :: value_error where
  "int_conversion_error = ValueError ''Failed to convert Int type: out of range integral type conversion attempted''"

definition try_into :: "int_type \<Rightarrow> int \<Rightarrow> (int, value_error) result" where
  "try_into t x = (if in_type t x then Ok x else Err int_conversion_error)"

definition wrap_some :: "('a, 'e) result \<Rightarrow> ('a option, 'e) result" where
  "wrap_some r = (case r of Ok x \<Rightarrow> Ok (Some x) | Err e \<Rightarrow> Err e)"

definition field_to_int :: "int_type \<Rightarrow> row_field \<Rightarrow> (int option, value_error) result" where
  "field_to_int t field =
     (case field of
        RF_I64 v \<Rightarrow> wrap_some (try_into t v)
      | RF_U64 v \<Rightarrow> wrap_some (try_into t (int v))
      | RF_Double _ \<Rightarrow> Err (ValueError ''Expected row field to be RowField::Long, but got RowField::Double'')
      | RF_Bytes _ \<Rightarrow> Err (ValueError ''Expected row field to be RowField::Long, but got RowField::Bytes'')
      | RF_Null \<Rightarrow> Ok None)"

definition field_to_f64 :: "row_field \<Rightarrow> (64 word option, value_error) result" where
  "field_to_f64 field =
     (case field of
        RF_Double d \<Rightarrow> Ok (Some d)
      | RF_I64 _ \<Rightarrow> Err (ValueError ''Expected row field to be RowField::Double, but got RowField::I64'')
      | RF_U64 _ \<Rightarrow> Err (ValueError ''Expected row field to be RowField::Double, but got RowField::U64'')
      | RF_Bytes _ \<Rightarrow> Err (ValueError ''Expected row field to be RowField::Double, but got RowField::Bytes'')
      | RF_Null \<Rightarrow> Ok None)"

definition field_to_bytes :: "row_field \<Rightarrow> (8 word list option, value_error) result" where
  "field_to_bytes field =
     (case field of
        RF_Bytes b \<Rightarrow> Ok (Some b)
      | RF_I64 _ \<Rightarrow> Err (ValueError ''Expected row field to be RowField::Bytes, but got RowField::I64'')
      | RF_U64 _ \<Rightarrow> Err (ValueError ''Expected row field to be RowField::Bytes, but got RowField::U64'')
      | RF_Double _ \<Rightarrow> Err (ValueError ''Expected row field to be RowField::Bytes, but got RowField::Double'')
      | RF_Null \<Rightarrow> Ok None)"

definition array_error :: "nat \<Rightarrow> string \<Rightarrow> value_error" where
  "array_error n got = ValueError (''Expected row field to be [u8; '' @ nat_to_string n @ ''], but got '' @ got)"

definition field_to_array :: "nat \<Rightarrow> row_field \<Rightarrow> (8 word list option, value_error) result" where
  "field_to_array n field =
     (case field of
        RF_Bytes b \<Rightarrow> if length b = n then Ok (Some b) else Err (array_error n (nat_to_string (length b) @ '' bytes''))
      | RF_Double _ \<Rightarrow> Err (array_error n ''RowField::Double'')
      | RF_I64 _ \<Rightarrow> Err (array_error n ''RowField::I64'')
      | RF_U64 _ \<Rightarrow> Err (array_error n ''RowField::U64'')
      | RF_Null \<Rightarrow> Ok None)"

definition field_to_string :: "(8 word list \<Rightarrow> string) \<Rightarrow> row_field \<Rightarrow> (string option, value_error) result" where
  "field_to_string from_utf8_lossy field =
     (case field_to_bytes field of
        Ok b \<Rightarrow> Ok (map_option from_utf8_lossy b)
      | Err e \<Rightarrow> Err e)"

text \<open>Booleans: what the MySQL client makes of other values than unsigned zero and one is an argument.\<close>

definition field_to_bool :: "(mysql_value \<Rightarrow> (bool option, value_error) result) \<Rightarrow> row_field \<Rightarrow> (bool option, value_error) result" where
  "field_to_bool from_value_opt field =
     (if field = RF_U64 0 then Ok (Some False)
      else if field = RF_U64 1 then Ok (Some True)
      else from_value_opt (row_field_value field))"

definition try_from_field :: "string \<Rightarrow> (row_field \<Rightarrow> ('a option, value_error) result) \<Rightarrow> row_field \<Rightarrow> ('a, value_error) result" where
  "try_from_field type_name try_from_opt field =
     (case try_from_opt field of
        Err e \<Rightarrow> Err e
      | Ok None \<Rightarrow> Err (ValueError (''Expected row field to be non-null, but it was null for type '' @ type_name))
      | Ok (Some x) \<Rightarrow> Ok x)"

section \<open>Lists\<close>

text \<open>The strings with a separator between them: what all these loops compute.\<close>

fun separated :: "string list \<Rightarrow> string" where
  "separated [] = []"
| "separated [v] = v"
| "separated (v # vs) = v @ '', '' @ separated vs"

lemma separated_Cons: "vs \<noteq> [] \<Longrightarrow> separated (v # vs) = v @ '', '' @ separated vs"
  by (cases vs) auto

lemma push_separated_rest: "push_separated False vs acc = acc @ concat (map (\<lambda>v. '', '' @ v) vs)"
  by (induction vs arbitrary: acc) auto

lemma separated_concat: "separated (v # vs) = v @ concat (map (\<lambda>v. '', '' @ v) vs)"
proof (induction vs arbitrary: v)
  case (Cons w vs)
  then show ?case by (simp add: separated_Cons)
qed simp

lemma push_separated_eq: "push_separated True vs acc = acc @ separated vs"
  by (cases vs) (simp_all add: push_separated_rest separated_concat)

lemma push_tuple_rest: "push_tuple '', '' vs ret = ret @ concat (map (\<lambda>v. '', '' @ v) vs)"
  by (induction vs arbitrary: ret) auto

lemma push_tuple_eq: "push_tuple [] vs ret = ret @ separated vs"
  by (cases vs) (simp_all add: push_tuple_rest separated_concat)

lemma append_values_eq: "append_values as_sql vs = separated (map as_sql vs)"
  by (induction as_sql vs rule: append_values.induct) auto

text \<open>Lists, tuples and rows have the same text.\<close>

lemma lists_and_tuples:
  "sql_list_as_sql as_sql vs = ''('' @ separated (map as_sql vs) @ '')''"
  "emit_mysql_list as_sql vs = ''('' @ separated (map as_sql vs) @ '')''"
  "tuple_to_sql (map as_sql vs) = ''('' @ separated (map as_sql vs) @ '')''"
  "mysql_rows as_sql rows = separated (map (\<lambda>row. tuple_to_sql (map as_sql row)) rows)"
  by (simp_all add: sql_list_as_sql_def emit_mysql_list_def tuple_to_sql_def mysql_rows_def push_separated_eq push_tuple_eq append_values_eq)

section \<open>Binding parameters\<close>

text \<open>
  A statement for SQLite as text and placeholders, and what it means under its parameters: every placeholder stands
  for the value that was bound to its name last.
\<close>

datatype token = Plain string | Place string

fun token_text :: "token \<Rightarrow> string" where
  "token_text (Plain s) = s"
| "token_text (Place n) = n"

fun token_bound :: "('v \<Rightarrow> string) \<Rightarrow> (string \<times> 'v) list \<Rightarrow> token \<Rightarrow> string option" where
  "token_bound as_sql params (Plain s) = Some s"
| "token_bound as_sql params (Place n) = map_option as_sql (map_of (rev params) n)"

fun bound_text :: "('v \<Rightarrow> string) \<Rightarrow> (string \<times> 'v) list \<Rightarrow> token list \<Rightarrow> string option" where
  "bound_text as_sql params [] = Some []"
| "bound_text as_sql params (tok # toks) =
     Option.bind (token_bound as_sql params tok) (\<lambda>s. map_option ((@) s) (bound_text as_sql params toks))"

definition tokens_text :: "token list \<Rightarrow> string" where
  "tokens_text toks = concat (map token_text toks)"

lemma tokens_text_simps [simp]:
  "tokens_text [] = []" "tokens_text (tok # toks) = token_text tok @ tokens_text toks"
  "tokens_text (toks @ toks') = tokens_text toks @ tokens_text toks'"
  by (simp_all add: tokens_text_def)

lemma append_Nil_fun: "map_option ((@) []) x = x"
  by (cases x) simp_all

lemma bound_text_append:
  "bound_text as_sql params toks = Some s \<Longrightarrow> bound_text as_sql params (toks @ toks') = map_option ((@) s) (bound_text as_sql params toks')"
proof (induction toks arbitrary: s)
  case (Cons tok toks)
  then show ?case by (auto simp: bind_eq_Some_conv option.map_comp comp_def)
qed (simp add: option.map_ident append_Nil_fun)

text \<open>The tokens of a list of placeholders.\<close>

fun place_list :: "string list \<Rightarrow> token list" where
  "place_list [] = []"
| "place_list [n] = [Place n]"
| "place_list (n # ns) = Place n # Plain '', '' # place_list ns"

lemma place_list_text: "tokens_text (place_list ns) = separated ns"
  by (induction ns rule: place_list.induct) auto

lemma place_list_bound:
  assumes "list_all2 (\<lambda>n v. map_of (rev params) n = Some v) ns vs"
  shows "bound_text as_sql params (place_list ns) = Some (separated (map as_sql vs))"
  using assms
proof (induction ns arbitrary: vs rule: place_list.induct)
  case (3 n m ns)
  then obtain v w ws where vs: "vs = v # w # ws" "map_of (rev params) n = Some v"
      "list_all2 (\<lambda>n v. map_of (rev params) n = Some v) (m # ns) (w # ws)"
    by (auto simp: list_all2_Cons1)
  from 3(1) [OF vs(3)] vs(1,2) show ?case by simp
qed (auto simp: list_all2_Cons1)

lemma bound_distinct: "distinct (map fst params) \<Longrightarrow> (n, v) \<in> set params \<Longrightarrow> map_of (rev params) n = Some v"
  by (simp add: map_of_is_SomeI rev_map [symmetric])

text \<open>The tokens of a hole of the format string.\<close>

definition hole_tokens :: "(string \<times> 'v) list \<Rightarrow> (string \<times> 'v list) list \<Rightarrow> string \<Rightarrow> token list" where
  "hole_tokens ps ls n =
     (case map_of ps n of
        Some _ \<Rightarrow> [Place (param_name n)]
      | None \<Rightarrow>
          (case map_of ls n of
             Some vs \<Rightarrow> Plain ''('' # place_list (map (element_name n) [0..<length vs]) @ [Plain '')'']
           | None \<Rightarrow> []))"

lemma map_of_keyed: "map_of (map (\<lambda>(k, v). (k, f k v)) xs) n = map_option (f n) (map_of xs n)"
  by (induction xs) auto

lemma hole_filled:
  assumes "distinct (map fst (prepare_sqlite_params ps ls))"
    and "map_of (map (\<lambda>(p, v). (p, as_sql v)) ps @ map (\<lambda>(l, vs). (l, emit_mysql_list as_sql vs)) ls) n = Some s"
  shows "map_of (map (\<lambda>p. (p, param_name p)) (map fst ps) @ map (\<lambda>(l, n). (l, emit_sqlite_list l n)) (map (\<lambda>(l, vs). (l, length vs)) ls)) n =
      Some (tokens_text (hole_tokens ps ls n)) \<and>
    bound_text as_sql (prepare_sqlite_params ps ls) (hole_tokens ps ls n) = Some s"
proof (cases "map_of ps n")
  case (Some v)
  then have "(param_name n, v) \<in> set (prepare_sqlite_params ps ls)"
    by (auto simp: prepare_sqlite_params_def dest!: map_of_SomeD intro: rev_image_eqI)
  moreover have "map_of (map (\<lambda>p. (p, param_name p)) (map fst ps)) n = Some (param_name n)"
    using map_of_keyed [of "\<lambda>k v. param_name k" ps n] Some by (simp add: comp_def case_prod_unfold)
  ultimately show ?thesis
    using assms Some map_of_keyed [of "\<lambda>k v. as_sql v" ps n] bound_distinct [OF assms(1)]
    by (auto simp: hole_tokens_def map_add_def)
next
  case None
  then have none: "map_of (map (\<lambda>(p, v). (p, as_sql v)) ps) n = None" "map_of (map (\<lambda>p. (p, param_name p)) (map fst ps)) n = None"
    using map_of_keyed [of "\<lambda>k v. as_sql v" ps n] map_of_keyed [of "\<lambda>k v. param_name k" ps n] by (simp_all add: comp_def case_prod_unfold)
  then obtain vs where vs: "map_of ls n = Some vs" "s = emit_mysql_list as_sql vs"
    using assms(2) map_of_keyed [of "\<lambda>k vs. emit_mysql_list as_sql vs" ls n] by (auto simp: map_add_def)
  have "list_all2 (\<lambda>n v. map_of (rev (prepare_sqlite_params ps ls)) n = Some v) (map (element_name n) [0..<length vs]) vs"
  proof (rule list_all2_all_nthI)
    fix i assume i: "i < length (map (element_name n) [0..<length vs])"
    have "(element_name n i, vs ! i) \<in> set (prepare_sqlite_params ps ls)"
      using map_of_SomeD [OF vs(1)] i
      by (force simp: prepare_sqlite_params_def in_set_enumerate_eq intro!: bexI [of _ "(n, vs)"] image_eqI [of _ _ "(i, vs ! i)"])
    then show "map_of (rev (prepare_sqlite_params ps ls)) (map (element_name n) [0..<length vs] ! i) = Some (vs ! i)"
      using bound_distinct [OF assms(1)] i by simp
  qed simp
  then have "bound_text as_sql (prepare_sqlite_params ps ls) (hole_tokens ps ls n) = Some s"
    using None vs by (simp add: hole_tokens_def bound_text_append [OF place_list_bound] lists_and_tuples)
  moreover have "map_of (map (\<lambda>(l, n). (l, emit_sqlite_list l n)) (map (\<lambda>(l, vs). (l, length vs)) ls)) n = Some (emit_sqlite_list n (length vs))"
    using map_of_keyed [of "\<lambda>k vs. emit_sqlite_list k (length vs)" ls n] vs(1) by (simp add: comp_def case_prod_unfold)
  ultimately show ?thesis
    using none None vs by (simp add: map_add_def hole_tokens_def place_list_text emit_sqlite_list_def push_separated_eq)
qed

text \<open>When each hole is filled with the same on both sides, so is the query.\<close>

lemma format_agree:
  assumes "\<And>n s. map_of margs n = Some s \<Longrightarrow> map_of sargs n = Some (tokens_text (toks_of n)) \<and> bound_text as_sql params (toks_of n) = Some s"
    and "format_query q margs = Some sql"
  shows "\<exists>toks. format_query q sargs = Some (tokens_text toks) \<and> bound_text as_sql params toks = Some sql"
  using assms(2)
proof (induction q arbitrary: sql)
  case Nil
  then show ?case by (intro exI [of _ "[]"]) simp
next
  case (Cons p q)
  show ?case
  proof (cases p)
    case (Lit s)
    with Cons(2) obtain rest' where rest': "sql = s @ rest'" "format_query q margs = Some rest'" by auto
    with Cons(1) obtain toks where "format_query q sargs = Some (tokens_text toks)" "bound_text as_sql params toks = Some rest'" by blast
    with Lit rest' show ?thesis by (intro exI [of _ "Plain s # toks"]) simp
  next
    case (Hole n)
    with Cons(2) obtain s rest' where s: "sql = s @ rest'" "map_of margs n = Some s" "format_query q margs = Some rest'"
      by (auto simp: bind_eq_Some_conv)
    with Cons(1) obtain toks where "format_query q sargs = Some (tokens_text toks)" "bound_text as_sql params toks = Some rest'" by blast
    with s assms(1) [OF s(2)] Hole show ?thesis
      by (intro exI [of _ "toks_of n @ toks"]) (simp add: bound_text_append)
  qed
qed

text \<open>Inserting: the tokens of the values of one row.\<close>

lemma vec_join_eq: "vec_join vs = separated vs"
  by (induction vs rule: vec_join.induct) simp_all

definition insert_tokens :: "string list \<Rightarrow> string \<Rightarrow> token list" where
  "insert_tokens vnames n =
     (if n = ''values'' then Plain ''('' # place_list (map param_name vnames) @ [Plain '')''] else [Place (param_name n)])"

lemma insert_filled:
  assumes "distinct (map fst (sqlite_named_params vnames row ps))" "length row = length vnames"
    and "map_of ((''values'', mysql_rows as_sql [row]) # map (\<lambda>(p, v). (p, as_sql v)) ps) n = Some s"
  shows "map_of ((''values'', ''('' @ vec_join (map param_name vnames) @ '')'') # map (\<lambda>p. (p, param_name p)) (map fst ps)) n =
      Some (tokens_text (insert_tokens vnames n)) \<and>
    bound_text as_sql (sqlite_named_params vnames row ps) (insert_tokens vnames n) = Some s"
proof (cases "n = ''values''")
  case True
  have "list_all2 (\<lambda>n v. map_of (rev (sqlite_named_params vnames row ps)) n = Some v) (map param_name vnames) row"
  proof (rule list_all2_all_nthI)
    fix i assume i: "i < length (map param_name vnames)"
    then have "(map param_name vnames ! i, row ! i) \<in> set (sqlite_named_params vnames row ps)"
      using assms(2) by (auto simp: sqlite_named_params_def in_set_zip intro!: exI [of _ i])
    then show "map_of (rev (sqlite_named_params vnames row ps)) (map param_name vnames ! i) = Some (row ! i)"
      using bound_distinct [OF assms(1)] by blast
  qed (simp add: assms(2))
  then show ?thesis using True assms(3)
    by (simp add: insert_tokens_def place_list_text vec_join_eq bound_text_append [OF place_list_bound] lists_and_tuples
        tuple_to_sql_def push_tuple_eq)
next
  case False
  then obtain v where v: "map_of ps n = Some v" "s = as_sql v"
    using assms(3) map_of_keyed [of "\<lambda>k v. as_sql v" ps n] by auto
  then have "(param_name n, v) \<in> set (sqlite_named_params vnames row ps)"
    by (auto simp: sqlite_named_params_def dest!: map_of_SomeD intro: rev_image_eqI)
  from bound_distinct [OF assms(1) this] v False map_of_keyed [of "\<lambda>k v. param_name k" ps n] show ?thesis
    by (simp add: insert_tokens_def comp_def case_prod_unfold)
qed

text \<open>The statement for SQLite, with the parameters of a row, is the statement for MySQL that inserts this row.\<close>

lemma sql_inserts_agree:
  assumes "distinct (map fst (sqlite_named_params vnames row ps))" "length row = length vnames"
    and "mysql_insert as_sql Kind_None q [row] ps = Some sql"
  shows "\<exists>toks. sqlite_insert_statement Kind_None q vnames (map fst ps) = Some (tokens_text toks) \<and>
    bound_text as_sql (sqlite_named_params vnames row ps) toks = Some sql"
  using format_agree [OF insert_filled [OF assms(1,2)], where q = q] assms(3)
  unfolding mysql_insert_def sqlite_insert_statement_def mysql_kind.simps sqlite_kind.simps append_Nil by blast

section \<open>Properties\<close>



text \<open>
  A parameter whose name is the name of a list with a number takes the name of an element of the list, and the queries
  differ: SQLite uses the element for both.
\<close>

lemma sqlite_names_collide:
  "mysql_query nat_to_string [Hole ''id1'', Lit '' '', Hole ''id''] [(''id1'', 7)] [(''id'', [4, 5])] = Some ''7 (4, 5)'' \<and>
   sqlite_statement [Hole ''id1'', Lit '' '', Hole ''id''] [''id1''] [(''id'', 2)] = Some '':id1 (:id0, :id1)'' \<and>
   map_of (rev (prepare_sqlite_params [(''id1'', 7)] [(''id'', [4, 5])])) '':id1'' = Some (5 :: nat)"
  by code_simp

text \<open>
  Which values survive being stored in SQLite: null, byte strings, signed integers and double precision numbers come back as they
  were; an unsigned integer comes back as the signed one with the same bits, so as another number exactly when it is \<open>2 ^ 63\<close>
  or more; single precision numbers and dates change their type; a time of day panics.
\<close>

theorem sqlite_value_roundtrip:
  "(case value_to_sql f32_to_f64 v of
      Inl p \<Rightarrow> \<exists>neg d h m s us. v = V_Time neg d h m s us
    | Inr w \<Rightarrow>
        (column_result utf8 w = v \<longleftrightarrow> v = V_NULL \<or> (\<exists>b. v = V_Bytes b) \<or> (\<exists>i. v = V_Int i) \<or> (\<exists>d. v = V_Double d)) \<and>
        (\<forall>u. v = V_UInt u \<and> u < 2 ^ 64 \<longrightarrow>
           (\<exists>i. column_result utf8 w = V_Int i \<and> i mod 2 ^ 64 = int u \<and> (i = int u \<longleftrightarrow> u < 2 ^ 63))))"
proof (cases v)
  case (V_UInt u)
  have "i = int u \<longleftrightarrow> u < 2 ^ 63" "i mod 2 ^ 64 = int u" if "u < 2 ^ 64" "i = as_type I64 (int u)" for i
    using that as_type_cong [of I64 "int u"] by (auto simp: as_type_id_iff in_type_def int_signed_def int_bits_def)
  with V_UInt show ?thesis by (simp add: value_to_sql_def column_result_def)
qed (simp_all add: value_to_sql_def column_result_def)

theorem sqlite_value_roundtrip_witness:
  "\<exists>i. value_to_sql (\<lambda>_. 0) (V_UInt (2 ^ 63)) = Inr (Integer i) \<and> i \<noteq> 2 ^ 63 \<and> i mod 2 ^ 64 = 2 ^ 63"
proof -
  obtain i where i: "value_to_sql (\<lambda>_. 0) (V_UInt (2 ^ 63)) = Inr (Integer i)" by (auto simp: value_to_sql_def)
  with sqlite_value_roundtrip [of "V_UInt (2 ^ 63)" "\<lambda>_. []" "\<lambda>_. 0"] show ?thesis by (auto simp: column_result_def)
qed

text \<open>Integers of rows are exact: a field converts to an integer type exactly when it is an integer that the type has.\<close>

lemma field_to_int_exact:
  "field_to_int t f = Ok (Some x) \<longleftrightarrow> in_type t x \<and> (f = RF_I64 x \<or> (\<exists>u. f = RF_U64 u \<and> x = int u))"
  by (cases f) (auto simp: field_to_int_def wrap_some_def try_into_def)

lemma try_from_field_null: "try_from_opt RF_Null = Ok None \<Longrightarrow> \<not> is_ok (try_from_field ty try_from_opt RF_Null)"
  by (simp add: try_from_field_def)

end
