(* ===== verification/Futures_Stats.thy ===== *)
theory Futures_Stats
  imports Stream_Wrappers
begin

text \<open>
  The timed futures and streams of \<open>shed/futures_stats/src\<close>: what they add up while they are polled, and when the
  callback of a stream gets it.

  An inner future or stream is the script of its stream_answers.  A poll takes the readings of the clock that the code makes
  in it; \<open>Instant::elapsed\<close> is zero when the clock went back.  The counters of polls and items are unbounded here:
  they are 64 bits wide and count single polls.
\<close>

section \<open>Readings of the clock\<close>

text \<open>
  In the order of the code: the time of the first poll, the start of this poll, the two readings after the poll of
  the inner future, and the one with which completion or the first item is timed.
\<close>

record reading =
  rd_now :: nat
  rd_poll_start :: nat
  rd_after :: nat
  rd_after_max :: nat
  rd_end :: nat

definition elapsed_at :: "nat \<Rightarrow> nat \<Rightarrow> duration" where
  "elapsed_at start now = now - start"

section \<open>\<open>TimedFuture\<close>\<close>

record future_stats =
  completion_time :: duration
  poll_time :: duration
  max_poll_time :: duration
  poll_count :: nat

record 'v timed_future =
  tf_inner :: "'v option list"
  tf_start :: "nat option"
  tf_poll_count :: nat
  tf_poll_time :: duration
  tf_max_poll_time :: duration

definition tf_new :: "'v option list \<Rightarrow> 'v timed_future" where
  "tf_new inner = \<lparr>tf_inner = inner, tf_start = None, tf_poll_count = 0, tf_poll_time = 0, tf_max_poll_time = 0\<rparr>"

definition get_or_insert_with :: "nat option \<Rightarrow> nat \<Rightarrow> nat" where
  "get_or_insert_with x now = (case x of None \<Rightarrow> now | Some start \<Rightarrow> start)"

text \<open>A future that has returned is not polled again; a script that has run out is pending.\<close>

definition fut_next :: "'v option list \<Rightarrow> 'v poll \<times> 'v option list" where
  "fut_next script = (case script of [] \<Rightarrow> (Poll_Pending, []) | None # rest \<Rightarrow> (Poll_Pending, rest) | Some v # rest \<Rightarrow> (Poll_Ready v, rest))"

definition tf_poll :: "reading \<Rightarrow> 'v timed_future \<Rightarrow> ((future_stats \<times> 'v) poll \<times> 'v timed_future) res" where
  "tf_poll rd st =
     (let start = get_or_insert_with (tf_start st) (rd_now rd);
          st = st\<lparr>tf_start := Some start, tf_poll_count := Suc (tf_poll_count st)\<rparr> in
      case fut_next (tf_inner st) of (p, inner) \<Rightarrow>
        res_bind (dur_add (tf_poll_time st) (elapsed_at (rd_poll_start rd) (rd_after rd))) (\<lambda>total.
          let st = st\<lparr>tf_inner := inner, tf_poll_time := total,
                      tf_max_poll_time := max (elapsed_at (rd_poll_start rd) (rd_after_max rd)) (tf_max_poll_time st)\<rparr> in
          (case p of
             Poll_Pending \<Rightarrow> Inr (Poll_Pending, st)
           | Poll_Ready out \<Rightarrow>
               Inr (Poll_Ready (\<lparr>completion_time = elapsed_at start (rd_end rd), poll_time = tf_poll_time st,
                                 max_poll_time = tf_max_poll_time st, poll_count = tf_poll_count st\<rparr>, out), st))))"

definition tf_cancel_data :: "nat \<Rightarrow> 'v timed_future \<Rightarrow> future_stats" where
  "tf_cancel_data now st =
     \<lparr>completion_time = (case tf_start st of None \<Rightarrow> 0 | Some start \<Rightarrow> elapsed_at start now), poll_time = tf_poll_time st,
      max_poll_time = tf_max_poll_time st, poll_count = tf_poll_count st\<rparr>"

definition ttf_poll ::
  "reading \<Rightarrow> ('v, 'e) result timed_future \<Rightarrow> ((future_stats \<times> 'v, 'e) result poll \<times> ('v, 'e) result timed_future) res" where
  "ttf_poll rd st =
     res_bind (tf_poll rd st) (\<lambda>(p, st).
       Inr (case p of
              Poll_Pending \<Rightarrow> Poll_Pending
            | Poll_Ready (stats, Ok v) \<Rightarrow> Poll_Ready (Ok (stats, v))
            | Poll_Ready (_, Err e) \<Rightarrow> Poll_Ready (Err e), st))"

text \<open>Awaiting: polls with the readings given, until the future returns.\<close>

fun fut_run :: "(reading \<Rightarrow> 's \<Rightarrow> ('r poll \<times> 's) res) \<Rightarrow> reading list \<Rightarrow> 's \<Rightarrow> ('r option \<times> 's) res" where
  "fut_run poll [] st = Inr (None, st)"
| "fut_run poll (rd # rds) st =
     res_bind (poll rd st) (\<lambda>(p, st). case p of Poll_Pending \<Rightarrow> fut_run poll rds st | Poll_Ready r \<Rightarrow> Inr (Some r, st))"

section \<open>\<open>TimedStream\<close>\<close>

record stream_stats =
  ss_completion_time :: "duration option"
  ss_first_item_time :: "duration option"
  ss_poll_time :: duration
  ss_max_poll_time :: duration
  ss_poll_count :: nat
  ss_count :: nat
  ss_completed :: bool

text \<open>The callback is there until it is called; its calls are recorded.\<close>

record 'a timed_stream =
  ts_inner :: "'a option list"
  ts_callback :: bool
  ts_start :: "nat option"
  ts_count :: nat
  ts_poll_count :: nat
  ts_poll_time :: duration
  ts_max_poll_time :: duration
  ts_first_item_time :: "duration option"
  ts_completed :: bool
  ts_calls :: "stream_stats list"

definition ts_new :: "'a option list \<Rightarrow> bool \<Rightarrow> 'a timed_stream" where
  "ts_new inner callback =
     \<lparr>ts_inner = inner, ts_callback = callback, ts_start = None, ts_count = 0, ts_poll_count = 0, ts_poll_time = 0,
      ts_max_poll_time = 0, ts_first_item_time = None, ts_completed = False, ts_calls = []\<rparr>"

definition ts_gen_stats :: "nat \<Rightarrow> 'a timed_stream \<Rightarrow> stream_stats" where
  "ts_gen_stats now st =
     \<lparr>ss_completion_time = map_option (\<lambda>start. elapsed_at start now) (ts_start st), ss_first_item_time = ts_first_item_time st,
      ss_poll_time = ts_poll_time st, ss_max_poll_time = ts_max_poll_time st, ss_poll_count = ts_poll_count st,
      ss_count = ts_count st, ss_completed = ts_completed st\<rparr>"

definition ts_run_callback :: "nat \<Rightarrow> 'a timed_stream \<Rightarrow> 'a timed_stream" where
  "ts_run_callback now st =
     (if ts_callback st then st\<lparr>ts_callback := False, ts_calls := ts_calls st @ [ts_gen_stats now st]\<rparr> else st)"

definition ts_poll_next :: "reading \<Rightarrow> 'a timed_stream \<Rightarrow> ('a option poll \<times> 'a timed_stream) res" where
  "ts_poll_next rd st =
     (if ts_completed st then Inr (Poll_Ready None, st)
      else
        let start = get_or_insert_with (ts_start st) (rd_now rd);
            st = st\<lparr>ts_start := Some start, ts_poll_count := Suc (ts_poll_count st)\<rparr> in
        case script_next (ts_inner st) of (p, inner) \<Rightarrow>
          res_bind (dur_add (ts_poll_time st) (elapsed_at (rd_poll_start rd) (rd_after rd))) (\<lambda>total.
            let st = st\<lparr>ts_inner := inner, ts_poll_time := total,
                        ts_max_poll_time := max (elapsed_at (rd_poll_start rd) (rd_after_max rd)) (ts_max_poll_time st)\<rparr> in
            (case p of
               Poll_Pending \<Rightarrow> Inr (Poll_Pending, st)
             | Poll_Ready (Some item) \<Rightarrow>
                 let st = st\<lparr>ts_count := Suc (ts_count st)\<rparr>;
                     st = (if ts_count st = 1 then st\<lparr>ts_first_item_time := Some (elapsed_at start (rd_end rd))\<rparr> else st) in
                 Inr (Poll_Ready (Some item), st)
             | Poll_Ready None \<Rightarrow> Inr (Poll_Ready None, ts_run_callback (rd_end rd) (st\<lparr>ts_completed := True\<rparr>)))))"

definition ts_drop :: "nat \<Rightarrow> 'a timed_stream \<Rightarrow> 'a timed_stream" where
  "ts_drop now st = ts_run_callback now st"

section \<open>\<open>TimedTryStream\<close>\<close>

record try_stream_stats =
  stream_stats :: stream_stats
  error_count :: nat
  first_error_position :: "nat option"

record ('t, 'e) timed_try_stream =
  tts_callback :: bool
  tts_inner :: "('t, 'e) result timed_stream"
  tts_error_count :: nat
  tts_first_error_position :: "nat option"
  tts_calls :: "try_stream_stats list"

definition tts_new :: "('t, 'e) result option list \<Rightarrow> ('t, 'e) timed_try_stream" where
  "tts_new inner =
     \<lparr>tts_callback = True, tts_inner = ts_new inner False, tts_error_count = 0, tts_first_error_position = None, tts_calls = []\<rparr>"

definition tts_gen_stats :: "nat \<Rightarrow> ('t, 'e) timed_try_stream \<Rightarrow> try_stream_stats" where
  "tts_gen_stats now st =
     \<lparr>stream_stats = ts_gen_stats now (tts_inner st), error_count = tts_error_count st,
      first_error_position = tts_first_error_position st\<rparr>"

definition tts_run_callback :: "nat \<Rightarrow> ('t, 'e) timed_try_stream \<Rightarrow> ('t, 'e) timed_try_stream" where
  "tts_run_callback now st =
     (if tts_callback st then st\<lparr>tts_callback := False, tts_calls := tts_calls st @ [tts_gen_stats now st]\<rparr> else st)"

definition tts_poll_next ::
  "reading \<Rightarrow> ('t, 'e) timed_try_stream \<Rightarrow> (('t, 'e) result option poll \<times> ('t, 'e) timed_try_stream) res" where
  "tts_poll_next rd st =
     res_bind (ts_poll_next rd (tts_inner st)) (\<lambda>(p, inner).
       let st = st\<lparr>tts_inner := inner\<rparr> in
       (case p of
          Poll_Pending \<Rightarrow> Inr (Poll_Pending, st)
        | Poll_Ready (Some (Ok v)) \<Rightarrow> Inr (Poll_Ready (Some (Ok v)), st)
        | Poll_Ready (Some (Err e)) \<Rightarrow>
            let st = st\<lparr>tts_error_count := Suc (tts_error_count st)\<rparr> in
            (if tts_first_error_position st = None then
               if ts_count (tts_inner st) = 0 then Inl (Panic ''attempt to subtract with overflow'')
               else Inr (Poll_Ready (Some (Err e)), st\<lparr>tts_first_error_position := Some (ts_count (tts_inner st) - 1)\<rparr>)
             else Inr (Poll_Ready (Some (Err e)), st))
        | Poll_Ready None \<Rightarrow> Inr (Poll_Ready None, tts_run_callback (rd_end rd) st)))"

definition tts_drop :: "nat \<Rightarrow> ('t, 'e) timed_try_stream \<Rightarrow> ('t, 'e) timed_try_stream" where
  "tts_drop now st = tts_run_callback now st"

text \<open>Polls with the readings given, whatever they return.\<close>

fun polls :: "(reading \<Rightarrow> 's \<Rightarrow> ('r poll \<times> 's) res) \<Rightarrow> reading list \<Rightarrow> 's \<Rightarrow> ('r poll list \<times> 's) res" where
  "polls poll [] st = Inr ([], st)"
| "polls poll (rd # rds) st =
     res_bind (poll rd st) (\<lambda>(p, st). res_bind (polls poll rds st) (\<lambda>(ps, st). Inr (p # ps, st)))"

section \<open>A clock that does not go back\<close>

definition reading_ok :: "reading \<Rightarrow> bool" where
  "reading_ok rd \<longleftrightarrow> rd_now rd \<le> rd_poll_start rd \<and> rd_poll_start rd \<le> rd_after rd \<and> rd_after rd \<le> rd_after_max rd \<and>
     rd_after_max rd \<le> rd_end rd \<and> rd_end rd < dur_limit"

definition clock_ok :: "reading list \<Rightarrow> bool" where
  "clock_ok rds \<longleftrightarrow> list_all reading_ok rds \<and> sorted_wrt (\<lambda>r s. rd_end r \<le> rd_now s) rds"

text \<open>What the polls took, and the longest of them.\<close>

definition spent :: "reading list \<Rightarrow> duration" where
  "spent rds = sum_list (map (\<lambda>rd. rd_after rd - rd_poll_start rd) rds)"

definition longest :: "reading list \<Rightarrow> duration" where
  "longest rds = fold (\<lambda>rd. max (rd_after_max rd - rd_poll_start rd)) rds 0"

definition span :: "reading list \<Rightarrow> duration" where
  "span rds = (if rds = [] then 0 else rd_end (last rds) - rd_now (hd rds))"

lemma clock_ok_snoc: "clock_ok (rds @ [rd]) \<longleftrightarrow> clock_ok rds \<and> reading_ok rd \<and> (\<forall>r \<in> set rds. rd_end r \<le> rd_now rd)"
  by (auto simp: clock_ok_def sorted_wrt_append)

lemma clock_ok_take: "clock_ok rds \<Longrightarrow> clock_ok (take n rds)"
  by (auto simp: clock_ok_def list_all_iff dest: in_set_takeD intro: sorted_wrt_take)

lemma spent_snoc: "spent (rds @ [rd]) = spent rds + (rd_after rd - rd_poll_start rd)"
  by (simp add: spent_def)

lemma longest_snoc: "longest (rds @ [rd]) = max (rd_after_max rd - rd_poll_start rd) (longest rds)"
  by (simp add: longest_def)

lemma spent_longest_Nil [simp]: "spent [] = 0" "longest [] = 0" "span [] = 0"
  by (simp_all add: spent_def longest_def span_def)

lemma within_span:
  assumes "clock_ok rds"
  shows "spent rds \<le> span rds \<and> longest rds \<le> span rds \<and> spent rds \<le> length rds * longest rds \<and> span rds < dur_limit"
  using assms
proof (induction rds rule: rev_induct)
  case (snoc rd rds)
  then have ok: "reading_ok rd" "\<forall>r \<in> set rds. rd_end r \<le> rd_now rd" and IH: "spent rds \<le> span rds" "longest rds \<le> span rds"
      "spent rds \<le> length rds * longest rds"
    by (auto simp: clock_ok_snoc)
  have grown: "span rds + (rd_end rd - rd_now rd) \<le> span (rds @ [rd])"
  proof (cases "rds = []")
    case False
    with ok have "rd_end (last rds) \<le> rd_now rd" "rd_now rd \<le> rd_end rd" by (auto simp: reading_ok_def)
    moreover have "reading_ok (hd rds)" "rd_end (hd rds) \<le> rd_now rd"
      using False snoc.prems ok(2) by (auto simp: clock_ok_snoc clock_ok_def list_all_iff)
    ultimately have "rd_end (last rds) \<le> rd_now rd" "rd_now rd \<le> rd_end rd" "rd_now (hd rds) \<le> rd_now rd"
      by (auto simp: reading_ok_def)
    with False show ?thesis by (simp add: span_def)
  qed (simp add: span_def)
  have more: "length rds * longest rds \<le> length rds * longest (rds @ [rd])" by (simp add: longest_snoc)
  have this_poll: "rd_after rd - rd_poll_start rd \<le> longest (rds @ [rd])" using ok(1) by (auto simp: longest_snoc reading_ok_def max_def)
  have "spent (rds @ [rd]) \<le> length (rds @ [rd]) * longest (rds @ [rd])"
    using add_mono [OF order_trans [OF IH(3) more] this_poll] by (simp add: spent_snoc add.commute)
  moreover have "rd_after rd - rd_poll_start rd \<le> rd_end rd - rd_now rd" "rd_after_max rd - rd_poll_start rd \<le> rd_end rd - rd_now rd"
    using ok(1) by (auto simp: reading_ok_def)
  moreover have "span (rds @ [rd]) < dur_limit" using ok(1) by (auto simp: span_def reading_ok_def)
  ultimately show ?case using grown IH by (auto simp: spent_snoc longest_snoc)
qed (simp add: dur_limit_def)

lemma spent_ok: "clock_ok (rds @ [rd]) \<Longrightarrow> dur_add (spent rds) (elapsed_at (rd_poll_start rd) (rd_after rd)) = Inr (spent (rds @ [rd]))"
  using within_span [of "rds @ [rd]"] by (simp add: dur_add_def elapsed_at_def spent_snoc)

lemma start_of: "get_or_insert_with (if rds = [] then None else Some (rd_now (hd rds))) (rd_now rd) = rd_now (hd (rds @ [rd]))"
  by (cases rds) (simp_all add: get_or_insert_with_def)

section \<open>Futures\<close>

text \<open>The state of a timed future that was polled with the readings \<open>rds\<close>.\<close>

definition tf_after :: "'v option list \<Rightarrow> reading list \<Rightarrow> 'v timed_future" where
  "tf_after inner rds =
     \<lparr>tf_inner = inner, tf_start = (if rds = [] then None else Some (rd_now (hd rds))), tf_poll_count = length rds,
      tf_poll_time = spent rds, tf_max_poll_time = longest rds\<rparr>"

definition stats_of :: "reading list \<Rightarrow> future_stats" where
  "stats_of rds = \<lparr>completion_time = span rds, poll_time = spent rds, max_poll_time = longest rds, poll_count = length rds\<rparr>"

lemma tf_poll_after:
  "clock_ok (rds @ [rd]) \<Longrightarrow> tf_poll rd (tf_after inner rds) =
     Inr (case fut_next inner of
            (Poll_Pending, inner) \<Rightarrow> (Poll_Pending, tf_after inner (rds @ [rd]))
          | (Poll_Ready v, inner) \<Rightarrow> (Poll_Ready (stats_of (rds @ [rd]), v), tf_after inner (rds @ [rd])))"
  using spent_ok [of rds rd] start_of [of rds rd]
  by (auto simp: tf_poll_def tf_after_def stats_of_def span_def elapsed_at_def longest_snoc Let_def split: prod.split poll.split)

lemma fut_run_after:
  "clock_ok (done' @ rds) \<Longrightarrow> length rds \<le> k \<Longrightarrow>
     fut_run tf_poll rds (tf_after (replicate k None @ Some v # rest) done') = Inr (None, tf_after (replicate (k - length rds) None @ Some v # rest) (done' @ rds))"
proof (induction rds arbitrary: done' k)
  case (Cons rd rds)
  then obtain k' where k: "k = Suc k'" by (cases k) auto
  from Cons.prems have "clock_ok (done' @ [rd])" using clock_ok_take [of "done' @ rd # rds" "Suc (length done')"] by simp
  with k Cons.IH [of "done' @ [rd]" k'] Cons.prems show ?case by (simp add: tf_poll_after fut_next_def)
qed simp

lemma fut_run_append:
  "fut_run poll rds st = Inr (None, st') \<Longrightarrow> fut_run poll (rds @ rds') st = fut_run poll rds' st'"
proof (induction rds arbitrary: st)
  case (Cons rd rds)
  then obtain p st1 where p: "poll rd st = Inr (p, st1)" by (auto simp: res_bind_eq_Inr)
  with Cons show ?case by (cases p) simp_all
qed simp

lemma tf_new_after: "tf_new inner = tf_after inner []"
  by (simp add: tf_new_def tf_after_def)

text \<open>
  A timed future returns what the future returns, in the same poll, and its statistics are those of the polls:
  their number, the time they took together and the longest of them, and the time from the first poll to the end;
  dropped before that, its data are the same of the polls so far.  The time in polls is at most the time to completion, and
  at most the longest poll for each poll.
\<close>

theorem timed_future_stats:
  assumes "clock_ok rds" "script = replicate k None @ Some v # rest"
  shows "\<exists>st. fut_run tf_poll rds (tf_new script) =
      Inr (if length rds \<le> k then None else Some (stats_of (take (Suc k) rds), v), st) \<and>
    (length rds \<le> k \<longrightarrow> (\<forall>now. tf_cancel_data now st =
      (stats_of rds)\<lparr>completion_time := if rds = [] then 0 else now - rd_now (hd rds)\<rparr>)) \<and>
    (let s = stats_of (take (Suc k) rds) in
      poll_time s \<le> completion_time s \<and> max_poll_time s \<le> completion_time s \<and> poll_time s \<le> poll_count s * max_poll_time s)"
proof -
  have times: "let s = stats_of (take (Suc k) rds) in
      poll_time s \<le> completion_time s \<and> max_poll_time s \<le> completion_time s \<and> poll_time s \<le> poll_count s * max_poll_time s"
    using within_span [OF clock_ok_take [OF assms(1), of "Suc k"]] by (simp add: stats_of_def Let_def)
  show ?thesis
  proof (cases "length rds \<le> k")
    case True
    with fut_run_after [of "[]" rds k v rest] assms have
      "fut_run tf_poll rds (tf_new script) = Inr (None, tf_after (replicate (k - length rds) None @ Some v # rest) rds)"
      by (simp add: tf_new_after)
    with times True show ?thesis by (auto simp: tf_cancel_data_def tf_after_def stats_of_def elapsed_at_def)
  next
    case False
    let ?rd = "rds ! k" and ?before = "take k rds"
    have upto: "take (Suc k) rds = ?before @ [?rd]" and rds: "rds = ?before @ ?rd # drop (Suc k) rds"
      using False by (simp_all add: take_Suc_conv_app_nth id_take_nth_drop)
    have "fut_run tf_poll ?before (tf_new script) = Inr (None, tf_after (Some v # rest) ?before)"
      using fut_run_after [of "[]" ?before k v rest] False assms(2) clock_ok_take [OF assms(1)] by (simp add: tf_new_after)
    from fut_run_append [OF this] have "fut_run tf_poll rds (tf_new script) = fut_run tf_poll (?rd # drop (Suc k) rds) (tf_after (Some v # rest) ?before)"
      by (subst rds)
    also have "\<dots> = Inr (Some (stats_of (take (Suc k) rds), v), tf_after rest (take (Suc k) rds))"
      using tf_poll_after [of ?before ?rd "Some v # rest"] clock_ok_take [OF assms(1), of "Suc k"] upto by (simp add: fut_next_def)
    finally show ?thesis using times False by simp
  qed
qed

text \<open>A failed future loses its statistics.\<close>

lemma ttf_run_eq:
  "fut_run ttf_poll rds st =
     res_bind (fut_run tf_poll rds st) (\<lambda>(r, st).
       Inr (map_option (\<lambda>(stats, r). case r of Ok v \<Rightarrow> Ok (stats, v) | Err e \<Rightarrow> Err e) r, st))"
proof (induction rds arbitrary: st)
  case (Cons rd rds)
  show ?case
  proof (cases "tf_poll rd st")
    case (Inr r)
    then show ?thesis using Cons by (cases r; cases "fst r") (auto simp: ttf_poll_def split: result.splits)
  qed (simp add: ttf_poll_def)
qed simp

definition sample_readings :: "reading list" where
  "sample_readings =
     [\<lparr>rd_now = 10, rd_poll_start = 11, rd_after = 14, rd_after_max = 15, rd_end = 16\<rparr>,
      \<lparr>rd_now = 20, rd_poll_start = 20, rd_after = 22, rd_after_max = 22, rd_end = 23\<rparr>]"

theorem timed_future_stats_witness:
  "\<exists>st. fut_run tf_poll sample_readings (tf_new [None, Some ''x'']) =
     Inr (Some (\<lparr>completion_time = 13, poll_time = 5, max_poll_time = 4, poll_count = 2\<rparr>, ''x''), st)"
proof -
  have "clock_ok sample_readings" by (simp add: clock_ok_def sample_readings_def reading_ok_def dur_limit_def)
  from timed_future_stats [OF this, of "[None, Some ''x'']" 1 "''x''" "[]"] show ?thesis
    by (auto simp: sample_readings_def stats_of_def spent_def longest_def span_def)
qed

section \<open>Streams\<close>

lemma polls_snoc:
  "polls poll (rds @ [rd]) st =
     res_bind (polls poll rds st) (\<lambda>(ps, st). res_bind (poll rd st) (\<lambda>(p, st). Inr (ps @ [p], st)))"
proof (induction rds arbitrary: st)
  case (Cons r rds)
  show ?case
  proof (cases "poll r st")
    case (Inr x)
    then obtain p st1 where p: "poll r st = Inr (p, st1)" by (cases x) auto
    then show ?thesis using Cons [of st1] by (cases "polls poll rds st1") (auto simp: res_bind_def split: sum.splits prod.splits)
  qed simp
qed (simp add: res_bind_def split: sum.splits prod.splits)

text \<open>What a stream yields in \<open>n\<close> polls: the stream_answers of its script, and then the end, again and again.\<close>

definition stream_answers :: "'a option list \<Rightarrow> nat \<Rightarrow> 'a option poll list" where
  "stream_answers script n =
     map (\<lambda>a. case a of None \<Rightarrow> Poll_Pending | Some x \<Rightarrow> Poll_Ready (Some x)) (take n script) @
     replicate (n - length script) (Poll_Ready None)"

definition stream_items :: "'a option list \<Rightarrow> 'a list" where
  "stream_items as = map the (filter (\<lambda>a. a \<noteq> None) as)"

lemma stream_items_simps [simp]:
  "stream_items [] = []" "stream_items (as @ bs) = stream_items as @ stream_items bs" "stream_items [None] = []" "stream_items [Some x] = [x]"
  by (simp_all add: stream_items_def)

text \<open>When the first item came: the reading of its poll.\<close>

definition first_item :: "'a option list \<Rightarrow> reading list \<Rightarrow> duration option" where
  "first_item script rds =
     (let i = length (takeWhile (\<lambda>a. a = None) script) in
      if i < length script \<and> i < length rds then Some (rd_end (rds ! i) - rd_now (hd rds)) else None)"

lemma first_item_snoc:
  assumes "length rds < length script"
  shows "first_item script (rds @ [rd]) =
    (if script ! length rds \<noteq> None \<and> stream_items (take (length rds) script) = [] then Some (rd_end rd - rd_now (hd (rds @ [rd])))
     else first_item script rds)"
proof -
  let ?i = "length (takeWhile (\<lambda>a. a = None) script)" and ?n = "length rds"
  have none: "script ! j = None" if "j < ?i" for j 
    using that takeWhile_nth [of j "\<lambda>a. a = None" script] set_takeWhileD [OF nth_mem, of j "\<lambda>a. a = None" script] by simp
  have items: "stream_items (take ?n script) = [] \<longleftrightarrow> ?n \<le> ?i"
  proof
    assume empty_items: "stream_items (take ?n script) = []"
    show "?n \<le> ?i"
    proof (rule ccontr)
      assume "\<not> ?n \<le> ?i"
      with assms nth_length_takeWhile [of "\<lambda>a. a = None" script] have "script ! ?i \<noteq> None" "script ! ?i \<in> set (take ?n script)"
        by (auto simp: in_set_conv_nth intro!: exI [of _ ?i])
      with empty_items show False by (auto simp: stream_items_def filter_empty_conv)
    qed
  next
    assume "?n \<le> ?i"
    then show "stream_items (take ?n script) = []" using assms none by (auto simp: stream_items_def filter_empty_conv in_set_conv_nth)
  qed
  show ?thesis
  proof (cases "?n \<le> ?i")
    case True
    have "script ! ?n \<noteq> None \<longleftrightarrow> ?i = ?n"
      using True none [of ?n] nth_length_takeWhile [of "\<lambda>a. a = None" script] assms by fastforce
    with True items assms show ?thesis by (auto simp: first_item_def Let_def nth_append)
  next
    case False
    then show ?thesis using items by (cases "rds = []") (auto simp: first_item_def Let_def nth_append)
  qed
qed

text \<open>The state of a timed stream that was polled with the readings \<open>rds\<close>, and what its callback has got.\<close>

definition ts_stats :: "'a option list \<Rightarrow> reading list \<Rightarrow> nat \<Rightarrow> stream_stats" where
  "ts_stats script rds now =
     (let used = take (Suc (length script)) rds in
      \<lparr>ss_completion_time = (if rds = [] then None else Some (now - rd_now (hd rds))), ss_first_item_time = first_item script rds,
       ss_poll_time = spent used, ss_max_poll_time = longest used, ss_poll_count = length used,
       ss_count = length (stream_items (take (length rds) script)), ss_completed = (length script < length rds)\<rparr>)"

definition ts_after :: "bool \<Rightarrow> 'a option list \<Rightarrow> reading list \<Rightarrow> 'a timed_stream" where
  "ts_after cb script rds =
     (let used = take (Suc (length script)) rds; ended = (length script < length rds) in
      \<lparr>ts_inner = drop (length rds) script, ts_callback = (cb \<and> \<not> ended),
       ts_start = (if rds = [] then None else Some (rd_now (hd rds))), ts_count = length (stream_items (take (length rds) script)),
       ts_poll_count = length used, ts_poll_time = spent used, ts_max_poll_time = longest used,
       ts_first_item_time = first_item script rds, ts_completed = ended,
       ts_calls = (if cb \<and> ended then [ts_stats script rds (rd_end (rds ! length script))] else [])\<rparr>)"

lemma first_item_ended: "length script \<le> length rds \<Longrightarrow> first_item script (rds @ rds') = first_item script rds"
  by (cases "rds = []") (auto simp: first_item_def Let_def nth_append)

lemma ts_poll_after:
  assumes "clock_ok (rds @ [rd])"
  shows "ts_poll_next rd (ts_after cb script rds) = Inr (last (stream_answers script (Suc (length rds))), ts_after cb script (rds @ [rd]))"
proof -
  let ?n = "length rds"
  note add_ok = spent_ok [OF assms] start_of [of rds rd]
  consider (more) "?n < length script" | (now) "?n = length script" | (ended) "length script < ?n" by linarith
  then show ?thesis
  proof cases
    case more
    then have script: "drop ?n script = script ! ?n # drop (Suc ?n) script" "take (Suc ?n) script = take ?n script @ [script ! ?n]"
      by (simp_all add: Cons_nth_drop_Suc take_Suc_conv_app_nth)
    then show ?thesis using more add_ok
      by (cases "script ! ?n") (auto simp: ts_poll_next_def ts_after_def script_next_def stream_answers_def first_item_snoc Let_def
          elapsed_at_def longest_snoc)
  next
    case now
    then show ?thesis using add_ok
      by (auto simp: ts_poll_next_def ts_after_def script_next_def stream_answers_def first_item_ended Let_def elapsed_at_def longest_snoc
          ts_run_callback_def ts_gen_stats_def ts_stats_def nth_append simp flip: now)
  next
    case ended
    then show ?thesis
      by (cases "rds = []") (auto simp: ts_poll_next_def ts_after_def ts_stats_def stream_answers_def first_item_ended Let_def nth_append)
  qed
qed

lemma answers_snoc: "stream_answers script (Suc n) = stream_answers script n @ [last (stream_answers script (Suc n))]"
proof -
  consider "n < length script" | "length script \<le> n" by linarith
  then show ?thesis by cases (auto simp: stream_answers_def take_Suc_conv_app_nth Suc_diff_le replicate_append_same)
qed

lemma ts_new_after: "ts_new script cb = ts_after cb script []"
  by (simp add: ts_new_def ts_after_def first_item_def)

lemma ts_polls:
  "clock_ok rds \<Longrightarrow> polls ts_poll_next rds (ts_new script cb) = Inr (stream_answers script (length rds), ts_after cb script rds)"
proof (induction rds rule: rev_induct)
  case (snoc rd rds)
  then show ?case by (simp add: polls_snoc clock_ok_snoc ts_poll_after answers_snoc [symmetric])
qed (simp add: stream_answers_def ts_new_after)

text \<open>The errors among the items.\<close>

definition count_errors :: "('t, 'e) result list \<Rightarrow> nat" where
  "count_errors items = length (filter (\<lambda>r. \<not> is_ok r) items)"

definition first_error :: "('t, 'e) result list \<Rightarrow> nat option" where
  "first_error items = (if list_all is_ok items then None else Some (length (takeWhile is_ok items)))"

definition tts_stats :: "('t, 'e) result option list \<Rightarrow> reading list \<Rightarrow> nat \<Rightarrow> try_stream_stats" where
  "tts_stats script rds now =
     \<lparr>stream_stats = ts_stats script rds now, error_count = count_errors (stream_items (take (length rds) script)),
      first_error_position = first_error (stream_items (take (length rds) script))\<rparr>"

definition tts_after :: "('t, 'e) result option list \<Rightarrow> reading list \<Rightarrow> ('t, 'e) timed_try_stream" where
  "tts_after script rds =
     (let ended = (length script < length rds) in
      \<lparr>tts_callback = (\<not> ended), tts_inner = ts_after False script rds, tts_error_count = count_errors (stream_items (take (length rds) script)),
       tts_first_error_position = first_error (stream_items (take (length rds) script)),
       tts_calls = (if ended then [tts_stats script rds (rd_end (rds ! length script))] else [])\<rparr>)"

lemma first_error_snoc:
  "first_error (items @ [r]) = (if first_error items = None \<and> \<not> is_ok r then Some (length items) else first_error items)"
  by (auto simp: first_error_def list_all_iff takeWhile_append takeWhile_eq_all_conv [THEN iffD2])

lemma ts_gen_stats_after: "ts_gen_stats now (ts_after cb script rds) = ts_stats script rds now"
  by (simp add: ts_gen_stats_def ts_after_def ts_stats_def Let_def elapsed_at_def)

lemma tts_poll_after:
  assumes "clock_ok (rds @ [rd])"
  shows "tts_poll_next rd (tts_after script rds) = Inr (last (stream_answers script (Suc (length rds))), tts_after script (rds @ [rd]))"
proof -
  let ?n = "length rds"
  consider (more) "?n < length script" | (now) "?n = length script" | (ended) "length script < ?n" by linarith
  then show ?thesis
  proof cases
    case more
    then have script: "take (Suc ?n) script = take ?n script @ [script ! ?n]" by (simp add: take_Suc_conv_app_nth)
    show ?thesis
    proof (cases "script ! ?n")
      case (Some r)
      then have count: "ts_count (ts_after False script (rds @ [rd])) = Suc (length (stream_items (take ?n script)))"
        using more by (simp add: ts_after_def Let_def script)
      show ?thesis using more Some count
        by (cases r) (auto simp: tts_poll_next_def tts_after_def ts_poll_after [OF assms] stream_answers_def script count_errors_def first_error_snoc Let_def)
    qed (use more in \<open>auto simp: tts_poll_next_def tts_after_def ts_poll_after [OF assms] stream_answers_def script Let_def\<close>)
  next
    case now
    then show ?thesis
      by (auto simp: tts_poll_next_def tts_after_def ts_poll_after [OF assms] stream_answers_def Let_def tts_run_callback_def tts_gen_stats_def
          tts_stats_def ts_gen_stats_after nth_append simp flip: now)
  next
    case ended
    then have "ts_stats script (rds @ [rd]) = ts_stats script rds"
      by (cases "rds = []") (auto simp: fun_eq_iff ts_stats_def first_item_ended Let_def)
    with ended show ?thesis
      by (auto simp: tts_poll_next_def tts_after_def ts_poll_after [OF assms] stream_answers_def Let_def tts_run_callback_def tts_stats_def nth_append)
  qed
qed

lemma tts_polls:
  "clock_ok rds \<Longrightarrow> polls tts_poll_next rds (tts_new script) = Inr (stream_answers script (length rds), tts_after script rds)"
proof (induction rds rule: rev_induct)
  case (snoc rd rds)
  then show ?case by (simp add: polls_snoc clock_ok_snoc tts_poll_after answers_snoc [symmetric])
qed (simp add: stream_answers_def tts_new_def tts_after_def ts_new_after count_errors_def first_error_def)

text \<open>
  C35. A timed stream of results that is polled any number of times and then dropped: its polls return what the stream
  returns, and the end again after its end without polling it again; the callback is called exactly once, in the
  poll that returns the end or else when the stream is dropped, with the number of items, of errors and of polls of the inner
  stream, the position of the first error, when the first item came and whether the end was reached, and the
  time in polls is at most the time from the first poll to the call.
\<close>

theorem timed_try_stream_reports:
  assumes "clock_ok rds" "rds \<noteq> [] \<longrightarrow> rd_end (last rds) \<le> dropped"
  shows "\<exists>st. polls tts_poll_next rds (tts_new script) = Inr (stream_answers script (length rds), st) \<and>
    (let ended = (length script < length rds); called = (if ended then rd_end (rds ! length script) else dropped) in
     tts_calls st = (if ended then [tts_stats script rds called] else []) \<and>
     tts_calls (tts_drop dropped st) = [tts_stats script rds called] \<and>
     (case ss_completion_time (ts_stats script rds called) of
        None \<Rightarrow> rds = []
      | Some t \<Rightarrow> ss_poll_time (ts_stats script rds called) \<le> t \<and> ss_max_poll_time (ts_stats script rds called) \<le> t))"
proof -
  let ?called = "if length script < length rds then rd_end (rds ! length script) else dropped"
  let ?used = "take (Suc (length script)) rds"
  have "span ?used \<le> ?called - rd_now (hd rds)"
    using assms(2) by (cases "length script < length rds") (auto simp: span_def take_Suc_conv_app_nth hd_append hd_conv_nth diff_le_mono)
  with within_span [OF clock_ok_take [OF assms(1), of "Suc (length script)"]] show ?thesis
    by (intro exI [of _ "tts_after script rds"])
      (auto simp: tts_polls [OF assms(1)] tts_after_def tts_drop_def tts_run_callback_def tts_gen_stats_def ts_gen_stats_after
        tts_stats_def ts_stats_def Let_def)
qed

theorem timed_try_stream_reports_witness:
  "\<exists>st. polls tts_poll_next sample_readings (tts_new [Some (Err ''e''), Some (Ok (1 :: nat))]) =
       Inr ([Poll_Ready (Some (Err ''e'')), Poll_Ready (Some (Ok 1))], st) \<and>
     map (\<lambda>s. (error_count s, first_error_position s, ss_count (stream_stats s), ss_completed (stream_stats s))) (tts_calls (tts_drop 30 st)) =
       [(1, Some 0, 2, False)]"
proof -
  have "clock_ok sample_readings" by (simp add: clock_ok_def sample_readings_def reading_ok_def dur_limit_def)
  moreover have "sample_readings \<noteq> [] \<longrightarrow> rd_end (last sample_readings) \<le> 30" by (simp add: sample_readings_def)
  ultimately show ?thesis
    using timed_try_stream_reports [of sample_readings 30 "[Some (Err ''e''), Some (Ok (1 :: nat))]"]
    by (auto simp: Let_def tts_stats_def ts_stats_def count_errors_def first_error_def stream_items_def stream_answers_def sample_readings_def)
qed

end
