(* ===== verification/Thread_Stats.thy ===== *)
theory Thread_Stats
  imports Rust_Prelude
begin

text \<open>
  Values per thread and statistics: \<open>ThreadMap\<close> and \<open>PerThread\<close> (\<open>shed/perthread/src/lib.rs\<close>) with the raw pointers of
  the map into the boxes of its values, the global factory of statistics (\<open>shed/stats/src/lib.rs\<close>) and the statistics that are
  looked up by a key (\<open>shed/stats/traits/dynamic_stat_types.rs\<close>, \<open>field_stat_types.rs\<close>).

  Threads run interleaved; what one does while it holds a lock is one step, apart from \<open>for_each\<close>, which calls a
  closure for each value and is a step for each of them.  A panic under a lock poisons it.
\<close>

section \<open>\<open>ThreadMap\<close>\<close>

text \<open>
  The heap has the boxes by their address.  \<open>w_live\<close> are the \<open>PerThread\<close> values that exist, with handle and address
  of their storage; \<open>w_dying\<close> are the boxes whose \<open>PerThread\<close> has run its \<open>Drop\<close>, which are freed after it.  During a
  \<open>for_each\<close> the lock is held; \<open>w_walk\<close> has the pointers it has still to follow and the values it has seen.
\<close>

record thread_map_locked =
  tm_idx :: nat
  tm_map :: "(nat \<times> nat) list"

record 'a world =
  w_locked :: thread_map_locked
  w_poisoned :: bool
  w_heap :: "nat \<rightharpoonup> 'a"
  w_live :: "(nat \<times> nat) list"
  w_dying :: "nat list"
  w_walk :: "(nat list \<times> 'a list) option"

definition tm_default :: "'a world" where
  "tm_default =
     \<lparr>w_locked = \<lparr>tm_idx = 0, tm_map = []\<rparr>, w_poisoned = False, w_heap = Map.empty, w_live = [], w_dying = [], w_walk = None\<rparr>"

datatype 'w outcome = Blocked | Next 'w | Panicked 'w | Use_After_Free

text \<open>The hash map: inserting replaces what the key had.\<close>

definition hm_insert :: "nat \<Rightarrow> nat \<Rightarrow> (nat \<times> nat) list \<Rightarrow> (nat \<times> nat) list" where
  "hm_insert h a m = (h, a) # filter (\<lambda>(k, _). k \<noteq> h) m"

definition hm_remove :: "nat \<Rightarrow> (nat \<times> nat) list \<Rightarrow> (nat \<times> nat) list" where
  "hm_remove h m = filter (\<lambda>(k, _). k \<noteq> h) m"

text \<open>\<open>register\<close>: the allocator gives the address \<open>a\<close>, which no box has.  Unwinding frees the box.\<close>

definition tm_register :: "nat \<Rightarrow> 'a \<Rightarrow> 'a world \<Rightarrow> 'a world outcome" where
  "tm_register a val w =
     (if w_walk w \<noteq> None \<or> w_heap w a \<noteq> None then Blocked
      else if w_poisoned w then Panicked w
      else
        let h = tm_idx (w_locked w) in
        Next (w\<lparr>w_heap := (w_heap w)(a \<mapsto> val), w_live := (h, a) # w_live w,
                w_locked := \<lparr>tm_idx = (h + 1) mod usize_limit, tm_map = hm_insert h a (tm_map (w_locked w))\<rparr>\<rparr>))"

definition remove_at :: "nat \<Rightarrow> 'b list \<Rightarrow> 'b list" where
  "remove_at i xs = take i xs @ drop (Suc i) xs"

text \<open>\<open>Drop for PerThread\<close> with \<open>unregister\<close>; the box is freed after it, also when it panics.\<close>

definition pt_drop :: "nat \<Rightarrow> 'a world \<Rightarrow> 'a world outcome" where
  "pt_drop i w =
     (if w_walk w \<noteq> None \<or> length (w_live w) \<le> i then Blocked
      else
        case w_live w ! i of (h, a) \<Rightarrow>
          let w' = w\<lparr>w_live := remove_at i (w_live w), w_dying := a # w_dying w\<rparr> in
          if w_poisoned w then Panicked w'
          else Next (w'\<lparr>w_locked := (w_locked w)\<lparr>tm_map := hm_remove h (tm_map (w_locked w))\<rparr>\<rparr>))"

definition box_free :: "nat \<Rightarrow> 'a world \<Rightarrow> 'a world outcome" where
  "box_free i w =
     (if length (w_dying w) \<le> i then Blocked
      else if w_heap w (w_dying w ! i) = None then Use_After_Free
      else Next (w\<lparr>w_heap := (w_heap w)(w_dying w ! i := None), w_dying := remove_at i (w_dying w)\<rparr>))"

text \<open>\<open>as_ref\<close> on a \<open>PerThread\<close> reads its own box.\<close>

definition pt_as_ref :: "nat \<Rightarrow> 'a world \<Rightarrow> 'a world outcome" where
  "pt_as_ref i w =
     (if length (w_live w) \<le> i then Blocked
      else if w_heap w (snd (w_live w ! i)) = None then Use_After_Free
      else Next w)"

text \<open>
  \<open>for_each\<close>: the lock is taken; the map is walked in the order \<open>order\<close>, which the hash map decides; each pointer is
  followed and the closure called; the lock is released at the end, or when the closure panics, and then it is poisoned.
\<close>

definition fe_start :: "nat list \<Rightarrow> 'a world \<Rightarrow> 'a world outcome" where
  "fe_start order w =
     (if w_walk w \<noteq> None then Blocked
      else if w_poisoned w then Panicked w
      else if mset order \<noteq> mset (map snd (tm_map (w_locked w))) then Blocked
      else Next (w\<lparr>w_walk := Some (order, [])\<rparr>))"

definition fe_visit :: "'a world \<Rightarrow> 'a world outcome" where
  "fe_visit w =
     (case w_walk w of
        Some (a # rest, seen) \<Rightarrow>
          (case w_heap w a of
             None \<Rightarrow> Use_After_Free
           | Some val \<Rightarrow> Next (w\<lparr>w_walk := Some (rest, seen @ [val])\<rparr>))
      | _ \<Rightarrow> Blocked)"

definition fe_panic :: "'a world \<Rightarrow> 'a world outcome" where
  "fe_panic w = (case w_walk w of Some _ \<Rightarrow> Panicked (w\<lparr>w_walk := None, w_poisoned := True\<rparr>) | None \<Rightarrow> Blocked)"

definition fe_finish :: "'a world \<Rightarrow> 'a world outcome" where
  "fe_finish w = (case w_walk w of Some ([], _) \<Rightarrow> Next (w\<lparr>w_walk := None\<rparr>) | _ \<Rightarrow> Blocked)"

datatype 'a pt_event = Register nat 'a | Drop nat | Free nat | As_Ref nat | For_Each "nat list" | Visit | Closure_Panics | Finish

fun pt_step :: "'a pt_event \<Rightarrow> 'a world \<Rightarrow> 'a world outcome" where
  "pt_step (Register a val) = tm_register a val"
| "pt_step (Drop i) = pt_drop i"
| "pt_step (Free i) = box_free i"
| "pt_step (As_Ref i) = pt_as_ref i"
| "pt_step (For_Each order) = fe_start order"
| "pt_step Visit = fe_visit"
| "pt_step Closure_Panics = fe_panic"
| "pt_step Finish = fe_finish"

text \<open>A run: a step that is not possible now is passed over, a panic ends its thread only.\<close>

fun pt_run :: "'a pt_event list \<Rightarrow> 'a world \<Rightarrow> 'a world option" where
  "pt_run [] w = Some w"
| "pt_run (ev # evs) w =
     (case pt_step ev w of
        Blocked \<Rightarrow> pt_run evs w
      | Next w' \<Rightarrow> pt_run evs w'
      | Panicked w' \<Rightarrow> pt_run evs w'
      | Use_After_Free \<Rightarrow> None)"

fun registers :: "'a pt_event list \<Rightarrow> nat" where
  "registers [] = 0"
| "registers (Register _ _ # evs) = Suc (registers evs)"
| "registers (_ # evs) = registers evs"

section \<open>No pointer dangles\<close>

definition boxes_ok :: "'a world \<Rightarrow> bool" where
  "boxes_ok w \<longleftrightarrow> distinct (map snd (w_live w) @ w_dying w) \<and> dom (w_heap w) = set (map snd (w_live w) @ w_dying w)"

definition map_ok :: "nat \<Rightarrow> 'a world \<Rightarrow> bool" where
  "map_ok n w \<longleftrightarrow> mset (tm_map (w_locked w)) = mset (w_live w) \<and> distinct (map fst (w_live w)) \<and>
     (\<forall>h \<in> set (map fst (w_live w)). h < n) \<and> tm_idx (w_locked w) = n mod usize_limit"

definition walk_ok :: "'a world \<Rightarrow> bool" where
  "walk_ok w \<longleftrightarrow>
     (case w_walk w of
        None \<Rightarrow> True
      | Some (rest, seen) \<Rightarrow>
          \<not> w_poisoned w \<and> set rest \<subseteq> set (map snd (w_live w)) \<and>
          image_mset Some (mset seen) + image_mset (w_heap w) (mset rest) = image_mset (w_heap w) (mset (map snd (w_live w))))"

definition pt_inv :: "nat \<Rightarrow> 'a world \<Rightarrow> bool" where
  "pt_inv n w \<longleftrightarrow> boxes_ok w \<and> walk_ok w \<and> (w_poisoned w \<or> map_ok n w)"

definition inv_out :: "nat \<Rightarrow> 'a world outcome \<Rightarrow> bool" where
  "inv_out n out = (case out of Blocked \<Rightarrow> True | Next w \<Rightarrow> pt_inv n w | Panicked w \<Rightarrow> pt_inv n w | Use_After_Free \<Rightarrow> False)"

lemma inv_out_simps [simp]:
  "inv_out n Blocked" "inv_out n (Next w) = pt_inv n w" "inv_out n (Panicked w) = pt_inv n w" "\<not> inv_out n Use_After_Free"
  by (simp_all add: inv_out_def)

lemma remove_at_split: "i < length xs \<Longrightarrow> xs = take i xs @ xs ! i # drop (Suc i) xs"
  by (simp add: id_take_nth_drop)

lemma remove_at_obtain:
  assumes "i < length xs"
  obtains ys zs where "xs = ys @ xs ! i # zs" "remove_at i xs = ys @ zs"
  using that [of "take i xs" "drop (Suc i) xs"] remove_at_split [OF assms] by (simp add: remove_at_def)

lemma mset_remove_at: "i < length xs \<Longrightarrow> mset (remove_at i xs) = mset xs - {#xs ! i#}"
  by (erule remove_at_obtain) (metis (no_types) add_diff_cancel_right' mset.simps(2) mset_append union_mset_add_mset_right add_mset_remove_trivial)

lemma register_inv:
  assumes "pt_inv n w" "n < usize_limit"
  shows "inv_out (Suc n) (tm_register a val w)"
proof -
  have "map_ok (Suc n) (w\<lparr>w_heap := (w_heap w)(a \<mapsto> val), w_live := (n, a) # w_live w,
      w_locked := \<lparr>tm_idx = (n + 1) mod usize_limit, tm_map = hm_insert n a (tm_map (w_locked w))\<rparr>\<rparr>)" if ok: "map_ok n w"
  proof -
    have same: "mset (tm_map (w_locked w)) = mset (w_live w)" using ok by (simp add: map_ok_def)
    then have "n \<notin> fst ` set (tm_map (w_locked w))" using ok mset_eq_setD [OF same] by (auto simp: map_ok_def)
    then have "filter (\<lambda>(k, _). k \<noteq> n) (tm_map (w_locked w)) = tm_map (w_locked w)"
      by (auto simp: filter_id_conv image_iff)
    then show ?thesis using ok by (auto simp: map_ok_def hm_insert_def less_Suc_eq)
  qed
  moreover have "a \<notin> set (map snd (w_live w) @ w_dying w)" if "w_heap w a = None" using assms(1) that by (auto simp: pt_inv_def boxes_ok_def)
  ultimately show ?thesis using assms
    by (auto simp: tm_register_def pt_inv_def Let_def map_ok_def boxes_ok_def walk_ok_def domIff split: option.splits)
qed

lemma drop_inv: "pt_inv n w \<Longrightarrow> inv_out n (pt_drop i w)"
proof (cases "i < length (w_live w) \<and> w_walk w = None")
  case True
  assume inv: "pt_inv n w"
  obtain h a where ha: "w_live w ! i = (h, a)" by (cases "w_live w ! i")
  with True obtain ys zs where live: "w_live w = ys @ (h, a) # zs" "remove_at i (w_live w) = ys @ zs"
    using remove_at_obtain [of i "w_live w"] by metis
  have "mset (hm_remove h (tm_map (w_locked w))) = mset (ys @ zs)" if ok: "map_ok n w"
  proof -
    have "mset (hm_remove h (tm_map (w_locked w))) = filter_mset (\<lambda>(k, _). k \<noteq> h) (mset (w_live w))"
      using ok by (simp add: map_ok_def hm_remove_def mset_filter)
    moreover have "filter (\<lambda>(k, _). k \<noteq> h) ys = ys" "filter (\<lambda>(k, _). k \<noteq> h) zs = zs"
      using ok live by (auto simp: map_ok_def filter_id_conv image_iff)
    ultimately show ?thesis using live by (simp flip: mset_filter)
  qed
  with inv True ha live show ?thesis
    by (auto simp: pt_drop_def pt_inv_def Let_def map_ok_def boxes_ok_def walk_ok_def)
qed (auto simp: pt_drop_def)

lemma free_inv: "pt_inv n w \<Longrightarrow> inv_out n (box_free i w)"
proof (cases "i < length (w_dying w)")
  case True
  assume inv: "pt_inv n w"
  obtain b where b: "w_dying w ! i = b" by simp
  with remove_at_obtain [OF True] obtain ys zs where dying: "w_dying w = ys @ b # zs" "remove_at i (w_dying w) = ys @ zs" by metis
  then have fresh: "b \<in> dom (w_heap w)" "b \<notin> set (map snd (w_live w))"
    using inv True by (auto simp: pt_inv_def boxes_ok_def)
  have "boxes_ok (w\<lparr>w_heap := (w_heap w)(b := None), w_dying := ys @ zs\<rparr>)"
    using inv dying by (auto simp: pt_inv_def boxes_ok_def)
  moreover have "image_mset ((w_heap w)(b := None)) (mset as) = image_mset (w_heap w) (mset as)" if "set as \<subseteq> set (map snd (w_live w))" for as
    using that fresh(2) by (intro image_mset_cong) auto
  from this this [of "map snd (w_live w)"] have "walk_ok (w\<lparr>w_heap := (w_heap w)(b := None), w_dying := ys @ zs\<rparr>)"
    using inv by (auto simp: pt_inv_def walk_ok_def split: option.splits)
  ultimately show ?thesis using inv True fresh(1) b dying(2) by (auto simp: box_free_def pt_inv_def map_ok_def)
qed (simp add: box_free_def)

lemma as_ref_inv: "pt_inv n w \<Longrightarrow> inv_out n (pt_as_ref i w)"
proof (cases "i < length (w_live w)")
  case True
  assume inv: "pt_inv n w"
  then have "snd (w_live w ! i) \<in> dom (w_heap w)" using True by (auto simp: pt_inv_def boxes_ok_def)
  with inv show ?thesis by (auto simp: pt_as_ref_def)
qed (simp add: pt_as_ref_def)

lemma start_inv: "pt_inv n w \<Longrightarrow> inv_out n (fe_start order w)"
proof -
  assume inv: "pt_inv n w"
  have "mset order = mset (map snd (w_live w))" if "map_ok n w" "mset order = mset (map snd (tm_map (w_locked w)))"
    using that by (simp add: map_ok_def)
  then have "set order \<subseteq> set (map snd (w_live w)) \<and> mset order = mset (map snd (w_live w))"
    if "map_ok n w" "mset order = mset (map snd (tm_map (w_locked w)))" using that mset_eq_setD by blast
  with inv show ?thesis by (auto simp: fe_start_def pt_inv_def boxes_ok_def map_ok_def walk_ok_def)
qed

lemma visit_inv: "pt_inv n w \<Longrightarrow> inv_out n (fe_visit w)"
proof -
  assume inv: "pt_inv n w"
  have "w_heap w a \<noteq> None" if "w_walk w = Some (a # rest, seen)" for a rest seen
    using that inv by (auto simp: pt_inv_def walk_ok_def boxes_ok_def)
  with inv show ?thesis
    by (auto simp: fe_visit_def pt_inv_def walk_ok_def boxes_ok_def map_ok_def split: option.splits list.splits)
qed

lemma finish_inv: "pt_inv n w \<Longrightarrow> inv_out n (fe_panic w)" "pt_inv n w \<Longrightarrow> inv_out n (fe_finish w)"
  by (auto simp: fe_panic_def fe_finish_def pt_inv_def walk_ok_def boxes_ok_def map_ok_def split: option.splits list.splits)

lemmas pt_invs = drop_inv free_inv as_ref_inv start_inv visit_inv finish_inv

lemma step_inv:
  assumes "pt_inv n w" "n + registers [ev] \<le> usize_limit"
  obtains (same) "pt_step ev w = Blocked"
  | (moved) w' where "pt_step ev w = Next w' \<or> pt_step ev w = Panicked w'" "pt_inv (n + registers [ev]) w'"
proof -
  have "inv_out (n + registers [ev]) (pt_step ev w)"
    using assms by (cases ev) (auto intro: pt_invs register_inv)
  then show thesis using same moved by (cases "pt_step ev w") auto
qed

lemma registers_Cons: "registers (ev # evs) = registers [ev] + registers evs"
  by (cases ev) simp_all

lemma run_inv:
  assumes "pt_inv n w" "n + registers evs \<le> usize_limit"
  shows "\<exists>w' m. pt_run evs w = Some w' \<and> pt_inv m w'"
  using assms
proof (induction evs arbitrary: n w)
  case (Cons ev evs)
  then have bound: "n + registers [ev] \<le> usize_limit" using registers_Cons [of ev evs] by simp
  show ?case
  proof (rule step_inv [OF Cons.prems(1) bound])
    assume "pt_step ev w = Blocked"
    then show ?thesis using Cons.IH [of n w] Cons.prems registers_Cons [of ev evs] by simp
  next
    fix w' assume "pt_step ev w = Next w' \<or> pt_step ev w = Panicked w'" "pt_inv (n + registers [ev]) w'"
    then show ?thesis using Cons.IH [of "n + registers [ev]" w'] Cons.prems registers_Cons [of ev evs] by auto
  qed
qed auto

text \<open>
  C36. The raw pointers of a thread map are safe under every interleaving of registering, dropping and freeing
  values, reading them and walking the map, with closures that panic: no step follows or frees a pointer to a freed box; as
  long as the lock is not poisoned the map has exactly the values that exist; and a walk, when it has followed all
  pointers, has seen the value of each \<open>PerThread\<close> that exists, each once.  (The counter of handles is 64 bits wide: for
  fewer than \<open>2 ^ 64\<close> registrations.)
\<close>

theorem thread_map_safe:
  assumes "registers evs \<le> 2 ^ 64"
  shows "\<exists>w. pt_run evs tm_default = Some w \<and>
    dom (w_heap w) = set (map snd (w_live w)) \<union> set (w_dying w) \<and> distinct (map snd (w_live w) @ w_dying w) \<and>
    (\<not> w_poisoned w \<longrightarrow> mset (tm_map (w_locked w)) = mset (w_live w)) \<and>
    (\<forall>seen. w_walk w = Some ([], seen) \<longrightarrow> mset (map Some seen) = mset (map (w_heap w \<circ> snd) (w_live w)))"
proof -
  have "pt_inv 0 tm_default" by (simp add: pt_inv_def tm_default_def boxes_ok_def map_ok_def walk_ok_def)
  from run_inv [OF this, of evs] assms obtain w m where "pt_run evs tm_default = Some w" "pt_inv m w" by (auto simp: usize_limit_def)
  then show ?thesis
    by (intro exI [of _ w]) (auto simp: pt_inv_def boxes_ok_def map_ok_def walk_ok_def multiset.map_comp)
qed

theorem thread_map_safe_witness:
  "\<exists>w. pt_run [Register 5 ''x'', Register 9 ''y'', Drop 1, For_Each [9], Visit, Free 0] tm_default = Some w \<and>
     w_walk w = Some ([], [''y'']) \<and> mset (map Some [''y'']) = mset (map (w_heap w \<circ> snd) (w_live w))"
proof -
  let ?evs = "[Register 5 ''x'', Register 9 ''y'', Drop 1, For_Each [9], Visit, Free 0]"
  obtain w where w: "pt_run ?evs tm_default = Some w" "w_walk w = Some ([], [''y''])"
    by (auto simp: tm_default_def tm_register_def pt_drop_def fe_start_def fe_visit_def box_free_def hm_insert_def hm_remove_def
        remove_at_def Let_def usize_limit_def)
  with thread_map_safe [of ?evs] show ?thesis by auto
qed

section \<open>The factory of statistics\<close>

text \<open>
  A thread in \<open>create_stats_manager\<close> reads the global factory under the read lock, and when there is none sets the default
  one under the write lock, if there is still none.  A manager is told apart by the factory that made it.
\<close>

datatype 'f create_pc = C_Read | C_Write | C_Done 'f | C_Panicked

record 'f factories =
  fs_factory :: "'f option"
  fs_poisoned :: bool
  fs_creators :: "'f create_pc list"
  fs_registered :: "'f list"
  fs_refused :: nat

definition fs_init :: "'f factories" where
  "fs_init = \<lparr>fs_factory = None, fs_poisoned = False, fs_creators = [], fs_registered = [], fs_refused = 0\<rparr>"

text \<open>The assertion fails with the write lock held.\<close>

definition register_stats_manager_factory :: "'f \<Rightarrow> 'f factories \<Rightarrow> 'f factories" where
  "register_stats_manager_factory f st =
     (if fs_poisoned st then st\<lparr>fs_refused := Suc (fs_refused st)\<rparr>
      else if fs_factory st \<noteq> None then st\<lparr>fs_refused := Suc (fs_refused st), fs_poisoned := True\<rparr>
      else st\<lparr>fs_factory := Some f, fs_registered := f # fs_registered st\<rparr>)"

definition create_read :: "'f factories \<Rightarrow> 'f create_pc" where
  "create_read st = (if fs_poisoned st then C_Panicked else case fs_factory st of Some f \<Rightarrow> C_Done f | None \<Rightarrow> C_Write)"

definition create_write :: "'f \<Rightarrow> 'f factories \<Rightarrow> 'f create_pc \<times> 'f factories" where
  "create_write dflt st =
     (if fs_poisoned st then (C_Panicked, st)
      else case fs_factory st of Some f \<Rightarrow> (C_Done f, st) | None \<Rightarrow> (C_Done dflt, st\<lparr>fs_factory := Some dflt\<rparr>))"

definition create_stats_manager :: "'f \<Rightarrow> nat \<Rightarrow> 'f factories \<Rightarrow> 'f factories" where
  "create_stats_manager dflt i st =
     (if i < length (fs_creators st) then
        case fs_creators st ! i of
          C_Read \<Rightarrow> st\<lparr>fs_creators := (fs_creators st)[i := create_read st]\<rparr>
        | C_Write \<Rightarrow> (case create_write dflt st of (pc, st') \<Rightarrow> st'\<lparr>fs_creators := (fs_creators st')[i := pc]\<rparr>)
        | _ \<Rightarrow> st
      else st)"

datatype 'f fs_event = Call_Create | Create_Step nat | Call_Register 'f

fun fs_step :: "'f \<Rightarrow> 'f fs_event \<Rightarrow> 'f factories \<Rightarrow> 'f factories" where
  "fs_step dflt Call_Create st = st\<lparr>fs_creators := fs_creators st @ [C_Read]\<rparr>"
| "fs_step dflt (Create_Step i) st = create_stats_manager dflt i st"
| "fs_step dflt (Call_Register f) st = register_stats_manager_factory f st"

definition fs_run :: "'f \<Rightarrow> 'f fs_event list \<Rightarrow> 'f factories \<Rightarrow> 'f factories" where
  "fs_run dflt evs st = fold (fs_step dflt) evs st"

definition fs_inv :: "'f \<Rightarrow> 'f factories \<Rightarrow> bool" where
  "fs_inv dflt st \<longleftrightarrow>
     (\<forall>f. C_Done f \<in> set (fs_creators st) \<longrightarrow> fs_factory st = Some f) \<and>
     (fs_registered st = [] \<and> fs_factory st \<in> {None, Some dflt} \<or> (\<exists>f. fs_registered st = [f] \<and> fs_factory st = Some f)) \<and>
     (fs_poisoned st \<longleftrightarrow> 0 < fs_refused st) \<and> (fs_poisoned st \<longrightarrow> fs_factory st \<noteq> None) \<and>
     (C_Panicked \<in> set (fs_creators st) \<longrightarrow> fs_poisoned st)"

lemma in_list_update: "x \<in> set (xs[i := y]) \<Longrightarrow> x = y \<or> x \<in> set xs"
  using set_update_subset_insert [of xs i y] by blast

lemma creator_inv: "fs_inv dflt st \<Longrightarrow> fs_inv dflt (create_stats_manager dflt i st)"
  by (auto simp: fs_inv_def create_stats_manager_def create_read_def create_write_def dest!: in_list_update
      split: create_pc.splits option.splits list.splits if_splits)

lemma register_factory_inv: "fs_inv dflt st \<Longrightarrow> fs_inv dflt (register_stats_manager_factory f st)"
  by (auto simp: fs_inv_def register_stats_manager_factory_def split: list.splits)

lemma fs_step_inv: "fs_inv dflt st \<Longrightarrow> fs_inv dflt (fs_step dflt ev st)"
  by (cases ev) (simp_all add: creator_inv register_factory_inv, auto simp: fs_inv_def)

lemma fs_run_inv: "fs_inv dflt st \<Longrightarrow> fs_inv dflt (fs_run dflt evs st)"
  by (induction evs arbitrary: st) (simp_all add: fs_run_def fs_step_inv)

lemma refused_grows: "fs_refused st \<le> fs_refused (fs_run dflt evs st)"
proof (induction evs arbitrary: st)
  case (Cons ev evs)
  have "fs_refused st \<le> fs_refused (fs_step dflt ev st)"
    by (cases ev) (auto simp: register_stats_manager_factory_def create_stats_manager_def create_write_def
        split: create_pc.splits option.splits)
  with Cons [of "fs_step dflt ev st"] show ?case by (simp add: fs_run_def)
qed (simp add: fs_run_def)

text \<open>
  C37. However threads that create managers and threads that register a factory interleave, all managers come from one
  factory: at most one registration is accepted, it is the factory of every manager, and without one every manager is of the
  default factory.  A refused registration poisons the lock, and from then on no call to create a manager returns, although a
  factory is set; without a refused one no such call panics.
\<close>

theorem stats_factory_unique:
  "let st = fs_run dflt evs fs_init in
   (\<exists>f. (\<forall>g. C_Done g \<in> set (fs_creators st) \<longrightarrow> g = f) \<and> (fs_registered st = [f] \<or> fs_registered st = [] \<and> f = dflt)) \<and>
   (fs_refused st = 0 \<longrightarrow> C_Panicked \<notin> set (fs_creators st)) \<and>
   (0 < fs_refused st \<longrightarrow> fs_factory st \<noteq> None \<and> (\<forall>evs' i.
      let st' = fs_run dflt evs' st in
      i < length (fs_creators st') \<and> fs_creators st' ! i \<in> {C_Read, C_Write} \<longrightarrow>
        fs_creators (create_stats_manager dflt i st') ! i = C_Panicked))"
proof -
  let ?st = "fs_run dflt evs fs_init"
  have inv: "fs_inv dflt ?st" by (rule fs_run_inv) (simp add: fs_inv_def fs_init_def)
  have "\<exists>f. (\<forall>g. C_Done g \<in> set (fs_creators ?st) \<longrightarrow> g = f) \<and> (fs_registered ?st = [f] \<or> fs_registered ?st = [] \<and> f = dflt)"
  proof (cases "fs_registered ?st")
    case Nil
    with inv show ?thesis by (intro exI [of _ dflt]) (auto simp: fs_inv_def)
  next
    case (Cons f fs)
    with inv show ?thesis by (intro exI [of _ f]) (auto simp: fs_inv_def split: list.splits)
  qed
  moreover have "fs_creators (create_stats_manager dflt i st') ! i = C_Panicked"
    if refused: "0 < fs_refused ?st" and st': "st' = fs_run dflt evs' ?st" "i < length (fs_creators st')"
      "fs_creators st' ! i \<in> {C_Read, C_Write}" for evs' i st'
  proof -
    have "fs_poisoned st'" using fs_run_inv [OF inv, of evs'] refused_grows [of ?st dflt evs'] refused st'(1) by (simp add: fs_inv_def)
    with st'(2,3) show ?thesis by (auto simp: create_stats_manager_def create_read_def create_write_def)
  qed
  ultimately show ?thesis using inv by (auto simp: Let_def fs_inv_def)
qed

theorem stats_factory_unique_witness:
  "let st = fs_run ''noop'' [Call_Create, Create_Step 0, Call_Create, Create_Step 0, Call_Register ''mine''] fs_init in
   fs_creators st = [C_Done ''noop'', C_Read] \<and> fs_refused st = 1 \<and>
   fs_creators (create_stats_manager ''noop'' 1 st) ! 1 = C_Panicked"
proof -
  let ?evs = "[Call_Create, Create_Step 0, Call_Create, Create_Step 0, Call_Register ''mine'']"
  let ?st = "fs_run ''noop'' ?evs fs_init"
  have st: "fs_creators ?st = [C_Done ''noop'', C_Read]" "fs_refused ?st = 1" by code_simp+
  have none: "fs_run ''noop'' [] ?st = ?st" by (simp add: fs_run_def)
  note late = conjunct2 [OF conjunct2 [OF stats_factory_unique [of "''noop''" ?evs, unfolded Let_def]]]
  from late [rule_format, THEN conjunct2, rule_format, of 1 "[]"] have "fs_creators (create_stats_manager ''noop'' 1 ?st) ! 1 = C_Panicked"
    unfolding none st by simp
  with st show ?thesis unfolding Let_def by blast
qed

section \<open>Statistics by key\<close>

text \<open>
  \<open>DynamicStat\<close>, \<open>DynamicStatSync\<close> and \<open>FieldStatThreadLocal\<close>: a statistic is generated when its key is used first.  The closure gets the
  statistic and may change it; the calls of the generator are recorded.
\<close>

record 's stat_map =
  sm_map :: "string \<rightharpoonup> 's"
  sm_generated :: "string list"

definition sm_new :: "'s stat_map" where
  "sm_new = \<lparr>sm_map = Map.empty, sm_generated = []\<rparr>"

definition dynamic_get_or_default ::
  "('t \<Rightarrow> string) \<Rightarrow> (string \<Rightarrow> 's) \<Rightarrow> 't \<Rightarrow> ('s \<Rightarrow> 'v \<times> 's) \<Rightarrow> 's stat_map \<Rightarrow> 'v \<times> 's stat_map" where
  "dynamic_get_or_default key_generator stat_generator args cb st =
     (let key = key_generator args in
      case sm_map st key of
        Some stat \<Rightarrow> (case cb stat of (v, stat') \<Rightarrow> (v, st\<lparr>sm_map := (sm_map st)(key \<mapsto> stat')\<rparr>))
      | None \<Rightarrow>
          let stat = stat_generator key; st = \<lparr>sm_map = (sm_map st)(key \<mapsto> stat), sm_generated = sm_generated st @ [key]\<rparr> in
          (case cb stat of (v, stat') \<Rightarrow> (v, st\<lparr>sm_map := (sm_map st)(key \<mapsto> stat')\<rparr>)))"

definition field_initialize :: "(string \<Rightarrow> 's) \<Rightarrow> string \<Rightarrow> 's stat_map \<Rightarrow> 's stat_map" where
  "field_initialize stat_generator key st =
     (if sm_map st key = None then \<lparr>sm_map = (sm_map st)(key \<mapsto> stat_generator key), sm_generated = sm_generated st @ [key]\<rparr> else st)"

definition field_get_or_default ::
  "(string \<Rightarrow> 's) \<Rightarrow> string \<Rightarrow> ('s \<Rightarrow> 'v \<times> 's) \<Rightarrow> 's stat_map \<Rightarrow> 'v \<times> 's stat_map" where
  "field_get_or_default stat_generator key cb st =
     (case sm_map st key of
        Some stat \<Rightarrow> (case cb stat of (v, stat') \<Rightarrow> (v, st\<lparr>sm_map := (sm_map st)(key \<mapsto> stat')\<rparr>))
      | None \<Rightarrow>
          (case cb (stat_generator key) of (v, stat') \<Rightarrow>
             (v, \<lparr>sm_map = (sm_map st)(key \<mapsto> stat'), sm_generated = sm_generated st @ [key]\<rparr>)))"

text \<open>The field statistics of a thread: a new one initializes its key, and each use of one goes to its key.\<close>

datatype ('s, 'v) field_op = New_Field string | Use_Field string "'s \<Rightarrow> 'v \<times> 's"

fun field_key :: "('s, 'v) field_op \<Rightarrow> string" where
  "field_key (New_Field k) = k"
| "field_key (Use_Field k cb) = k"

fun field_change :: "('s, 'v) field_op \<Rightarrow> 's \<Rightarrow> 's" where
  "field_change (New_Field k) stat = stat"
| "field_change (Use_Field k cb) stat = snd (cb stat)"

fun field_step :: "(string \<Rightarrow> 's) \<Rightarrow> ('s, 'v) field_op \<Rightarrow> 's stat_map \<Rightarrow> 's stat_map" where
  "field_step stat_generator (New_Field k) st = field_initialize stat_generator k st"
| "field_step stat_generator (Use_Field k cb) st = snd (field_get_or_default stat_generator k cb st)"

lemma dynamic_is_field: "dynamic_get_or_default key_generator gen args cb st = field_get_or_default gen (key_generator args) cb st"
  by (auto simp: dynamic_get_or_default_def field_get_or_default_def Let_def split: option.splits prod.splits)

lemma field_step_eq:
  "field_step gen op st =
     (let k = field_key op; s = (case sm_map st k of Some s \<Rightarrow> s | None \<Rightarrow> gen k) in
      \<lparr>sm_map = (sm_map st)(k \<mapsto> field_change op s),
       sm_generated = sm_generated st @ (if sm_map st k = None then [k] else [])\<rparr>)"
  by (cases op) (auto simp: field_initialize_def field_get_or_default_def Let_def fun_upd_idem split: option.splits prod.splits)

text \<open>
  Statistics of different keys do not meet: after any sequence of uses, the statistic of a key is the generated one with the
  changes of the uses of this key, in their order; the generator is called once for each key that is used, in the order
  of their first uses, and for no other.
\<close>

theorem stats_by_key:
  "let st = fold (field_step gen) ops sm_new in
   (\<forall>k. sm_map st k =
      (if k \<in> field_key ` set ops then Some (fold field_change (filter (\<lambda>op. field_key op = k) ops) (gen k)) else None)) \<and>
   sm_generated st = rev (remdups (rev (map field_key ops)))"
proof (induction ops rule: rev_induct)
  case (snoc op ops)
  have "filter (\<lambda>op'. field_key op' = field_key op) ops = []" if "field_key op \<notin> field_key ` set ops"
    using that by (auto simp: filter_empty_conv image_iff)
  with snoc show ?case by (auto simp: Let_def field_step_eq)
qed (simp add: sm_new_def)

end
