(* ===== verification/Facet_Factory.thy ===== *)
theory Facet_Factory
  imports Rust_Prelude "HOL-Library.AList"
begin

text \<open>
  The attribute \<open>facet::factory\<close> (\<open>shed/facet/proc_macros/factory_impl.rs\<close>): how the macro reads the parameters of the
  methods of a factory, rejects cyclic dependencies and orders the construction, and what the builders do that it
  generates.  The names of facets are elements of a linear order, the one of the ordered maps of the macro.  Every facet has
  a type of its own, so that its name stands for its type.  The methods of the factory, with its parameters, are an argument; a method that
  cannot fail is one that returns no error.  The parsing of the items and the check of \<open>Ident::new\<close> on a name without its underscore are left out.
\<close>

section \<open>Parameters of the methods\<close>

datatype 'i factory_param = Param 'i | Facet 'i

datatype 'i macro_error = Expected_Ident | Not_A_Reference | Unrecognised 'i | Cyclic 'i "'i list"

definition strip_leading_underscore :: "string \<Rightarrow> string" where
  "strip_leading_underscore s = (case s of x # rest \<Rightarrow> if x = CHR ''_'' then rest else s | [] \<Rightarrow> [])"

text \<open>A parameter: its name if its pattern is one, and whether its type is a reference.\<close>

definition factory_param_parse :: "string list \<Rightarrow> string option \<Rightarrow> bool \<Rightarrow> (string factory_param, string macro_error) result" where
  "factory_param_parse param_idents pat is_reference =
     (case pat of
        None \<Rightarrow> Err Expected_Ident
      | Some s \<Rightarrow>
          let ident = strip_leading_underscore s in
          if is_reference then Ok (if ident \<in> set param_idents then Param ident else Facet ident)
          else Err Not_A_Reference)"

text \<open>The facets of a factory, in the order of its methods.\<close>

record 'i facets =
  facet_idents :: "'i list"
  facet_asyncnesses :: "bool list"
  facet_params :: "'i factory_param list list"

definition facet_params_map :: "'i facets \<Rightarrow> ('i \<times> 'i factory_param list) list" where
  "facet_params_map fs = zip (facet_idents fs) (facet_params fs)"

section \<open>\<open>check_no_cycles\<close>\<close>

text \<open>\<open>seen\<close> maps a name to the route to the facet that it was found from; the queue has names with the route to them.\<close>

fun cycle_expand ::
  "'i list \<Rightarrow> 'i factory_param list \<Rightarrow> ('i \<times> 'i list) list \<Rightarrow> ('i \<times> 'i list) list \<Rightarrow> ('i \<times> 'i list) list \<times> ('i \<times> 'i list) list" where
  "cycle_expand route [] seen queue = (seen, queue)"
| "cycle_expand route (Param p # ps) seen queue = cycle_expand route ps seen queue"
| "cycle_expand route (Facet p # ps) seen queue =
     (if p \<in> fst ` set seen then cycle_expand route ps seen queue
      else cycle_expand route ps ((p, route) # seen) (queue @ [(p, route @ [p])]))"

definition cycle_step ::
  "('i \<times> 'i factory_param list) list \<Rightarrow> 'i \<Rightarrow> 'i list \<Rightarrow> ('i \<times> 'i list) list \<Rightarrow> ('i \<times> 'i list) list \<Rightarrow>
   ('i \<times> 'i list) list \<times> ('i \<times> 'i list) list" where
  "cycle_step m ident route seen queue =
     (case map_of m ident of None \<Rightarrow> (seen, queue) | Some ps \<Rightarrow> cycle_expand route ps seen queue)"

definition named_facets :: "('i \<times> 'i factory_param list) list \<Rightarrow> 'i set" where
  "named_facets m = {p. \<exists>ps \<in> set (map snd m). Facet p \<in> set ps}"

definition unseen :: "('i \<times> 'i factory_param list) list \<Rightarrow> ('i \<times> 'i list) list \<Rightarrow> nat" where
  "unseen m seen = card (named_facets m - fst ` set seen)"

lemma finite_named_facets: "finite (named_facets m)"
proof -
  have "named_facets m \<subseteq> (\<Union>ps \<in> set (map snd m). (\<lambda>p. case p of Facet x \<Rightarrow> x | Param x \<Rightarrow> x) ` set ps)"
    by (force simp: named_facets_def)
  then show ?thesis by (rule finite_subset) simp
qed

lemma cycle_expand_measure:
  assumes "cycle_expand route ps seen queue = (seen', queue')" "\<And>p. Facet p \<in> set ps \<Longrightarrow> p \<in> named_facets m"
  shows "unseen m seen' + length queue' \<le> unseen m seen + length queue"
  using assms
proof (induction route ps seen queue rule: cycle_expand.induct)
  case (3 route p ps seen queue)
  show ?case
  proof (cases "p \<in> fst ` set seen")
    case False
    have "card (named_facets m - insert p (fst ` set seen)) < card (named_facets m - fst ` set seen)"
      using False 3(4) [of p] finite_named_facets [of m] by (intro psubset_card_mono) auto
    then have "unseen m ((p, route) # seen) < unseen m seen" by (simp add: unseen_def)
    with 3 False show ?thesis by fastforce
  qed (use 3 in auto)
qed auto

lemma cycle_step_measure:
  assumes "cycle_step m ident route seen queue = (seen', queue')"
  shows "unseen m seen' + length queue' < Suc (unseen m seen + length queue)"
proof (cases "map_of m ident")
  case (Some ps)
  then have "p \<in> named_facets m" if "Facet p \<in> set ps" for p
    using that map_of_SomeD [OF Some] by (force simp: named_facets_def)
  with Some assms cycle_expand_measure [of route ps seen queue seen' queue' m] show ?thesis by (simp add: cycle_step_def)
qed (use assms in \<open>simp add: cycle_step_def\<close>)

function cycle_loop ::
  "('i \<times> 'i factory_param list) list \<Rightarrow> ('i \<times> 'i list) list \<Rightarrow> ('i \<times> 'i list) list \<Rightarrow> ('i \<times> 'i list) list" where
  "cycle_loop m seen [] = seen"
| "cycle_loop m seen ((ident, route) # queue) =
     (case cycle_step m ident route seen queue of (seen', queue') \<Rightarrow> cycle_loop m seen' queue')"
  by pat_completeness auto
termination
  by (relation "measure (\<lambda>(m, seen, queue). unseen m seen + length queue)") (simp_all add: cycle_step_measure split: prod.split)

definition check_no_cycles :: "'i \<Rightarrow> ('i \<times> 'i factory_param list) list \<Rightarrow> (unit, 'i macro_error) result" where
  "check_no_cycles top_ident m =
     (case map_of (cycle_loop m [] [(top_ident, [])]) top_ident of
        Some route \<Rightarrow> Err (Cyclic top_ident route)
      | None \<Rightarrow> Ok ())"

section \<open>Dependencies\<close>

definition depends :: "('i \<times> 'i factory_param list) list \<Rightarrow> ('i \<times> 'i) set" where
  "depends m = {(i, d). \<exists>ps. map_of m i = Some ps \<and> Facet d \<in> set ps}"

definition dep_path :: "('i \<times> 'i factory_param list) list \<Rightarrow> 'i list \<Rightarrow> bool" where
  "dep_path m xs = successively (\<lambda>i d. (i, d) \<in> depends m) xs"

lemma dep_path_snoc: "dep_path m (xs @ [i, d]) \<longleftrightarrow> dep_path m (xs @ [i]) \<and> (i, d) \<in> depends m"
  by (auto simp add: dep_path_def successively_append_iff)

definition cycle_inv ::
  "('i \<times> 'i factory_param list) list \<Rightarrow> 'i \<Rightarrow> ('i \<times> 'i list) list \<Rightarrow> ('i \<times> 'i list) list \<Rightarrow> bool" where
  "cycle_inv m top_ident seen queue \<longleftrightarrow>
     (\<forall>(x, r) \<in> set seen. dep_path m (top_ident # r @ [x])) \<and>
     (\<forall>(x, r) \<in> set queue. dep_path m (top_ident # r) \<and> last (top_ident # r) = x)"

definition cycle_closed ::
  "('i \<times> 'i factory_param list) list \<Rightarrow> 'i \<Rightarrow> ('i \<times> 'i list) list \<Rightarrow> 'i set \<Rightarrow> bool" where
  "cycle_closed m top_ident seen waiting \<longleftrightarrow>
     (\<forall>x \<in> insert top_ident (fst ` set seen). x \<in> waiting \<or> depends m `` {x} \<subseteq> fst ` set seen)"

lemma cycle_expand_inv:
  assumes "cycle_expand route ps seen queue = (seen', queue')" "cycle_inv m top_ident seen queue"
    and "dep_path m (top_ident # route)" "last (top_ident # route) = ident"
    and "\<And>p. Facet p \<in> set ps \<Longrightarrow> (ident, p) \<in> depends m"
  shows "cycle_inv m top_ident seen' queue' \<and> fst ` set seen' = fst ` set seen \<union> {p. Facet p \<in> set ps} \<and>
    fst ` set queue' = fst ` set queue \<union> ({p. Facet p \<in> set ps} - fst ` set seen)"
  using assms
proof (induction route ps seen queue rule: cycle_expand.induct)
  case (3 route p ps seen queue)
  show ?case
  proof (cases "p \<in> fst ` set seen")
    case True
    with 3 show ?thesis by auto
  next
    case False
    have "dep_path m (top_ident # route @ [p])"
      using 3(5,6) 3(7) [of p] dep_path_snoc [of m "butlast (top_ident # route)" ident p]
      by (metis append_butlast_last_id append_Cons append_assoc append_Nil list.distinct(1) list.set_intros(1))
    then have "cycle_inv m top_ident ((p, route) # seen) (queue @ [(p, route @ [p])])"
      using 3(4) by (auto simp: cycle_inv_def)
    with 3 False show ?thesis by auto
  qed
qed auto

lemma cycle_closed_pop:
  assumes "cycle_closed m top_ident seen (fst ` set ((ident, route) # queue))"
    and "fst ` set seen \<subseteq> fst ` set seen'" "fst ` set seen' - fst ` set seen \<subseteq> fst ` set queue'" "fst ` set queue \<subseteq> fst ` set queue'"
    and "depends m `` {ident} \<subseteq> fst ` set seen'"
  shows "cycle_closed m top_ident seen' (fst ` set queue')"
  unfolding cycle_closed_def
proof
  fix x assume x: "x \<in> insert top_ident (fst ` set seen')"
  consider "x \<in> fst ` set queue'" | "x = ident" | "x \<notin> fst ` set queue'" "x \<noteq> ident" "x \<in> insert top_ident (fst ` set seen)"
    using x assms(3) by blast
  then show "x \<in> fst ` set queue' \<or> depends m `` {x} \<subseteq> fst ` set seen'"
  proof cases
    case 3
    then have "x \<notin> fst ` set ((ident, route) # queue)" using assms(4) by auto
    with 3(3) assms(1) have "depends m `` {x} \<subseteq> fst ` set seen" unfolding cycle_closed_def by blast
    with assms(2) show ?thesis by blast
  qed (use assms(5) in blast)+
qed

lemma cycle_step_inv:
  assumes "cycle_step m ident route seen queue = (seen', queue')" "cycle_inv m top_ident seen ((ident, route) # queue)"
    and "cycle_closed m top_ident seen (fst ` set ((ident, route) # queue))"
  shows "cycle_inv m top_ident seen' queue' \<and> cycle_closed m top_ident seen' (fst ` set queue')"
proof (cases "map_of m ident")
  case None
  then have "depends m `` {ident} = {}" by (auto simp: depends_def)
  then have "cycle_closed m top_ident seen (fst ` set queue)" 
    by (intro cycle_closed_pop [OF assms(3)]) auto
  with None assms(1,2) show ?thesis by (simp add: cycle_step_def cycle_inv_def)
next
  case (Some ps)
  have deps: "{p. Facet p \<in> set ps} = depends m `` {ident}" using Some by (auto simp: depends_def)
  have "cycle_inv m top_ident seen' queue' \<and> fst ` set seen' = fst ` set seen \<union> {p. Facet p \<in> set ps} \<and>
      fst ` set queue' = fst ` set queue \<union> ({p. Facet p \<in> set ps} - fst ` set seen)"
    by (rule cycle_expand_inv [of route ps seen queue seen' queue' m top_ident ident])
      (use assms Some in \<open>auto simp: cycle_step_def cycle_inv_def depends_def\<close>)
  note expanded = this [unfolded deps]
  have "cycle_closed m top_ident seen' (fst ` set queue')"
    by (rule cycle_closed_pop [OF assms(3)]) (use expanded in blast)+
  with expanded show ?thesis by blast
qed

lemma cycle_loop_inv:
  "cycle_inv m top_ident seen queue \<Longrightarrow> cycle_closed m top_ident seen (fst ` set queue) \<Longrightarrow>
     cycle_inv m top_ident (cycle_loop m seen queue) [] \<and> cycle_closed m top_ident (cycle_loop m seen queue) {}"
proof (induction m seen queue rule: cycle_loop.induct)
  case (2 m seen ident route queue)
  obtain seen' queue' where step: "cycle_step m ident route seen queue = (seen', queue')" by fastforce
  from cycle_step_inv [OF step 2(2,3)] 2(1) [OF step [symmetric]] step show ?case by simp
qed simp

lemma dep_path_trancl: "dep_path m (i # xs @ [d]) \<Longrightarrow> (i, d) \<in> (depends m)\<^sup>+"
proof (induction xs arbitrary: i)
  case (Cons x xs)
  then have "(i, x) \<in> depends m" "dep_path m (x # xs @ [d])" by (simp_all add: dep_path_def)
  with Cons.IH show ?case by (meson trancl_into_trancl2)
qed (auto simp: dep_path_def)

lemma cycle_closed_trancl:
  assumes "cycle_closed m top_ident seen {}" "(top_ident, x) \<in> (depends m)\<^sup>+"
  shows "x \<in> fst ` set seen"
  using assms(2)
proof (induction rule: trancl_induct)
  case (base y)
  then show ?case using assms(1) by (auto simp: cycle_closed_def)
next
  case (step y z)
  then show ?case using assms(1) unfolding cycle_closed_def by blast
qed

lemma check_no_cycles_cases:
  "check_no_cycles top_ident m = Ok () \<and> (top_ident, top_ident) \<notin> (depends m)\<^sup>+ \<or>
   (\<exists>route. check_no_cycles top_ident m = Err (Cyclic top_ident route) \<and> dep_path m (top_ident # route @ [top_ident]) \<and>
      (top_ident, top_ident) \<in> (depends m)\<^sup>+)"
proof -
  let ?seen = "cycle_loop m [] [(top_ident, [])]"
  have inv: "cycle_inv m top_ident ?seen []" "cycle_closed m top_ident ?seen {}"
    using cycle_loop_inv [of m top_ident "[]" "[(top_ident, [])]"] by (simp_all add: cycle_inv_def cycle_closed_def dep_path_def)
  show ?thesis
  proof (cases "map_of ?seen top_ident")
    case None
    then have "top_ident \<notin> fst ` set ?seen" by (simp add: map_of_eq_None_iff)
    with None cycle_closed_trancl [OF inv(2)] show ?thesis by (auto simp: check_no_cycles_def)
  next
    case (Some route)
    then have "dep_path m (top_ident # route @ [top_ident])"
      using inv(1) map_of_SomeD [OF Some] by (auto simp: cycle_inv_def)
    with Some dep_path_trancl show ?thesis by (fastforce simp: check_no_cycles_def)
  qed
qed

lemma check_no_cycles_Ok: "check_no_cycles i m = Ok () \<longleftrightarrow> (i, i) \<notin> (depends m)\<^sup>+"
  using check_no_cycles_cases [of i m] by auto

text \<open>
  The check for cycles ends and is exact: it fails for a facet exactly when the facet depends on itself, directly or through others,
  and the route that the message shows is a chain of dependencies from the facet back to itself.
\<close>

theorem check_no_cycles_correct:
  "case check_no_cycles top_ident m of
     Ok _ \<Rightarrow> (top_ident, top_ident) \<notin> (depends m)\<^sup>+
   | Err e \<Rightarrow> \<exists>route. e = Cyclic top_ident route \<and> dep_path m (top_ident # route @ [top_ident]) \<and> (top_ident, top_ident) \<in> (depends m)\<^sup>+"
  using check_no_cycles_cases [of top_ident m] by (elim disjE exE conjE) simp_all

section \<open>The order of construction\<close>

text \<open>The dependencies of the facets in the order of the methods; a parameter that is no facet is an error.\<close>

fun facet_deps :: "'i factory_param list \<Rightarrow> 'i list" where
  "facet_deps [] = []"
| "facet_deps (Param p # ps) = facet_deps ps"
| "facet_deps (Facet p # ps) = p # facet_deps ps"

fun facet_graph :: "'i list \<Rightarrow> ('i \<times> 'i factory_param list) list \<Rightarrow> (('i \<times> 'i list) list, 'i macro_error) result" where
  "facet_graph idents [] = Ok []"
| "facet_graph idents ((i, ps) # m) =
     (case find (\<lambda>d. d \<notin> set idents) (facet_deps ps) of
        Some d \<Rightarrow> Err (Unrecognised d)
      | None \<Rightarrow> (case facet_graph idents m of Err e \<Rightarrow> Err e | Ok g \<Rightarrow> Ok ((i, facet_deps ps) # g)))"

definition graph_heads :: "'i::linorder list \<Rightarrow> ('i \<times> 'i list) list \<Rightarrow> 'i list" where
  "graph_heads idents g = sort (filter (\<lambda>i. list_all (\<lambda>(_, ds). i \<notin> set ds) g) idents)"

text \<open>The loop over the queue: the last visit of a facet decides its depth.\<close>

partial_function (option) depth_loop ::
  "('i \<times> 'i list) list \<Rightarrow> ('i \<times> nat) list \<Rightarrow> ('i \<times> nat) list \<Rightarrow> nat \<Rightarrow> (('i \<times> nat) list \<times> nat) res option" where
  "depth_loop g queue ident_depths max_depth =
     (case queue of
        [] \<Rightarrow> Some (Inr (ident_depths, max_depth))
      | (ident, depth) # queue \<Rightarrow>
          (case map_of g ident of
             None \<Rightarrow> Some (Inl (Panic ''called Option::unwrap() on a None value''))
           | Some deps \<Rightarrow>
               depth_loop g (queue @ map (\<lambda>d. (d, depth + 1)) deps) (AList.update ident depth ident_depths) depth))"

fun fill_levels :: "('i \<times> nat) list \<Rightarrow> 'i list list \<Rightarrow> 'i list list res" where
  "fill_levels [] levels = Inr levels"
| "fill_levels ((ident, depth) # rest) levels =
     res_bind (vec_index levels depth) (\<lambda>level. res_bind (vec_write levels depth (level @ [ident])) (fill_levels rest))"

fun take_futs :: "'i list \<Rightarrow> 'i list \<Rightarrow> 'i list res" where
  "take_futs [] futs = Inr []"
| "take_futs (ident # idents) futs =
     (if ident \<in> set futs then res_bind (take_futs idents (remove1 ident futs)) (\<lambda>order. Inr (ident # order))
      else Inl (Panic ''called Option::unwrap() on a None value''))"

definition build_order :: "'i::linorder list \<Rightarrow> ('i \<times> 'i list) list \<Rightarrow> 'i list res option" where
  "build_order idents g =
     map_option (\<lambda>r. res_bind r (\<lambda>(ident_depths, max_depth).
       res_bind (fill_levels (sort_key fst ident_depths) (replicate (max_depth + 1) [])) (\<lambda>levels.
         take_futs (concat (rev levels)) (map fst g))))
     (depth_loop g (map (\<lambda>head. (head, 0)) (graph_heads idents g)) [] 0)"

datatype 'i factory_builder = Sync_Builder "('i \<times> 'i list) list" | Async_Builder "('i \<times> 'i list) list" "'i list"

fun first_cycle :: "'i list \<Rightarrow> ('i \<times> 'i factory_param list) list \<Rightarrow> (unit, 'i macro_error) result" where
  "first_cycle [] m = Ok ()"
| "first_cycle (i # idents) m = (case check_no_cycles i m of Err e \<Rightarrow> Err e | Ok _ \<Rightarrow> first_cycle idents m)"

definition gen_factory_builder :: "'i::linorder facets \<Rightarrow> ('i factory_builder, 'i macro_error) result res option" where
  "gen_factory_builder fs =
     (let m = facet_params_map fs in
      case first_cycle (facet_idents fs) m of
        Err e \<Rightarrow> Some (Inr (Err e))
      | Ok _ \<Rightarrow>
          (case facet_graph (facet_idents fs) m of
             Err e \<Rightarrow> Some (Inr (Err e))
           | Ok g \<Rightarrow>
               if list_ex id (facet_asyncnesses fs) then
                 map_option (\<lambda>r. res_bind r (\<lambda>order. Inr (Ok (Async_Builder g order)))) (build_order (facet_idents fs) g)
               else Some (Inr (Ok (Sync_Builder g)))))"

section \<open>The loop ends\<close>

lemma map_of_in:
  assumes "x \<in> fst ` set xs"
  obtains y where "map_of xs x = Some y"
  using assms by (cases "map_of xs x") (auto simp: map_of_eq_None_iff)

definition edges :: "('i \<times> 'i list) list \<Rightarrow> ('i \<times> 'i) set" where
  "edges g = {(i, d). \<exists>ds. map_of g i = Some ds \<and> d \<in> set ds}"

definition ranked :: "('i \<times> 'i list) list \<Rightarrow> ('i \<Rightarrow> nat) \<Rightarrow> bool" where
  "ranked g r \<longleftrightarrow> (\<forall>(i, d) \<in> edges g. r d < r i \<and> d \<in> fst ` set g)"

definition dl_inv :: "('i \<times> 'i list) list \<Rightarrow> ('i \<times> nat) list \<Rightarrow> ('i \<times> nat) list \<Rightarrow> nat \<Rightarrow> bool" where
  "dl_inv g queue depths md \<longleftrightarrow>
     (\<forall>(x, k) \<in> set queue. x \<in> fst ` set g \<and> md \<le> k \<and> k \<le> md + 1) \<and> sorted (map snd queue) \<and>
     distinct (map fst depths) \<and> (\<forall>(x, k) \<in> set depths. x \<in> fst ` set g \<and> k \<le> md) \<and>
     (\<forall>x k d. map_of depths x = Some k \<and> (x, d) \<in> edges g \<longrightarrow>
        (\<exists>k'. (d, k') \<in> set queue \<and> k < k') \<or> (\<exists>k'. map_of depths d = Some k' \<and> k < k'))"

definition queue_weight :: "nat \<Rightarrow> ('i \<Rightarrow> nat) \<Rightarrow> ('i \<times> nat) list \<Rightarrow> nat" where
  "queue_weight b r queue = sum_list (map (\<lambda>(x, _). Suc b ^ r x) queue)"

lemma queue_weight_step:
  assumes "ranked g r" "map_of g x = Some ds" "length ds \<le> b"
  shows "queue_weight b r (queue @ map (\<lambda>d. (d, k + 1)) ds) < queue_weight b r ((x, k) # queue)"
proof (cases "ds = []")
  case False
  then obtain d where "d \<in> set ds" by (cases ds) auto
  then have "r d < r x" using assms(1,2) by (auto simp: ranked_def edges_def)
  then obtain n where n: "r x = Suc n" by (cases "r x") auto
  have "Suc b ^ r d \<le> Suc b ^ n" if "d \<in> set ds" for d
  proof -
    have "r d < r x" using that assms(1,2) by (auto simp: ranked_def edges_def)
    then show ?thesis using n by (intro power_increasing) auto
  qed
  then have "sum_list (map (\<lambda>d. Suc b ^ r d) ds) \<le> length ds * Suc b ^ n"
    by (induction ds) (auto intro: add_mono)
  also have "\<dots> \<le> b * Suc b ^ n" using assms(3) by simp
  also have "\<dots> < Suc b ^ r x" using n by simp
  finally show ?thesis by (simp add: queue_weight_def comp_def)
qed (simp add: queue_weight_def)

lemma dl_inv_later:
  "dl_inv g queue depths md \<Longrightarrow> map_of depths x = Some k \<Longrightarrow> (x, d) \<in> edges g \<Longrightarrow>
     (\<exists>k'. (d, k') \<in> set queue \<and> k < k') \<or> (\<exists>k'. map_of depths d = Some k' \<and> k < k')"
  unfolding dl_inv_def by blast

lemma dl_inv_step:
  assumes inv: "dl_inv g ((x, k) # queue) depths md" and g: "map_of g x = Some ds" and rk: "ranked g r"
  shows "dl_inv g (queue @ map (\<lambda>d. (d, k + 1)) ds) (AList.update x k depths) k"
proof -
  have queue: "\<And>y l. (y, l) \<in> set queue \<Longrightarrow> y \<in> fst ` set g \<and> k \<le> l \<and> l \<le> k + 1" and k: "md \<le> k"
    using inv by (fastforce simp: dl_inv_def)+
  have old: "l \<le> k" if "map_of depths y = Some l" for y l
    using inv k map_of_SomeD [OF that] by (fastforce simp: dl_inv_def)
  have deps: "d \<in> fst ` set g" "d \<noteq> x" if "d \<in> set ds" for d
    using rk g that by (auto simp: ranked_def edges_def)
  have "(\<exists>k'. (d, k') \<in> set (queue @ map (\<lambda>d. (d, k + 1)) ds) \<and> l < k') \<or>
      (\<exists>k'. map_of (AList.update x k depths) d = Some k' \<and> l < k')"
    if y: "map_of (AList.update x k depths) y = Some l" and e: "(y, d) \<in> edges g" for y l d
  proof (cases "y = x")
    case True
    then have "d \<in> set ds" "l = k" using y e g by (auto simp: edges_def update_conv)
    then show ?thesis by auto
  next
    case False
    then have yl: "map_of depths y = Some l" using y by (simp add: update_conv)
    then have "(\<exists>k'. (d, k') \<in> set ((x, k) # queue) \<and> l < k') \<or> (\<exists>k'. map_of depths d = Some k' \<and> l < k')"
      using dl_inv_later [OF inv _ e] by blast
    then show ?thesis using old by (cases "d = x") (fastforce simp: update_conv)+
  qed
  moreover have "sorted (map snd (queue @ map (\<lambda>d. (d, k + 1)) ds))"
    using inv queue by (auto simp: dl_inv_def sorted_append comp_def map_replicate_const)
  moreover have "\<forall>(y, l) \<in> set (AList.update x k depths). y \<in> fst ` set g \<and> l \<le> k"
  proof -
    have d: "distinct (map fst depths)" using inv by (simp add: dl_inv_def)
    have "y \<in> fst ` set g \<and> l \<le> k" if "(y, l) \<in> set (AList.update x k depths)" for y l
    proof -
      have "map_of (AList.update x k depths) y = Some l" using that distinct_update [OF d] by simp
      then show ?thesis using inv k map_of_SomeD [OF g] by (fastforce simp: dl_inv_def update_conv split: if_splits dest: map_of_SomeD)
    qed
    then show ?thesis by blast
  qed
  moreover have "\<forall>(y, l) \<in> set (queue @ map (\<lambda>d. (d, k + 1)) ds). y \<in> fst ` set g \<and> k \<le> l \<and> l \<le> k + 1"
    using queue deps by fastforce
  moreover have "distinct (map fst (AList.update x k depths))" using inv by (simp add: dl_inv_def distinct_update)
  ultimately show ?thesis unfolding dl_inv_def by blast
qed

lemma depth_loop_ends:
  assumes "ranked g r" "\<forall>(x, ds) \<in> set g. length ds \<le> b" "dl_inv g queue depths md"
  shows "\<exists>depths' md'. depth_loop g queue depths md = Some (Inr (depths', md')) \<and> dl_inv g [] depths' md' \<and>
    fst ` set queue \<union> fst ` set depths \<subseteq> fst ` set depths'"
  using assms(3)
proof (induction "queue_weight b r queue" arbitrary: queue depths md rule: less_induct)
  case less
  show ?case
  proof (cases queue)
    case Nil
    then show ?thesis using less.prems by (simp add: depth_loop.simps)
  next
    case (Cons e rest)
    obtain x k where e: "e = (x, k)" by (cases e)
    then have "x \<in> fst ` set g" using less.prems Cons by (auto simp: dl_inv_def)
    then obtain ds where ds: "map_of g x = Some ds" by (rule map_of_in)
    then have "length ds \<le> b" using assms(2) map_of_SomeD [OF ds] by blast
    then have smaller: "queue_weight b r (rest @ map (\<lambda>d. (d, k + 1)) ds) < queue_weight b r queue"
      using queue_weight_step [OF assms(1) ds] Cons e by simp
    have "fst ` set (AList.update x k depths) = insert x (fst ` set depths)" using dom_update [of x k depths] by simp
    moreover have "depth_loop g queue depths md = depth_loop g (rest @ map (\<lambda>d. (d, k + 1)) ds) (AList.update x k depths) k"
      unfolding Cons e by (subst depth_loop.simps) (simp add: ds)
    moreover obtain depths' md' where
      "depth_loop g (rest @ map (\<lambda>d. (d, k + 1)) ds) (AList.update x k depths) k = Some (Inr (depths', md'))" "dl_inv g [] depths' md'"
      "fst ` set (rest @ map (\<lambda>d. (d, k + 1)) ds) \<union> fst ` set (AList.update x k depths) \<subseteq> fst ` set depths'"
      using less.hyps [OF smaller dl_inv_step [OF less.prems [unfolded Cons e] ds assms(1)]] by blast
    ultimately show ?thesis using Cons e by (intro exI [of _ depths'] exI [of _ md']) auto
  qed
qed

section \<open>The order is topological\<close>

lemma fill_levels_eq:
  "\<forall>(x, k) \<in> set ds. k < length levels \<Longrightarrow>
     fill_levels ds levels = Inr (map (\<lambda>j. levels ! j @ map fst (filter (\<lambda>(x, k). k = j) ds)) [0..<length levels])"
proof (induction ds arbitrary: levels)
  case Nil
  then show ?case by (simp add: map_nth)
next
  case (Cons e ds)
  obtain x k where e: "e = (x, k)" by (cases e)
  with Cons show ?case by (auto simp: vec_index_def vec_write_def nth_list_update intro!: map_cong)
qed

lemma fill_levels_empty:
  assumes "\<forall>(x, k) \<in> set ds. k < n"
  shows "fill_levels ds (replicate n []) = Inr (map (\<lambda>j. map fst (filter (\<lambda>(x, k). k = j) ds)) [0..<n])"
proof -
  have "\<forall>(x, k) \<in> set ds. k < length (replicate n [])" using assms by simp
  from fill_levels_eq [OF this] show ?thesis by (simp cong: map_cong)
qed

lemma take_futs_eq: "distinct order \<Longrightarrow> set order \<subseteq> set futs \<Longrightarrow> take_futs order futs = Inr order"
proof (induction order arbitrary: futs)
  case (Cons x order)
  then have "y \<in> set (remove1 x futs)" if "y \<in> set order" for y using that by (cases "y = x") auto
  then have "set order \<subseteq> set (remove1 x futs)" by blast
  with Cons show ?case by simp
qed simp

definition level_of :: "('i::linorder \<times> nat) list \<Rightarrow> nat \<Rightarrow> 'i list" where
  "level_of depths j = map fst (filter (\<lambda>(x, k). k = j) (sort_key fst depths))"

lemma set_level_of: "distinct (map fst depths) \<Longrightarrow> x \<in> set (level_of depths j) \<longleftrightarrow> map_of depths x = Some j"
  by (force simp: level_of_def)

lemma distinct_level_of:
  assumes "distinct (map fst depths)"
  shows "distinct (level_of depths j)"
proof -
  have "mset (map fst (sort_key fst depths)) = mset (map fst depths)" by simp
  then have "distinct (map fst (sort_key fst depths))" using assms mset_eq_imp_distinct_iff by blast
  then show ?thesis unfolding level_of_def by (rule distinct_map_filter)
qed

lemma levels_topological:
  assumes d: "distinct (map fst depths)" and n: "\<forall>x k. map_of depths x = Some k \<longrightarrow> k < n"
  defines "order \<equiv> concat (map (level_of depths) (rev [0..<n]))"
  shows "distinct order" "set order = fst ` set depths"
    and "map_of depths x = Some k \<Longrightarrow> map_of depths y = Some l \<Longrightarrow> k < l \<Longrightarrow> \<exists>ys zs. order = ys @ x # zs \<and> y \<in> set ys"
proof -
  show "set order = fst ` set depths"
    using n set_level_of [OF d] unfolding order_def by (force simp: d dest: map_of_SomeD)
  have disjoint: "i = j" if "x \<in> set (level_of depths i)" "x \<in> set (level_of depths j)" for i j x
    using that set_level_of [OF d] by simp
  have "distinct (concat (map (level_of depths) js))" if "distinct js" for js
    using that
  proof (induction js)
    case (Cons j js)
    then have "set (level_of depths j) \<inter> set (concat (map (level_of depths) js)) = {}" using disjoint [of _ j] by fastforce
    with Cons show ?case by (simp add: distinct_level_of [OF d])
  qed simp
  then show "distinct order" by (simp add: order_def)
  show "\<exists>ys zs. order = ys @ x # zs \<and> y \<in> set ys" if x: "map_of depths x = Some k" and y: "map_of depths y = Some l" and less: "k < l"
  proof -
    have "k < n" "l < n" using n x y by blast+
    then have "[0..<n] = [0..<k] @ k # [Suc k..<n]" using upt_add_eq_append [of 0 k "n - k"] upt_conv_Cons [of k n] by simp
    then have order: "order = concat (map (level_of depths) (rev [Suc k..<n])) @ level_of depths k @ concat (map (level_of depths) (rev [0..<k]))"
      by (simp add: order_def)
    have "x \<in> set (level_of depths k)" using x set_level_of [OF d] by simp
    then obtain us vs where "level_of depths k = us @ x # vs" by (meson split_list)
    moreover have "y \<in> set (concat (map (level_of depths) (rev [Suc k..<n])))"
      using y set_level_of [OF d] less \<open>l < n\<close> by auto
    ultimately show ?thesis using order by (metis append.assoc append_Cons Un_iff set_append)
  qed
qed

lemma set_facet_deps [simp]: "set (facet_deps ps) = {d. Facet d \<in> set ps}"
  by (induction ps rule: facet_deps.induct) auto

lemma facet_graph_Ok:
  "facet_graph idents m = Ok g \<Longrightarrow>
     g = map (\<lambda>(i, ps). (i, facet_deps ps)) m \<and> (\<forall>(i, ds) \<in> set g. set ds \<subseteq> set idents)"
proof (induction m arbitrary: g)
  case (Cons e m)
  obtain i ps where e: "e = (i, ps)" by (cases e)
  with Cons obtain g' where "find (\<lambda>d. d \<notin> set idents) (facet_deps ps) = None" "facet_graph idents m = Ok g'" "g = (i, facet_deps ps) # g'"
    by (auto split: option.splits result.splits)
  with Cons.IH [of g'] e show ?case by (auto simp: find_None_iff)
qed simp

lemma edges_depends: "edges (map (\<lambda>(i, ps). (i, facet_deps ps)) m) = depends m"
proof -
  have "map_of (map (\<lambda>(i, ps). (i, facet_deps ps)) m) i = map_option facet_deps (map_of m i)" for i
    by (induction m) auto
  then show ?thesis by (auto simp: edges_def depends_def)
qed

lemma first_cycle_Ok: "first_cycle idents m = Ok () \<longleftrightarrow> (\<forall>i \<in> set idents. check_no_cycles i m = Ok ())"
  by (induction idents) (auto split: result.splits)

lemma first_cycle_Err: "first_cycle idents m = Err e \<Longrightarrow> \<exists>i \<in> set idents. check_no_cycles i m = Err e"
  by (induction idents) (auto split: result.splits)

lemma facet_graph_Err: "facet_graph idents m = Err e \<Longrightarrow> \<exists>d. e = Unrecognised d \<and> d \<in> named_facets m - set idents"
proof (induction m)
  case (Cons x m)
  obtain i ps where x: "x = (i, ps)" by (cases x)
  show ?case
  proof (cases "find (\<lambda>d. d \<notin> set idents) (facet_deps ps)")
    case None
    with Cons x have "facet_graph idents m = Err e" by (auto split: result.splits)
    with Cons.IH show ?thesis by (auto simp: named_facets_def)
  next
    case (Some d)
    then have "d \<in> set (facet_deps ps) \<and> d \<notin> set idents" by (auto simp: find_Some_iff simp del: set_facet_deps)
    with Cons.prems Some x show ?thesis by (auto simp: named_facets_def)
  qed
qed simp

lemma depends_rank:
  assumes "\<forall>i. (i, i) \<notin> (depends m)\<^sup>+" "(i, d) \<in> depends m"
  shows "card {x. (d, x) \<in> (depends m)\<^sup>+} < card {x. (i, x) \<in> (depends m)\<^sup>+}"
proof (rule psubset_card_mono)
  have "{x. (i, x) \<in> (depends m)\<^sup>+} \<subseteq> named_facets m"
  proof
    fix x assume "x \<in> {x. (i, x) \<in> (depends m)\<^sup>+}"
    then obtain y where "(y, x) \<in> depends m" by (auto elim: tranclE)
    then show "x \<in> named_facets m" by (force simp: depends_def named_facets_def dest: map_of_SomeD)
  qed
  then show "finite {x. (i, x) \<in> (depends m)\<^sup>+}" using finite_named_facets finite_subset by blast
  have "d \<in> {x. (i, x) \<in> (depends m)\<^sup>+}" "d \<notin> {x. (d, x) \<in> (depends m)\<^sup>+}" using assms by auto
  then show "{x. (d, x) \<in> (depends m)\<^sup>+} \<subset> {x. (i, x) \<in> (depends m)\<^sup>+}"
    using assms(2) by (auto intro: trancl_into_trancl2)
qed

text \<open>Every facet is reached from a facet that no other one depends on.\<close>

lemma heads_reach:
  assumes rk: "ranked g r" and idents: "set idents = fst ` set g" "distinct (map fst g)"
    and closed: "set (graph_heads idents g) \<subseteq> S" "\<And>i d. i \<in> S \<Longrightarrow> (i, d) \<in> edges g \<Longrightarrow> d \<in> S"
  shows "fst ` set g \<subseteq> S"
proof
  fix x assume "x \<in> fst ` set g"
  then show "x \<in> S"
  proof (induction "Max (r ` fst ` set g) - r x" arbitrary: x rule: less_induct)
    case less
    show ?case
    proof (cases "x \<in> set (graph_heads idents g)")
      case False
      then obtain i ds where i: "(i, ds) \<in> set g" "x \<in> set ds" using less.prems idents(1) by (auto simp: graph_heads_def list_all_iff)
      then have e: "(i, x) \<in> edges g" using idents(2) by (auto simp: edges_def)
      then have "r x < r i" using rk by (auto simp: ranked_def)
      moreover have "r i \<le> Max (r ` fst ` set g)" using i(1) by (intro Max_ge) force+
      ultimately have "i \<in> S" using less.hyps [of i] i(1) by force
      then show ?thesis using closed(2) e by blast
    qed (use closed(1) in blast)
  qed
qed

lemma build_order_topological:
  assumes rk: "ranked g r" and idents: "set idents = fst ` set g" "distinct (map fst g)"
  shows "\<exists>order. build_order idents g = Some (Inr order) \<and> distinct order \<and> set order = fst ` set g \<and>
    (\<forall>(i, d) \<in> edges g. \<exists>ys zs. order = ys @ i # zs \<and> d \<in> set ys)"
proof -
  let ?queue = "map (\<lambda>head. (head, 0 :: nat)) (graph_heads idents g)" and ?b = "Max (insert 0 ((length \<circ> snd) ` set g))"
  have start: "dl_inv g ?queue [] 0" using idents(1) by (auto simp: dl_inv_def graph_heads_def comp_def map_replicate_const)
  have small: "\<forall>(x, ds) \<in> set g. length ds \<le> ?b" by (auto intro!: Max_ge rev_image_eqI)
  obtain depths md where loop: "depth_loop g ?queue [] 0 = Some (Inr (depths, md))" "dl_inv g [] depths md"
      "fst ` set ?queue \<subseteq> fst ` set depths"
    using depth_loop_ends [OF rk small start] by auto
  have d: "distinct (map fst depths)" using loop(2) by (simp add: dl_inv_def)
  have "k \<le> md" if "(x, k) \<in> set depths" for x k using loop(2) that by (auto simp: dl_inv_def)
  then have md: "\<forall>x k. map_of depths x = Some k \<longrightarrow> k < md + 1" using map_of_SomeD by fastforce
  have later: "\<exists>l. map_of depths d = Some l \<and> k < l" if "map_of depths i = Some k" "(i, d) \<in> edges g" for i k d
    using dl_inv_later [OF loop(2) that] by simp
  have "fst ` set g \<subseteq> fst ` set depths"
  proof (rule heads_reach [OF rk idents])
    show "set (graph_heads idents g) \<subseteq> fst ` set depths" using loop(3) by (simp add: image_image)
    show "d \<in> fst ` set depths" if i: "i \<in> fst ` set depths" and e: "(i, d) \<in> edges g" for i d
    proof -
      obtain k where "map_of depths i = Some k" using i by (rule map_of_in)
      then obtain l where "map_of depths d = Some l" using later e by blast
      then show ?thesis by (force dest: map_of_SomeD)
    qed
  qed
  moreover have "fst ` set depths \<subseteq> fst ` set g" using loop(2) by (auto simp: dl_inv_def)
  ultimately have all: "fst ` set depths = fst ` set g" by blast
  let ?order = "concat (map (level_of depths) (rev [0..<md + 1]))"
  note topo = levels_topological [OF d md]
  have "fill_levels (sort_key fst depths) (replicate (md + 1) []) = Inr (map (level_of depths) [0..<md + 1])"
    using loop(2) by (subst fill_levels_empty) (auto simp: dl_inv_def level_of_def [abs_def])
  moreover have "take_futs ?order (map fst g) = Inr ?order"
    by (rule take_futs_eq) (use topo(1,2) all in simp_all)
  ultimately have built: "build_order idents g = Some (Inr ?order)"
    using loop(1) by (simp add: build_order_def rev_map)
  have before: "\<exists>ys zs. ?order = ys @ i # zs \<and> d \<in> set ys" if e: "(i, d) \<in> edges g" for i d
  proof -
    have "i \<in> fst ` set depths" using e all by (force simp: edges_def dest: map_of_SomeD)
    then obtain k where k: "map_of depths i = Some k" by (rule map_of_in)
    from later [OF k e] topo(3) [OF k] show ?thesis by blast
  qed
  show ?thesis
    by (intro exI [of _ ?order] conjI built topo(1) topo(2) [THEN trans, OF all]) (use before in blast)
qed

text \<open>What the macro needs from a factory, and what it promises of an order.\<close>

definition facets_ok :: "'i facets \<Rightarrow> bool" where
  "facets_ok fs \<longleftrightarrow> distinct (facet_idents fs) \<and> length (facet_params fs) = length (facet_idents fs)"

definition topological :: "'i facets \<Rightarrow> 'i list \<Rightarrow> bool" where
  "topological fs order \<longleftrightarrow> distinct order \<and> set order = set (facet_idents fs) \<and>
     (\<forall>(i, d) \<in> depends (facet_params_map fs). \<exists>ys zs. order = ys @ i # zs \<and> d \<in> set ys)"

lemma facet_params_map_fst: "facets_ok fs \<Longrightarrow> map fst (facet_params_map fs) = facet_idents fs"
  by (simp add: facets_ok_def facet_params_map_def)

lemma trancl_start: "(i, d) \<in> (depends m)\<^sup>+ \<Longrightarrow> i \<in> fst ` set m"
  by (erule converse_tranclE) (force simp: depends_def dest: map_of_SomeD)+

lemma facets_ranked:
  assumes "facets_ok fs" "first_cycle (facet_idents fs) (facet_params_map fs) = Ok ()" "facet_graph (facet_idents fs) (facet_params_map fs) = Ok g"
  shows "ranked g (\<lambda>i. card {x. (i, x) \<in> (depends (facet_params_map fs))\<^sup>+})" "map fst g = facet_idents fs" "edges g = depends (facet_params_map fs)"
proof -
  let ?m = "facet_params_map fs"
  have g: "g = map (\<lambda>(i, ps). (i, facet_deps ps)) ?m" "\<forall>(i, ds) \<in> set g. set ds \<subseteq> set (facet_idents fs)"
    using facet_graph_Ok [OF assms(3)] by blast+
  show fst_g: "map fst g = facet_idents fs" using g(1) facet_params_map_fst [OF assms(1)] by (simp add: comp_def case_prod_unfold)
  show edges: "edges g = depends ?m" using g(1) edges_depends by simp
  have acyclic: "\<forall>i. (i, i) \<notin> (depends ?m)\<^sup>+"
  proof (rule allI, rule notI)
    fix i assume i: "(i, i) \<in> (depends ?m)\<^sup>+"
    then have "i \<in> set (facet_idents fs)" using trancl_start facet_params_map_fst [OF assms(1)] by (metis image_set)
    then have "check_no_cycles i ?m = Ok ()" using assms(2) by (simp add: first_cycle_Ok)
    with check_no_cycles_Ok [of i ?m] i show False by simp
  qed
  have "d \<in> fst ` set g" if "(i, d) \<in> edges g" for i d
    using that g(2) arg_cong [OF fst_g, of set] by (fastforce simp: edges_def dest: map_of_SomeD)
  then show "ranked g (\<lambda>i. card {x. (i, x) \<in> (depends ?m)\<^sup>+})"
    using depends_rank [OF acyclic] edges by (auto simp: ranked_def)
qed

lemma factory_order:
  assumes "facets_ok fs" "first_cycle (facet_idents fs) (facet_params_map fs) = Ok ()" "facet_graph (facet_idents fs) (facet_params_map fs) = Ok g"
  shows "\<exists>order. build_order (facet_idents fs) g = Some (Inr order) \<and> topological fs order"
  using build_order_topological [OF facets_ranked(1) [OF assms], of "facet_idents fs"] facets_ranked(2,3) [OF assms] assms(1)
  by (auto simp: topological_def facets_ok_def simp flip: set_map)

lemma no_facet_cycle:
  assumes "facets_ok fs" "first_cycle (facet_idents fs) (facet_params_map fs) = Ok ()"
  shows "(i, i) \<notin> (depends (facet_params_map fs))\<^sup>+"
proof
  assume i: "(i, i) \<in> (depends (facet_params_map fs))\<^sup>+"
  then have "i \<in> set (facet_idents fs)" using trancl_start facet_params_map_fst [OF assms(1)] by (metis image_set)
  with i assms(2) check_no_cycles_Ok [of i "facet_params_map fs"] show False by (simp add: first_cycle_Ok)
qed

lemma gen_factory_builder_Ok:
  assumes "gen_factory_builder fs = Some (Inr (Ok b))" "b = Sync_Builder g \<or> b = Async_Builder g order"
  shows "first_cycle (facet_idents fs) (facet_params_map fs) = Ok ()" "facet_graph (facet_idents fs) (facet_params_map fs) = Ok g"
    "b = Async_Builder g order \<Longrightarrow> build_order (facet_idents fs) g = Some (Inr order)"
  using assms by (auto simp: gen_factory_builder_def Let_def res_bind_eq_Inr split: result.splits if_splits)

lemma async_order:
  assumes "facets_ok fs" "gen_factory_builder fs = Some (Inr (Ok (Async_Builder g order)))"
  shows "topological fs order"
  using factory_order [OF assms(1)] gen_factory_builder_Ok [OF assms(2)] by auto


text \<open>A factory of three facets with a parameter: 2 needs 1, and 3 needs 1 and 2.\<close>

definition demo_factory :: "bool \<Rightarrow> nat facets" where
  "demo_factory asy = \<lparr>facet_idents = [1, 2, 3], facet_asyncnesses = [False, asy, False],
     facet_params = [[Param 9], [Param 9, Facet 1], [Facet 1, Facet 2]]\<rparr>"

definition demo_graph :: "(nat \<times> nat list) list" where
  "demo_graph = [(1, []), (2, [1]), (3, [1, 2])]"

lemma demo_ok: "facets_ok (demo_factory asy)"
  by (simp add: facets_ok_def demo_factory_def)

lemmas demo_eval = gen_factory_builder_def demo_factory_def demo_graph_def facet_params_map_def check_no_cycles_def cycle_step_def
  build_order_def graph_heads_def depth_loop.simps vec_index_def vec_write_def

lemma demo_sync: "gen_factory_builder (demo_factory False) = Some (Inr (Ok (Sync_Builder demo_graph)))"
  by (simp add: demo_eval)

lemma demo_async: "gen_factory_builder (demo_factory True) = Some (Inr (Ok (Async_Builder demo_graph [1, 2, 3])))"
  by (simp add: demo_eval)


section \<open>The synchronous builder\<close>

text \<open>
  The facets that are built already, and the calls of the methods of the factory.  A method gets its facets; the parameters of the
  factory are part of it.  The generated builders call each other along the dependencies; the depth of these calls is bounded by
  the fuel.
\<close>

record ('i, 'v) sync_builder =
  b_facets :: "'i \<rightharpoonup> 'v"
  b_calls :: "('i \<times> 'v list) list"

definition sync_builder_new :: "('i, 'v) sync_builder" where
  "sync_builder_new = \<lparr>b_facets = Map.empty, b_calls = []\<rparr>"

text \<open>Statements with \<open>?\<close>, one after the other.\<close>

fun try_all :: "('i \<Rightarrow> 's \<Rightarrow> (('v, 'e) result \<times> 's) res option) \<Rightarrow> 'i list \<Rightarrow> 's \<Rightarrow> (('v list, 'e) result \<times> 's) res option" where
  "try_all f [] s = Some (Inr (Ok [], s))"
| "try_all f (i # rest) s =
     (case f i s of
        None \<Rightarrow> None
      | Some (Inl p) \<Rightarrow> Some (Inl p)
      | Some (Inr (Err e, s)) \<Rightarrow> Some (Inr (Err e, s))
      | Some (Inr (Ok v, s)) \<Rightarrow>
          (case try_all f rest s of
             None \<Rightarrow> None
           | Some (Inl p) \<Rightarrow> Some (Inl p)
           | Some (Inr (Err e, s)) \<Rightarrow> Some (Inr (Err e, s))
           | Some (Inr (Ok vs, s)) \<Rightarrow> Some (Inr (Ok (v # vs), s))))"

fun sync_build ::
  "nat \<Rightarrow> ('i \<times> 'i list) list \<Rightarrow> ('i \<Rightarrow> 'v list \<Rightarrow> ('v, 'e) result) \<Rightarrow> 'i \<Rightarrow> ('i, 'v) sync_builder \<Rightarrow>
   (('v, 'i \<times> 'e) result \<times> ('i, 'v) sync_builder) res option" where
  "sync_build 0 g call i b = None"
| "sync_build (Suc n) g call i b =
     (case b_facets b i of
        Some v \<Rightarrow> Some (Inr (Ok v, b))
      | None \<Rightarrow>
          (case map_of g i of
             None \<Rightarrow> Some (Inl (Panic ''no builder for this type''))
           | Some ds \<Rightarrow>
               (case try_all (sync_build n g call) ds b of
                  None \<Rightarrow> None
                | Some (Inl p) \<Rightarrow> Some (Inl p)
                | Some (Inr (Err e, b)) \<Rightarrow> Some (Inr (Err e, b))
                | Some (Inr (Ok vs, b)) \<Rightarrow>
                    let b = b\<lparr>b_calls := b_calls b @ [(i, vs)]\<rparr> in
                    (case call i vs of
                       Err e \<Rightarrow> Some (Inr (Err (i, e), b))
                     | Ok v \<Rightarrow>
                         if b_facets b i \<noteq> None then Some (Inl (Panic ''assertion failed: self.facets.is_none()''))
                         else Some (Inr (Ok v, b\<lparr>b_facets := (b_facets b)(i \<mapsto> v)\<rparr>))))))"

text \<open>A container asks for its facets one by one, those of its delegates first; \<open>wanted\<close> has them in this order.\<close>

definition sync_container ::
  "('i \<times> 'i list) list \<Rightarrow> ('i \<Rightarrow> 'v list \<Rightarrow> ('v, 'e) result) \<Rightarrow> 'i list \<Rightarrow> (('v list, 'i \<times> 'e) result \<times> ('i, 'v) sync_builder) res option" where
  "sync_container g call wanted = try_all (sync_build (length g) g call) wanted sync_builder_new"

section \<open>What is built\<close>

text \<open>The value of a facet: its method, called with the values of its dependencies.\<close>

inductive built_as :: "('i \<times> 'i list) list \<Rightarrow> ('i \<Rightarrow> 'v list \<Rightarrow> ('v, 'e) result) \<Rightarrow> 'i \<Rightarrow> 'v \<Rightarrow> bool" for g call where
  built: "map_of g i = Some ds \<Longrightarrow> list_all2 (built_as g call) ds vs \<Longrightarrow> call i vs = Ok v \<Longrightarrow> built_as g call i v"

definition fails :: "('i \<times> 'i list) list \<Rightarrow> ('i \<Rightarrow> 'v list \<Rightarrow> ('v, 'e) result) \<Rightarrow> 'i \<Rightarrow> 'e \<Rightarrow> bool" where
  "fails g call i e \<longleftrightarrow> (\<exists>ds vs. map_of g i = Some ds \<and> list_all2 (built_as g call) ds vs \<and> call i vs = Err e)"

definition needs :: "('i \<times> 'i list) list \<Rightarrow> 'i list \<Rightarrow> 'i set" where
  "needs g wanted = (edges g)\<^sup>* `` set wanted"

definition b_inv :: "('i \<times> 'i list) list \<Rightarrow> ('i \<Rightarrow> 'v list \<Rightarrow> ('v, 'e) result) \<Rightarrow> ('i, 'v) sync_builder \<Rightarrow> bool" where
  "b_inv g call b \<longleftrightarrow> distinct (map fst (b_calls b)) \<and> set (map fst (b_calls b)) = dom (b_facets b) \<and>
     (\<forall>i v. b_facets b i = Some v \<longrightarrow> built_as g call i v \<and> (edges g)\<^sup>* `` {i} \<subseteq> dom (b_facets b))"

text \<open>What a part of the construction does that is asked for the facets \<open>wanted\<close>.\<close>

definition builds ::
  "('i \<times> 'i list) list \<Rightarrow> ('i \<Rightarrow> 'v list \<Rightarrow> ('v, 'e) result) \<Rightarrow> 'i list \<Rightarrow> ('i, 'v) sync_builder \<Rightarrow>
   ('v list, 'i \<times> 'e) result \<Rightarrow> ('i, 'v) sync_builder \<Rightarrow> bool" where
  "builds g call wanted b r b' \<longleftrightarrow>
     (case r of
        Ok vs \<Rightarrow> b_inv g call b' \<and> list_all2 (built_as g call) wanted vs \<and> dom (b_facets b') = dom (b_facets b) \<union> needs g wanted
      | Err (i, e) \<Rightarrow> distinct (map fst (b_calls b')) \<and> i \<in> needs g wanted \<and> fails g call i e)"

lemma needs_Nil [simp]: "needs g [] = {}"
  by (simp add: needs_def)

lemma needs_trans:
  assumes "i \<in> needs g wanted" "j \<in> needs g [i]"
  shows "j \<in> needs g wanted"
proof -
  obtain w where "w \<in> set wanted" "(w, i) \<in> (edges g)\<^sup>*" using assms(1) by (auto simp: needs_def)
  moreover have "(i, j) \<in> (edges g)\<^sup>*" using assms(2) by (auto simp: needs_def)
  ultimately show ?thesis unfolding needs_def by (blast intro: rtrancl_trans)
qed

lemma needs_Cons: "needs g (i # wanted) = needs g [i] \<union> needs g wanted"
  by (auto simp: needs_def)

lemma needs_deps:
  assumes "map_of g i = Some ds"
  shows "needs g [i] = insert i (needs g ds)"
proof -
  have step: "(i, d) \<in> edges g \<longleftrightarrow> d \<in> set ds" for d using assms by (simp add: edges_def)
  have "(i, x) \<in> (edges g)\<^sup>* \<longleftrightarrow> x = i \<or> (\<exists>d \<in> set ds. (d, x) \<in> (edges g)\<^sup>*)" for x
  proof
    assume "(i, x) \<in> (edges g)\<^sup>*"
    then show "x = i \<or> (\<exists>d \<in> set ds. (d, x) \<in> (edges g)\<^sup>*)" by (cases rule: converse_rtranclE) (auto simp: step)
  qed (auto simp: step [symmetric] intro: converse_rtrancl_into_rtrancl)
  then show ?thesis by (auto simp: needs_def)
qed

lemma ranked_dep: "ranked g r \<Longrightarrow> map_of g i = Some ds \<Longrightarrow> d \<in> set ds \<Longrightarrow> r d < r i \<and> d \<in> fst ` set g"
  by (auto simp: ranked_def edges_def)

lemma needs_rank: "ranked g r \<Longrightarrow> j \<in> needs g [i] \<Longrightarrow> r j \<le> r i"
proof -
  assume rk: "ranked g r" and "j \<in> needs g [i]"
  then have "(i, j) \<in> (edges g)\<^sup>*" by (simp add: needs_def)
  then show ?thesis using rk by (induction rule: rtrancl_induct) (auto simp: ranked_def)
qed

lemma try_all_builds:
  assumes "\<And>i b. i \<in> set wanted \<Longrightarrow> b_inv g call b \<Longrightarrow>
      \<exists>r b'. f i b = Some (Inr (r, b')) \<and> builds g call [i] b (case r of Ok v \<Rightarrow> Ok [v] | Err e \<Rightarrow> Err e) b'"
    and "b_inv g call b"
  shows "\<exists>r b'. try_all f wanted b = Some (Inr (r, b')) \<and> builds g call wanted b r b'"
  using assms
proof (induction wanted arbitrary: b)
  case Nil
  then show ?case by (simp add: builds_def)
next
  case (Cons i wanted)
  obtain r b1 where first: "f i b = Some (Inr (r, b1))" "builds g call [i] b (case r of Ok v \<Rightarrow> Ok [v] | Err e \<Rightarrow> Err e) b1"
    using Cons.prems(1) [of i b] Cons.prems(2) by auto
  show ?case
  proof (cases r)
    case (Err e)
    with first show ?thesis by (auto simp: builds_def needs_Cons [of g i wanted])
  next
    case (Ok v)
    with first(2) have b1: "b_inv g call b1" "built_as g call i v" "dom (b_facets b1) = dom (b_facets b) \<union> needs g [i]"
      by (auto simp: builds_def)
    obtain r2 b2 where rest: "try_all f wanted b1 = Some (Inr (r2, b2))" "builds g call wanted b1 r2 b2"
      using Cons.IH [OF Cons.prems(1) b1(1)] by auto
    show ?thesis
    proof (cases r2)
      case (Ok vs)
      with \<open>r = Ok v\<close> first rest b1 show ?thesis by (auto simp: builds_def needs_Cons [of g i wanted])
    next
      case (Err e)
      with \<open>r = Ok v\<close> first rest show ?thesis by (auto simp: builds_def needs_Cons [of g i wanted])
    qed
  qed
qed

lemma b_inv_add:
  assumes "b_inv g call b" "b_facets b i = None" "built_as g call i v" "needs g [i] \<subseteq> insert i (dom (b_facets b))"
  shows "b_inv g call (b\<lparr>b_calls := b_calls b @ [(i, vs)], b_facets := (b_facets b)(i \<mapsto> v)\<rparr>)"
proof -
  have "(edges g)\<^sup>* `` {j} \<subseteq> insert i (dom (b_facets b))" if "b_facets b j = Some u" for j u
    using assms(1) that unfolding b_inv_def by blast
  moreover have "i \<notin> set (map fst (b_calls b))" using assms(1,2) by (auto simp: b_inv_def)
  ultimately show ?thesis using assms by (simp add: b_inv_def needs_def)
qed

lemma sync_build_builds:
  assumes "ranked g r"
  shows "i \<in> fst ` set g \<Longrightarrow> r i < n \<Longrightarrow> b_inv g call b \<Longrightarrow>
    \<exists>res b'. sync_build n g call i b = Some (Inr (res, b')) \<and> builds g call [i] b (case res of Ok v \<Rightarrow> Ok [v] | Err e \<Rightarrow> Err e) b'"
proof (induction n arbitrary: i b)
  case (Suc n)
  show ?case
  proof (cases "b_facets b i")
    case (Some v)
    then have "built_as g call i v" "needs g [i] \<subseteq> dom (b_facets b)" using Suc.prems(3) by (auto simp: b_inv_def needs_def)
    with Some Suc.prems(3) show ?thesis by (auto simp: builds_def)
  next
    case None
    obtain ds where ds: "map_of g i = Some ds" using Suc.prems(1) by (rule map_of_in)
    have dep: "d \<in> fst ` set g" "r d < n" if "d \<in> set ds" for d
      using ranked_dep [OF assms ds that] Suc.prems(2) by simp_all
    have "\<exists>res b'. try_all (sync_build n g call) ds b = Some (Inr (res, b')) \<and> builds g call ds b res b'"
      by (rule try_all_builds [OF Suc.IH [OF dep] Suc.prems(3)])
    then obtain res b1 where deps: "try_all (sync_build n g call) ds b = Some (Inr (res, b1))" "builds g call ds b res b1" by blast
    show ?thesis
    proof (cases res)
      case (Err e)
      with None ds deps show ?thesis by (auto simp: builds_def needs_deps)
    next
      case (Ok vs)
      have fresh: "i \<notin> needs g ds"
      proof
        assume "i \<in> needs g ds"
        then obtain d where "d \<in> set ds" "i \<in> needs g [d]" by (auto simp: needs_def)
        then show False using needs_rank [OF assms] ranked_dep [OF assms ds] by fastforce
      qed
      have b1: "b_inv g call b1" "list_all2 (built_as g call) ds vs" "dom (b_facets b1) = dom (b_facets b) \<union> needs g ds"
        using deps(2) Ok by (auto simp: builds_def)
      then have none: "b_facets b1 i = None" using None fresh by blast
      show ?thesis
      proof (cases "call i vs")
        case (Err e)
        then have "fails g call i e" using ds b1(2) by (auto simp: fails_def)
        with Err None ds deps Ok b1 none show ?thesis by (auto simp: builds_def needs_deps b_inv_def domIff)
      next
        case c: (Ok v)
        have "built_as g call i v" by (rule built_as.built [OF ds b1(2) c])
        moreover have "needs g [i] \<subseteq> insert i (dom (b_facets b1))" using needs_deps [OF ds] b1(3) by blast
        ultimately have "b_inv g call (b1\<lparr>b_calls := b_calls b1 @ [(i, vs)], b_facets := (b_facets b1)(i \<mapsto> v)\<rparr>)"
          by (rule b_inv_add [OF b1(1) none])
        with c None ds deps Ok b1 none \<open>built_as g call i v\<close> show ?thesis by (auto simp: builds_def needs_deps Let_def)
      qed
    qed
  qed
qed simp

lemma factory_rank:
  assumes "facets_ok fs" "gen_factory_builder fs = Some (Inr (Ok b))" "b = Sync_Builder g \<or> b = Async_Builder g order"
  shows "\<exists>r. ranked g r \<and> map fst g = facet_idents fs \<and> (\<forall>i \<in> fst ` set g. r i < length g) \<and>
    edges g = depends (facet_params_map fs)"
proof -
  let ?m = "facet_params_map fs"
  note ok = gen_factory_builder_Ok(1,2) [OF assms(2,3)]
  note rk = facets_ranked [OF assms(1) ok]
  have small: "card {x. (i, x) \<in> (depends ?m)\<^sup>+} < length g" if "i \<in> fst ` set g" for i
  proof -
    have "{x. (i, x) \<in> (depends ?m)\<^sup>+} \<subseteq> fst ` set g - {i}"
    proof
      fix x assume x: "x \<in> {x. (i, x) \<in> (depends ?m)\<^sup>+}"
      then obtain y where "(y, x) \<in> edges g" using rk(3) by (auto elim: tranclE)
      moreover have "x \<noteq> i" using x no_facet_cycle [OF assms(1) ok(1), of i] by auto
      ultimately show "x \<in> fst ` set g - {i}" using rk(1) by (auto simp: ranked_def)
    qed
    moreover have "card (fst ` set g - {i}) < card (fst ` set g)" using that by (intro psubset_card_mono) auto
    moreover have "card (fst ` set g) \<le> length g" by (metis card_length length_map set_map)
    ultimately show ?thesis using card_mono [of "fst ` set g - {i}" "{x. (i, x) \<in> (depends ?m)\<^sup>+}"] by simp
  qed
  with rk show ?thesis by blast
qed

text \<open>
  C39. The synchronous builder of a factory returns, for every container whose fields are facets: without a panic it calls the
  method of each facet that the container needs, directly or not, exactly once and with its dependencies, and fills every field with the
  value that its method gave; or it returns the error of a method that fails on its dependencies, having called
  no method twice.
\<close>

theorem sync_factory_builds:
  assumes "facets_ok fs" "gen_factory_builder fs = Some (Inr (Ok (Sync_Builder g)))" "set wanted \<subseteq> set (facet_idents fs)"
  shows "\<exists>r b. sync_container g call wanted = Some (Inr (r, b)) \<and> distinct (map fst (b_calls b)) \<and>
    (case r of
       Ok vs \<Rightarrow> list_all2 (built_as g call) wanted vs \<and> set (map fst (b_calls b)) = needs g wanted
     | Err (i, e) \<Rightarrow> i \<in> needs g wanted \<and> fails g call i e)"
proof -
  obtain r where rk: "ranked g r" "map fst g = facet_idents fs" "\<forall>i \<in> fst ` set g. r i < length g"
      "edges g = depends (facet_params_map fs)"
    using factory_rank [OF assms(1,2) disjI1 [OF refl]] by blast
  have known: "i \<in> fst ` set g" if "i \<in> set wanted" for i using that assms(3) arg_cong [OF rk(2), of set] by auto
  have "b_inv g call sync_builder_new" by (simp add: b_inv_def sync_builder_new_def)
  from try_all_builds [OF sync_build_builds [OF rk(1) known bspec [OF rk(3) known]] this]
  obtain res b where "sync_container g call wanted = Some (Inr (res, b))" "builds g call wanted sync_builder_new res b"
    unfolding sync_container_def by blast
  then show ?thesis by (cases res) (auto simp: builds_def b_inv_def sync_builder_new_def)
qed

text \<open>Methods that add up their facets; a container of the second and the third facet.\<close>

definition demo_call :: "nat \<Rightarrow> nat list \<Rightarrow> (nat, string) result" where
  "demo_call i vs = Ok (i + sum_list vs)"

theorem sync_factory_builds_witness:
  "\<exists>vs b. sync_container demo_graph demo_call [2, 3] = Some (Inr (Ok vs, b)) \<and> vs = [3, 7] \<and> map fst (b_calls b) = [1, 2, 3] \<and>
     list_all2 (built_as demo_graph demo_call) [2, 3] vs \<and> {1, 2, 3} = needs demo_graph [2, 3]"
proof -
  have "sync_container demo_graph demo_call [2, 3] =
      Some (Inr (Ok [3, 7], \<lparr>b_facets = [1 \<mapsto> 1, 2 \<mapsto> 3, 3 \<mapsto> 7], b_calls = [(1, []), (2, [1]), (3, [1, 3])]\<rparr>))"
    by (simp add: sync_container_def demo_graph_def demo_call_def sync_builder_new_def eval_nat_numeral)
  then show ?thesis
    using sync_factory_builds [OF demo_ok demo_sync, of "[2, 3]" demo_call] by (simp add: demo_factory_def)
qed

section \<open>The asynchronous builder\<close>

text \<open>
  \<open>need\<close> marks a facet and what it depends on; the depth of the calls is bounded by the fuel.
\<close>

fun need :: "nat \<Rightarrow> ('i \<times> 'i list) list \<Rightarrow> 'i \<Rightarrow> 'i set \<Rightarrow> 'i set option" where
  "need 0 g i needed = None"
| "need (Suc n) g i needed =
     (case map_of g i of
        None \<Rightarrow> None
      | Some ds \<Rightarrow> fold (\<lambda>d acc. Option.bind acc (need n g d)) ds (Some (insert i needed)))"

text \<open>
  \<open>try_join!\<close> returns the results of all futures, or an error of one of them; which one, \<open>pick\<close> decides.
\<close>

fun errs_of :: "('v, 'e) result list \<Rightarrow> 'e list" where
  "errs_of [] = []"
| "errs_of (Ok v # rs) = errs_of rs"
| "errs_of (Err e # rs) = e # errs_of rs"

fun oks_of :: "('v, 'e) result list \<Rightarrow> 'v list" where
  "oks_of [] = []"
| "oks_of (Ok v # rs) = v # oks_of rs"
| "oks_of (Err e # rs) = oks_of rs"

definition try_join :: "('e list \<Rightarrow> 'e) \<Rightarrow> ('v, 'e) result list \<Rightarrow> ('v list, 'e) result" where
  "try_join pick rs =
     (if errs_of rs = [] then Ok (oks_of rs) else Err (pick (errs_of rs)))"

text \<open>
  The shared future of a facet, given what the futures return that are set up before it.  A future that is used
  before it is set up is a name that is not bound.
\<close>

definition facet_future ::
  "(('i \<times> 'e) list \<Rightarrow> 'i \<times> 'e) \<Rightarrow> ('i \<times> 'i list) list \<Rightarrow> ('i \<Rightarrow> 'v list \<Rightarrow> ('v, 'e) result) \<Rightarrow> 'i set \<Rightarrow>
   ('i \<rightharpoonup> ('v option, 'i \<times> 'e) result) \<Rightarrow> 'i \<Rightarrow> ('v option, 'i \<times> 'e) result res" where
  "facet_future pick g call needed futs i =
     (case map_of g i of
        None \<Rightarrow> Inl (Panic ''no method'')
      | Some ds \<Rightarrow>
          if \<not> list_all (\<lambda>d. futs d \<noteq> None) ds then Inl (Panic ''cannot find value in this scope'')
          else if i \<in> needed then
            (case try_join pick (map (\<lambda>d. the (futs d)) ds) of
               Err e \<Rightarrow> Inr (Err e)
             | Ok vs \<Rightarrow>
                 if None \<in> set vs then Inl (Panic ''called Option::unwrap() on a None value'')
                 else (case call i (map the vs) of Ok v \<Rightarrow> Inr (Ok (Some v)) | Err e \<Rightarrow> Inr (Err (i, e))))
          else Inr (Ok None))"

fun facet_futures ::
  "(('i \<times> 'e) list \<Rightarrow> 'i \<times> 'e) \<Rightarrow> ('i \<times> 'i list) list \<Rightarrow> ('i \<Rightarrow> 'v list \<Rightarrow> ('v, 'e) result) \<Rightarrow> 'i set \<Rightarrow>
   'i list \<Rightarrow> ('i \<rightharpoonup> ('v option, 'i \<times> 'e) result) \<Rightarrow> ('i \<rightharpoonup> ('v option, 'i \<times> 'e) result) res" where
  "facet_futures pick g call needed [] futs = Inr futs"
| "facet_futures pick g call needed (i # order) futs =
     res_bind (facet_future pick g call needed futs i) (\<lambda>r. facet_futures pick g call needed order (futs(i \<mapsto> r)))"

text \<open>\<open>build_needed\<close> and \<open>get\<close>.\<close>

definition build_needed ::
  "(('i \<times> 'e) list \<Rightarrow> 'i \<times> 'e) \<Rightarrow> ('i \<times> 'i list) list \<Rightarrow> 'i list \<Rightarrow> ('i \<Rightarrow> 'v list \<Rightarrow> ('v, 'e) result) \<Rightarrow> 'i set \<Rightarrow>
   ('i \<rightharpoonup> 'v, 'i \<times> 'e) result res" where
  "build_needed pick g order call needed =
     res_bind (facet_futures pick g call needed order Map.empty) (\<lambda>futs.
       if \<not> list_all (\<lambda>i. futs i \<noteq> None) (map fst g) then Inl (Panic ''cannot find value in this scope'')
       else
         (case try_join pick (map (\<lambda>i. the (futs i)) (map fst g)) of
            Err e \<Rightarrow> Inr (Err e)
          | Ok vs \<Rightarrow> Inr (Ok (\<lambda>i. Option.bind (map_of (zip (map fst g) vs) i) id))))"

definition facet_get :: "('i \<rightharpoonup> 'v) \<Rightarrow> 'i \<Rightarrow> 'v res" where
  "facet_get facets i =
     (case facets i of Some v \<Rightarrow> Inr v | None \<Rightarrow> Inl (Panic ''bug in #[facet::factory]: facet was not marked as needed''))"

fun get_all :: "('i \<rightharpoonup> 'v) \<Rightarrow> 'i list \<Rightarrow> 'v list res" where
  "get_all facets [] = Inr []"
| "get_all facets (i # rest) = res_bind (facet_get facets i) (\<lambda>v. res_bind (get_all facets rest) (\<lambda>vs. Inr (v # vs)))"

definition async_container ::
  "(('i \<times> 'e) list \<Rightarrow> 'i \<times> 'e) \<Rightarrow> ('i \<times> 'i list) list \<Rightarrow> 'i list \<Rightarrow> ('i \<Rightarrow> 'v list \<Rightarrow> ('v, 'e) result) \<Rightarrow> 'i list \<Rightarrow>
   ('v list, 'i \<times> 'e) result res option" where
  "async_container pick g order call wanted =
     map_option (\<lambda>needed. res_bind (build_needed pick g order call needed) (\<lambda>r.
       case r of Err e \<Rightarrow> Inr (Err e) | Ok facets \<Rightarrow> res_bind (get_all facets wanted) (\<lambda>vs. Inr (Ok vs))))
     (fold (\<lambda>i acc. Option.bind acc (need (length g) g i)) wanted (Some {}))"

section \<open>What the asynchronous builder builds\<close>

lemma need_fold:
  assumes "\<And>d S. d \<in> set ds \<Longrightarrow> need n g d S = Some (S \<union> needs g [d])"
  shows "fold (\<lambda>d acc. Option.bind acc (need n g d)) ds (Some S) = Some (S \<union> needs g ds)"
  using assms
proof (induction ds arbitrary: S)
  case (Cons d ds)
  have "fold (\<lambda>d acc. Option.bind acc (need n g d)) ds (Some (S \<union> needs g [d])) = Some (S \<union> needs g [d] \<union> needs g ds)"
    using Cons.IH Cons.prems by simp
  then show ?case using Cons.prems [of d S] needs_Cons [of g d ds] by (simp add: Un_assoc)
qed simp

lemma need_eq:
  assumes "ranked g r"
  shows "i \<in> fst ` set g \<Longrightarrow> r i < n \<Longrightarrow> need n g i S = Some (S \<union> needs g [i])"
proof (induction n arbitrary: i S)
  case (Suc n)
  obtain ds where ds: "map_of g i = Some ds" using Suc.prems(1) by (rule map_of_in)
  have "need n g d S = Some (S \<union> needs g [d])" if "d \<in> set ds" for d S
    using Suc.IH ranked_dep [OF assms ds that] Suc.prems(2) by simp
  from need_fold [OF this, of ds] ds show ?case by (simp add: needs_deps)
qed simp

lemma errs_of_empty: "errs_of rs = [] \<Longrightarrow> rs = map Ok (oks_of rs)"
  by (induction rs rule: errs_of.induct) simp_all

lemma errs_of_map_Ok [simp]: "errs_of (map Ok vs) = []" "oks_of (map Ok vs) = vs"
  by (induction vs) simp_all

lemma set_errs_of: "set (errs_of rs) = {e. Err e \<in> set rs}"
  by (induction rs rule: errs_of.induct) auto

lemma try_join_Ok: "try_join pick rs = Ok vs \<longleftrightarrow> rs = map Ok vs"
  using errs_of_empty [of rs] by (auto simp: try_join_def)

lemma try_join_Err:
  assumes "try_join pick rs = Err e" "\<And>errs. errs \<noteq> [] \<Longrightarrow> pick errs \<in> set errs"
  shows "Err e \<in> set rs"
proof -
  have "e = pick (errs_of rs)" "errs_of rs \<noteq> []" using assms(1) by (auto simp: try_join_def split: if_splits)
  with assms(2) [of "errs_of rs"] show ?thesis by (simp add: set_errs_of)
qed

definition fut_ok ::
  "('i \<times> 'i list) list \<Rightarrow> ('i \<Rightarrow> 'v list \<Rightarrow> ('v, 'e) result) \<Rightarrow> 'i set \<Rightarrow> 'i \<Rightarrow> ('v option, 'i \<times> 'e) result \<Rightarrow> bool" where
  "fut_ok g call needed i r \<longleftrightarrow>
     (case r of
        Ok None \<Rightarrow> i \<notin> needed
      | Ok (Some v) \<Rightarrow> i \<in> needed \<and> built_as g call i v
      | Err (j, e) \<Rightarrow> i \<in> needed \<and> j \<in> needs g [i] \<and> fails g call j e)"

lemma facet_future_ok:
  assumes ds: "map_of g i = Some ds" and futs: "\<And>d. d \<in> set ds \<Longrightarrow> \<exists>r. futs d = Some r \<and> fut_ok g call needed d r"
    and closed: "\<And>d. i \<in> needed \<Longrightarrow> d \<in> set ds \<Longrightarrow> d \<in> needed" and pick: "\<And>errs. errs \<noteq> [] \<Longrightarrow> pick errs \<in> set errs"
  shows "\<exists>r. facet_future pick g call needed futs i = Inr r \<and> fut_ok g call needed i r"
proof (cases "i \<in> needed")
  case True
  have bound: "list_all (\<lambda>d. futs d \<noteq> None) ds" using futs by (fastforce simp: list_all_iff)
  show ?thesis
  proof (cases "try_join pick (map (\<lambda>d. the (futs d)) ds)")
    case (Err e)
    then obtain d where d: "d \<in> set ds" "the (futs d) = Err e" using try_join_Err [OF Err pick] by auto
    then have "futs d = Some (Err e)" "fut_ok g call needed d (Err e)" using futs [of d] by auto
    then have "fut_ok g call needed i (Err e)"
      using True needs_deps [OF ds] d(1) by (auto simp: fut_ok_def needs_def)
    with True ds bound Err show ?thesis by (simp add: facet_future_def)
  next
    case (Ok vs)
    then have vs: "map (\<lambda>d. the (futs d)) ds = map Ok vs" by (simp add: try_join_Ok)
    have ok: "\<exists>u. w = Some u \<and> built_as g call d u" if "d \<in> set ds" "the (futs d) = Ok w" for d w
      using futs [OF that(1)] closed [OF True that(1)] that(2) by (auto simp: fut_ok_def split: option.splits)
    have all: "list_all2 (\<lambda>d w. \<exists>u. w = Some u \<and> built_as g call d u) ds vs"
    proof (rule list_all2_all_nthI)
      show "length ds = length vs" using arg_cong [OF vs, of length] by simp
      fix k assume "k < length ds"
      then show "\<exists>u. vs ! k = Some u \<and> built_as g call (ds ! k) u"
        using ok [of "ds ! k" "vs ! k"] arg_cong [OF vs, of "\<lambda>xs. xs ! k"] arg_cong [OF vs, of length] by simp
    qed
    then have built: "list_all2 (built_as g call) ds (map the vs)" "None \<notin> set vs"
      by (induction rule: list_all2_induct) auto
    show ?thesis
    proof (cases "call i (map the vs)")
      case c: (Ok v)
      then have "built_as g call i v" by (rule built_as.built [OF ds built(1)])
      with True ds bound Ok built(2) c show ?thesis by (simp add: facet_future_def fut_ok_def)
    next
      case (Err e)
      then have "fails g call i e" using ds built(1) by (auto simp: fails_def)
      with True ds bound Ok built(2) Err show ?thesis by (simp add: facet_future_def fut_ok_def needs_def)
    qed
  qed
next
  case False
  moreover have "list_all (\<lambda>d. futs d \<noteq> None) ds" using futs by (fastforce simp: list_all_iff)
  ultimately show ?thesis using ds by (simp add: facet_future_def fut_ok_def)
qed

lemma facet_futures_ok:
  assumes known: "set order \<subseteq> fst ` set g" and dist: "distinct order"
    and before: "\<And>ys i zs d. order = ys @ i # zs \<Longrightarrow> (i, d) \<in> edges g \<Longrightarrow> d \<in> ready \<union> set ys"
    and futs: "\<And>d. d \<in> ready \<Longrightarrow> \<exists>r. futs d = Some r \<and> fut_ok g call needed d r"
    and closed: "\<And>i d. i \<in> needed \<Longrightarrow> (i, d) \<in> edges g \<Longrightarrow> d \<in> needed" and pick: "\<And>errs. errs \<noteq> [] \<Longrightarrow> pick errs \<in> set errs"
    and fresh: "set order \<inter> ready = {}"
  shows "\<exists>futs'. facet_futures pick g call needed order futs = Inr futs' \<and>
    (\<forall>d \<in> ready \<union> set order. \<exists>r. futs' d = Some r \<and> fut_ok g call needed d r)"
  using known dist before futs fresh
proof (induction order arbitrary: futs ready)
  case Nil
  then show ?case by simp
next
  case (Cons i order)
  obtain ds where ds: "map_of g i = Some ds" using Cons.prems(1) by (auto intro: map_of_in)
  have e: "(i, d) \<in> edges g \<longleftrightarrow> d \<in> set ds" for d using ds by (simp add: edges_def)
  have "d \<in> ready" if "d \<in> set ds" for d using Cons.prems(3) [of "[]" i order d] that e by simp
  then have "\<exists>r. facet_future pick g call needed futs i = Inr r \<and> fut_ok g call needed i r"
    using Cons.prems(4) closed e by (intro facet_future_ok [OF ds _ _ pick]) auto
  then obtain r where r: "facet_future pick g call needed futs i = Inr r" "fut_ok g call needed i r" by blast
  have "\<exists>futs'. facet_futures pick g call needed order (futs(i \<mapsto> r)) = Inr futs' \<and>
      (\<forall>d \<in> insert i ready \<union> set order. \<exists>r. futs' d = Some r \<and> fut_ok g call needed d r)"
  proof (rule Cons.IH)
    show "d \<in> insert i ready \<union> set ys" if "order = ys @ j # zs" "(j, d) \<in> edges g" for ys j zs d
      using Cons.prems(3) [of "i # ys" j zs d] that by auto
  qed (use Cons.prems r(2) in auto)
  with r(1) show ?case by simp
qed

lemma build_needed_ok:
  assumes futs: "facet_futures pick g call needed order Map.empty = Inr futs" "\<forall>i \<in> fst ` set g. \<exists>r. futs i = Some r \<and> fut_ok g call needed i r"
    and pick: "\<And>errs. errs \<noteq> [] \<Longrightarrow> pick errs \<in> set errs" and sub: "needed \<subseteq> fst ` set g"
  shows "\<exists>r. build_needed pick g order call needed = Inr r \<and>
    (case r of
       Ok facets \<Rightarrow> dom facets = needed \<and> (\<forall>i v. facets i = Some v \<longrightarrow> built_as g call i v)
     | Err (j, e) \<Rightarrow> \<exists>i \<in> needed. j \<in> needs g [i] \<and> fails g call j e)"
proof -
  have bound: "list_all (\<lambda>i. futs i \<noteq> None) (map fst g)" using futs(2) by (fastforce simp: list_all_iff)
  show ?thesis
  proof (cases "try_join pick (map (\<lambda>i. the (futs i)) (map fst g))")
    case (Err e)
    then obtain i where "i \<in> fst ` set g" "the (futs i) = Err e" using try_join_Err [OF Err pick] by force
    then have "fut_ok g call needed i (Err e)" using futs(2) by force
    with bound Err futs(1) show ?thesis by (auto simp: build_needed_def fut_ok_def)
  next
    case (Ok vs)
    let ?val = "\<lambda>i. hd (oks_of [the (futs i)])"
    have vs: "map (\<lambda>i. the (futs i)) (map fst g) = map Ok vs" using Ok by (simp add: try_join_Ok)
    have each: "the (futs i) = Ok (?val i)" if "i \<in> fst ` set g" for i
    proof -
      have "the (futs i) \<in> set (map Ok vs)" using that unfolding vs [symmetric] by auto
      then show ?thesis by auto
    qed
    have "map (\<lambda>i. the (futs i)) (map fst g) = map (\<lambda>i. Ok (?val i)) (map fst g)"
      by (rule map_cong [OF refl]) (use each in simp)
    from trans [OF vs [symmetric] this] have "vs = map ?val (map fst g)" by (auto simp: list_eq_iff_nth_eq)
    then have facets: "Option.bind (map_of (zip (map fst g) vs) i) id = (if i \<in> fst ` set g then ?val i else None)" for i
      by (simp only: map_of_zip_map set_map) simp
    have "fut_ok g call needed i (Ok (?val i))" if "i \<in> fst ` set g" for i
      using futs(2) each [OF that] that by force
    then have val: "?val i = None \<longleftrightarrow> i \<notin> needed" "?val i = Some v \<Longrightarrow> built_as g call i v" if "i \<in> fst ` set g" for i v
      using that by (fastforce simp: fut_ok_def split: option.splits)+
    have "i \<in> dom (\<lambda>i. if i \<in> fst ` set g then ?val i else None) \<longleftrightarrow> i \<in> needed" for i
      using sub val(1) [of i] by (cases "i \<in> fst ` set g") (auto simp: dom_def)
    then have "dom (\<lambda>i. if i \<in> fst ` set g then ?val i else None) = needed" by blast
    with bound Ok futs(1) facets val(2) show ?thesis by (simp add: build_needed_def)
  qed
qed

lemma get_all_eq: "set wanted \<subseteq> dom facets \<Longrightarrow> get_all facets wanted = Inr (map (\<lambda>i. the (facets i)) wanted)"
  by (induction wanted) (auto simp: facet_get_def)

text \<open>
  C40. The asynchronous builder of a factory returns, for every container whose fields are facets: no future is used before it is
  set up, no facet is missing and nothing panics; every field has the value that its method gave for its dependencies, or
  the result is the error of a method that fails on its dependencies and that the container needs.
\<close>

theorem async_factory_builds:
  assumes fs: "facets_ok fs" and gen: "gen_factory_builder fs = Some (Inr (Ok (Async_Builder g order)))"
    and wanted: "set wanted \<subseteq> set (facet_idents fs)" and pick: "\<forall>errs. errs \<noteq> [] \<longrightarrow> pick errs \<in> set errs"
  shows "\<exists>r. async_container pick g order call wanted = Some (Inr r) \<and>
    (case r of Ok vs \<Rightarrow> list_all2 (built_as g call) wanted vs | Err (i, e) \<Rightarrow> i \<in> needs g wanted \<and> fails g call i e)"
proof -
  obtain r where rk: "ranked g r" "map fst g = facet_idents fs" "\<forall>i \<in> fst ` set g. r i < length g"
      "edges g = depends (facet_params_map fs)"
    using factory_rank [OF fs gen disjI2 [OF refl]] by blast
  have idents: "fst ` set g = set (facet_idents fs)" using arg_cong [OF rk(2), of set] by simp
  have marked: "fold (\<lambda>i acc. Option.bind acc (need (length g) g i)) wanted (Some {}) = Some ({} \<union> needs g wanted)"
    by (rule need_fold, rule need_eq [OF rk(1)]) (use wanted idents rk(3) in auto)
  have topo: "distinct order" "set order = fst ` set g" "\<forall>(i, d) \<in> edges g. \<exists>ys zs. order = ys @ i # zs \<and> d \<in> set ys"
    using async_order [OF fs gen] idents rk(4) by (simp_all add: topological_def)
  have needed: "needs g wanted \<subseteq> fst ` set g"
  proof
    fix j assume "j \<in> needs g wanted"
    then obtain i where "i \<in> set wanted" "(i, j) \<in> (edges g)\<^sup>*" by (auto simp: needs_def)
    from this(2,1) show "j \<in> fst ` set g" using wanted idents rk(1) by (cases rule: rtranclE) (auto simp: ranked_def)
  qed
  have before: "d \<in> {} \<union> set ys" if split: "order = ys @ i # zs" and dep: "(i, d) \<in> edges g" for ys i zs d
  proof -
    obtain ys' zs' where split': "order = ys' @ i # zs'" "d \<in> set ys'" using bspec [OF topo(3) dep] by (simp only: prod.case) iprover
    have "i \<notin> set ys" "i \<notin> set zs" using topo(1) unfolding split by simp_all
    from append_Cons_eq_iff [OF this, of ys' zs'] trans [OF split [symmetric] split'(1)] have "ys' = ys" by blast
    with split'(2) show ?thesis by simp
  qed
  have "\<exists>futs. facet_futures pick g call (needs g wanted) order Map.empty = Inr futs \<and>
      (\<forall>d \<in> {} \<union> set order. \<exists>r. futs d = Some r \<and> fut_ok g call (needs g wanted) d r)"
    by (rule facet_futures_ok) (use topo before pick in \<open>auto simp: needs_def intro: rtrancl_into_rtrancl\<close>)
  then obtain futs where futs: "facet_futures pick g call (needs g wanted) order Map.empty = Inr futs"
      "\<forall>i \<in> fst ` set g. \<exists>r. futs i = Some r \<and> fut_ok g call (needs g wanted) i r" using topo(2) by auto
  obtain res where res: "build_needed pick g order call (needs g wanted) = Inr res"
      "case res of Ok facets \<Rightarrow> dom facets = needs g wanted \<and> (\<forall>i v. facets i = Some v \<longrightarrow> built_as g call i v)
       | Err (j, e) \<Rightarrow> \<exists>i \<in> needs g wanted. j \<in> needs g [i] \<and> fails g call j e"
    using build_needed_ok [OF futs _ needed] pick by blast
  show ?thesis
  proof (cases res)
    case (Ok facets)
    then have "set wanted \<subseteq> dom facets" using res(2) by (auto simp: needs_def)
    moreover have "built_as g call i (the (facets i))" if i: "i \<in> dom facets" for i
    proof -
      obtain v where "facets i = Some v" using i by blast
      then show ?thesis using res(2) Ok by simp
    qed
    ultimately have "list_all2 (built_as g call) wanted (map (\<lambda>i. the (facets i)) wanted)"
      by (auto simp: list.rel_map list_all2_same)
    with Ok res(1) marked get_all_eq [OF \<open>set wanted \<subseteq> dom facets\<close>] show ?thesis by (simp add: async_container_def)
  next
    case (Err e)
    then have "fst e \<in> needs g wanted" using res(2) needs_trans by (auto split: prod.splits)
    with Err res marked show ?thesis by (auto simp: async_container_def)
  qed
qed

theorem async_factory_builds_witness:
  "async_container hd demo_graph [1, 2, 3] demo_call [2, 3] = Some (Inr (Ok [3, 7])) \<and>
   list_all2 (built_as demo_graph demo_call) [2, 3] [3, 7]"
proof -
  have "async_container hd demo_graph [1, 2, 3] demo_call [2, 3] = Some (Inr (Ok [3, 7]))"
    by (simp add: async_container_def demo_graph_def demo_call_def build_needed_def facet_future_def try_join_def facet_get_def eval_nat_numeral)
  then show ?thesis
    using async_factory_builds [OF demo_ok demo_async, of "[2, 3]" hd demo_call] by (simp add: demo_factory_def)
qed

end
