(* ===== verification/Spec2Isabelle.thy ===== *)
theory Spec2Isabelle
  imports Sorted_Vector_Map Sorted_Vector_Set Netstring Bounded_Tree Bounded_Stream Bounded_Dag
    Ordered_Stream Weighted_Buffer Futures_Retry Hash_Memo Scuba_Sample Ordered_Correct Just_Knobs
    Thrift_Framed Thrift_Adapters Futures_01_Ext Stream_Fork Async_Once_Cell
    Sqlite_Guard Sql_Transaction Sql_Query Futures_Stats Thread_Stats Facet_Factory
begin

text \<open>
  Verified models of the libraries of \<open>rust-shed\<close> (\<open>src/shed\<close>), a collection of small crates that other
  programs use.  The crates with logic of their own are modelled as executable HOL functions,
  translated from the source function by function under the source's names (with a prefix where a name
  clashes); the properties are proved about those functions.

  \<^bold>\<open>Conventions.\<close>  A Rust \<open>struct\<close> is a record, an \<open>enum\<close> a datatype.  A function that may panic returns
  \<open>'a res = panic + 'a\<close> (\<open>Rust_Prelude\<close>) with every index out of range, failed assertion, \<open>unwrap\<close> and checked
  subtraction as a branch; \<open>Result\<close> is the datatype \<open>result\<close> with \<open>Ok\<close> and \<open>Err\<close>.  Integers whose width
  matters are words, or naturals with the wrap-around written out and the build profile (overflow
  checks or none) as an argument.  Asynchronous code is a state with one poll or turn function; whatever the
  runtime decides (which running future completes next, whether an inner stream has an item, what
  the clock or the memory statistics say) is an argument of the turn, and the properties hold for all
  such arguments.  Callbacks of the caller and type parameters (\<open>Ord\<close>, \<open>Hash\<close>, \<open>Borrow\<close>) are
  parameters of the definitions.  Code that is not in the repository (\<open>FuturesUnordered\<close>, \<open>BytesMut\<close>, \<open>serde\<close>,
  \<open>procfs\<close>) is modelled only by what the sources rely on, and where the behaviour is not fixed, by a parameter.

  \<^bold>\<open>Shared theories.\<close>  \<open>Rust_Prelude\<close>: panics, results, vectors, checked arithmetic, generic lemmas and the
  named theorem collections.  \<open>Slice_Search\<close>: \<open>binary_search_by\<close> of the standard library.  \<open>Rust_Iter\<close>: iterators
  with the locale \<open>finite_iterator\<close>.  \<open>Ordered_Map_Spec\<close>: the contract of an ordered map, as the locales
  \<open>ordered_map\<close> and \<open>ordered_map_bulk\<close>.  \<open>Rust_Ints\<close>: the integer types, \<open>as\<close> casts, decimal text.  \<open>Framed_Codec\<close>: a
  reader that feeds a decoder with chunks, with the locale \<open>frame_codec\<close> for decoders of framed messages.  \<open>Poll_Streams\<close>: polling, with the locales \<open>ordered_progress\<close>,
  \<open>future_progress\<close> and \<open>poll_progress\<close>, which turn facts about one poll into facts about whole runs.

  \<^bold>\<open>sorted_vector_map\<close> (\<open>map.rs\<close>, \<open>set.rs\<close>; theories \<open>Sorted_Iters\<close>, \<open>Sorted_Vector_Map\<close>, \<open>Sorted_Vector_Set\<close>).  The map is its
  sorted vector of pairs; \<open>svm_*\<close> and \<open>svs_*\<close> are the methods, with the entry API, ranges, splitting, bulk
  insertion with all its fast paths, the merging iterators and the set operators.  Shown: every run of
  operations refines a finite map and keeps the vector strictly sorted; bulk insertion equals
  inserting one by one; \<open>range\<close> and its panics; split and append are inverse; the set operators and
  inclusion tests; size hints.

  \<^bold>\<open>netstring\<close> (\<open>Netstring\<close>).  Decoder with its saved state, encoder, overflow of the length by build profile.
  Shown: any cut of an encoded stream into chunks decodes to the messages; the decoder implements the
  grammar; what it accepts exactly; an error is final.

  \<^bold>\<open>bounded_traversal\<close> (\<open>Bounded_Common\<close>, \<open>Bounded_Tree\<close>, \<open>Bounded_Dag\<close>, \<open>Bounded_Stream\<close>, \<open>Ordered_Stream\<close>,
  \<open>Ordered_Tree\<close>, \<open>Ordered_Correct\<close>).  A traversal is a record with its queues, its running jobs and its
  execution tree.  Shown: the tree and graph traversals return the recursive fold, within a number of
  turns that the size of the input bounds; at most \<open>scheduled_max\<close> jobs run; the unordered streams yield
  each node once and end; the ordered stream yields the depth-first sequence, cut at its limit, and
  never underflows a budget or reaches a programming error; on a concrete tree the limited ordered stream
  starves, its budgets having expired.  The loops of the ordered stream over
  its execution tree are given the fuel \<open>os_fuel\<close>, three times the number of nodes and three more; \<open>Ordered_Correct\<close> proves
  that it never runs out, since a loop visits a node at most once on the way down and once on the way up.

  \<^bold>\<open>Streams and futures\<close> (\<open>Weighted_Buffer\<close> for \<open>buffered_weighted\<close> and the weight-limited buffer of \<open>futures_ext\<close>,
  \<open>Futures_Retry\<close> for \<open>futures_retry\<close>, \<open>Durations\<close> for \<open>time_ext\<close>).  Shown: outputs in order and the stream
  ends; the weights in flight stay below the limit; retrying refines a plain sequence of
  attempts, ends under \<open>max_attempts\<close>, and panics under unlimited Fibonacci backoff.

  \<^bold>\<open>Wrappers of streams and futures\<close> (\<open>Stream_Wrappers\<close> for \<open>futures_ext\<close>; \<open>Futures_01\<close>, \<open>Futures_01_Ext\<close> and \<open>Stream_Fork\<close> for
  \<open>futures_01_ext\<close>).  A stream is the list of its answers to polls.  Shown: the deadline of a stream with a timeout; the budget of
  a stream that yields periodically; when the remainder of a stream comes back; batching loses nothing; the futures of an
  ordered sequence run one by one; the weight-limited buffer of version 0.1 loses the weight of a failed
  future; what the halves of a split stream return; \<open>select_all\<close> yields everything; a fork delivers to
  each sink its share.  The sinks of a fork are parameters with the laws \<open>sink_laws\<close>, which the delaying sink of the
  crate's tests satisfies.

  \<^bold>\<open>async_once_cell\<close> (\<open>Async_Once_Cell\<close>).  Tasks that step through the operations of one cell, in any interleaving, with
  futures dropped at their await points.  Memory is sequentially consistent.  Shown: no panic, one initializer at a time, the value never changes, no
  deadlock.

  \<^bold>\<open>fbthrift_ext\<close> (\<open>Thrift_Framed\<close>, \<open>Thrift_Adapters\<close>).  The framed transport and the adapters between Rust types and message
  fields, with the locales \<open>thrift_adapter\<close> and \<open>exact_adapter\<close>.  Shown: any part of an encoded stream gives the complete
  payloads, and what a header that wraps does; the integer adapters are bijections; clipping and wrapping of durations;
  the text of an IPv4 address is unique.

  \<^bold>\<open>Configuration\<close> (\<open>Cached_Config\<close> for \<open>cached_config\<close>, \<open>Just_Knobs\<close> for \<open>justknobs_stub\<close>).  The store with its sources, handles and
  client lists, one iteration of the updater thread, watchers, the knobs of a thread and of the process.  Shown: after an update handles return
  what their files have; the lists hold exactly the entities in use; knobs follow the configuration; overrides are scoped.

  \<^bold>\<open>Logging\<close> (\<open>Sampling\<close> for \<open>sampling\<close>, \<open>Scuba_Value\<close> and \<open>Scuba_Sample\<close> for \<open>scuba_sample\<close>).  The store of shared counters
  and the log file are explicit.  Shown: sequence numbers are consecutive over a builder and its clones; the
  JSON of a sample; round trips of values through integers, maps and serialization; recorded sample rates.

  \<^bold>\<open>hash_memo\<close> (\<open>Hash_Memo\<close>).  Hashers as the list of writes they receive.  Shown: a value and its memoizers hash alike;
  what the memoizing hasher ignores.

  \<^bold>\<open>sql\<close> (\<open>Sqlite_Guard\<close>, \<open>Sql_Transaction\<close>, \<open>Sql_Query\<close>).  The guard of a SQLite connection as tasks that step through the locks and condition variables of
  \<open>common/sqlite.rs\<close>; transactions and queries on SQLite over the laws \<open>sqlite_laws\<close> of the database, which a small database of
  numbers satisfies; the text and the parameters that the macro \<open>queries!\<close> generates for both databases, and the conversions of
  values.  Shown: one guard at a time, no lost wake-up and no deadlock; a transaction is all or nothing, but a
  failed write leaves it open on the connection; both databases are asked the same when the names of parameters are
  distinct, which they need not be; which values come back from SQLite; rows are converted exactly.

  \<^bold>\<open>futures_stats\<close> (\<open>Futures_Stats\<close>).  Polls with the readings of the clock that the code makes.  Shown: the statistics of a timed future, and
  that the callback of a timed stream is called once with the statistics of its polls.

  \<^bold>\<open>perthread and stats\<close> (\<open>Thread_Stats\<close>).  The map of pointers to values of threads with an explicit heap, the factory of statistics with its race, and
  statistics by key.  Shown: no pointer to a freed value is followed, and a walk sees every value; all managers come from
  one factory, and a refused registration poisons it; the uses of one key do not meet those of another.

  \<^bold>\<open>facet\<close> (\<open>Facet_Factory\<close>).  The macro \<open>facet::factory\<close> after parsing and the builders that it generates; the depth of the calls of
  builders is bounded by the number of facets, which is enough as no facet depends on itself.  Shown: the macro ends, finds exactly the
  cycles and orders the facets topologically; both builders fill a container with the values of the
  methods or return the error of one.

  \<^bold>\<open>Not modelled.\<close>  Crates that only wrap system calls, the network or another runtime (\<open>async_process_traits\<close>, \<open>detect_eden\<close>, \<open>fbinit\<close>,
  \<open>fsiomicrobench\<close>, \<open>hostname\<close>, \<open>hostcaps\<close>, \<open>panichandler\<close>, \<open>services\<close>, \<open>secure_utils\<close>, \<open>tokio-uds-compat\<close>), procedural macros and code
  generation (the other macros of \<open>facet\<close>, \<open>codegen_includer_proc_macro\<close>, \<open>quickcheck_arbitrary_derive\<close>, \<open>thrift_compiler\<close>), stubs without behaviour
  (\<open>memcache_stub\<close>, \<open>cachelib_stub\<close>, \<open>scuba_stub\<close>, \<open>ods\<close>), and crates whose content is trait plumbing (\<open>borrowed\<close>, \<open>cloned\<close>, \<open>hlist_to_tuple\<close>,
  \<open>failure_ext\<close>, \<open>shared_error\<close>), the MySQL variants of \<open>sql\<close>, which are calls of client libraries, and the expansion of macros
  (\<open>queries!\<close>, \<open>define_stats!\<close>), of which the generated functions are modelled.  Of the modelled crates, wakers and the scheduling of tasks are not
  modelled: a poll that returns \<open>Pending\<close> is polled again whenever the caller likes.  Hash functions, floating point
  arithmetic and JSON printing are parameters.
\<close>

end
